(* ===== verification/Pf_Prelude.thy ===== *)
theory Pf_Prelude
  imports Main "HOL-Library.Multiset" "HOL-Library.Word"
begin

text \<open>
  Shared vocabulary of the PipeFabric development: stream events as the operators exchange
  them over their data and punctuation channels, the error values that stand for the
  exceptions, failed assertions and undefined accesses of the C++ code, the synchronous run
  of an operator over a sequence of events, and the interfaces (locales) an operator or an
  aggregate promises to its clients.
\<close>

section \<open>Collections of facts\<close>

named_theorems op_defs \<open>definitions of operator handlers\<close>
named_theorems ev_simps \<open>projections of event lists\<close>
named_theorems tbl_defs \<open>definitions of table operations\<close>

section \<open>Basic types\<close>

type_synonym TransactionID = "64 word"
type_synonym Timestamp = int
type_synonym uint = "32 word"

text \<open>\<open>Punctuation::PType\<close> of \<open>core/Punctuation.hpp\<close>, with its enumerators in order.\<close>

datatype PType = PNone | EndOfStream | EndOfSubStream | WindowExpired | SlideExpired
  | TxBegin | TxCommit | TxAbort | PAll

text \<open>
  A punctuation: its type and its user data (a \<open>boost::any\<close>, empty or holding the
  \<open>TransactionID\<close> that the transactional operators read). The creation timestamp is not
  modelled: no operator reads it.
\<close>

record Punctuation =
  mPtype :: PType
  mData :: "TransactionID option"

definition mkPunctuation :: "PType \<Rightarrow> Punctuation" where
  "mkPunctuation pt = \<lparr>mPtype = pt, mData = None\<rparr>"

definition mkPunctuationVal :: "PType \<Rightarrow> TransactionID \<Rightarrow> Punctuation" where
  "mkPunctuationVal pt v = \<lparr>mPtype = pt, mData = Some v\<rparr>"

text \<open>
  What travels over the channels: a data element with its \<open>outdated\<close> flag, or a
  punctuation. An operator publishes on two channels; since publishing calls the slots of
  the subscribers synchronously, the order of all its publications is one list.
\<close>

datatype 'a event = Data 'a bool | Punct Punctuation

text \<open>Failures of the C++ code: exceptions, failed assertions, undefined behaviour.\<close>

datatype op_error =
    BadGet            \<comment> \<open>\<open>boost::get\<close> on a variant that holds the other type\<close>
  | BadFunctionCall   \<comment> \<open>call of an empty \<open>std::function\<close>\<close>
  | BadAnyCast        \<comment> \<open>\<open>boost::any_cast\<close> on an empty value\<close>
  | LengthError       \<comment> \<open>\<open>std::length_error\<close>\<close>
  | EmptyAccess       \<comment> \<open>\<open>front\<close>, \<open>back\<close> or \<open>pop_front\<close> on an empty container (undefined)\<close>
  | OutOfBounds       \<comment> \<open>array or iterator access outside its range (undefined)\<close>
  | UseAfterErase     \<comment> \<open>dereference of an erased iterator (undefined)\<close>
  | AssertFailed      \<comment> \<open>\<open>assert\<close> or \<open>BOOST_ASSERT\<close>\<close>
  | SelfDeadlock      \<comment> \<open>a thread locks a non-recursive mutex it already holds\<close>
  | KeyNotFound       \<comment> \<open>\<open>TableException("key not found")\<close>\<close>
  | NullPointer       \<comment> \<open>dereference of an empty smart pointer (undefined)\<close>
  | DivByZero         \<comment> \<open>integer division by zero (undefined)\<close>
  | TopologyException string
  | TableException string
  | FutureError       \<comment> \<open>\<open>std::future_error\<close>: \<open>get\<close> on a future without state\<close>
  | LogicError        \<comment> \<open>\<open>std::logic_error\<close>\<close>

type_synonym 'a res = "op_error + 'a"

fun bind_res :: "'a res \<Rightarrow> ('a \<Rightarrow> 'b res) \<Rightarrow> 'b res" where
  "bind_res (Inl e) f = Inl e"
| "bind_res (Inr x) f = f x"

text \<open>Runs of an operator over the events it receives, outputs in publication order.\<close>

type_synonym ('s, 'a, 'b) opstep = "'s \<Rightarrow> 'a event \<Rightarrow> ('s \<times> 'b event list) res"

fun run :: "('s, 'a, 'b) opstep \<Rightarrow> 's \<Rightarrow> 'a event list \<Rightarrow> ('s \<times> 'b event list) res" where
  "run f s [] = Inr (s, [])"
| "run f s (e # es) =
     (case f s e of Inl err \<Rightarrow> Inl err
      | Inr (s1, o1) \<Rightarrow>
          (case run f s1 es of Inl err \<Rightarrow> Inl err
           | Inr (s2, o2) \<Rightarrow> Inr (s2, o1 @ o2)))"

text \<open>
  Two connected operators: publishing calls the slots of the subscriber, so the second
  operator handles everything the first one publishes for an event before the next event.
\<close>

definition compose_step :: "('s, 'a, 'b) opstep \<Rightarrow> ('t, 'b, 'c) opstep \<Rightarrow> ('s \<times> 't, 'a, 'c) opstep" where
  "compose_step f g st e =
     (case st of (s, t) \<Rightarrow>
        (case f s e of Inl err \<Rightarrow> Inl err
         | Inr (s1, o1) \<Rightarrow>
             (case run g t o1 of Inl err \<Rightarrow> Inl err
              | Inr (t1, o2) \<Rightarrow> Inr ((s1, t1), o2))))"

text \<open>The elements published as new, as outdated, and the punctuations of an event list.\<close>

fun news :: "'a event list \<Rightarrow> 'a list" where
  "news [] = []"
| "news (Data x od # es) = (if od then news es else x # news es)"
| "news (Punct p # es) = news es"

fun olds :: "'a event list \<Rightarrow> 'a list" where
  "olds [] = []"
| "olds (Data x od # es) = (if od then x # olds es else olds es)"
| "olds (Punct p # es) = olds es"

fun puncts :: "'a event list \<Rightarrow> Punctuation list" where
  "puncts [] = []"
| "puncts (Data x od # es) = puncts es"
| "puncts (Punct p # es) = p # puncts es"

abbreviation new_tuples :: "'a list \<Rightarrow> 'a event list" where
  "new_tuples xs \<equiv> map (\<lambda>x. Data x False) xs"

abbreviation old_tuples :: "'a list \<Rightarrow> 'a event list" where
  "old_tuples xs \<equiv> map (\<lambda>x. Data x True) xs"

definition last_n :: "nat \<Rightarrow> 'a list \<Rightarrow> 'a list" where
  "last_n n xs = drop (length xs - n) xs"

section \<open>Generic lemmas\<close>

lemma news_append [simp]: "news (es @ fs) = news es @ news fs"
  by (induction es rule: news.induct) auto

lemma olds_append [simp]: "olds (es @ fs) = olds es @ olds fs"
  by (induction es rule: olds.induct) auto

lemma puncts_append [simp]: "puncts (es @ fs) = puncts es @ puncts fs"
  by (induction es rule: puncts.induct) auto

lemma news_new_tuples [simp]: "news (new_tuples xs) = xs"
  by (induction xs) auto

lemma news_old_tuples [simp]: "news (old_tuples xs) = []"
  by (induction xs) auto

lemma olds_new_tuples [simp]: "olds (new_tuples xs) = []"
  by (induction xs) auto

lemma olds_old_tuples [simp]: "olds (old_tuples xs) = xs"
  by (induction xs) auto

lemma puncts_tuples [simp]: "puncts (new_tuples xs) = []" "puncts (old_tuples xs) = []"
  by (induction xs) auto

lemmas ev_projections [ev_simps] = news_append olds_append puncts_append news_new_tuples
  news_old_tuples olds_new_tuples olds_old_tuples puncts_tuples

lemma run_append:
  "run f s (es @ fs) =
     (case run f s es of Inl err \<Rightarrow> Inl err
      | Inr (s1, o1) \<Rightarrow>
          (case run f s1 fs of Inl err \<Rightarrow> Inl err
           | Inr (s2, o2) \<Rightarrow> Inr (s2, o1 @ o2)))"
  by (induction es arbitrary: s) (auto split: sum.splits)

text \<open>If neither stage fails, a pipeline can be understood stage by stage.\<close>

lemma run_compose:
  "run f s es = Inr (s1, o1) \<Longrightarrow> run g t o1 = Inr (t1, o2) \<Longrightarrow>
   run (compose_step f g) (s, t) es = Inr ((s1, t1), o2)"
  by (induction es arbitrary: s t o1 o2)
    (fastforce simp: compose_step_def run_append split: sum.splits prod.splits)+

lemma bind_res_Inr [simp]: "bind_res r f = Inr y \<longleftrightarrow> (\<exists>x. r = Inr x \<and> f x = Inr y)"
  by (cases r) auto

lemma run_snoc:
  assumes "run f s es = Inr (s1, o1)" and "f s1 e = Inr (s2, o2)"
  shows "run f s (es @ [e]) = Inr (s2, o1 @ o2)"
  using assms by (simp add: run_append)

lemma run_snoc_Inr:
  assumes "run f s (es @ [e]) = Inr (s2, os)"
  obtains s1 o1 o2 where "run f s es = Inr (s1, o1)" and "f s1 e = Inr (s2, o2)"
    and "os = o1 @ o2"
  using assms by (auto simp: run_append split: sum.splits prod.splits)

lemma last_n_length: "length (last_n n xs) = min n (length xs)"
  by (simp add: last_n_def)

lemma last_n_all: "length xs \<le> n \<Longrightarrow> last_n n xs = xs"
  by (simp add: last_n_def)

lemma last_n_snoc_short: "length xs < n \<Longrightarrow> last_n n (xs @ [x]) = xs @ [x]"
  by (simp add: last_n_def)

lemma last_n_snoc_full:
  "n \<le> length xs \<Longrightarrow> last_n n xs @ [x] = xs ! (length xs - n) # last_n n (xs @ [x])" if "0 < n"
proof -
  assume le: "n \<le> length xs"
  have "drop (length xs - n) xs = xs ! (length xs - n) # drop (Suc (length xs - n)) xs"
    using that le by (simp add: Cons_nth_drop_Suc)
  moreover have "Suc (length xs) - n = Suc (length xs - n)"
    using le by simp
  ultimately show ?thesis
    using that le by (simp add: last_n_def)
qed

lemma last_n_zero [simp]: "last_n 0 xs = []"
  by (simp add: last_n_def)

section \<open>Interfaces\<close>

text \<open>
  An operator whose handlers never fail on states that satisfy its invariant, and keep it.
  Its clients get totality and the invariant for whole runs.
\<close>

locale total_operator =
  fixes step :: "('s, 'a, 'b) opstep"
    and inv :: "'s \<Rightarrow> bool"
    and admissible :: "'s \<Rightarrow> 'a event \<Rightarrow> bool"
  assumes step_total: "inv s \<Longrightarrow> admissible s e \<Longrightarrow> \<exists>s' os. step s e = Inr (s', os)"
    and step_inv: "inv s \<Longrightarrow> admissible s e \<Longrightarrow> step s e = Inr (s', os) \<Longrightarrow> inv s'"
begin

fun all_admissible :: "'s \<Rightarrow> 'a event list \<Rightarrow> bool" where
  "all_admissible s [] = True"
| "all_admissible s (e # es) =
     (admissible s e \<and> (\<forall>s' os. step s e = Inr (s', os) \<longrightarrow> all_admissible s' es))"

lemma run_total: "inv s \<Longrightarrow> all_admissible s es \<Longrightarrow> \<exists>s' os. run step s es = Inr (s', os) \<and> inv s'"
proof (induction es arbitrary: s)
  case Nil
  then show ?case by simp
next
  case (Cons e es)
  then obtain s1 o1 where st: "step s e = Inr (s1, o1)"
    using step_total by fastforce
  with Cons.prems have "inv s1" and "all_admissible s1 es"
    using step_inv by auto
  then obtain s2 o2 where "run step s1 es = Inr (s2, o2)" and "inv s2"
    using Cons.IH by blast
  with st show ?case by simp
qed

end

text \<open>
  An operator that keeps tuples: every tuple that enters is either still in its content or
  has been published as outdated. The windows promise this to the operators behind them.
\<close>

locale conserving_operator = total_operator step inv "\<lambda>_ e. \<exists>x. e = Data x False"
  for step :: "('s, 'a, 'a) opstep" and inv :: "'s \<Rightarrow> bool" +
  fixes content :: "'s \<Rightarrow> 'a multiset"
  assumes step_conserves:
    "inv s \<Longrightarrow> step s (Data x False) = Inr (s', os) \<Longrightarrow>
     content s' + mset (olds os) = content s + {#x#}"
begin

lemma admissible_new_tuples: "all_admissible s (new_tuples xs)"
  by (induction xs arbitrary: s) auto

lemma run_conserves:
  "inv s \<Longrightarrow> \<exists>s' os. run step s (new_tuples xs) = Inr (s', os) \<and> inv s' \<and>
     content s' + mset (olds os) = content s + mset xs"
proof (induction xs arbitrary: s)
  case Nil
  then show ?case by simp
next
  case (Cons x xs)
  obtain s1 o1 where st: "step s (Data x False) = Inr (s1, o1)"
    using step_total Cons.prems by blast
  then have inv1: "inv s1" and c1: "content s1 + mset (olds o1) = content s + {#x#}"
    using step_inv step_conserves Cons.prems by blast+
  obtain s2 o2 where r: "run step s1 (new_tuples xs) = Inr (s2, o2)" and inv2: "inv s2"
    and c2: "content s2 + mset (olds o2) = content s1 + mset xs"
    using Cons.IH [OF inv1] by blast
  have "content s2 + mset (olds (o1 @ o2)) = content s1 + mset xs + mset (olds o1)"
    using c2 by (simp add: ac_simps)
  also have "\<dots> = content s + mset (x # xs)"
    using c1 by (simp add: ac_simps)
  finally have "content s2 + mset (olds (o1 @ o2)) = content s + mset (x # xs)" .
  with st r inv2 show ?case by simp
qed

end

section \<open>Decimal numbers\<close>

text \<open>\<open>std::to_string\<close> and the output operator of streams for unsigned numbers.\<close>

fun to_string :: "nat \<Rightarrow> string" where
  "to_string n = (if n < 10 then [char_of (48 + n)] else to_string (n div 10) @ [char_of (48 + n mod 10)])"

declare to_string.simps [simp del]

end
