(* ===== verification/Text_IO.thy ===== *)
theory Text_IO
  imports Pf_Prelude
begin

text \<open>
  Text input and output: the file source (\<open>qop/TextFileSource.cpp\<close>, its three readers), the
  extraction of fields (\<open>qop/TupleExtractor.hpp\<close>), the attribute parsers (\<open>core/parser\<close>) and the
  printer of tuples (\<open>core/TuplePrinter.hpp\<close>, \<open>qop/ConsoleWriter.hpp\<close>). A line reaches the extractor as
  a pointer into a buffer that the source reuses, so an element of the line stream is the
  buffer at the time of its publication. The conversions of numbers are those of the C
  library or of Boost, chosen by a build option, and a parameter here.
\<close>

section \<open>Reading files\<close>

abbreviation NUL :: char where "NUL \<equiv> CHR 0x00"
abbreviation newline :: char where "newline \<equiv> CHR 0x0A"

definition MAX_TUPLE_SIZE :: nat where
  "MAX_TUPLE_SIZE = 10240"

text \<open>A published line: the buffer from the begin pointer on, and the size of the reference.\<close>

record Line =
  buffer :: string
  line_size :: nat

text \<open>\<open>strchr\<close> on a memory region: a position, not found before a NUL, or the end of the region.\<close>

fun strchr :: "char \<Rightarrow> string \<Rightarrow> nat option res" where
  "strchr c [] = Inl OutOfBounds"
| "strchr c (x # xs) =
     (if x = c then Inr (Some 0) else if x = NUL then Inr None
      else bind_res (strchr c xs) (\<lambda>r. Inr (map_option Suc r)))"

text \<open>\<open>memcpy\<close> into a buffer.\<close>

definition memcpy :: "string \<Rightarrow> nat \<Rightarrow> string \<Rightarrow> string res" where
  "memcpy dst off src =
     (if off + length src \<le> length dst then Inr (take off dst @ src @ drop (off + length src) dst) else Inl OutOfBounds)"

text \<open>
  \<open>readMemoryMappedFile\<close>: the region is the mapped file with the zeros that fill its last page. A file whose size is a multiple of
  the page size has none of them: its region holds no NUL, and the search behind the last line fails with \<open>OutOfBounds\<close> here, where the code reads past the mapping.
  The limit is reached when the counter equals it, so a limit of zero is none.
\<close>

lemma strchr_bound: "strchr c xs = Inr (Some k) \<Longrightarrow> k < length xs"
proof (induction xs arbitrary: k)
  case (Cons x xs)
  then show ?case by (cases "strchr c xs") (auto split: if_splits)
qed simp

function mm_loop :: "string \<Rightarrow> string \<Rightarrow> nat \<Rightarrow> nat \<Rightarrow> (Line list \<times> nat) res" where
  "mm_loop store p ntuples maxTuples =
     (case strchr newline p of
        Inl e \<Rightarrow> Inl e
      | Inr None \<Rightarrow> Inr ([], ntuples)
      | Inr (Some k) \<Rightarrow>
          bind_res (memcpy store 0 (take (Suc k) p)) (\<lambda>store1.
            let store2 = store1[k := NUL]; line = \<lparr>buffer = store2, line_size = k\<rparr>
            in if Suc ntuples = maxTuples then Inr ([line], Suc ntuples)
               else bind_res (mm_loop store2 (drop (Suc k) p) (Suc ntuples) maxTuples) (\<lambda>(ls, n). Inr (line # ls, n))))"
  by pat_completeness auto
termination
  by (relation "measure (\<lambda>(store, p, n, m). length p)") (auto dest: strchr_bound)

declare mm_loop.simps [simp del]

definition readMemoryMappedFile :: "string \<Rightarrow> string \<Rightarrow> nat \<Rightarrow> (Line list \<times> nat) res" where
  "readMemoryMappedFile store region maxTuples = mm_loop store region 0 maxTuples"

text \<open>
  \<open>readRawFile\<close>: the chunks that \<open>read\<close> returns; \<open>start\<close> characters of an unfinished line are at the
  begin of the store, and \<open>remaining\<close> is the position behind the last newline, which is not
  reset for a new chunk.
\<close>

fun find_char :: "char \<Rightarrow> string \<Rightarrow> nat option" where
  "find_char c [] = None"
| "find_char c (x # xs) = (if x = c then Some 0 else map_option Suc (find_char c xs))"

lemma find_char_bound: "find_char c xs = Some k \<Longrightarrow> k < length xs"
  by (induction xs arbitrary: k) (auto split: if_splits)

record RawState =
  rStore :: string
  rStart :: nat
  rRemaining :: nat
  rTuples :: nat

text \<open>The loop over one chunk, from position \<open>pos\<close>; the flag says that the limit was reached.\<close>

function raw_chunk :: "string \<Rightarrow> nat \<Rightarrow> nat \<Rightarrow> RawState \<Rightarrow> (Line list \<times> RawState \<times> bool) res" where
  "raw_chunk buf pos maxTuples s =
     (case find_char newline (drop pos buf) of
        None \<Rightarrow> Inr ([], s, False)
      | Some k \<Rightarrow>
          if \<not> (k + 1 + rStart s < MAX_TUPLE_SIZE) then Inl AssertFailed
          else bind_res (memcpy (rStore s) (rStart s) (take (Suc k) (drop pos buf))) (\<lambda>store1.
            let store2 = store1[k + rStart s := NUL]; line = \<lparr>buffer = store2, line_size = k + rStart s\<rparr>
            in if Suc (rTuples s) = maxTuples then Inr ([line], s\<lparr>rStore := store2, rTuples := Suc (rTuples s)\<rparr>, True)
               else bind_res (raw_chunk buf (pos + k + 1) maxTuples
                        (s\<lparr>rStore := store2, rTuples := Suc (rTuples s), rStart := 0, rRemaining := pos + k + 1\<rparr>))
                      (\<lambda>(ls, s', stop). Inr (line # ls, s', stop))))"
  by pat_completeness auto
termination
  by (relation "measure (\<lambda>(buf, pos, m, s). length buf - pos)") (auto dest: find_char_bound)

declare raw_chunk.simps [simp del]

fun raw_loop :: "string list \<Rightarrow> nat \<Rightarrow> RawState \<Rightarrow> (Line list \<times> nat) res" where
  "raw_loop [] maxTuples s = Inr ([], rTuples s)"
| "raw_loop (buf # bufs) maxTuples s =
     (if buf = [] then Inr ([], rTuples s)
      else bind_res (raw_chunk buf 0 maxTuples s) (\<lambda>(ls, s1, stop).
        if stop then Inr (ls, rTuples s1)
        else bind_res (if rRemaining s1 < length buf
               then bind_res (memcpy (rStore s1) 0 (drop (rRemaining s1) buf)) (\<lambda>store.
                      Inr (s1\<lparr>rStore := store, rStart := length buf - rRemaining s1\<rparr>))
               else Inr s1)
             (\<lambda>s2. bind_res (raw_loop bufs maxTuples s2) (\<lambda>(ls2, n). Inr (ls @ ls2, n)))))"

definition readRawFile :: "string \<Rightarrow> string list \<Rightarrow> nat \<Rightarrow> (Line list \<times> nat) res" where
  "readRawFile store chunks maxTuples = raw_loop chunks maxTuples \<lparr>rStore = store, rStart = 0, rRemaining = 0, rTuples = 0\<rparr>"

text \<open>\<open>readCompressedFile\<close>: the lines of the decompressed stream, each in its own string.\<close>

definition readCompressedFile :: "string list \<Rightarrow> nat \<Rightarrow> Line list \<times> nat" where
  "readCompressedFile ls maxTuples =
     (let ls' = (if maxTuples = 0 then ls else take maxTuples ls)
      in (map (\<lambda>l. \<lparr>buffer = l @ [NUL], line_size = length l\<rparr>) ls', length ls'))"

text \<open>
  \<open>start\<close> chooses the reader by the name of the file, publishes the lines and then the end of the
  stream. The comparison of suffixes is a parameter (\<open>boost::algorithm::iends_with\<close>).
\<close>

definition source_start :: "(string \<Rightarrow> string \<Rightarrow> bool) \<Rightarrow> string \<Rightarrow> Line list \<times> nat \<Rightarrow> (Line list \<times> nat) res \<Rightarrow> (Line event list \<times> nat) res" where
  "source_start iends_with fileName compressed mapped =
     bind_res (if iends_with fileName ''.gz'' \<or> iends_with fileName ''.bz2'' then Inr compressed else mapped)
       (\<lambda>(ls, n). Inr (map (\<lambda>l. Data l False) ls @ [Punct (mkPunctuation EndOfStream)], n))"

section \<open>Extraction of fields\<close>

text \<open>
  The loop of \<open>processDataElement\<close>, for the attributes that are left, on the memory from the
  current position on; a field that is empty or missing is a null value. After a field the
  position is advanced over the character that ended it, also when this is the terminating
  NUL.
\<close>

fun line_fields :: "nat \<Rightarrow> char \<Rightarrow> string \<Rightarrow> string option list res" where
  "line_fields 0 ifs mem = Inr []"
| "line_fields (Suc n) ifs [] = Inl OutOfBounds"
| "line_fields (Suc n) ifs (c # mem) =
     (if c = NUL then Inr (replicate (Suc n) None)
      else let item = takeWhile (\<lambda>x. x \<noteq> NUL \<and> x \<noteq> ifs) (c # mem); rest = drop (length item) (c # mem)
        in if rest = [] then Inl OutOfBounds
           else bind_res (line_fields n ifs (tl rest)) (\<lambda>fs. Inr ((if item = [] then None else Some item) # fs)))"

section \<open>Attributes\<close>

datatype tty = TyInt | TyLong | TyDouble | TyString | TyCast

datatype ('d, 'o) tval = VInt int | VLong int | VDouble 'd | VString string | VCast 'o

text \<open>
  The conversions: \<open>int\<close>, \<open>long\<close> and \<open>double\<close> by the parser of the build, the other types by
  \<open>boost::lexical_cast\<close>, \<open>None\<close> for \<open>bad_lexical_cast\<close>. \<open>show_double\<close> is the output operator.
\<close>

record ('d, 'o) Conversions =
  int_of :: "string \<Rightarrow> int"
  long_of :: "string \<Rightarrow> int"
  double_of :: "string \<Rightarrow> 'd"
  lexical_cast :: "string \<Rightarrow> 'o option"
  show_double :: "'d \<Rightarrow> string"
  show_cast :: "'o \<Rightarrow> string"

fun parseAttribute :: "('d, 'o) Conversions \<Rightarrow> tty \<Rightarrow> string \<Rightarrow> ('d, 'o) tval res" where
  "parseAttribute C TyInt s = Inr (VInt (int_of C s))"
| "parseAttribute C TyLong s = Inr (VLong (long_of C s))"
| "parseAttribute C TyDouble s = Inr (VDouble (double_of C s))"
| "parseAttribute C TyString s = Inr (VString (take 1023 s))"
| "parseAttribute C TyCast s = (case lexical_cast C s of None \<Rightarrow> Inl LogicError | Some v \<Rightarrow> Inr (VCast v))"

text \<open>\<open>parseTuple\<close> runs from the last attribute to the first.\<close>

fun parseTuple :: "('d, 'o) Conversions \<Rightarrow> tty list \<Rightarrow> string list \<Rightarrow> ('d, 'o) tval list res" where
  "parseTuple C [] ss = Inr []"
| "parseTuple C (t # ts) ss =
     bind_res (parseTuple C ts (tl ss)) (\<lambda>vs. bind_res (parseAttribute C t (hd ss)) (\<lambda>v. Inr (v # vs)))"

record ('d, 'o) TextTuple =
  tvals :: "('d, 'o) tval list"
  tnulls :: "bool list"

definition field_text :: "string option \<Rightarrow> string" where
  "field_text f = (case f of None \<Rightarrow> [] | Some s \<Rightarrow> s)"

definition extractTuple :: "('d, 'o) Conversions \<Rightarrow> tty list \<Rightarrow> char \<Rightarrow> Line \<Rightarrow> ('d, 'o) TextTuple res" where
  "extractTuple C ts ifs line =
     bind_res (line_fields (length ts) ifs (buffer line)) (\<lambda>fs.
     bind_res (parseTuple C ts (map field_text fs)) (\<lambda>vs.
       Inr \<lparr>tvals = vs, tnulls = map (\<lambda>f. f = None) fs\<rparr>))"

fun extractor_step :: "('d, 'o) Conversions \<Rightarrow> tty list \<Rightarrow> char \<Rightarrow> (unit, Line, ('d, 'o) TextTuple) opstep" where
  "extractor_step C ts ifs u (Punct p) = Inr (u, [Punct p])"
| "extractor_step C ts ifs u (Data line outdated) = bind_res (extractTuple C ts ifs line) (\<lambda>res. Inr (u, [Data res outdated]))"

section \<open>Printing\<close>

definition show_int :: "int \<Rightarrow> string" where
  "show_int i = (if i < 0 then CHR ''-'' # to_string (nat (- i)) else to_string (nat i))"

fun print_val :: "('d, 'o) Conversions \<Rightarrow> ('d, 'o) tval \<Rightarrow> string" where
  "print_val C (VInt i) = show_int i"
| "print_val C (VLong i) = show_int i"
| "print_val C (VDouble d) = show_double C d"
| "print_val C (VString s) = s"
| "print_val C (VCast v) = show_cast C v"

text \<open>\<open>TuplePrinter\<close>: the values before the last one, a comma, the last one; the null bits do not matter.\<close>

fun print_upto :: "('d, 'o) Conversions \<Rightarrow> nat \<Rightarrow> ('d, 'o) tval list \<Rightarrow> string" where
  "print_upto C 0 vs = []"
| "print_upto C (Suc 0) vs = print_val C (vs ! 0)"
| "print_upto C (Suc (Suc n)) vs = print_upto C (Suc n) vs @ CHR '','' # print_val C (vs ! Suc n)"

definition print_tuple :: "('d, 'o) Conversions \<Rightarrow> ('d, 'o) TextTuple \<Rightarrow> string" where
  "print_tuple C t = print_upto C (length (tvals t)) (tvals t)"

text \<open>The writers: new tuples only, one line each.\<close>

fun writer_out :: "('d, 'o) Conversions \<Rightarrow> ('d, 'o) TextTuple event list \<Rightarrow> string" where
  "writer_out C [] = []"
| "writer_out C (Punct p # es) = writer_out C es"
| "writer_out C (Data t outdated # es) = (if outdated then [] else print_tuple C t @ [newline]) @ writer_out C es"

section \<open>Memory source and generator\<close>

text \<open>
  \<open>MemorySource\<close>: \<open>prepare\<close> runs the inner file source and extractor and collects every tuple, \<open>start\<close>
  publishes what was collected. \<open>StreamGenerator\<close> calls its function with the numbers of the tuples.
\<close>

fun collect :: "'a event list \<Rightarrow> 'a list" where
  "collect [] = []"
| "collect (Data t outdated # es) = t # collect es"
| "collect (Punct p # es) = collect es"

definition ms_prepare :: "('d, 'o) Conversions \<Rightarrow> tty list \<Rightarrow> char \<Rightarrow> (Line event list \<times> nat) res \<Rightarrow> ('d, 'o) TextTuple list \<Rightarrow> (('d, 'o) TextTuple list \<times> nat) res" where
  "ms_prepare C ts delim fileSource data =
     bind_res fileSource (\<lambda>(lines, n).
     bind_res (run (extractor_step C ts delim) () lines) (\<lambda>(u, out). Inr (data @ collect out, n)))"

definition ms_start :: "'a list \<Rightarrow> 'a event list \<times> nat" where
  "ms_start data = (map (\<lambda>t. Data t False) data @ [Punct (mkPunctuation EndOfStream)], length data)"

definition gen_start :: "(nat \<Rightarrow> 'a) \<Rightarrow> nat \<Rightarrow> 'a event list \<times> nat" where
  "gen_start mGenerator mNumTuples = (map (\<lambda>i. Data (mGenerator i) False) [0..<mNumTuples] @ [Punct (mkPunctuation EndOfStream)], mNumTuples)"

section \<open>The lines of a file\<close>

text \<open>The specification: the complete lines of a text, with an unfinished line before it.\<close>

fun lines_acc :: "string \<Rightarrow> string \<Rightarrow> string list" where
  "lines_acc acc [] = []"
| "lines_acc acc (c # cs) = (if c = newline then acc # lines_acc [] cs else lines_acc (acc @ [c]) cs)"

abbreviation complete_lines :: "string \<Rightarrow> string list" where
  "complete_lines s \<equiv> lines_acc [] s"

text \<open>What is behind the last newline.\<close>

fun rest_acc :: "string \<Rightarrow> string \<Rightarrow> string" where
  "rest_acc acc [] = acc"
| "rest_acc acc (c # cs) = (if c = newline then rest_acc [] cs else rest_acc (acc @ [c]) cs)"

text \<open>What a reader with limit \<open>m\<close> publishes when it has published \<open>n\<close> lines already.\<close>

definition limit :: "nat \<Rightarrow> nat \<Rightarrow> 'a list \<Rightarrow> 'a list" where
  "limit m n xs = (if m = 0 then xs else take (m - n) xs)"

definition has_text :: "Line \<Rightarrow> string \<Rightarrow> bool" where
  "has_text l t \<longleftrightarrow> line_size l = length t \<and> (\<exists>junk. buffer l = t @ NUL # junk)"

lemma lines_acc_find:
  "find_char newline s = Some k \<Longrightarrow> lines_acc acc s = (acc @ take k s) # lines_acc [] (drop (Suc k) s)"
  "find_char newline s = None \<Longrightarrow> lines_acc acc s = []"
  by (induction s arbitrary: acc k) (auto split: if_splits)

lemma rest_acc_find:
  "find_char newline s = Some k \<Longrightarrow> rest_acc acc s = rest_acc [] (drop (Suc k) s)"
  "find_char newline s = None \<Longrightarrow> rest_acc acc s = acc @ s"
  by (induction s arbitrary: acc k) (auto split: if_splits)

lemma lines_acc_append: "lines_acc acc (s @ t) = lines_acc acc s @ lines_acc (rest_acc acc s) t"
  by (induction s arbitrary: acc) auto

lemma rest_acc_append: "rest_acc acc (s @ t) = rest_acc (rest_acc acc s) t"
  by (induction s arbitrary: acc) auto

lemma strchr_find:
  assumes "NUL \<notin> set s"
  shows "strchr newline (s @ NUL # pad) = Inr (find_char newline s)"
  using assms by (induction s) auto

lemma find_char_nth: "find_char c s = Some k \<Longrightarrow> s ! k = c \<and> c \<notin> set (take k s)"
  by (induction s arbitrary: k) (auto split: if_splits)

text \<open>Copying a line with its newline and overwriting the newline.\<close>

lemma copy_line:
  assumes "k < length s" "off + Suc k \<le> length store" "take off store = acc" "off = length acc"
  shows "\<exists>store1 junk. memcpy store off (take (Suc k) s) = Inr store1 \<and> store1[k + off := NUL] = (acc @ take k s) @ NUL # junk \<and> length store1 = length store"
proof -
  let ?st = "take off store @ take (Suc k) s @ drop (off + Suc k) store"
  have "memcpy store off (take (Suc k) s) = Inr ?st" using assms(1,2) by (simp add: memcpy_def)
  moreover have "?st[k + off := NUL] = (acc @ take k s) @ NUL # drop (off + Suc k) store"
    using assms by (simp add: take_Suc_conv_app_nth list_update_append add.commute)
  moreover have "length ?st = length store" using assms(1,2) by simp
  ultimately show ?thesis by blast
qed

lemma limit_Cons: "m = 0 \<or> n < m \<Longrightarrow> limit m n (x # xs) = x # limit m (Suc n) xs"
  using Suc_diff_Suc [of n m] by (auto simp: limit_def simp flip: take_Suc_Cons)

lemma limit_reached [simp]: "0 < m \<Longrightarrow> limit m m xs = []"
  by (simp add: limit_def)

lemma limit_Nil [simp]: "limit m n [] = []"
  by (simp add: limit_def)

lemma limit_append: "m = 0 \<or> n \<le> m \<Longrightarrow> length (limit m n xs) = length xs \<Longrightarrow> limit m n (xs @ ys) = xs @ limit m (n + length xs) ys"
  by (auto simp: limit_def)

lemma mm_loop_lines:
  assumes "NUL \<notin> set s" "length store = MAX_TUPLE_SIZE" "\<forall>l\<in>set (complete_lines s). length l < MAX_TUPLE_SIZE" "m = 0 \<or> n < m"
  shows "\<exists>ls. mm_loop store (s @ NUL # pad) n m = Inr (ls, n + length ls) \<and>
    list_all2 has_text ls (limit m n (complete_lines s))"
  using assms
proof (induction "length s" arbitrary: s store n rule: less_induct)
  case less
  show ?case
  proof (cases "find_char newline s")
    case None
    then show ?thesis using less.prems(1) by (subst mm_loop.simps) (simp add: strchr_find lines_acc_find)
  next
    case (Some k)
    have k: "k < length s" using find_char_bound [OF Some] .
    have cl: "complete_lines s = take k s # complete_lines (drop (Suc k) s)" using lines_acc_find(1) [OF Some, of "[]"] by simp
    have "Suc k \<le> length store" using less.prems(2,3) k by (simp add: cl)
    then obtain store1 junk where st: "memcpy store 0 (take (Suc k) s) = Inr store1" "store1[k := NUL] = take k s @ NUL # junk" "length store1 = length store"
      using copy_line [OF k, of 0 store "[]"] by auto
    let ?line = "\<lparr>buffer = store1[k := NUL], line_size = k\<rparr>"
    have line: "has_text ?line (take k s)" using st(2) k by (simp add: has_text_def)
    have e: "mm_loop store (s @ NUL # pad) n m =
        (if Suc n = m then Inr ([?line], Suc n)
         else bind_res (mm_loop (store1[k := NUL]) (drop (Suc k) s @ NUL # pad) (Suc n) m) (\<lambda>(ls, n). Inr (?line # ls, n)))"
      using less.prems(1) k st(1) by (subst mm_loop.simps) (simp add: strchr_find Some Let_def)
    show ?thesis
    proof (cases "Suc n = m")
      case True
      then show ?thesis using e line by (intro exI [of _ "[?line]"]) (auto simp: cl limit_Cons)
    next
      case False
      have "\<exists>ls. mm_loop (store1[k := NUL]) (drop (Suc k) s @ NUL # pad) (Suc n) m = Inr (ls, Suc n + length ls) \<and>
          list_all2 has_text ls (limit m (Suc n) (complete_lines (drop (Suc k) s)))"
        using less.prems k st(3) False by (intro less.hyps) (auto simp: cl dest: in_set_dropD)
      then obtain ls where ls: "mm_loop (store1[k := NUL]) (drop (Suc k) s @ NUL # pad) (Suc n) m = Inr (ls, Suc n + length ls)"
        "list_all2 has_text ls (limit m (Suc n) (complete_lines (drop (Suc k) s)))" by blast
      have "list_all2 has_text (?line # ls) (limit m n (complete_lines s))"
        using less.prems(4) line ls(2) by (simp add: cl limit_Cons)
      then show ?thesis using e False ls(1) by (intro exI [of _ "?line # ls"]) simp
    qed
  qed
qed

text \<open>The raw reader: what a chunk leaves behind is its unfinished line.\<close>

definition pending :: "RawState \<Rightarrow> string \<Rightarrow> bool" where
  "pending s acc \<longleftrightarrow> length (rStore s) = MAX_TUPLE_SIZE \<and> rStart s = length acc \<and> take (rStart s) (rStore s) = acc"

definition chunk_done :: "nat \<Rightarrow> string \<Rightarrow> string \<Rightarrow> nat \<Rightarrow> RawState \<Rightarrow> Line list \<times> RawState \<times> bool \<Rightarrow> bool" where
  "chunk_done m buf acc pos s r = (case r of (ls, s', stop) \<Rightarrow>
     list_all2 has_text ls (limit m (rTuples s) (lines_acc acc (drop pos buf))) \<and>
     rTuples s' = rTuples s + length ls \<and> length (rStore s') = MAX_TUPLE_SIZE \<and>
     stop = (m \<noteq> 0 \<and> rTuples s' = m) \<and>
     (\<not> stop \<longrightarrow> (if newline \<in> set (drop pos buf)
        then rStart s' = 0 \<and> rRemaining s' \<le> length buf \<and> drop (rRemaining s') buf = rest_acc acc (drop pos buf) else s' = s)))"

lemma find_char_None: "find_char c s = None \<longleftrightarrow> c \<notin> set s"
  by (induction s) auto

lemma raw_chunk_None:
  "find_char newline (drop pos buf) = None \<Longrightarrow> raw_chunk buf pos m s = Inr ([], s, False)"
  by (subst raw_chunk.simps) simp

lemma raw_chunk_lines:
  assumes "pending s acc" "pos \<le> length buf" "\<forall>l\<in>set (lines_acc acc (drop pos buf)). Suc (length l) < MAX_TUPLE_SIZE"
    "m = 0 \<or> rTuples s < m"
  shows "\<exists>r. raw_chunk buf pos m s = Inr r \<and> chunk_done m buf acc pos s r"
  using assms
proof (induction "length buf - pos" arbitrary: pos s acc rule: less_induct)
  case less
  show ?case
  proof (cases "find_char newline (drop pos buf)")
    case None
    then show ?thesis using less.prems(1,4)
      by (auto simp: raw_chunk_None chunk_done_def lines_acc_find pending_def find_char_None)
  next
    case (Some k)
    let ?t = "drop pos buf" and ?p = "pos + k + 1"
    have k: "k < length ?t" and nl: "newline \<in> set ?t"
      using find_char_bound [OF Some] Some find_char_None [of newline ?t] by auto
    have cl: "lines_acc acc ?t = (acc @ take k ?t) # complete_lines (drop ?p buf)"
      using lines_acc_find(1) [OF Some, of acc] by (simp add: add.commute)
    have room: "k + 1 + rStart s < MAX_TUPLE_SIZE" using less.prems(1,3) k by (simp add: cl pending_def)
    then obtain store1 junk where st: "memcpy (rStore s) (rStart s) (take (Suc k) ?t) = Inr store1"
        "store1[k + rStart s := NUL] = (acc @ take k ?t) @ NUL # junk" "length store1 = length (rStore s)"
      using copy_line [OF k, of "rStart s" "rStore s" acc] less.prems(1) by (auto simp: pending_def)
    let ?store = "store1[k + rStart s := NUL]"
    let ?line = "\<lparr>buffer = ?store, line_size = k + rStart s\<rparr>"
    let ?s = "s\<lparr>rStore := ?store, rTuples := Suc (rTuples s), rStart := 0, rRemaining := ?p\<rparr>"
    have line: "has_text ?line (acc @ take k ?t)" using st(2) k less.prems(1) by (simp add: has_text_def pending_def)
    have e: "raw_chunk buf pos m s = (if Suc (rTuples s) = m then Inr ([?line], s\<lparr>rStore := ?store, rTuples := m\<rparr>, True)
        else bind_res (raw_chunk buf ?p m ?s) (\<lambda>(ls, s', stop). Inr (?line # ls, s', stop)))"
      using room st(1) by (subst raw_chunk.simps) (simp add: Some Let_def)
    show ?thesis
    proof (cases "Suc (rTuples s) = m")
      case True
      then show ?thesis using e line st(3) less.prems(1)
        by (auto simp: chunk_done_def cl limit_Cons pending_def)
    next
      case False
      have "\<exists>r. raw_chunk buf ?p m ?s = Inr r \<and> chunk_done m buf [] ?p ?s r"
        using less.prems k st(3) False by (intro less.hyps) (auto simp: cl pending_def)
      then obtain ls s' stop where r: "raw_chunk buf ?p m ?s = Inr (ls, s', stop)" "chunk_done m buf [] ?p ?s (ls, s', stop)"
        by auto
      have rest: "rest_acc acc ?t = rest_acc [] (drop ?p buf)" using rest_acc_find(1) [OF Some, of acc] by (simp add: add.commute)
      have "rest_acc [] (drop ?p buf) = drop ?p buf" if "newline \<notin> set (drop ?p buf)"
        using rest_acc_find(2) [of "drop ?p buf" "[]"] that by (simp add: find_char_None)
      then have "chunk_done m buf acc pos s (?line # ls, s', stop)"
        using r(2) line nl k less.prems(4) rest by (auto simp: chunk_done_def cl limit_Cons split: if_splits)
      then show ?thesis using e False r(1) by auto
    qed
  qed
qed

lemma limit_stop: "m \<noteq> 0 \<Longrightarrow> n + length (limit m n xs) = m \<Longrightarrow> limit m n (xs @ ys) = limit m n xs"
  by (auto simp: limit_def)

lemma limit_go_on: "m = 0 \<or> n < m \<Longrightarrow> \<not> (m \<noteq> 0 \<and> n + length (limit m n xs) = m) \<Longrightarrow>
    limit m n (xs @ ys) = limit m n xs @ limit m (n + length (limit m n xs)) ys \<and> (m = 0 \<or> n + length (limit m n xs) < m)"
  by (auto simp: limit_def min_def)

definition good_chunks :: "string list \<Rightarrow> bool" where
  "good_chunks bufs \<longleftrightarrow> list_all (\<lambda>b. b \<noteq> [] \<and> length (rest_acc [] b) \<le> MAX_TUPLE_SIZE) bufs \<and>
     list_all (\<lambda>b. newline \<in> set b) (butlast bufs)"

lemma rest_acc_newline: "newline \<in> set s \<Longrightarrow> rest_acc acc s = rest_acc acc' s"
  by (induction s arbitrary: acc acc') auto

text \<open>After a chunk with a newline the unfinished line is moved to the begin of the store.\<close>

lemma move_rest:
  assumes "length (rStore s) = MAX_TUPLE_SIZE" "rStart s = 0" "rRemaining s \<le> length buf" "drop (rRemaining s) buf = rest"
    "length rest \<le> MAX_TUPLE_SIZE"
  shows "\<exists>s2. (if rRemaining s < length buf
               then bind_res (memcpy (rStore s) 0 (drop (rRemaining s) buf)) (\<lambda>store.
                      Inr (s\<lparr>rStore := store, rStart := length buf - rRemaining s\<rparr>))
               else Inr s) = Inr s2 \<and> pending s2 rest \<and> rTuples s2 = rTuples s"
  using assms by (auto simp: memcpy_def pending_def)

lemma raw_loop_lines:
  assumes "pending s acc" "good_chunks bufs" "\<forall>l\<in>set (lines_acc acc (concat bufs)). Suc (length l) < MAX_TUPLE_SIZE"
    "m = 0 \<or> rTuples s < m"
  shows "\<exists>ls. raw_loop bufs m s = Inr (ls, rTuples s + length ls) \<and>
    list_all2 has_text ls (limit m (rTuples s) (lines_acc acc (concat bufs)))"
  using assms
proof (induction bufs arbitrary: s acc)
  case (Cons buf bufs)
  have lb: "\<forall>l\<in>set (lines_acc acc buf). Suc (length l) < MAX_TUPLE_SIZE"
    using Cons.prems(3) by (simp add: lines_acc_append)
  obtain ls s1 stop where r: "raw_chunk buf 0 m s = Inr (ls, s1, stop)" "chunk_done m buf acc 0 s (ls, s1, stop)"
    using raw_chunk_lines [of s acc 0 buf m] Cons.prems(1,4) lb by auto
  have n: "rTuples s1 = rTuples s + length ls" and ll: "list_all2 has_text ls (limit m (rTuples s) (lines_acc acc buf))"
    and len: "length ls = length (limit m (rTuples s) (lines_acc acc buf))"
    using r(2) by (auto simp: chunk_done_def dest: list_all2_lengthD)
  have buf: "buf \<noteq> []" "length (rest_acc [] buf) \<le> MAX_TUPLE_SIZE" using Cons.prems(2) by (auto simp: good_chunks_def)
  show ?case
  proof (cases stop)
    case True
    then have "m \<noteq> 0 \<and> rTuples s + length ls = m" using r(2) by (auto simp: chunk_done_def)
    then show ?thesis using True buf(1) r(1) ll n len
      by (auto simp: lines_acc_append limit_stop)
  next
    case False
    then have go: "\<not> (m \<noteq> 0 \<and> rTuples s + length (limit m (rTuples s) (lines_acc acc buf)) = m)"
      using r(2) len by (auto simp: chunk_done_def)
    show ?thesis
    proof (cases "newline \<in> set buf")
      case True
      then have s1: "length (rStore s1) = MAX_TUPLE_SIZE" "rStart s1 = 0" "rRemaining s1 \<le> length buf" "drop (rRemaining s1) buf = rest_acc acc buf"
        using r(2) False by (auto simp: chunk_done_def)
      obtain s2 where s2: "(if rRemaining s1 < length buf
               then bind_res (memcpy (rStore s1) 0 (drop (rRemaining s1) buf)) (\<lambda>store.
                      Inr (s1\<lparr>rStore := store, rStart := length buf - rRemaining s1\<rparr>))
               else Inr s1) = Inr s2" "pending s2 (rest_acc acc buf)" "rTuples s2 = rTuples s1"
        using move_rest [OF s1] buf(2) rest_acc_newline [OF True, of acc "[]"] by auto
      have "\<exists>ls. raw_loop bufs m s2 = Inr (ls, rTuples s2 + length ls) \<and>
          list_all2 has_text ls (limit m (rTuples s2) (lines_acc (rest_acc acc buf) (concat bufs)))"
        using Cons.prems(2,3) limit_go_on [OF Cons.prems(4) go] s2(2,3) n len
        by (intro Cons.IH) (auto simp: good_chunks_def lines_acc_append split: if_splits)
      then obtain ls2 where ls2: "raw_loop bufs m s2 = Inr (ls2, rTuples s2 + length ls2)"
          "list_all2 has_text ls2 (limit m (rTuples s2) (lines_acc (rest_acc acc buf) (concat bufs)))" by blast
      have "raw_loop (buf # bufs) m s = Inr (ls @ ls2, rTuples s + length (ls @ ls2))"
        using buf(1) r(1) False s2(1,3) ls2(1) n by simp
      moreover have "list_all2 has_text (ls @ ls2) (limit m (rTuples s) (lines_acc acc (concat (buf # bufs))))"
        using ll ls2(2) limit_go_on [OF Cons.prems(4) go] s2(3) n len by (simp add: lines_acc_append list_all2_appendI)
      ultimately show ?thesis by blast
    next
      case nonl: False
      then have "bufs = []" "s1 = s" "length buf \<le> MAX_TUPLE_SIZE"
        using Cons.prems(2) r(2) False rest_acc_find(2) [of buf "[]"]
        by (auto simp: good_chunks_def chunk_done_def find_char_None split: if_splits)
      then show ?thesis using buf(1) r(1) False ll n Cons.prems(1)
        by (auto simp: memcpy_def pending_def)
    qed
  qed
qed simp

text \<open>The text of a published line.\<close>

definition line_text :: "Line \<Rightarrow> string" where
  "line_text l = take (line_size l) (buffer l)"

lemma has_text_line_text: "has_text l t \<Longrightarrow> line_text l = t"
  by (auto simp: has_text_def line_text_def)

lemma list_all2_has_text: "list_all2 has_text ls ts \<Longrightarrow> map line_text ls = ts"
  by (induction rule: list_all2_induct) (auto dest: has_text_line_text)

text \<open>
  (C29) The reader of memory-mapped files and the reader of raw chunks publish the same lines: with
  a buffer of \<open>MAX_TUPLE_SIZE\<close> characters, lines shorter than that, no NUL in the file and chunks that
  each hold a newline (but the last one), both return the number of complete lines of the file, up
  to the limit, and publish their texts in this order, wherever the chunks split the lines. What
  follows the last newline is published by neither.
\<close>

theorem readers_publish_complete_lines:
  assumes "length store = MAX_TUPLE_SIZE" "length store' = MAX_TUPLE_SIZE"
    and "\<forall>l\<in>set (complete_lines (concat chunks)). Suc (length l) < MAX_TUPLE_SIZE"
    and "NUL \<notin> set (concat chunks)" and "good_chunks chunks"
  shows "\<exists>ls ls'.
    readRawFile store chunks maxTuples = Inr (ls, length ls) \<and>
    readMemoryMappedFile store' (concat chunks @ NUL # pad) maxTuples = Inr (ls', length ls') \<and>
    map line_text ls = limit maxTuples 0 (complete_lines (concat chunks)) \<and> map line_text ls' = map line_text ls"
proof -
  let ?s = "\<lparr>rStore = store, rStart = 0, rRemaining = 0, rTuples = 0\<rparr>"
  obtain ls where ls: "raw_loop chunks maxTuples ?s = Inr (ls, length ls)"
      "list_all2 has_text ls (limit maxTuples 0 (complete_lines (concat chunks)))"
    using raw_loop_lines [of ?s "[]" chunks maxTuples] assms(1,3,5) by (auto simp: pending_def)
  obtain ls' where ls': "mm_loop store' (concat chunks @ NUL # pad) 0 maxTuples = Inr (ls', length ls')"
      "list_all2 has_text ls' (limit maxTuples 0 (complete_lines (concat chunks)))"
    using mm_loop_lines [of "concat chunks" store' maxTuples 0 pad] assms(2,3,4) by (auto simp: Suc_lessD)
  show ?thesis using ls ls' by (auto simp: readRawFile_def readMemoryMappedFile_def list_all2_has_text)
qed

theorem readers_publish_complete_lines_witness:
  "\<exists>ls. readRawFile (replicate MAX_TUPLE_SIZE NUL) [''ab'' @ [newline] @ ''c'', ''d'' @ [newline], ''e''] 0 = Inr (ls, length ls) \<and>
     map line_text ls = [''ab'', ''cd'']"
proof -
  let ?chunks = "[''ab'' @ [newline] @ ''c'', ''d'' @ [newline], ''e'']"
  have "\<forall>l\<in>set (complete_lines (concat ?chunks)). Suc (length l) < MAX_TUPLE_SIZE" by (simp add: MAX_TUPLE_SIZE_def)
  moreover have "good_chunks ?chunks" by (simp add: good_chunks_def MAX_TUPLE_SIZE_def)
  ultimately show ?thesis
    using readers_publish_complete_lines [of "replicate MAX_TUPLE_SIZE NUL" "replicate MAX_TUPLE_SIZE NUL" ?chunks 0 "[]"]
    by (auto simp: limit_def)
qed

section \<open>Printing and reading back\<close>

definition plain :: "string \<Rightarrow> bool" where
  "plain s \<longleftrightarrow> s \<noteq> [] \<and> NUL \<notin> set s \<and> newline \<notin> set s \<and> CHR '','' \<notin> set s"

fun join :: "string list \<Rightarrow> string" where
  "join [] = []"
| "join [s] = s"
| "join (s # t # ss) = s @ CHR '','' # join (t # ss)"

lemma join_snoc: "ss \<noteq> [] \<Longrightarrow> join (ss @ [s]) = join ss @ CHR '','' # s"
  by (induction ss rule: join.induct) auto

lemma print_upto_join: "n \<le> length vs \<Longrightarrow> print_upto C n vs = join (map (print_val C) (take n vs))"
proof (induction C n vs rule: print_upto.induct)
  case (3 C n vs)
  then have "take (Suc (Suc n)) vs = take (Suc n) vs @ [vs ! Suc n]" "take (Suc n) vs \<noteq> []"
    by (simp_all add: take_Suc_conv_app_nth)
  then show ?case using 3 by (simp add: join_snoc)
next
  case (2 C vs)
  then show ?case by (cases vs) auto
qed simp

lemma takeWhile_field:
  assumes "plain s" "c = NUL \<or> c = CHR '',''"
  shows "takeWhile (\<lambda>x. x \<noteq> NUL \<and> x \<noteq> CHR '','') (s @ c # m) = s"
proof -
  have "\<forall>x\<in>set s. x \<noteq> NUL \<and> x \<noteq> CHR '',''" using assms(1) by (auto simp: plain_def)
  then show ?thesis using assms(2) by (subst takeWhile_append2) auto
qed

lemma line_fields_field:
  assumes "plain s" "c = NUL \<or> c = CHR '',''"
  shows "line_fields (Suc n) (CHR '','') (s @ c # m) = bind_res (line_fields n (CHR '','') m) (\<lambda>fs. Inr (Some s # fs))"
proof -
  obtain x xs where s: "s = x # xs" "x \<noteq> NUL" using assms(1) by (cases s) (auto simp: plain_def)
  show ?thesis using takeWhile_field [OF assms, of m] s by (simp add: Let_def)
qed

lemma line_fields_join:
  "list_all plain ss \<Longrightarrow> line_fields (length ss) (CHR '','') (join ss @ NUL # junk) = Inr (map Some ss)"
proof (induction ss rule: join.induct)
  case (2 s)
  then show ?case using line_fields_field [of s NUL 0 junk] by simp
next
  case (3 s t ss)
  then show ?case using line_fields_field [of s "CHR '',''" "length (t # ss)"] by simp
qed simp

text \<open>What can be printed and read back: the types agree, strings are plain and not too long.\<close>

fun printable :: "('d, 'o) Conversions \<Rightarrow> tty \<Rightarrow> ('d, 'o) tval \<Rightarrow> bool" where
  "printable C TyInt (VInt i) \<longleftrightarrow> - (2 ^ 31) \<le> i \<and> i < 2 ^ 31"
| "printable C TyLong (VLong i) \<longleftrightarrow> - (2 ^ 63) \<le> i \<and> i < 2 ^ 63"
| "printable C TyString (VString s) \<longleftrightarrow> plain s \<and> length s \<le> 1023"
| "printable C TyDouble (VDouble d) \<longleftrightarrow> plain (show_double C d) \<and> double_of C (show_double C d) = d"
| "printable C TyCast (VCast v) \<longleftrightarrow> plain (show_cast C v) \<and> lexical_cast C (show_cast C v) = Some v"
| "printable C _ _ \<longleftrightarrow> False"

definition reads_decimals :: "('d, 'o) Conversions \<Rightarrow> bool" where
  "reads_decimals C \<longleftrightarrow> (\<forall>i. - (2 ^ 31) \<le> i \<and> i < 2 ^ 31 \<longrightarrow> int_of C (show_int i) = i) \<and>
     (\<forall>i. - (2 ^ 63) \<le> i \<and> i < 2 ^ 63 \<longrightarrow> long_of C (show_int i) = i)"

lemma to_string_digits: "x \<in> set (to_string n) \<Longrightarrow> \<exists>d<(10::nat). x = char_of (48 + d)"
proof (induction n rule: to_string.induct)
  case (1 n)
  show ?case
  proof (cases "n < 10 \<or> x \<notin> set (to_string (n div 10))")
    case True
    then have "x = char_of (48 + n mod 10)" using 1 (2) by (simp add: to_string.simps [of n] split: if_splits)
    then show ?thesis by (intro exI [of _ "n mod 10"]) simp
  next
    case False
    then show ?thesis using 1 (1) by blast
  qed
qed

lemma to_string_nonempty [simp]: "to_string n \<noteq> []"
  by (subst to_string.simps) simp

lemma plain_digit:
  assumes "d < (10::nat)"
  shows "char_of (48 + d) \<noteq> NUL" "char_of (48 + d) \<noteq> newline" "char_of (48 + d) \<noteq> CHR '',''"
proof -
  have c: "of_char (char_of (48 + d) :: char) = 48 + d" using assms by (subst of_char_of) simp
  have "char_of (48 + d) \<noteq> x" if "of_char x < (48::nat)" for x :: char
    using c that by (metis not_add_less1)
  then show "char_of (48 + d) \<noteq> NUL" "char_of (48 + d) \<noteq> newline" "char_of (48 + d) \<noteq> CHR '',''"
    by simp_all
qed

lemma plain_to_string: "plain (to_string n)"
proof -
  have "x \<noteq> NUL \<and> x \<noteq> newline \<and> x \<noteq> CHR '',''" if "x \<in> set (to_string n)" for x
    using to_string_digits [OF that] plain_digit by auto
  then show ?thesis by (auto simp: plain_def)
qed

lemma plain_show_int: "plain (show_int i)"
  using plain_to_string [of "nat i"] plain_to_string [of "nat (- i)"] by (auto simp: show_int_def plain_def)

lemma printable_parse:
  assumes "printable C t v" "reads_decimals C"
  shows "plain (print_val C v) \<and> parseAttribute C t (print_val C v) = Inr v"
  using assms by (cases "(C, t, v)" rule: printable.cases) (auto simp: plain_show_int reads_decimals_def)

lemma printable_tuple:
  assumes "list_all2 (printable C) ts vs" "reads_decimals C"
  shows "list_all plain (map (print_val C) vs) \<and> parseTuple C ts (map (print_val C) vs) = Inr vs"
  using assms by (induction rule: list_all2_induct) (auto dest: printable_parse)

text \<open>The tuples that can be printed and read back.\<close>

definition roundtrips :: "('d, 'o) Conversions \<Rightarrow> tty list \<Rightarrow> ('d, 'o) TextTuple \<Rightarrow> bool" where
  "roundtrips C ts t \<longleftrightarrow> list_all2 (printable C) ts (tvals t) \<and> tnulls t = replicate (length ts) False \<and>
     Suc (length (print_tuple C t)) < MAX_TUPLE_SIZE"

lemma join_chars: "x \<in> set (join ss) \<Longrightarrow> x = CHR '','' \<or> (\<exists>s\<in>set ss. x \<in> set s)"
  by (induction ss rule: join.induct) auto

lemma print_tuple_join: "print_tuple C t = join (map (print_val C) (tvals t))"
  by (simp add: print_tuple_def print_upto_join)

lemma print_tuple_chars:
  assumes "roundtrips C ts t" "reads_decimals C"
  shows "NUL \<notin> set (print_tuple C t)" "newline \<notin> set (print_tuple C t)"
proof -
  have "list_all plain (map (print_val C) (tvals t))" using assms printable_tuple by (auto simp: roundtrips_def)
  then have "x \<noteq> NUL \<and> x \<noteq> newline" if "x \<in> set (print_tuple C t)" for x
    using join_chars [of x "map (print_val C) (tvals t)"] that by (auto simp: print_tuple_join list_all_iff plain_def)
  then show "NUL \<notin> set (print_tuple C t)" "newline \<notin> set (print_tuple C t)" by blast+
qed

lemma lines_acc_line: "newline \<notin> set s \<Longrightarrow> lines_acc acc (s @ newline # t) = (acc @ s) # complete_lines t"
  by (induction s arbitrary: acc) auto

lemma writer_lines:
  assumes "\<forall>t\<in>set (news es). roundtrips C ts t" "reads_decimals C"
  shows "complete_lines (writer_out C es) = map (print_tuple C) (news es)" "NUL \<notin> set (writer_out C es)"
  using assms by (induction es rule: news.induct) (auto simp: print_tuple_chars lines_acc_line)

lemma extract_printed:
  assumes "roundtrips C ts t" "reads_decimals C" "has_text l (print_tuple C t)"
  shows "extractTuple C ts (CHR '','') l = Inr t"
proof -
  have p: "list_all plain (map (print_val C) (tvals t))" "parseTuple C ts (map (print_val C) (tvals t)) = Inr (tvals t)"
      "length ts = length (tvals t)"
    using assms(1,2) printable_tuple by (auto simp: roundtrips_def dest: list_all2_lengthD)
  obtain junk where "buffer l = join (map (print_val C) (tvals t)) @ NUL # junk"
    using assms(3) by (auto simp: has_text_def print_tuple_join)
  then have f: "line_fields (length ts) (CHR '','') (buffer l) = Inr (map Some (map (print_val C) (tvals t)))"
    using line_fields_join [OF p(1), of junk] p(3) by simp
  have "map field_text (map Some (map (print_val C) (tvals t))) = map (print_val C) (tvals t)"
    "map (\<lambda>f. f = None) (map Some (map (print_val C) (tvals t))) = replicate (length ts) False"
    using p(3) by (auto simp: field_text_def comp_def simp flip: map_replicate_const)
  then show ?thesis using f p(2) assms(1)
    by (cases t) (simp add: extractTuple_def roundtrips_def field_text_def comp_def)
qed

lemma run_extractor:
  assumes "list_all2 (\<lambda>l t. extractTuple C ts ifs l = Inr t) ls tups"
  shows "run (extractor_step C ts ifs) () (map (\<lambda>l. Data l False) ls @ [Punct p]) = Inr ((), map (\<lambda>t. Data t False) tups @ [Punct p])"
  using assms by (induction rule: list_all2_induct) auto

text \<open>
  (C28) Tuples that are written to a file and read back are the same tuples: for attributes of the
  integer types, strings without separators and at most 1023 characters, in lines shorter than the line buffer, and values of the other
  types whose text converts back, the uncompressed file that the writer makes of a stream, mapped into
  memory with at least one NUL behind it (its size is no multiple of the page size), read line by line and extracted with the separator of the printer, gives the new
  tuples of the stream in their order and then the end of the stream, for every content of the reused buffer.
\<close>

theorem written_tuples_read_back:
  assumes "length store = MAX_TUPLE_SIZE" and "reads_decimals C"
    and "\<forall>t\<in>set (news es). roundtrips C ts t"
    and "\<not> iends_with fileName ''.gz''" "\<not> iends_with fileName ''.bz2''"
  shows "bind_res (source_start iends_with fileName zipped (readMemoryMappedFile store (writer_out C es @ NUL # pad) 0))
      (\<lambda>(lines, n). run (extractor_step C ts (CHR '','')) () lines)
    = Inr ((), new_tuples (news es) @ [Punct (mkPunctuation EndOfStream)])"
proof -
  note w = writer_lines [OF assms(3,2)]
  obtain ls where ls: "mm_loop store (writer_out C es @ NUL # pad) 0 0 = Inr (ls, length ls)"
      "list_all2 has_text ls (map (print_tuple C) (news es))"
    using mm_loop_lines [of "writer_out C es" store 0 0 pad] assms(1,3) w
    by (auto simp: roundtrips_def limit_def dest: Suc_lessD)
  have "list_all2 (\<lambda>l t. extractTuple C ts (CHR '','') l = Inr t) ls (news es)"
    using ls(2) assms(2,3) by (auto simp: list_all2_conv_all_nth intro: extract_printed)
  then show ?thesis using ls(1) assms(4,5) by (simp add: source_start_def readMemoryMappedFile_def run_extractor)
qed

text \<open>A conversion of decimal texts, as \<open>atoi\<close> documents it.\<close>

definition digits_value :: "string \<Rightarrow> int" where
  "digits_value s = foldl (\<lambda>n c. 10 * n + (of_char c - 48)) 0 s"

definition decimal_value :: "string \<Rightarrow> int" where
  "decimal_value s = (case s of [] \<Rightarrow> 0 | c # cs \<Rightarrow> if c = CHR ''-'' then - digits_value cs else digits_value s)"

lemma digits_to_string: "digits_value (to_string n) = int n"
proof (induction n rule: to_string.induct)
  case (1 n)
  have d: "of_char (char_of (48 + d) :: char) = (48 + int d)" if "d < 10" for d :: nat
  proof -
    have "of_char (char_of (48 + d) :: char) = (48 + d)" using that by (subst of_char_of) simp
    then show ?thesis by (metis of_nat_add of_nat_numeral of_nat_of_char)
  qed
  show ?case
  proof (cases "n < 10")
    case True
    then show ?thesis by (simp add: to_string.simps [of n] digits_value_def d)
  next
    case False
    then have "digits_value (to_string n) = 10 * digits_value (to_string (n div 10)) + int (n mod 10)"
      by (simp add: to_string.simps [of n] digits_value_def d)
    then show ?thesis using 1 [OF False] by (simp add: zdiv_int zmod_int)
  qed
qed

lemma decimal_show_int: "decimal_value (show_int i) = i"
proof -
  have "\<exists>c cs. to_string n = c # cs \<and> c \<noteq> CHR ''-''" for n
  proof -
    obtain c cs where c: "to_string n = c # cs" by (cases "to_string n") auto
    then obtain d where "d < (10::nat)" "c = char_of (48 + d)" using to_string_digits [of c n] by auto
    then have "of_char c = 48 + d" by (auto simp: of_char_of)
    then show ?thesis using c by auto
  qed
  then obtain c cs where "to_string (nat i) = c # cs" "c \<noteq> CHR ''-''" by blast
  then show ?thesis using digits_to_string [of "nat i"] digits_to_string [of "nat (- i)"]
    by (auto simp: show_int_def decimal_value_def)
qed

definition c_conversions :: "(unit, unit) Conversions" where
  "c_conversions = \<lparr>int_of = decimal_value, long_of = decimal_value, double_of = \<lambda>_. (), lexical_cast = \<lambda>_. None,
     show_double = \<lambda>_. ''0'', show_cast = \<lambda>_. []\<rparr>"

lemma c_conversions_decimals: "reads_decimals c_conversions"
  by (simp add: reads_decimals_def c_conversions_def decimal_show_int)

theorem written_tuples_read_back_witness:
  "bind_res (source_start (\<lambda>s t. rev (take (length t) (rev s)) = t) ''a.csv'' ([], 0) (readMemoryMappedFile (replicate MAX_TUPLE_SIZE NUL)
      (writer_out c_conversions [Data \<lparr>tvals = [VInt (-42), VString ''ab''], tnulls = [False, False]\<rparr> False] @ NUL # []) 0))
      (\<lambda>(lines, n). run (extractor_step c_conversions [TyInt, TyString] (CHR '','')) () lines)
    = Inr ((), [Data \<lparr>tvals = [VInt (-42), VString ''ab''], tnulls = [False, False]\<rparr> False, Punct (mkPunctuation EndOfStream)])"
proof -
  have "roundtrips c_conversions [TyInt, TyString] \<lparr>tvals = [VInt (-42), VString ''ab''], tnulls = [False, False]\<rparr>"
    by (simp add: roundtrips_def plain_def print_tuple_def show_int_def to_string.simps MAX_TUPLE_SIZE_def)
  then show ?thesis
    using written_tuples_read_back [of "replicate MAX_TUPLE_SIZE NUL" c_conversions
      "[Data \<lparr>tvals = [VInt (-42), VString ''ab''], tnulls = [False, False]\<rparr> False]" "[TyInt, TyString]"
      "\<lambda>s t. rev (take (length t) (rev s)) = t" "''a.csv''" "([], 0)" "[]"] c_conversions_decimals by simp
qed

section \<open>Short lines\<close>

lemma strchr_line:
  "newline \<notin> set s \<Longrightarrow> NUL \<notin> set s \<Longrightarrow> strchr newline (s @ newline # rest) = Inr (Some (length s))"
  by (induction s) auto

lemma mm_loop_step:
  assumes "newline \<notin> set s" "NUL \<notin> set s" "length s < length store" "Suc n \<noteq> m"
  shows "mm_loop store (s @ newline # rest) n m =
    bind_res (mm_loop (s @ NUL # drop (Suc (length s)) store) rest (Suc n) m)
      (\<lambda>(ls, k). Inr (\<lparr>buffer = s @ NUL # drop (Suc (length s)) store, line_size = length s\<rparr> # ls, k))"
  using assms by (subst mm_loop.simps) (simp add: strchr_line memcpy_def Let_def list_update_append)

lemma mm_loop_end: "mm_loop store (NUL # pad) n m = Inr ([], n)"
  by (subst mm_loop.simps) simp

text \<open>After the last field of a line the position is behind its NUL.\<close>

lemma line_fields_short:
  "list_all plain ss \<Longrightarrow> ss \<noteq> [] \<Longrightarrow>
    line_fields (length ss + n) (CHR '','') (join ss @ NUL # junk) =
    bind_res (line_fields n (CHR '','') junk) (\<lambda>fs. Inr (map Some ss @ fs))"
proof (induction ss rule: join.induct)
  case (2 s)
  then show ?case using line_fields_field [of s NUL n junk] by simp
next
  case (3 s t ss)
  then show ?case using line_fields_field [of s "CHR '',''" "length (t # ss) + n"] by (cases "line_fields n (CHR '','') junk") simp_all
qed simp

text \<open>
  A line with too few fields does not give null values: behind its terminating NUL the
  extractor goes on with what is left of the previous line in the reused buffer. When a line of
  three fields is followed by a line of two fields that ends where the second field
  of the first line ended, the second tuple has the third attribute of the first one, and no null bit is set.
\<close>

theorem short_line_takes_stale_field:
  assumes "length store = MAX_TUPLE_SIZE" and "list_all plain [a, b, x, c, d]"
    and "length c + length d = length a + length b" and "length a + length b + length x < 1000"
  shows "bind_res (readMemoryMappedFile store (join [a, b, x] @ newline # join [c, d] @ newline # NUL # pad) 0)
      (\<lambda>(lines, n). Inr (map (extractTuple C [TyString, TyString, TyString] (CHR '','')) lines))
    = Inr [Inr \<lparr>tvals = [VString a, VString b, VString x], tnulls = [False, False, False]\<rparr>,
           Inr \<lparr>tvals = [VString c, VString d, VString x], tnulls = [False, False, False]\<rparr>]"
proof -
  let ?s1 = "join [a, b, x]" and ?s2 = "join [c, d]"
  let ?m1 = "?s1 @ NUL # drop (Suc (length ?s1)) store"
  let ?m2 = "?s2 @ NUL # drop (Suc (length ?s2)) ?m1"
  have ok: "newline \<notin> set ?s1" "NUL \<notin> set ?s1" "length ?s1 < length store"
      "newline \<notin> set ?s2" "NUL \<notin> set ?s2" "length ?s2 < length ?m1"
    using assms by (auto simp: plain_def MAX_TUPLE_SIZE_def)
  have m2: "drop (Suc (length ?s2)) ?m1 = x @ NUL # drop (Suc (length ?s1)) store" using assms(3) by simp
  have r: "readMemoryMappedFile store (?s1 @ newline # ?s2 @ newline # NUL # pad) 0
      = Inr ([\<lparr>buffer = ?m1, line_size = length ?s1\<rparr>, \<lparr>buffer = ?m2, line_size = length ?s2\<rparr>], Suc (Suc 0))"
    unfolding readMemoryMappedFile_def
    by (subst mm_loop_step [OF ok(1-3)], simp, subst mm_loop_step [OF ok(4-6)]) (simp_all add: mm_loop_end)
  have f1: "line_fields 3 (CHR '','') ?m1 = Inr (map Some [a, b, x])"
    using line_fields_join [of "[a, b, x]"] assms(2) by (simp add: numeral_eq_Suc)
  have "line_fields 1 (CHR '','') (x @ NUL # drop (Suc (length ?s1)) store) = Inr [Some x]"
    using line_fields_join [of "[x]"] assms(2) by simp
  then have f2: "line_fields 3 (CHR '','') ?m2 = Inr (map Some [c, d, x])"
    using line_fields_short [of "[c, d]" 1] assms(2) m2 by (simp add: numeral_eq_Suc)
  have len: "length a \<le> 1023" "length b \<le> 1023" "length x \<le> 1023" "length c \<le> 1023" "length d \<le> 1023"
    using assms(3,4) by auto
  then show ?thesis using r f1 f2 by (simp add: extractTuple_def field_text_def numeral_eq_Suc del: join.simps)
qed

theorem short_line_takes_stale_field_witness:
  "bind_res (readMemoryMappedFile (replicate MAX_TUPLE_SIZE NUL) (join [''1'', ''2'', ''345''] @ newline # join [''7'', ''8''] @ newline # NUL # []) 0)
      (\<lambda>(lines, n). Inr (map (extractTuple c_conversions [TyString, TyString, TyString] (CHR '','')) lines))
    = Inr [Inr \<lparr>tvals = [VString ''1'', VString ''2'', VString ''345''], tnulls = [False, False, False]\<rparr>,
           Inr \<lparr>tvals = [VString ''7'', VString ''8'', VString ''345''], tnulls = [False, False, False]\<rparr>]"
  by (rule short_line_takes_stale_field) (auto simp: plain_def)

end
