(* ===== verification/Freq_Patterns.thy ===== *)
theory Freq_Patterns
  imports Text_IO "HOL-Library.Sublist"
begin

text \<open>
  Mining of frequent trajectories (\<open>usecases/FreqTrajectories/Pattern.cpp\<close>, \<open>PrefixSpan.cpp\<close> and the function of
  \<open>TrackerServer.cpp\<close> that applies it to the batch of all user tracks). A pattern is a view of a shared
  vector that is never modified, so it holds the vector itself. Accesses fail as the code does: \<open>at\<close> throws
  \<open>std::out_of_range\<close>, a \<open>std::logic_error\<close>. The ord in which an \<open>unordered_map\<close> is walked is a parameter. Numbers of
  type \<open>size_t\<close> are lengths and counts; every subtraction of them is guarded. The output on the console is not modelled.
\<close>

section \<open>Patterns\<close>

record Pattern =
  seqData :: "int list option"
  pstart :: nat
  plen :: nat
  freq :: nat

definition Pattern_vec :: "int list \<Rightarrow> nat \<Rightarrow> Pattern" where
  "Pattern_vec vec f = \<lparr>seqData = Some vec, pstart = 0, plen = length vec, freq = f\<rparr>"

definition Pattern_copy :: "Pattern \<Rightarrow> nat \<Rightarrow> Pattern" where
  "Pattern_copy s f = \<lparr>seqData = seqData s, pstart = pstart s, plen = plen s, freq = (if f > 0 then f else freq s)\<rparr>"

definition Pattern_empty :: "nat \<Rightarrow> Pattern" where
  "Pattern_empty f = \<lparr>seqData = None, pstart = 0, plen = 0, freq = f\<rparr>"

text \<open>The constructor of views ignores the frequency it is given.\<close>

definition Pattern_view :: "int list option \<Rightarrow> nat \<Rightarrow> nat \<Rightarrow> nat \<Rightarrow> Pattern" where
  "Pattern_view data s l f = \<lparr>seqData = data, pstart = s, plen = l, freq = 1\<rparr>"

definition isEmpty :: "Pattern \<Rightarrow> bool" where
  "isEmpty p \<longleftrightarrow> plen p = 0 \<or> seqData p = None"

definition pat_at :: "Pattern \<Rightarrow> nat \<Rightarrow> int res" where
  "pat_at p pos =
     (case seqData p of
        None \<Rightarrow> Inl NullPointer
      | Some d \<Rightarrow> if pstart p + pos < length d then Inr (d ! (pstart p + pos)) else Inl LogicError)"

definition pat_slice :: "Pattern \<Rightarrow> nat \<Rightarrow> nat \<Rightarrow> Pattern" where
  "pat_slice p s l = Pattern_view (seqData p) (pstart p + s) (if l = 0 then plen p - s else l) 1"

definition pat_concat :: "Pattern \<Rightarrow> int \<Rightarrow> Pattern res" where
  "pat_concat p i =
     (case seqData p of
        None \<Rightarrow> Inl NullPointer
      | Some d \<Rightarrow> if pstart p + plen p \<le> length d then Inr (Pattern_vec (take (plen p) (drop (pstart p) d) @ [i]) 1)
                  else Inl OutOfBounds)"

text \<open>The comparison loop: \<open>n\<close> more positions from \<open>i\<close> on, the first pattern read from \<open>pos\<close>.\<close>

fun equal_loop :: "Pattern \<Rightarrow> nat \<Rightarrow> Pattern \<Rightarrow> nat \<Rightarrow> nat \<Rightarrow> bool res" where
  "equal_loop p pos s i 0 = Inr True"
| "equal_loop p pos s i (Suc n) =
     bind_res (pat_at p (i + pos)) (\<lambda>x. bind_res (pat_at s i) (\<lambda>y.
       if x \<noteq> y then Inr False else equal_loop p pos s (Suc i) n))"

definition isEqualAt :: "Pattern \<Rightarrow> nat \<Rightarrow> Pattern \<Rightarrow> bool res" where
  "isEqualAt p pos s = (if plen p - pos < plen s then Inr False else equal_loop p pos s 0 (plen s))"

definition isEqualN :: "Pattern \<Rightarrow> Pattern \<Rightarrow> nat \<Rightarrow> bool res" where
  "isEqualN p s maxLen = (if plen p < maxLen \<or> plen s < maxLen then Inr False else equal_loop p 0 s 0 maxLen)"

definition hasPrefix :: "Pattern \<Rightarrow> Pattern \<Rightarrow> bool res" where
  "hasPrefix p s = (if plen s \<ge> plen p then Inr False else isEqualN p s (plen s))"

definition pat_equal :: "Pattern \<Rightarrow> Pattern \<Rightarrow> bool res" where
  "pat_equal p s = (if plen p \<noteq> plen s then Inr False else equal_loop p 0 s 0 (plen p))"

text \<open>\<open>contains\<close>: \<open>n\<close> more positions from \<open>i\<close> on.\<close>

fun contains_loop :: "Pattern \<Rightarrow> Pattern \<Rightarrow> nat \<Rightarrow> nat \<Rightarrow> bool res" where
  "contains_loop p s i 0 = Inr False"
| "contains_loop p s i (Suc n) = bind_res (isEqualAt p i s) (\<lambda>b. if b then Inr True else contains_loop p s (Suc i) n)"

definition pat_contains :: "Pattern \<Rightarrow> Pattern \<Rightarrow> bool res" where
  "pat_contains p s = (if plen p \<le> plen s then Inr False else contains_loop p s 0 (plen p - plen s + 1))"

fun first_loop :: "Pattern \<Rightarrow> int \<Rightarrow> nat \<Rightarrow> nat \<Rightarrow> int res" where
  "first_loop p elem i 0 = Inr (- 1)"
| "first_loop p elem i (Suc n) = bind_res (pat_at p i) (\<lambda>x. if x = elem then Inr (int i) else first_loop p elem (Suc i) n)"

definition findFirst :: "Pattern \<Rightarrow> int \<Rightarrow> int res" where
  "findFirst p elem = first_loop p elem 0 (plen p)"

fun suffix_loop :: "Pattern \<Rightarrow> Pattern \<Rightarrow> nat \<Rightarrow> nat \<Rightarrow> nat \<Rightarrow> bool res" where
  "suffix_loop p pfx first i 0 = Inr True"
| "suffix_loop p pfx first i (Suc n) =
     bind_res (pat_at p i) (\<lambda>x. bind_res (pat_at pfx (i - first)) (\<lambda>y.
       if x \<noteq> y then Inr False else suffix_loop p pfx first (Suc i) n))"

definition findSuffix :: "Pattern \<Rightarrow> Pattern \<Rightarrow> Pattern res" where
  "findSuffix p pfx =
     bind_res (pat_at pfx 0) (\<lambda>x. bind_res (findFirst p x) (\<lambda>first.
       if first \<ge> 0
       then bind_res (suffix_loop p pfx (nat first) (nat first + 1) (min (plen p) (plen pfx) - (nat first + 1))) (\<lambda>b.
              Inr (if b then pat_slice p (nat first) 0 else Pattern_empty 1))
       else Inr (Pattern_empty 1)))"

definition findSubPatterns :: "Pattern \<Rightarrow> nat \<Rightarrow> Pattern list" where
  "findSubPatterns p pfxLen = map (\<lambda>i. pat_slice p i pfxLen) (filter (\<lambda>i. i + pfxLen \<le> plen p) [0..<plen p])"

text \<open>The output operator, which also makes the keys of the map of prefixes.\<close>

fun print_pattern :: "Pattern \<Rightarrow> nat \<Rightarrow> nat \<Rightarrow> string res" where
  "print_pattern p i 0 = Inr []"
| "print_pattern p i (Suc n) =
     bind_res (pat_at p i) (\<lambda>x. bind_res (print_pattern p (Suc i) n) (\<lambda>rest.
       Inr ((if i = 0 then [] else '','') @ show_int x @ rest)))"

definition pat_toString :: "Pattern \<Rightarrow> string res" where
  "pat_toString p = print_pattern p 0 (plen p)"

section \<open>PrefixSpan\<close>

fun projectedPatternDB :: "Pattern list \<Rightarrow> Pattern \<Rightarrow> Pattern list res" where
  "projectedPatternDB [] pfx = Inr []"
| "projectedPatternDB (s # dataSet) pfx =
     bind_res (findSuffix s pfx) (\<lambda>pseq. bind_res (projectedPatternDB dataSet pfx) (\<lambda>rest.
       Inr (if isEmpty pseq then rest else pseq # rest)))"

text \<open>The map of prefixes with their frequencies, by the text of the prefix.\<close>

fun incr_prefix :: "string \<Rightarrow> Pattern \<Rightarrow> (string \<times> Pattern) list \<Rightarrow> (string \<times> Pattern) list" where
  "incr_prefix key sub [] = [(key, Pattern_copy sub 0)]"
| "incr_prefix key sub ((k, p) # m) = (if k = key then (k, p\<lparr>freq := freq p + 1\<rparr>) # m else (k, p) # incr_prefix key sub m)"

fun count_prefixes :: "Pattern list \<Rightarrow> (string \<times> Pattern) list \<Rightarrow> (string \<times> Pattern) list res" where
  "count_prefixes [] m = Inr m"
| "count_prefixes (sub # subs) m = bind_res (pat_toString sub) (\<lambda>key. count_prefixes subs (incr_prefix key sub m))"

definition findFreqPrefixes ::
  "((string \<times> Pattern) list \<Rightarrow> (string \<times> Pattern) list) \<Rightarrow> nat \<Rightarrow> Pattern list \<Rightarrow> nat \<Rightarrow> Pattern list res" where
  "findFreqPrefixes ord minSupport dataSet pfxLen =
     bind_res (count_prefixes (concat (map (\<lambda>s. findSubPatterns s pfxLen) dataSet)) []) (\<lambda>m.
       Inr (filter (\<lambda>p. freq p \<ge> minSupport) (map snd (ord m))))"

fun incr_item :: "int \<Rightarrow> (int \<times> nat) list \<Rightarrow> (int \<times> nat) list" where
  "incr_item key [] = [(key, 1)]"
| "incr_item key ((k, n) # m) = (if k = key then (k, n + 1) # m else (k, n) # incr_item key m)"

primrec count_items :: "Pattern list \<Rightarrow> Pattern \<Rightarrow> nat \<Rightarrow> (int \<times> nat) list \<Rightarrow> (int \<times> nat) list res" where
  "count_items [] pattern pfxLen m = Inr m"
| "count_items (s # dataSet) pattern pfxLen m =
     (if plen s \<le> pfxLen - 1 then count_items dataSet pattern pfxLen m
      else bind_res (isEqualN s pattern (pfxLen - 1)) (\<lambda>b.
             if b \<and> plen s \<ge> pfxLen
             then bind_res (pat_at s (pfxLen - 1)) (\<lambda>key. count_items dataSet pattern pfxLen (incr_item key m))
             else count_items dataSet pattern pfxLen m))"

fun grown :: "Pattern \<Rightarrow> (int \<times> nat) list \<Rightarrow> Pattern list res" where
  "grown pattern [] = Inr []"
| "grown pattern ((i, n) # items) =
     bind_res (pat_concat pattern i) (\<lambda>p. bind_res (grown pattern items) (\<lambda>rest. Inr (Pattern_copy p n # rest)))"

definition growPattern ::
  "((int \<times> nat) list \<Rightarrow> (int \<times> nat) list) \<Rightarrow> Pattern list \<Rightarrow> Pattern \<Rightarrow> nat \<Rightarrow> Pattern list res" where
  "growPattern ord dataSet pattern pfxLen =
     bind_res (count_items dataSet pattern pfxLen []) (\<lambda>items. grown pattern (ord items))"

text \<open>
  The recursion: \<open>None\<close> if the fuel, the depth of the calls, is used up. A loop that appends results is
  \<open>concat_runs\<close>: it stops at the first failure.
\<close>

fun concat_runs :: "('a \<Rightarrow> 'b list res option) \<Rightarrow> 'a list \<Rightarrow> 'b list res option" where
  "concat_runs f [] = Some (Inr [])"
| "concat_runs f (x # xs) =
     (case f x of
        None \<Rightarrow> None
      | Some (Inl e) \<Rightarrow> Some (Inl e)
      | Some (Inr ys) \<Rightarrow> (case concat_runs f xs of Some (Inr zs) \<Rightarrow> Some (Inr (ys @ zs)) | r \<Rightarrow> r))"

definition lift_res :: "'a res \<Rightarrow> ('a \<Rightarrow> 'b res option) \<Rightarrow> 'b res option" where
  "lift_res r f = (case r of Inl e \<Rightarrow> Some (Inl e) | Inr x \<Rightarrow> f x)"

definition mine_prefix ::
  "((int \<times> nat) list \<Rightarrow> (int \<times> nat) list) \<Rightarrow> nat \<Rightarrow> Pattern list \<Rightarrow> nat \<Rightarrow>
   (Pattern list \<Rightarrow> Pattern list res option) \<Rightarrow> Pattern \<Rightarrow> Pattern list res option" where
  "mine_prefix ord2 minSupport dataSet pfxLen recurse pfx =
     lift_res (projectedPatternDB dataSet pfx) (\<lambda>pdb.
     lift_res (growPattern ord2 pdb pfx (pfxLen + 2)) (\<lambda>patterns.
       concat_runs (\<lambda>pattern.
         case recurse pdb of
           Some (Inr nextResult) \<Rightarrow> Some (Inr (pattern # nextResult))
         | r \<Rightarrow> r)
         (filter (\<lambda>pattern. freq pattern \<ge> minSupport) patterns)))"

fun mine ::
  "((string \<times> Pattern) list \<Rightarrow> (string \<times> Pattern) list) \<Rightarrow> ((int \<times> nat) list \<Rightarrow> (int \<times> nat) list) \<Rightarrow> nat \<Rightarrow>
   nat \<Rightarrow> Pattern list \<Rightarrow> nat \<Rightarrow> Pattern list res option" where
  "mine ord1 ord2 minSupport 0 dataSet pfxLen = None"
| "mine ord1 ord2 minSupport (Suc fuel) dataSet pfxLen =
     lift_res (findFreqPrefixes ord1 minSupport dataSet (pfxLen + 1)) (\<lambda>prefixes.
       concat_runs (mine_prefix ord2 minSupport dataSet pfxLen (\<lambda>pdb. mine ord1 ord2 minSupport fuel pdb (pfxLen + 1))) prefixes)"

text \<open>The depth is bounded by the length of the longest sequence.\<close>

definition longest :: "Pattern list \<Rightarrow> nat" where
  "longest dataSet = foldr (\<lambda>p m. max (plen p) m) dataSet 0"

definition mineFreqPatterns ::
  "((string \<times> Pattern) list \<Rightarrow> (string \<times> Pattern) list) \<Rightarrow> ((int \<times> nat) list \<Rightarrow> (int \<times> nat) list) \<Rightarrow> nat \<Rightarrow>
   Pattern list \<Rightarrow> Pattern list res option" where
  "mineFreqPatterns ord1 ord2 minSupport dataSet = mine ord1 ord2 minSupport (longest dataSet + 1) dataSet 0"

text \<open>\<open>suppressSubPatterns\<close>: both loops with their positions; the inner one has no early exit.\<close>

primrec suppress_loop :: "Pattern \<Rightarrow> nat \<Rightarrow> Pattern list \<Rightarrow> nat \<Rightarrow> bool \<Rightarrow> bool res" where
  "suppress_loop x p1 [] p2 b = Inr b"
| "suppress_loop x p1 (y # ys) p2 b =
     (if p1 = p2 then suppress_loop x p1 ys (Suc p2) b
      else bind_res (pat_equal x y) (\<lambda>e.
             if e \<and> p1 < p2 then suppress_loop x p1 ys (Suc p2) True
             else bind_res (pat_contains y x) (\<lambda>c. suppress_loop x p1 ys (Suc p2) (b \<or> c))))"

primrec suppress_from :: "Pattern list \<Rightarrow> Pattern list \<Rightarrow> nat \<Rightarrow> Pattern list res" where
  "suppress_from dataSet [] p1 = Inr []"
| "suppress_from dataSet (x # xs) p1 =
     bind_res (suppress_loop x p1 dataSet 0 False) (\<lambda>b. bind_res (suppress_from dataSet xs (Suc p1)) (\<lambda>rest.
       Inr (if b then rest else x # rest)))"

definition suppressSubPatterns :: "Pattern list \<Rightarrow> Pattern list res" where
  "suppressSubPatterns dataSet = suppress_from dataSet dataSet 0"

section \<open>The tracker\<close>

text \<open>A user track is the list of the landmarks of its points; the conversion to \<open>int\<close> keeps the bits.\<close>

definition userTrackToPattern :: "32 word list \<Rightarrow> Pattern" where
  "userTrackToPattern trackVec = Pattern_vec (map sint trackVec) 1"

definition findFrequentTrajectories ::
  "((string \<times> Pattern) list \<Rightarrow> (string \<times> Pattern) list) \<Rightarrow> ((int \<times> nat) list \<Rightarrow> (int \<times> nat) list) \<Rightarrow>
   (Pattern \<times> bool) list \<Rightarrow> (Pattern \<times> bool) list res option" where
  "findFrequentTrajectories ord1 ord2 batch =
     (case mineFreqPatterns ord1 ord2 2 (map fst batch) of
        None \<Rightarrow> None
      | Some r \<Rightarrow> Some (bind_res r (\<lambda>rs. bind_res (suppressSubPatterns rs) (\<lambda>res. Inr (map (\<lambda>p. (p, False)) res)))))"

section \<open>Patterns as lists\<close>

definition view :: "Pattern \<Rightarrow> int list" where
  "view p = (case seqData p of None \<Rightarrow> [] | Some d \<Rightarrow> take (plen p) (drop (pstart p) d))"

definition pat_ok :: "Pattern \<Rightarrow> bool" where
  "pat_ok p \<longleftrightarrow> (case seqData p of None \<Rightarrow> plen p = 0 | Some d \<Rightarrow> pstart p + plen p \<le> length d)"

lemma length_view: "pat_ok p \<Longrightarrow> length (view p) = plen p"
  by (auto simp: pat_ok_def view_def split: option.splits)

lemma pat_at_view: "pat_ok p \<Longrightarrow> i < plen p \<Longrightarrow> pat_at p i = Inr (view p ! i)"
  by (auto simp: pat_ok_def view_def pat_at_def split: option.splits)

lemma isEmpty_view: "pat_ok p \<Longrightarrow> isEmpty p \<longleftrightarrow> view p = []"
  using length_view [of p] by (auto simp: isEmpty_def pat_ok_def view_def split: option.splits)

lemma Pattern_vec_ok [simp]: "pat_ok (Pattern_vec xs f)" "view (Pattern_vec xs f) = xs" "freq (Pattern_vec xs f) = f" "plen (Pattern_vec xs f) = length xs"
  by (simp_all add: pat_ok_def view_def Pattern_vec_def)

lemma Pattern_copy_ok [simp]: "pat_ok (Pattern_copy p f) = pat_ok p" "view (Pattern_copy p f) = view p" "plen (Pattern_copy p f) = plen p"
  "freq (Pattern_copy p f) = (if f > 0 then f else freq p)"
  by (simp_all add: pat_ok_def view_def Pattern_copy_def split: option.split)

lemma Pattern_empty_ok [simp]: "pat_ok (Pattern_empty f)" "view (Pattern_empty f) = []" "isEmpty (Pattern_empty f)"
  by (simp_all add: pat_ok_def view_def Pattern_empty_def isEmpty_def)

lemma freq_update_ok [simp]: "pat_ok (p\<lparr>freq := f\<rparr>) = pat_ok p" "view (p\<lparr>freq := f\<rparr>) = view p"
  by (simp_all add: pat_ok_def view_def split: option.split)

lemma pat_slice_ok:
  assumes "pat_ok p" and "s + l \<le> plen p" and "0 < l"
  shows "pat_ok (pat_slice p s l)" "view (pat_slice p s l) = take l (drop s (view p))" "plen (pat_slice p s l) = l"
  using assms by (auto simp: pat_ok_def view_def pat_slice_def Pattern_view_def drop_take add.commute split: option.splits)

lemma pat_slice_rest:
  assumes "pat_ok p" and "s < plen p"
  shows "pat_ok (pat_slice p s 0)" "view (pat_slice p s 0) = drop s (view p)"
  using assms by (auto simp: pat_ok_def view_def pat_slice_def Pattern_view_def drop_take add.commute split: option.splits)

lemma pat_concat_ok: "pat_ok p \<Longrightarrow> 0 < plen p \<Longrightarrow> pat_concat p i = Inr (Pattern_vec (view p @ [i]) 1)"
  by (auto simp: pat_ok_def view_def pat_concat_def split: option.splits)

lemma take_nth_eq:
  "i + n \<le> length xs \<Longrightarrow> j + n \<le> length ys \<Longrightarrow> take n (drop i xs) = take n (drop j ys) \<longleftrightarrow> (\<forall>k<n. xs ! (i + k) = ys ! (j + k))"
  by (auto simp: list_eq_iff_nth_eq)

lemma equal_loop_ok:
  assumes "pat_ok p" and "pat_ok s"
  shows "i + pos + n \<le> plen p \<Longrightarrow> i + n \<le> plen s \<Longrightarrow>
    equal_loop p pos s i n = Inr (\<forall>k<n. view p ! (i + pos + k) = view s ! (i + k))"
proof (induction n arbitrary: i)
  case (Suc n)
  have "(\<forall>k<Suc n. view p ! (i + pos + k) = view s ! (i + k)) \<longleftrightarrow>
    view p ! (i + pos) = view s ! i \<and> (\<forall>k<n. view p ! (Suc i + pos + k) = view s ! (Suc i + k))"
    by (simp add: All_less_Suc2)
  then show ?case using Suc pat_at_view [OF assms(1), of "i + pos"] pat_at_view [OF assms(2), of i] by simp
qed simp

lemma isEqualAt_ok:
  assumes "pat_ok p" and "pat_ok s" and "pos \<le> plen p"
  shows "isEqualAt p pos s = Inr (take (plen s) (drop pos (view p)) = view s)"
proof (cases "plen p - pos < plen s")
  case True
  then have "length (take (plen s) (drop pos (view p))) \<noteq> length (view s)"
    using length_view [OF assms(1)] length_view [OF assms(2)] by simp
  then have "take (plen s) (drop pos (view p)) \<noteq> view s" by metis
  then show ?thesis using True by (simp add: isEqualAt_def)
next
  case False
  then have l: "pos + plen s \<le> plen p" using assms(3) by simp
  then have "take (plen s) (drop pos (view p)) = take (plen s) (drop 0 (view s)) \<longleftrightarrow> (\<forall>k<plen s. view p ! (pos + k) = view s ! (0 + k))"
    by (intro take_nth_eq) (simp_all add: length_view assms)
  then show ?thesis using False l equal_loop_ok [OF assms(1,2), of 0 pos "plen s"] by (simp add: isEqualAt_def length_view assms)
qed

lemma isEqualN_ok:
  assumes "pat_ok p" and "pat_ok s"
  shows "isEqualN p s n = Inr (n \<le> plen p \<and> n \<le> plen s \<and> take n (view p) = take n (view s))"
proof (cases "plen p < n \<or> plen s < n")
  case False
  then have "take n (drop 0 (view p)) = take n (drop 0 (view s)) \<longleftrightarrow> (\<forall>k<n. view p ! (0 + k) = view s ! (0 + k))"
    by (intro take_nth_eq) (simp_all add: length_view assms)
  then show ?thesis using False equal_loop_ok [OF assms, of 0 0 n] by (auto simp: isEqualN_def)
qed (auto simp: isEqualN_def)

lemma pat_equal_ok:
  assumes "pat_ok p" and "pat_ok s"
  shows "pat_equal p s = Inr (view p = view s)"
proof (cases "plen p = plen s")
  case True
  then show ?thesis using equal_loop_ok [OF assms, of 0 0 "plen p"] length_view [OF assms(1)] length_view [OF assms(2)]
    by (auto simp: pat_equal_def list_eq_iff_nth_eq)
qed (use length_view [OF assms(1)] length_view [OF assms(2)] in \<open>auto simp: pat_equal_def\<close>)

lemma contains_loop_ok:
  assumes "pat_ok p" and "pat_ok s"
  shows "i + n \<le> plen p + 1 \<Longrightarrow> contains_loop p s i n = Inr (\<exists>k<n. take (plen s) (drop (i + k) (view p)) = view s)"
proof (induction n arbitrary: i)
  case (Suc n)
  then show ?case using isEqualAt_ok [OF assms, of i] by (auto simp: Ex_less_Suc2)
qed simp

lemma sublist_position: "sublist ys xs \<longleftrightarrow> (\<exists>k\<le>length xs - length ys. length ys \<le> length xs \<and> take (length ys) (drop k xs) = ys)"
proof
  assume "sublist ys xs"
  then obtain as bs where "xs = as @ ys @ bs" by (auto simp: sublist_def)
  then show "\<exists>k\<le>length xs - length ys. length ys \<le> length xs \<and> take (length ys) (drop k xs) = ys" by (intro exI [of _ "length as"]) simp
next
  assume "\<exists>k\<le>length xs - length ys. length ys \<le> length xs \<and> take (length ys) (drop k xs) = ys"
  then obtain k where "take (length ys) (drop k xs) = ys" by blast
  then have "xs = take k xs @ ys @ drop (length ys) (drop k xs)" by (metis append_take_drop_id)
  then show "sublist ys xs" unfolding sublist_def by blast
qed

lemma pat_contains_ok:
  assumes "pat_ok p" and "pat_ok s"
  shows "pat_contains p s = Inr (plen s < plen p \<and> sublist (view s) (view p))"
proof (cases "plen p \<le> plen s")
  case False
  then have "(\<exists>k<plen p - plen s + 1. take (plen s) (drop k (view p)) = view s) \<longleftrightarrow> sublist (view s) (view p)"
    unfolding sublist_position by (auto simp: length_view assms less_Suc_eq_le)
  then show ?thesis using False contains_loop_ok [OF assms, of 0 "plen p - plen s + 1"] by (simp add: pat_contains_def)
qed (simp add: pat_contains_def)

subsection \<open>Projection\<close>

lemma first_loop_ok:
  assumes "pat_ok p"
  shows "i + n \<le> plen p \<Longrightarrow> \<exists>r. first_loop p x i n = Inr r \<and> (0 \<le> r \<longrightarrow> nat r < plen p \<and> view p ! nat r = x)"
  using assms by (induction n arbitrary: i) (auto simp: pat_at_view)

lemma suffix_loop_total:
  assumes "pat_ok p" and "pat_ok pfx"
  shows "first \<le> i \<Longrightarrow> i + n \<le> plen p \<Longrightarrow> i + n \<le> plen pfx \<Longrightarrow> \<exists>b. suffix_loop p pfx first i n = Inr b"
proof (induction n arbitrary: i)
  case (Suc n)
  then show ?case using pat_at_view [OF assms(1), of i] pat_at_view [OF assms(2), of "i - first"] by auto
qed auto

lemma findSuffix_ok:
  assumes "pat_ok p" and "pat_ok pfx" and "0 < plen pfx"
  shows "\<exists>r. findSuffix p pfx = Inr r \<and> pat_ok r \<and> suffix (view r) (view p)"
proof -
  obtain f where f: "findFirst p (view pfx ! 0) = Inr f" "0 \<le> f \<longrightarrow> nat f < plen p"
    using first_loop_ok [OF assms(1), of 0 "plen p" "view pfx ! 0"] by (auto simp: findFirst_def)
  show ?thesis
  proof (cases "0 \<le> f")
    case True
    obtain b where b: "suffix_loop p pfx (nat f) (nat f + 1) (min (plen p) (plen pfx) - (nat f + 1)) = Inr b"
    proof (cases "nat f + 1 \<le> min (plen p) (plen pfx)")
      case True
      then show ?thesis using that suffix_loop_total [OF assms(1,2), of "nat f" "nat f + 1" "min (plen p) (plen pfx) - (nat f + 1)"] by auto
    next
      case False
      then have "min (plen p) (plen pfx) - (nat f + 1) = 0" by (auto simp: min_def)
      then show ?thesis using that [of True] by simp
    qed
    have "suffix (drop (nat f) (view p)) (view p)" by (rule suffix_drop)
    then show ?thesis using b True f pat_at_view [OF assms(2,3)] pat_slice_rest [OF assms(1), of "nat f"]
      by (cases b) (simp_all add: findSuffix_def)
  qed (use f pat_at_view [OF assms(2,3)] in \<open>simp add: findSuffix_def\<close>)
qed

definition supp :: "int list \<Rightarrow> Pattern list \<Rightarrow> nat" where
  "supp v dataSet = length (filter (\<lambda>s. sublist v (view s)) dataSet)"

lemma projectedPatternDB_ok:
  assumes "pat_ok pfx" and "0 < plen pfx" and "\<forall>s\<in>set dataSet. pat_ok s \<and> plen s \<le> L"
  shows "\<exists>pdb. projectedPatternDB dataSet pfx = Inr pdb \<and> (\<forall>s\<in>set pdb. pat_ok s \<and> plen s \<le> L) \<and> (\<forall>v. supp v pdb \<le> supp v dataSet)"
  using assms(3)
proof (induction dataSet)
  case (Cons s dataSet)
  obtain r where r: "findSuffix s pfx = Inr r" "pat_ok r" "suffix (view r) (view s)"
    using findSuffix_ok [OF _ assms(1,2), of s] Cons.prems by auto
  obtain pdb where pdb: "projectedPatternDB dataSet pfx = Inr pdb" "\<forall>s\<in>set pdb. pat_ok s \<and> plen s \<le> L" "\<forall>v. supp v pdb \<le> supp v dataSet"
    using Cons by auto
  have "plen r \<le> L" using r Cons.prems length_view [of r] length_view [of s] suffix_length_le [OF r(3)] by simp
  moreover have "supp v (r # pdb) \<le> supp v (s # dataSet)" for v
    using pdb(3) sublist_order.order_trans [of v "view r" "view s"] suffix_imp_sublist [OF r(3)] by (auto simp: supp_def intro: le_SucI)
  moreover have "supp v pdb \<le> supp v (s # dataSet)" for v using pdb(3) by (auto simp: supp_def intro: le_SucI)
  ultimately show ?case using r pdb by (simp add: supp_def)
qed simp

subsection \<open>Prefixes and growth\<close>

lemma print_pattern_total: "pat_ok p \<Longrightarrow> i + n \<le> plen p \<Longrightarrow> \<exists>str. print_pattern p i n = Inr str"
proof (induction n arbitrary: i)
  case (Suc n)
  then obtain str where "print_pattern p (Suc i) n = Inr str" using Suc.IH [of "Suc i"] by fastforce
  then show ?case using Suc.prems pat_at_view [of p i] by simp
qed simp

lemma incr_prefix_keeps: "\<forall>(k, p)\<in>set m. pat_ok p \<and> plen p = l \<Longrightarrow> pat_ok sub \<and> plen sub = l \<Longrightarrow> \<forall>(k, p)\<in>set (incr_prefix key sub m). pat_ok p \<and> plen p = l"
  by (induction key sub m rule: incr_prefix.induct) auto

lemma count_prefixes_ok:
  "\<forall>p\<in>set subs. pat_ok p \<and> plen p = l \<Longrightarrow> \<forall>(k, p)\<in>set m. pat_ok p \<and> plen p = l \<Longrightarrow>
    \<exists>m'. count_prefixes subs m = Inr m' \<and> (\<forall>(k, p)\<in>set m'. pat_ok p \<and> plen p = l) \<and> (subs = [] \<longrightarrow> m' = m)"
proof (induction subs arbitrary: m)
  case (Cons sub subs)
  obtain key where key: "pat_toString sub = Inr key" using print_pattern_total [of sub 0 "plen sub"] Cons.prems(1) by (auto simp: pat_toString_def)
  then show ?case using Cons.IH [OF _ incr_prefix_keeps [OF Cons.prems(2)], of sub key] Cons.prems(1) by auto
qed simp

lemma findSubPatterns_ok:
  "pat_ok p \<Longrightarrow> 0 < n \<Longrightarrow> q \<in> set (findSubPatterns p n) \<Longrightarrow> pat_ok q \<and> plen q = n \<and> n \<le> plen p"
  using pat_slice_ok [of p _ n] by (auto simp: findSubPatterns_def)

text \<open>The order of an \<open>unordered_map\<close>: some permutation of its entries.\<close>

definition permutes_entries :: "('a list \<Rightarrow> 'a list) \<Rightarrow> bool" where
  "permutes_entries ord \<longleftrightarrow> (\<forall>xs. set (ord xs) = set xs \<and> length (ord xs) = length xs)"

lemma findFreqPrefixes_ok:
  assumes "permutes_entries ord" and "\<forall>s\<in>set dataSet. pat_ok s \<and> plen s \<le> L" and "0 < n"
  shows "\<exists>ps. findFreqPrefixes ord minSupport dataSet n = Inr ps \<and> (\<forall>p\<in>set ps. pat_ok p \<and> plen p = n) \<and> (L < n \<longrightarrow> ps = [])"
proof -
  define subs where "subs = concat (map (\<lambda>s. findSubPatterns s n) dataSet)"
  have subs: "\<forall>p\<in>set subs. pat_ok p \<and> plen p = n" using findSubPatterns_ok assms(2,3) by (fastforce simp: subs_def)
  then obtain m where m: "count_prefixes subs [] = Inr m" "\<forall>(k, p)\<in>set m. pat_ok p \<and> plen p = n" "subs = [] \<longrightarrow> m = []"
    using count_prefixes_ok [of subs n "[]"] by auto
  have "subs = []" if "L < n" using assms(2) that findSubPatterns_ok [OF _ assms(3)] by (fastforce simp: subs_def)
  moreover have "set (ord m) = set m" using assms(1) by (simp add: permutes_entries_def)
  ultimately show ?thesis using m by (fastforce simp: findFreqPrefixes_def subs_def [symmetric])
qed

text \<open>An entry of \<open>items\<close> counts the sequences that continue the pattern by that item.\<close>

definition continues :: "int list \<Rightarrow> int \<Rightarrow> Pattern \<Rightarrow> bool" where
  "continues v i s \<longleftrightarrow> prefix (v @ [i]) (view s)"

lemma continues_view: "continues v i s \<longleftrightarrow> length v < length (view s) \<and> take (length v) (view s) = v \<and> view s ! length v = i"
proof
  assume "continues v i s"
  then show "length v < length (view s) \<and> take (length v) (view s) = v \<and> view s ! length v = i"
    by (auto simp: continues_def prefix_def)
next
  assume a: "length v < length (view s) \<and> take (length v) (view s) = v \<and> view s ! length v = i"
  then have "take (Suc (length v)) (view s) = v @ [i]" by (simp add: take_Suc_conv_app_nth)
  then show "continues v i s" unfolding continues_def by (metis take_is_prefix)
qed

definition counted :: "int list \<Rightarrow> Pattern list \<Rightarrow> (int \<times> nat) list \<Rightarrow> bool" where
  "counted v done_part m \<longleftrightarrow> (\<forall>(i, n)\<in>set m. 0 < n \<and> n \<le> length (filter (continues v i) done_part))"

lemma incr_item_set: "(j, n) \<in> set (incr_item i m) \<Longrightarrow> (j, n) \<in> set m \<or> j = i \<and> (n = 1 \<or> (\<exists>n'. (i, n') \<in> set m \<and> n = n' + 1))"
  by (induction i m rule: incr_item.induct) (auto split: if_splits)

lemma counted_snoc: "counted v ds m \<Longrightarrow> counted v (ds @ [s]) m"
  by (auto simp: counted_def)

lemma incr_item_counted:
  assumes "counted v ds m" and "continues v i s"
  shows "counted v (ds @ [s]) (incr_item i m)"
  using assms incr_item_set [of _ _ i m] unfolding counted_def by fastforce

lemma count_items_ok:
  assumes "pat_ok pattern" and "0 < n" and "plen pattern = n"
  shows "\<forall>s\<in>set dataSet. pat_ok s \<Longrightarrow> counted (view pattern) ds m \<Longrightarrow>
    \<exists>m'. count_items dataSet pattern (n + 1) m = Inr m' \<and> counted (view pattern) (ds @ dataSet) m'"
proof (induction dataSet arbitrary: ds m)
  case (Cons s dataSet)
  note l = length_view [OF assms(1)] assms(3)
  have s: "pat_ok s" "length (view s) = plen s" using Cons.prems(1) length_view [of s] by auto
  have e: "isEqualN s pattern n = Inr (n \<le> plen s \<and> take n (view s) = view pattern)"
    using isEqualN_ok [OF s(1) assms(1), of n] l by simp
  have step: "\<exists>m'. count_items dataSet pattern (n + 1) m1 = Inr m' \<and> counted (view pattern) (ds @ s # dataSet) m'"
    if "counted (view pattern) (ds @ [s]) m1" for m1
    using Cons.IH [OF _ that] Cons.prems(1) by simp
  show ?case
  proof (cases "n < plen s \<and> take n (view s) = view pattern")
    case True
    then have "pat_at s n = Inr (view s ! n)" by (simp add: pat_at_view s(1))
    moreover have "counted (view pattern) (ds @ [s]) (incr_item (view s ! n) m)"
      using True incr_item_counted [OF Cons.prems(2)] s l by (simp add: continues_view)
    ultimately show ?thesis using True e step by simp
  next
    case False
    then show ?thesis using e step [OF counted_snoc [OF Cons.prems(2)]] by auto
  qed
qed simp

lemma grown_ok:
  assumes "pat_ok pattern" and "0 < plen pattern"
  shows "\<forall>(i, n)\<in>set items. 0 < n \<Longrightarrow> grown pattern items = Inr (map (\<lambda>(i, n). Pattern_vec (view pattern @ [i]) n) items)"
proof (induction items)
  case (Cons x items)
  obtain i n where x: "x = (i, n)" by (cases x)
  have "Pattern_copy (Pattern_vec (view pattern @ [i]) 1) n = Pattern_vec (view pattern @ [i]) n"
    using Cons.prems x by (simp add: Pattern_copy_def Pattern_vec_def)
  then show ?case using Cons pat_concat_ok [OF assms, of i] x by simp
qed simp

lemma growPattern_ok:
  assumes "permutes_entries ord" and "pat_ok pattern" and "0 < n" and "plen pattern = n" and "\<forall>s\<in>set pdb. pat_ok s"
  shows "\<exists>ps. growPattern ord pdb pattern (n + 1) = Inr ps \<and> (\<forall>p\<in>set ps. pat_ok p \<and> plen p = n + 1 \<and> freq p \<le> supp (view p) pdb)"
proof -
  obtain m where m: "count_items pdb pattern (n + 1) [] = Inr m" "counted (view pattern) pdb m"
    using count_items_ok [OF assms(2-5), of "[]" "[]"] by (auto simp: counted_def)
  have s: "set (ord m) = set m" using assms(1) by (simp add: permutes_entries_def)
  have c: "length (filter (continues v i) pdb) \<le> supp (v @ [i]) pdb" for v i
    unfolding supp_def continues_def by (induction pdb) (auto simp: prefix_imp_sublist)
  have "grown pattern (ord m) = Inr (map (\<lambda>(i, n). Pattern_vec (view pattern @ [i]) n) (ord m))"
    using grown_ok [OF assms(2), of "ord m"] m(2) s assms(3,4) by (auto simp: counted_def)
  moreover have "n' \<le> supp (view pattern @ [i]) pdb" if "(i, n') \<in> set m" for i n'
    using m(2) that c [of "view pattern" i] by (fastforce simp: counted_def)
  ultimately show ?thesis using m(1) s length_view [OF assms(2)] assms(4) by (auto simp: growPattern_def)
qed

section \<open>Mining\<close>

lemma concat_runs_ok:
  "\<forall>x\<in>set xs. \<exists>ys. f x = Some (Inr ys) \<and> (\<forall>y\<in>set ys. P y) \<Longrightarrow> \<exists>ys. concat_runs f xs = Some (Inr ys) \<and> (\<forall>y\<in>set ys. P y)"
proof (induction xs)
  case (Cons x xs)
  then obtain ys zs where "f x = Some (Inr ys)" "\<forall>y\<in>set ys. P y" "concat_runs f xs = Some (Inr zs)" "\<forall>y\<in>set zs. P y" by auto
  then show ?case by auto
qed simp

definition mined :: "nat \<Rightarrow> Pattern list \<Rightarrow> nat \<Rightarrow> Pattern \<Rightarrow> bool" where
  "mined minSupport dataSet pfxLen r \<longleftrightarrow> pat_ok r \<and> pfxLen + 2 \<le> plen r \<and> minSupport \<le> freq r \<and> freq r \<le> supp (view r) dataSet"

lemma mine_prefix_ok:
  assumes "permutes_entries ord2" and "pat_ok pfx" and "plen pfx = pfxLen + 1" and "\<forall>s\<in>set dataSet. pat_ok s \<and> plen s \<le> L"
    and recurse: "\<And>pdb. \<forall>s\<in>set pdb. pat_ok s \<and> plen s \<le> L \<Longrightarrow> \<exists>rs. recurse pdb = Some (Inr rs) \<and> (\<forall>r\<in>set rs. mined minSupport pdb (pfxLen + 1) r)"
  shows "\<exists>ys. mine_prefix ord2 minSupport dataSet pfxLen recurse pfx = Some (Inr ys) \<and> (\<forall>y\<in>set ys. mined minSupport dataSet pfxLen y)"
proof -
  obtain pdb where pdb: "projectedPatternDB dataSet pfx = Inr pdb" "\<forall>s\<in>set pdb. pat_ok s \<and> plen s \<le> L" "\<And>v. supp v pdb \<le> supp v dataSet"
    using projectedPatternDB_ok [OF assms(2) _ assms(4)] assms(3) by auto
  obtain gs where gs: "growPattern ord2 pdb pfx (pfxLen + 2) = Inr gs" "\<forall>p\<in>set gs. pat_ok p \<and> plen p = pfxLen + 2 \<and> freq p \<le> supp (view p) pdb"
    using growPattern_ok [OF assms(1,2), of "pfxLen + 1" pdb] assms(3) pdb(2) by auto
  obtain rs where rs: "recurse pdb = Some (Inr rs)" "\<forall>r\<in>set rs. mined minSupport pdb (pfxLen + 1) r"
    using recurse [OF pdb(2)] by blast
  let ?next = "\<lambda>pattern. case recurse pdb of Some (Inr nextResult) \<Rightarrow> Some (Inr (pattern # nextResult)) | r \<Rightarrow> r"
  have "\<forall>g\<in>set (filter (\<lambda>pattern. freq pattern \<ge> minSupport) gs). \<exists>ys. ?next g = Some (Inr ys) \<and> (\<forall>y\<in>set ys. mined minSupport dataSet pfxLen y)"
    using gs(2) rs pdb(3) by (auto simp: mined_def intro: order_trans)
  then show ?thesis using concat_runs_ok [of _ ?next] pdb(1) gs(1) by (simp add: lift_res_def mine_prefix_def)
qed

lemma mine_ok:
  assumes "permutes_entries ord1" and "permutes_entries ord2"
  shows "\<forall>s\<in>set dataSet. pat_ok s \<and> plen s \<le> L \<Longrightarrow> L < pfxLen + fuel \<Longrightarrow> 0 < fuel \<Longrightarrow>
    \<exists>rs. mine ord1 ord2 minSupport fuel dataSet pfxLen = Some (Inr rs) \<and> (\<forall>r\<in>set rs. mined minSupport dataSet pfxLen r)"
proof (induction fuel arbitrary: dataSet pfxLen)
  case (Suc fuel)
  obtain ps where ps: "findFreqPrefixes ord1 minSupport dataSet (pfxLen + 1) = Inr ps" "\<forall>p\<in>set ps. pat_ok p \<and> plen p = pfxLen + 1" "L < pfxLen + 1 \<longrightarrow> ps = []"
    using findFreqPrefixes_ok [OF assms(1) Suc.prems(1), of "pfxLen + 1"] by auto
  let ?body = "mine_prefix ord2 minSupport dataSet pfxLen (\<lambda>pdb. mine ord1 ord2 minSupport fuel pdb (pfxLen + 1))"
  have "\<exists>ys. ?body prefix = Some (Inr ys) \<and> (\<forall>y\<in>set ys. mined minSupport dataSet pfxLen y)" if p: "prefix \<in> set ps" for prefix
  proof -
    have "pat_ok prefix" "plen prefix = pfxLen + 1" "0 < fuel" "L < pfxLen + 1 + fuel" using p ps Suc.prems by (auto intro: ccontr)
    then show ?thesis using mine_prefix_ok [OF assms(2) _ _ Suc.prems(1)] Suc.IH [of _ "pfxLen + 1"] by simp
  qed
  then show ?case using concat_runs_ok [of ps ?body] ps(1) by (simp add: lift_res_def)
qed simp

lemma longest_bound: "p \<in> set dataSet \<Longrightarrow> plen p \<le> longest dataSet"
  by (induction dataSet) (auto simp: longest_def)

lemma mineFreqPatterns_ok:
  assumes "permutes_entries ord1" and "permutes_entries ord2" and "\<forall>s\<in>set dataSet. pat_ok s"
  shows "\<exists>rs. mineFreqPatterns ord1 ord2 minSupport dataSet = Some (Inr rs) \<and> (\<forall>r\<in>set rs. mined minSupport dataSet 0 r)"
  using mine_ok [OF assms(1,2), of dataSet "longest dataSet" 0 "longest dataSet + 1" minSupport] assms(3) longest_bound
  by (simp add: mineFreqPatterns_def)

section \<open>Suppression\<close>

definition suppresses :: "Pattern \<Rightarrow> nat \<Rightarrow> Pattern \<Rightarrow> nat \<Rightarrow> bool" where
  "suppresses y p2 x p1 \<longleftrightarrow> p1 \<noteq> p2 \<and> (view x = view y \<and> p1 < p2 \<or> plen x < plen y \<and> sublist (view x) (view y))"

lemma suppress_loop_ok:
  assumes "pat_ok x"
  shows "\<forall>y\<in>set ys. pat_ok y \<Longrightarrow> suppress_loop x p1 ys p2 b = Inr (b \<or> (\<exists>j<length ys. suppresses (ys ! j) (p2 + j) x p1))"
proof (induction ys arbitrary: p2 b)
  case (Cons y ys)
  have "(\<exists>j<length (y # ys). suppresses ((y # ys) ! j) (p2 + j) x p1) \<longleftrightarrow> suppresses y p2 x p1 \<or> (\<exists>j<length ys. suppresses (ys ! j) (Suc p2 + j) x p1)"
    by (simp add: Ex_less_Suc2)
  moreover have "pat_equal x y = Inr (view x = view y)" "pat_contains y x = Inr (plen x < plen y \<and> sublist (view x) (view y))"
    using pat_equal_ok [OF assms, of y] pat_contains_ok [OF _ assms, of y] Cons.prems by auto
  ultimately show ?case using Cons.IH [of "Suc p2"] Cons.prems by (auto simp: suppresses_def)
qed simp

definition kept :: "Pattern list \<Rightarrow> nat \<Rightarrow> bool" where
  "kept dataSet i \<longleftrightarrow> \<not> (\<exists>j<length dataSet. suppresses (dataSet ! j) j (dataSet ! i) i)"

lemma suppress_from_ok:
  assumes "\<forall>y\<in>set dataSet. pat_ok y"
  shows "xs = drop p1 dataSet \<Longrightarrow> p1 \<le> length dataSet \<Longrightarrow>
    suppress_from dataSet xs p1 = Inr (map ((!) dataSet) (filter (kept dataSet) [p1..<length dataSet]))"
proof (induction xs arbitrary: p1)
  case (Cons x xs)
  then have p: "p1 < length dataSet" by (cases "p1 < length dataSet") auto
  then have x: "x = dataSet ! p1" "xs = drop (Suc p1) dataSet" using Cons.prems(1) by (simp_all add: Cons_nth_drop_Suc [symmetric])
  have "suppress_loop x p1 dataSet 0 False = Inr (\<not> kept dataSet p1)"
    using suppress_loop_ok [OF _ assms, of x p1 0 False] assms p x by (simp add: kept_def)
  then show ?case using Cons.IH [OF x(2)] p x(1) by (simp add: upt_conv_Cons)
qed simp

lemma suppressSubPatterns_ok:
  assumes "\<forall>y\<in>set dataSet. pat_ok y"
  shows "suppressSubPatterns dataSet = Inr (map ((!) dataSet) (filter (kept dataSet) [0..<length dataSet]))"
  using suppress_from_ok [OF assms, of dataSet 0] by (simp add: suppressSubPatterns_def)

lemma kept_maximal:
  assumes "\<forall>y\<in>set dataSet. pat_ok y" and "i < length dataSet" "j < length dataSet" "kept dataSet i" "sublist (view (dataSet ! i)) (view (dataSet ! j))"
  shows "view (dataSet ! i) = view (dataSet ! j) \<and> j \<le> i"
proof -
  have l: "length (view (dataSet ! i)) = plen (dataSet ! i)" "length (view (dataSet ! j)) = plen (dataSet ! j)"
    using assms(1-3) length_view nth_mem by metis+
  have n: "\<not> suppresses (dataSet ! j) j (dataSet ! i) i" using assms(3,4) by (auto simp: kept_def)
  show ?thesis
  proof (cases "i = j")
    case False
    then have "\<not> plen (dataSet ! i) < plen (dataSet ! j)" using n assms(5) by (auto simp: suppresses_def)
    moreover obtain as bs where ab: "view (dataSet ! j) = as @ view (dataSet ! i) @ bs" using assms(5) by (auto simp: sublist_def)
    ultimately have "length as = 0" "length bs = 0" using l arg_cong [OF ab, of length] unfolding length_append by linarith+
    then have "view (dataSet ! i) = view (dataSet ! j)" using ab by simp
    then show ?thesis using n False by (auto simp: suppresses_def)
  qed simp
qed

lemma kept_covers:
  assumes ok: "\<forall>y\<in>set dataSet. pat_ok y" and "i < length dataSet"
  shows "\<exists>j<length dataSet. kept dataSet j \<and> sublist (view (dataSet ! i)) (view (dataSet ! j))"
  using assms(2)
proof (induction i rule: wf_induct [OF wf_measures [of "[\<lambda>i. longest dataSet - plen (dataSet ! i), \<lambda>i. length dataSet - i]"]])
  case (1 i)
  show ?case
  proof (cases "kept dataSet i")
    case False
    then obtain j where j: "j < length dataSet" "suppresses (dataSet ! j) j (dataSet ! i) i" by (auto simp: kept_def)
    have b: "plen (dataSet ! j) \<le> longest dataSet" using j(1) longest_bound nth_mem by blast
    have l: "length (view (dataSet ! i)) = plen (dataSet ! i)" "length (view (dataSet ! j)) = plen (dataSet ! j)"
      using ok 1(2) j(1) length_view nth_mem by metis+
    have "(j, i) \<in> measures [\<lambda>i. longest dataSet - plen (dataSet ! i), \<lambda>i. length dataSet - i]" "sublist (view (dataSet ! i)) (view (dataSet ! j))"
      using j b l by (auto simp: suppresses_def)
    then show ?thesis using 1(1) j(1) sublist_order.order_trans by blast
  qed (use 1(2) in auto)
qed

text \<open>
  The patterns that remain: distinct, none a part of another, and covering all that were given.
\<close>

lemma suppressed_patterns:
  assumes "\<forall>y\<in>set dataSet. pat_ok y"
  obtains rs where "suppressSubPatterns dataSet = Inr rs" "set rs \<subseteq> set dataSet" "distinct (map view rs)"
    "\<forall>r\<in>set rs. \<forall>q\<in>set rs. sublist (view r) (view q) \<longrightarrow> view r = view q"
    "\<forall>d\<in>set dataSet. \<exists>r\<in>set rs. sublist (view d) (view r)"
proof
  let ?rs = "map ((!) dataSet) (filter (kept dataSet) [0..<length dataSet])"
  show "suppressSubPatterns dataSet = Inr ?rs" by (rule suppressSubPatterns_ok [OF assms])
  show "set ?rs \<subseteq> set dataSet" by auto
  have "inj_on (\<lambda>i. view (dataSet ! i)) {i. i < length dataSet \<and> kept dataSet i}"
  proof (rule inj_onI)
    fix i j
    assume "i \<in> {i. i < length dataSet \<and> kept dataSet i}" "j \<in> {i. i < length dataSet \<and> kept dataSet i}" "view (dataSet ! i) = view (dataSet ! j)"
    then show "i = j" using kept_maximal [OF assms, of i j] kept_maximal [OF assms, of j i] by auto
  qed
  then show "distinct (map view ?rs)" by (simp add: distinct_map comp_def inj_on_def)
  show "\<forall>r\<in>set ?rs. \<forall>q\<in>set ?rs. sublist (view r) (view q) \<longrightarrow> view r = view q" using kept_maximal [OF assms] by auto
  show "\<forall>d\<in>set dataSet. \<exists>r\<in>set ?rs. sublist (view d) (view r)" using kept_covers [OF assms] by (fastforce simp: in_set_conv_nth)
qed

section \<open>The trajectories that are published\<close>

lemma supp_tracks: "supp v (map userTrackToPattern tracks) = length (filter (\<lambda>t. sublist v (map sint t)) tracks)"
  by (induction tracks) (simp_all add: supp_def userTrackToPattern_def)

text \<open>
  (C32) The search for frequent trajectories ends without an error for every batch of user tracks, and in
  whatever order the maps are walked: every published trajectory visits at least two landmarks and is a
  contiguous part of at least two tracks of the batch, no trajectory is published twice, and none is
  a part of another one.
\<close>

theorem published_trajectories_frequent:
  assumes "permutes_entries ord1" and "permutes_entries ord2"
  shows "\<exists>res. findFrequentTrajectories ord1 ord2 (map (\<lambda>t. (userTrackToPattern t, False)) tracks) = Some (Inr res) \<and>
    (\<forall>(p, outdated)\<in>set res. \<not> outdated \<and> 2 \<le> length (view p) \<and> 2 \<le> length (filter (\<lambda>t. sublist (view p) (map sint t)) tracks)) \<and>
    distinct (map (view \<circ> fst) res) \<and>
    (\<forall>(p, b)\<in>set res. \<forall>(q, c)\<in>set res. sublist (view p) (view q) \<longrightarrow> view p = view q)"
proof -
  define ds where "ds = map userTrackToPattern tracks"
  have b: "map fst (map (\<lambda>t. (userTrackToPattern t, False)) tracks) = ds" by (simp add: ds_def comp_def)
  have "\<forall>s\<in>set ds. pat_ok s" by (simp add: ds_def userTrackToPattern_def)
  then obtain ms where ms: "mineFreqPatterns ord1 ord2 2 ds = Some (Inr ms)" "\<forall>r\<in>set ms. mined 2 ds 0 r"
    using mineFreqPatterns_ok [OF assms] by blast
  then have ok: "\<forall>r\<in>set ms. pat_ok r" by (simp add: mined_def)
  obtain rs where rs: "suppressSubPatterns ms = Inr rs" "set rs \<subseteq> set ms" "distinct (map view rs)"
    "\<forall>r\<in>set rs. \<forall>q\<in>set rs. sublist (view r) (view q) \<longrightarrow> view r = view q"
    by (rule suppressed_patterns [OF ok]) blast
  have m: "2 \<le> length (view p) \<and> 2 \<le> length (filter (\<lambda>t. sublist (view p) (map sint t)) tracks)" if "p \<in> set rs" for p
  proof -
    have "mined 2 ds 0 p" using ms(2) rs(2) that by blast
    then show ?thesis using length_view [of p] supp_tracks [of "view p" tracks] by (simp add: mined_def ds_def)
  qed
  have "findFrequentTrajectories ord1 ord2 (map (\<lambda>t. (userTrackToPattern t, False)) tracks) = Some (Inr (map (\<lambda>p. (p, False)) rs))"
    unfolding findFrequentTrajectories_def b ms(1) using rs(1) by simp
  then show ?thesis using m rs(3,4) by (intro exI [of _ "map (\<lambda>p. (p, False)) rs"]) (auto simp: comp_def)
qed

lemma permutes_entries_id: "permutes_entries id"
  by (simp add: permutes_entries_def)

theorem published_trajectories_frequent_witness:
  "permutes_entries (id :: (string \<times> Pattern) list \<Rightarrow> _) \<and> permutes_entries (id :: (int \<times> nat) list \<Rightarrow> _) \<and>
   (\<exists>res. findFrequentTrajectories id id (map (\<lambda>t. (userTrackToPattern t, False)) [[1, 2, 3], [1, 2, 3], [2, 1]]) = Some (Inr res) \<and>
     distinct (map (view \<circ> fst) res))"
proof -
  from published_trajectories_frequent [OF permutes_entries_id permutes_entries_id, of "[[1, 2, 3], [1, 2, 3], [2, 1]]"]
  obtain res where "findFrequentTrajectories id id (map (\<lambda>t. (userTrackToPattern t, False)) [[1, 2, 3], [1, 2, 3], [2, 1]]) = Some (Inr res)"
    "distinct (map (view \<circ> fst) res)" by (elim exE conjE)
  then show ?thesis by (intro conjI permutes_entries_id exI)
qed

section \<open>Completeness\<close>

text \<open>
  If no track visits a landmark twice, the first occurrence that the projection looks for is the only one,
  and nothing is missed.
\<close>

lemma first_loop_found:
  assumes "pat_ok p"
  shows "i + n \<le> plen p \<Longrightarrow> i \<le> k \<Longrightarrow> k < i + n \<Longrightarrow> view p ! k = x \<Longrightarrow> \<exists>r\<ge>0. first_loop p x i n = Inr r"
proof (induction n arbitrary: i)
  case (Suc n)
  show ?case
  proof (cases "view p ! i = x")
    case True
    then show ?thesis using Suc.prems pat_at_view [OF assms, of i] by simp
  next
    case False
    then have "i \<noteq> k" using Suc.prems(4) by blast
    then show ?thesis using Suc.IH [of "Suc i"] Suc.prems False pat_at_view [OF assms, of i] by simp
  qed
qed simp

lemma suffix_loop_matches:
  assumes "pat_ok p" and "pat_ok pfx"
  shows "first \<le> i \<Longrightarrow> i + n \<le> plen p \<Longrightarrow> i + n \<le> plen pfx \<Longrightarrow> (\<forall>k. i \<le> k \<and> k < i + n \<longrightarrow> view p ! k = view pfx ! (k - first)) \<Longrightarrow>
    suffix_loop p pfx first i n = Inr True"
proof (induction n arbitrary: i)
  case (Suc n)
  then have "pat_at p i = Inr (view p ! i)" "pat_at pfx (i - first) = Inr (view p ! i)"
    using pat_at_view [OF assms(1), of i] pat_at_view [OF assms(2), of "i - first"] by simp_all
  then show ?case using Suc.IH [of "Suc i"] Suc.prems by simp
qed simp

lemma findSuffix_found:
  assumes "pat_ok p" and "pat_ok pfx" and "0 < plen pfx" and d: "distinct (view p)" and v: "view p = as @ view pfx @ bs"
  shows "\<exists>r. findSuffix p pfx = Inr r \<and> view r = view pfx @ bs \<and> \<not> isEmpty r"
proof -
  note l = length_view [OF assms(1)] length_view [OF assms(2)]
  have x: "view p ! length as = view pfx ! 0" "length as < plen p" using l assms(3) v by (auto simp: nth_append)
  obtain f where f: "findFirst p (view pfx ! 0) = Inr f" "0 \<le> f"
    using first_loop_found [OF assms(1), of 0 "plen p" "length as" "view pfx ! 0"] x by (auto simp: findFirst_def)
  then have "nat f < plen p" "view p ! nat f = view p ! length as"
    using first_loop_ok [OF assms(1), of 0 "plen p" "view pfx ! 0"] x by (auto simp: findFirst_def)
  then have fa: "nat f = length as" using d x(2) l(1) by (simp add: nth_eq_iff_index_eq)
  have s: "suffix_loop p pfx (length as) (length as + 1) (min (plen p) (plen pfx) - (length as + 1)) = Inr True"
  proof (cases "length as + 1 \<le> min (plen p) (plen pfx)")
    case True
    then show ?thesis by (intro suffix_loop_matches [OF assms(1,2)]) (use l in \<open>auto simp: v nth_append\<close>)
  next
    case False
    then have "min (plen p) (plen pfx) - (length as + 1) = 0" by (auto simp: min_def)
    then show ?thesis by simp
  qed
  have "view (pat_slice p (length as) 0) = view pfx @ bs" using pat_slice_rest(2) [OF assms(1) x(2)] v by simp
  moreover have "\<not> isEmpty (pat_slice p (length as) 0)"
    using isEmpty_view [OF pat_slice_rest(1) [OF assms(1) x(2)]] pat_slice_rest(2) [OF assms(1) x(2)] x(2) l by simp
  moreover have "findSuffix p pfx = Inr (pat_slice p (length as) 0)"
    using f fa s pat_at_view [OF assms(2,3)] by (simp add: findSuffix_def)
  ultimately show ?thesis by blast
qed

definition starts :: "int list \<Rightarrow> Pattern list \<Rightarrow> nat" where
  "starts w dataSet = length (filter (\<lambda>s. prefix w (view s)) dataSet)"

lemma projectedPatternDB_complete:
  assumes "pat_ok pfx" and "0 < plen pfx" and "\<forall>s\<in>set dataSet. pat_ok s \<and> distinct (view s)" and "prefix (view pfx) w"
    and "projectedPatternDB dataSet pfx = Inr pdb"
  shows "supp w dataSet \<le> starts w pdb \<and> (\<forall>s\<in>set pdb. distinct (view s))"
  using assms(3,5)
proof (induction dataSet arbitrary: pdb)
  case (Cons s dataSet)
  have s: "pat_ok s" "distinct (view s)" using Cons.prems(1) by auto
  obtain r where r: "findSuffix s pfx = Inr r" "pat_ok r" "suffix (view r) (view s)"
    using findSuffix_ok [OF s(1) assms(1,2)] by blast
  obtain rest where rest: "projectedPatternDB dataSet pfx = Inr rest" "pdb = (if isEmpty r then rest else r # rest)"
    using Cons.prems(2) r(1) by (cases "projectedPatternDB dataSet pfx") auto
  have ih: "supp w dataSet \<le> starts w rest" "\<forall>s\<in>set rest. distinct (view s)" using Cons.IH [OF _ rest(1)] Cons.prems(1) by auto
  have "distinct (view r)" using s(2) r(3) by (auto simp: suffix_def)
  moreover have "\<not> isEmpty r \<and> prefix w (view r)" if sub: "sublist w (view s)"
  proof -
    obtain as bs where "view s = as @ w @ bs" using sub by (auto simp: sublist_def)
    moreover obtain u where "w = view pfx @ u" using assms(4) by (auto simp: prefix_def)
    ultimately show ?thesis using findSuffix_found [OF s(1) assms(1,2) s(2), of as "u @ bs"] r(1) by auto
  qed
  ultimately show ?case using ih rest(2) by (auto simp: supp_def starts_def)
qed (simp add: supp_def starts_def)

subsection \<open>The keys of the prefixes\<close>

fun key_text :: "bool \<Rightarrow> int list \<Rightarrow> string" where
  "key_text first [] = []"
| "key_text first (x # xs) = (if first then [] else '','') @ show_int x @ key_text False xs"

lemma print_pattern_text:
  assumes "pat_ok p"
  shows "i + n \<le> plen p \<Longrightarrow> print_pattern p i n = Inr (key_text (i = 0) (take n (drop i (view p))))"
proof (induction n arbitrary: i)
  case (Suc n)
  then have "take (Suc n) (drop i (view p)) = view p ! i # take n (drop (Suc i) (view p))"
    using length_view [OF assms] by (simp add: Cons_nth_drop_Suc [symmetric])
  then show ?case using Suc.IH [of "Suc i"] Suc.prems pat_at_view [OF assms, of i] by simp
qed simp

lemma toString_text: "pat_ok p \<Longrightarrow> pat_toString p = Inr (key_text True (view p))"
  using print_pattern_text [of p 0 "plen p"] length_view [of p] by (simp add: pat_toString_def)

lemma key_text_head: "takeWhile (\<lambda>c. c \<noteq> CHR '','') (show_int x @ key_text False xs) = show_int x"
  "dropWhile (\<lambda>c. c \<noteq> CHR '','') (show_int x @ key_text False xs) = key_text False xs"
proof -
  have p: "\<forall>c\<in>set (show_int x). c \<noteq> CHR '',''" using plain_show_int [of x] by (auto simp: plain_def)
  show "takeWhile (\<lambda>c. c \<noteq> CHR '','') (show_int x @ key_text False xs) = show_int x"
    using p by (cases xs) (simp_all add: takeWhile_append2)
  show "dropWhile (\<lambda>c. c \<noteq> CHR '','') (show_int x @ key_text False xs) = key_text False xs"
    using p by (cases xs) (simp_all add: dropWhile_append2)
qed

lemma key_text_inj: "length xs = length ys \<Longrightarrow> key_text b xs = key_text b ys \<Longrightarrow> xs = ys"
proof (induction xs ys arbitrary: b rule: list_induct2)
  case (Cons x xs y ys)
  then have e: "show_int x @ key_text False xs = show_int y @ key_text False ys" by (auto split: if_splits)
  have "show_int x = show_int y" using arg_cong [OF e, of "takeWhile (\<lambda>c. c \<noteq> CHR '','')"] by (simp only: key_text_head)
  then have "x = y" using decimal_show_int by metis
  moreover have "key_text False xs = key_text False ys" using arg_cong [OF e, of "dropWhile (\<lambda>c. c \<noteq> CHR '','')"] by (simp only: key_text_head)
  ultimately show ?case using Cons.IH by simp
qed simp

subsection \<open>Frequent prefixes\<close>

lemma map_of_incr_prefix:
  "map_of (incr_prefix key sub m) = (map_of m)(key \<mapsto> (case map_of m key of None \<Rightarrow> Pattern_copy sub 0 | Some p \<Rightarrow> p\<lparr>freq := freq p + 1\<rparr>))"
  by (induction key sub m rule: incr_prefix.induct) auto

definition tallied :: "nat \<Rightarrow> int list list \<Rightarrow> (string \<times> Pattern) list \<Rightarrow> bool" where
  "tallied n vs m \<longleftrightarrow> (\<forall>k p. map_of m k = Some p \<longrightarrow> k = key_text True (view p) \<and> length (view p) = n) \<and>
     (\<forall>v\<in>set vs. \<exists>p. map_of m (key_text True v) = Some p \<and> count_list vs v \<le> freq p)"

lemma tallied_step:
  assumes "tallied n vs m" and "pat_ok sub" and "plen sub = n" and "freq sub = 1" and "\<forall>v\<in>set vs. length v = n"
  shows "tallied n (vs @ [view sub]) (incr_prefix (key_text True (view sub)) sub m)"
proof -
  let ?k = "key_text True (view sub)"
  have l: "length (view sub) = n" using length_view [OF assms(2)] assms(3) by simp
  have other: "key_text True v \<noteq> ?k" if "v \<in> set vs" "v \<noteq> view sub" for v
    using key_text_inj [of v "view sub" True] that assms(5) l by auto
  have c: "count_list vs (view sub) \<le> (case map_of m ?k of None \<Rightarrow> 0 | Some p \<Rightarrow> freq p)"
    using assms(1) by (cases "view sub \<in> set vs") (auto simp: tallied_def split: option.split)
  have "\<exists>p. map_of (incr_prefix ?k sub m) (key_text True v) = Some p \<and> count_list (vs @ [view sub]) v \<le> freq p" if "v \<in> set (vs @ [view sub])" for v
  proof (cases "v = view sub")
    case True
    then show ?thesis using c assms(4) by (auto simp: map_of_incr_prefix split: option.split)
  next
    case False
    then show ?thesis using assms(1) that other [of v] by (auto simp: map_of_incr_prefix tallied_def)
  qed
  moreover have "k = key_text True (view p) \<and> length (view p) = n" if "map_of (incr_prefix ?k sub m) k = Some p" for k p
  proof -
    have known: "map_of m k' = Some p' \<Longrightarrow> k' = key_text True (view p') \<and> length (view p') = n" for k' p'
      using assms(1) by (simp add: tallied_def)
    show ?thesis
    proof (cases "k = ?k")
      case True
      then show ?thesis using that known [of ?k] l by (cases "map_of m ?k") (auto simp: map_of_incr_prefix)
    next
      case False
      then show ?thesis using that known [of k p] by (simp add: map_of_incr_prefix)
    qed
  qed
  ultimately show ?thesis unfolding tallied_def by blast
qed

lemma count_prefixes_tallied:
  assumes "\<forall>p\<in>set subs. pat_ok p \<and> plen p = n \<and> freq p = 1"
  shows "tallied n vs m \<Longrightarrow> \<forall>v\<in>set vs. length v = n \<Longrightarrow> \<exists>m'. count_prefixes subs m = Inr m' \<and> tallied n (vs @ map view subs) m'"
  using assms
proof (induction subs arbitrary: vs m)
  case (Cons sub subs)
  have sub: "pat_ok sub" "plen sub = n" "freq sub = 1" using Cons.prems(3) by auto
  note t = tallied_step [OF Cons.prems(1) sub Cons.prems(2)]
  have "\<forall>v\<in>set (vs @ [view sub]). length v = n" using Cons.prems(2) length_view [OF sub(1)] sub(2) by auto
  then show ?case using Cons.IH [OF t] Cons.prems(3) toString_text [OF sub(1)] by simp
qed simp

lemma findSubPatterns_count:
  assumes "pat_ok s" and "sublist v (view s)" and "length v = n" and "0 < n"
  shows "v \<in> view ` set (findSubPatterns s n)"
proof -
  obtain as bs where ab: "view s = as @ v @ bs" using assms(2) by (auto simp: sublist_def)
  have l: "length as + n \<le> plen s" using length_view [OF assms(1)] assms(3) ab by simp
  then have "view (pat_slice s (length as) n) = v" using pat_slice_ok(2) [OF assms(1) l assms(4)] ab assms(3) by simp
  moreover have "pat_slice s (length as) n \<in> set (findSubPatterns s n)" using l assms(4) by (auto simp: findSubPatterns_def)
  ultimately show ?thesis by blast
qed

lemma findFreqPrefixes_complete:
  assumes "permutes_entries ord" and "\<forall>s\<in>set dataSet. pat_ok s" and "0 < n" and "length v = n" and "0 < minSupport" and "minSupport \<le> supp v dataSet"
    and "findFreqPrefixes ord minSupport dataSet n = Inr ps"
  shows "\<exists>p\<in>set ps. view p = v"
proof -
  define subs where "subs = concat (map (\<lambda>s. findSubPatterns s n) dataSet)"
  have "freq p = 1" if "p \<in> set subs" for p using that by (auto simp: subs_def findSubPatterns_def pat_slice_def Pattern_view_def)
  then have "\<forall>p\<in>set subs. pat_ok p \<and> plen p = n \<and> freq p = 1" using findSubPatterns_ok assms(2,3) by (fastforce simp: subs_def)
  then obtain m where m: "count_prefixes subs [] = Inr m" "tallied n (map view subs) m"
    using count_prefixes_tallied [of subs n "[]" "[]"] by (auto simp: tallied_def)
  have c: "supp v dataSet \<le> count_list (map view subs) v"
    unfolding subs_def supp_def using assms(2)
  proof (induction dataSet)
    case (Cons s dataSet)
    have "0 < count_list (map view (findSubPatterns s n)) v" if "sublist v (view s)"
      using findSubPatterns_count [OF _ that assms(4,3)] Cons.prems count_notin [of v "map view (findSubPatterns s n)"]
      by (auto simp: count_list_0_iff intro: gr0I)
    then show ?case using Cons by (auto simp: count_list_append)
  qed simp
  then have "v \<in> set (map view subs)" using assms(5,6) count_list_0_iff [of "map view subs" v] by linarith
  then obtain p where p: "map_of m (key_text True v) = Some p" "count_list (map view subs) v \<le> freq p"
    using m(2) unfolding tallied_def by blast
  then have "view p = v" using m(2) key_text_inj [of v "view p" True] assms(4) unfolding tallied_def by metis
  moreover have "p \<in> snd ` set (ord m)" using map_of_SomeD [OF p(1)] assms(1) by (force simp: permutes_entries_def)
  moreover have "minSupport \<le> freq p" using assms(6) c p(2) by linarith
  moreover have "ps = filter (\<lambda>p. minSupport \<le> freq p) (map snd (ord m))"
    using assms(7) m(1) by (simp add: findFreqPrefixes_def subs_def [symmetric])
  ultimately show ?thesis by (intro bexI [of _ p]) simp_all
qed

subsection \<open>Growth\<close>

lemma map_of_incr_item: "map_of (incr_item key m) = (map_of m)(key \<mapsto> (case map_of m key of None \<Rightarrow> 1 | Some n \<Rightarrow> n + 1))"
  by (induction key m rule: incr_item.induct) auto

definition tally_of :: "(int \<times> nat) list \<Rightarrow> int \<Rightarrow> nat" where
  "tally_of m i = (case map_of m i of None \<Rightarrow> 0 | Some n \<Rightarrow> n)"

lemma tally_of_incr: "tally_of (incr_item key m) i = tally_of m i + (if i = key then 1 else 0)"
  by (simp add: tally_of_def map_of_incr_item split: option.split)

lemma count_items_tally:
  assumes "pat_ok pattern" and "0 < n" and "plen pattern = n"
  shows "\<forall>s\<in>set dataSet. pat_ok s \<Longrightarrow> count_items dataSet pattern (n + 1) m = Inr m' \<Longrightarrow>
    tally_of m' i = tally_of m i + length (filter (continues (view pattern) i) dataSet)"
proof (induction dataSet arbitrary: m)
  case (Cons s dataSet)
  note l = length_view [OF assms(1)] assms(3)
  have s: "pat_ok s" "length (view s) = plen s" using Cons.prems(1) length_view [of s] by auto
  have e: "isEqualN s pattern n = Inr (n \<le> plen s \<and> take n (view s) = view pattern)"
    using isEqualN_ok [OF s(1) assms(1), of n] l by simp
  show ?case
  proof (cases "n < plen s \<and> take n (view s) = view pattern")
    case True
    then have "pat_at s n = Inr (view s ! n)" by (simp add: pat_at_view s(1))
    then have "count_items dataSet pattern (n + 1) (incr_item (view s ! n) m) = Inr m'" using Cons.prems(2) True e by simp
    then show ?thesis using Cons.IH Cons.prems(1) True s l by (auto simp: tally_of_incr continues_view)
  next
    case False
    then have "count_items dataSet pattern (n + 1) m = Inr m'" using Cons.prems(2) e by (auto split: if_splits)
    moreover have "\<not> continues (view pattern) i s" using False s l by (auto simp: continues_view)
    ultimately show ?thesis using Cons.IH Cons.prems(1) by simp
  qed
qed simp

lemma growPattern_complete:
  assumes "permutes_entries ord" and "pat_ok pattern" and "0 < n" and "plen pattern = n" and "\<forall>s\<in>set pdb. pat_ok s"
    and "growPattern ord pdb pattern (n + 1) = Inr ps" and "0 < k" and "k \<le> starts (view pattern @ [i]) pdb"
  shows "\<exists>p\<in>set ps. view p = view pattern @ [i] \<and> k \<le> freq p"
proof -
  obtain m where m: "count_items pdb pattern (n + 1) [] = Inr m" "counted (view pattern) pdb m"
    using count_items_ok [OF assms(2-5), of "[]" "[]"] by (auto simp: counted_def)
  have "tally_of m i = starts (view pattern @ [i]) pdb"
    using count_items_tally [OF assms(2-5) m(1), of i] by (simp add: tally_of_def starts_def continues_def [abs_def])
  then obtain c where c: "map_of m i = Some c" "k \<le> c" using assms(7,8) by (auto simp: tally_of_def split: option.splits)
  have s: "set (ord m) = set m" using assms(1) by (simp add: permutes_entries_def)
  have "ps = map (\<lambda>(i, n). Pattern_vec (view pattern @ [i]) n) (ord m)"
    using assms(6) m grown_ok [OF assms(2), of "ord m"] s assms(3,4) by (auto simp: growPattern_def counted_def)
  moreover have "(i, c) \<in> set (ord m)" using map_of_SomeD [OF c(1)] s by simp
  ultimately have "Pattern_vec (view pattern @ [i]) c \<in> set ps" by force
  then show ?thesis using c(2) by (intro bexI [of _ "Pattern_vec (view pattern @ [i]) c"]) simp_all
qed

subsection \<open>Mining\<close>

lemma concat_runs_run: "concat_runs f xs = Some (Inr ys) \<Longrightarrow> x \<in> set xs \<Longrightarrow> \<exists>zs. f x = Some (Inr zs) \<and> set zs \<subseteq> set ys"
proof (induction xs arbitrary: ys)
  case (Cons a xs)
  then obtain y1 y2 where "f a = Some (Inr y1)" "concat_runs f xs = Some (Inr y2)" "ys = y1 @ y2" by (auto split: option.splits sum.splits)
  then show ?case using Cons.IH [of y2] Cons.prems(2) by auto
qed simp

lemma lift_res_Some: "lift_res r f = Some (Inr ys) \<Longrightarrow> \<exists>x. r = Inr x \<and> f x = Some (Inr ys)"
  by (auto simp: lift_res_def split: sum.splits)

lemma supp_prefix: "prefix v w \<Longrightarrow> supp w dataSet \<le> supp v dataSet"
  unfolding supp_def using sublist_order.order_trans [OF prefix_imp_sublist] by (induction dataSet) (auto intro: le_SucI)

lemma starts_supp: "starts w dataSet \<le> supp w dataSet"
  unfolding supp_def starts_def by (induction dataSet) (auto intro: prefix_imp_sublist)

lemma mine_prefix_run:
  assumes "mine_prefix ord2 minSupport dataSet pfxLen recurse p = Some (Inr zs)"
  obtains pdb gs where "projectedPatternDB dataSet p = Inr pdb" "growPattern ord2 pdb p (pfxLen + 2) = Inr gs"
    "\<forall>g\<in>set gs. minSupport \<le> freq g \<longrightarrow> (\<exists>ns. recurse pdb = Some (Inr ns) \<and> set (g # ns) \<subseteq> set zs)"
proof -
  obtain pdb gs where g: "projectedPatternDB dataSet p = Inr pdb" "growPattern ord2 pdb p (pfxLen + 2) = Inr gs"
    "concat_runs (\<lambda>pattern. case recurse pdb of Some (Inr nextResult) \<Rightarrow> Some (Inr (pattern # nextResult)) | r \<Rightarrow> r)
       (filter (\<lambda>pattern. freq pattern \<ge> minSupport) gs) = Some (Inr zs)"
    using assms unfolding mine_prefix_def by (auto simp: lift_res_def split: sum.splits)
  have "\<exists>ns. recurse pdb = Some (Inr ns) \<and> set (x # ns) \<subseteq> set zs" if "x \<in> set gs" "minSupport \<le> freq x" for x
    using concat_runs_run [OF g(3), of x] that by (auto split: option.splits sum.splits)
  then show ?thesis using that g(1,2) by blast
qed

text \<open>One level: the pattern of the next length is grown, and longer ones are frequent in the projection.\<close>

lemma mine_prefix_complete:
  assumes "permutes_entries ord2" and "0 < minSupport" and ok: "\<forall>s\<in>set dataSet. pat_ok s \<and> distinct (view s)"
    and p: "pat_ok p" "plen p = pfxLen + 1" "view p = take (pfxLen + 1) u" and u: "pfxLen + 2 \<le> length u" "minSupport \<le> supp u dataSet"
    and run: "mine_prefix ord2 minSupport dataSet pfxLen recurse p = Some (Inr zs)"
  shows "\<exists>pdb g ns. (\<forall>s\<in>set pdb. pat_ok s \<and> distinct (view s)) \<and> minSupport \<le> supp u pdb \<and> view g = take (pfxLen + 2) u \<and>
    recurse pdb = Some (Inr ns) \<and> set (g # ns) \<subseteq> set zs"
proof -
  let ?w = "take (pfxLen + 2) u"
  obtain pdb gs where pdb: "projectedPatternDB dataSet p = Inr pdb" "growPattern ord2 pdb p (pfxLen + 2) = Inr gs"
    "\<forall>g\<in>set gs. minSupport \<le> freq g \<longrightarrow> (\<exists>ns. recurse pdb = Some (Inr ns) \<and> set (g # ns) \<subseteq> set zs)"
    by (rule mine_prefix_run [OF run])
  have pdbok: "\<forall>s\<in>set pdb. pat_ok s"
    using projectedPatternDB_ok [OF p(1), of dataSet "longest dataSet"] p(2) ok longest_bound pdb(1) by auto
  have b: "supp x dataSet \<le> starts x pdb" "\<forall>s\<in>set pdb. distinct (view s)" if "prefix (view p) x" for x
    using projectedPatternDB_complete [OF p(1) _ ok that pdb(1)] p(2) by auto
  have w: "?w = view p @ [u ! (pfxLen + 1)]" using u(1) p(3) by (simp add: take_Suc_conv_app_nth)
  have "minSupport \<le> starts ?w pdb" using b(1) [of ?w] supp_prefix [of ?w u dataSet] u(2) w by (simp add: take_is_prefix)
  then obtain g where g: "g \<in> set gs" "view g = ?w" "minSupport \<le> freq g"
    using growPattern_complete [OF assms(1) p(1), of "pfxLen + 1" pdb gs minSupport "u ! (pfxLen + 1)"] p(2) pdbok pdb(2) assms(2) w by auto
  have "prefix (view p) u" using p(3) by (simp add: take_is_prefix)
  then have "minSupport \<le> supp u pdb" "\<forall>s\<in>set pdb. pat_ok s \<and> distinct (view s)"
    using b [of u] starts_supp [of u pdb] u(2) pdbok by auto
  then show ?thesis using g pdb(3) by blast
qed

lemma mine_complete:
  assumes "permutes_entries ord1" and "permutes_entries ord2" and "0 < minSupport"
  shows "\<forall>s\<in>set dataSet. pat_ok s \<and> distinct (view s) \<Longrightarrow> mine ord1 ord2 minSupport fuel dataSet pfxLen = Some (Inr rs) \<Longrightarrow>
    pfxLen + 2 \<le> length u \<Longrightarrow> minSupport \<le> supp u dataSet \<Longrightarrow> \<exists>r\<in>set rs. view r = u"
proof (induction fuel arbitrary: dataSet pfxLen rs)
  case (Suc fuel)
  let ?v = "take (pfxLen + 1) u" and ?recurse = "\<lambda>pdb. mine ord1 ord2 minSupport fuel pdb (pfxLen + 1)"
  obtain ps where ps: "findFreqPrefixes ord1 minSupport dataSet (pfxLen + 1) = Inr ps"
    "concat_runs (mine_prefix ord2 minSupport dataSet pfxLen ?recurse) ps = Some (Inr rs)"
    using Suc.prems(2) by (auto simp: lift_res_def split: sum.splits)
  have ok: "\<forall>s\<in>set dataSet. pat_ok s" using Suc.prems(1) by blast
  have "minSupport \<le> supp ?v dataSet" using supp_prefix [of ?v u dataSet] Suc.prems(4) by (simp add: take_is_prefix)
  then obtain p where p: "p \<in> set ps" "view p = ?v"
    using findFreqPrefixes_complete [OF assms(1) ok _ _ assms(3) _ ps(1), of ?v] Suc.prems(3) by auto
  have pk: "pat_ok p" "plen p = pfxLen + 1"
    using findFreqPrefixes_ok [OF assms(1), of dataSet "longest dataSet" "pfxLen + 1" minSupport] ok longest_bound ps(1) p(1) by auto
  obtain zs where zs: "mine_prefix ord2 minSupport dataSet pfxLen ?recurse p = Some (Inr zs)" "set zs \<subseteq> set rs"
    using concat_runs_run [OF ps(2) p(1)] by blast
  from mine_prefix_complete [OF assms(2,3) Suc.prems(1) pk p(2) Suc.prems(3,4) zs(1)] obtain pdb g ns where
    n: "\<forall>s\<in>set pdb. pat_ok s \<and> distinct (view s)" "minSupport \<le> supp u pdb" "view g = take (pfxLen + 2) u"
      "?recurse pdb = Some (Inr ns)" "set (g # ns) \<subseteq> set zs" by (elim exE conjE)
  show ?case
  proof (cases "length u = pfxLen + 2")
    case True
    then show ?thesis using n(3,5) zs(2) by (intro bexI [of _ g]) auto
  next
    case False
    then show ?thesis using Suc.IH [OF n(1,4) _ n(2)] Suc.prems(3) n(5) zs(2) by fastforce
  qed
qed simp

text \<open>
  (C33) If no track of the batch visits a landmark twice, nothing is missed: every sequence of at least two
  landmarks that is a contiguous part of at least two tracks is a part of a published trajectory.
\<close>

theorem frequent_trajectories_published:
  assumes "permutes_entries ord1" and "permutes_entries ord2" and "\<forall>t\<in>set tracks. distinct t"
    and "2 \<le> length u" and "2 \<le> length (filter (\<lambda>t. sublist u (map sint t)) tracks)"
  shows "\<exists>res. findFrequentTrajectories ord1 ord2 (map (\<lambda>t. (userTrackToPattern t, False)) tracks) = Some (Inr res) \<and>
    (\<exists>(p, outdated)\<in>set res. sublist u (view p))"
proof -
  define ds where "ds = map userTrackToPattern tracks"
  have b: "map fst (map (\<lambda>t. (userTrackToPattern t, False)) tracks) = ds" by (simp add: ds_def comp_def)
  have ok: "\<forall>s\<in>set ds. pat_ok s \<and> distinct (view s)"
    using assms(3) by (auto simp: ds_def userTrackToPattern_def distinct_map inj_on_def signed_word_eqI)
  then obtain ms where ms: "mineFreqPatterns ord1 ord2 2 ds = Some (Inr ms)" "\<forall>r\<in>set ms. mined 2 ds 0 r"
    using mineFreqPatterns_ok [OF assms(1,2)] by blast
  then have okm: "\<forall>r\<in>set ms. pat_ok r" by (simp add: mined_def)
  obtain rs where rs: "suppressSubPatterns ms = Inr rs" "\<forall>d\<in>set ms. \<exists>r\<in>set rs. sublist (view d) (view r)"
    by (rule suppressed_patterns [OF okm])
  have "2 \<le> supp u ds" using assms(5) supp_tracks [of u tracks] by (simp add: ds_def)
  then obtain r where "r \<in> set ms" "view r = u"
    using mine_complete [OF assms(1,2) _ ok ms(1) [unfolded mineFreqPatterns_def], of u] assms(4) by auto
  then obtain q where q: "q \<in> set rs" "sublist u (view q)" using rs(2) by blast
  have "findFrequentTrajectories ord1 ord2 (map (\<lambda>t. (userTrackToPattern t, False)) tracks) = Some (Inr (map (\<lambda>p. (p, False)) rs))"
    unfolding findFrequentTrajectories_def b ms(1) using rs(1) by simp
  then show ?thesis using q by (intro exI [of _ "map (\<lambda>p. (p, False)) rs"]) force
qed

theorem frequent_trajectories_published_witness:
  "permutes_entries (id :: (string \<times> Pattern) list \<Rightarrow> _) \<and> permutes_entries (id :: (int \<times> nat) list \<Rightarrow> _) \<and>
   (\<exists>res. findFrequentTrajectories id id (map (\<lambda>t. (userTrackToPattern t, False)) [[1, 2, 3], [5, 1, 2]]) = Some (Inr res) \<and>
     (\<exists>(p, outdated)\<in>set res. sublist [1, 2] (view p)))"
proof -
  have "sublist [1, 2] (map sint [1, 2, 3 :: 32 word])" "sublist [1, 2] (map sint [5, 1, 2 :: 32 word])" by (simp_all add: sublist_Cons_right)
  then have "2 \<le> length (filter (\<lambda>t. sublist [1, 2] (map sint t)) [[1, 2, 3 :: 32 word], [5, 1, 2]])"
    by (simp del: list.map)
  then have "\<exists>res. findFrequentTrajectories id id (map (\<lambda>t. (userTrackToPattern t, False)) [[1, 2, 3], [5, 1, 2]]) = Some (Inr res) \<and>
     (\<exists>(p, outdated)\<in>set res. sublist [1, 2] (view p))"
    by (intro frequent_trajectories_published permutes_entries_id) simp_all
  then show ?thesis by (intro conjI permutes_entries_id)
qed

text \<open>A track that comes back to a landmark hides what follows the second visit.\<close>

lemma repeated_landmark_hides_trajectory:
  "findFrequentTrajectories id id (map (\<lambda>t. (userTrackToPattern t, False)) [[1, 2, 1, 3], [1, 3]]) = Some (Inr [])"
  "sublist [1, 3] (map sint [1, 2, 1, 3 :: 32 word])" "sublist [1, 3] (map sint [1, 3 :: 32 word])"
proof -
  show "findFrequentTrajectories id id (map (\<lambda>t. (userTrackToPattern t, False)) [[1, 2, 1, 3], [1, 3]]) = Some (Inr [])"
    by code_simp
qed (simp_all add: sublist_Cons_right)

lemma hasPrefix_ok: "pat_ok p \<Longrightarrow> pat_ok s \<Longrightarrow> hasPrefix p s = Inr (strict_prefix (view s) (view p))"
proof -
  assume ok: "pat_ok p" "pat_ok s"
  have "plen s < plen p \<and> take (plen s) (view p) = view s \<longleftrightarrow> strict_prefix (view s) (view p)"
    using length_view [OF ok(1)] length_view [OF ok(2)]
    by (metis append_eq_conv_conj linorder_not_less prefix_def prefix_length_less strict_prefix_def take_all take_is_prefix order_refl)
  then show ?thesis using isEqualN_ok [OF ok, of "plen s"] length_view [OF ok(2)] by (auto simp: hasPrefix_def)
qed

end
