(* ===== verification/Topology_Run.thy ===== *)
theory Topology_Run
  imports Pf_Prelude "HOL-Library.Multiset"
begin

text \<open>
  Running a topology (\<open>dsl/Topology.cpp\<close>) and the registry of tables and streams
  (\<open>dsl/PFabricContext.cpp\<close>, \<open>dsl/PFabricContext.hpp\<close>, \<open>table/TableInfo.cpp\<close>). The start functions of the sources are a parameter: the outcome
  of a call, an exception or none, may depend on the calls before it, and a second parameter says which
  functions return at all. The calls of a synchronous start, of a timer and of the threads of an asynchronous
  start begin and end in steps of their own, so they interleave; a call of the program that waits
  for a thread is possible only when it would return.
\<close>

section \<open>Topologies\<close>

text \<open>A future: its thread runs, it holds a result or an exception, or \<open>get\<close> has taken it.\<close>

datatype fstatus = Running | Ready "op_error option" | Consumed

text \<open>
  \<open>called\<close> and \<open>prepared\<close> record the calls that have ended, \<open>launched\<close> the start functions whose call has
  begun. A timer is the period of a thread of \<open>runEvery\<close>, whether the thread is alive, and what is left of the
  loop of its \<open>start(false)\<close>: the head is the function it is in, the list is empty while the thread sleeps.
  \<open>mainStart\<close> is the same loop for a synchronous start of the program itself.
\<close>

record 'f Topology =
  startupList :: "'f list"
  prepareList :: "'f list"
  asyncStarted :: bool
  startupFutures :: "('f \<times> fstatus) list"
  wakeupTimers :: "(nat \<times> bool \<times> 'f list) list"
  mainStart :: "'f list"
  called :: "'f list"
  prepared :: "'f list"
  launched :: "'f list"

definition Topology_new :: "'f Topology" where
  "Topology_new = \<lparr>startupList = [], prepareList = [], asyncStarted = False, startupFutures = [], wakeupTimers = [],
     mainStart = [], called = [], prepared = [], launched = []\<rparr>"

definition registerStartupFunction :: "'f \<Rightarrow> 'f Topology \<Rightarrow> 'f Topology" where
  "registerStartupFunction func s = s\<lparr>startupList := startupList s @ [func]\<rparr>"

definition registerPrepareFunction :: "'f \<Rightarrow> 'f Topology \<Rightarrow> 'f Topology" where
  "registerPrepareFunction func s = s\<lparr>prepareList := prepareList s @ [func]\<rparr>"

definition startAsync :: "'f Topology \<Rightarrow> 'f Topology" where
  "startAsync s = s\<lparr>startupFutures := startupFutures s @ map (\<lambda>f. (f, Running)) (startupList s), asyncStarted := True,
     launched := launched s @ startupList s\<rparr>"

text \<open>The synchronous loop: the first exception ends it.\<close>

fun call_all :: "('f list \<Rightarrow> 'f \<Rightarrow> op_error option) \<Rightarrow> 'f list \<Rightarrow> 'f list \<Rightarrow> 'f list \<times> op_error option" where
  "call_all outcome [] cs = (cs, None)"
| "call_all outcome (f # fs) cs =
     (case outcome cs f of None \<Rightarrow> call_all outcome fs (cs @ [f]) | Some e \<Rightarrow> (cs @ [f], Some e))"

definition topology_start :: "('f list \<Rightarrow> 'f \<Rightarrow> op_error option) \<Rightarrow> bool \<Rightarrow> 'f Topology \<Rightarrow> 'f Topology \<times> op_error option" where
  "topology_start outcome async s =
     (if async then (startAsync s, None)
      else (case call_all outcome (startupList s) (called s) of
         (cs, e) \<Rightarrow> (s\<lparr>called := cs, launched := launched s @ drop (length (called s)) cs\<rparr>, e)))"

definition topology_prepare :: "('f list \<Rightarrow> 'f \<Rightarrow> op_error option) \<Rightarrow> 'f Topology \<Rightarrow> 'f Topology \<times> op_error option" where
  "topology_prepare outcome s = (case call_all outcome (prepareList s) (prepared s) of (ps, e) \<Rightarrow> (s\<lparr>prepared := ps\<rparr>, e))"

text \<open>
  \<open>wait\<close>: the loop over the futures; \<open>get\<close> on a future whose result was taken throws
  \<open>future_error\<close>. Nothing notifies the condition variable, so the call then sleeps for its duration.
\<close>

datatype 'f waited = Blocks | Throws op_error "('f \<times> fstatus) list" | Returns "('f \<times> fstatus) list"

fun get_all :: "('f \<times> fstatus) list \<Rightarrow> 'f waited" where
  "get_all [] = Returns []"
| "get_all ((f, Running) # fs) = Blocks"
| "get_all ((f, Ready (Some e)) # fs) = Throws e ((f, Consumed) # fs)"
| "get_all ((f, Consumed) # fs) = Throws FutureError ((f, Consumed) # fs)"
| "get_all ((f, Ready None) # fs) =
     (case get_all fs of Blocks \<Rightarrow> Blocks | Throws e fs' \<Rightarrow> Throws e ((f, Consumed) # fs') | Returns fs' \<Rightarrow> Returns ((f, Consumed) # fs'))"

definition topology_wait :: "'f Topology \<Rightarrow> 'f waited" where
  "topology_wait s = (if \<not> asyncStarted s then Returns (startupFutures s) else get_all (startupFutures s))"

text \<open>The destructor of a future of \<open>std::async\<close> waits for its thread, so \<open>clear\<close> may block.\<close>

definition cleanStartupFunctions :: "'f Topology \<Rightarrow> 'f Topology option" where
  "cleanStartupFunctions s = (if Running \<in> snd ` set (startupFutures s) then None else Some (s\<lparr>startupFutures := []\<rparr>))"

text \<open>\<open>runEvery\<close> takes seconds but the thread sleeps that many nanoseconds.\<close>

definition runEvery :: "nat \<Rightarrow> 'f Topology \<Rightarrow> 'f Topology" where
  "runEvery secs s = s\<lparr>wakeupTimers := wakeupTimers s @ [(secs, True, [])]\<rparr>"

text \<open>\<open>stopThreads\<close> interrupts the threads in their sleep and joins them: it returns only when none is inside a start function.\<close>

definition stopThreads :: "'f Topology \<Rightarrow> 'f Topology option" where
  "stopThreads s = (if \<forall>(p, a, cs) \<in> set (wakeupTimers s). cs = []
     then Some (s\<lparr>wakeupTimers := map (\<lambda>(p, a, cs). (p, False, cs)) (wakeupTimers s)\<rparr>) else None)"

text \<open>The thread of future \<open>i\<close> ends.\<close>

definition finish :: "('f list \<Rightarrow> 'f \<Rightarrow> op_error option) \<Rightarrow> nat \<Rightarrow> 'f Topology \<Rightarrow> 'f Topology" where
  "finish outcome i s = (case startupFutures s ! i of
     (f, _) \<Rightarrow> s\<lparr>startupFutures := (startupFutures s)[i := (f, Ready (outcome (called s) f))], called := called s @ [f]\<rparr>)"

text \<open>
  The loop of \<open>start(false)\<close> in pieces, for the program and for a timer thread: it begins with the call of the first
  function; when a call returns the next one begins. The list is taken at the begin (the source iterates over the member itself,
  so a registration during the loop is undefined there).
\<close>

definition start_begin :: "'f Topology \<Rightarrow> 'f Topology" where
  "start_begin s = s\<lparr>mainStart := startupList s, launched := launched s @ take 1 (startupList s)\<rparr>"

definition start_call :: "('f list \<Rightarrow> 'f \<Rightarrow> op_error option) \<Rightarrow> 'f Topology \<Rightarrow> 'f Topology" where
  "start_call outcome s = (case mainStart s of [] \<Rightarrow> s | f # fs \<Rightarrow>
     (case outcome (called s) f of
        None \<Rightarrow> s\<lparr>mainStart := fs, called := called s @ [f], launched := launched s @ take 1 fs\<rparr>
      | Some e \<Rightarrow> s\<lparr>mainStart := [], called := called s @ [f]\<rparr>))"

definition timer_begin :: "nat \<Rightarrow> 'f Topology \<Rightarrow> 'f Topology" where
  "timer_begin j s = (case wakeupTimers s ! j of (p, a, cs) \<Rightarrow>
     s\<lparr>wakeupTimers := (wakeupTimers s)[j := (p, a, startupList s)], launched := launched s @ take 1 (startupList s)\<rparr>)"

definition timer_call :: "nat \<Rightarrow> 'f Topology \<Rightarrow> 'f Topology" where
  "timer_call j s = (case wakeupTimers s ! j of (p, a, cs) \<Rightarrow>
     s\<lparr>wakeupTimers := (wakeupTimers s)[j := (p, a, tl cs)], called := called s @ take 1 cs, launched := launched s @ take 1 (tl cs)\<rparr>)"

section \<open>Steps\<close>

inductive finishes :: "('f list \<Rightarrow> 'f \<Rightarrow> op_error option) \<Rightarrow> ('f \<Rightarrow> bool) \<Rightarrow> 'f Topology \<Rightarrow> 'f Topology \<Rightarrow> bool" for outcome ends where
  finishes_thread: "i < length (startupFutures s) \<Longrightarrow> snd (startupFutures s ! i) = Running \<Longrightarrow> ends (fst (startupFutures s ! i)) \<Longrightarrow>
     finishes outcome ends s (finish outcome i s)"

text \<open>
  What happens without the program: the threads of futures end, timer threads wake up and go through the start functions. An exception
  in a timer thread would end the process.
\<close>

inductive bg_step :: "('f list \<Rightarrow> 'f \<Rightarrow> op_error option) \<Rightarrow> ('f \<Rightarrow> bool) \<Rightarrow> 'f Topology \<Rightarrow> 'f Topology \<Rightarrow> bool" for outcome ends where
  bg_thread: "finishes outcome ends s s' \<Longrightarrow> bg_step outcome ends s s'"
| bg_timer_begin: "j < length (wakeupTimers s) \<Longrightarrow> wakeupTimers s ! j = (p, True, []) \<Longrightarrow> bg_step outcome ends s (timer_begin j s)"
| bg_timer_call: "j < length (wakeupTimers s) \<Longrightarrow> wakeupTimers s ! j = (p, a, f # fs) \<Longrightarrow> ends f \<Longrightarrow> outcome (called s) f = None \<Longrightarrow>
     bg_step outcome ends s (timer_call j s)"

text \<open>The program calls a method only when it is not inside a synchronous start.\<close>

inductive topo_step :: "('f list \<Rightarrow> 'f \<Rightarrow> op_error option) \<Rightarrow> ('f \<Rightarrow> bool) \<Rightarrow> 'f Topology \<Rightarrow> 'f Topology \<Rightarrow> bool" for outcome ends where
  ts_register: "mainStart s = [] \<Longrightarrow> topo_step outcome ends s (registerStartupFunction f s)"
| ts_register_prepare: "mainStart s = [] \<Longrightarrow> topo_step outcome ends s (registerPrepareFunction f s)"
| ts_start_async: "mainStart s = [] \<Longrightarrow> topo_step outcome ends s (startAsync s)"
| ts_start_sync: "mainStart s = [] \<Longrightarrow> topo_step outcome ends s (start_begin s)"
| ts_call: "mainStart s = f # fs \<Longrightarrow> ends f \<Longrightarrow> topo_step outcome ends s (start_call outcome s)"
| ts_prepare: "mainStart s = [] \<Longrightarrow> topo_step outcome ends s (fst (topology_prepare outcome s))"
| ts_wait: "mainStart s = [] \<Longrightarrow> topology_wait s = Returns fs \<Longrightarrow> topo_step outcome ends s (s\<lparr>startupFutures := fs\<rparr>)"
| ts_wait_throws: "mainStart s = [] \<Longrightarrow> topology_wait s = Throws e fs \<Longrightarrow> topo_step outcome ends s (s\<lparr>startupFutures := fs\<rparr>)"
| ts_clean: "mainStart s = [] \<Longrightarrow> cleanStartupFunctions s = Some s' \<Longrightarrow> topo_step outcome ends s s'"
| ts_runEvery: "mainStart s = [] \<Longrightarrow> topo_step outcome ends s (runEvery secs s)"
| ts_stop: "mainStart s = [] \<Longrightarrow> stopThreads s = Some s' \<Longrightarrow> topo_step outcome ends s s'"
| ts_background: "bg_step outcome ends s s' \<Longrightarrow> topo_step outcome ends s s'"

inductive_cases finishesE: "finishes outcome ends s s'"
inductive_cases bg_stepE: "bg_step outcome ends s s'"

definition topo_reach :: "('f list \<Rightarrow> 'f \<Rightarrow> op_error option) \<Rightarrow> ('f \<Rightarrow> bool) \<Rightarrow> 'f Topology \<Rightarrow> bool" where
  "topo_reach outcome ends s \<longleftrightarrow> (topo_step outcome ends)\<^sup>*\<^sup>* Topology_new s"

section \<open>What wait promises\<close>

definition running :: "('f \<times> fstatus) list \<Rightarrow> 'f list" where
  "running fs = map fst (filter (\<lambda>x. snd x = Running) fs)"

text \<open>The start functions that timer threads are inside of.\<close>

definition timer_calls :: "'f Topology \<Rightarrow> 'f list" where
  "timer_calls s = concat (map (\<lambda>(p, a, cs). take 1 cs) (wakeupTimers s))"

text \<open>Every call that has begun has ended, or a future, a timer thread or the program is inside it.\<close>

definition topo_inv :: "'f Topology \<Rightarrow> bool" where
  "topo_inv s \<longleftrightarrow> mset (launched s) = mset (called s) + mset (running (startupFutures s)) + mset (take 1 (mainStart s)) + mset (timer_calls s) \<and>
     (asyncStarted s \<or> startupFutures s = [])"

lemma running_simps [simp]: "running [] = []" "running ((f, st) # fs) = (if st = Running then f # running fs else running fs)"
  by (simp_all add: running_def)

lemma running_append [simp]: "running (xs @ ys) = running xs @ running ys"
  by (simp add: running_def)

lemma running_launch [simp]: "running (map (\<lambda>f. (f, Running)) fs) = fs"
  by (simp add: running_def comp_def)

lemma running_empty: "running fs = [] \<longleftrightarrow> Running \<notin> snd ` set fs"
  by (force simp: running_def filter_empty_conv)

lemma get_all_Returns:
  "get_all fs = Returns fs' \<Longrightarrow> running fs = [] \<and> running fs' = [] \<and> map fst fs' = map fst fs \<and> (\<forall>x\<in>set fs'. snd x = Consumed)"
  by (induction fs arbitrary: fs' rule: get_all.induct) (auto split: waited.splits)

lemma get_all_Throws: "get_all fs = Throws e fs' \<Longrightarrow> running fs' = running fs"
  by (induction fs arbitrary: fs' rule: get_all.induct) (auto split: waited.splits)

lemma get_all_Blocks: "get_all fs = Blocks \<Longrightarrow> running fs \<noteq> []"
  by (induction fs rule: get_all.induct) (auto split: waited.splits)

lemma running_finish:
  assumes "i < length fs" "fs ! i = (f, Running)"
  shows "mset (running fs) = add_mset f (mset (running (fs[i := (f, Ready r)])))"
proof -
  obtain xs ys where "fs = xs @ (f, Running) # ys" "length xs = i"
    using id_take_nth_drop [OF assms(1)] assms by (metis length_take min.absorb2 less_imp_le_nat)
  then show ?thesis by auto
qed

lemma concat_map_update:
  "i < length xs \<Longrightarrow> mset (concat (map g (xs[i := x]))) + mset (g (xs ! i)) = mset (concat (map g xs)) + mset (g x)"
proof -
  assume i: "i < length xs"
  have "xs = take i xs @ xs ! i # drop (Suc i) xs" using i by (rule id_take_nth_drop)
  then have "concat (map g xs) = concat (map g (take i xs)) @ g (xs ! i) @ concat (map g (drop (Suc i) xs))"
    by (metis concat_append concat.simps(2) list.simps(9) map_append)
  moreover have "concat (map g (xs[i := x])) = concat (map g (take i xs)) @ g x @ concat (map g (drop (Suc i) xs))"
    using i by (simp add: upd_conv_take_nth_drop)
  ultimately show ?thesis by simp
qed

lemma finishes_inv:
  assumes "finishes outcome ends s s'" "topo_inv s"
  shows "topo_inv s'" and "mainStart s' = mainStart s" and "length (running (startupFutures s)) = Suc (length (running (startupFutures s')))"
    and "set (running (startupFutures s')) \<subseteq> set (running (startupFutures s))"
    and "\<exists>f \<in> set (running (startupFutures s)). ends f"
proof -
  obtain i f where i: "i < length (startupFutures s)" "startupFutures s ! i = (f, Running)" "s' = finish outcome i s" "ends f"
    using assms(1) by (auto elim!: finishesE) (metis prod.collapse fst_conv)
  note r = running_finish [OF i(1,2), of "outcome (called s) f"]
  have q: "add_mset f (mset (running (startupFutures s'))) = mset (running (startupFutures s))" using r i(2,3) by (simp add: finish_def)
  show "topo_inv s'" using assms(2) i r by (auto simp: topo_inv_def finish_def timer_calls_def)
  show "mainStart s' = mainStart s" using i by (simp add: finish_def)
  show "length (running (startupFutures s)) = Suc (length (running (startupFutures s')))" using q by (metis size_add_mset size_mset)
  show "set (running (startupFutures s')) \<subseteq> set (running (startupFutures s))" using q by (metis set_mset_add_mset_insert set_mset_mset subset_insertI)
  show "\<exists>f \<in> set (running (startupFutures s)). ends f" using i(4) q by (metis insertI1 set_mset_add_mset_insert set_mset_mset)
qed

lemma timer_update_inv:
  assumes inv: "topo_inv s" and j: "j < length (wakeupTimers s)" "wakeupTimers s ! j = (p, a, cs)"
    and s': "s' = s\<lparr>wakeupTimers := (wakeupTimers s)[j := (p, a, cs')], called := called s @ fs, launched := launched s @ take 1 cs'\<rparr>"
    and fs: "fs = take 1 cs"
  shows "topo_inv s'"
proof -
  have "mset (timer_calls s') + mset (take 1 cs) = mset (timer_calls s) + mset (take 1 cs')"
    using concat_map_update [OF j(1), of "\<lambda>(p, a, cs). take 1 cs" "(p, a, cs')"] j(2) by (simp add: timer_calls_def s')
  then show ?thesis using inv fs by (simp add: topo_inv_def s' add_ac)
qed

lemma bg_step_inv:
  assumes "bg_step outcome ends s s'" "topo_inv s"
  shows "topo_inv s'" "mainStart s' = mainStart s" "set (running (startupFutures s')) \<subseteq> set (running (startupFutures s))"
proof -
  have "topo_inv s' \<and> mainStart s' = mainStart s \<and> set (running (startupFutures s')) \<subseteq> set (running (startupFutures s))"
    using assms(1)
  proof cases
    case bg_thread
    show ?thesis using finishes_inv(1) [OF bg_thread assms(2)] finishes_inv(2) [OF bg_thread assms(2)] finishes_inv(4) [OF bg_thread assms(2)]
      by (intro conjI)
  next
    case (bg_timer_begin j p)
    then show ?thesis using timer_update_inv [OF assms(2) bg_timer_begin(2,3), of s' "startupList s" "[]"] by (simp add: timer_begin_def)
  next
    case (bg_timer_call j p a f fs)
    have e: "s' = s\<lparr>wakeupTimers := (wakeupTimers s)[j := (p, a, fs)], called := called s @ [f], launched := launched s @ take 1 fs\<rparr>"
      unfolding bg_timer_call(1) using bg_timer_call(3) by (simp add: timer_call_def)
    have "topo_inv s'" by (rule timer_update_inv [OF assms(2) bg_timer_call(2,3) e]) simp
    then show ?thesis by (simp add: e)
  qed
  then show "topo_inv s'" "mainStart s' = mainStart s" "set (running (startupFutures s')) \<subseteq> set (running (startupFutures s))" by simp_all
qed

lemma bg_steps_inv:
  assumes "(bg_step outcome ends)\<^sup>*\<^sup>* s s'" "topo_inv s"
  shows "topo_inv s' \<and> mainStart s' = mainStart s \<and> set (running (startupFutures s')) \<subseteq> set (running (startupFutures s))"
  using assms(1)
proof (induction rule: rtranclp_induct)
  case (step t t')
  then show ?case using bg_step_inv [OF step(2)] by auto
qed (simp add: assms)

lemma wait_inv:
  assumes "topo_inv s"
  shows "topology_wait s = Returns fs \<Longrightarrow> topo_inv (s\<lparr>startupFutures := fs\<rparr>) \<and> running (startupFutures s) = [] \<and> running fs = []"
    and "topology_wait s = Throws e fs \<Longrightarrow> topo_inv (s\<lparr>startupFutures := fs\<rparr>)"
  using assms get_all_Returns [of "startupFutures s" fs] get_all_Throws [of "startupFutures s" e fs]
  by (auto simp: topology_wait_def topo_inv_def timer_calls_def split: if_splits)

lemma start_call_inv: "topo_inv s \<Longrightarrow> topo_inv (start_call outcome s)"
  by (cases "mainStart s") (auto simp: start_call_def topo_inv_def timer_calls_def split: option.split)

lemma topo_step_inv: "topo_step outcome ends s s' \<Longrightarrow> topo_inv s \<Longrightarrow> topo_inv s'"
proof (induction rule: topo_step.induct)
  case (ts_background s s')
  then show ?case using bg_step_inv(1) by blast
next
  case (ts_clean s s')
  then show ?case by (auto simp: cleanStartupFunctions_def topo_inv_def timer_calls_def running_empty [THEN iffD2] split: if_splits)
next
  case (ts_prepare s)
  then show ?case by (simp add: topology_prepare_def topo_inv_def timer_calls_def split: prod.split)
next
  case (ts_wait s fs)
  then show ?case using wait_inv(1) by blast
next
  case (ts_wait_throws s e fs)
  then show ?case using wait_inv(2) by blast
next
  case (ts_call s f fs)
  then show ?case using start_call_inv by blast
next
  case (ts_stop s s')
  have "concat (map (\<lambda>(p, a, cs). take 1 cs) (map (\<lambda>(p, a, cs). (p, False, cs)) ts)) = concat (map (\<lambda>(p, a, cs). take 1 cs) ts)"
    for ts :: "(nat \<times> bool \<times> 'a list) list"
    by (induction ts) auto
  then have "timer_calls (s\<lparr>wakeupTimers := map (\<lambda>(p, a, cs). (p, False, cs)) (wakeupTimers s)\<rparr>) = timer_calls s"
    unfolding timer_calls_def by (simp del: map_map)
  then show ?case using ts_stop by (auto simp: stopThreads_def topo_inv_def split: if_splits)
qed (simp_all add: registerStartupFunction_def registerPrepareFunction_def runEvery_def startAsync_def start_begin_def topo_inv_def timer_calls_def)

lemma topo_reach_inv: "topo_reach outcome ends s \<Longrightarrow> topo_inv s"
  unfolding topo_reach_def
  by (induction rule: rtranclp_induct) (simp add: topo_inv_def Topology_new_def timer_calls_def, blast intro: topo_step_inv)

text \<open>The threads end, one after the other, until only functions that never return run.\<close>

definition threads_rest :: "('f list \<Rightarrow> 'f \<Rightarrow> op_error option) \<Rightarrow> ('f \<Rightarrow> bool) \<Rightarrow> 'f Topology \<Rightarrow> bool" where
  "threads_rest outcome ends s \<longleftrightarrow> \<not> (\<exists>s'. finishes outcome ends s s')"

lemma threads_rest_iff: "threads_rest outcome ends s \<longleftrightarrow> (\<forall>f \<in> set (running (startupFutures s)). \<not> ends f)"
proof
  assume r: "threads_rest outcome ends s"
  show "\<forall>f \<in> set (running (startupFutures s)). \<not> ends f"
  proof (intro ballI notI)
    fix f
    assume "f \<in> set (running (startupFutures s))" and e: "ends f"
    then obtain i where "i < length (startupFutures s)" "startupFutures s ! i = (f, Running)"
      unfolding running_def by (auto simp: in_set_conv_nth)
    then have "finishes outcome ends s (finish outcome i s)" using e by (intro finishes_thread) simp_all
    then show False using r by (auto simp: threads_rest_def)
  qed
next
  assume "\<forall>f \<in> set (running (startupFutures s)). \<not> ends f"
  then have n: "\<not> ends (fst (startupFutures s ! i))" if "i < length (startupFutures s)" "snd (startupFutures s ! i) = Running" for i
    using that nth_mem [OF that(1)] by (cases "startupFutures s ! i") (auto simp: running_def)
  show "threads_rest outcome ends s" unfolding threads_rest_def by (auto elim!: finishesE dest: n)
qed

lemma threads_end:
  assumes "topo_inv s"
  shows "\<exists>s'. (finishes outcome ends)\<^sup>*\<^sup>* s s' \<and> threads_rest outcome ends s'"
  using assms
proof (induction "length (running (startupFutures s))" arbitrary: s rule: less_induct)
  case less
  show ?case
  proof (cases "threads_rest outcome ends s")
    case False
    then obtain t where f: "finishes outcome ends s t" by (auto simp: threads_rest_def)
    have "length (running (startupFutures t)) < length (running (startupFutures s))" "topo_inv t"
      using finishes_inv(1,3) [OF f less.prems] by simp_all
    then obtain s' where "(finishes outcome ends)\<^sup>*\<^sup>* t s'" "threads_rest outcome ends s'" using less.hyps by blast
    then show ?thesis using f by (intro exI [of _ s']) (auto intro: converse_rtranclp_into_rtranclp)
  qed blast
qed

lemma wait_blocks: "topo_inv s \<Longrightarrow> topology_wait s = Blocks \<Longrightarrow> running (startupFutures s) \<noteq> []"
  using get_all_Blocks [of "startupFutures s"] by (auto simp: topology_wait_def split: if_splits)

lemma never_ends_runs:
  assumes "(bg_step outcome ends)\<^sup>*\<^sup>* s s1" "topo_inv s" "f \<in> set (running (startupFutures s))" "\<not> ends f"
  shows "f \<in> set (running (startupFutures s1))"
  using assms(1)
proof (induction rule: rtranclp_induct)
  case (step t t')
  show ?case using step(2)
  proof cases
    case bg_thread
    then show ?thesis
    proof cases
      case (finishes_thread i)
      obtain g where g: "startupFutures t ! i = (g, Running)" using finishes_thread by (metis prod.collapse)
      have "f \<noteq> g" using finishes_thread assms(4) g by auto
      then show ?thesis using finishes_thread g running_finish [of i "startupFutures t" g "outcome (called t) g"] step.IH
        by (auto simp: finish_def dest!: arg_cong [of _ _ set_mset])
    qed
  qed (use step.IH in \<open>simp_all add: timer_begin_def timer_call_def\<close>)
qed (simp add: assms)

lemma returns_complete:
  "topo_inv s \<Longrightarrow> mainStart s = [] \<Longrightarrow> running (startupFutures s) = [] \<Longrightarrow> mset (launched s) = mset (called s) + mset (timer_calls s)"
  by (simp add: topo_inv_def)

text \<open>
  (C19) \<open>wait\<close> waits for the sources of an asynchronous start. The program registers, starts (synchronously or not), prepares, waits,
  cleans, runs and stops timers in any order, and every call of a start function, in the program, in a future or in a timer thread, interleaves with
  all others. When the program calls \<open>wait\<close> and the call returns, every start function that was begun has ended, except those that timer
  threads are inside of: \<open>wait\<close> does not wait for timers. It returns (or throws the exception of a start function) if the functions of the running futures return: whatever else
  happens meanwhile, the threads can finish, and in every state where they have finished \<open>wait\<close> does not block. While a start
  function that never returns is running, \<open>wait\<close> does not return.
\<close>

theorem wait_waits_for_sources:
  assumes "topo_reach outcome ends s" and "mainStart s = []"
  shows "(\<forall>fs. topology_wait s = Returns fs \<longrightarrow> mset (launched s) = mset (called s) + mset (timer_calls s)) \<and>
    ((\<forall>f \<in> set (running (startupFutures s)). ends f) \<longrightarrow>
       (\<forall>s1. (bg_step outcome ends)\<^sup>*\<^sup>* s s1 \<longrightarrow>
          (\<exists>s2. (finishes outcome ends)\<^sup>*\<^sup>* s1 s2 \<and> threads_rest outcome ends s2) \<and>
          (threads_rest outcome ends s1 \<longrightarrow> topology_wait s1 \<noteq> Blocks \<and> mset (launched s1) = mset (called s1) + mset (timer_calls s1)))) \<and>
    (\<forall>f \<in> set (running (startupFutures s)). \<not> ends f \<longrightarrow> (\<forall>s1 fs. (bg_step outcome ends)\<^sup>*\<^sup>* s s1 \<longrightarrow> topology_wait s1 \<noteq> Returns fs))"
proof (intro conjI allI impI ballI)
  note inv = topo_reach_inv [OF assms(1)]
  show "mset (launched s) = mset (called s) + mset (timer_calls s)" if w: "topology_wait s = Returns fs" for fs
    using returns_complete [OF inv assms(2)] wait_inv(1) [OF inv w] by blast
  fix s1
  assume b: "(bg_step outcome ends)\<^sup>*\<^sup>* s s1"
  note i1 = bg_steps_inv [OF b inv]
  show "\<exists>s2. (finishes outcome ends)\<^sup>*\<^sup>* s1 s2 \<and> threads_rest outcome ends s2" using i1 by (intro threads_end) simp
  show "topology_wait s1 \<noteq> Blocks" "mset (launched s1) = mset (called s1) + mset (timer_calls s1)"
    if e: "\<forall>f \<in> set (running (startupFutures s)). ends f" and r: "threads_rest outcome ends s1"
  proof -
    have n: "running (startupFutures s1) = []" using e r i1 by (cases "running (startupFutures s1)") (auto simp: threads_rest_iff)
    show "topology_wait s1 \<noteq> Blocks" using n wait_blocks i1 by blast
    show "mset (launched s1) = mset (called s1) + mset (timer_calls s1)" using n i1 assms(2) by (intro returns_complete) simp_all
  qed
next
  fix f s1 fs
  assume f: "f \<in> set (running (startupFutures s))" "\<not> ends f" and b: "(bg_step outcome ends)\<^sup>*\<^sup>* s s1"
  note inv = topo_reach_inv [OF assms(1)]
  have "f \<in> set (running (startupFutures s1))" using b never_ends_runs [OF _ inv] f by blast
  then show "topology_wait s1 \<noteq> Returns fs" using wait_inv(1) [of s1 fs] bg_steps_inv [OF b inv] by auto
qed

theorem wait_waits_for_sources_witness:
  "\<exists>s2. (finishes (\<lambda>_ _. None) (\<lambda>_. True))\<^sup>*\<^sup>* (startAsync (registerStartupFunction ''file'' Topology_new)) s2 \<and> threads_rest (\<lambda>_ _. None) (\<lambda>_. True) s2"
proof -
  let ?o = "\<lambda>_ _. None" and ?e = "\<lambda>_. True" and ?s1 = "registerStartupFunction ''file'' Topology_new"
  have m: "mainStart ?s1 = []" "mainStart Topology_new = []" by (simp_all add: registerStartupFunction_def Topology_new_def)
  have "topo_reach ?o ?e (startAsync ?s1)"
    unfolding topo_reach_def
    using ts_register [OF m(2), of ?o ?e "''file''"] ts_start_async [OF m(1), of ?o ?e] by (meson rtranclp.rtrancl_refl rtranclp.rtrancl_into_rtrancl)
  moreover have "mainStart (startAsync ?s1) = []" using m by (simp add: startAsync_def)
  ultimately show ?thesis using wait_waits_for_sources [of ?o ?e "startAsync ?s1"] by blast
qed

text \<open>A timer that is inside a start function does not keep \<open>wait\<close> from returning, nor from returning at once.\<close>

lemma wait_ignores_timers:
  "topology_wait (s\<lparr>wakeupTimers := ts\<rparr>) = topology_wait s"
  "\<not> asyncStarted s \<Longrightarrow> topology_wait s = Returns (startupFutures s)"
  by (simp_all add: topology_wait_def)

text \<open>The pieces of a synchronous start that nothing interrupts are the whole call.\<close>

fun start_calls :: "('f list \<Rightarrow> 'f \<Rightarrow> op_error option) \<Rightarrow> nat \<Rightarrow> 'f Topology \<Rightarrow> 'f Topology" where
  "start_calls outcome 0 s = s"
| "start_calls outcome (Suc n) s = start_calls outcome n (start_call outcome s)"

lemma start_calls_idle: "mainStart s = [] \<Longrightarrow> start_calls outcome n s = s"
  by (induction n) (simp_all add: start_call_def)

lemma call_all_extends: "\<exists>ds. fst (call_all outcome fs cs) = cs @ ds"
proof (induction fs arbitrary: cs)
  case (Cons f fs)
  show ?case
  proof (cases "outcome cs f")
    case None
    then show ?thesis using Cons.IH [of "cs @ [f]"] by auto
  qed simp
qed simp

lemma start_calls_whole:
  assumes "mainStart s = fs" "launched s = ls @ take 1 fs" "length fs \<le> n"
  shows "start_calls outcome n s = (let cs = fst (call_all outcome fs (called s)) in
     s\<lparr>mainStart := [], called := cs, launched := ls @ drop (length (called s)) cs\<rparr>)"
  using assms
proof (induction fs arbitrary: s ls n)
  case Nil
  then show ?case by (simp add: start_calls_idle)
next
  case (Cons f fs)
  then obtain m where n: "n = Suc m" "length fs \<le> m" by (cases n) auto
  show ?case
  proof (cases "outcome (called s) f")
    case None
    let ?s = "start_call outcome s"
    have s: "?s = s\<lparr>mainStart := fs, called := called s @ [f], launched := (ls @ [f]) @ take 1 fs\<rparr>"
      using Cons.prems None by (simp add: start_call_def)
    obtain ds where ds: "fst (call_all outcome fs (called s @ [f])) = called s @ [f] @ ds"
      using call_all_extends [of outcome fs "called s @ [f]"] by auto
    have "start_calls outcome m ?s = (let cs = fst (call_all outcome fs (called ?s)) in
        ?s\<lparr>mainStart := [], called := cs, launched := (ls @ [f]) @ drop (length (called ?s)) cs\<rparr>)"
      by (rule Cons.IH [OF _ _ n(2)]) (simp_all add: s)
    then show ?thesis using None n(1) ds by (simp add: s Let_def)
  next
    case (Some e)
    then show ?thesis using Cons.prems n(1) by (simp add: start_call_def start_calls_idle)
  qed
qed

lemma sync_start_whole:
  "mainStart s = [] \<Longrightarrow> start_calls outcome (length (startupList s)) (start_begin s) = fst (topology_start outcome False s)"
  using start_calls_whole [of "start_begin s" "startupList s" "launched s" "length (startupList s)" outcome]
  by (simp add: start_begin_def topology_start_def Let_def split: prod.split)

text \<open>A second \<open>wait\<close> without \<open>cleanStartupFunctions\<close> between them throws, also after another asynchronous start.\<close>

lemma second_wait_throws:
  assumes "asyncStarted s" "startupFutures s \<noteq> []" "topology_wait s = Returns fs"
  shows "\<exists>fs'. topology_wait (s\<lparr>startupFutures := fs\<rparr>) = Throws FutureError fs'"
    and "\<exists>fs'. topology_wait (startAsync (s\<lparr>startupFutures := fs\<rparr>)) = Throws FutureError fs'"
proof -
  have "\<forall>x\<in>set fs. snd x = Consumed" "map fst fs = map fst (startupFutures s)"
    using assms get_all_Returns [of "startupFutures s" fs] by (auto simp: topology_wait_def)
  then obtain f fs2 where "fs = (f, Consumed) # fs2" using assms(2) by (cases fs) auto
  then show "\<exists>fs'. topology_wait (s\<lparr>startupFutures := fs\<rparr>) = Throws FutureError fs'"
    "\<exists>fs'. topology_wait (startAsync (s\<lparr>startupFutures := fs\<rparr>)) = Throws FutureError fs'"
    using assms(1) by (simp_all add: topology_wait_def startAsync_def)
qed

text \<open>An asynchronous start returns before any start function has ended.\<close>

lemma async_start_returns_early:
  "called (fst (topology_start outcome True s)) = called s"
  by (simp add: topology_start_def startAsync_def)

section \<open>Schemas\<close>

datatype ColumnType = Void_Type | Int_Type | Double_Type | String_Type | UInt_Type

record ColumnInfo =
  mColName :: string
  mColType :: ColumnType

record TableInfo =
  mName :: string
  mColumns :: "ColumnInfo list"
  mKeyType :: ColumnType

definition TableInfo_new :: "string \<Rightarrow> ColumnInfo list \<Rightarrow> ColumnType \<Rightarrow> TableInfo" where
  "TableInfo_new name columns keyType = \<lparr>mName = name, mColumns = columns, mKeyType = keyType\<rparr>"

fun type_letter :: "ColumnType \<Rightarrow> char" where
  "type_letter Void_Type = CHR ''V''"
| "type_letter Int_Type = CHR ''i''"
| "type_letter Double_Type = CHR ''d''"
| "type_letter String_Type = CHR ''S''"
| "type_letter UInt_Type = CHR ''u''"

definition typeSignature :: "TableInfo \<Rightarrow> string" where
  "typeSignature ti = CHR ''['' # map (\<lambda>col. type_letter (mColType col)) (mColumns ti) @ '']''"

fun print_type :: "ColumnType \<Rightarrow> string" where
  "print_type Void_Type = []"
| "print_type Int_Type = ''int''"
| "print_type Double_Type = ''double''"
| "print_type String_Type = ''std::string''"
| "print_type UInt_Type = ''unsigned int''"

fun print_columns :: "bool \<Rightarrow> ColumnInfo list \<Rightarrow> string" where
  "print_columns first [] = []"
| "print_columns first (col # cols) = (if first then [] else '', '') @ print_type (mColType col) @ print_columns False cols"

definition generateTypeDef :: "TableInfo \<Rightarrow> string" where
  "generateTypeDef ti = ''TuplePtr<'' @ print_columns True (mColumns ti) @ ''>''"

text \<open>The loop from column \<open>i\<close> on; the position is cast to \<open>int\<close>.\<close>

fun find_column :: "string \<Rightarrow> ColumnInfo list \<Rightarrow> int \<Rightarrow> int" where
  "find_column colName [] i = - 1"
| "find_column colName (col # cols) i = (if mColName col = colName then i else find_column colName cols (i + 1))"

definition findColumnByName :: "TableInfo \<Rightarrow> string \<Rightarrow> int" where
  "findColumnByName ti colName = find_column colName (mColumns ti) 0"

text \<open>\<open>constructSchema\<close>: \<open>GetType\<close> knows three types, the columns have no names.\<close>

datatype attr_type = Attr_int | Attr_double | Attr_string | Attr_other

fun GetType_apply :: "attr_type \<Rightarrow> ColumnType" where
  "GetType_apply Attr_int = Int_Type"
| "GetType_apply Attr_double = Double_Type"
| "GetType_apply Attr_string = String_Type"
| "GetType_apply Attr_other = Void_Type"

definition constructSchema :: "string \<Rightarrow> attr_type list \<Rightarrow> TableInfo" where
  "constructSchema tableName ts = \<lparr>mName = tableName, mColumns = map (\<lambda>t. \<lparr>mColName = [], mColType = GetType_apply t\<rparr>) ts, mKeyType = Void_Type\<rparr>"

section \<open>Context\<close>

text \<open>
  A table of the registry: the class and types it was made with and its schema, which is
  an empty pointer when the table was created by name only.
\<close>

datatype TableClass = HashTable | TransactionalTable

record TableObject =
  tclass :: TableClass
  recType :: string
  keyType :: string
  tableInfo :: "TableInfo option"

record PFabricContext =
  mTableSet :: "(string \<times> TableObject) list"
  mStreamSet :: "(string \<times> nat) list"
  nextOp :: nat

definition PFabricContext_new :: PFabricContext where
  "PFabricContext_new = \<lparr>mTableSet = [], mStreamSet = [], nextOp = 0\<rparr>"

definition register_table :: "string \<Rightarrow> TableObject \<Rightarrow> PFabricContext \<Rightarrow> (PFabricContext \<times> TableObject) res" where
  "register_table tblName tbl ctx =
     (case map_of (mTableSet ctx) tblName of
        Some _ \<Rightarrow> Inl (TableException ''table already exists'')
      | None \<Rightarrow> Inr (ctx\<lparr>mTableSet := (tblName, tbl) # mTableSet ctx\<rparr>, tbl))"

definition createTable_name :: "string \<Rightarrow> string \<Rightarrow> string \<Rightarrow> PFabricContext \<Rightarrow> (PFabricContext \<times> TableObject) res" where
  "createTable_name rt kt tblName ctx = register_table tblName \<lparr>tclass = HashTable, recType = rt, keyType = kt, tableInfo = None\<rparr> ctx"

definition createTable_info :: "string \<Rightarrow> string \<Rightarrow> TableInfo \<Rightarrow> PFabricContext \<Rightarrow> (PFabricContext \<times> TableObject) res" where
  "createTable_info rt kt tblInfo ctx = register_table (mName tblInfo) \<lparr>tclass = HashTable, recType = rt, keyType = kt, tableInfo = Some tblInfo\<rparr> ctx"

definition createTxTable :: "string \<Rightarrow> string \<Rightarrow> TableInfo \<Rightarrow> PFabricContext \<Rightarrow> (PFabricContext \<times> TableObject) res" where
  "createTxTable rt kt tblInfo ctx = register_table (mName tblInfo) \<lparr>tclass = TransactionalTable, recType = rt, keyType = kt, tableInfo = Some tblInfo\<rparr> ctx"

text \<open>\<open>getTable\<close> casts the pointer without looking at the types.\<close>

definition getTable :: "string \<Rightarrow> string \<Rightarrow> string \<Rightarrow> PFabricContext \<Rightarrow> TableObject option" where
  "getTable rt kt tblName ctx = map_of (mTableSet ctx) tblName"

definition getTableInfo :: "string \<Rightarrow> PFabricContext \<Rightarrow> TableInfo option res" where
  "getTableInfo tblName ctx =
     (case map_of (mTableSet ctx) tblName of
        Some tbl \<Rightarrow> Inr (tableInfo tbl)
      | None \<Rightarrow> Inl (TableException (''table not found: '' @ CHR 0x27 # tblName @ CHR 0x27 # '' : '' @ to_string (length (mTableSet ctx)) @ [CHR 0x0A])))"

definition createStream :: "string \<Rightarrow> PFabricContext \<Rightarrow> PFabricContext \<times> nat" where
  "createStream streamName ctx =
     (ctx\<lparr>mStreamSet := (streamName, nextOp ctx) # filter (\<lambda>(k, _). k \<noteq> streamName) (mStreamSet ctx), nextOp := Suc (nextOp ctx)\<rparr>, nextOp ctx)"

lemma find_column_range: "find_column n cols i = - 1 \<or> (\<exists>k<length cols. find_column n cols i = i + int k \<and>
    mColName (cols ! k) = n \<and> (\<forall>j<k. mColName (cols ! j) \<noteq> n))"
proof (induction cols arbitrary: i)
  case (Cons c cols)
  show ?case
  proof (cases "mColName c = n")
    case True
    then show ?thesis by (intro disjI2 exI [of _ 0]) simp
  next
    case False
    show ?thesis using Cons.IH [of "i + 1"]
    proof (elim disjE exE conjE)
      fix k
      assume "k < length cols" "find_column n cols (i + 1) = i + 1 + int k" "mColName (cols ! k) = n" "\<forall>j<k. mColName (cols ! j) \<noteq> n"
      then show ?thesis using False by (intro disjI2 exI [of _ "Suc k"]) (auto simp: less_Suc_eq_0_disj)
    qed (use False in simp)
  qed
qed simp

lemma find_column_none: "0 \<le> i \<Longrightarrow> find_column n cols i = - 1 \<longleftrightarrow> n \<notin> mColName ` set cols"
  by (induction cols arbitrary: i) (auto simp: image_iff)

text \<open>\<open>findColumnByName\<close> gives the first column of that name, or \<open>-1\<close> if there is none.\<close>

lemma findColumnByName_first:
  "findColumnByName ti n = int k \<longleftrightarrow> k < length (mColumns ti) \<and> mColName (mColumns ti ! k) = n \<and> (\<forall>j<k. mColName (mColumns ti ! j) \<noteq> n)" (is "?l = ?r")
proof
  show "?l \<Longrightarrow> ?r" using find_column_range [of n "mColumns ti" 0] by (auto simp: findColumnByName_def)
next
  assume r: ?r
  then have "n \<in> mColName ` set (mColumns ti)" using nth_mem [of k "mColumns ti"] by blast
  then obtain k' where k': "k' < length (mColumns ti)" "findColumnByName ti n = int k'" "mColName (mColumns ti ! k') = n"
      "\<forall>j<k'. mColName (mColumns ti ! j) \<noteq> n"
    using find_column_range [of n "mColumns ti" 0] find_column_none [of 0 n "mColumns ti"] by (auto simp: findColumnByName_def)
  have "k' = k" using r k' by (metis linorder_neqE_nat)
  then show ?l using k'(2) by simp
qed

lemma type_letter_inj: "type_letter a = type_letter b \<Longrightarrow> a = b"
  by (cases a; cases b) simp_all

text \<open>Two schemas with the same signature have the same column types.\<close>

lemma typeSignature_determines_types:
  "typeSignature a = typeSignature b \<Longrightarrow> map mColType (mColumns a) = map mColType (mColumns b)"
proof -
  assume "typeSignature a = typeSignature b"
  then have "map type_letter (map mColType (mColumns a)) = map type_letter (map mColType (mColumns b))"
    by (simp add: typeSignature_def comp_def)
  then show ?thesis by (rule map_injective) (auto intro: injI dest: type_letter_inj)
qed

text \<open>A registered table is found under its name with its schema, no other name changes, and the name cannot be used again.\<close>

lemma registered_table_found:
  assumes "createTable_info rt kt ti ctx = Inr (ctx', tbl)"
  shows "getTable rt kt (mName ti) ctx' = Some tbl" "getTableInfo (mName ti) ctx' = Inr (Some ti)"
    "n \<noteq> mName ti \<Longrightarrow> getTable rt' kt' n ctx' = getTable rt' kt' n ctx"
    "createTable_name rt' kt' (mName ti) ctx' = Inl (TableException ''table already exists'')"
  using assms by (auto simp: createTable_info_def createTable_name_def register_table_def getTable_def getTableInfo_def split: option.splits)

text \<open>A table that was created by its name has no schema object, and \<open>getTable\<close> gives it out for every type.\<close>

lemma table_by_name:
  assumes "createTable_name rt kt n ctx = Inr (ctx', tbl)"
  shows "getTableInfo n ctx' = Inr None" "getTable rt' kt' n ctx' = Some tbl" "recType tbl = rt"
  using assms by (auto simp: createTable_name_def register_table_def getTable_def getTableInfo_def split: option.splits)

text \<open>A second stream of the same name replaces the first one.\<close>

lemma stream_replaced:
  "map_of (mStreamSet (fst (createStream n (fst (createStream n ctx))))) n = Some (Suc (nextOp ctx))"
  by (simp add: createStream_def)

end
