(* ===== verification/Query_Compiler.thy ===== *)
theory Query_Compiler
  imports Topology_Run Text_IO "HOL-Library.List_Lexorder" "HOL-Library.Char_ord"
begin

text \<open>
  The query compiler (\<open>qcomp/Plan.cpp\<close>, \<open>qcomp/QueryCompiler.cpp\<close>, \<open>qcomp/TypeManager.cpp\<close>,
  \<open>qcomp/PlanCache.cpp\<close>, \<open>qcomp/UniqueNameGenerator.cpp\<close>): from a parsed query to a plan, its check
  against the schemas of the context, the C++ text that is generated for it, and the cache
  of compiled queries. The grammar is written in terms of Boost.Spirit; the parser is a
  parameter that returns a query or fails. The C++ compiler and the loading of the library
  are actions of a log.
\<close>

section \<open>Queries and plans\<close>

text \<open>\<open>sql::Operand\<close>, a recursive variant; an \<open>sql::Expression\<close> is its head and its tail of operations.\<close>

datatype Operand =
    ONil
  | OLiteral int
  | OColumn string int
  | ORightAssoc Operand
  | OExpr Operand "(string \<times> Operand) list"

type_synonym Expression = "Operand \<times> (string \<times> Operand) list"

record SQLQuery =
  columnList :: "string list"
  fromTable :: string
  whereClause :: "Expression option"

datatype PlanOp = FromTable_Op string | Where_Op Expression PlanOp | Map_Op "string list" PlanOp

definition constructFromSQLQuery :: "SQLQuery \<Rightarrow> PlanOp" where
  "constructFromSQLQuery q =
     (let tbl = FromTable_Op (fromTable q);
          next = (case whereClause q of Some cond \<Rightarrow> Where_Op cond tbl | None \<Rightarrow> tbl)
      in if columnList q = [''*''] then next else Map_Op (columnList q) next)"

section \<open>Errors and state\<close>

datatype qc_error = QueryCompileException string | ExpectationFailure | OutOfRange | SystemError | Failure op_error

text \<open>
  The state of the compiler: the tables and types seen so far (a \<open>std::set\<close> and a \<open>std::map\<close>, in
  the order of their keys), the counter of the name generator, the cache, the files
  written (\<open>None\<close> stands for a file whose generation was interrupted) and the log of
  actions. It keeps its changes when an exception is thrown.
\<close>

datatype action = Compile string | Load string | CreateTopology string | StartTopology string

record QueryCompiler =
  qTableSet :: "string list"
  qTypes :: "(string \<times> TableInfo \<times> string) list"
  qCounter :: "32 word"
  qCache :: "(string \<times> string) list"
  qFiles :: "(string \<times> string option) list"
  qLog :: "action list"

definition QueryCompiler_new :: QueryCompiler where
  "QueryCompiler_new = \<lparr>qTableSet = [], qTypes = [], qCounter = 0, qCache = [], qFiles = [], qLog = []\<rparr>"

type_synonym 'a qm = "QueryCompiler \<Rightarrow> (qc_error + 'a) \<times> QueryCompiler"

definition qret :: "'a \<Rightarrow> 'a qm" where
  "qret x = (\<lambda>s. (Inr x, s))"

definition qthrow :: "qc_error \<Rightarrow> 'a qm" where
  "qthrow e = (\<lambda>s. (Inl e, s))"

definition qbind :: "'a qm \<Rightarrow> ('a \<Rightarrow> 'b qm) \<Rightarrow> 'b qm" where
  "qbind m f = (\<lambda>s. case m s of (Inl e, s') \<Rightarrow> (Inl e, s') | (Inr x, s') \<Rightarrow> f x s')"

section \<open>Names and types\<close>

definition uniqueName :: "string \<Rightarrow> string qm" where
  "uniqueName prefix = (\<lambda>s. (Inr (prefix @ ''_'' @ to_string (unat (qCounter s + 1))), s\<lparr>qCounter := qCounter s + 1\<rparr>))"

definition registerType :: "TableInfo \<Rightarrow> unit qm" where
  "registerType tInfo =
     (\<lambda>s. let sig = typeSignature tInfo
          in if map_of (qTypes s) sig = None
             then qbind (uniqueName ''Tuple'') (\<lambda>n s'.
                    (Inr (), s'\<lparr>qTypes := insort_key fst (sig, tInfo, n @ ''_Type_'') (qTypes s')\<rparr>)) s
             else (Inr (), s))"

definition nameOfType :: "TableInfo \<Rightarrow> string qm" where
  "nameOfType tInfo =
     (\<lambda>s. case map_of (qTypes s) (typeSignature tInfo) of
            None \<Rightarrow> (Inl (QueryCompileException ''unkown type''), s)
          | Some (_, name) \<Rightarrow> (Inr name, s))"

section \<open>Checking a plan\<close>

text \<open>The plan with what the check adds: resolved columns and output schemas.\<close>

datatype CheckedOp = CFromTable string TableInfo | CWhere Expression CheckedOp | CMap "int list" TableInfo CheckedOp

fun outputSchema :: "CheckedOp \<Rightarrow> TableInfo" where
  "outputSchema (CFromTable name ti) = ti"
| "outputSchema (CWhere cond c) = outputSchema c"
| "outputSchema (CMap positions ti c) = ti"

text \<open>The positions by name: a later column of the same name replaces an earlier one.\<close>

fun columnMap :: "ColumnInfo list \<Rightarrow> int \<Rightarrow> (string \<rightharpoonup> int) \<Rightarrow> string \<rightharpoonup> int" where
  "columnMap [] i m = m"
| "columnMap (col # cols) i m = columnMap cols (i + 1) (m(mColName col \<mapsto> i))"

fun mapColumn :: "(string \<rightharpoonup> int) \<Rightarrow> Operand \<Rightarrow> qc_error + Operand"
  and mapOperations :: "(string \<rightharpoonup> int) \<Rightarrow> (string \<times> Operand) list \<Rightarrow> qc_error + (string \<times> Operand) list" where
  "mapColumn cm (OColumn name pos) = (case cm name of Some i \<Rightarrow> Inr (OColumn name i) | None \<Rightarrow> Inl OutOfRange)"
| "mapColumn cm (OExpr head tail) =
     (case mapColumn cm head of
        Inl e \<Rightarrow> Inl e
      | Inr head' \<Rightarrow> (case mapOperations cm tail of Inl e \<Rightarrow> Inl e | Inr tail' \<Rightarrow> Inr (OExpr head' tail')))"
| "mapColumn cm (ORightAssoc left) = (case mapColumn cm left of Inl e \<Rightarrow> Inl e | Inr left' \<Rightarrow> Inr (ORightAssoc left'))"
| "mapColumn cm ONil = Inr ONil"
| "mapColumn cm (OLiteral l) = Inr (OLiteral l)"
| "mapOperations cm [] = Inr []"
| "mapOperations cm ((op, operand) # ops) =
     (case mapColumn cm operand of
        Inl e \<Rightarrow> Inl e
      | Inr operand' \<Rightarrow> (case mapOperations cm ops of Inl e \<Rightarrow> Inl e | Inr ops' \<Rightarrow> Inr ((op, operand') # ops')))"

definition modifyWhereExpression :: "TableInfo \<Rightarrow> Expression \<Rightarrow> qc_error + Expression" where
  "modifyWhereExpression inputSchema cond =
     (let cm = columnMap (mColumns inputSchema) 0 Map.empty
      in case mapColumn cm (fst cond) of
           Inl e \<Rightarrow> Inl e
         | Inr head' \<Rightarrow> (case mapOperations cm (snd cond) of Inl e \<Rightarrow> Inl e | Inr tail' \<Rightarrow> Inr (head', tail')))"

text \<open>
  \<open>constructMapSchema\<close> collects the positions and the columns of the result; the statement that
  would store the columns in the output schema is commented out.
\<close>

fun constructMapSchema :: "TableInfo \<Rightarrow> string list \<Rightarrow> qc_error + (int list \<times> ColumnInfo list)" where
  "constructMapSchema inputSchema [] = Inr ([], [])"
| "constructMapSchema inputSchema (c # cs) =
     (let pos = findColumnByName inputSchema c
      in if pos \<noteq> - 1
         then (case constructMapSchema inputSchema cs of
                 Inl e \<Rightarrow> Inl e
               | Inr (ps, outs) \<Rightarrow> Inr (pos # ps, mColumns inputSchema ! nat pos # outs))
         else Inl (QueryCompileException ''unknown column''))"

text \<open>The schema of a projection stays as \<open>TableInfo()\<close> leaves it; its type of key is never read.\<close>

definition empty_schema :: TableInfo where
  "empty_schema = \<lparr>mName = [], mColumns = [], mKeyType = Void_Type\<rparr>"

fun checkPlan :: "PFabricContext \<Rightarrow> PlanOp \<Rightarrow> CheckedOp qm" where
  "checkPlan ctx (FromTable_Op name) =
     (case getTableInfo name ctx of
        Inl e \<Rightarrow> qthrow (Failure e)
      | Inr None \<Rightarrow> qthrow (Failure NullPointer)
      | Inr (Some ti) \<Rightarrow>
          (\<lambda>s. qbind (registerType ti) (\<lambda>_. qret (CFromTable name ti))
             (s\<lparr>qTableSet := (if name \<in> set (qTableSet s) then qTableSet s else insort name (qTableSet s))\<rparr>)))"
| "checkPlan ctx (Where_Op cond child) =
     qbind (checkPlan ctx child) (\<lambda>c.
       case modifyWhereExpression (outputSchema c) cond of Inl e \<Rightarrow> qthrow e | Inr cond' \<Rightarrow> qret (CWhere cond' c))"
| "checkPlan ctx (Map_Op columns child) =
     qbind (checkPlan ctx child) (\<lambda>c.
       case constructMapSchema (outputSchema c) columns of
         Inl e \<Rightarrow> qthrow e
       | Inr (positions, outputColumns) \<Rightarrow> qbind (registerType empty_schema) (\<lambda>_. qret (CMap positions empty_schema c)))"

section \<open>Generating code\<close>

definition cppOperator :: "string \<Rightarrow> string" where
  "cppOperator op =
     (case map_of [(''and'', ''&&''), (''or'', ''||''), (''not'', ''!''), (''='', ''==''), (''<>'', ''!='')] op of
        Some s \<Rightarrow> s | None \<Rightarrow> op)"

fun genExpression :: "Operand \<Rightarrow> string" where
  "genExpression (OColumn name pos) = ''get<'' @ show_int pos @ ''>(tp)''"
| "genExpression ONil = []"
| "genExpression (OLiteral l) = show_int l"
| "genExpression (OExpr head tail) =
     genExpression head @ concat (map (\<lambda>(op, operand). '' '' @ cppOperator op @ '' '' @ genExpression operand) tail)"
| "genExpression (ORightAssoc left) = genExpression left"

definition generateWhereExpression :: "Expression \<Rightarrow> string" where
  "generateWhereExpression cond =
     genExpression (fst cond) @ concat (map (\<lambda>(op, operand). '' '' @ cppOperator op @ '' '' @ genExpression operand) (snd cond))"

fun generateMapExpression :: "bool \<Rightarrow> int list \<Rightarrow> string" where
  "generateMapExpression first [] = []"
| "generateMapExpression first (p # ps) =
     (if first then [] else '', '') @ ''get<'' @ show_int p @ ''>(tp)'' @ generateMapExpression False ps"

abbreviation nl :: string where "nl \<equiv> [CHR 0x0A]"
abbreviation tab :: string where "tab \<equiv> [CHR 0x09]"
abbreviation dquote :: string where "dquote \<equiv> [CHR 0x22]"

definition generateHeader :: "string \<Rightarrow> string" where
  "generateHeader className =
     ''#include '' @ dquote @ ''qcomp/TopologyBuilder.hpp'' @ dquote @ nl @ nl @ ''using namespace pfabric;'' @ nl @ nl @
     ''BUILDER_CLASS('' @ className @ '')'' @ nl @ nl"

definition generateTypedefs :: "QueryCompiler \<Rightarrow> string" where
  "generateTypedefs s =
     concat (map (\<lambda>(sig, ti, name). ''typedef '' @ generateTypeDef ti @ '' '' @ name @ '';'' @ nl) (qTypes s)) @ nl"

definition generateBeginClassDefinition :: "string \<Rightarrow> string" where
  "generateBeginClassDefinition className =
     ''PFabricContext::TopologyPtr '' @ className @ ''::create(PFabricContext& ctx) {'' @ nl"

definition generateEndClassDefinition :: string where
  "generateEndClassDefinition = tab @ ''return topology;'' @ nl @ ''}'' @ nl @ nl"

definition generateFooter :: "string \<Rightarrow> string" where
  "generateFooter className =
     ''extern '' @ dquote @ ''C'' @ dquote @ '' BOOST_SYMBOL_EXPORT '' @ className @ '' '' @ className @ ''_obj_;'' @ nl @
     className @ '' '' @ className @ ''_obj_;''"

text \<open>The declarations of the tables of \<open>mTableSet\<close>.\<close>

fun generateTables :: "PFabricContext \<Rightarrow> string list \<Rightarrow> string qm" where
  "generateTables ctx [] = qret []"
| "generateTables ctx (tbl # tbls) =
     (case getTableInfo tbl ctx of
        Inl e \<Rightarrow> qthrow (Failure e)
      | Inr None \<Rightarrow> qthrow (Failure NullPointer)
      | Inr (Some ti) \<Rightarrow>
          qbind (nameOfType ti) (\<lambda>n.
          qbind (generateTables ctx tbls) (\<lambda>rest.
            qret (tab @ ''auto '' @ tbl @ '' = ctx.getTable<'' @ n @ ''::element_type, '' @ print_type (mKeyType ti) @
                  ''>('' @ dquote @ tbl @ dquote @ '');'' @ nl @ rest))))"

fun generateOps :: "CheckedOp \<Rightarrow> string qm" where
  "generateOps (CFromTable name ti) =
     qbind (nameOfType ti) (\<lambda>n.
       qret (tab @ ''topology->selectFromTable<'' @ n @ '', '' @ print_type (mKeyType ti) @ ''>('' @ name @ '')'' @ nl))"
| "generateOps (CWhere cond c) =
     qbind (generateOps c) (\<lambda>code.
       qret (code @ tab @ tab @ ''.where([](auto tp, bool) -> bool {'' @ nl @ tab @ tab @ tab @ ''return '' @
             generateWhereExpression cond @ ''; })'' @ nl))"
| "generateOps (CMap positions ti c) =
     qbind (generateOps c) (\<lambda>code.
     qbind (nameOfType ti) (\<lambda>n.
       qret (code @ tab @ tab @ ''.map<'' @ n @ ''>([](auto tp, bool) -> '' @ n @ '' {'' @ nl @ tab @ tab @ tab @
             ''return makeTuplePtr('' @ generateMapExpression True positions @ ''); })'' @ nl)))"

definition generateQuery :: "PFabricContext \<Rightarrow> CheckedOp \<Rightarrow> string qm" where
  "generateQuery ctx plan =
     (\<lambda>s. qbind (generateTables ctx (qTableSet s)) (\<lambda>tables.
          qbind (generateOps plan) (\<lambda>ops.
            qret (tables @ tab @ ''topology = ctx.createTopology();'' @ nl @ ops @ tab @ tab @ ''.print();'' @ nl))) s)"

text \<open>\<open>generateCode\<close>: the file is opened first, and stays incomplete when the query cannot be generated.\<close>

definition generateCode :: "PFabricContext \<Rightarrow> CheckedOp \<Rightarrow> string \<Rightarrow> unit qm" where
  "generateCode ctx plan className =
     (\<lambda>s. case generateQuery ctx plan s of
            (Inl e, s') \<Rightarrow> (Inl e, s'\<lparr>qFiles := (className @ ''.cpp'', None) # qFiles s'\<rparr>)
          | (Inr q, s') \<Rightarrow>
              (Inr (), s'\<lparr>qFiles := (className @ ''.cpp'', Some (
                 generateHeader className @ generateTypedefs s @ generateBeginClassDefinition className @ q @
                 generateEndClassDefinition @ generateFooter className)) # qFiles s'\<rparr>))"

text \<open>\<open>compileCppCode\<close>: the name up to \<open>.cpp\<close>; the result of the call of the compiler is not looked at.\<close>

fun before_cpp :: "string \<Rightarrow> string" where
  "before_cpp [] = []"
| "before_cpp (c # cs) = (if take 4 (c # cs) = ''.cpp'' then [] else c # before_cpp cs)"

definition compileCppCode :: "string \<Rightarrow> string qm" where
  "compileCppCode cppFileName =
     (\<lambda>s. (Inr (before_cpp cppFileName), s\<lparr>qLog := qLog s @ [Compile (before_cpp cppFileName)]\<rparr>))"

definition compileQuery :: "(string \<Rightarrow> qc_error + SQLQuery) \<Rightarrow> PFabricContext \<Rightarrow> string \<Rightarrow> string qm" where
  "compileQuery parse ctx queryString =
     (case parse queryString of
        Inl e \<Rightarrow> qthrow e
      | Inr q \<Rightarrow>
          qbind (checkPlan ctx (constructFromSQLQuery q)) (\<lambda>plan.
          qbind (uniqueName ''Query'') (\<lambda>cppName.
          qbind (generateCode ctx plan cppName) (\<lambda>_. compileCppCode cppName))))"

section \<open>The cache\<close>

definition addToCache :: "string \<Rightarrow> string \<Rightarrow> QueryCompiler \<Rightarrow> QueryCompiler" where
  "addToCache queryString entry s =
     (if map_of (qCache s) queryString = None then s\<lparr>qCache := (queryString, entry) # qCache s\<rparr> else s)"

definition findPlanForQuery :: "string \<Rightarrow> string qm" where
  "findPlanForQuery queryString =
     (\<lambda>s. case map_of (qCache s) queryString of None \<Rightarrow> (Inl OutOfRange, s) | Some e \<Rightarrow> (Inr e, s))"

text \<open>
  \<open>execQuery\<close>. Whether the library can be loaded (\<open>loadable\<close>) and whether its \<open>create\<close>
  succeeds (\<open>creates\<close>) is decided by the generated code; the topology is started last. What a start function does is
  not modelled: in the code an \<open>out_of_range\<close> that a cached topology throws while it is started would be taken for a missing entry and the
  query would be compiled again.
\<close>

definition execQuery ::
  "(string \<Rightarrow> qc_error + SQLQuery) \<Rightarrow> (string \<Rightarrow> bool) \<Rightarrow> (string \<Rightarrow> qc_error option) \<Rightarrow> PFabricContext \<Rightarrow> string \<Rightarrow> string qm" where
  "execQuery parse loadable creates ctx queryString =
     (\<lambda>s. case findPlanForQuery queryString s of
            (Inr lib, s1) \<Rightarrow> (Inr lib, s1\<lparr>qLog := qLog s1 @ [StartTopology lib]\<rparr>)
          | (Inl _, s1) \<Rightarrow>
              qbind (compileQuery parse ctx queryString) (\<lambda>lib s2.
                if loadable lib
                then (case creates lib of
                        Some e \<Rightarrow> (Inl e, s2\<lparr>qLog := qLog s2 @ [Load lib]\<rparr>)
                      | None \<Rightarrow> (Inr lib, addToCache queryString lib
                          (s2\<lparr>qLog := qLog s2 @ [Load lib, CreateTopology lib, StartTopology lib]\<rparr>)))
                else (Inl SystemError, s2)) s1)"

section \<open>The text of a condition\<close>

text \<open>
  The reading of the generated text by the C++ compiler, for the fragment that is generated:
  words separated by blanks; \<open>||\<close> binds weaker than \<open>&&\<close>, and \<open>&&\<close> weaker than a comparison. The text has
  no meaning (\<open>None\<close>) if an operand of \<open>&&\<close> is not a comparison of two operands.
\<close>

fun words_acc :: "string \<Rightarrow> string \<Rightarrow> string list" where
  "words_acc w [] = [w]"
| "words_acc w (c # cs) = (if c = CHR '' '' then w # words_acc [] cs else words_acc (w @ [c]) cs)"

fun split_at :: "'a \<Rightarrow> 'a list \<Rightarrow> 'a list list" where
  "split_at sep [] = [[]]"
| "split_at sep (w # ws) = (if w = sep then [] # split_at sep ws else (w # hd (split_at sep ws)) # tl (split_at sep ws))"

definition word_value :: "(int \<Rightarrow> int) \<Rightarrow> string \<Rightarrow> int" where
  "word_value field w =
     (if take 4 w = ''get<'' then field (decimal_value (takeWhile (\<lambda>c. c \<noteq> CHR ''>'') (drop 4 w))) else decimal_value w)"

definition cpp_compare :: "string \<Rightarrow> int \<Rightarrow> int \<Rightarrow> bool" where
  "cpp_compare op x y =
     (if op = ''=='' then x = y else if op = ''!='' then x \<noteq> y else if op = ''<='' then x \<le> y
      else if op = ''<'' then x < y else if op = ''>='' then x \<ge> y else op = ''>'' \<and> x > y)"

definition cpp_atom :: "(int \<Rightarrow> int) \<Rightarrow> string list \<Rightarrow> bool" where
  "cpp_atom field ws = cpp_compare (ws ! 1) (word_value field (ws ! 0)) (word_value field (ws ! 2))"

definition cpp_conj :: "(int \<Rightarrow> int) \<Rightarrow> string list \<Rightarrow> bool option" where
  "cpp_conj field ws =
     (if \<forall>a\<in>set (split_at ''&&'' ws). length a = 3 then Some (\<forall>a\<in>set (split_at ''&&'' ws). cpp_atom field a) else None)"

definition cpp_disj :: "(int \<Rightarrow> int) \<Rightarrow> string list \<Rightarrow> bool option" where
  "cpp_disj field ws =
     (if \<forall>g\<in>set (split_at ''||'' ws). cpp_conj field g \<noteq> None
      then Some (\<exists>g\<in>set (split_at ''||'' ws). cpp_conj field g = Some True) else None)"

definition cpp_eval :: "(int \<Rightarrow> int) \<Rightarrow> string \<Rightarrow> bool option" where
  "cpp_eval field code = cpp_disj field (words_acc [] code)"

text \<open>
  The conditions the grammar builds from comparisons of two operands, and their meaning in
  SQL over the values of the named columns: \<open>and\<close> binds stronger than \<open>or\<close>.
\<close>

fun is_primary :: "Operand \<Rightarrow> bool" where
  "is_primary (ORightAssoc (OColumn name pos)) = True"
| "is_primary (ORightAssoc (OLiteral l)) = True"
| "is_primary operand = False"

fun is_comparison :: "Operand \<Rightarrow> bool" where
  "is_comparison (OExpr l [(op, r)]) \<longleftrightarrow> is_primary l \<and> is_primary r \<and> op \<in> {''<='', ''<'', ''>='', ''>'', ''<>'', ''=''}"
| "is_comparison operand = False"

definition is_condition :: "Expression \<Rightarrow> bool" where
  "is_condition cond \<longleftrightarrow> is_comparison (fst cond) \<and> (\<forall>(op, operand)\<in>set (snd cond). op \<in> {''and'', ''or''} \<and> is_comparison operand)"

fun sql_value :: "(string \<Rightarrow> int) \<Rightarrow> Operand \<Rightarrow> int" where
  "sql_value row (OColumn name pos) = row name"
| "sql_value row (OLiteral l) = l"
| "sql_value row (ORightAssoc left) = sql_value row left"
| "sql_value row operand = 0"

fun sql_comparison :: "(string \<Rightarrow> int) \<Rightarrow> Operand \<Rightarrow> bool" where
  "sql_comparison row (OExpr l [(op, r)]) =
     (let x = sql_value row l; y = sql_value row r
      in if op = ''='' then x = y else if op = ''<>'' then x \<noteq> y else if op = ''<='' then x \<le> y
         else if op = ''<'' then x < y else if op = ''>='' then x \<ge> y else op = ''>'' \<and> x > y)"
| "sql_comparison row operand = False"

fun sql_holds :: "(string \<Rightarrow> int) \<Rightarrow> bool \<Rightarrow> (string \<times> Operand) list \<Rightarrow> bool" where
  "sql_holds row v [] = v"
| "sql_holds row v ((op, operand) # ops) =
     (if op = ''and'' then sql_holds row (v \<and> sql_comparison row operand) ops
      else v \<or> sql_holds row (sql_comparison row operand) ops)"

definition sql_condition :: "(string \<Rightarrow> int) \<Rightarrow> Expression \<Rightarrow> bool" where
  "sql_condition row cond = sql_holds row (sql_comparison row (fst cond)) (snd cond)"

subsection \<open>Words and groups\<close>

lemma words_acc_word: "CHR '' '' \<notin> set s \<Longrightarrow> words_acc w (s @ CHR '' '' # t) = (w @ s) # words_acc [] t"
  by (induction s arbitrary: w) auto

lemma words_acc_last: "CHR '' '' \<notin> set s \<Longrightarrow> words_acc w s = [w @ s]"
  by (induction s arbitrary: w) auto

lemma split_at_nonempty [simp]: "split_at sep ws \<noteq> []"
  by (cases ws) auto

lemma split_at_none: "sep \<notin> set ws \<Longrightarrow> split_at sep ws = [ws]"
  by (induction ws) auto

lemma split_at_sep: "split_at sep (xs @ sep # ys) = split_at sep xs @ split_at sep ys"
  by (induction xs) auto

lemma cpp_conj_and:
  assumes "''&&'' \<notin> set a" and "length a = 3" and "cpp_conj field g = Some v"
  shows "cpp_conj field (g @ ''&&'' # a) = Some (v \<and> cpp_atom field a)"
  using assms by (auto simp: cpp_conj_def split_at_sep split_at_none split: if_splits)

lemma cpp_disj_or:
  assumes "''||'' \<notin> set g" and "cpp_conj field g = Some v" and "cpp_disj field ws = Some u"
  shows "cpp_disj field (g @ ''||'' # ws) = Some (v \<or> u)"
  using assms by (auto simp: cpp_disj_def split_at_sep split_at_none split: if_splits)

text \<open>The words of the tail of a condition, and their evaluation after a group of \<open>and\<close>s.\<close>

definition atom_words :: "(int \<Rightarrow> int) \<Rightarrow> string list \<Rightarrow> bool \<Rightarrow> bool" where
  "atom_words field a v \<longleftrightarrow> length a = 3 \<and> ''&&'' \<notin> set a \<and> ''||'' \<notin> set a \<and> (\<forall>w\<in>set a. CHR '' '' \<notin> set w) \<and> cpp_atom field a = v"

definition tail_words :: "(string \<times> string list) list \<Rightarrow> string list" where
  "tail_words ops = concat (map (\<lambda>(op, a). cppOperator op # a) ops)"

lemma cppOperator_simps [simp]:
  "cppOperator ''and'' = ''&&''" "cppOperator ''or'' = ''||''" "cppOperator ''='' = ''==''" "cppOperator ''<>'' = ''!=''"
  "cppOperator ''<='' = ''<=''" "cppOperator ''<'' = ''<''" "cppOperator ''>='' = ''>=''" "cppOperator ''>'' = ''>''"
  by (simp_all add: cppOperator_def)

lemma cpp_disj_group: "''||'' \<notin> set g \<Longrightarrow> cpp_conj field g = Some v \<Longrightarrow> cpp_disj field g = Some v"
  by (simp add: cpp_disj_def split_at_none)

lemma tail_words_eval:
  assumes "list_all2 (\<lambda>(op, operand) (op', a). op' = op \<and> op \<in> {''and'', ''or''} \<and> atom_words field a (sql_comparison row operand)) ops tops"
    and "''||'' \<notin> set g" and "cpp_conj field g = Some v"
  shows "cpp_disj field (g @ tail_words tops) = Some (sql_holds row v ops)"
  using assms
proof (induction ops tops arbitrary: g v rule: list_all2_induct)
  case Nil
  then show ?case by (simp add: tail_words_def cpp_disj_group)
next
  case (Cons o1 ops t1 tops)
  obtain op operand a where o: "o1 = (op, operand)" "t1 = (op, a)" "op \<in> {''and'', ''or''}"
    "atom_words field a (sql_comparison row operand)" using Cons.hyps (1) by (cases o1; cases t1) auto
  then have a: "length a = 3" "''&&'' \<notin> set a" "''||'' \<notin> set a" "cpp_atom field a = sql_comparison row operand"
    by (auto simp: atom_words_def)
  have c: "cpp_conj field a = Some (sql_comparison row operand)" using a by (simp add: cpp_conj_def split_at_none)
  show ?case
  proof (cases "op = ''and''")
    case True
    then show ?thesis
      using Cons.IH [of "g @ ''&&'' # a", OF _ cpp_conj_and [OF a(2,1) Cons.prems(2)]] Cons.prems(1) a o
      by (simp add: tail_words_def)
  next
    case False
    then show ?thesis using cpp_disj_or [OF Cons.prems Cons.IH [OF a(3) c]] o by (simp add: tail_words_def)
  qed
qed

fun unwords :: "string list \<Rightarrow> string" where
  "unwords [] = []"
| "unwords [w] = w"
| "unwords (w # ws) = w @ CHR '' '' # unwords ws"

lemma words_unwords: "ws \<noteq> [] \<Longrightarrow> \<forall>w\<in>set ws. CHR '' '' \<notin> set w \<Longrightarrow> words_acc [] (unwords ws) = ws"
  by (induction ws rule: unwords.induct) (auto simp: words_acc_word words_acc_last)

lemma unwords_append: "xs \<noteq> [] \<Longrightarrow> ys \<noteq> [] \<Longrightarrow> unwords (xs @ ys) = unwords xs @ CHR '' '' # unwords ys"
proof (induction xs rule: unwords.induct)
  case (2 w)
  then show ?case by (cases ys) auto
qed auto

lemma cppOperator_no_space: "op \<in> {''and'', ''or''} \<Longrightarrow> CHR '' '' \<notin> set (cppOperator op)"
  by auto

lemma tail_text:
  assumes "list_all2 (\<lambda>(op, operand) (op', a). op' = op \<and> a \<noteq> [] \<and> genExpression operand = unwords a) ops tops" and "g \<noteq> []"
  shows "unwords g @ concat (map (\<lambda>(op, operand). '' '' @ cppOperator op @ '' '' @ genExpression operand) ops) = unwords (g @ tail_words tops)"
  using assms
proof (induction ops tops arbitrary: g rule: list_all2_induct)
  case (Cons o1 ops t1 tops)
  obtain op operand a where o: "o1 = (op, operand)" "t1 = (op, a)" "a \<noteq> []" "genExpression operand = unwords a"
    using Cons.hyps (1) by (cases o1; cases t1) auto
  have "unwords (cppOperator op # a) = cppOperator op @ CHR '' '' # unwords a" using o(3) by (cases a) auto
  then show ?case using Cons.IH [of "g @ cppOperator op # a"] Cons.prems o unwords_append [of g "cppOperator op # a"]
    by (simp add: tail_words_def)
qed (simp add: tail_words_def)

subsection \<open>Comparisons\<close>

lemma show_int_chars: "c \<in> set (show_int i) \<Longrightarrow> c = CHR ''-'' \<or> (\<exists>d<(10::nat). c = char_of (48 + d))"
  using to_string_digits [of c "nat i"] to_string_digits [of c "nat (- i)"] by (auto simp: show_int_def split: if_splits)

lemma digit_char: "d < (10::nat) \<Longrightarrow> char_of (48 + d) \<notin> {CHR '' '', CHR ''>'', CHR ''g'', CHR ''&'', CHR ''|'', CHR ''.''}"
proof -
  assume "d < 10"
  then have "d \<in> {0,1,2,3,4,5,6,7,8,9}" by auto
  then show ?thesis by (elim insertE) (simp_all add: char_of_def)
qed

lemma show_int_clean: "set (show_int i) \<inter> {CHR '' '', CHR ''>'', CHR ''g'', CHR ''&'', CHR ''|'', CHR ''.''} = {}"
  using show_int_chars [of _ i] digit_char by fastforce

lemma show_int_nonempty [simp]: "show_int i \<noteq> []"
  by (simp add: show_int_def)

lemma column_word:
  "word_value field (''get<'' @ show_int p @ ''>(tp)'') = field p" "CHR '' '' \<notin> set (''get<'' @ show_int p @ ''>(tp)'')"
proof -
  have "takeWhile (\<lambda>c. c \<noteq> CHR ''>'') (show_int p @ ''>(tp)'') = show_int p"
    using show_int_clean [of p] by (subst takeWhile_append2) auto
  then show "word_value field (''get<'' @ show_int p @ ''>(tp)'') = field p" by (simp add: word_value_def decimal_show_int)
  show "CHR '' '' \<notin> set (''get<'' @ show_int p @ ''>(tp)'')" using show_int_clean [of p] by auto
qed

lemma literal_word:
  "word_value field (show_int l) = l" "CHR '' '' \<notin> set (show_int l)" "show_int l \<noteq> ''&&''" "show_int l \<noteq> ''||''"
proof -
  show "word_value field (show_int l) = l"
  proof (cases "take 4 (show_int l) = ''get<''")
    case True
    then have "CHR ''g'' \<in> set (show_int l)" using set_take_subset [of 4 "show_int l"] by auto
    then show ?thesis using show_int_clean [of l] by auto
  qed (simp add: word_value_def decimal_show_int)
qed (use show_int_clean [of l] in \<open>auto dest: arg_cong [where f = set]\<close>)

lemma primary_word:
  assumes "is_primary o1" and "mapColumn cm o1 = Inr o2" and "\<forall>n i. cm n = Some i \<longrightarrow> field i = row n"
  shows "word_value field (genExpression o2) = sql_value row o1" "CHR '' '' \<notin> set (genExpression o2)"
    "genExpression o2 \<noteq> ''&&''" "genExpression o2 \<noteq> ''||''"
  using assms by (cases o1 rule: is_primary.cases; auto split: option.splits simp: column_word [simplified] literal_word)+

lemma comparison_words:
  assumes "is_comparison o1" and "mapColumn cm o1 = Inr o2" and "\<forall>n i. cm n = Some i \<longrightarrow> field i = row n"
  shows "\<exists>a. a \<noteq> [] \<and> genExpression o2 = unwords a \<and> atom_words field a (sql_comparison row o1)"
proof -
  obtain l op r where o: "o1 = OExpr l [(op, r)]" "is_primary l" "is_primary r" and op: "op \<in> {''<='', ''<'', ''>='', ''>'', ''<>'', ''=''}"
    using assms(1) by (cases o1 rule: is_comparison.cases) auto
  obtain l' r' where m: "mapColumn cm l = Inr l'" "mapColumn cm r = Inr r'" "o2 = OExpr l' [(op, r')]"
    using assms(2) o by (auto split: sum.splits)
  define a where "a = [genExpression l', cppOperator op, genExpression r']"
  note w = primary_word [OF o(2) m(1) assms(3)] primary_word [OF o(3) m(2) assms(3)]
  have "cpp_compare (cppOperator op) x y = sql_comparison (\<lambda>n. 0) (OExpr (OLiteral x) [(op, OLiteral y)])" for x y
    using op by (elim insertE) (simp_all add: cpp_compare_def)
  then have "cpp_atom field a = sql_comparison row o1" using w(1,5) by (simp add: a_def cpp_atom_def o(1) Let_def)
  moreover have "CHR '' '' \<notin> set (cppOperator op)" "cppOperator op \<noteq> ''&&''" "cppOperator op \<noteq> ''||''" using op by auto
  ultimately have "atom_words field a (sql_comparison row o1)" using w by (simp add: atom_words_def a_def)
  moreover have "genExpression o2 = unwords a" by (simp add: m(3) a_def)
  ultimately show ?thesis by (intro exI [of _ a]) (simp add: a_def)
qed

lemma tail_comparisons:
  assumes "\<forall>(op, operand)\<in>set ops. op \<in> {''and'', ''or''} \<and> is_comparison operand" and "mapOperations cm ops = Inr ops'"
    and "\<forall>n i. cm n = Some i \<longrightarrow> field i = row n"
  shows "\<exists>tops. list_all2 (\<lambda>(op, operand) (op', a). op' = op \<and> op \<in> {''and'', ''or''} \<and> atom_words field a (sql_comparison row operand)) ops tops \<and>
    list_all2 (\<lambda>(op, operand) (op', a). op' = op \<and> a \<noteq> [] \<and> genExpression operand = unwords a) ops' tops"
  using assms(1,2)
proof (induction ops arbitrary: ops')
  case Nil
  then show ?case by (intro exI [of _ "[]"]) simp
next
  case (Cons o1 ops)
  obtain op operand where o: "o1 = (op, operand)" by (cases o1)
  obtain operand' ops'' where m: "mapColumn cm operand = Inr operand'" "mapOperations cm ops = Inr ops''" "ops' = (op, operand') # ops''"
    using Cons.prems(2) o by (auto split: sum.splits)
  obtain a where a: "a \<noteq> []" "genExpression operand' = unwords a" "atom_words field a (sql_comparison row operand)"
    using comparison_words [OF _ m(1) assms(3)] Cons.prems(1) o by auto
  obtain tops where "list_all2 (\<lambda>(op, operand) (op', a). op' = op \<and> op \<in> {''and'', ''or''} \<and> atom_words field a (sql_comparison row operand)) ops tops"
    "list_all2 (\<lambda>(op, operand) (op', a). op' = op \<and> a \<noteq> [] \<and> genExpression operand = unwords a) ops'' tops"
    using Cons.IH [OF _ m(2)] Cons.prems(1) by auto
  then show ?case using a m(3) o Cons.prems(1) by (intro exI [of _ "(op, a) # tops"]) auto
qed

lemma tail_words_no_space:
  assumes "list_all2 (\<lambda>(op, operand) (op', a). op' = op \<and> op \<in> {''and'', ''or''} \<and> atom_words field a (sql_comparison row operand)) ops tops"
  shows "\<forall>w\<in>set (tail_words tops). CHR '' '' \<notin> set w"
  using assms by (induction ops tops rule: list_all2_induct) (auto simp: tail_words_def atom_words_def)

lemma condition_text:
  assumes "is_condition cond" and "mapColumn cm (fst cond) = Inr h'" and "mapOperations cm (snd cond) = Inr t'"
    and cm: "\<forall>n i. cm n = Some i \<longrightarrow> field i = row n"
  shows "cpp_eval field (generateWhereExpression (h', t')) = Some (sql_condition row cond)"
proof -
  obtain a where a: "a \<noteq> []" "genExpression h' = unwords a" "atom_words field a (sql_comparison row (fst cond))"
    using comparison_words [OF _ assms(2) cm] assms(1) by (auto simp: is_condition_def)
  obtain tops where t: "list_all2 (\<lambda>(op, operand) (op', a). op' = op \<and> op \<in> {''and'', ''or''} \<and> atom_words field a (sql_comparison row operand)) (snd cond) tops"
    "list_all2 (\<lambda>(op, operand) (op', a). op' = op \<and> a \<noteq> [] \<and> genExpression operand = unwords a) t' tops"
    using tail_comparisons [OF _ assms(3) cm] assms(1) by (auto simp: is_condition_def)
  have "generateWhereExpression (h', t') = unwords (a @ tail_words tops)"
    using tail_text [OF t(2) a(1)] a(2) by (simp add: generateWhereExpression_def)
  moreover have "\<forall>w\<in>set (a @ tail_words tops). CHR '' '' \<notin> set w"
    using tail_words_no_space [OF t(1)] a(3) by (auto simp: atom_words_def)
  moreover have "cpp_conj field a = Some (sql_comparison row (fst cond))" "''||'' \<notin> set a"
    using a(3) by (simp_all add: cpp_conj_def atom_words_def split_at_none)
  ultimately show ?thesis
    using tail_words_eval [OF t(1)] a(1) by (simp add: cpp_eval_def words_unwords sql_condition_def)
qed

lemma columnMap_find:
  "distinct (map mColName cols) \<Longrightarrow> columnMap cols i m n = (if n \<in> mColName ` set cols then Some (find_column n cols i) else m n)"
  by (induction cols i m rule: columnMap.induct) auto

lemma findColumnByName_known: "n \<in> mColName ` set (mColumns ti) \<longleftrightarrow> findColumnByName ti n \<noteq> - 1"
  using find_column_none [of 0 n "mColumns ti"] by (simp add: findColumnByName_def)

text \<open>
  (C25) The text that is generated for a condition means the condition: if the column names of
  the table are distinct and all columns of the condition exist, then the C++ expression
  that \<open>generateWhereExpression\<close> writes, read with the precedence of C++, has for every tuple the value of
  the condition of SQL over the columns of that name.
\<close>

theorem where_code_means_condition:
  assumes "is_condition cond" and "distinct (map mColName (mColumns ti))" and "modifyWhereExpression ti cond = Inr cond'"
  shows "cpp_eval field (generateWhereExpression cond') = Some (sql_condition (\<lambda>n. field (findColumnByName ti n)) cond)"
proof -
  obtain h' t' where m: "cond' = (h', t')" "mapColumn (columnMap (mColumns ti) 0 Map.empty) (fst cond) = Inr h'"
    "mapOperations (columnMap (mColumns ti) 0 Map.empty) (snd cond) = Inr t'"
    using assms(3) by (auto simp: modifyWhereExpression_def Let_def split: sum.splits)
  have "\<forall>n i. columnMap (mColumns ti) 0 Map.empty n = Some i \<longrightarrow> field i = field (findColumnByName ti n)"
    by (auto simp: columnMap_find [OF assms(2)] findColumnByName_def split: if_splits)
  then show ?thesis unfolding m(1) by (rule condition_text [OF assms(1) m(2,3)])
qed

theorem where_code_means_condition_witness:
  "\<exists>cond'. modifyWhereExpression \<lparr>mName = ''t'', mColumns = [\<lparr>mColName = ''a'', mColType = Int_Type\<rparr>, \<lparr>mColName = ''b'', mColType = Int_Type\<rparr>], mKeyType = Int_Type\<rparr>
       (OExpr (ORightAssoc (OColumn ''b'' 0)) [(''<'', ORightAssoc (OLiteral 5))], [(''or'', OExpr (ORightAssoc (OColumn ''a'' 0)) [(''='', ORightAssoc (OLiteral 7))])]) = Inr cond' \<and>
     generateWhereExpression cond' = ''get<1>(tp) < 5 || get<0>(tp) == 7'' \<and>
     cpp_eval (\<lambda>i. if i = 0 then 7 else 9) (generateWhereExpression cond') = Some True"
proof -
  define ti where "ti = \<lparr>mName = ''t'', mColumns = [\<lparr>mColName = ''a'', mColType = Int_Type\<rparr>, \<lparr>mColName = ''b'', mColType = Int_Type\<rparr>], mKeyType = Int_Type\<rparr>"
  define cond :: Expression where "cond = (OExpr (ORightAssoc (OColumn ''b'' 0)) [(''<'', ORightAssoc (OLiteral 5))], [(''or'', OExpr (ORightAssoc (OColumn ''a'' 0)) [(''='', ORightAssoc (OLiteral 7))])])"
  define cond' :: Expression where "cond' = (OExpr (ORightAssoc (OColumn ''b'' 1)) [(''<'', ORightAssoc (OLiteral 5))], [(''or'', OExpr (ORightAssoc (OColumn ''a'' 0)) [(''='', ORightAssoc (OLiteral 7))])])"
  have m: "modifyWhereExpression ti cond = Inr cond'" by (simp add: modifyWhereExpression_def ti_def cond_def cond'_def)
  have g: "generateWhereExpression cond' = ''get<1>(tp) < 5 || get<0>(tp) == 7''"
    by (simp add: generateWhereExpression_def cond'_def show_int_def to_string.simps char_of_def bit_0)
  have v: "sql_condition (\<lambda>n. if findColumnByName ti n = 0 then 7 else 9) cond"
    by (simp add: sql_condition_def cond_def ti_def findColumnByName_def)
  have "is_condition cond" "distinct (map mColName (mColumns ti))" by (simp_all add: is_condition_def cond_def ti_def)
  from where_code_means_condition [OF this m, of "\<lambda>i. if i = 0 then 7 else 9"] v
  have "cpp_eval (\<lambda>i. if i = 0 then 7 else 9) (generateWhereExpression cond') = Some True" by simp
  with m g show ?thesis unfolding ti_def cond_def by (intro exI [of _ cond'] conjI)
qed

section \<open>Which queries compile\<close>

text \<open>The columns a condition names, and the schema a plan has according to the context.\<close>

fun operand_columns :: "Operand \<Rightarrow> string list" where
  "operand_columns (OColumn name pos) = [name]"
| "operand_columns (OExpr head tail) = operand_columns head @ concat (map (\<lambda>(op, operand). operand_columns operand) tail)"
| "operand_columns (ORightAssoc left) = operand_columns left"
| "operand_columns ONil = []"
| "operand_columns (OLiteral l) = []"

definition condition_columns :: "Expression \<Rightarrow> string list" where
  "condition_columns cond = operand_columns (fst cond) @ concat (map (\<lambda>(op, operand). operand_columns operand) (snd cond))"

abbreviation names :: "TableInfo \<Rightarrow> string set" where
  "names ti \<equiv> mColName ` set (mColumns ti)"

fun plan_schema :: "PFabricContext \<Rightarrow> PlanOp \<Rightarrow> TableInfo option" where
  "plan_schema ctx (FromTable_Op name) = (case getTableInfo name ctx of Inr (Some ti) \<Rightarrow> Some ti | _ \<Rightarrow> None)"
| "plan_schema ctx (Where_Op cond child) =
     (case plan_schema ctx child of Some ti \<Rightarrow> if set (condition_columns cond) \<subseteq> names ti then Some ti else None | None \<Rightarrow> None)"
| "plan_schema ctx (Map_Op columns child) =
     (case plan_schema ctx child of Some ti \<Rightarrow> if set columns \<subseteq> names ti then Some empty_schema else None | None \<Rightarrow> None)"

lemma columnMap_dom: "dom (columnMap cols i m) = mColName ` set cols \<union> dom m"
  by (induction cols i m rule: columnMap.induct) (auto simp del: fun_upd_apply)

lemma mapColumn_ok:
  "(\<exists>operand'. mapColumn cm operand = Inr operand') \<longleftrightarrow> set (operand_columns operand) \<subseteq> dom cm"
  "(\<exists>ops'. mapOperations cm ops = Inr ops') \<longleftrightarrow> (\<forall>(op, operand)\<in>set ops. set (operand_columns operand) \<subseteq> dom cm)"
  by (induction cm operand and cm ops rule: mapColumn_mapOperations.induct) (auto split: option.split sum.split, force+)

lemma modifyWhereExpression_ok:
  "(\<exists>cond'. modifyWhereExpression ti cond = Inr cond') \<longleftrightarrow> set (condition_columns cond) \<subseteq> names ti"
proof -
  have "(\<exists>cond'. modifyWhereExpression ti cond = Inr cond') \<longleftrightarrow>
    (\<exists>h. mapColumn (columnMap (mColumns ti) 0 Map.empty) (fst cond) = Inr h) \<and> (\<exists>t. mapOperations (columnMap (mColumns ti) 0 Map.empty) (snd cond) = Inr t)"
    by (auto simp: modifyWhereExpression_def Let_def split: sum.split)
  then show ?thesis unfolding mapColumn_ok columnMap_dom by (auto simp: condition_columns_def split_def)
qed

lemma constructMapSchema_ok: "(\<exists>r. constructMapSchema ti cs = Inr r) \<longleftrightarrow> set cs \<subseteq> names ti"
  by (induction ti cs rule: constructMapSchema.induct) (auto simp: Let_def findColumnByName_known split: sum.split)

text \<open>The invariant of the compiler: the tables seen so far exist, and their types are registered.\<close>

definition registered :: "QueryCompiler \<Rightarrow> TableInfo \<Rightarrow> bool" where
  "registered s ti \<longleftrightarrow> typeSignature ti \<in> fst ` set (qTypes s)"

definition qc_inv :: "PFabricContext \<Rightarrow> QueryCompiler \<Rightarrow> bool" where
  "qc_inv ctx s \<longleftrightarrow> (\<forall>t\<in>set (qTableSet s). \<exists>ti. getTableInfo t ctx = Inr (Some ti) \<and> registered s ti)"

text \<open>What an operation of the check keeps: it only adds tables and types, and uses up names.\<close>

definition grows :: "QueryCompiler \<Rightarrow> QueryCompiler \<Rightarrow> bool" where
  "grows s s' \<longleftrightarrow> set (qTableSet s) \<subseteq> set (qTableSet s') \<and> fst ` set (qTypes s) \<subseteq> fst ` set (qTypes s') \<and>
     qCache s' = qCache s \<and> qLog s' = qLog s"

lemma grows_refl [simp]: "grows s s"
  by (simp add: grows_def)

lemma grows_trans: "grows s s' \<Longrightarrow> grows s' s'' \<Longrightarrow> grows s s''"
  unfolding grows_def by (metis subset_trans)

lemma registered_grows: "grows s s' \<Longrightarrow> registered s ti \<Longrightarrow> registered s' ti"
  by (auto simp: grows_def registered_def)

lemma registerType_registers:
  "\<exists>s'. registerType ti s = (Inr (), s') \<and> grows s s' \<and> registered s' ti \<and> qTableSet s' = qTableSet s"
  by (auto simp: registerType_def Let_def qbind_def uniqueName_def grows_def registered_def set_insort_key map_of_eq_None_iff)

lemma nameOfType_registered: "registered s ti \<Longrightarrow> \<exists>name. nameOfType ti s = (Inr name, s)"
  using map_of_eq_None_iff [of "qTypes s" "typeSignature ti"] by (auto simp: nameOfType_def registered_def split: option.split)

fun schemas_registered :: "QueryCompiler \<Rightarrow> CheckedOp \<Rightarrow> bool" where
  "schemas_registered s (CFromTable name ti) = registered s ti"
| "schemas_registered s (CWhere cond c) = schemas_registered s c"
| "schemas_registered s (CMap positions ti c) = (registered s ti \<and> schemas_registered s c)"

lemma schemas_registered_grows: "grows s s' \<Longrightarrow> schemas_registered s c \<Longrightarrow> schemas_registered s' c"
  by (induction c) (auto intro: registered_grows)

definition checked :: "PFabricContext \<Rightarrow> PlanOp \<Rightarrow> QueryCompiler \<Rightarrow> (qc_error + CheckedOp) \<times> QueryCompiler \<Rightarrow> bool" where
  "checked ctx p s r \<longleftrightarrow> grows s (snd r) \<and> qc_inv ctx (snd r) \<and>
     (case fst r of Inl e \<Rightarrow> plan_schema ctx p = None | Inr c \<Rightarrow> plan_schema ctx p = Some (outputSchema c) \<and> schemas_registered (snd r) c)"

lemma checkPlan_from:
  assumes "qc_inv ctx s"
  shows "checked ctx (FromTable_Op name) s (checkPlan ctx (FromTable_Op name) s)"
proof (cases "\<exists>ti. getTableInfo name ctx = Inr (Some ti)")
  case True
  then obtain ti where ti: "getTableInfo name ctx = Inr (Some ti)" by blast
  define s1 where "s1 = s\<lparr>qTableSet := (if name \<in> set (qTableSet s) then qTableSet s else insort name (qTableSet s))\<rparr>"
  obtain s' where s': "registerType ti s1 = (Inr (), s')" "grows s1 s'" "registered s' ti" "qTableSet s' = qTableSet s1"
    using registerType_registers by blast
  have t: "set (qTableSet s1) = insert name (set (qTableSet s))" by (auto simp: s1_def set_insort_key)
  have g: "grows s s1" using t by (auto simp: grows_def s1_def)
  have "qc_inv ctx s'" using assms ti s' t registered_grows [OF grows_trans [OF g s'(2)]] unfolding qc_inv_def by force
  moreover have "checkPlan ctx (FromTable_Op name) s = (Inr (CFromTable name ti), s')"
    using s'(1) by (simp add: ti qbind_def qret_def s1_def)
  ultimately show ?thesis using grows_trans [OF g s'(2)] s'(3) by (simp add: checked_def ti)
qed (use assms in \<open>auto simp: checked_def qthrow_def split: sum.split option.split\<close>)

lemma checkPlan_checked:
  assumes "qc_inv ctx s"
  shows "checked ctx p s (checkPlan ctx p s)"
proof (induction p)
  case (FromTable_Op name)
  show ?case by (rule checkPlan_from [OF assms])
next
  case (Where_Op cond child)
  obtain r s' where r: "checkPlan ctx child s = (r, s')" by fastforce
  show ?case
  proof (cases r)
    case (Inr c)
    then have "(\<exists>cond'. modifyWhereExpression (outputSchema c) cond = Inr cond') \<longleftrightarrow> set (condition_columns cond) \<subseteq> names (outputSchema c)"
      by (intro modifyWhereExpression_ok)
    then show ?thesis using Where_Op r Inr
      by (cases "modifyWhereExpression (outputSchema c) cond") (auto simp: checked_def qbind_def qthrow_def qret_def)
  qed (use Where_Op r in \<open>simp add: checked_def qbind_def\<close>)
next
  case (Map_Op columns child)
  obtain r s' where r: "checkPlan ctx child s = (r, s')" by fastforce
  show ?case
  proof (cases r)
    case (Inr c)
    obtain s'' where s'': "registerType empty_schema s' = (Inr (), s'')" "grows s' s''" "registered s'' empty_schema" "qTableSet s'' = qTableSet s'"
      using registerType_registers by blast
    have c: "grows s s'" "qc_inv ctx s'" "schemas_registered s' c" "plan_schema ctx child = Some (outputSchema c)"
      using Map_Op by (simp_all add: r Inr checked_def)
    have k: "grows s s''" "schemas_registered s'' c"
      by (rule grows_trans [OF c(1) s''(2)], rule schemas_registered_grows [OF s''(2) c(3)])
    have "qc_inv ctx s''" using c(2) registered_grows [OF s''(2)] s''(4) unfolding qc_inv_def by metis
    then show ?thesis using c(4) k s'' constructMapSchema_ok [of "outputSchema c" columns]
      by (cases "constructMapSchema (outputSchema c) columns") (use c in \<open>auto simp: r Inr checked_def qbind_def qthrow_def qret_def\<close>)
  qed (use Map_Op r in \<open>simp add: checked_def qbind_def\<close>)
qed

lemma generateTables_total:
  assumes "\<forall>t\<in>set tbls. \<exists>ti. getTableInfo t ctx = Inr (Some ti) \<and> registered s ti"
  shows "\<exists>code. generateTables ctx tbls s = (Inr code, s)"
  using assms
proof (induction tbls)
  case (Cons t tbls)
  then obtain ti name code where "getTableInfo t ctx = Inr (Some ti)" "nameOfType ti s = (Inr name, s)" "generateTables ctx tbls s = (Inr code, s)"
    using nameOfType_registered by fastforce
  then show ?case by (simp add: qbind_def qret_def)
qed (simp add: qret_def)

lemma generateOps_total: "schemas_registered s c \<Longrightarrow> \<exists>code. generateOps c s = (Inr code, s)"
proof (induction c)
  case (CFromTable name ti)
  then show ?case using nameOfType_registered [of s ti] by (auto simp: qbind_def qret_def)
next
  case (CWhere cond c)
  then show ?case by (auto simp: qbind_def qret_def)
next
  case (CMap positions ti c)
  then show ?case using nameOfType_registered [of s ti] by (auto simp: qbind_def qret_def)
qed

lemma generateQuery_total:
  "qc_inv ctx s \<Longrightarrow> schemas_registered s c \<Longrightarrow> \<exists>code. generateQuery ctx c s = (Inr code, s)"
  using generateTables_total [of "qTableSet s" ctx s] generateOps_total [of s c]
  by (auto simp: qc_inv_def generateQuery_def qbind_def qret_def)

lemma compileQuery_run:
  assumes "qc_inv ctx s"
  shows "case compileQuery parse ctx q s of
      (Inl e, s') \<Rightarrow> (parse q = Inl e \<or> (\<exists>qr. parse q = Inr qr \<and> plan_schema ctx (constructFromSQLQuery qr) = None)) \<and> grows s s' \<and> qc_inv ctx s'
    | (Inr lib, s') \<Rightarrow> (\<exists>qr. parse q = Inr qr \<and> plan_schema ctx (constructFromSQLQuery qr) \<noteq> None) \<and> qc_inv ctx s' \<and> qCache s' = qCache s \<and>
        qLog s' = qLog s @ [Compile lib]"
proof (cases "parse q")
  case (Inl e)
  then show ?thesis using assms by (simp add: compileQuery_def qthrow_def)
next
  case (Inr qr)
  obtain r s1 where r: "checkPlan ctx (constructFromSQLQuery qr) s = (r, s1)" by fastforce
  note c = checkPlan_checked [OF assms, of "constructFromSQLQuery qr", unfolded r checked_def fst_conv snd_conv]
  show ?thesis
  proof (cases r)
    case (Inl e)
    then show ?thesis using c Inr r by (simp add: compileQuery_def qbind_def)
  next
    case (Inr plan)
    define s2 where "s2 = s1\<lparr>qCounter := qCounter s1 + 1\<rparr>"
    have "registered s2 ti = registered s1 ti" for ti by (simp add: registered_def s2_def)
    then have "schemas_registered s2 p = schemas_registered s1 p" "qc_inv ctx s2 = qc_inv ctx s1" for p
      by (induction p) (simp_all add: qc_inv_def s2_def)
    then obtain code where "generateQuery ctx plan s2 = (Inr code, s2)"
      using c Inr generateQuery_total [of ctx s2 plan] by auto
    moreover have "uniqueName ''Query'' s1 = (Inr (''Query_'' @ to_string (unat (qCounter s1 + 1))), s2)"
      by (simp add: uniqueName_def s2_def)
    ultimately show ?thesis using c Inr r \<open>parse q = Inr qr\<close>
      by (auto simp: compileQuery_def qbind_def generateCode_def compileCppCode_def grows_def qc_inv_def registered_def s2_def)
  qed
qed

text \<open>The queries that can be answered from the schemas of the context.\<close>

definition answerable :: "PFabricContext \<Rightarrow> SQLQuery \<Rightarrow> bool" where
  "answerable ctx q \<longleftrightarrow> (\<exists>ti. getTableInfo (fromTable q) ctx = Inr (Some ti) \<and>
     (case whereClause q of Some cond \<Rightarrow> set (condition_columns cond) \<subseteq> names ti | None \<Rightarrow> True) \<and>
     (columnList q = [''*''] \<or> set (columnList q) \<subseteq> names ti))"

lemma plan_schema_answerable: "plan_schema ctx (constructFromSQLQuery q) = None \<longleftrightarrow> \<not> answerable ctx q"
  by (auto simp: constructFromSQLQuery_def answerable_def Let_def split: option.split sum.split)

text \<open>
  (C26) A query is compiled exactly if it parses, its table exists and has a schema, and all
  columns it names are columns of that table: nothing else can fail, in particular no
  name of a type is missing when the code is generated. The invariant of the compiler holds
  afterwards in any case, so this also holds for the queries that follow; the compiler is
  called exactly once by a query that compiles and not at all by one that does not.
\<close>

theorem query_compiles_iff:
  assumes "qc_inv ctx s"
  shows "((\<exists>lib. fst (compileQuery parse ctx q s) = Inr lib) \<longleftrightarrow> (\<exists>qr. parse q = Inr qr \<and> answerable ctx qr)) \<and>
    qc_inv ctx (snd (compileQuery parse ctx q s)) \<and>
    qLog (snd (compileQuery parse ctx q s)) =
      qLog s @ (case fst (compileQuery parse ctx q s) of Inl e \<Rightarrow> [] | Inr lib \<Rightarrow> [Compile lib])"
proof -
  obtain r s' where r: "compileQuery parse ctx q s = (r, s')" by fastforce
  note run = compileQuery_run [OF assms, of parse q, unfolded r prod.case plan_schema_answerable]
  show ?thesis
  proof (cases r)
    case (Inl e)
    then show ?thesis using run by (auto simp: r grows_def)
  next
    case (Inr lib)
    then show ?thesis using run by (auto simp: r)
  qed
qed

section \<open>The cache and the names of libraries\<close>

text \<open>The cache is kept, and at most \<open>n\<close> names are used up.\<close>

definition uses :: "nat \<Rightarrow> QueryCompiler \<Rightarrow> QueryCompiler \<Rightarrow> bool" where
  "uses n s s' \<longleftrightarrow> qCache s' = qCache s \<and> (\<exists>k\<le>n. qCounter s' = qCounter s + of_nat k)"

lemma uses_refl [simp]: "uses n s s"
  by (auto simp: uses_def intro!: exI [of _ 0])

lemma uses_trans: "uses m s s' \<Longrightarrow> uses n s' s'' \<Longrightarrow> uses (m + n) s s''"
  unfolding uses_def by (metis (no_types, lifting) ab_semigroup_add_class.add_ac(1) add_mono of_nat_add)

lemma uses_mono: "uses m s s' \<Longrightarrow> m \<le> n \<Longrightarrow> uses n s s'"
  unfolding uses_def using order_trans by blast

lemma registerType_uses: "uses 1 s (snd (registerType ti s))"
proof -
  have "\<exists>k\<le>1. qCounter s + 1 = qCounter s + of_nat k" by (intro exI [of _ 1]) simp
  then show ?thesis by (simp add: registerType_def Let_def qbind_def uniqueName_def uses_def) (auto intro: exI [of _ 0])
qed

fun plan_names :: "PlanOp \<Rightarrow> nat" where
  "plan_names (FromTable_Op name) = 1"
| "plan_names (Where_Op cond child) = plan_names child"
| "plan_names (Map_Op columns child) = plan_names child + 1"

lemma checkPlan_uses: "uses (plan_names p) s (snd (checkPlan ctx p s))"
proof (induction p)
  case (FromTable_Op name)
  define s1 where "s1 = s\<lparr>qTableSet := (if name \<in> set (qTableSet s) then qTableSet s else insort name (qTableSet s))\<rparr>"
  show ?case
  proof (cases "\<exists>ti. getTableInfo name ctx = Inr (Some ti)")
    case True
    then obtain ti where ti: "getTableInfo name ctx = Inr (Some ti)" by blast
    obtain s' where s': "registerType ti s1 = (Inr (), s')" using registerType_registers [of ti s1] by blast
    then have "checkPlan ctx (FromTable_Op name) s = (Inr (CFromTable name ti), s')"
      by (simp add: ti qbind_def qret_def s1_def)
    moreover have "uses 1 s s'" using registerType_uses [of s1 ti] s' by (simp add: uses_def s1_def)
    ultimately show ?thesis by simp
  qed (auto simp: qthrow_def split: sum.split option.split)
next
  case (Where_Op cond child)
  then show ?case by (auto simp: qthrow_def qret_def qbind_def split: sum.split prod.split)
next
  case (Map_Op columns child)
  obtain r s' where r: "checkPlan ctx child s = (r, s')" by fastforce
  have u: "uses (plan_names child + 1) s s'" "uses (plan_names child + 1) s (snd (registerType empty_schema s'))"
    using Map_Op r uses_mono [of "plan_names child" s s'] uses_trans [OF _ registerType_uses] by auto
  obtain q s'' where q: "registerType empty_schema s' = (q, s'')" by fastforce
  show ?case using u q by (auto simp: r qthrow_def qret_def qbind_def split: sum.split)
qed

lemma generateTables_state: "snd (generateTables ctx tbls s) = s"
  by (induction tbls) (auto simp: qret_def qthrow_def qbind_def nameOfType_def split: sum.split option.split prod.split)

lemma generateOps_state: "snd (generateOps c s) = s"
  by (induction c) (auto simp: qret_def qthrow_def qbind_def nameOfType_def split: sum.split option.split prod.split)

lemma generateQuery_state: "snd (generateQuery ctx c s) = s"
  using generateTables_state [of ctx "qTableSet s" s] generateOps_state [of c s]
  by (auto simp: generateQuery_def qret_def qbind_def split: sum.split prod.split)

lemma before_cpp_id: "CHR ''.'' \<notin> set s \<Longrightarrow> before_cpp s = s"
  by (induction s) auto

lemma plan_names_query: "plan_names (constructFromSQLQuery q) \<le> 2"
  by (simp add: constructFromSQLQuery_def Let_def split: option.split)

lemma uses_counter: "uses n s s1 \<Longrightarrow> qCache s2 = qCache s1 \<Longrightarrow> qCounter s2 = qCounter s1 + 1 \<Longrightarrow> uses (n + 1) s s2 \<and> (unat (qCounter s) + n + 1 < 2 ^ 32 \<longrightarrow> unat (qCounter s) < unat (qCounter s2))"
proof -
  assume a: "uses n s s1" "qCache s2 = qCache s1" "qCounter s2 = qCounter s1 + 1"
  then obtain k where k: "k \<le> n" "qCounter s2 = qCounter s + of_nat (Suc k)" by (auto simp: uses_def algebra_simps)
  have "uses 1 s1 s2" using a by (auto simp: uses_def intro!: exI [of _ 1])
  moreover have "unat (qCounter s2) = unat (qCounter s) + Suc k" if "unat (qCounter s) + n + 1 < 2 ^ 32"
    using k that by (simp add: unat_word_ariths unat_of_nat del: of_nat_Suc)
  ultimately show ?thesis using uses_trans [OF a(1), of 1 s2] by auto
qed

lemma compileQuery_uses:
  assumes "compileQuery parse ctx q s = (r, s')"
  shows "uses 3 s s'"
    and "r = Inr lib \<Longrightarrow> lib = ''Query_'' @ to_string (unat (qCounter s')) \<and> (unat (qCounter s) + 3 < 2 ^ 32 \<longrightarrow> unat (qCounter s) < unat (qCounter s'))"
proof -
  have "uses 3 s s' \<and> (\<forall>lib. r = Inr lib \<longrightarrow> lib = ''Query_'' @ to_string (unat (qCounter s')) \<and> (unat (qCounter s) + 3 < 2 ^ 32 \<longrightarrow> unat (qCounter s) < unat (qCounter s')))"
  proof (cases "parse q")
    case (Inl e)
    then show ?thesis using assms by (auto simp: compileQuery_def qthrow_def)
  next
    case (Inr qr)
    obtain c s1 where c: "checkPlan ctx (constructFromSQLQuery qr) s = (c, s1)" by fastforce
    have u: "uses 2 s s1" using checkPlan_uses [of "constructFromSQLQuery qr" s ctx] c uses_mono plan_names_query by force
    show ?thesis
    proof (cases c)
      case (Inl e)
      then show ?thesis using assms \<open>parse q = Inr qr\<close> c uses_mono [OF u, of 3] by (auto simp: compileQuery_def qbind_def)
    next
      case (Inr plan)
      define s2 where "s2 = s1\<lparr>qCounter := qCounter s1 + 1\<rparr>"
      obtain g where g: "generateQuery ctx plan s2 = (g, s2)" using generateQuery_state [of ctx plan s2] by (metis prod.collapse)
      have d: "CHR ''.'' \<notin> set (''Query_'' @ to_string n)" for n
        using to_string_digits [of "CHR ''.''" n] digit_char by fastforce
      have "uniqueName ''Query'' s1 = (Inr (''Query_'' @ to_string (unat (qCounter s2))), s2)" by (simp add: uniqueName_def s2_def)
      then have "qCache s' = qCache s1 \<and> qCounter s' = qCounter s1 + 1 \<and> (\<forall>lib. r = Inr lib \<longrightarrow> lib = ''Query_'' @ to_string (unat (qCounter s')))"
        using assms \<open>parse q = Inr qr\<close> c Inr g before_cpp_id [OF d]
        by (cases g) (auto simp: compileQuery_def qbind_def generateCode_def compileCppCode_def s2_def)
      then show ?thesis using uses_counter [OF u] by auto
    qed
  qed
  then show "uses 3 s s'" and "r = Inr lib \<Longrightarrow> lib = ''Query_'' @ to_string (unat (qCounter s')) \<and> (unat (qCounter s) + 3 < 2 ^ 32 \<longrightarrow> unat (qCounter s) < unat (qCounter s'))"
    by auto
qed

text \<open>Queries one after the other; the context may change in between.\<close>

fun exec_all :: "(string \<Rightarrow> qc_error + SQLQuery) \<Rightarrow> (string \<Rightarrow> bool) \<Rightarrow> (string \<Rightarrow> qc_error option) \<Rightarrow> (PFabricContext \<times> string) list \<Rightarrow> QueryCompiler \<Rightarrow> QueryCompiler" where
  "exec_all parse loadable creates [] s = s"
| "exec_all parse loadable creates ((ctx, q) # qs) s = exec_all parse loadable creates qs (snd (execQuery parse loadable creates ctx q s))"

lemma execQuery_cases:
  assumes "execQuery parse loadable creates ctx q s = (r, s')"
  obtains (cached) lib where "map_of (qCache s) q = Some lib" "r = Inr lib" "s' = s\<lparr>qLog := qLog s @ [StartTopology lib]\<rparr>"
    | (failed) e where "map_of (qCache s) q = None" "r = Inl e" "uses 3 s s'"
    | (compiled) lib s1 where "map_of (qCache s) q = None" "r = Inr lib" "compileQuery parse ctx q s = (Inr lib, s1)"
        "qCache s' = (q, lib) # qCache s" "qCounter s' = qCounter s1"
proof (cases "map_of (qCache s) q")
  case (Some lib)
  then show ?thesis using assms cached by (simp add: execQuery_def findPlanForQuery_def)
next
  case None
  obtain c s1 where c: "compileQuery parse ctx q s = (c, s1)" by fastforce
  note u = compileQuery_uses (1) [OF c]
  show ?thesis
  proof (cases "\<exists>lib. c = Inr lib \<and> loadable lib \<and> creates lib = None")
    case True
    then obtain lib where "c = Inr lib" "loadable lib" "creates lib = None" by blast
    moreover have "qCache s1 = qCache s" using u by (simp add: uses_def)
    ultimately show ?thesis using compiled [OF None, of lib s1] assms None c
      by (auto simp: execQuery_def findPlanForQuery_def qbind_def addToCache_def)
  next
    case False
    have "uses 3 s (s1\<lparr>qLog := l\<rparr>)" for l using u by (simp add: uses_def)
    then show ?thesis using False failed [OF None] assms None c u
      by (auto simp: execQuery_def findPlanForQuery_def qbind_def split: sum.splits if_splits option.splits)
  qed
qed

lemma execQuery_keeps_cache: "map_of (qCache s) q = Some lib \<Longrightarrow> map_of (qCache (snd (execQuery parse loadable creates ctx q' s))) q = Some lib"
proof -
  assume a: "map_of (qCache s) q = Some lib"
  obtain r s' where e: "execQuery parse loadable creates ctx q' s = (r, s')" by fastforce
  then have "map_of (qCache s') q = Some lib" by (cases rule: execQuery_cases) (use a in \<open>auto simp: uses_def\<close>)
  then show ?thesis by (simp add: e)
qed

lemma exec_all_keeps_cache: "map_of (qCache s) q = Some lib \<Longrightarrow> map_of (qCache (exec_all parse loadable creates qs s)) q = Some lib"
  by (induction parse loadable creates qs s rule: exec_all.induct) (simp_all add: execQuery_keeps_cache)

text \<open>
  (C37) A query string is compiled at most once: after it was executed successfully, every
  later execution of the same string, whatever was executed in between and even if its
  tables are gone from the context, starts the topology of the cached library and does
  nothing else.
\<close>

theorem cached_query_not_recompiled:
  assumes "execQuery parse loadable creates ctx q s = (Inr lib, s1)"
  shows "execQuery parse' loadable' creates' ctx' q (exec_all parse loadable creates qs s1) =
    (Inr lib, (exec_all parse loadable creates qs s1)\<lparr>qLog := qLog (exec_all parse loadable creates qs s1) @ [StartTopology lib]\<rparr>)"
proof -
  have "map_of (qCache s1) q = Some lib" using assms by (cases rule: execQuery_cases) auto
  then have "map_of (qCache (exec_all parse loadable creates qs s1)) q = Some lib" by (rule exec_all_keeps_cache)
  then show ?thesis by (simp add: execQuery_def findPlanForQuery_def)
qed

text \<open>The libraries of the cache carry distinct numbers up to the counter.\<close>

definition cache_inv :: "QueryCompiler \<Rightarrow> bool" where
  "cache_inv s \<longleftrightarrow> distinct (map snd (qCache s)) \<and> (\<forall>(q, lib)\<in>set (qCache s). \<exists>k\<le>unat (qCounter s). lib = ''Query_'' @ to_string k)"

lemma to_string_inj: "to_string m = to_string n \<longleftrightarrow> m = n"
  using digits_to_string by (metis of_nat_eq_iff)

lemma uses_bound:
  assumes "uses n s s'" and "unat (qCounter s) + n < 2 ^ 32"
  shows "unat (qCounter s') \<le> unat (qCounter s) + n" "unat (qCounter s) \<le> unat (qCounter s')"
proof -
  obtain k where k: "k \<le> n" "qCounter s' = qCounter s + of_nat k" using assms(1) by (auto simp: uses_def)
  have "unat (qCounter s') = unat (qCounter s) + k" using k assms(2) by (simp add: unat_word_ariths unat_of_nat)
  then show "unat (qCounter s') \<le> unat (qCounter s) + n" "unat (qCounter s) \<le> unat (qCounter s')" using k by auto
qed

lemma cache_inv_mono: "cache_inv s \<Longrightarrow> qCache s' = qCache s \<Longrightarrow> unat (qCounter s) \<le> unat (qCounter s') \<Longrightarrow> cache_inv s'"
  unfolding cache_inv_def using order_trans by (force simp: split_def)

lemma cache_inv_add:
  assumes "cache_inv s" and "unat (qCounter s) < unat (qCounter s')" and "qCache s' = (q, ''Query_'' @ to_string (unat (qCounter s'))) # qCache s"
  shows "cache_inv s'"
proof -
  have k: "\<exists>k\<le>unat (qCounter s). lib = ''Query_'' @ to_string k" if "(q, lib) \<in> set (qCache s)" for q lib
    using assms(1) that by (auto simp: cache_inv_def)
  have "(p, ''Query_'' @ to_string (unat (qCounter s'))) \<notin> set (qCache s)" for p
    using k [of p "''Query_'' @ to_string (unat (qCounter s'))"] assms(2) by (auto simp: to_string_inj)
  then have "''Query_'' @ to_string (unat (qCounter s')) \<notin> snd ` set (qCache s)" by fastforce
  moreover have "\<exists>k\<le>unat (qCounter s'). lib = ''Query_'' @ to_string k" if "(q, lib) \<in> set (qCache s)" for q lib
  proof -
    obtain j where "j \<le> unat (qCounter s)" "lib = ''Query_'' @ to_string j" using k [OF \<open>(q, lib) \<in> set (qCache s)\<close>] by blast
    then show ?thesis using assms(2) by (intro exI [of _ j]) simp
  qed
  ultimately show ?thesis using assms(1,3) by (auto simp: cache_inv_def)
qed

lemma execQuery_cache_inv:
  assumes "cache_inv s" and "unat (qCounter s) + 3 < 2 ^ 32" and e: "execQuery parse loadable creates ctx q s = (r, s')"
  shows "cache_inv s'" "unat (qCounter s') \<le> unat (qCounter s) + 3"
proof -
  have "cache_inv s' \<and> unat (qCounter s') \<le> unat (qCounter s) + 3"
    using e
  proof (cases rule: execQuery_cases)
    case cached
    then show ?thesis using assms(1) by (simp add: cache_inv_def)
  next
    case failed
    then show ?thesis using uses_bound [OF failed(3) assms(2)] cache_inv_mono [OF assms(1)] by (auto simp: uses_def)
  next
    case (compiled lib s1)
    note u = compileQuery_uses [OF compiled(3)]
    show ?thesis
      using uses_bound(1) [OF u(1) assms(2)] u(2) [OF refl] assms(2) cache_inv_add [OF assms(1), of s' q] compiled(4,5) by simp
  qed
  then show "cache_inv s'" "unat (qCounter s') \<le> unat (qCounter s) + 3" by auto
qed

lemma exec_all_cache_inv:
  "cache_inv s \<Longrightarrow> unat (qCounter s) + 3 * length qs < 2 ^ 32 \<Longrightarrow> cache_inv (exec_all parse loadable creates qs s)"
proof (induction parse loadable creates qs s rule: exec_all.induct)
  case (2 parse loadable creates ctx q qs s)
  obtain r s' where e: "execQuery parse loadable creates ctx q s = (r, s')" by fastforce
  have "unat (qCounter s) + 3 < 2 ^ 32" using 2(3) by simp
  note s' = execQuery_cache_inv [OF 2(2) this e]
  show ?case using 2(1) s' 2(3) by (simp add: e)
qed simp

text \<open>
  Distinct queries of the cache have distinct libraries, as long as the \<open>unsigned int\<close> counter
  of the name generator does not wrap: after fewer than \<open>2^32 / 3\<close> executions from a new compiler,
  since one execution uses up at most three names, whether it succeeds or not.
\<close>

theorem cached_libraries_distinct:
  assumes "3 * length qs < 2 ^ 32"
  shows "inj_on (map_of (qCache (exec_all parse loadable creates qs QueryCompiler_new)))
    (dom (map_of (qCache (exec_all parse loadable creates qs QueryCompiler_new))))"
proof -
  have "cache_inv QueryCompiler_new" by (simp add: cache_inv_def QueryCompiler_new_def)
  then have d: "distinct (map snd (qCache (exec_all parse loadable creates qs QueryCompiler_new)))"
    using exec_all_cache_inv [of QueryCompiler_new qs] assms by (simp add: QueryCompiler_new_def cache_inv_def)
  have "(q1, lib) \<in> set c \<Longrightarrow> (q2, lib) \<in> set c \<Longrightarrow> q1 = q2" if "distinct (map snd c)" for q1 q2 lib and c :: "(string \<times> string) list"
    using that by (induction c) (auto simp: image_iff)
  then show ?thesis using d by (fastforce intro!: inj_onI dest: map_of_SomeD)
qed

section \<open>Examples and deviations\<close>

definition ex_schema :: TableInfo where
  "ex_schema = \<lparr>mName = ''t'', mColumns = [\<lparr>mColName = ''a'', mColType = Int_Type\<rparr>, \<lparr>mColName = ''b'', mColType = String_Type\<rparr>], mKeyType = Int_Type\<rparr>"

definition ex_ctx :: PFabricContext where
  "ex_ctx = \<lparr>mTableSet = [(''t'', \<lparr>tclass = HashTable, recType = ''r'', keyType = ''int'', tableInfo = Some ex_schema\<rparr>)], mStreamSet = [], nextOp = 0\<rparr>"

definition ex_parse :: "string \<Rightarrow> qc_error + SQLQuery" where
  "ex_parse q = (if q = ''select * from t''
     then Inr \<lparr>columnList = [''*''], fromTable = ''t'', whereClause = None\<rparr> else Inl (QueryCompileException ''parsing failed''))"

lemma ex_query:
  "\<exists>qr. ex_parse ''select * from t'' = Inr qr \<and> answerable ex_ctx qr" "qc_inv ex_ctx QueryCompiler_new"
  by (simp_all add: ex_parse_def answerable_def getTableInfo_def ex_ctx_def qc_inv_def QueryCompiler_new_def)

theorem query_compiles_iff_witness:
  "qc_inv ex_ctx QueryCompiler_new \<and> (\<exists>lib. fst (compileQuery ex_parse ex_ctx ''select * from t'' QueryCompiler_new) = Inr lib)"
  using query_compiles_iff [OF ex_query(2), of ex_parse "''select * from t''"] ex_query by blast

lemma ex_exec:
  "\<exists>lib s1. execQuery ex_parse (\<lambda>lib. True) (\<lambda>lib. None) ex_ctx ''select * from t'' QueryCompiler_new = (Inr lib, s1)"
proof -
  obtain c s1 where c: "compileQuery ex_parse ex_ctx ''select * from t'' QueryCompiler_new = (c, s1)" by fastforce
  then obtain lib where "c = Inr lib"
    using compileQuery_run [OF ex_query(2), of ex_parse "''select * from t''"] ex_query(1) plan_schema_answerable by (cases c) auto
  then show ?thesis using c by (simp add: execQuery_def findPlanForQuery_def qbind_def QueryCompiler_new_def)
qed

theorem cached_query_not_recompiled_witness:
  "\<exists>lib s1. execQuery ex_parse (\<lambda>lib. True) (\<lambda>lib. None) ex_ctx ''select * from t'' QueryCompiler_new = (Inr lib, s1) \<and>
     fst (execQuery ex_parse (\<lambda>lib. False) (\<lambda>lib. None) PFabricContext_new ''select * from t''
       (exec_all ex_parse (\<lambda>lib. True) (\<lambda>lib. None) [(ex_ctx, ''select a from t'')] s1)) = Inr lib"
proof -
  obtain lib s1 where e: "execQuery ex_parse (\<lambda>lib. True) (\<lambda>lib. None) ex_ctx ''select * from t'' QueryCompiler_new = (Inr lib, s1)"
    using ex_exec by blast
  show ?thesis using cached_query_not_recompiled [OF e, of ex_parse "\<lambda>lib. False" "\<lambda>lib. None" PFabricContext_new "[(ex_ctx, ''select a from t'')]"] e
    by (intro exI [of _ lib] exI [of _ s1]) (simp del: exec_all.simps)
qed

theorem cached_libraries_distinct_witness:
  "inj_on (map_of (qCache (exec_all ex_parse (\<lambda>lib. True) (\<lambda>lib. None) [(ex_ctx, ''select * from t''), (ex_ctx, ''x'')] QueryCompiler_new)))
    (dom (map_of (qCache (exec_all ex_parse (\<lambda>lib. True) (\<lambda>lib. None) [(ex_ctx, ''select * from t''), (ex_ctx, ''x'')] QueryCompiler_new))))"
  by (rule cached_libraries_distinct) simp

text \<open>A new table of the context does not disturb the compiler.\<close>

lemma qc_inv_register: "register_table n tbl ctx = Inr (ctx', tbl') \<Longrightarrow> qc_inv ctx s \<Longrightarrow> qc_inv ctx' s"
proof -
  assume "register_table n tbl ctx = Inr (ctx', tbl')" and i: "qc_inv ctx s"
  then have "getTableInfo t ctx = Inr (Some ti) \<Longrightarrow> getTableInfo t ctx' = Inr (Some ti)" for t ti
    by (auto simp: register_table_def getTableInfo_def split: option.splits if_splits)
  then show ?thesis using i unfolding qc_inv_def by blast
qed

text \<open>
  The result type of every query with a list of columns is the empty tuple, since the columns of
  its schema are never set: the function that is generated returns a tuple of another type.
\<close>

lemma map_result_is_empty_tuple:
  "checkPlan ctx (Map_Op columns child) s = (Inr c, s') \<Longrightarrow> generateTypeDef (outputSchema c) = ''TuplePtr<>''"
  by (auto simp: qbind_def qret_def qthrow_def generateTypeDef_def empty_schema_def split: prod.splits sum.splits)

text \<open>An unknown column of a condition is reported as \<open>std::out_of_range\<close>, one of the column list as \<open>QueryCompileException\<close>.\<close>

lemma unknown_column_in_condition: "modifyWhereExpression ti cond = Inl e \<Longrightarrow> e = OutOfRange"
proof -
  have "(mapColumn cm operand = Inl e \<longrightarrow> e = OutOfRange)" "(mapOperations cm ops = Inl e \<longrightarrow> e = OutOfRange)" for cm operand ops
    by (induction cm operand and cm ops rule: mapColumn_mapOperations.induct) (auto split: option.split sum.split)
  then show "modifyWhereExpression ti cond = Inl e \<Longrightarrow> e = OutOfRange"
    by (auto simp: modifyWhereExpression_def Let_def split: sum.splits)
qed

lemma unknown_column_in_list: "constructMapSchema ti cs = Inl e \<Longrightarrow> e = QueryCompileException ''unknown column''"
  by (induction ti cs rule: constructMapSchema.induct) (auto simp: Let_def split: if_splits sum.splits)

text \<open>With two columns of one name, a condition reads the last and a list of columns the first.\<close>

lemma duplicate_column_positions:
  assumes "mColumns ti = cols @ [\<lparr>mColName = n, mColType = t\<rparr>]" and "n \<in> mColName ` set cols"
  shows "columnMap (mColumns ti) 0 Map.empty n = Some (int (length cols))" "findColumnByName ti n < int (length cols)"
proof -
  have "columnMap (cols @ [\<lparr>mColName = n, mColType = t\<rparr>]) i m n = Some (i + int (length cols))" for i m
    by (induction cols i m rule: columnMap.induct) (simp, simp del: fun_upd_apply)
  then show "columnMap (mColumns ti) 0 Map.empty n = Some (int (length cols))" by (simp add: assms(1))
  have "find_column n (cols @ ds) i < i + int (length cols)" for ds i
    using assms(2)
  proof (induction cols arbitrary: i)
    case (Cons c cols)
    then show ?case using Cons.IH [of "i + 1"] by (auto simp: algebra_simps)
  qed simp
  then show "findColumnByName ti n < int (length cols)" using assms(1) by (metis add_0 findColumnByName_def)
qed

end
