(* ===== verification/Serializer.thy ===== *)
theory Serializer
  imports Pf_Prelude
begin

text \<open>
  The binary wire format: \<open>core/serialize.hpp\<close> (sizes, in-place writing through an iterator
  into a resized byte vector, and type-directed reading), the serialization of tuples
  (\<open>core/Tuple.hpp\<close>) and of punctuations (\<open>core/Punctuation.cpp\<close>), and the operator
  \<open>qop/TupleDeserializer.hpp\<close>. Values are described by their template type; an object of a
  trivially copyable type is its object representation, a list of \<open>sizeof\<close> bytes, on a
  little-endian machine with 64-bit \<open>size_t\<close>.
\<close>

section \<open>Bytes\<close>

type_synonym byte = "8 word"

text \<open>The object representation of an unsigned integer of \<open>n\<close> bytes.\<close>

fun to_bytes :: "nat \<Rightarrow> nat \<Rightarrow> byte list" where
  "to_bytes 0 x = []"
| "to_bytes (Suc n) x = of_nat (x mod 256) # to_bytes n (x div 256)"

fun from_bytes :: "byte list \<Rightarrow> nat" where
  "from_bytes [] = 0"
| "from_bytes (b # bs) = unat b + 256 * from_bytes bs"

text \<open>Types and values.\<close>

datatype sty = TScalar nat | TString | TVector sty | TTuple "sty list"

datatype sval = SScalar "byte list" | SString "byte list" | SVector "sval list" | STuple "sval list"

text \<open>\<open>sizeof(size_t)\<close>.\<close>

definition size_t :: nat where
  "size_t = 8"

section \<open>Writing\<close>

fun get_size :: "sval \<Rightarrow> nat" where
  "get_size (SScalar bs) = length bs"
| "get_size (SString bs) = size_t + length bs"
| "get_size (SVector vs) = size_t + sum_list (map get_size vs)"
| "get_size (STuple vs) = sum_list (map get_size vs)"

text \<open>
  The output iterator is a position in the buffer. Copying past the end of the buffer is
  undefined.
\<close>

definition copy_bytes :: "byte list \<Rightarrow> byte list \<times> nat \<Rightarrow> (byte list \<times> nat) res" where
  "copy_bytes bs st =
     (case st of (buf, pos) \<Rightarrow>
        if pos + length bs \<le> length buf
        then Inr (take pos buf @ bs @ drop (pos + length bs) buf, pos + length bs)
        else Inl OutOfBounds)"

fun write_seq :: "(byte list \<times> nat \<Rightarrow> (byte list \<times> nat) res) list \<Rightarrow> byte list \<times> nat \<Rightarrow> (byte list \<times> nat) res" where
  "write_seq [] st = Inr st"
| "write_seq (f # fs) st = bind_res (f st) (write_seq fs)"

fun serializer :: "sval \<Rightarrow> byte list \<times> nat \<Rightarrow> (byte list \<times> nat) res" where
  "serializer (SScalar bs) st = copy_bytes bs st"
| "serializer (SString bs) st =
     bind_res (copy_bytes (to_bytes size_t (length bs)) st) (write_seq (map (\<lambda>b. copy_bytes [b]) bs))"
| "serializer (SVector vs) st =
     bind_res (copy_bytes (to_bytes size_t (length vs)) st) (write_seq (map (\<lambda>v. serializer v) vs))"
| "serializer (STuple vs) st = write_seq (map (\<lambda>v. serializer v) vs) st"

definition serialize :: "sval \<Rightarrow> byte list \<Rightarrow> byte list res" where
  "serialize obj res =
     (let offset = length res; sz = get_size obj
      in bind_res (serializer obj (res @ replicate sz 0, offset)) (\<lambda>(buf, it).
           if offset + sz = it then Inr buf else Inl AssertFailed))"

section \<open>Reading\<close>

text \<open>The input range \<open>[begin, end)\<close> is the list of the remaining bytes.\<close>

definition deserialize_scalar :: "nat \<Rightarrow> byte list \<Rightarrow> (byte list \<times> byte list) res" where
  "deserialize_scalar n inp = (if n \<le> length inp then Inr (take n inp, drop n inp) else Inl AssertFailed)"

fun read_n :: "nat \<Rightarrow> (byte list \<Rightarrow> ('v \<times> byte list) res) \<Rightarrow> byte list \<Rightarrow> ('v list \<times> byte list) res" where
  "read_n 0 f inp = Inr ([], inp)"
| "read_n (Suc n) f inp =
     bind_res (f inp) (\<lambda>(v, inp1). bind_res (read_n n f inp1) (\<lambda>(vs, inp2). Inr (v # vs, inp2)))"

fun read_seq :: "(byte list \<Rightarrow> ('v \<times> byte list) res) list \<Rightarrow> byte list \<Rightarrow> ('v list \<times> byte list) res" where
  "read_seq [] inp = Inr ([], inp)"
| "read_seq (f # fs) inp =
     bind_res (f inp) (\<lambda>(v, inp1). bind_res (read_seq fs inp1) (\<lambda>(vs, inp2). Inr (v # vs, inp2)))"

definition read_byte :: "byte list \<Rightarrow> (byte \<times> byte list) res" where
  "read_byte inp = bind_res (deserialize_scalar 1 inp) (\<lambda>(bs, inp1). Inr (hd bs, inp1))"

fun deserialize_helper :: "sty \<Rightarrow> byte list \<Rightarrow> (sval \<times> byte list) res" where
  "deserialize_helper (TScalar n) inp = bind_res (deserialize_scalar n inp) (\<lambda>(bs, inp1). Inr (SScalar bs, inp1))"
| "deserialize_helper TString inp =
     bind_res (deserialize_scalar size_t inp) (\<lambda>(n, inp1).
     bind_res (read_n (from_bytes n) read_byte inp1) (\<lambda>(bs, inp2). Inr (SString bs, inp2)))"
| "deserialize_helper (TVector t) inp =
     bind_res (deserialize_scalar size_t inp) (\<lambda>(n, inp1).
     bind_res (read_n (from_bytes n) (\<lambda>b. deserialize_helper t b) inp1) (\<lambda>(vs, inp2). Inr (SVector vs, inp2)))"
| "deserialize_helper (TTuple ts) inp =
     bind_res (read_seq (map (\<lambda>t b. deserialize_helper t b) ts) inp) (\<lambda>(vs, inp1). Inr (STuple vs, inp1))"

definition deserialize :: "sty \<Rightarrow> byte list \<Rightarrow> sval res" where
  "deserialize t res = bind_res (deserialize_helper t res) (\<lambda>(v, _). Inr v)"

section \<open>Types of values\<close>

fun has_type :: "sval \<Rightarrow> sty \<Rightarrow> bool" where
  "has_type (SScalar bs) (TScalar n) = (length bs = n)"
| "has_type (SString bs) TString = (length bs < 2 ^ 64)"
| "has_type (SVector vs) (TVector t) = (length vs < 2 ^ 64 \<and> list_all (\<lambda>v. has_type v t) vs)"
| "has_type (STuple vs) (TTuple ts) = (ts \<noteq> [] \<and> list_all2 (\<lambda>v t. has_type v t) vs ts)"
| "has_type _ _ = False"

text \<open>The bytes of a value, as the specification of the writer.\<close>

fun encode :: "sval \<Rightarrow> byte list" where
  "encode (SScalar bs) = bs"
| "encode (SString bs) = to_bytes size_t (length bs) @ bs"
| "encode (SVector vs) = to_bytes size_t (length vs) @ concat (map encode vs)"
| "encode (STuple vs) = concat (map encode vs)"

lemma to_bytes_length [simp]: "length (to_bytes n x) = n"
  by (induction n x rule: to_bytes.induct) auto

lemma from_to_bytes: "x < 256 ^ n \<Longrightarrow> from_bytes (to_bytes n x) = x"
proof (induction n arbitrary: x)
  case (Suc n)
  have "x div 256 < 256 ^ n" using Suc.prems by (simp add: less_mult_imp_div_less mult.commute)
  moreover have "unat (of_nat (x mod 256) :: byte) = x mod 256" by (simp add: unat_of_nat)
  ultimately show ?case using Suc.IH by simp
qed simp

lemma get_size_encode: "get_size v = length (encode v)"
  by (induction v rule: get_size.induct) (auto simp: length_concat intro!: arg_cong [where f = sum_list])

lemma copy_bytes_fits:
  "copy_bytes bs (pre @ gap @ post, length pre) = Inr (pre @ bs @ post, length pre + length bs)" if "length gap = length bs"
  using that by (simp add: copy_bytes_def)

section \<open>Writers and readers\<close>

text \<open>
  A writer for the bytes \<open>bs\<close> replaces a gap of the right size at the position of the
  iterator and moves the iterator behind it; a reader for \<open>bs\<close> consumes them from the front.
\<close>

definition writes :: "(byte list \<times> nat \<Rightarrow> (byte list \<times> nat) res) \<Rightarrow> byte list \<Rightarrow> bool" where
  "writes f bs \<longleftrightarrow> (\<forall>pre gap post. length gap = length bs \<longrightarrow>
     f (pre @ gap @ post, length pre) = Inr (pre @ bs @ post, length (pre @ bs)))"

definition reads :: "(byte list \<Rightarrow> ('v \<times> byte list) res) \<Rightarrow> 'v \<Rightarrow> byte list \<Rightarrow> bool" where
  "reads f v bs \<longleftrightarrow> (\<forall>rest. f (bs @ rest) = Inr (v, rest))"

lemma writes_copy: "writes (copy_bytes bs) bs"
  by (simp add: writes_def copy_bytes_fits)

lemma writes_bind:
  assumes f: "writes f as" and g: "writes g bs"
  shows "writes (\<lambda>st. bind_res (f st) g) (as @ bs)"
  unfolding writes_def
proof (intro allI impI)
  fix pre gap post :: "byte list" assume l: "length gap = length (as @ bs)"
  let ?g1 = "take (length as) gap" and ?g2 = "drop (length as) gap"
  have "f (pre @ ?g1 @ (?g2 @ post), length pre) = Inr (pre @ as @ (?g2 @ post), length (pre @ as))"
    using f l unfolding writes_def by simp
  moreover have "g ((pre @ as) @ ?g2 @ post, length (pre @ as)) = Inr ((pre @ as) @ bs @ post, length ((pre @ as) @ bs))"
    using g [unfolded writes_def, rule_format, of ?g2 "pre @ as" post] l by simp
  moreover have "pre @ gap @ post = pre @ ?g1 @ (?g2 @ post)" by simp
  ultimately show "bind_res (f (pre @ gap @ post, length pre)) g = Inr (pre @ (as @ bs) @ post, length (pre @ as @ bs))"
    by (metis append.assoc bind_res.simps(2))
qed

lemma writes_seq: "list_all2 writes fs bss \<Longrightarrow> writes (write_seq fs) (concat bss)"
proof (induction rule: list_all2_induct)
  case Nil
  show ?case by (simp add: writes_def)
next
  case (Cons f fs bs bss)
  have "write_seq (f # fs) = (\<lambda>st. bind_res (f st) (write_seq fs))" by (simp add: fun_eq_iff)
  then show ?case using writes_bind [OF Cons(1,3)] by simp
qed

lemma writes_serializer: "writes (serializer v) (encode v)"
proof (induction v)
  case (SScalar bs)
  have "serializer (SScalar bs) = copy_bytes bs" by (simp add: fun_eq_iff)
  then show ?case by (simp add: writes_copy)
next
  case (SString bs)
  have "list_all2 writes (map (\<lambda>b. copy_bytes [b]) bs) (map (\<lambda>b. [b]) bs)"
    by (simp add: list_all2_map1 list_all2_map2 list_all2_same writes_copy)
  from writes_bind [OF writes_copy writes_seq [OF this]] show ?case by simp
next
  case (SVector vs)
  then have "list_all2 writes (map serializer vs) (map encode vs)"
    by (simp add: list_all2_map1 list_all2_map2 list_all2_same)
  from writes_bind [OF writes_copy writes_seq [OF this]] show ?case by simp
next
  case (STuple vs)
  then have "list_all2 writes (map serializer vs) (map encode vs)"
    by (simp add: list_all2_map1 list_all2_map2 list_all2_same)
  from writes_seq [OF this] show ?case by simp
qed

lemma serialize_eq: "serialize v res = Inr (res @ encode v)"
proof -
  have "serializer v (res @ replicate (get_size v) 0 @ [], length res) = Inr (res @ encode v @ [], length (res @ encode v))"
    using writes_serializer [of v, unfolded writes_def, rule_format, of "replicate (get_size v) 0" res "[]"]
    by (simp add: get_size_encode)
  then show ?thesis by (simp add: serialize_def get_size_encode)
qed

lemma reads_scalar: "reads (deserialize_scalar (length bs)) bs bs"
  by (simp add: reads_def deserialize_scalar_def)

lemma reads_byte: "reads read_byte b [b]"
  by (simp add: reads_def read_byte_def deserialize_scalar_def)

lemma reads_n: "list_all2 (reads f) vs bss \<Longrightarrow> reads (read_n (length vs) f) vs (concat bss)"
  by (induction rule: list_all2_induct) (simp_all add: reads_def)

lemma reads_seq: "list_all2 (\<lambda>f (v, bs). reads f v bs) fs ps \<Longrightarrow> reads (read_seq fs) (map fst ps) (concat (map snd ps))"
  by (induction rule: list_all2_induct) (auto simp: reads_def)

lemma deserialize_length:
  "n < 2 ^ 64 \<Longrightarrow> deserialize_scalar size_t (to_bytes size_t n @ rest) = Inr (to_bytes size_t n, rest) \<and>
   from_bytes (to_bytes size_t n) = n"
  using from_to_bytes [of n size_t] by (simp add: deserialize_scalar_def) (simp add: size_t_def)

lemma reads_deserialize: "has_type v t \<Longrightarrow> reads (deserialize_helper t) v (encode v)"
proof (induction v t rule: has_type.induct)
  case (1 bs n)
  then show ?case by (simp add: reads_def deserialize_scalar_def)
next
  case (2 bs)
  have "list_all2 (reads read_byte) bs (map (\<lambda>b. [b]) bs)" by (simp add: list_all2_map2 list_all2_same reads_byte)
  then have "reads (read_n (length bs) read_byte) bs bs" using reads_n by fastforce
  then show ?case using 2 deserialize_length [of "length bs"] by (simp add: reads_def)
next
  case (3 vs t)
  then have "list_all2 (reads (deserialize_helper t)) vs (map encode vs)"
    by (simp add: list_all2_map2 list_all2_same list_all_iff)
  then have "reads (read_n (length vs) (deserialize_helper t)) vs (concat (map encode vs))" using reads_n by blast
  then show ?case using 3 deserialize_length [of "length vs"] by (simp add: reads_def)
next
  case (4 vs ts)
  then have l: "list_all2 has_type vs ts" by simp
  have "list_all2 (\<lambda>f (v, bs). reads f v bs) (map deserialize_helper ts) (map (\<lambda>v. (v, encode v)) vs)"
    unfolding list_all2_conv_all_nth
  proof (intro conjI allI impI)
    show "length (map deserialize_helper ts) = length (map (\<lambda>v. (v, encode v)) vs)" using l by (simp add: list_all2_lengthD)
    fix i assume i: "i < length (map deserialize_helper ts)"
    then have "has_type (vs ! i) (ts ! i)" and "i < length vs" using l by (auto simp: list_all2_conv_all_nth)
    then show "case map (\<lambda>v. (v, encode v)) vs ! i of (v, bs) \<Rightarrow> reads (map deserialize_helper ts ! i) v bs"
      using 4(1) [of "vs ! i" "ts ! i"] i by simp
  qed
  from reads_seq [OF this] have "reads (read_seq (map deserialize_helper ts)) vs (concat (map encode vs))" by (simp add: comp_def)
  then show ?case by (simp add: reads_def)
qed simp_all

end
