(* ===== verification/Tuples.thy ===== *)
theory Tuples
  imports Serializer
begin

text \<open>
  Tuples (\<open>core/Tuple.hpp\<close>, with the accessors of \<open>core/StreamElementTraits.hpp\<close>), the
  concatenation of two tuples (\<open>qop/EagerElementJoin.hpp\<close>), and the serialization of tuples
  and punctuations with the operator \<open>qop/TupleDeserializer.hpp\<close> that reads them back.
\<close>

section \<open>Tuples\<close>

record Tuple =
  attrs :: "sval list"
  mNulls :: "bool list"

text \<open>The constructor from attribute values, and the copy constructor.\<close>

definition Tuple_new :: "sval list \<Rightarrow> Tuple" where
  "Tuple_new args = \<lparr>attrs = args, mNulls = replicate (length args) False\<rparr>"

definition Tuple_copy :: "Tuple \<Rightarrow> Tuple" where
  "Tuple_copy tup = Tuple_new (attrs tup)"

definition num_attributes :: "Tuple \<Rightarrow> nat" where
  "num_attributes tup = length (attrs tup)"

text \<open>An attribute index out of range is rejected by the compiler.\<close>

definition getAttribute :: "nat \<Rightarrow> Tuple \<Rightarrow> sval res" where
  "getAttribute i tup = (if i < num_attributes tup then Inr (attrs tup ! i) else Inl AssertFailed)"

definition setAttribute :: "nat \<Rightarrow> sval \<Rightarrow> Tuple \<Rightarrow> Tuple res" where
  "setAttribute i v tup = (if i < num_attributes tup then Inr (tup\<lparr>attrs := (attrs tup)[i := v]\<rparr>) else Inl AssertFailed)"

definition setNull :: "nat \<Rightarrow> bool \<Rightarrow> Tuple \<Rightarrow> Tuple res" where
  "setNull i v tup = (if i < num_attributes tup then Inr (tup\<lparr>mNulls := (mNulls tup)[i := v]\<rparr>) else Inl AssertFailed)"

definition setNull_all :: "Tuple \<Rightarrow> Tuple" where
  "setNull_all tup = tup\<lparr>mNulls := replicate (num_attributes tup) True\<rparr>"

definition isNull :: "nat \<Rightarrow> Tuple \<Rightarrow> bool res" where
  "isNull i tup = (if i < num_attributes tup then Inr (mNulls tup ! i) else Inl AssertFailed)"

text \<open>\<open>impl::ElementsEqual\<close>: attribute by attribute from the last one, null bits ignored.\<close>

fun ElementsEqual :: "nat \<Rightarrow> Tuple \<Rightarrow> Tuple \<Rightarrow> bool" where
  "ElementsEqual 0 l r = True"
| "ElementsEqual (Suc i) l r = (attrs l ! i = attrs r ! i \<and> ElementsEqual i l r)"

definition elementsEqual :: "Tuple \<Rightarrow> Tuple \<Rightarrow> bool" where
  "elementsEqual l r = ElementsEqual (num_attributes l) l r"

text \<open>The two loops of \<open>EagerElementJoin::joinImpl\<close> that copy the null bits.\<close>

fun copy_nulls :: "Tuple \<Rightarrow> nat \<Rightarrow> nat list \<Rightarrow> Tuple \<Rightarrow> Tuple res" where
  "copy_nulls src off [] dst = Inr dst"
| "copy_nulls src off (i # is) dst =
     bind_res (isNull i src) (\<lambda>b. bind_res (setNull (i + off) b dst) (copy_nulls src off is))"

definition joinElements :: "Tuple \<Rightarrow> Tuple \<Rightarrow> Tuple res" where
  "joinElements l r =
     bind_res (copy_nulls l 0 [0..<num_attributes l] (Tuple_new (attrs l @ attrs r))) (\<lambda>j.
       copy_nulls r (num_attributes l) [0..<num_attributes r] j)"

section \<open>Serialization\<close>

text \<open>
  \<open>std::bitset<N>\<close> is an array of 64-bit words; its representation packs eight bits into a
  byte.
\<close>

definition bitset_size :: "nat \<Rightarrow> nat" where
  "bitset_size n = 8 * ((n + 63) div 64)"

definition bitset_bytes :: "bool list \<Rightarrow> byte list" where
  "bitset_bytes bs =
     map (\<lambda>k. horner_sum of_bool 2 (map (\<lambda>j. 8 * k + j < length bs \<and> bs ! (8 * k + j)) [0..<8])) [0..<bitset_size (length bs)]"

definition bitset_of :: "nat \<Rightarrow> byte list \<Rightarrow> bool list" where
  "bitset_of n bytes = map (\<lambda>i. bit (bytes ! (i div 8)) (i mod 8)) [0..<n]"

text \<open>\<open>enum class TupleType : Byte\<close>.\<close>

datatype TupleType = Normal | PunctuationType

fun tupleType_bytes :: "TupleType \<Rightarrow> byte list" where
  "tupleType_bytes Normal = [0]"
| "tupleType_bytes PunctuationType = [1]"

definition tuple_serializeToStream :: "Tuple \<Rightarrow> byte list \<Rightarrow> byte list res" where
  "tuple_serializeToStream tup res =
     bind_res (serialize (SScalar (tupleType_bytes Normal)) res) (\<lambda>r1.
     bind_res (serialize (STuple (attrs tup)) r1) (\<lambda>r2.
       serialize (SScalar (bitset_bytes (mNulls tup))) r2))"

text \<open>The type of the tuple is read and dropped; \<open>ts\<close> are the attribute types.\<close>

definition tuple_deserializeFromStream :: "sty list \<Rightarrow> byte list \<Rightarrow> Tuple res" where
  "tuple_deserializeFromStream ts res =
     bind_res (deserialize_helper (TScalar 1) res) (\<lambda>(_, r1).
     bind_res (deserialize_helper (TTuple ts) r1) (\<lambda>(d, r2).
     bind_res (deserialize_scalar (bitset_size (length ts)) r2) (\<lambda>(nb, _).
       case d of STuple vs \<Rightarrow> Inr \<lparr>attrs = vs, mNulls = bitset_of (length ts) nb\<rparr> | _ \<Rightarrow> Inl BadGet)))"

text \<open>The enumerators of \<open>Punctuation::PType\<close> as 32-bit integers.\<close>

fun ptype_code :: "PType \<Rightarrow> nat" where
  "ptype_code PNone = 0"
| "ptype_code EndOfStream = 1"
| "ptype_code EndOfSubStream = 2"
| "ptype_code WindowExpired = 4"
| "ptype_code SlideExpired = 8"
| "ptype_code TxBegin = 16"
| "ptype_code TxCommit = 32"
| "ptype_code TxAbort = 64"
| "ptype_code PAll = 2 ^ 32 - 1"

definition ptype_of :: "nat \<Rightarrow> PType option" where
  "ptype_of n = find (\<lambda>p. ptype_code p = n)
     [PNone, EndOfStream, EndOfSubStream, WindowExpired, SlideExpired, TxBegin, TxCommit, TxAbort, PAll]"

text \<open>
  A timestamp is a signed 64-bit count of microseconds. The user data of the punctuation is
  not written, and \<open>deserializeFromStream\<close> leaves the one of the receiving object.
\<close>

definition punct_serializeToStream :: "64 word \<Rightarrow> Punctuation \<Rightarrow> byte list \<Rightarrow> byte list res" where
  "punct_serializeToStream tstamp p res =
     bind_res (serialize (SScalar (tupleType_bytes PunctuationType)) res) (\<lambda>r1.
     bind_res (serialize (SScalar (to_bytes 8 (unat tstamp))) r1) (\<lambda>r2.
       serialize (SScalar (to_bytes 4 (ptype_code (mPtype p)))) r2))"

definition punct_deserializeFromStream :: "Punctuation \<Rightarrow> byte list \<Rightarrow> (64 word \<times> Punctuation) option res" where
  "punct_deserializeFromStream p res =
     bind_res (deserialize_scalar 1 res) (\<lambda>(_, r1).
     bind_res (deserialize_scalar 8 r1) (\<lambda>(t, r2).
     bind_res (deserialize_scalar 4 r2) (\<lambda>(c, _).
       Inr (map_option (\<lambda>pt. (of_nat (from_bytes t), p\<lparr>mPtype := pt\<rparr>)) (ptype_of (from_bytes c))))))"

text \<open>The deserializing operator.\<close>

fun deserializer_step :: "sty list \<Rightarrow> (unit, byte list, Tuple) opstep" where
  "deserializer_step ts u (Data buf outdated) =
     bind_res (tuple_deserializeFromStream ts buf) (\<lambda>tp. Inr (u, [Data tp outdated]))"
| "deserializer_step ts u (Punct p) = Inr (u, [Punct p])"

section \<open>Lemmas\<close>

definition tuple_ok :: "sty list \<Rightarrow> Tuple \<Rightarrow> bool" where
  "tuple_ok ts tup \<longleftrightarrow> has_type (STuple (attrs tup)) (TTuple ts) \<and> length (mNulls tup) = length (attrs tup)"

lemma bitset_bytes_length: "length (bitset_bytes bs) = bitset_size (length bs)"
  by (simp add: bitset_bytes_def)

lemma bitset_size_bound: "i < n \<Longrightarrow> i div 8 < bitset_size n"
  by (simp add: bitset_size_def)

lemma bitset_roundtrip: "bitset_of (length bs) (bitset_bytes bs) = bs"
proof (rule nth_equalityI)
  fix i assume "i < length (bitset_of (length bs) (bitset_bytes bs))"
  then have i: "i < length bs" by (simp add: bitset_of_def)
  have "bitset_bytes bs ! (i div 8) =
      horner_sum of_bool 2 (map (\<lambda>j. 8 * (i div 8) + j < length bs \<and> bs ! (8 * (i div 8) + j)) [0..<8])"
    using bitset_size_bound [OF i] by (simp add: bitset_bytes_def)
  then have "bit (bitset_bytes bs ! (i div 8)) (i mod 8) = (8 * (i div 8) + i mod 8 < length bs \<and> bs ! (8 * (i div 8) + i mod 8))"
    by (simp only: bit_horner_sum_bit_word_iff) simp
  then show "bitset_of (length bs) (bitset_bytes bs) ! i = bs ! i" using i by (simp add: bitset_of_def)
qed (simp add: bitset_of_def)

lemma tuple_serialize_eq:
  "tuple_serializeToStream tup res = Inr (res @ [0] @ encode (STuple (attrs tup)) @ bitset_bytes (mNulls tup))"
  by (simp add: tuple_serializeToStream_def serialize_eq)

lemma tuple_roundtrip:
  assumes "tuple_ok ts tup"
  shows "tuple_deserializeFromStream ts ([0] @ encode (STuple (attrs tup)) @ bitset_bytes (mNulls tup) @ rest) = Inr tup"
proof -
  have t: "has_type (STuple (attrs tup)) (TTuple ts)" and n: "length (mNulls tup) = length ts"
    using assms list_all2_lengthD by (auto simp: tuple_ok_def)
  have "deserialize_helper (TTuple ts) (encode (STuple (attrs tup)) @ bitset_bytes (mNulls tup) @ rest)
      = Inr (STuple (attrs tup), bitset_bytes (mNulls tup) @ rest)"
    using reads_deserialize [OF t] unfolding reads_def by blast
  moreover have "deserialize_scalar (bitset_size (length ts)) (bitset_bytes (mNulls tup) @ rest) = Inr (bitset_bytes (mNulls tup), rest)"
    using reads_scalar [of "bitset_bytes (mNulls tup)"] n by (simp add: reads_def bitset_bytes_length)
  ultimately show ?thesis using bitset_roundtrip [of "mNulls tup"] n
    by (simp add: tuple_deserializeFromStream_def deserialize_scalar_def del: deserialize_helper.simps(4) encode.simps)
qed

lemma copy_nulls_prefix:
  assumes "length (mNulls src) = num_attributes src" and "off + num_attributes src \<le> num_attributes dst" and "k \<le> num_attributes src"
    and "num_attributes dst = length (mNulls dst)"
  shows "copy_nulls src off [k..<num_attributes src] dst =
    Inr (dst\<lparr>mNulls := take (off + k) (mNulls dst) @ drop k (mNulls src) @ drop (off + num_attributes src) (mNulls dst)\<rparr>)"
  using assms
proof (induction "num_attributes src - k" arbitrary: k dst)
  case 0
  then show ?case by (simp add: num_attributes_def)
next
  case (Suc m)
  let ?d = "dst\<lparr>mNulls := (mNulls dst)[k + off := mNulls src ! k]\<rparr>"
  have k: "k < num_attributes src" using Suc.hyps(2) by simp
  have step: "copy_nulls src off [k..<num_attributes src] dst = copy_nulls src off [Suc k..<num_attributes src] ?d"
    using k Suc.prems by (simp add: upt_conv_Cons isNull_def setNull_def)
  have n: "num_attributes ?d = num_attributes dst" by (simp add: num_attributes_def)
  have IH: "copy_nulls src off [Suc k..<num_attributes src] ?d =
      Inr (?d\<lparr>mNulls := take (off + Suc k) (mNulls ?d) @ drop (Suc k) (mNulls src) @ drop (off + num_attributes src) (mNulls ?d)\<rparr>)"
    using Suc.prems k n Suc.hyps(2) by (intro Suc.hyps(1)) simp_all
  have t: "take (off + Suc k) ((mNulls dst)[k + off := mNulls src ! k]) = take (off + k) (mNulls dst) @ [mNulls src ! k]"
    using Suc.prems k by (simp add: take_Suc_conv_app_nth take_update_swap add.commute list_update_append)
  have d: "drop k (mNulls src) = mNulls src ! k # drop (Suc k) (mNulls src)"
    using Suc.prems(1) k by (simp add: Cons_nth_drop_Suc)
  show ?case unfolding step IH using t d k by simp
qed

lemma joinElements_eq:
  assumes "length (mNulls l) = length (attrs l)" and "length (mNulls r) = length (attrs r)"
  shows "joinElements l r = Inr \<lparr>attrs = attrs l @ attrs r, mNulls = mNulls l @ mNulls r\<rparr>"
proof -
  have n: "num_attributes (Tuple_new xs) = length xs" for xs by (simp add: num_attributes_def Tuple_new_def)
  let ?j = "Tuple_new (attrs l @ attrs r)"
  have l: "copy_nulls l 0 [0..<num_attributes l] ?j = Inr (?j\<lparr>mNulls := mNulls l @ drop (length (attrs l)) (mNulls ?j)\<rparr>)"
    using copy_nulls_prefix [of l 0 ?j 0] assms n by (simp add: num_attributes_def Tuple_new_def)
  let ?j1 = "?j\<lparr>mNulls := mNulls l @ drop (length (attrs l)) (mNulls ?j)\<rparr>"
  have "copy_nulls r (num_attributes l) [0..<num_attributes r] ?j1 = Inr \<lparr>attrs = attrs l @ attrs r, mNulls = mNulls l @ mNulls r\<rparr>"
    using copy_nulls_prefix [of r "num_attributes l" ?j1 0] assms by (simp add: num_attributes_def Tuple_new_def)
  then show ?thesis using l by (simp add: joinElements_def)
qed

lemma ElementsEqual_take: "i \<le> length (attrs l) \<Longrightarrow> i \<le> length (attrs r) \<Longrightarrow> ElementsEqual i l r \<longleftrightarrow> take i (attrs l) = take i (attrs r)"
  by (induction i) (auto simp: take_Suc_conv_app_nth)

lemma elementsEqual_iff: "length (attrs l) = length (attrs r) \<Longrightarrow> elementsEqual l r \<longleftrightarrow> attrs l = attrs r"
  by (simp add: elementsEqual_def num_attributes_def ElementsEqual_take)

lemma ptype_of_code: "ptype_of (ptype_code p) = Some p"
  by (cases p) (simp_all add: ptype_of_def)

lemma ptype_code_bound: "ptype_code p < 2 ^ 32"
  by (cases p) simp_all

lemma punct_roundtrip:
  "\<exists>bytes. punct_serializeToStream t p [] = Inr bytes \<and> punct_deserializeFromStream q bytes = Inr (Some (t, q\<lparr>mPtype := mPtype p\<rparr>))"
proof -
  have c: "from_bytes (to_bytes 4 (ptype_code (mPtype p))) = ptype_code (mPtype p)"
    using ptype_code_bound [of "mPtype p"] by (intro from_to_bytes) simp
  have "from_bytes (to_bytes 8 (unat t)) = unat t"
    using unsigned_less [where w = t and ?'a = nat] by (intro from_to_bytes) simp
  then show ?thesis using c
    by (simp add: punct_serializeToStream_def punct_deserializeFromStream_def serialize_eq deserialize_scalar_def ptype_of_code
        del: to_bytes.simps)
qed

section \<open>Properties\<close>

text \<open>
  (C21) Wire format: serializing any well-typed value into any buffer appends exactly its
  bytes and the final assertion holds, and reading them back gives the value; a tuple sent
  through the deserializing operator arrives with all attributes and null bits and with its
  outdated flag. A punctuation arrives with its type and timestamp, while its user data
  (the transaction id) is not transmitted.
\<close>

theorem wire_roundtrip:
  assumes "has_type v t" and "tuple_ok ts tup"
  shows "(\<exists>bytes. serialize v res = Inr (res @ bytes) \<and> length bytes = get_size v \<and> deserialize t (bytes @ rest) = Inr v) \<and>
    (\<exists>bytes. tuple_serializeToStream tup [] = Inr bytes \<and> run (deserializer_step ts) () [Data bytes od] = Inr ((), [Data tup od])) \<and>
    (\<exists>bytes. punct_serializeToStream tstamp p [] = Inr bytes \<and>
       punct_deserializeFromStream q bytes = Inr (Some (tstamp, \<lparr>mPtype = mPtype p, mData = mData q\<rparr>)))"
proof (intro conjI)
  show "\<exists>bytes. serialize v res = Inr (res @ bytes) \<and> length bytes = get_size v \<and> deserialize t (bytes @ rest) = Inr v"
    using reads_deserialize [OF assms(1)] by (simp add: serialize_eq get_size_encode deserialize_def reads_def)
  show "\<exists>bytes. tuple_serializeToStream tup [] = Inr bytes \<and> run (deserializer_step ts) () [Data bytes od] = Inr ((), [Data tup od])"
    using tuple_roundtrip [OF assms(2), of "[]"] by (simp add: tuple_serialize_eq)
  show "\<exists>bytes. punct_serializeToStream tstamp p [] = Inr bytes \<and>
       punct_deserializeFromStream q bytes = Inr (Some (tstamp, \<lparr>mPtype = mPtype p, mData = mData q\<rparr>))"
    using punct_roundtrip [of tstamp p q] by (cases q) simp
qed

theorem wire_roundtrip_witness:
  "\<exists>bytes. tuple_serializeToStream \<lparr>attrs = [SScalar [7, 0, 0, 0], SString [104, 105]], mNulls = [False, True]\<rparr> [] = Inr bytes \<and>
     run (deserializer_step [TScalar 4, TString]) () [Data bytes False] =
       Inr ((), [Data \<lparr>attrs = [SScalar [7, 0, 0, 0], SString [104, 105]], mNulls = [False, True]\<rparr> False])"
proof -
  have "has_type (SScalar [7 :: byte]) (TScalar 1)"
    and "tuple_ok [TScalar 4, TString] \<lparr>attrs = [SScalar [7, 0, 0, 0], SString [104, 105]], mNulls = [False, True]\<rparr>"
    by (simp_all add: tuple_ok_def)
  from wire_roundtrip [OF this] show ?thesis by blast
qed

end
