(* ===== verification/Zmq_Transport.thy ===== *)
theory Zmq_Transport
  imports Tuples
begin

text \<open>
  Streams over 0MQ: the sink \<open>qop/ZMQSink.hpp\<close>, the source \<open>qop/ZMQSource.cpp\<close> with its reader
  thread, and the sockets of \<open>net/ZMQSocket.cpp\<close>. The 0MQ library is not part of this code
  base: the messages a sink hands to its socket and the results of the receive calls of a
  source are explicit sequences, and theorems name what they rely on (messages arrive
  whole and in order). The control of the reader thread and the handshake of the sockets
  are step relations.
\<close>

section \<open>Sockets\<close>

datatype SinkType = PushSink | PublisherSink
datatype SourceType = PullSource | SubscriberSource
datatype EncodingMode = BinaryMode | AsciiMode | MsgPackMode

datatype zmq_type = ZMQ_PUB | ZMQ_SUB | ZMQ_PUSH | ZMQ_PULL | ZMQ_REQ | ZMQ_REP

text \<open>The calls \<open>configureSocket\<close> makes on the socket and on its synchronization socket, in order.\<close>

datatype sock_call =
    SetSendHWM | Subscribe nat | Bind string | Connect string
  | SyncBind string | SyncRecv | SyncConnect string | SyncSend
  | SetRcvTimeout nat | SetLinger nat

definition configureSocket :: "zmq_type \<Rightarrow> string \<Rightarrow> string \<Rightarrow> nat \<Rightarrow> sock_call list" where
  "configureSocket mSocketType path mSocketSyncPath len =
     (case mSocketType of
        ZMQ_SUB \<Rightarrow> [Subscribe len] | ZMQ_PUSH \<Rightarrow> [] | ZMQ_REQ \<Rightarrow> [] | _ \<Rightarrow> [SetSendHWM]) @
     (if mSocketType \<in> {ZMQ_PULL, ZMQ_PUB, ZMQ_REP}
      then Bind path # (if mSocketSyncPath \<noteq> [] then [SyncBind mSocketSyncPath, SyncRecv] else [])
      else Connect path # (if mSocketSyncPath \<noteq> [] then [SyncConnect mSocketSyncPath, SyncSend] else [])) @
     [SetRcvTimeout 2000, SetLinger 0]"

text \<open>
  The outcomes of a receive call of the library: a message, nothing within the timeout, or
  a \<open>zmq::error_t\<close> (with the information whether it is \<open>ETERM\<close>).
\<close>

datatype recv_result = RMsg "byte list" | RTimeout | RError bool

datatype recv_out = Received "byte list" | NoData | SocketException | ZmqError

definition recvString :: "recv_result \<Rightarrow> recv_out" where
  "recvString r =
     (case r of
        RMsg m \<Rightarrow> if length m < 1 then SocketException else Received m
      | RTimeout \<Rightarrow> SocketException
      | RError eterm \<Rightarrow> if eterm then NoData else ZmqError)"

definition recvMessage :: "recv_result \<Rightarrow> recv_out" where
  "recvMessage r =
     (case r of
        RMsg m \<Rightarrow> if length m < 1 then SocketException else Received m
      | RTimeout \<Rightarrow> SocketException
      | RError eterm \<Rightarrow> ZmqError)"

section \<open>The sink\<close>

text \<open>\<open>zsSent\<close> are the messages given to the socket; \<open>tstamp\<close> is the creation time of a punctuation.\<close>

record ZMQSink =
  zsMode :: EncodingMode
  zsBuf :: "byte list"
  zsSent :: "byte list list"

definition ZMQSink_new :: "EncodingMode \<Rightarrow> nat \<Rightarrow> ZMQSink" where
  "ZMQSink_new mode tlen = \<lparr>zsMode = mode, zsBuf = (if mode = BinaryMode then replicate tlen 0 else []), zsSent = []\<rparr>"

definition sendBuffer :: "byte list \<Rightarrow> ZMQSink \<Rightarrow> ZMQSink" where
  "sendBuffer buf s = s\<lparr>zsSent := zsSent s @ [buf]\<rparr>"

definition zsink_processPunctuation :: "(Punctuation \<Rightarrow> 64 word) \<Rightarrow> ZMQSink \<Rightarrow> Punctuation \<Rightarrow> ZMQSink res" where
  "zsink_processPunctuation tstamp s p =
     (if zsMode s = BinaryMode
      then bind_res (punct_serializeToStream (tstamp p) p []) (\<lambda>buf. Inr (sendBuffer buf (s\<lparr>zsBuf := buf\<rparr>)))
      else Inr (sendBuffer [] s))"

definition zsink_processDataElement :: "ZMQSink \<Rightarrow> Tuple \<Rightarrow> bool \<Rightarrow> ZMQSink res" where
  "zsink_processDataElement s tup outdated =
     (if zsMode s = BinaryMode
      then bind_res (tuple_serializeToStream tup []) (\<lambda>buf. Inr (sendBuffer buf (s\<lparr>zsBuf := buf\<rparr>)))
      else Inr (sendBuffer [] s))"

fun zsink_run :: "(Punctuation \<Rightarrow> 64 word) \<Rightarrow> ZMQSink \<Rightarrow> Tuple event list \<Rightarrow> ZMQSink res" where
  "zsink_run tstamp s [] = Inr s"
| "zsink_run tstamp s (Data tup outdated # es) = bind_res (zsink_processDataElement s tup outdated) (\<lambda>s'. zsink_run tstamp s' es)"
| "zsink_run tstamp s (Punct p # es) = bind_res (zsink_processPunctuation tstamp s p) (\<lambda>s'. zsink_run tstamp s' es)"

section \<open>The source\<close>

text \<open>
  A thread ends with a result or terminates the program (an exception leaves the thread
  function, or a joinable thread object is overwritten or destroyed).
\<close>

datatype 'a thread_result = Ends 'a | Terminates

fun map_ends :: "('a \<Rightarrow> 'b) \<Rightarrow> 'a thread_result \<Rightarrow> 'b thread_result" where
  "map_ends f (Ends x) = Ends (f x)"
| "map_ends f Terminates = Terminates"

text \<open>
  The loop of \<open>process\<close>, one receive result per round; the end of the list is the round that
  finds \<open>mInterrupted\<close> set. Published are string tuples or buffer tuples, both a byte list.
\<close>

fun zmq_process :: "EncodingMode \<Rightarrow> recv_result list \<Rightarrow> byte list event list thread_result" where
  "zmq_process mode [] = Ends [Punct (mkPunctuation EndOfStream)]"
| "zmq_process mode (r # rs) =
     (case (if mode = AsciiMode then recvString r else recvMessage r) of
        Received m \<Rightarrow> map_ends (\<lambda>es. Data m False # es) (zmq_process mode rs)
      | NoData \<Rightarrow> zmq_process mode rs
      | SocketException \<Rightarrow> zmq_process mode rs
      | ZmqError \<Rightarrow> Terminates)"

text \<open>
  The control of the thread: not there, created but before the first statement of
  \<open>process\<close>, in its loop, or finished and not yet joined. \<open>mStopping\<close>: a call of \<open>stop\<close> waits
  in \<open>join\<close> and holds the mutex.
\<close>

datatype thread_state = NoThread | Created | Looping | Finished

record ZMQSourceImpl =
  mInterrupted :: bool
  mSourceThread :: thread_state
  mStopping :: bool

definition zmq_start :: "ZMQSourceImpl \<Rightarrow> ZMQSourceImpl thread_result" where
  "zmq_start s =
     (if mInterrupted s
      then (if mSourceThread s = NoThread then Ends (s\<lparr>mSourceThread := Created\<rparr>) else Terminates)
      else Ends s)"

definition ZMQSourceImpl_new :: "ZMQSourceImpl thread_result" where
  "ZMQSourceImpl_new = zmq_start \<lparr>mInterrupted = True, mSourceThread = NoThread, mStopping = False\<rparr>"

definition zmq_stop :: "ZMQSourceImpl \<Rightarrow> ZMQSourceImpl" where
  "zmq_stop s = (if \<not> mInterrupted s then s\<lparr>mInterrupted := True, mStopping := True\<rparr> else s)"

text \<open>The return of \<open>join\<close>, possible when the thread has finished.\<close>

definition zmq_join :: "ZMQSourceImpl \<Rightarrow> ZMQSourceImpl option" where
  "zmq_join s = (if mStopping s \<and> mSourceThread s = Finished then Some (s\<lparr>mSourceThread := NoThread, mStopping := False\<rparr>) else None)"

text \<open>
  The destructor: \<open>None\<close> if it has to call \<open>stop\<close> and wait first; then the thread object is
  destroyed, which terminates if it is joinable.
\<close>

definition zmq_destroy :: "ZMQSourceImpl \<Rightarrow> unit thread_result option" where
  "zmq_destroy s =
     (if \<not> mInterrupted s \<or> mStopping s then None
      else Some (if mSourceThread s = NoThread then Ends () else Terminates))"

inductive zmq_step :: "ZMQSourceImpl \<Rightarrow> ZMQSourceImpl \<Rightarrow> bool" where
  zs_start: "\<not> mStopping s \<Longrightarrow> zmq_start s = Ends s' \<Longrightarrow> zmq_step s s'"
| zs_stop: "\<not> mStopping s \<Longrightarrow> zmq_step s (zmq_stop s)"
| zs_begin: "mSourceThread s = Created \<Longrightarrow> zmq_step s (s\<lparr>mInterrupted := False, mSourceThread := Looping\<rparr>)"
| zs_exit: "mSourceThread s = Looping \<Longrightarrow> mInterrupted s \<Longrightarrow> zmq_step s (s\<lparr>mSourceThread := Finished\<rparr>)"
| zs_join: "zmq_join s = Some s' \<Longrightarrow> zmq_step s s'"

inductive_cases zmq_stepE: "zmq_step s s'"

section \<open>The handshake of two sockets\<close>

text \<open>
  Two sockets configured at the same time: the calls done and still to do of the binding
  and of the connecting one. The receive on the synchronization socket returns only after
  the other side has sent.
\<close>

type_synonym hs_state = "(sock_call list \<times> sock_call list) \<times> (sock_call list \<times> sock_call list)"

inductive hs_step :: "hs_state \<Rightarrow> hs_state \<Rightarrow> bool" where
  hs_bind: "x \<noteq> SyncRecv \<Longrightarrow> hs_step ((bd, x # br), c) ((bd @ [x], br), c)"
| hs_recv: "SyncSend \<in> set cd \<Longrightarrow> hs_step ((bd, SyncRecv # br), (cd, cr)) ((bd @ [SyncRecv], br), (cd, cr))"
| hs_connect: "hs_step (b, (cd, x # cr)) (b, (cd @ [x], cr))"

abbreviation hs_init :: "zmq_type \<Rightarrow> zmq_type \<Rightarrow> string \<Rightarrow> string \<Rightarrow> nat \<Rightarrow> hs_state" where
  "hs_init tb tc path sync len \<equiv> (([], configureSocket tb path sync len), ([], configureSocket tc path sync len))"

lemma hs_invariant:
  assumes "hs_step\<^sup>*\<^sup>* s0 s" and "s0 = (([], bs), ([], cs))"
  shows "fst (fst s) @ snd (fst s) = bs \<and> fst (snd s) @ snd (snd s) = cs \<and>
    (SyncRecv \<in> set (fst (fst s)) \<longrightarrow> SyncSend \<in> set (fst (snd s)))"
  using assms
proof (induction rule: rtranclp_induct)
  case (step s s')
  from step.hyps(2) step.IH [OF step.prems] show ?case by (cases rule: hs_step.cases) auto
qed simp

text \<open>In the calls of a connecting socket the connection comes before the synchronization.\<close>

lemma connect_before_sync:
  assumes "cd @ cr = configureSocket tc path sync len" and "tc \<in> {ZMQ_SUB, ZMQ_PUSH, ZMQ_REQ}" and "SyncSend \<in> set cd"
  shows "Connect path \<in> set cd \<and> (tc = ZMQ_SUB \<longrightarrow> Subscribe len \<in> set cd)"
proof -
  let ?pre = "(if tc = ZMQ_SUB then [Subscribe len] else []) @ [Connect path]"
  obtain post where post: "cd @ cr = ?pre @ post" using assms(1,2) by (auto simp: configureSocket_def)
  have "\<not> length cd < length ?pre"
  proof
    assume "length cd < length ?pre"
    then have "cd = take (length cd) ?pre" using post by (metis append_eq_conv_conj less_imp_le take_append take_all_iff diff_is_0_eq take0 append_Nil2 length_append)
    then have "set cd \<subseteq> set ?pre" by (metis set_take_subset)
    then show False using assms(3) by (auto split: if_splits)
  qed
  then have "?pre = take (length ?pre) cd" using post by (metis append_eq_conv_conj append_eq_append_conv_if leI not_less)
  then have "set ?pre \<subseteq> set cd" by (metis set_take_subset)
  then show ?thesis by auto
qed

section \<open>The stream on the wire\<close>

text \<open>The messages among the results of the receive calls.\<close>

fun messages :: "recv_result list \<Rightarrow> byte list list" where
  "messages [] = []"
| "messages (RMsg m # rs) = m # messages rs"
| "messages (_ # rs) = messages rs"

fun no_error :: "recv_result list \<Rightarrow> bool" where
  "no_error [] = True"
| "no_error (RError _ # rs) = False"
| "no_error (_ # rs) = no_error rs"

text \<open>Without errors the source publishes exactly the messages that are not empty, then the end of the stream.\<close>

lemma process_messages:
  "no_error rs \<Longrightarrow> zmq_process mode rs =
     Ends (map (\<lambda>m. Data m False) (filter (\<lambda>m. m \<noteq> []) (messages rs)) @ [Punct (mkPunctuation EndOfStream)])"
  by (induction rs rule: messages.induct) (auto simp: recvString_def recvMessage_def Suc_le_eq less_Suc_eq)

lemma zsink_run_messages:
  assumes "zsMode s = BinaryMode"
  shows "zsink_run tstamp s (map (\<lambda>(tup, od). Data tup od) tups) =
    Inr (s\<lparr>zsSent := zsSent s @ map (\<lambda>(tup, od). [0] @ encode (STuple (attrs tup)) @ bitset_bytes (mNulls tup)) tups,
           zsBuf := (if tups = [] then zsBuf s else [0] @ encode (STuple (attrs (fst (last tups)))) @ bitset_bytes (mNulls (fst (last tups))))\<rparr>)"
  using assms
  by (induction tups arbitrary: s)
    (auto simp: zsink_processDataElement_def tuple_serialize_eq sendBuffer_def simp del: encode.simps)

lemma deserialize_messages:
  assumes "\<forall>(tup, od) \<in> set tups. tuple_ok ts tup"
  shows "run (deserializer_step ts) ()
      (map (\<lambda>m. Data m False) (map (\<lambda>(tup, od). [0] @ encode (STuple (attrs tup)) @ bitset_bytes (mNulls tup)) tups) @ [Punct p]) =
    Inr ((), map (\<lambda>(tup, od). Data tup False) tups @ [Punct p])"
  using assms
proof (induction tups)
  case (Cons x tups)
  obtain tup od where x: "x = (tup, od)" by (cases x)
  then have "tuple_deserializeFromStream ts ([0] @ encode (STuple (attrs tup)) @ bitset_bytes (mNulls tup)) = Inr tup"
    using Cons.prems tuple_roundtrip [of ts tup "[]"] by simp
  with Cons x show ?case by (simp del: encode.simps)
qed simp

section \<open>Properties\<close>

text \<open>
  (C22) A stream over the network. If the messages of a sink in binary mode arrive whole and in
  order, with any number of timeouts between them and without library errors, then the
  source and the deserializing operator publish exactly the tuples of the stream, in order,
  with all attributes and null flags, followed by the end of the stream; every tuple arrives
  as a new one, also those that were outdated.
\<close>

theorem zmq_stream_arrives:
  assumes "\<forall>(tup, od) \<in> set tups. tuple_ok ts tup"
    and "zsink_run tstamp (ZMQSink_new BinaryMode tlen) (map (\<lambda>(tup, od). Data tup od) tups) = Inr s"
    and "messages rs = zsSent s" and "no_error rs"
  shows "\<exists>es. zmq_process BinaryMode rs = Ends es \<and>
    run (deserializer_step ts) () es = Inr ((), map (\<lambda>(tup, od). Data tup False) tups @ [Punct (mkPunctuation EndOfStream)])"
proof -
  let ?wire = "map (\<lambda>(tup, od). [0] @ encode (STuple (attrs tup)) @ bitset_bytes (mNulls tup)) tups"
  have "zsSent s = ?wire"
    using assms(2) zsink_run_messages [of "ZMQSink_new BinaryMode tlen" tstamp tups] by (auto simp: ZMQSink_new_def)
  moreover have "filter (\<lambda>m. m \<noteq> []) ?wire = ?wire" by (auto simp: filter_id_conv)
  ultimately have "zmq_process BinaryMode rs = Ends (map (\<lambda>m. Data m False) ?wire @ [Punct (mkPunctuation EndOfStream)])"
    using process_messages [OF assms(4), of BinaryMode] assms(3) by simp
  then show ?thesis using deserialize_messages [OF assms(1), of "mkPunctuation EndOfStream"] by blast
qed

theorem zmq_stream_arrives_witness:
  "\<exists>es. zmq_process BinaryMode [RTimeout, RMsg (0 # 7 # replicate 8 0), RTimeout, RTimeout, RMsg (0 # 9 # replicate 8 0)] = Ends es \<and>
     run (deserializer_step [TScalar 1]) () es =
       Inr ((), [Data \<lparr>attrs = [SScalar [7]], mNulls = [False]\<rparr> False, Data \<lparr>attrs = [SScalar [9]], mNulls = [False]\<rparr> False,
                 Punct (mkPunctuation EndOfStream)])"
proof -
  let ?t = "\<lambda>b. \<lparr>attrs = [SScalar [b]], mNulls = [False]\<rparr> :: Tuple"
  let ?tups = "[(?t 7, False), (?t 9, True)]"
  have bits: "bitset_bytes [False] = replicate 8 0" by code_simp
  obtain s where s: "zsink_run (\<lambda>_. 0) (ZMQSink_new BinaryMode 1024) (map (\<lambda>(tup, od). Data tup od) ?tups) = Inr s"
    "zsSent s = [0 # 7 # replicate 8 0, 0 # 9 # replicate 8 0]"
    using zsink_run_messages [of "ZMQSink_new BinaryMode 1024" "\<lambda>_. 0" ?tups] by (simp add: ZMQSink_new_def bits)
  have ok: "\<forall>(tup, od) \<in> set ?tups. tuple_ok [TScalar 1] tup" by (simp add: tuple_ok_def)
  show ?thesis
    using zmq_stream_arrives [OF ok s(1), of "[RTimeout, RMsg (0 # 7 # replicate 8 0), RTimeout, RTimeout, RMsg (0 # 9 # replicate 8 0)]"] s(2)
    by simp
qed

text \<open>
  The handshake. A publisher (or the binding side in general) configured with a
  synchronization path returns from its constructor only after the other socket has
  subscribed and connected, in every interleaving of the two configurations.
\<close>

theorem sync_waits_for_peer:
  assumes "hs_step\<^sup>*\<^sup>* (hs_init tb tc path sync len) ((bd, []), (cd, cr))" and "sync \<noteq> []"
    and "tb \<in> {ZMQ_PUB, ZMQ_PULL, ZMQ_REP}" and "tc \<in> {ZMQ_SUB, ZMQ_PUSH, ZMQ_REQ}"
  shows "Connect path \<in> set cd \<and> (tc = ZMQ_SUB \<longrightarrow> Subscribe len \<in> set cd)"
proof -
  have inv: "bd = configureSocket tb path sync len" "cd @ cr = configureSocket tc path sync len"
    "SyncRecv \<in> set bd \<longrightarrow> SyncSend \<in> set cd"
    using hs_invariant [OF assms(1) refl] by simp_all
  have "SyncRecv \<in> set bd" using inv(1) assms(2,3) by (auto simp: configureSocket_def)
  with inv(3) have "SyncSend \<in> set cd" by simp
  with inv(2) assms(4) show ?thesis by (intro connect_before_sync) auto
qed

lemma hs_connect_all: "hs_step\<^sup>*\<^sup>* (b, (cd, cr @ rest)) (b, (cd @ cr, rest))"
proof (induction cr arbitrary: cd)
  case (Cons x cr)
  then show ?case using hs_connect [of b cd x "cr @ rest"] converse_rtranclp_into_rtranclp [of hs_step]
    by (metis append_Cons append_Nil append_assoc)
qed simp

lemma hs_bind_all: "SyncSend \<in> set cd \<Longrightarrow> hs_step\<^sup>*\<^sup>* ((bd, br), (cd, cr)) ((bd @ br, []), (cd, cr))"
proof (induction br arbitrary: bd)
  case (Cons x br)
  have "hs_step ((bd, x # br), (cd, cr)) ((bd @ [x], br), (cd, cr))"
    using Cons.prems hs_bind hs_recv by (cases "x = SyncRecv") auto
  with Cons.IH [OF Cons.prems, of "bd @ [x]"] show ?case by simp
qed simp

text \<open>Both constructors can return: the handshake does not deadlock.\<close>

lemma handshake_completes:
  assumes "sync \<noteq> []" and "tc \<in> {ZMQ_SUB, ZMQ_PUSH, ZMQ_REQ}"
  shows "hs_step\<^sup>*\<^sup>* (hs_init tb tc path sync len) ((configureSocket tb path sync len, []), (configureSocket tc path sync len, []))"
proof -
  let ?b = "configureSocket tb path sync len" and ?c = "configureSocket tc path sync len"
  have "hs_step\<^sup>*\<^sup>* (([], ?b), ([], ?c)) (([], ?b), (?c, []))" using hs_connect_all [of "([], ?b)" "[]" ?c "[]"] by simp
  moreover have "SyncSend \<in> set ?c" using assms by (auto simp: configureSocket_def)
  then have "hs_step\<^sup>*\<^sup>* (([], ?b), (?c, [])) ((?b, []), (?c, []))" using hs_bind_all [of ?c "[]" ?b "[]"] by simp
  ultimately show ?thesis by (rule rtranclp_trans)
qed

theorem sync_waits_for_peer_witness:
  "Connect ''tcp'' \<in> set (configureSocket ZMQ_SUB ''tcp'' ''sync'' 0)"
  using sync_waits_for_peer [OF handshake_completes [of "''sync''" ZMQ_SUB ZMQ_PUB "''tcp''" 0]] by simp

text \<open>Without a synchronization path the publisher does not wait.\<close>

lemma no_sync_no_wait:
  "hs_step\<^sup>*\<^sup>* (hs_init ZMQ_PUB ZMQ_SUB path [] len) ((configureSocket ZMQ_PUB path [] len, []), ([], configureSocket ZMQ_SUB path [] len))"
proof -
  have "hs_step\<^sup>*\<^sup>* ((bd, br), c) ((bd @ br, []), c)" if "SyncRecv \<notin> set br" for bd br c
    using that
  proof (induction br arbitrary: bd)
    case (Cons x br)
    have "hs_step ((bd, x # br), c) ((bd @ [x], br), c)" using Cons.prems by (intro hs_bind) auto
    with Cons show ?case by (metis append_Cons append_Nil append_assoc converse_rtranclp_into_rtranclp list.set_intros(2))
  qed simp
  from this [of "configureSocket ZMQ_PUB path [] len" "[]"] show ?thesis by (simp add: configureSocket_def)
qed

section \<open>The reader thread\<close>

definition zmq_reach :: "ZMQSourceImpl \<Rightarrow> bool" where
  "zmq_reach s \<longleftrightarrow> (\<exists>s0. ZMQSourceImpl_new = Ends s0 \<and> zmq_step\<^sup>*\<^sup>* s0 s)"

definition zmq_inv :: "ZMQSourceImpl \<Rightarrow> bool" where
  "zmq_inv s \<longleftrightarrow>
     (case mSourceThread s of
        NoThread \<Rightarrow> mInterrupted s \<and> \<not> mStopping s
      | Created \<Rightarrow> mInterrupted s \<and> \<not> mStopping s
      | Looping \<Rightarrow> mInterrupted s = mStopping s
      | Finished \<Rightarrow> mInterrupted s \<and> mStopping s)"

lemma zmq_new_eq: "ZMQSourceImpl_new = Ends \<lparr>mInterrupted = True, mSourceThread = Created, mStopping = False\<rparr>"
  by (simp add: ZMQSourceImpl_new_def zmq_start_def)

lemma zmq_step_inv: "zmq_step s s' \<Longrightarrow> zmq_inv s \<Longrightarrow> zmq_inv s'"
  by (erule zmq_stepE)
    (auto simp: zmq_inv_def zmq_start_def zmq_stop_def zmq_join_def split: thread_state.splits if_splits)

lemma zmq_reach_inv: "zmq_reach s \<Longrightarrow> zmq_inv s"
proof -
  assume "zmq_reach s"
  then obtain s0 where s0: "ZMQSourceImpl_new = Ends s0" "zmq_step\<^sup>*\<^sup>* s0 s" by (auto simp: zmq_reach_def)
  have "zmq_inv s0" using s0(1) by (auto simp: zmq_new_eq zmq_inv_def)
  from s0(2) this show "zmq_inv s" by (induction rule: rtranclp_induct) (auto intro: zmq_step_inv)
qed

text \<open>
  The reader thread. In every reachable state in which the mutex is free: \<open>start\<close> and
  the destructor bring the program down exactly while the thread is created and has not
  reached its first statement, and \<open>stop\<close> is ignored exactly then and when there is no thread;
  and whenever \<open>stop\<close> waits, the thread can leave its loop and \<open>stop\<close> returns with no thread left.
\<close>

theorem zmq_thread_control:
  assumes "zmq_reach s"
  shows "(\<not> mStopping s \<longrightarrow>
      (zmq_start s = Terminates \<longleftrightarrow> mSourceThread s = Created) \<and>
      (zmq_destroy s = Some Terminates \<longleftrightarrow> mSourceThread s = Created) \<and>
      (zmq_stop s = s \<longleftrightarrow> mSourceThread s \<in> {NoThread, Created})) \<and>
    (mStopping s \<longrightarrow> (\<exists>s'. zmq_step\<^sup>*\<^sup>* s s' \<and> \<not> mStopping s' \<and> mSourceThread s' = NoThread))"
proof (intro conjI impI)
  have inv: "zmq_inv s" using assms by (rule zmq_reach_inv)
  assume free: "\<not> mStopping s"
  show "zmq_start s = Terminates \<longleftrightarrow> mSourceThread s = Created"
    and "zmq_destroy s = Some Terminates \<longleftrightarrow> mSourceThread s = Created"
    using inv free by (auto simp: zmq_inv_def zmq_start_def zmq_destroy_def split: thread_state.splits)
  show "zmq_stop s = s \<longleftrightarrow> mSourceThread s \<in> {NoThread, Created}"
    using inv free by (cases s) (auto simp: zmq_inv_def zmq_stop_def split: thread_state.splits)
next
  have inv: "zmq_inv s" using assms by (rule zmq_reach_inv)
  assume stop: "mStopping s"
  have exit: "zmq_step\<^sup>*\<^sup>* s (s\<lparr>mSourceThread := Finished\<rparr>)"
    using inv stop zs_exit [of s] by (cases s) (auto simp: zmq_inv_def split: thread_state.splits)
  have "zmq_step (s\<lparr>mSourceThread := Finished\<rparr>) (s\<lparr>mSourceThread := NoThread, mStopping := False\<rparr>)"
    using stop by (intro zs_join) (simp add: zmq_join_def)
  with exit show "\<exists>s'. zmq_step\<^sup>*\<^sup>* s s' \<and> \<not> mStopping s' \<and> mSourceThread s' = NoThread"
    by (intro exI [of _ "s\<lparr>mSourceThread := NoThread, mStopping := False\<rparr>"]) (simp add: rtranclp.rtrancl_into_rtrancl)
qed

theorem zmq_thread_control_witness:
  "zmq_start \<lparr>mInterrupted = True, mSourceThread = Created, mStopping = False\<rparr> = Terminates"
proof -
  have "zmq_reach \<lparr>mInterrupted = True, mSourceThread = Created, mStopping = False\<rparr>"
    by (simp add: zmq_reach_def zmq_new_eq)
  from zmq_thread_control [OF this] show ?thesis by simp
qed

section \<open>What is lost on the way\<close>

text \<open>
  The type of a message is written but not read: a punctuation arrives as a tuple. For a
  stream of one 4-byte attribute it is a tuple with the low bytes of the timestamp.
\<close>

lemma punctuation_arrives_as_tuple:
  assumes "punct_serializeToStream t p [] = Inr bytes"
  shows "\<exists>tup. zmq_process BinaryMode [RMsg bytes] = Ends [Data bytes False, Punct (mkPunctuation EndOfStream)] \<and>
    run (deserializer_step [TScalar 4]) () [Data bytes False] = Inr ((), [Data tup False]) \<and>
    attrs tup = [SScalar (take 4 (to_bytes 8 (unat t)))]"
proof -
  let ?tb = "to_bytes 8 (unat t)" and ?cb = "to_bytes 4 (ptype_code (mPtype p))"
  have b: "bytes = [1] @ ?tb @ ?cb" using assms by (simp add: punct_serializeToStream_def serialize_eq del: to_bytes.simps)
  have len: "length ?tb = 8" "length ?cb = 4" by (rule to_bytes_length)+
  have "zmq_process BinaryMode [RMsg bytes] = Ends [Data bytes False, Punct (mkPunctuation EndOfStream)]"
    using b by (simp add: recvMessage_def)
  moreover have "tuple_deserializeFromStream [TScalar 4] bytes =
      Inr \<lparr>attrs = [SScalar (take 4 ?tb)], mNulls = bitset_of 1 (take 8 (drop 4 (?tb @ ?cb)))\<rparr>"
    using len by (simp add: b tuple_deserializeFromStream_def deserialize_scalar_def bitset_size_def del: to_bytes.simps)
  ultimately show ?thesis by simp
qed

text \<open>In ASCII mode the sink sends empty messages, and the source publishes none of them.\<close>

lemma ascii_stream_lost:
  assumes "zsink_run tstamp (ZMQSink_new AsciiMode tlen) es = Inr s" and "messages rs = zsSent s" and "no_error rs"
  shows "zmq_process AsciiMode rs = Ends [Punct (mkPunctuation EndOfStream)]"
proof -
  have "set (zsSent s') \<subseteq> {[]}" if "zsink_run tstamp s0 es = Inr s'" "zsMode s0 = AsciiMode" "set (zsSent s0) \<subseteq> {[]}" for s0 s'
    using that
    by (induction tstamp s0 es rule: zsink_run.induct)
      (auto simp: zsink_processDataElement_def zsink_processPunctuation_def sendBuffer_def)
  from this [OF assms(1)] have "set (zsSent s) \<subseteq> {[]}" by (simp add: ZMQSink_new_def)
  then have "filter (\<lambda>m. m \<noteq> []) (messages rs) = []" using assms(2) by (auto simp: filter_empty_conv)
  then show ?thesis using process_messages [OF assms(3), of AsciiMode] by simp
qed

text \<open>An error of the library ends the reader of binary streams with an uncaught exception, \<open>ETERM\<close> included.\<close>

lemma library_error_terminates: "no_error rs \<Longrightarrow> zmq_process BinaryMode (rs @ RError eterm # rest) = Terminates"
  by (induction rs rule: messages.induct) (auto simp: recvMessage_def)

end
