(* ===== verification/Hash_Table.thy ===== *)
theory Hash_Table
  imports Pf_Prelude "HOL-Library.Multiset"
begin

text \<open>
  The in-memory table of \<open>table/HashMapTable.hpp\<close> with the modes of \<open>table/BaseTable.hpp\<close>.
  The \<open>std::unordered_map\<close> is an association list with distinct keys in iteration order; the
  standard leaves that order open, and no property below depends on it. Updater functions
  that modify their argument by reference return the new record. The calls that reach
  connected observers are recorded in \<open>notified\<close>. The interface \<open>kv_store\<close> states what a
  client of a keyed table may rely on; the transactional table is built on it.

  The table stores copies of the records it is given and hands out copies of those it stores. The copy constructor of the
  record type is the parameter \<open>copy\<close> of the operations \<open>ht_insert_copy\<close>, \<open>ht_updateOrDeleteByKey_copy\<close>,
  \<open>ht_getByKey_copy\<close> and \<open>it_collect_copy\<close>: that of \<open>Tuple\<close> drops the null bits. The operations without the suffix are these
  for records whose copies equal them, such as tuples without null attributes.
\<close>

section \<open>State\<close>

datatype NotificationMode = Immediate | OnCommit

datatype ModificationMode = MInsert | MUpdate | MDelete

record ('k, 'v) HashMapTable =
  mDataTable :: "('k \<times> 'v) list"
  mImmediateObservers :: nat
  mDeferredObservers :: nat
  notified :: "('v \<times> ModificationMode \<times> NotificationMode) list"

definition HashMapTable_new :: "('k, 'v) HashMapTable" where
  "HashMapTable_new = \<lparr>mDataTable = [], mImmediateObservers = 0, mDeferredObservers = 0, notified = []\<rparr>"

definition registerObserver :: "('k, 'v) HashMapTable \<Rightarrow> NotificationMode \<Rightarrow> ('k, 'v) HashMapTable" where
  "registerObserver t mode =
     (case mode of Immediate \<Rightarrow> t\<lparr>mImmediateObservers := mImmediateObservers t + 1\<rparr>
      | OnCommit \<Rightarrow> t\<lparr>mDeferredObservers := mDeferredObservers t + 1\<rparr>)"

definition notifyObservers ::
  "('k, 'v) HashMapTable \<Rightarrow> 'v \<Rightarrow> ModificationMode \<Rightarrow> NotificationMode \<Rightarrow> ('k, 'v) HashMapTable" where
  "notifyObservers t rec mode notify =
     (if (if notify = Immediate then mImmediateObservers t else mDeferredObservers t) > 0
      then t\<lparr>notified := notified t @ [(rec, mode, notify)]\<rparr> else t)"

section \<open>Operations\<close>

abbreviation umap_erase :: "'k \<Rightarrow> ('k \<times> 'v) list \<Rightarrow> ('k \<times> 'v) list" where
  "umap_erase k m \<equiv> filter (\<lambda>e. fst e \<noteq> k) m"

abbreviation umap_assign :: "'k \<Rightarrow> 'v \<Rightarrow> ('k \<times> 'v) list \<Rightarrow> ('k \<times> 'v) list" where
  "umap_assign k v m \<equiv> map (\<lambda>e. if fst e = k then (k, v) else e) m"

definition ht_insert :: "('k, 'v) HashMapTable \<Rightarrow> 'k \<Rightarrow> 'v \<Rightarrow> ('k, 'v) HashMapTable" where
  "ht_insert t key rec =
     (let m = (if map_of (mDataTable t) key \<noteq> None then umap_erase key (mDataTable t) else mDataTable t)
      in notifyObservers (t\<lparr>mDataTable := (key, rec) # m\<rparr>) rec MInsert Immediate)"

definition ht_deleteByKey :: "('k, 'v) HashMapTable \<Rightarrow> 'k \<Rightarrow> ('k, 'v) HashMapTable \<times> nat" where
  "ht_deleteByKey t key =
     (case map_of (mDataTable t) key of
        None \<Rightarrow> (t, 0)
      | Some rec \<Rightarrow>
          (let t1 = (if mImmediateObservers t \<noteq> 0 then notifyObservers t rec MDelete Immediate else t)
           in (t1\<lparr>mDataTable := umap_erase key (mDataTable t1)\<rparr>,
               length (mDataTable t1) - length (umap_erase key (mDataTable t1)))))"

text \<open>The scan of \<open>deleteWhere\<close>, over the entries from the iterator to the end.\<close>

fun deleteWhere_scan :: "('v \<Rightarrow> bool) \<Rightarrow> ('k \<times> 'v) list \<Rightarrow> ('k, 'v) HashMapTable \<Rightarrow> nat \<Rightarrow> ('k, 'v) HashMapTable \<times> nat" where
  "deleteWhere_scan func [] t num = (t, num)"
| "deleteWhere_scan func ((k, v) # es) t num =
     (if func v
      then (let t1 = notifyObservers t v MDelete Immediate
            in deleteWhere_scan func es (t1\<lparr>mDataTable := umap_erase k (mDataTable t1)\<rparr>) (num + 1))
      else deleteWhere_scan func es t num)"

definition ht_deleteWhere :: "('k, 'v) HashMapTable \<Rightarrow> ('v \<Rightarrow> bool) \<Rightarrow> ('k, 'v) HashMapTable \<times> nat" where
  "ht_deleteWhere t func = deleteWhere_scan func (mDataTable t) t 0"

text \<open>
  \<open>updateOrDeleteByKey\<close>: after an erase the notification still dereferences the iterator of
  the erased element.
\<close>

definition ht_updateOrDeleteByKey ::
  "('k, 'v) HashMapTable \<Rightarrow> 'k \<Rightarrow> ('v \<Rightarrow> 'v \<times> bool) \<Rightarrow> 'v option \<Rightarrow> (('k, 'v) HashMapTable \<times> nat) res" where
  "ht_updateOrDeleteByKey t key ufunc ifunc =
     (case map_of (mDataTable t) key of
        Some rec \<Rightarrow>
          (let (rec', upd) = ufunc rec; t1 = t\<lparr>mDataTable := umap_assign key rec' (mDataTable t)\<rparr>
           in if \<not> upd then Inl UseAfterErase
              else Inr (notifyObservers t1 rec' MUpdate Immediate, 1))
      | None \<Rightarrow> (case ifunc of Some rec \<Rightarrow> Inr (ht_insert t key rec, 1) | None \<Rightarrow> Inr (t, 0)))"

definition ht_updateByKey :: "('k, 'v) HashMapTable \<Rightarrow> 'k \<Rightarrow> ('v \<Rightarrow> 'v) \<Rightarrow> ('k, 'v) HashMapTable \<times> nat" where
  "ht_updateByKey t key ufunc =
     (case map_of (mDataTable t) key of
        Some rec \<Rightarrow> (notifyObservers (t\<lparr>mDataTable := umap_assign key (ufunc rec) (mDataTable t)\<rparr>)
                        (ufunc rec) MUpdate Immediate, 1)
      | None \<Rightarrow> (t, 0))"

fun updateWhere_scan ::
  "('v \<Rightarrow> bool) \<Rightarrow> ('v \<Rightarrow> 'v) \<Rightarrow> ('k \<times> 'v) list \<Rightarrow> ('k, 'v) HashMapTable \<Rightarrow> nat \<Rightarrow> ('k, 'v) HashMapTable \<times> nat" where
  "updateWhere_scan pfunc ufunc [] t num = (t, num)"
| "updateWhere_scan pfunc ufunc ((k, v) # es) t num =
     (if pfunc v
      then updateWhere_scan pfunc ufunc es
             (notifyObservers (t\<lparr>mDataTable := umap_assign k (ufunc v) (mDataTable t)\<rparr>) (ufunc v) MUpdate Immediate)
             (num + 1)
      else updateWhere_scan pfunc ufunc es t num)"

definition ht_updateWhere ::
  "('k, 'v) HashMapTable \<Rightarrow> ('v \<Rightarrow> bool) \<Rightarrow> ('v \<Rightarrow> 'v) \<Rightarrow> ('k, 'v) HashMapTable \<times> nat" where
  "ht_updateWhere t pfunc ufunc = updateWhere_scan pfunc ufunc (mDataTable t) t 0"

definition ht_getByKey :: "('k, 'v) HashMapTable \<Rightarrow> 'k \<Rightarrow> 'v res" where
  "ht_getByKey t key = (case map_of (mDataTable t) key of Some rec \<Rightarrow> Inr rec | None \<Rightarrow> Inl KeyNotFound)"

definition ht_size :: "('k, 'v) HashMapTable \<Rightarrow> nat" where
  "ht_size t = length (mDataTable t)"

definition ht_truncate :: "('k, 'v) HashMapTable \<Rightarrow> ('k, 'v) HashMapTable" where
  "ht_truncate t = t\<lparr>mDataTable := []\<rparr>"

text \<open>
  \<open>HashMapIterator\<close>: the entries from the current position to the end, and the predicate.
  Constructor and \<open>operator++\<close> move on to the next entry that satisfies it; incrementing or
  reading at the end is undefined.
\<close>

record ('k, 'v) HashMapIterator =
  it_rest :: "('k \<times> 'v) list"
  it_pred :: "'v \<Rightarrow> bool"

definition makeHashMapIterator :: "('k \<times> 'v) list \<Rightarrow> ('v \<Rightarrow> bool) \<Rightarrow> ('k, 'v) HashMapIterator" where
  "makeHashMapIterator j p = \<lparr>it_rest = dropWhile (\<lambda>e. \<not> p (snd e)) j, it_pred = p\<rparr>"

definition it_inc :: "('k, 'v) HashMapIterator \<Rightarrow> ('k, 'v) HashMapIterator res" where
  "it_inc it =
     (case it_rest it of [] \<Rightarrow> Inl OutOfBounds
      | _ # es \<Rightarrow> Inr (it\<lparr>it_rest := dropWhile (\<lambda>e. \<not> it_pred it (snd e)) es\<rparr>))"

definition it_isValid :: "('k, 'v) HashMapIterator \<Rightarrow> bool" where
  "it_isValid it \<longleftrightarrow> it_rest it \<noteq> []"

definition it_deref :: "('k, 'v) HashMapIterator \<Rightarrow> 'v res" where
  "it_deref it = (case it_rest it of [] \<Rightarrow> Inl OutOfBounds | (_, v) # _ \<Rightarrow> Inr v)"

definition ht_select :: "('k, 'v) HashMapTable \<Rightarrow> ('v \<Rightarrow> bool) \<Rightarrow> ('k, 'v) HashMapIterator" where
  "ht_select t func = makeHashMapIterator (mDataTable t) func"

definition ht_select_all :: "('k, 'v) HashMapTable \<Rightarrow> ('k, 'v) HashMapIterator" where
  "ht_select_all t = makeHashMapIterator (mDataTable t) (\<lambda>_. True)"

text \<open>The scan loop \<open>for (; it.isValid(); ++it) use(*it)\<close> of the clients, with fuel.\<close>

fun it_collect :: "nat \<Rightarrow> ('k, 'v) HashMapIterator \<Rightarrow> 'v list res option" where
  "it_collect 0 it = None"
| "it_collect (Suc n) it =
     (if it_isValid it
      then (case (it_deref it, it_inc it) of
              (Inr v, Inr it') \<Rightarrow> map_option (map_sum id (\<lambda>vs. v # vs)) (it_collect n it')
            | (Inl e, _) \<Rightarrow> Some (Inl e)
            | (_, Inl e) \<Rightarrow> Some (Inl e))
      else Some (Inr []))"

text \<open>
  The operations that copy records. \<open>insert\<close> stores a copy and notifies with the original; \<open>getByKey\<close> and
  the dereferenced iterator give a copy out.
\<close>

definition ht_insert_copy :: "('v \<Rightarrow> 'v) \<Rightarrow> ('k, 'v) HashMapTable \<Rightarrow> 'k \<Rightarrow> 'v \<Rightarrow> ('k, 'v) HashMapTable" where
  "ht_insert_copy copy t key rec =
     (let m = (if map_of (mDataTable t) key \<noteq> None then umap_erase key (mDataTable t) else mDataTable t)
      in notifyObservers (t\<lparr>mDataTable := (key, copy rec) # m\<rparr>) rec MInsert Immediate)"

definition ht_updateOrDeleteByKey_copy ::
  "('v \<Rightarrow> 'v) \<Rightarrow> ('k, 'v) HashMapTable \<Rightarrow> 'k \<Rightarrow> ('v \<Rightarrow> 'v \<times> bool) \<Rightarrow> 'v option \<Rightarrow> (('k, 'v) HashMapTable \<times> nat) res" where
  "ht_updateOrDeleteByKey_copy copy t key ufunc ifunc =
     (case map_of (mDataTable t) key of
        Some rec \<Rightarrow>
          (let (rec', upd) = ufunc rec; t1 = t\<lparr>mDataTable := umap_assign key rec' (mDataTable t)\<rparr>
           in if \<not> upd then Inl UseAfterErase
              else Inr (notifyObservers t1 rec' MUpdate Immediate, 1))
      | None \<Rightarrow> (case ifunc of Some rec \<Rightarrow> Inr (ht_insert_copy copy t key rec, 1) | None \<Rightarrow> Inr (t, 0)))"

definition ht_getByKey_copy :: "('v \<Rightarrow> 'v) \<Rightarrow> ('k, 'v) HashMapTable \<Rightarrow> 'k \<Rightarrow> 'v res" where
  "ht_getByKey_copy copy t key = (case map_of (mDataTable t) key of Some rec \<Rightarrow> Inr (copy rec) | None \<Rightarrow> Inl KeyNotFound)"

definition it_collect_copy :: "('v \<Rightarrow> 'v) \<Rightarrow> nat \<Rightarrow> ('k, 'v) HashMapIterator \<Rightarrow> 'v list res option" where
  "it_collect_copy copy n it = map_option (map_sum id (map copy)) (it_collect n it)"

lemmas [tbl_defs] = ht_insert_def ht_deleteByKey_def ht_updateOrDeleteByKey_def ht_updateByKey_def
  ht_getByKey_def ht_truncate_def notifyObservers_def

section \<open>Lemmas\<close>

definition ht_inv :: "('k, 'v) HashMapTable \<Rightarrow> bool" where
  "ht_inv t \<longleftrightarrow> distinct (map fst (mDataTable t))"

abbreviation ht_lookup :: "('k, 'v) HashMapTable \<Rightarrow> 'k \<rightharpoonup> 'v" where
  "ht_lookup t \<equiv> map_of (mDataTable t)"

lemma notify_data [simp]: "mDataTable (notifyObservers t r m n) = mDataTable t"
  and notify_obs [simp]: "mImmediateObservers (notifyObservers t r m n) = mImmediateObservers t"
  by (simp_all add: notifyObservers_def)

lemma map_of_erase: "map_of (umap_erase k m) k' = (if k' = k then None else map_of m k')"
  by (induction m) auto

lemma map_of_assign: "map_of (umap_assign k v m) k' = (if k' = k \<and> map_of m k \<noteq> None then Some v else map_of m k')"
  by (induction m) auto

lemma map_fst_assign [simp]: "map fst (umap_assign k v m) = map fst m"
  by (induction m) auto

lemma distinct_erase: "distinct (map fst m) \<Longrightarrow> distinct (map fst (umap_erase k m))"
  by (induction m) auto

lemma erase_absent: "map_of m k = None \<Longrightarrow> umap_erase k m = m"
  by (auto simp: map_of_eq_None_iff filter_id_conv)

lemma ht_insert_data: "mDataTable (ht_insert t k v) = (k, v) # umap_erase k (mDataTable t)"
  by (cases "map_of (mDataTable t) k") (simp_all add: ht_insert_def Let_def erase_absent)

lemma ht_delete_data: "mDataTable (fst (ht_deleteByKey t k)) = umap_erase k (mDataTable t)"
  by (cases "map_of (mDataTable t) k") (simp_all add: ht_deleteByKey_def Let_def erase_absent)

lemma ht_insert_inv: "ht_inv t \<Longrightarrow> ht_inv (ht_insert t k v)"
  by (auto simp: ht_inv_def ht_insert_data distinct_erase)

lemma ht_delete_inv: "ht_inv t \<Longrightarrow> ht_inv (fst (ht_deleteByKey t k))"
  by (simp add: ht_inv_def ht_delete_data distinct_erase)

section \<open>The interface of a keyed table\<close>

locale kv_store =
  fixes lookup :: "'s \<Rightarrow> 'k \<rightharpoonup> 'v"
    and put :: "'s \<Rightarrow> 'k \<Rightarrow> 'v \<Rightarrow> 's"
    and del :: "'s \<Rightarrow> 'k \<Rightarrow> 's"
    and inv :: "'s \<Rightarrow> bool"
  assumes lookup_put: "inv s \<Longrightarrow> lookup (put s k v) = (lookup s)(k \<mapsto> v)"
    and lookup_del: "inv s \<Longrightarrow> lookup (del s k) = (lookup s)(k := None)"
    and inv_put: "inv s \<Longrightarrow> inv (put s k v)"
    and inv_del: "inv s \<Longrightarrow> inv (del s k)"
begin

text \<open>Writes are entries \<open>(k, Some v)\<close>, deletions \<open>(k, None)\<close>.\<close>

definition apply_entry :: "'k \<times> 'v option \<Rightarrow> 's \<Rightarrow> 's" where
  "apply_entry e s = (case e of (k, Some v) \<Rightarrow> put s k v | (k, None) \<Rightarrow> del s k)"

lemma lookup_apply_entry: "inv s \<Longrightarrow> lookup (apply_entry e s) = (lookup s)(fst e := snd e)"
  by (cases e; cases "snd e") (auto simp: apply_entry_def lookup_put lookup_del)

lemma inv_apply_entry: "inv s \<Longrightarrow> inv (apply_entry e s)"
  by (cases e; cases "snd e") (auto simp: apply_entry_def inv_put inv_del)

lemma fold_entries:
  "inv s \<Longrightarrow> inv (fold apply_entry es s) \<and>
     lookup (fold apply_entry es s) = fold (\<lambda>e m. m(fst e := snd e)) es (lookup s)"
  by (induction es arbitrary: s) (auto simp: lookup_apply_entry inv_apply_entry)

lemma last_entry_wins:
  "inv s \<Longrightarrow> lookup (fold apply_entry es s) k =
     (case map_of (rev es) k of None \<Rightarrow> lookup s k | Some ov \<Rightarrow> ov)"
proof (induction es rule: rev_induct)
  case (snoc e es)
  then show ?case
    using fold_entries [of s es] by (cases e) (auto simp: lookup_apply_entry split: option.splits)
qed simp

end

interpretation ht: kv_store ht_lookup ht_insert "\<lambda>t k. fst (ht_deleteByKey t k)" ht_inv
proof unfold_locales
  fix t :: "('k, 'v) HashMapTable" and k v
  assume inv: "ht_inv t"
  show "ht_lookup (ht_insert t k v) = (ht_lookup t)(k \<mapsto> v)"
    using inv by (auto simp: ht_insert_data map_of_erase)
  show "ht_lookup (fst (ht_deleteByKey t k)) = (ht_lookup t)(k := None)"
    by (auto simp: ht_delete_data map_of_erase)
  show "ht_inv (ht_insert t k v)" "ht_inv (fst (ht_deleteByKey t k))"
    using inv by (simp_all add: ht_insert_inv ht_delete_inv)
qed

section \<open>Scans\<close>

lemma it_collect_select:
  assumes "length m < n"
  shows "it_collect n (makeHashMapIterator m p) = Some (Inr (filter p (map snd m)))"
  using assms
proof (induction n arbitrary: m)
  case (Suc n)
  show ?case
  proof (cases "dropWhile (\<lambda>e. \<not> p (snd e)) m")
    case Nil
    then have "filter p (map snd m) = []"
      by (auto simp: dropWhile_eq_Nil_conv filter_empty_conv)
    with Nil show ?thesis by (simp add: makeHashMapIterator_def it_isValid_def)
  next
    case (Cons e es)
    obtain k v where e: "e = (k, v)" by (cases e)
    have p: "p v" using Cons e hd_dropWhile [of "\<lambda>e. \<not> p (snd e)" m] by fastforce
    have "filter p (map snd m) = filter p (map snd (dropWhile (\<lambda>e. \<not> p (snd e)) m))"
      by (induction m) auto
    then have f: "filter p (map snd m) = v # filter p (map snd es)" using Cons e p by simp
    have "length es < n"
      using Suc.prems Cons length_dropWhile_le [of "\<lambda>e. \<not> p (snd e)" m] by simp
    then have "it_collect n (makeHashMapIterator es p) = Some (Inr (filter p (map snd es)))"
      by (rule Suc.IH)
    then show ?thesis
      using Cons e f by (simp add: makeHashMapIterator_def it_isValid_def it_deref_def it_inc_def)
  qed
qed simp

lemma deleteWhere_scan_data:
  "mDataTable (fst (deleteWhere_scan f es t n)) = filter (\<lambda>e. \<not> (\<exists>v. (fst e, v) \<in> set es \<and> f v)) (mDataTable t) \<and>
   snd (deleteWhere_scan f es t n) = n + length (filter (\<lambda>e. f (snd e)) es)"
proof (induction f es t n rule: deleteWhere_scan.induct)
  case (2 func k v es t num)
  show ?case
  proof (cases "func v")
    case True
    then show ?thesis
      using 2(1) [OF True refl] by (auto simp: Let_def intro!: filter_cong)
  next
    case False
    then show ?thesis
      using 2(2) [OF False] by (auto intro!: filter_cong)
  qed
qed simp

lemma ht_deleteWhere_data:
  assumes "ht_inv t"
  shows "mDataTable (fst (ht_deleteWhere t f)) = filter (\<lambda>e. \<not> f (snd e)) (mDataTable t)"
    and "snd (ht_deleteWhere t f) = length (filter (\<lambda>e. f (snd e)) (mDataTable t))"
proof -
  have "(\<exists>v. (fst e, v) \<in> set (mDataTable t) \<and> f v) \<longleftrightarrow> f (snd e)" if "e \<in> set (mDataTable t)" for e
    using that assms eq_key_imp_eq_value [of "mDataTable t" "fst e" _ "snd e"]
    by (auto simp: ht_inv_def) (metis prod.collapse)
  then show "mDataTable (fst (ht_deleteWhere t f)) = filter (\<lambda>e. \<not> f (snd e)) (mDataTable t)"
    using deleteWhere_scan_data [of f "mDataTable t" t 0] by (simp add: ht_deleteWhere_def cong: filter_cong)
  show "snd (ht_deleteWhere t f) = length (filter (\<lambda>e. f (snd e)) (mDataTable t))"
    using deleteWhere_scan_data [of f "mDataTable t" t 0] by (simp add: ht_deleteWhere_def)
qed

lemma updateWhere_scan_data:
  assumes "distinct (map fst es)"
  shows "mDataTable (fst (updateWhere_scan p u es t n)) =
     map (\<lambda>e. case map_of es (fst e) of Some v \<Rightarrow> if p v then (fst e, u v) else e | None \<Rightarrow> e) (mDataTable t) \<and>
   snd (updateWhere_scan p u es t n) = n + length (filter (\<lambda>e. p (snd e)) es)"
  using assms
proof (induction p u es t n rule: updateWhere_scan.induct)
  case (2 pfunc ufunc k v es t num)
  have nk: "map_of es k = None" using 2(3) by (auto simp: map_of_eq_None_iff)
  show ?case
  proof (cases "pfunc v")
    case True
    then show ?thesis using 2(1) [OF True] 2(3) nk by (auto split: option.splits)
  next
    case False
    then show ?thesis using 2(2) [OF False] 2(3) nk by (auto split: option.splits)
  qed
qed simp

lemma ht_updateWhere_data:
  assumes "ht_inv t"
  shows "mDataTable (fst (ht_updateWhere t p u)) = map (\<lambda>(k, v). (k, if p v then u v else v)) (mDataTable t)"
    and "snd (ht_updateWhere t p u) = length (filter (\<lambda>e. p (snd e)) (mDataTable t))"
  using updateWhere_scan_data [of "mDataTable t" p u t 0] assms
  by (auto simp: ht_updateWhere_def ht_inv_def)

lemma map_of_filter_val:
  "distinct (map fst m) \<Longrightarrow> map_of (filter (\<lambda>e. f (snd e)) m) k =
     (case map_of m k of None \<Rightarrow> None | Some v \<Rightarrow> if f v then Some v else None)"
  by (induction m) (auto simp: map_of_eq_None_iff image_iff split: option.splits)

lemma map_fst_map_val: "map fst (map (\<lambda>(k, v). (k, g v)) m) = map fst m"
  by (induction m) auto

lemma map_of_map_val: "map_of (map (\<lambda>(k, v). (k, g v)) m) k = map_option g (map_of m k)"
  by (induction m) auto

lemma erase_length:
  "distinct (map fst m) \<Longrightarrow> map_of m k \<noteq> None \<Longrightarrow> length m - length (umap_erase k m) = 1"
proof (induction m)
  case (Cons e m)
  show ?case
  proof (cases "fst e = k")
    case True
    then have "map_of m k = None" using Cons.prems by (auto simp: map_of_eq_None_iff)
    then show ?thesis using True by (simp add: erase_absent)
  next
    case False
    then show ?thesis using Cons by (cases e) (simp add: Suc_diff_le)
  qed
qed simp

lemma ht_delete_spec:
  assumes "ht_inv t"
  shows "ht_inv (fst (ht_deleteByKey t k)) \<and> ht_lookup (fst (ht_deleteByKey t k)) = (ht_lookup t)(k := None) \<and>
      snd (ht_deleteByKey t k) = (if ht_lookup t k = None then 0 else 1)"
  using ht.lookup_del [OF assms] ht.inv_del [OF assms] erase_length [of "mDataTable t" k] assms
  by (auto simp: ht_deleteByKey_def Let_def ht_inv_def split: option.splits)

lemma ht_update_spec:
  assumes "ht_inv t"
  shows "ht_inv (fst (ht_updateByKey t k u)) \<and>
      ht_lookup (fst (ht_updateByKey t k u)) = (ht_lookup t)(k := map_option u (ht_lookup t k)) \<and>
      snd (ht_updateByKey t k u) = (if ht_lookup t k = None then 0 else 1)"
  using assms
  by (cases "ht_lookup t k") (auto simp: ht_updateByKey_def ht_inv_def map_of_assign fun_eq_iff simp del: map_map)

lemma ht_deleteWhere_spec:
  assumes "ht_inv t"
  shows "ht_inv (fst (ht_deleteWhere t p)) \<and>
      ht_lookup (fst (ht_deleteWhere t p)) k = (case ht_lookup t k of None \<Rightarrow> None | Some x \<Rightarrow> if p x then None else Some x) \<and>
      ht_size (fst (ht_deleteWhere t p)) + snd (ht_deleteWhere t p) = ht_size t"
proof -
  have d: "distinct (map fst (mDataTable t))" using assms by (simp add: ht_inv_def)
  show ?thesis
    using d map_of_filter_val [OF d, of "\<lambda>x. \<not> p x" k] sum_length_filter_compl [of "\<lambda>e. p (snd e)" "mDataTable t"]
    by (auto simp: ht_inv_def ht_size_def ht_deleteWhere_data [OF assms] distinct_map_filter split: option.splits)
qed

lemma ht_updateWhere_spec:
  assumes "ht_inv t"
  shows "ht_inv (fst (ht_updateWhere t p u)) \<and>
      ht_lookup (fst (ht_updateWhere t p u)) k = map_option (\<lambda>x. if p x then u x else x) (ht_lookup t k) \<and>
      snd (ht_updateWhere t p u) = length (filter (\<lambda>e. p (snd e)) (mDataTable t))"
  using assms map_of_map_val [of "\<lambda>x. if p x then u x else x" "mDataTable t" k]
  by (simp add: ht_inv_def ht_updateWhere_data [OF assms] map_fst_map_val del: map_map)

lemma insert_copy_identity: "ht_insert_copy id = ht_insert"
  by (simp add: fun_eq_iff ht_insert_copy_def ht_insert_def)

lemma copies_identity:
  "ht_updateOrDeleteByKey_copy id = ht_updateOrDeleteByKey"
  "ht_getByKey_copy id = ht_getByKey" "it_collect_copy id = it_collect"
proof -
  show "ht_updateOrDeleteByKey_copy id = ht_updateOrDeleteByKey"
    by (intro ext) (simp add: ht_updateOrDeleteByKey_copy_def ht_updateOrDeleteByKey_def insert_copy_identity split: option.split)
  show "ht_getByKey_copy id = ht_getByKey" by (intro ext) (simp add: ht_getByKey_copy_def ht_getByKey_def split: option.split)
  show "it_collect_copy id = it_collect" by (simp add: fun_eq_iff it_collect_copy_def map_sum.id option.map_id)
qed

lemma ht_insert_copy_data: "mDataTable (ht_insert_copy copy t k v) = mDataTable (ht_insert t k (copy v))"
  by (simp add: ht_insert_copy_def ht_insert_def Let_def)

lemma ht_insert_spec:
  "ht_inv t \<Longrightarrow> ht_inv (ht_insert_copy copy t k v) \<and> ht_lookup (ht_insert_copy copy t k v) = (ht_lookup t)(k \<mapsto> copy v)"
  using ht.inv_put [of t k "copy v"] ht.lookup_put [of t k "copy v"] by (simp add: ht_inv_def ht_insert_copy_data)

lemma ht_get_spec: "ht_getByKey_copy copy t k = (case ht_lookup t k of None \<Rightarrow> Inl KeyNotFound | Some x \<Rightarrow> Inr (copy x))"
  by (simp add: ht_getByKey_copy_def split: option.splits)

lemma ht_updateOrDelete_spec:
  assumes "ht_inv t"
  shows "case ht_updateOrDeleteByKey_copy copy t k uf ifunc of
      Inl e \<Rightarrow> e = UseAfterErase \<and> (\<exists>x. ht_lookup t k = Some x \<and> \<not> snd (uf x))
    | Inr (t', n) \<Rightarrow> ht_inv t' \<and> (\<nexists>x. ht_lookup t k = Some x \<and> \<not> snd (uf x)) \<and>
        ht_lookup t' = (ht_lookup t)(k := (case ht_lookup t k of Some x \<Rightarrow> Some (fst (uf x)) | None \<Rightarrow> map_option copy ifunc)) \<and>
        n = (if ht_lookup t k = None \<and> ifunc = None then 0 else 1)"
proof (cases "ht_lookup t k")
  case None
  then show ?thesis using ht_insert_spec [OF assms] assms
    by (cases ifunc) (auto simp: ht_updateOrDeleteByKey_copy_def fun_eq_iff)
next
  case (Some x)
  then show ?thesis using assms
    by (cases "uf x") (auto simp: ht_updateOrDeleteByKey_copy_def ht_inv_def map_of_assign fun_eq_iff simp del: map_map)
qed

lemma ht_size_spec: "ht_inv t \<Longrightarrow> ht_size t = card (dom (ht_lookup t))"
  by (simp add: ht_inv_def ht_size_def dom_map_of_conv_image_fst distinct_card flip: set_map)

lemma records_of_map:
  "distinct (map fst m) \<Longrightarrow> mset (filter p (map snd m)) = image_mset (\<lambda>k. the (map_of m k)) (mset_set {k \<in> dom (map_of m). p (the (map_of m k))})"
proof (induction m)
  case (Cons e m)
  obtain k v where e: "e = (k, v)" by (cases e)
  have k: "k \<notin> dom (map_of m)" using Cons.prems e by (simp add: dom_map_of_conv_image_fst)
  let ?S = "{j \<in> dom (map_of m). p (the (map_of m j))}"
  have S: "{j \<in> dom (map_of (e # m)). p (the (map_of (e # m) j))} = (if p v then insert k ?S else ?S)"
    using k e by (auto simp: domIff)
  have fin: "finite ?S" "k \<notin> ?S" using k by (auto simp: finite_dom_map_of)
  have "image_mset (\<lambda>j. the (map_of (e # m) j)) (mset_set ?S) = image_mset (\<lambda>j. the (map_of m j)) (mset_set ?S)"
    using fin e by (intro image_mset_cong) auto
  then show ?case using Cons fin unfolding S by (simp add: e)
qed simp

lemma ht_select_spec:
  assumes "ht_inv t" "ht_size t < n"
  shows "\<exists>vs. it_collect_copy copy n (ht_select t p) = Some (Inr vs) \<and>
    mset vs = image_mset (\<lambda>k. copy (the (ht_lookup t k))) (mset_set {k \<in> dom (ht_lookup t). p (the (ht_lookup t k))})"
proof (intro exI conjI)
  show "it_collect_copy copy n (ht_select t p) = Some (Inr (map copy (filter p (map snd (mDataTable t)))))"
    using assms by (simp add: it_collect_copy_def ht_select_def it_collect_select ht_size_def)
  have "image_mset copy (mset (filter p (map snd (mDataTable t)))) =
      image_mset copy (image_mset (\<lambda>k. the (ht_lookup t k)) (mset_set {k \<in> dom (ht_lookup t). p (the (ht_lookup t k))}))"
    using records_of_map [of "mDataTable t" p] assms by (simp add: ht_inv_def)
  then show "mset (map copy (filter p (map snd (mDataTable t)))) =
      image_mset (\<lambda>k. copy (the (ht_lookup t k))) (mset_set {k \<in> dom (ht_lookup t). p (the (ht_lookup t k))})"
    by (simp only: mset_map multiset.map_comp comp_def)
qed

section \<open>Properties\<close>

text \<open>
  (C27) The hash table refines a finite map. On every table with distinct keys each operation that is defined
  keeps the keys distinct and changes the content exactly as its documentation says:
  \<open>insert\<close> inserts or overwrites, \<open>deleteByKey\<close> removes the key and counts it,
  \<open>updateByKey\<close> applies the function to an existing key only, \<open>deleteWhere\<close> and \<open>updateWhere\<close>
  touch exactly the records that satisfy the predicate and count them, \<open>getByKey\<close> returns
  the record or raises "key not found", \<open>updateOrDeleteByKey\<close> updates the record or inserts the new one; it is undefined exactly if the key exists
  and the updater asks for the deletion, since the notification then uses the erased element. \<open>size\<close> counts the keys, \<open>truncate\<close> empties the
  table, and a scan over a selection terminates and gives the record of every key that satisfies the predicate, once. Records are stored and given out as
  the copies that their copy constructor makes, so a tuple loses its null bits.
\<close>

theorem hash_table_refines_map:
  assumes "ht_inv t"
  shows "(ht_inv (ht_insert_copy copy t k v) \<and> ht_lookup (ht_insert_copy copy t k v) = (ht_lookup t)(k \<mapsto> copy v)) \<and>
    (ht_inv (fst (ht_deleteByKey t k)) \<and> ht_lookup (fst (ht_deleteByKey t k)) = (ht_lookup t)(k := None) \<and>
      snd (ht_deleteByKey t k) = (if ht_lookup t k = None then 0 else 1)) \<and>
    (ht_inv (fst (ht_updateByKey t k u)) \<and>
      ht_lookup (fst (ht_updateByKey t k u)) = (ht_lookup t)(k := map_option u (ht_lookup t k)) \<and>
      snd (ht_updateByKey t k u) = (if ht_lookup t k = None then 0 else 1)) \<and>
    (ht_inv (fst (ht_deleteWhere t p)) \<and>
      ht_lookup (fst (ht_deleteWhere t p)) k = (case ht_lookup t k of None \<Rightarrow> None | Some x \<Rightarrow> if p x then None else Some x) \<and>
      ht_size (fst (ht_deleteWhere t p)) + snd (ht_deleteWhere t p) = ht_size t) \<and>
    (ht_inv (fst (ht_updateWhere t p u)) \<and>
      ht_lookup (fst (ht_updateWhere t p u)) k = map_option (\<lambda>x. if p x then u x else x) (ht_lookup t k) \<and>
      snd (ht_updateWhere t p u) = length (filter (\<lambda>e. p (snd e)) (mDataTable t))) \<and>
    ht_getByKey_copy copy t k = (case ht_lookup t k of None \<Rightarrow> Inl KeyNotFound | Some x \<Rightarrow> Inr (copy x)) \<and>
    (case ht_updateOrDeleteByKey_copy copy t k uf ifunc of
      Inl e \<Rightarrow> e = UseAfterErase \<and> (\<exists>x. ht_lookup t k = Some x \<and> \<not> snd (uf x))
    | Inr (t', n) \<Rightarrow> ht_inv t' \<and> (\<nexists>x. ht_lookup t k = Some x \<and> \<not> snd (uf x)) \<and>
        ht_lookup t' = (ht_lookup t)(k := (case ht_lookup t k of Some x \<Rightarrow> Some (fst (uf x)) | None \<Rightarrow> map_option copy ifunc)) \<and>
        n = (if ht_lookup t k = None \<and> ifunc = None then 0 else 1)) \<and>
    ht_size t = card (dom (ht_lookup t)) \<and>
    (ht_inv (ht_truncate t) \<and> ht_lookup (ht_truncate t) = Map.empty) \<and>
    (\<exists>vs. it_collect_copy copy (Suc (ht_size t)) (ht_select t p) = Some (Inr vs) \<and>
      mset vs = image_mset (\<lambda>k. copy (the (ht_lookup t k))) (mset_set {k \<in> dom (ht_lookup t). p (the (ht_lookup t k))}))"
proof (intro conjI [OF ht_insert_spec [OF assms]] conjI [OF ht_delete_spec [OF assms]] conjI [OF ht_update_spec [OF assms]]
    conjI [OF ht_deleteWhere_spec [OF assms]] conjI [OF ht_updateWhere_spec [OF assms]] conjI [OF ht_get_spec]
    conjI [OF ht_updateOrDelete_spec [OF assms]] conjI [OF ht_size_spec [OF assms]])
  show "(ht_inv (ht_truncate t) \<and> ht_lookup (ht_truncate t) = Map.empty) \<and>
      (\<exists>vs. it_collect_copy copy (Suc (ht_size t)) (ht_select t p) = Some (Inr vs) \<and>
        mset vs = image_mset (\<lambda>k. copy (the (ht_lookup t k))) (mset_set {k \<in> dom (ht_lookup t). p (the (ht_lookup t k))}))"
    by (rule conjI [OF _ ht_select_spec [OF assms]]) (simp_all add: ht_inv_def ht_truncate_def)
qed

theorem hash_table_refines_map_witness:
  "ht_lookup (ht_insert_copy id (ht_insert HashMapTable_new (1::int) ''a'') 1 ''b'') = [1 \<mapsto> ''b'']"
proof -
  have i: "ht_inv (ht_insert HashMapTable_new (1::int) ''a'')"
    by (rule ht_insert_inv) (simp add: ht_inv_def HashMapTable_new_def)
  show ?thesis
    using hash_table_refines_map [OF i, of id 1 "''b''" id "\<lambda>_. True" "\<lambda>x. (x, True)" None]
    by (simp add: ht_insert_data HashMapTable_new_def)
qed

text \<open>
  A scan over a selection is complete and terminates: the loop that starts at
  \<open>select(func)\<close>, runs while \<open>isValid()\<close> and increments the iterator visits exactly the
  records that satisfy the predicate, once each and in table order, and never dereferences
  or increments past the end; one round more than the number of records is enough fuel.
\<close>

theorem select_scan_complete:
  assumes "ht_size t < n"
  shows "it_collect n (ht_select t p) = Some (Inr (filter p (map snd (mDataTable t))))"
  using it_collect_select assms by (simp add: ht_select_def ht_size_def)

theorem select_scan_complete_witness:
  "it_collect 3 (ht_select (HashMapTable_new\<lparr>mDataTable := [(1::nat, 5::nat), (2, 8)]\<rparr>) even) = Some (Inr [8])"
  using select_scan_complete [of "HashMapTable_new\<lparr>mDataTable := [(1::nat, 5::nat), (2, 8)]\<rparr>" 3 even]
  by (simp add: ht_size_def)

text \<open>
  \<open>updateOrDeleteByKey\<close> uses an erased element: whenever the key exists and the updater asks
  for the deletion, the notification after the erase dereferences the invalidated iterator.
  In all other cases the operation is defined and updates, inserts or leaves the table alone.
\<close>

theorem updateOrDeleteByKey_outcome:
  "ht_updateOrDeleteByKey t key ufunc ifunc = Inl UseAfterErase \<longleftrightarrow>
     (\<exists>rec. ht_lookup t key = Some rec \<and> \<not> snd (ufunc rec))"
  by (auto simp: ht_updateOrDeleteByKey_def Let_def case_prod_unfold split: option.splits)

end
