(* ===== verification/Rdb_Table.thy ===== *)
theory Rdb_Table
  imports Hash_Table Tuples "HOL-Library.AList"
begin

text \<open>
  The persistent table of \<open>table/RDBTable.hpp\<close> over RocksDB, with its iterators. RocksDB is not
  part of this code base: it is a record of the operations the table calls, an argument of
  the definitions, and \<open>rocksdb_laws\<close> states their documented behaviour (a successful \<open>Put\<close> or
  \<open>Delete\<close> is seen by later reads, an iterator sees the entries at its creation, a closed
  database is recovered when it is opened again). Keys have the default key type \<open>unsigned
  long\<close> and are stored by their object representation, tuples in the format of
  \<open>serializeToStream\<close>. The directory of the databases is a map from file names to contents.
\<close>

section \<open>RocksDB as a parameter\<close>

record 'd rocksdb =
  db_Open :: "'d option \<Rightarrow> string + 'd"
  db_Get :: "'d \<Rightarrow> byte list \<Rightarrow> byte list option"
  db_Put :: "'d \<Rightarrow> byte list \<Rightarrow> byte list \<Rightarrow> 'd \<times> bool"
  db_Delete :: "'d \<Rightarrow> byte list \<Rightarrow> 'd \<times> bool"
  db_entries :: "'d \<Rightarrow> (byte list \<times> byte list) list"

text \<open>
  \<open>db_Open\<close> gets the content of the database file, \<open>None\<close> if there is no file
  (\<open>create_if_missing\<close>); the boolean results are \<open>status.ok()\<close>; \<open>db_entries\<close> is what an
  iterator created in this state visits.
\<close>

definition rocksdb_laws :: "'d rocksdb \<Rightarrow> bool" where
  "rocksdb_laws D \<longleftrightarrow>
     (\<forall>d. distinct (map fst (db_entries D d)) \<and> map_of (db_entries D d) = db_Get D d) \<and>
     (\<forall>d k v. snd (db_Put D d k v) \<longrightarrow> db_Get D (fst (db_Put D d k v)) = (db_Get D d)(k \<mapsto> v)) \<and>
     (\<forall>d k. snd (db_Delete D d k) \<longrightarrow> db_Get D (fst (db_Delete D d k)) = (db_Get D d)(k := None)) \<and>
     (\<forall>d. db_Open D None = Inr d \<longrightarrow> db_Get D d = Map.empty) \<and>
     (\<forall>d d'. db_Open D (Some d) = Inr d' \<longrightarrow> db_Get D d' = db_Get D d)"

text \<open>No input or output fails.\<close>

definition rocksdb_healthy :: "'d rocksdb \<Rightarrow> bool" where
  "rocksdb_healthy D \<longleftrightarrow>
     (\<forall>d k v. snd (db_Put D d k v)) \<and> (\<forall>d k. snd (db_Delete D d k)) \<and> (\<forall>f. \<exists>d. db_Open D f = Inr d)"

text \<open>A database that satisfies both, and one on a full device, where no write succeeds.\<close>

definition list_db :: "(byte list \<times> byte list) list rocksdb" where
  "list_db =
     \<lparr>db_Open = (\<lambda>f. Inr (case f of None \<Rightarrow> [] | Some es \<Rightarrow> AList.clearjunk es)),
      db_Get = (\<lambda>es. map_of es),
      db_Put = (\<lambda>es k v. ((k, v) # umap_erase k es, True)),
      db_Delete = (\<lambda>es k. (umap_erase k es, True)),
      db_entries = AList.clearjunk\<rparr>"

definition full_db :: "(byte list \<times> byte list) list rocksdb" where
  "full_db = list_db\<lparr>db_Put := (\<lambda>es k v. (es, False)), db_Delete := (\<lambda>es k. (es, False))\<rparr>"

lemma list_db_laws: "rocksdb_laws list_db" and list_db_healthy: "rocksdb_healthy list_db"
  by (auto simp: rocksdb_laws_def rocksdb_healthy_def list_db_def distinct_clearjunk map_of_clearjunk map_of_erase
      split: option.splits)

lemma full_db_laws: "rocksdb_laws full_db"
  by (auto simp: rocksdb_laws_def full_db_def list_db_def distinct_clearjunk map_of_clearjunk split: option.splits)

section \<open>The table\<close>

record 'd RDBTable =
  rTableName :: string
  rdb :: "'d option"
  rNumRecords :: "64 word"
  rImmediateObservers :: nat
  rDeferredObservers :: nat
  rNotified :: "(Tuple \<times> ModificationMode \<times> NotificationMode) list"

text \<open>\<open>valToSlice\<close> of a key and \<open>sliceToTuple\<close>; \<open>ts\<close> are the attribute types of the records.\<close>

definition valToSlice :: "64 word \<Rightarrow> byte list" where
  "valToSlice k = to_bytes 8 (unat k)"

definition sliceToTuple :: "sty list \<Rightarrow> byte list \<Rightarrow> Tuple res" where
  "sliceToTuple ts s = tuple_deserializeFromStream ts s"

text \<open>Every use of \<open>db\<close> dereferences the pointer, which is null after \<open>drop\<close>.\<close>

definition deref_db :: "'d RDBTable \<Rightarrow> 'd res" where
  "deref_db t = (case rdb t of Some d \<Rightarrow> Inr d | None \<Rightarrow> Inl NullPointer)"

definition rdb_registerObserver :: "'d RDBTable \<Rightarrow> NotificationMode \<Rightarrow> 'd RDBTable" where
  "rdb_registerObserver t mode =
     (case mode of Immediate \<Rightarrow> t\<lparr>rImmediateObservers := rImmediateObservers t + 1\<rparr>
      | OnCommit \<Rightarrow> t\<lparr>rDeferredObservers := rDeferredObservers t + 1\<rparr>)"

definition rdb_notifyObservers ::
  "'d RDBTable \<Rightarrow> Tuple \<Rightarrow> ModificationMode \<Rightarrow> NotificationMode \<Rightarrow> 'd RDBTable" where
  "rdb_notifyObservers t rec mode notify =
     (if (if notify = Immediate then rImmediateObservers t else rDeferredObservers t) > 0
      then t\<lparr>rNotified := rNotified t @ [(rec, mode, notify)]\<rparr> else t)"

subsection \<open>Opening and closing\<close>

fun count_entries :: "'e list \<Rightarrow> 64 word \<Rightarrow> 64 word" where
  "count_entries [] n = n"
| "count_entries (e # es) n = count_entries es (n + 1)"

definition updateRecordCounter :: "'d rocksdb \<Rightarrow> 'd RDBTable \<Rightarrow> 'd RDBTable res" where
  "updateRecordCounter D t =
     bind_res (deref_db t) (\<lambda>d. Inr (t\<lparr>rNumRecords := count_entries (db_entries D d) 0\<rparr>))"

definition rdb_openOrCreateTable ::
  "'d rocksdb \<Rightarrow> (string \<rightharpoonup> 'd) \<Rightarrow> string \<Rightarrow> 'd RDBTable \<Rightarrow> 'd RDBTable res" where
  "rdb_openOrCreateTable D dir tableName t =
     (case db_Open D (dir (tableName @ ''.db'')) of
        Inl msg \<Rightarrow> Inl (TableException msg)
      | Inr d \<Rightarrow> updateRecordCounter D (t\<lparr>rdb := Some d\<rparr>))"

definition RDBTable_new :: "'d rocksdb \<Rightarrow> (string \<rightharpoonup> 'd) \<Rightarrow> string \<Rightarrow> 'd RDBTable res" where
  "RDBTable_new D dir tableName =
     rdb_openOrCreateTable D dir tableName
       \<lparr>rTableName = tableName, rdb = None, rNumRecords = 0, rImmediateObservers = 0, rDeferredObservers = 0,
        rNotified = []\<rparr>"

text \<open>Deleting the database object closes it: its content is what the next \<open>Open\<close> recovers.\<close>

definition RDBTable_delete :: "'d RDBTable \<Rightarrow> (string \<rightharpoonup> 'd) \<Rightarrow> string \<rightharpoonup> 'd" where
  "RDBTable_delete t dir = (case rdb t of Some d \<Rightarrow> dir(rTableName t @ ''.db'' \<mapsto> d) | None \<Rightarrow> dir)"

definition rdb_drop :: "'d RDBTable \<Rightarrow> (string \<rightharpoonup> 'd) \<Rightarrow> 'd RDBTable \<times> (string \<rightharpoonup> 'd)" where
  "rdb_drop t dir = (t\<lparr>rdb := None\<rparr>, (RDBTable_delete t dir)(rTableName t @ ''.db'' := None))"

definition rdb_truncate ::
  "'d rocksdb \<Rightarrow> 'd RDBTable \<Rightarrow> (string \<rightharpoonup> 'd) \<Rightarrow> ('d RDBTable \<times> (string \<rightharpoonup> 'd)) res" where
  "rdb_truncate D t dir =
     (let dir' = (RDBTable_delete t dir)(rTableName t @ ''.db'' := None)
      in bind_res (rdb_openOrCreateTable D dir' (rTableName t) (t\<lparr>rdb := None\<rparr>)) (\<lambda>t'. Inr (t', dir')))"

definition rdb_size :: "'d RDBTable \<Rightarrow> 64 word" where
  "rdb_size t = rNumRecords t"

subsection \<open>Modifications\<close>

text \<open>Updater functions that modify their argument by reference return the new record.\<close>

definition rdb_insert :: "'d rocksdb \<Rightarrow> 'd RDBTable \<Rightarrow> 64 word \<Rightarrow> Tuple \<Rightarrow> 'd RDBTable res" where
  "rdb_insert D t key rec =
     bind_res (tuple_serializeToStream rec []) (\<lambda>buf.
     bind_res (deref_db t) (\<lambda>d.
       let (d', ok) = db_Put D d (valToSlice key) buf;
           t1 = t\<lparr>rdb := Some d', rNumRecords := (if ok then rNumRecords t + 1 else rNumRecords t)\<rparr>
       in Inr (rdb_notifyObservers t1 rec MInsert Immediate)))"

definition rdb_deleteByKey :: "'d rocksdb \<Rightarrow> sty list \<Rightarrow> 'd RDBTable \<Rightarrow> 64 word \<Rightarrow> ('d RDBTable \<times> nat) res" where
  "rdb_deleteByKey D ts t key =
     bind_res (deref_db t) (\<lambda>d.
       case db_Get D d (valToSlice key) of
         None \<Rightarrow> Inr (t, 0)
       | Some r \<Rightarrow>
           bind_res (sliceToTuple ts r) (\<lambda>tup.
             let t1 = rdb_notifyObservers t tup MDelete Immediate;
                 (d', ok) = db_Delete D d (valToSlice key);
                 nres = (if ok then 1 else 0)
             in Inr (t1\<lparr>rdb := Some d', rNumRecords := rNumRecords t1 - of_nat nres\<rparr>, nres)))"

text \<open>
  The scan of \<open>deleteWhere\<close> over the entries of its iterator; the status of a deletion is not
  looked at.
\<close>

fun rdb_deleteWhere_scan ::
  "'d rocksdb \<Rightarrow> sty list \<Rightarrow> (Tuple \<Rightarrow> bool) \<Rightarrow> (byte list \<times> byte list) list \<Rightarrow> 'd \<Rightarrow> 'd RDBTable \<Rightarrow> nat \<Rightarrow>
   ('d \<times> 'd RDBTable \<times> nat) res" where
  "rdb_deleteWhere_scan D ts func [] d t num = Inr (d, t, num)"
| "rdb_deleteWhere_scan D ts func ((k, v) # es) d t num =
     bind_res (sliceToTuple ts v) (\<lambda>tup.
       if func tup
       then rdb_deleteWhere_scan D ts func es (fst (db_Delete D d k)) (rdb_notifyObservers t tup MDelete Immediate) (num + 1)
       else rdb_deleteWhere_scan D ts func es d t num)"

definition rdb_deleteWhere ::
  "'d rocksdb \<Rightarrow> sty list \<Rightarrow> 'd RDBTable \<Rightarrow> (Tuple \<Rightarrow> bool) \<Rightarrow> ('d RDBTable \<times> nat) res" where
  "rdb_deleteWhere D ts t func =
     bind_res (deref_db t) (\<lambda>d.
     bind_res (rdb_deleteWhere_scan D ts func (db_entries D d) d t 0) (\<lambda>(d', t', num).
       Inr (t'\<lparr>rdb := Some d', rNumRecords := rNumRecords t' - of_nat num\<rparr>, num)))"

definition rdb_updateOrDeleteByKey ::
  "'d rocksdb \<Rightarrow> sty list \<Rightarrow> 'd RDBTable \<Rightarrow> 64 word \<Rightarrow> (Tuple \<Rightarrow> Tuple \<times> bool) \<Rightarrow> Tuple option \<Rightarrow>
   ('d RDBTable \<times> nat) res" where
  "rdb_updateOrDeleteByKey D ts t key ufunc ifunc =
     bind_res (deref_db t) (\<lambda>d.
       case db_Get D d (valToSlice key) of
         Some r \<Rightarrow>
           bind_res (sliceToTuple ts r) (\<lambda>tup.
             let (rec, upd) = ufunc tup
             in if upd
                then bind_res (tuple_serializeToStream rec []) (\<lambda>buf.
                       let (d', ok) = db_Put D d (valToSlice key) buf
                       in Inr (rdb_notifyObservers (t\<lparr>rdb := Some d'\<rparr>) rec MUpdate Immediate, 1))
                else (let (d', ok) = db_Delete D d (valToSlice key)
                      in Inr (rdb_notifyObservers (t\<lparr>rdb := Some d'\<rparr>) rec MDelete Immediate, if ok then 1 else 0)))
       | None \<Rightarrow>
           (case ifunc of
              Some rec \<Rightarrow> bind_res (rdb_insert D t key rec) (\<lambda>t'. Inr (t', 1))
            | None \<Rightarrow> Inr (t, 0)))"

definition rdb_updateByKey ::
  "'d rocksdb \<Rightarrow> sty list \<Rightarrow> 'd RDBTable \<Rightarrow> 64 word \<Rightarrow> (Tuple \<Rightarrow> Tuple) \<Rightarrow> ('d RDBTable \<times> nat) res" where
  "rdb_updateByKey D ts t key ufunc =
     bind_res (deref_db t) (\<lambda>d.
       case db_Get D d (valToSlice key) of
         Some r \<Rightarrow>
           bind_res (sliceToTuple ts r) (\<lambda>tup.
           bind_res (tuple_serializeToStream (ufunc tup) []) (\<lambda>buf.
             let (d', ok) = db_Put D d (valToSlice key) buf
             in Inr (rdb_notifyObservers (t\<lparr>rdb := Some d'\<rparr>) (ufunc tup) MUpdate Immediate, 1)))
       | None \<Rightarrow> Inr (t, 0))"

text \<open>\<open>updateWhere\<close> never increments the number it returns.\<close>

fun rdb_updateWhere_scan ::
  "'d rocksdb \<Rightarrow> sty list \<Rightarrow> (Tuple \<Rightarrow> bool) \<Rightarrow> (Tuple \<Rightarrow> Tuple) \<Rightarrow> (byte list \<times> byte list) list \<Rightarrow> 'd \<Rightarrow> 'd RDBTable \<Rightarrow>
   ('d \<times> 'd RDBTable) res" where
  "rdb_updateWhere_scan D ts pfunc ufunc [] d t = Inr (d, t)"
| "rdb_updateWhere_scan D ts pfunc ufunc ((k, v) # es) d t =
     bind_res (sliceToTuple ts v) (\<lambda>tup.
       if pfunc tup
       then bind_res (tuple_serializeToStream (ufunc tup) []) (\<lambda>buf.
              rdb_updateWhere_scan D ts pfunc ufunc es (fst (db_Put D d k buf))
                (rdb_notifyObservers t (ufunc tup) MUpdate Immediate))
       else rdb_updateWhere_scan D ts pfunc ufunc es d t)"

definition rdb_updateWhere ::
  "'d rocksdb \<Rightarrow> sty list \<Rightarrow> 'd RDBTable \<Rightarrow> (Tuple \<Rightarrow> bool) \<Rightarrow> (Tuple \<Rightarrow> Tuple) \<Rightarrow> ('d RDBTable \<times> nat) res" where
  "rdb_updateWhere D ts t pfunc ufunc =
     bind_res (deref_db t) (\<lambda>d.
     bind_res (rdb_updateWhere_scan D ts pfunc ufunc (db_entries D d) d t) (\<lambda>(d', t').
       Inr (t'\<lparr>rdb := Some d'\<rparr>, 0)))"

definition rdb_getByKey :: "'d rocksdb \<Rightarrow> sty list \<Rightarrow> 'd RDBTable \<Rightarrow> 64 word \<Rightarrow> Tuple res" where
  "rdb_getByKey D ts t key =
     bind_res (deref_db t) (\<lambda>d.
       case db_Get D d (valToSlice key) of Some r \<Rightarrow> sliceToTuple ts r | None \<Rightarrow> Inl KeyNotFound)"

subsection \<open>Iterators\<close>

text \<open>
  An \<open>RDBTableIterator\<close> holds a shared pointer to a RocksDB iterator; copies of it share the
  position. The positions (the entries not yet visited) are kept in a store, and an iterator
  refers to its cell; a default-constructed one refers to none.
\<close>

record RDBTableIterator =
  ri_iter :: "nat option"
  ri_pred :: "Tuple \<Rightarrow> bool"

type_synonym iter_store = "(byte list \<times> byte list) list list"

definition rit_load :: "iter_store \<Rightarrow> RDBTableIterator \<Rightarrow> (nat \<times> (byte list \<times> byte list) list) res" where
  "rit_load s it =
     (case ri_iter it of
        None \<Rightarrow> Inl NullPointer
      | Some a \<Rightarrow> if a < length s then Inr (a, s ! a) else Inl OutOfBounds)"

fun rit_skip :: "sty list \<Rightarrow> (Tuple \<Rightarrow> bool) \<Rightarrow> (byte list \<times> byte list) list \<Rightarrow> (byte list \<times> byte list) list res" where
  "rit_skip ts p [] = Inr []"
| "rit_skip ts p ((k, v) # es) =
     bind_res (sliceToTuple ts v) (\<lambda>tup. if p tup then Inr ((k, v) # es) else rit_skip ts p es)"

definition makeRDBTableIterator ::
  "sty list \<Rightarrow> iter_store \<Rightarrow> (byte list \<times> byte list) list \<Rightarrow> (Tuple \<Rightarrow> bool) \<Rightarrow> (iter_store \<times> RDBTableIterator) res" where
  "makeRDBTableIterator ts s i p =
     bind_res (rit_skip ts p i) (\<lambda>es. Inr (s @ [es], \<lparr>ri_iter = Some (length s), ri_pred = p\<rparr>))"

text \<open>\<open>Next\<close> on an iterator that is not valid is an assertion failure of RocksDB.\<close>

definition rit_inc :: "sty list \<Rightarrow> iter_store \<Rightarrow> RDBTableIterator \<Rightarrow> (iter_store \<times> RDBTableIterator) res" where
  "rit_inc ts s it =
     bind_res (rit_load s it) (\<lambda>(a, es).
       case es of
         [] \<Rightarrow> Inl AssertFailed
       | _ # es' \<Rightarrow> bind_res (rit_skip ts (ri_pred it) es') (\<lambda>es2. Inr (s[a := es2], it)))"

definition rit_postinc ::
  "sty list \<Rightarrow> iter_store \<Rightarrow> RDBTableIterator \<Rightarrow> (iter_store \<times> RDBTableIterator \<times> RDBTableIterator) res" where
  "rit_postinc ts s it =
     (let tmp = it in bind_res (rit_inc ts s it) (\<lambda>(s', it'). Inr (s', it', tmp)))"

definition rit_isValid :: "iter_store \<Rightarrow> RDBTableIterator \<Rightarrow> bool res" where
  "rit_isValid s it = bind_res (rit_load s it) (\<lambda>(a, es). Inr (es \<noteq> []))"

definition rit_deref :: "sty list \<Rightarrow> iter_store \<Rightarrow> RDBTableIterator \<Rightarrow> Tuple res" where
  "rit_deref ts s it =
     bind_res (rit_load s it) (\<lambda>(a, es). case es of [] \<Rightarrow> Inl AssertFailed | (_, v) # _ \<Rightarrow> sliceToTuple ts v)"

definition rdb_select ::
  "'d rocksdb \<Rightarrow> sty list \<Rightarrow> 'd RDBTable \<Rightarrow> iter_store \<Rightarrow> (Tuple \<Rightarrow> bool) \<Rightarrow> (iter_store \<times> RDBTableIterator) res" where
  "rdb_select D ts t s func = bind_res (deref_db t) (\<lambda>d. makeRDBTableIterator ts s (db_entries D d) func)"

definition rdb_select_all ::
  "'d rocksdb \<Rightarrow> sty list \<Rightarrow> 'd RDBTable \<Rightarrow> iter_store \<Rightarrow> (iter_store \<times> RDBTableIterator) res" where
  "rdb_select_all D ts t s = bind_res (deref_db t) (\<lambda>d. makeRDBTableIterator ts s (db_entries D d) (\<lambda>_. True))"

text \<open>The scan loop of the clients, \<open>for (; it.isValid(); ++it) use(*it)\<close>, with fuel.\<close>

fun rit_collect :: "nat \<Rightarrow> sty list \<Rightarrow> iter_store \<Rightarrow> RDBTableIterator \<Rightarrow> Tuple list res option" where
  "rit_collect 0 ts s it = None"
| "rit_collect (Suc n) ts s it =
     (case rit_isValid s it of
        Inl e \<Rightarrow> Some (Inl e)
      | Inr False \<Rightarrow> Some (Inr [])
      | Inr True \<Rightarrow>
          (case (rit_deref ts s it, rit_inc ts s it) of
             (Inr v, Inr (s', it')) \<Rightarrow> map_option (map_sum id (\<lambda>vs. v # vs)) (rit_collect n ts s' it')
           | (Inl e, _) \<Rightarrow> Some (Inl e)
           | (_, Inl e) \<Rightarrow> Some (Inl e)))"

section \<open>The stored representation\<close>

definition tuple_bytes :: "Tuple \<Rightarrow> byte list" where
  "tuple_bytes tup = [0] @ encode (STuple (attrs tup)) @ bitset_bytes (mNulls tup)"

text \<open>The byte map \<open>g\<close> of the database stores the map \<open>m\<close> from keys to tuples.\<close>

definition rdb_rep :: "sty list \<Rightarrow> (byte list \<rightharpoonup> byte list) \<Rightarrow> (64 word \<rightharpoonup> Tuple) \<Rightarrow> bool" where
  "rdb_rep ts g m \<longleftrightarrow>
     (\<forall>k. g (valToSlice k) = map_option tuple_bytes (m k)) \<and> dom g \<subseteq> range valToSlice \<and> (\<forall>tup \<in> ran m. tuple_ok ts tup)"

definition rdb_holds :: "'d rocksdb \<Rightarrow> sty list \<Rightarrow> 'd RDBTable \<Rightarrow> (64 word \<rightharpoonup> Tuple) \<Rightarrow> bool" where
  "rdb_holds D ts t m \<longleftrightarrow> (\<exists>d. rdb t = Some d \<and> rdb_rep ts (db_Get D d) m)"

lemma serialize_tuple_bytes: "tuple_serializeToStream tup [] = Inr (tuple_bytes tup)"
  using tuple_serialize_eq [of tup "[]"] by (simp add: tuple_bytes_def)

lemma slice_tuple_bytes: "tuple_ok ts tup \<Longrightarrow> sliceToTuple ts (tuple_bytes tup) = Inr tup"
  using tuple_roundtrip [of ts tup "[]"] by (simp add: sliceToTuple_def tuple_bytes_def)

lemma inj_valToSlice: "inj valToSlice"
proof (rule injI)
  fix x y :: "64 word" assume "valToSlice x = valToSlice y"
  moreover have "from_bytes (valToSlice z) = unat z" for z :: "64 word"
  proof -
    have "unat z < 2 ^ LENGTH(64)" by (rule unsigned_less)
    then show ?thesis by (simp add: valToSlice_def from_to_bytes)
  qed
  ultimately show "x = y" by (metis unsigned_word_eqI)
qed

lemma valToSlice_eq [simp]: "valToSlice x = valToSlice y \<longleftrightarrow> x = y"
  by (simp add: inj_eq [OF inj_valToSlice])

lemma rdb_rep_put: "rdb_rep ts g m \<Longrightarrow> tuple_ok ts tup \<Longrightarrow> rdb_rep ts (g(valToSlice k \<mapsto> tuple_bytes tup)) (m(k \<mapsto> tup))"
  by (auto simp: rdb_rep_def ran_def)

lemma rdb_rep_delete: "rdb_rep ts g m \<Longrightarrow> rdb_rep ts (g(valToSlice k := None)) (m(k := None))"
  by (auto simp: rdb_rep_def ran_def)

lemma rdb_rep_get:
  "rdb_rep ts g m \<Longrightarrow> (case g (valToSlice k) of None \<Rightarrow> m k = None | Some b \<Rightarrow> \<exists>tup. m k = Some tup \<and> b = tuple_bytes tup \<and> tuple_ok ts tup)"
  by (cases "m k") (auto simp: rdb_rep_def ranI)

lemma rdb_rep_dom:
  assumes "rdb_rep ts g m"
  shows "dom g = valToSlice ` dom m"
proof (intro equalityI subsetI)
  fix b assume b: "b \<in> dom g"
  then obtain k where k: "b = valToSlice k" using assms by (auto simp: rdb_rep_def)
  with b assms have "k \<in> dom m" by (auto simp: rdb_rep_def)
  with k show "b \<in> valToSlice ` dom m" by simp
next
  fix b assume "b \<in> valToSlice ` dom m"
  with assms show "b \<in> dom g" by (auto simp: rdb_rep_def)
qed

lemma rdb_rep_card: "rdb_rep ts g m \<Longrightarrow> card (dom g) = card (dom m)"
  by (simp add: rdb_rep_dom card_image inj_on_subset [OF inj_valToSlice])

text \<open>The entries of the database are the entries of the map it stores.\<close>

abbreviation entry_bytes :: "64 word \<times> Tuple \<Rightarrow> byte list \<times> byte list" where
  "entry_bytes e \<equiv> (valToSlice (fst e), tuple_bytes (snd e))"

lemma entries_abs:
  assumes laws: "rocksdb_laws D" and rep: "rdb_rep ts (db_Get D d) m"
  obtains kts where "db_entries D d = map entry_bytes kts" "distinct (map fst kts)" "map_of kts = m"
    "\<forall>e \<in> set kts. tuple_ok ts (snd e)"
proof -
  let ?es = "db_entries D d"
  have dist: "distinct (map fst ?es)" and get: "map_of ?es = db_Get D d"
    using laws by (auto simp: rocksdb_laws_def)
  have "\<exists>k tup. e = entry_bytes (k, tup) \<and> m k = Some tup" if "e \<in> set ?es" for e
  proof -
    obtain kb vb where e: "e = (kb, vb)" by (cases e)
    then have g: "db_Get D d kb = Some vb" using that dist get by (metis map_of_is_SomeI)
    then obtain k where "kb = valToSlice k" using rep by (auto simp: rdb_rep_def dom_def subset_iff)
    with g e rep show ?thesis by (auto simp: rdb_rep_def)
  qed
  then have "\<forall>e. \<exists>kt. e \<in> set ?es \<longrightarrow> e = entry_bytes kt \<and> m (fst kt) = Some (snd kt)" by fastforce
  then obtain f where f: "e \<in> set ?es \<Longrightarrow> e = entry_bytes (f e) \<and> m (fst (f e)) = Some (snd (f e))" for e by metis
  let ?kts = "map f ?es"
  have es: "?es = map entry_bytes ?kts" using f by (simp add: map_idI)
  have fst_es: "map fst ?es = map valToSlice (map fst ?kts)" by (subst es) (simp add: comp_def)
  then have d2: "distinct (map fst ?kts)" using dist by (metis distinct_map)
  have m: "map_of ?kts = m"
  proof
    fix k
    show "map_of ?kts k = m k"
    proof (cases "m k")
      case None
      then show ?thesis using f by (auto simp: map_of_eq_None_iff)
    next
      case (Some tup)
      then have "map_of ?es (valToSlice k) = Some (tuple_bytes tup)" using rep get by (simp add: rdb_rep_def)
      from map_of_SomeD [OF this] obtain e where "e \<in> set ?es" "fst e = valToSlice k" by (metis fst_conv)
      with f [of e] Some have "f e = (k, tup)" by (metis fst_conv option.inject prod.collapse valToSlice_eq)
      then have "(k, tup) \<in> set ?kts" using image_eqI [of "(k, tup)" f e "set ?es"] \<open>e \<in> set ?es\<close> by simp
      with d2 Some show ?thesis by (simp only: map_of_is_SomeI)
    qed
  qed
  have "\<forall>e \<in> set ?kts. tuple_ok ts (snd e)"
    using f rep by (simp add: rdb_rep_def) (meson ranI)
  with es d2 m show ?thesis by (rule that)
qed

lemma count_entries_length: "count_entries es n = n + of_nat (length es)"
  by (induction es n rule: count_entries.induct) (simp_all add: algebra_simps)

lemma entries_card:
  assumes "rocksdb_laws D" and "rdb_rep ts (db_Get D d) m"
  shows "length (db_entries D d) = card (dom m)" and "finite (dom m)"
proof -
  obtain kts where k: "db_entries D d = map entry_bytes kts" "distinct (map fst kts)" "map_of kts = m"
    using entries_abs [OF assms] by blast
  have "card (dom m) = length kts"
    using distinct_card [OF k(2)] k(3) by (simp add: dom_map_of_conv_image_fst flip: k(3))
  with k(1) show "length (db_entries D d) = card (dom m)" by simp
  show "finite (dom m)" using finite_dom_map_of [of kts] k(3) by simp
qed

section \<open>Operations as changes of a map\<close>

datatype rdb_op =
    OpInsert "64 word" Tuple
  | OpDelete "64 word"
  | OpDeleteWhere "Tuple \<Rightarrow> bool"
  | OpUpdateOrDelete "64 word" "Tuple \<Rightarrow> Tuple \<times> bool" "Tuple option"
  | OpUpdate "64 word" "Tuple \<Rightarrow> Tuple"
  | OpUpdateWhere "Tuple \<Rightarrow> bool" "Tuple \<Rightarrow> Tuple"

fun rdb_exec :: "'d rocksdb \<Rightarrow> sty list \<Rightarrow> rdb_op \<Rightarrow> 'd RDBTable \<Rightarrow> ('d RDBTable \<times> nat) res" where
  "rdb_exec D ts (OpInsert k rec) t = bind_res (rdb_insert D t k rec) (\<lambda>t'. Inr (t', 0))"
| "rdb_exec D ts (OpDelete k) t = rdb_deleteByKey D ts t k"
| "rdb_exec D ts (OpDeleteWhere p) t = rdb_deleteWhere D ts t p"
| "rdb_exec D ts (OpUpdateOrDelete k u i) t = rdb_updateOrDeleteByKey D ts t k u i"
| "rdb_exec D ts (OpUpdate k u) t = rdb_updateByKey D ts t k u"
| "rdb_exec D ts (OpUpdateWhere p u) t = rdb_updateWhere D ts t p u"

fun rdb_run :: "'d rocksdb \<Rightarrow> sty list \<Rightarrow> rdb_op list \<Rightarrow> 'd RDBTable \<Rightarrow> 'd RDBTable res" where
  "rdb_run D ts [] t = Inr t"
| "rdb_run D ts (op # ops) t = bind_res (rdb_exec D ts op t) (\<lambda>(t', _). rdb_run D ts ops t')"

text \<open>What the operations mean for the map from keys to tuples.\<close>

definition del_where :: "('v \<Rightarrow> bool) \<Rightarrow> ('k \<rightharpoonup> 'v) \<Rightarrow> 'k \<rightharpoonup> 'v" where
  "del_where p m = (\<lambda>k. case m k of Some v \<Rightarrow> if p v then None else Some v | None \<Rightarrow> None)"

definition upd_where :: "('v \<Rightarrow> bool) \<Rightarrow> ('v \<Rightarrow> 'v) \<Rightarrow> ('k \<rightharpoonup> 'v) \<Rightarrow> 'k \<rightharpoonup> 'v" where
  "upd_where p u m = (\<lambda>k. map_option (\<lambda>v. if p v then u v else v) (m k))"

fun map_exec :: "rdb_op \<Rightarrow> (64 word \<rightharpoonup> Tuple) \<Rightarrow> 64 word \<rightharpoonup> Tuple" where
  "map_exec (OpInsert k rec) m = m(k \<mapsto> rec)"
| "map_exec (OpDelete k) m = m(k := None)"
| "map_exec (OpDeleteWhere p) m = del_where p m"
| "map_exec (OpUpdateOrDelete k u i) m =
     m(k := (case m k of Some v \<Rightarrow> if snd (u v) then Some (fst (u v)) else None | None \<Rightarrow> i))"
| "map_exec (OpUpdate k u) m = m(k := map_option u (m k))"
| "map_exec (OpUpdateWhere p u) m = upd_where p u m"

text \<open>The number an operation returns and what it does to \<open>numRecords\<close>.\<close>

fun exec_num :: "rdb_op \<Rightarrow> (64 word \<rightharpoonup> Tuple) \<Rightarrow> nat" where
  "exec_num (OpInsert k rec) m = 0"
| "exec_num (OpDelete k) m = (if m k = None then 0 else 1)"
| "exec_num (OpDeleteWhere p) m = card (dom m) - card (dom (del_where p m))"
| "exec_num (OpUpdateOrDelete k u i) m = (if m k = None \<and> i = None then 0 else 1)"
| "exec_num (OpUpdate k u) m = (if m k = None then 0 else 1)"
| "exec_num (OpUpdateWhere p u) m = 0"

fun counter_exec :: "rdb_op \<Rightarrow> (64 word \<rightharpoonup> Tuple) \<Rightarrow> 64 word \<Rightarrow> 64 word" where
  "counter_exec (OpInsert k rec) m n = n + 1"
| "counter_exec (OpDelete k) m n = n - of_nat (exec_num (OpDelete k) m)"
| "counter_exec (OpDeleteWhere p) m n = n - of_nat (exec_num (OpDeleteWhere p) m)"
| "counter_exec (OpUpdateOrDelete k u i) m n = (if m k = None \<and> i \<noteq> None then n + 1 else n)"
| "counter_exec (OpUpdate k u) m n = n"
| "counter_exec (OpUpdateWhere p u) m n = n"

text \<open>Tuples that are written have the type of the table.\<close>

fun ok_op :: "sty list \<Rightarrow> rdb_op \<Rightarrow> bool" where
  "ok_op ts (OpInsert k rec) = tuple_ok ts rec"
| "ok_op ts (OpDelete k) = True"
| "ok_op ts (OpDeleteWhere p) = True"
| "ok_op ts (OpUpdateOrDelete k u i) =
     ((\<forall>v. tuple_ok ts v \<longrightarrow> tuple_ok ts (fst (u v))) \<and> (\<forall>rec. i = Some rec \<longrightarrow> tuple_ok ts rec))"
| "ok_op ts (OpUpdate k u) = (\<forall>v. tuple_ok ts v \<longrightarrow> tuple_ok ts (u v))"
| "ok_op ts (OpUpdateWhere p u) = (\<forall>v. tuple_ok ts v \<longrightarrow> tuple_ok ts (u v))"

section \<open>The simulation\<close>

lemma rdb_notify_simps [simp]:
  "rdb (rdb_notifyObservers t r md n) = rdb t"
  "rNumRecords (rdb_notifyObservers t r md n) = rNumRecords t"
  "rTableName (rdb_notifyObservers t r md n) = rTableName t"
  by (simp_all add: rdb_notifyObservers_def)

locale rocksdb_table =
  fixes D :: "'d rocksdb"
  assumes laws: "rocksdb_laws D"
    and healthy: "rocksdb_healthy D"
begin

lemma put_rep:
  "rdb_rep ts (db_Get D d) m \<Longrightarrow> tuple_ok ts tup \<Longrightarrow>
   rdb_rep ts (db_Get D (fst (db_Put D d (valToSlice k) (tuple_bytes tup)))) (m(k \<mapsto> tup))"
  using laws healthy rdb_rep_put [of ts "db_Get D d" m tup k] by (simp add: rocksdb_laws_def rocksdb_healthy_def)

lemma delete_rep:
  "rdb_rep ts (db_Get D d) m \<Longrightarrow> rdb_rep ts (db_Get D (fst (db_Delete D d (valToSlice k)))) (m(k := None))"
  using laws healthy rdb_rep_delete [of ts "db_Get D d" m k] by (simp add: rocksdb_laws_def rocksdb_healthy_def)

lemma delete_ok: "snd (db_Delete D d k)" and put_ok: "snd (db_Put D d k v)"
  using healthy by (simp_all add: rocksdb_healthy_def)

text \<open>An operation succeeds with number \<open>n\<close>, new map \<open>m'\<close> and new counter \<open>c\<close>.\<close>

definition yields :: "sty list \<Rightarrow> 'd RDBTable \<Rightarrow> ('d RDBTable \<times> nat) res \<Rightarrow> nat \<Rightarrow> (64 word \<rightharpoonup> Tuple) \<Rightarrow> 64 word \<Rightarrow> bool" where
  "yields ts t r n m' c \<longleftrightarrow>
     (\<exists>t'. r = Inr (t', n) \<and> rdb_holds D ts t' m' \<and> rNumRecords t' = c \<and> rTableName t' = rTableName t)"

lemma insert_yields:
  assumes "rdb_holds D ts t m" and "tuple_ok ts rec"
  shows "yields ts t (bind_res (rdb_insert D t k rec) (\<lambda>t'. Inr (t', n))) n (m(k \<mapsto> rec)) (rNumRecords t + 1)"
proof -
  obtain d where d: "rdb t = Some d" "rdb_rep ts (db_Get D d) m" using assms(1) by (auto simp: rdb_holds_def)
  show ?thesis
    using put_rep [OF d(2) assms(2), of k] put_ok
    by (simp add: yields_def rdb_insert_def serialize_tuple_bytes deref_db_def d(1) case_prod_unfold Let_def rdb_holds_def)
qed

text \<open>The look-up every operation on a key starts with.\<close>

lemma found:
  assumes "rdb_holds D ts t m"
  obtains (none) d where "deref_db t = Inr d" "rdb_rep ts (db_Get D d) m" "m k = None" "db_Get D d (valToSlice k) = None"
  | (some) d v where "deref_db t = Inr d" "rdb_rep ts (db_Get D d) m" "m k = Some v"
      "db_Get D d (valToSlice k) = Some (tuple_bytes v)" "tuple_ok ts v" "sliceToTuple ts (tuple_bytes v) = Inr v"
proof -
  obtain d where d: "rdb t = Some d" "rdb_rep ts (db_Get D d) m" using assms by (auto simp: rdb_holds_def)
  show thesis
    using rdb_rep_get [OF d(2), of k] none [of d] some [of d] d
    by (auto simp: deref_db_def slice_tuple_bytes split: option.splits)
qed

lemma deleteByKey_yields:
  assumes "rdb_holds D ts t m"
  shows "yields ts t (rdb_deleteByKey D ts t k) (exec_num (OpDelete k) m) (m(k := None))
    (counter_exec (OpDelete k) m (rNumRecords t))"
  using assms
proof (cases rule: found [of ts t m k])
  case (none d)
  then have "m(k := None) = m" by auto
  with none assms show ?thesis by (simp add: yields_def rdb_deleteByKey_def)
next
  case (some d v)
  then show ?thesis
    using delete_rep [OF some(2), of k] delete_ok
    by (simp add: yields_def rdb_deleteByKey_def case_prod_unfold Let_def rdb_holds_def)
qed

lemma updateByKey_yields:
  assumes "rdb_holds D ts t m" and u: "\<And>v. tuple_ok ts v \<Longrightarrow> tuple_ok ts (u v)"
  shows "yields ts t (rdb_updateByKey D ts t k u) (exec_num (OpUpdate k u) m) (m(k := map_option u (m k))) (rNumRecords t)"
  using assms(1)
proof (cases rule: found [of ts t m k])
  case (none d)
  then have "m(k := None) = m" by auto
  with none assms show ?thesis by (simp add: yields_def rdb_updateByKey_def)
next
  case (some d v)
  then show ?thesis
    using put_rep [OF some(2) u [OF some(5)], of k]
    by (simp add: yields_def rdb_updateByKey_def case_prod_unfold Let_def rdb_holds_def serialize_tuple_bytes)
qed

lemma updateOrDelete_yields:
  assumes "rdb_holds D ts t m" and op: "ok_op ts (OpUpdateOrDelete k u i)"
  shows "yields ts t (rdb_updateOrDeleteByKey D ts t k u i) (exec_num (OpUpdateOrDelete k u i) m)
    (map_exec (OpUpdateOrDelete k u i) m) (counter_exec (OpUpdateOrDelete k u i) m (rNumRecords t))"
  using assms(1)
proof (cases rule: found [of ts t m k])
  case (none d)
  then have "m(k := None) = m" by auto
  with none assms show ?thesis
    using insert_yields [OF assms(1), of _ k 1]
    by (cases i) (simp_all add: rdb_updateOrDeleteByKey_def, simp add: yields_def)
next
  case (some d v)
  then have "tuple_ok ts (fst (u v))" using op by simp
  with some show ?thesis
    using put_rep [OF some(2), of "fst (u v)" k] delete_rep [OF some(2), of k] delete_ok
    by (simp add: yields_def rdb_updateOrDeleteByKey_def case_prod_unfold Let_def rdb_holds_def serialize_tuple_bytes)
qed

end

text \<open>The scans as folds over the entries.\<close>

lemma fold_delete:
  "fold (\<lambda>e m. if p (snd e) then m(fst e := None) else m) kts m k =
     (if \<exists>v. (k, v) \<in> set kts \<and> p v then None else m k)"
  by (induction kts arbitrary: m) auto

lemma fold_update:
  "distinct (map fst kts) \<Longrightarrow>
   fold (\<lambda>e m. if p (snd e) then m(fst e \<mapsto> u (snd e)) else m) kts m k =
     (case map_of kts k of Some v \<Rightarrow> if p v then Some (u v) else m k | None \<Rightarrow> m k)"
  by (induction kts arbitrary: m) (auto split: option.splits simp flip: map_of_eq_None_iff)

lemma fold_delete_all:
  assumes "distinct (map fst kts)" "map_of kts = m"
  shows "fold (\<lambda>e m. if p (snd e) then m(fst e := None) else m) kts m = del_where p m"
proof
  fix k
  have "(k, v) \<in> set kts \<longleftrightarrow> m k = Some v" for v using assms by auto
  then show "fold (\<lambda>e m. if p (snd e) then m(fst e := None) else m) kts m k = del_where p m k"
    by (simp add: fold_delete del_where_def split: option.splits)
qed

lemma fold_update_all:
  assumes "distinct (map fst kts)" "map_of kts = m"
  shows "fold (\<lambda>e m. if p (snd e) then m(fst e \<mapsto> u (snd e)) else m) kts m = upd_where p u m"
  by (rule ext) (simp add: fold_update assms upd_where_def split: option.splits)

lemma del_where_card:
  assumes "distinct (map fst kts)" "map_of kts = m"
  shows "card (dom m) - card (dom (del_where p m)) = length (filter (\<lambda>e. p (snd e)) kts)"
proof -
  let ?keep = "filter (\<lambda>e. \<not> p (snd e)) kts"
  have "(k, v) \<in> set kts \<longleftrightarrow> m k = Some v" for k v using assms by auto
  then have "dom (del_where p m) = fst ` set ?keep" by (force simp: del_where_def split: option.splits if_splits)
  moreover have "distinct (map fst ?keep)" using assms(1) by (rule distinct_map_filter)
  ultimately have "card (dom (del_where p m)) = length ?keep" using distinct_card [of "map fst ?keep"] by simp
  moreover have "card (dom m) = length kts"
    using distinct_card [OF assms(1)] by (simp add: dom_map_of_conv_image_fst flip: assms(2))
  ultimately show ?thesis using sum_length_filter_compl [of "\<lambda>e. p (snd e)" kts] by simp
qed

context rocksdb_table
begin

lemma deleteWhere_scan_fold:
  assumes "rdb_rep ts (db_Get D d) m" and "\<forall>e \<in> set kts. tuple_ok ts (snd e)"
  shows "\<exists>d' t'. rdb_deleteWhere_scan D ts p (map entry_bytes kts) d t num =
      Inr (d', t', num + length (filter (\<lambda>e. p (snd e)) kts)) \<and>
    rdb_rep ts (db_Get D d') (fold (\<lambda>e m. if p (snd e) then m(fst e := None) else m) kts m) \<and>
    rNumRecords t' = rNumRecords t \<and> rTableName t' = rTableName t"
  using assms
proof (induction kts arbitrary: d t m num)
  case (Cons e kts)
  let ?d = "fst (db_Delete D d (valToSlice (fst e)))" and ?t = "rdb_notifyObservers t (snd e) MDelete Immediate"
  have ok: "sliceToTuple ts (tuple_bytes (snd e)) = Inr (snd e)" using Cons.prems(2) by (simp add: slice_tuple_bytes)
  show ?case
  proof (cases "p (snd e)")
    case True
    then show ?thesis
      using Cons.IH [OF delete_rep [OF Cons.prems(1), of "fst e"], of ?t "num + 1"] Cons.prems(2) ok by (auto simp: fun_upd_def)
  next
    case False
    then show ?thesis using Cons.IH [OF Cons.prems(1), of t num] Cons.prems(2) ok by auto
  qed
qed simp

lemma updateWhere_scan_fold:
  assumes "rdb_rep ts (db_Get D d) m" and "\<forall>e \<in> set kts. tuple_ok ts (snd e)"
    and u: "\<And>v. tuple_ok ts v \<Longrightarrow> tuple_ok ts (u v)"
  shows "\<exists>d' t'. rdb_updateWhere_scan D ts p u (map entry_bytes kts) d t = Inr (d', t') \<and>
    rdb_rep ts (db_Get D d') (fold (\<lambda>e m. if p (snd e) then m(fst e \<mapsto> u (snd e)) else m) kts m) \<and>
    rNumRecords t' = rNumRecords t \<and> rTableName t' = rTableName t"
  using assms(1,2)
proof (induction kts arbitrary: d t m)
  case (Cons e kts)
  let ?d = "fst (db_Put D d (valToSlice (fst e)) (tuple_bytes (u (snd e))))"
    and ?t = "rdb_notifyObservers t (u (snd e)) MUpdate Immediate"
  have ok: "sliceToTuple ts (tuple_bytes (snd e)) = Inr (snd e)" and oku: "tuple_ok ts (u (snd e))"
    using Cons.prems(2) u by (simp_all add: slice_tuple_bytes)
  show ?case
  proof (cases "p (snd e)")
    case True
    then show ?thesis
      using Cons.IH [OF put_rep [OF Cons.prems(1) oku, of "fst e"], of ?t] Cons.prems(2) ok
      by (auto simp: serialize_tuple_bytes fun_upd_def)
  next
    case False
    then show ?thesis using Cons.IH [OF Cons.prems(1), of t] Cons.prems(2) ok by auto
  qed
qed simp

lemma deleteWhere_yields:
  assumes "rdb_holds D ts t m"
  shows "yields ts t (rdb_deleteWhere D ts t p) (exec_num (OpDeleteWhere p) m) (del_where p m)
    (counter_exec (OpDeleteWhere p) m (rNumRecords t))"
proof -
  obtain d where d: "rdb t = Some d" "rdb_rep ts (db_Get D d) m" using assms by (auto simp: rdb_holds_def)
  obtain kts where kts: "db_entries D d = map entry_bytes kts" "distinct (map fst kts)" "map_of kts = m"
    "\<forall>e \<in> set kts. tuple_ok ts (snd e)" by (rule entries_abs [OF laws d(2)])
  have n: "exec_num (OpDeleteWhere p) m = length (filter (\<lambda>e. p (snd e)) kts)"
    using del_where_card [OF kts(2,3)] by simp
  show ?thesis
    using deleteWhere_scan_fold [OF d(2) kts(4), of p t 0, unfolded fold_delete_all [OF kts(2,3)]]
    by (auto simp: yields_def rdb_deleteWhere_def deref_db_def d(1) kts(1) rdb_holds_def n simp del: exec_num.simps)
qed

lemma updateWhere_yields:
  assumes "rdb_holds D ts t m" and "\<And>v. tuple_ok ts v \<Longrightarrow> tuple_ok ts (u v)"
  shows "yields ts t (rdb_updateWhere D ts t p u) 0 (upd_where p u m) (rNumRecords t)"
proof -
  obtain d where d: "rdb t = Some d" "rdb_rep ts (db_Get D d) m" using assms by (auto simp: rdb_holds_def)
  obtain kts where kts: "db_entries D d = map entry_bytes kts" "distinct (map fst kts)" "map_of kts = m"
    "\<forall>e \<in> set kts. tuple_ok ts (snd e)" by (rule entries_abs [OF laws d(2)])
  show ?thesis
    using updateWhere_scan_fold [OF d(2) kts(4), where p = p and t = t and u = u, OF assms(2), unfolded fold_update_all [OF kts(2,3)]]
    by (auto simp: yields_def rdb_updateWhere_def deref_db_def d(1) kts(1) rdb_holds_def)
qed

text \<open>Every operation, and every sequence of operations, implements its change of the map.\<close>

lemma exec_yields:
  assumes "rdb_holds D ts t m" and "ok_op ts op"
  shows "yields ts t (rdb_exec D ts op t) (exec_num op m) (map_exec op m) (counter_exec op m (rNumRecords t))"
  using assms insert_yields deleteByKey_yields deleteWhere_yields updateOrDelete_yields updateByKey_yields updateWhere_yields
  by (cases op) (simp_all del: counter_exec.simps(2,3,4) exec_num.simps(2,3,4,5) map_exec.simps(4) ok_op.simps(4) add: counter_exec.simps(1))

lemma run_holds:
  assumes "rdb_holds D ts t m" and "list_all (ok_op ts) ops"
  shows "\<exists>t'. rdb_run D ts ops t = Inr t' \<and> rdb_holds D ts t' (fold map_exec ops m) \<and> rTableName t' = rTableName t"
  using assms
proof (induction ops arbitrary: t m)
  case (Cons op ops)
  then obtain t1 where t1: "rdb_exec D ts op t = Inr (t1, exec_num op m)" "rdb_holds D ts t1 (map_exec op m)"
    "rTableName t1 = rTableName t"
    using exec_yields [of ts t m op] by (auto simp: yields_def)
  then show ?case using Cons.IH [OF t1(2)] Cons.prems by simp
qed simp

lemma getByKey_holds:
  assumes "rdb_holds D ts t m"
  shows "rdb_getByKey D ts t k = (case m k of Some v \<Rightarrow> Inr v | None \<Rightarrow> Inl KeyNotFound)"
  using assms by (cases rule: found [of ts t m k]) (simp_all add: rdb_getByKey_def)

text \<open>Opening restores what the closed table held, with an exact record counter.\<close>

lemma reopen_holds:
  assumes "rdb_holds D ts t m"
  shows "\<exists>t'. RDBTable_new D (RDBTable_delete t dir) (rTableName t) = Inr t' \<and> rdb_holds D ts t' m \<and>
    rNumRecords t' = of_nat (card (dom m)) \<and> rTableName t' = rTableName t"
proof -
  obtain d where d: "rdb t = Some d" "rdb_rep ts (db_Get D d) m" using assms by (auto simp: rdb_holds_def)
  obtain d' where d': "db_Open D (Some d) = Inr d'" using healthy unfolding rocksdb_healthy_def by blast
  then have rep: "rdb_rep ts (db_Get D d') m" using laws d(2) by (auto simp: rocksdb_laws_def)
  show ?thesis
    using rep entries_card(1) [OF laws rep]
    by (simp add: RDBTable_new_def RDBTable_delete_def rdb_openOrCreateTable_def d(1) d' updateRecordCounter_def
        deref_db_def rdb_holds_def count_entries_length)
qed

lemma new_holds:
  assumes "dir (name @ ''.db'') = None"
  shows "\<exists>t. RDBTable_new D dir name = Inr t \<and> rdb_holds D ts t Map.empty \<and> rNumRecords t = 0 \<and> rTableName t = name"
proof -
  obtain d where d: "db_Open D None = Inr d" using healthy unfolding rocksdb_healthy_def by blast
  then have "db_Get D d = Map.empty" using laws by (auto simp: rocksdb_laws_def)
  then have rep: "rdb_rep ts (db_Get D d) Map.empty" by (simp add: rdb_rep_def)
  show ?thesis
    using rep entries_card(1) [OF laws rep] assms d
    by (simp add: RDBTable_new_def rdb_openOrCreateTable_def updateRecordCounter_def deref_db_def rdb_holds_def)
qed

end

interpretation list_rdb: rocksdb_table list_db
  by unfold_locales (rule list_db_laws, rule list_db_healthy)

section \<open>The record counter\<close>

text \<open>
  The operations that keep \<open>numRecords\<close> exact: no \<open>insert\<close> replaces a record, and no
  \<open>updateOrDeleteByKey\<close> deletes one.
\<close>

fun counts_exactly :: "rdb_op \<Rightarrow> (64 word \<rightharpoonup> Tuple) \<Rightarrow> bool" where
  "counts_exactly (OpInsert k rec) m = (m k = None)"
| "counts_exactly (OpUpdateOrDelete k u i) m = (case m k of Some v \<Rightarrow> snd (u v) | None \<Rightarrow> True)"
| "counts_exactly _ m = True"

fun all_counted :: "rdb_op list \<Rightarrow> (64 word \<rightharpoonup> Tuple) \<Rightarrow> bool" where
  "all_counted [] m = True"
| "all_counted (op # ops) m = (counts_exactly op m \<and> all_counted ops (map_exec op m))"

lemma unat_inc: "unat n + 1 < 2 ^ 64 \<Longrightarrow> unat (n + 1 :: 64 word) = unat n + 1"
  by (simp add: unat_word_ariths)

lemma unat_dec: "j \<le> unat n \<Longrightarrow> unat (n - of_nat j :: 64 word) = unat n - j"
proof -
  assume j: "j \<le> unat n"
  have "unat n < 2 ^ LENGTH(64)" by (rule unsigned_less)
  with j have "unat (of_nat j :: 64 word) = j" by (simp add: unat_of_nat)
  with j show ?thesis by (simp add: unat_sub word_le_nat_alt)
qed

lemma dom_del_where: "dom (del_where p m) \<subseteq> dom m"
  by (auto simp: del_where_def split: option.splits)

lemma dom_upd_where: "dom (upd_where p u m) = dom m"
  by (auto simp: upd_where_def dom_def)

lemma card_dom_upd: "finite (dom m) \<Longrightarrow> card (dom (m(k \<mapsto> v))) = (if m k = None then card (dom m) + 1 else card (dom m))"
  by (auto simp: card_insert_if domIff)

lemma card_dom_del: "finite (dom m) \<Longrightarrow> card (dom (m(k := None))) = (if m k = None then card (dom m) else card (dom m) - 1)"
  by (auto simp: card_Diff_singleton_if domIff)

lemma finite_map_exec: "finite (dom m) \<Longrightarrow> finite (dom (map_exec op m))"
  using finite_subset [OF dom_del_where] by (cases op) (auto simp: dom_upd_where split: option.splits)

lemma counter_step:
  assumes fin: "finite (dom m)" and le: "card (dom m) \<le> unat n" and bound: "unat n + 1 < 2 ^ 64"
  shows "card (dom (map_exec op m)) \<le> unat (counter_exec op m n)"
    and "unat (counter_exec op m n) \<le> unat n + 1"
    and "card (dom m) = unat n \<Longrightarrow> counts_exactly op m \<Longrightarrow> card (dom (map_exec op m)) = unat (counter_exec op m n)"
proof -
  note cards = card_dom_upd [OF fin] card_dom_del [OF fin]
  have pos: "0 < card (dom m)" if "m k = Some v" for k v using that fin by (auto simp: card_gt_0_iff)
  have del: "card (dom (del_where p m)) \<le> card (dom m)" for p by (rule card_mono [OF fin dom_del_where])
  have one: "unat (n - 1) = unat n - 1" if "m k = Some v" for k v using unat_dec [of 1 n] pos [OF that] le by simp
  have many: "unat (n - of_nat (card (dom m) - j)) = unat n - (card (dom m) - j)" for j
    using le by (intro unat_dec) simp
  note facts = le unat_inc [OF bound]
  have "card (dom (map_exec op m)) \<le> unat (counter_exec op m n) \<and> unat (counter_exec op m n) \<le> unat n + 1 \<and>
    (card (dom m) = unat n \<longrightarrow> counts_exactly op m \<longrightarrow> card (dom (map_exec op m)) = unat (counter_exec op m n))"
  proof (cases op)
    case (OpDelete k)
    then show ?thesis using facts one pos cards by (cases "m k") (auto simp del: dom_fun_upd simp: diff_le_mono)
  next
    case (OpDeleteWhere p)
    define j where "j = card (dom m) - card (dom (del_where p m))"
    have "unat (n - of_nat j) = unat n - j" unfolding j_def by (rule many)
    moreover have "card (dom (del_where p m)) + j = card (dom m)" using del [of p] by (simp add: j_def)
    moreover have c: "counter_exec op m n = n - of_nat j"
      unfolding OpDeleteWhere counter_exec.simps exec_num.simps j_def by (rule refl)
    have "map_exec op m = del_where p m" using OpDeleteWhere by simp
    ultimately show ?thesis unfolding c using le by auto
  next
    case (OpUpdateOrDelete k u i)
    then show ?thesis
      using facts cards by (cases "m k"; cases i; cases "snd (u (the (m k)))") (auto simp del: dom_fun_upd)
  next
    case (OpUpdate k u)
    then show ?thesis using facts cards by (cases "m k") (auto simp del: dom_fun_upd)
  qed (use facts cards in \<open>auto simp del: dom_fun_upd simp: dom_upd_where\<close>)
  then show "card (dom (map_exec op m)) \<le> unat (counter_exec op m n)" "unat (counter_exec op m n) \<le> unat n + 1"
    "card (dom m) = unat n \<Longrightarrow> counts_exactly op m \<Longrightarrow> card (dom (map_exec op m)) = unat (counter_exec op m n)" by auto
qed

context rocksdb_table
begin

lemma run_counter:
  assumes "rdb_holds D ts t m" and "list_all (ok_op ts) ops"
    and "card (dom m) \<le> unat (rNumRecords t)" and "unat (rNumRecords t) + length ops < 2 ^ 64"
    and "rdb_run D ts ops t = Inr t'"
  shows "card (dom (fold map_exec ops m)) \<le> unat (rNumRecords t') \<and>
    (card (dom m) = unat (rNumRecords t) \<and> all_counted ops m \<longrightarrow> card (dom (fold map_exec ops m)) = unat (rNumRecords t'))"
  using assms
proof (induction ops arbitrary: t m)
  case (Cons op ops)
  obtain d where d: "rdb t = Some d" "rdb_rep ts (db_Get D d) m" using Cons.prems(1) by (auto simp: rdb_holds_def)
  have fin: "finite (dom m)" by (rule entries_card(2) [OF laws d(2)])
  have b: "unat (rNumRecords t) + 1 < 2 ^ 64" using Cons.prems(4) by simp
  note step = counter_step [OF fin Cons.prems(3) b, of op]
  obtain t1 where t1: "rdb_exec D ts op t = Inr (t1, exec_num op m)" "rdb_holds D ts t1 (map_exec op m)"
    "rNumRecords t1 = counter_exec op m (rNumRecords t)"
    using exec_yields [of ts t m op] Cons.prems(1,2) by (auto simp: yields_def)
  have "unat (rNumRecords t1) + length ops < 2 ^ 64" using step(2) t1(3) Cons.prems(4) by simp
  from Cons.IH [OF t1(2) _ _ this] show ?case using step t1 Cons.prems(2,5) by simp
qed simp

end

section \<open>Iterators\<close>

lemma rit_skip_filter:
  assumes "\<forall>e \<in> set kts. tuple_ok ts (snd e)"
  shows "rit_skip ts p (map entry_bytes kts) = Inr (map entry_bytes (dropWhile (\<lambda>e. \<not> p (snd e)) kts))"
  using assms by (induction kts) (simp_all add: slice_tuple_bytes)

lemma rit_collect_filter:
  assumes "\<forall>e \<in> set kts. tuple_ok ts (snd e)" and "a < length s"
    and "s ! a = map entry_bytes (dropWhile (\<lambda>e. \<not> p (snd e)) kts)" and "length kts < n"
  shows "rit_collect n ts s \<lparr>ri_iter = Some a, ri_pred = p\<rparr> = Some (Inr (filter p (map snd kts)))"
  using assms
proof (induction n arbitrary: kts s)
  case (Suc n)
  let ?rest = "dropWhile (\<lambda>e. \<not> p (snd e)) kts"
  have drop: "filter p (map snd kts) = filter p (map snd ?rest)" by (induction kts) auto
  show ?case
  proof (cases ?rest)
    case Nil
    then show ?thesis using Suc.prems drop by (simp add: rit_isValid_def rit_load_def)
  next
    case (Cons e es)
    have e: "e \<in> set kts" "set es \<subseteq> set kts" using Cons set_dropWhileD [of _ "\<lambda>e. \<not> p (snd e)" kts] by auto
    have pe: "p (snd e)" using Cons hd_dropWhile [of "\<lambda>e. \<not> p (snd e)" kts] by force
    have len: "length es < n" using Suc.prems(4) Cons length_dropWhile_le [of "\<lambda>e. \<not> p (snd e)" kts] by simp
    have ok: "\<forall>e \<in> set es. tuple_ok ts (snd e)" using Suc.prems(1) e by auto
    let ?s = "s[a := map entry_bytes (dropWhile (\<lambda>e. \<not> p (snd e)) es)]"
    have "rit_collect n ts ?s \<lparr>ri_iter = Some a, ri_pred = p\<rparr> = Some (Inr (filter p (map snd es)))"
      by (rule Suc.IH [OF ok _ _ len]) (use Suc.prems(2) in simp_all)
    then show ?thesis
      using Suc.prems(1,2,3) Cons drop pe e(1)
      by (simp add: rit_isValid_def rit_load_def rit_deref_def rit_inc_def rit_skip_filter [OF ok] slice_tuple_bytes)
  qed
qed simp

context rocksdb_table
begin

lemma select_scan:
  assumes "rdb_holds D ts t m"
  shows "\<exists>s' it kts. rdb_select D ts t s p = Inr (s', it) \<and> distinct (map fst kts) \<and> map_of kts = m \<and>
    (\<forall>n. card (dom m) < n \<longrightarrow> rit_collect n ts s' it = Some (Inr (filter p (map snd kts))))"
proof -
  obtain d where d: "rdb t = Some d" "rdb_rep ts (db_Get D d) m" using assms by (auto simp: rdb_holds_def)
  obtain kts where kts: "db_entries D d = map entry_bytes kts" "distinct (map fst kts)" "map_of kts = m"
    "\<forall>e \<in> set kts. tuple_ok ts (snd e)" by (rule entries_abs [OF laws d(2)])
  have len: "length kts = card (dom m)" using entries_card(1) [OF laws d(2)] kts(1) by simp
  let ?s = "s @ [map entry_bytes (dropWhile (\<lambda>e. \<not> p (snd e)) kts)]"
  have "rdb_select D ts t s p = Inr (?s, \<lparr>ri_iter = Some (length s), ri_pred = p\<rparr>)"
    by (simp add: rdb_select_def deref_db_def d(1) makeRDBTableIterator_def kts(1) rit_skip_filter [OF kts(4)])
  moreover have "rit_collect n ts ?s \<lparr>ri_iter = Some (length s), ri_pred = p\<rparr> = Some (Inr (filter p (map snd kts)))"
    if "card (dom m) < n" for n using that len by (intro rit_collect_filter [OF kts(4)]) simp_all
  ultimately show ?thesis using kts(2,3) by blast
qed

end

lemma rit_inc_same: "rit_inc ts s it = Inr (s', it') \<Longrightarrow> it' = it"
  by (cases "rit_load s it"; cases "snd (projr (rit_load s it))";
      cases "rit_skip ts (ri_pred it) (tl (snd (projr (rit_load s it))))") (auto simp: rit_inc_def)

text \<open>
  The post-increment copies the iterator before it moves, but the copy shares the position:
  both results refer to the next record.
\<close>

lemma postincrement_shares_position:
  assumes "rit_postinc ts s it = Inr (s', it', tmp)"
  shows "tmp = it'" and "rit_deref ts s' tmp = rit_deref ts s' it'"
proof -
  show "tmp = it'"
    using assms rit_inc_same [of ts s it] by (cases "rit_inc ts s it") (auto simp: rit_postinc_def)
  then show "rit_deref ts s' tmp = rit_deref ts s' it'" by simp
qed

section \<open>Properties\<close>

text \<open>
  (C20) The table is a persistent map. If RocksDB behaves as documented and no input or output
  fails, then every sequence of inserts, deletes, updates and predicate-driven updates and
  deletes on a table that holds a map runs without error; closing the table and opening it
  again succeeds, and the opened table holds exactly the map that the sequence of operations
  means: \<open>getByKey\<close> returns the last tuple written for each key and throws for the others,
  \<open>size\<close> is the exact number of records, and a scan with a predicate visits exactly the
  records that satisfy it, each once.
\<close>

theorem reopened_table_complete:
  assumes "rocksdb_laws D" and "rocksdb_healthy D" and "rdb_holds D ts t m" and "list_all (ok_op ts) ops"
  shows "\<exists>t1 t2. rdb_run D ts ops t = Inr t1 \<and> RDBTable_new D (RDBTable_delete t1 dir) (rTableName t) = Inr t2 \<and>
    (\<forall>k. rdb_getByKey D ts t2 k = (case fold map_exec ops m k of Some v \<Rightarrow> Inr v | None \<Rightarrow> Inl KeyNotFound)) \<and>
    rdb_size t2 = of_nat (card (dom (fold map_exec ops m))) \<and>
    (\<exists>s' it kts. rdb_select D ts t2 s p = Inr (s', it) \<and> distinct (map fst kts) \<and> map_of kts = fold map_exec ops m \<and>
       (\<forall>n. card (dom (fold map_exec ops m)) < n \<longrightarrow> rit_collect n ts s' it = Some (Inr (filter p (map snd kts)))))"
proof -
  have T: "rocksdb_table D" using assms(1,2) by (rule rocksdb_table.intro)
  obtain t1 where t1: "rdb_run D ts ops t = Inr t1" "rdb_holds D ts t1 (fold map_exec ops m)" "rTableName t1 = rTableName t"
    using rocksdb_table.run_holds [OF T assms(3,4)] by blast
  obtain t2 where t2: "RDBTable_new D (RDBTable_delete t1 dir) (rTableName t) = Inr t2"
    "rdb_holds D ts t2 (fold map_exec ops m)" "rNumRecords t2 = of_nat (card (dom (fold map_exec ops m)))"
    using rocksdb_table.reopen_holds [OF T t1(2), of dir] t1(3) by auto
  show ?thesis
    using t1(1) t2(1,3) rocksdb_table.getByKey_holds [OF T t2(2)] rocksdb_table.select_scan [OF T t2(2), of s p]
    by (auto simp: rdb_size_def)
qed

text \<open>
  (C40) \<open>size\<close> is an upper bound. As long as the counter cannot wrap around, it never reports
  fewer records than the table holds, whatever operations are run; it is exact when no
  insert replaced a record and no \<open>updateOrDeleteByKey\<close> deleted one.
\<close>

theorem rdb_size_bounds:
  assumes "rocksdb_laws D" and "rocksdb_healthy D" and "rdb_holds D ts t m" and "list_all (ok_op ts) ops"
    and "card (dom m) \<le> unat (rdb_size t)" and "unat (rdb_size t) + length ops < 2 ^ 64"
  shows "\<exists>t'. rdb_run D ts ops t = Inr t' \<and> card (dom (fold map_exec ops m)) \<le> unat (rdb_size t') \<and>
    (card (dom m) = unat (rdb_size t) \<and> all_counted ops m \<longrightarrow> unat (rdb_size t') = card (dom (fold map_exec ops m)))"
proof -
  have T: "rocksdb_table D" using assms(1,2) by (rule rocksdb_table.intro)
  obtain t' where t': "rdb_run D ts ops t = Inr t'" using rocksdb_table.run_holds [OF T assms(3,4)] by blast
  then show ?thesis
    using rocksdb_table.run_counter [OF T assms(3,4), of t'] assms(5,6) by (simp add: rdb_size_def)
qed

section \<open>Witnesses and error behaviour\<close>

abbreviation wit_tuple :: "byte \<Rightarrow> Tuple" where
  "wit_tuple b \<equiv> \<lparr>attrs = [SScalar [b]], mNulls = [False]\<rparr>"

abbreviation wit_table :: "(byte list \<times> byte list) list RDBTable" where
  "wit_table \<equiv> \<lparr>rTableName = ''t'', rdb = Some [], rNumRecords = 0, rImmediateObservers = 0, rDeferredObservers = 0,
     rNotified = []\<rparr>"

lemma wit_table_holds: "rdb_holds list_db [TScalar 1] wit_table Map.empty"
  by (simp add: rdb_holds_def rdb_rep_def list_db_def)

lemma wit_table_new: "RDBTable_new list_db Map.empty ''t'' = Inr wit_table"
  by (simp add: RDBTable_new_def rdb_openOrCreateTable_def updateRecordCounter_def deref_db_def list_db_def)

theorem reopened_table_complete_witness:
  "\<exists>t1 t2. rdb_run list_db [TScalar 1] [OpInsert 1 (wit_tuple 7), OpInsert 1 (wit_tuple 8), OpInsert 2 (wit_tuple 9)] wit_table = Inr t1 \<and>
     RDBTable_new list_db (RDBTable_delete t1 Map.empty) ''t'' = Inr t2 \<and>
     rdb_getByKey list_db [TScalar 1] t2 1 = Inr (wit_tuple 8) \<and> rdb_size t2 = 2"
proof -
  let ?ops = "[OpInsert 1 (wit_tuple 7), OpInsert 1 (wit_tuple 8), OpInsert 2 (wit_tuple 9)]"
  have "list_all (ok_op [TScalar 1]) ?ops" by (simp add: tuple_ok_def)
  moreover have "fold map_exec ?ops Map.empty = [1 \<mapsto> wit_tuple 8, 2 \<mapsto> wit_tuple 9]" by (simp add: fun_eq_iff)
  moreover have "card (dom [1 :: 64 word \<mapsto> wit_tuple 8, 2 \<mapsto> wit_tuple 9]) = 2" by simp
  ultimately show ?thesis
    using reopened_table_complete [OF list_db_laws list_db_healthy wit_table_holds, of ?ops Map.empty] by fastforce
qed

theorem rdb_size_bounds_witness:
  "\<exists>t'. rdb_run list_db [TScalar 1] [OpInsert 1 (wit_tuple 7), OpInsert 2 (wit_tuple 8)] wit_table = Inr t' \<and> unat (rdb_size t') = 2"
proof -
  let ?ops = "[OpInsert 1 (wit_tuple 7), OpInsert 2 (wit_tuple 8)]"
  have "list_all (ok_op [TScalar 1]) ?ops" by (simp add: tuple_ok_def)
  moreover have "all_counted ?ops Map.empty" by simp
  moreover have "card (dom (fold map_exec ?ops Map.empty)) = 2" by simp
  ultimately show ?thesis
    using rdb_size_bounds [OF list_db_laws list_db_healthy wit_table_holds, of ?ops] by (auto simp: rdb_size_def)
qed

text \<open>A replaced record is counted twice, and one deleted by \<open>updateOrDeleteByKey\<close> stays counted.\<close>

lemma replaced_record_counted_twice:
  assumes "rocksdb_laws D" "rocksdb_healthy D" "rdb_holds D ts t m" "tuple_ok ts v" "m k = Some v'"
  shows "\<exists>t'. rdb_insert D t k v = Inr t' \<and> rdb_holds D ts t' (m(k \<mapsto> v)) \<and> rdb_size t' = rdb_size t + 1 \<and>
    card (dom (m(k \<mapsto> v))) = card (dom m)"
proof -
  have T: "rocksdb_table D" using assms(1,2) by (rule rocksdb_table.intro)
  obtain t' n where "bind_res (rdb_insert D t k v) (\<lambda>t'. Inr (t', 0 :: nat)) = Inr (t', n)" "rdb_holds D ts t' (m(k \<mapsto> v))"
    "rNumRecords t' = rNumRecords t + 1"
    using rocksdb_table.insert_yields [OF T assms(3,4), of k 0] rocksdb_table.yields_def [OF T] by auto
  then show ?thesis
    using assms(5) by (cases "rdb_insert D t k v") (auto simp: rdb_size_def insert_absorb domI simp del: fun_upd_apply)
qed

context rocksdb_table
begin

lemma deleting_update_keeps_counter:
  assumes "rdb_holds D ts t m" "m k = Some v" "u v = (v', False)"
  shows "\<exists>t'. rdb_updateOrDeleteByKey D ts t k u None = Inr (t', 1) \<and> rdb_holds D ts t' (m(k := None)) \<and>
    rdb_size t' = rdb_size t"
  using assms(1)
proof (cases rule: found [of ts t m k])
  case (some d w)
  then show ?thesis
    using assms(2,3) delete_rep [OF some(2), of k] delete_ok
    by (simp add: rdb_updateOrDeleteByKey_def case_prod_unfold Let_def rdb_holds_def rdb_size_def)
qed (use assms(2) in simp)

end

text \<open>When a write fails, \<open>insert\<close> reports nothing, and its observers hear of a record that is not stored.\<close>

lemma failed_insert_is_announced:
  "\<exists>t'. rdb_insert full_db (rdb_registerObserver wit_table Immediate) k v = Inr t' \<and>
     rNotified t' = [(v, MInsert, Immediate)] \<and> rdb_getByKey full_db ts t' k = Inl KeyNotFound"
  by (simp add: rdb_insert_def serialize_tuple_bytes deref_db_def rdb_registerObserver_def full_db_def list_db_def
      rdb_notifyObservers_def rdb_getByKey_def)

text \<open>\<open>deleteWhere\<close> counts deletions that failed; the counter then wraps around below zero.\<close>

lemma failed_deleteWhere_wraps_counter:
  "\<exists>t1 t2. rdb_deleteWhere full_db [TScalar 1] (wit_table\<lparr>rdb := Some [(valToSlice 1, tuple_bytes (wit_tuple 7))], rNumRecords := 1\<rparr>) (\<lambda>_. True)
       = Inr (t1, 1) \<and> rdb_deleteWhere full_db [TScalar 1] t1 (\<lambda>_. True) = Inr (t2, 1) \<and> unat (rdb_size t2) = 2 ^ 64 - 1"
  by (simp add: rdb_deleteWhere_def deref_db_def full_db_def list_db_def slice_tuple_bytes tuple_ok_def rdb_notifyObservers_def
      rdb_size_def unsigned_minus_1_eq_mask mask_eq_exp_minus_1)

text \<open>After \<open>drop\<close> every operation dereferences a null pointer, until \<open>truncate\<close> opens a new database.\<close>

lemma dropped_table_unusable:
  assumes "rdb_drop t dir = (t', dir')"
  shows "rdb_getByKey D ts t' k = Inl NullPointer" and "rdb_insert D t' k v = Inl NullPointer"
    and "rdb_deleteWhere D ts t' p = Inl NullPointer" and "dir' (rTableName t @ ''.db'') = None"
  using assms by (auto simp: rdb_drop_def rdb_getByKey_def rdb_insert_def rdb_deleteWhere_def deref_db_def serialize_tuple_bytes)

lemma truncate_empties:
  assumes "rocksdb_laws D" "rocksdb_healthy D"
  shows "\<exists>t' dir'. rdb_truncate D t dir = Inr (t', dir') \<and> rdb_holds D ts t' Map.empty \<and> rdb_size t' = 0"
proof -
  obtain d where d: "db_Open D None = Inr d" using assms(2) unfolding rocksdb_healthy_def by blast
  then have "db_Get D d = Map.empty" using assms(1) by (auto simp: rocksdb_laws_def)
  then have rep: "rdb_rep ts (db_Get D d) Map.empty" by (simp add: rdb_rep_def)
  then show ?thesis
    using entries_card(1) [OF assms(1) rep] d
    by (simp add: rdb_truncate_def Let_def rdb_openOrCreateTable_def updateRecordCounter_def deref_db_def rdb_holds_def rdb_size_def)
qed

end
