(* ===== verification/Pbptree_Table.thy ===== *)
theory Pbptree_Table
  imports Hash_Table Tuples "HOL-Library.AList"
begin

text \<open>
  The persistent-memory table of \<open>table/PBPTreeTable.hpp\<close>. The B+-tree and the pools of the
  persistent-memory library are not part of this code base. The tree is a record of the
  operations the table calls, with their documented behaviour in \<open>pbptree_laws\<close>. A pool is
  its path and the tree its root object refers to; changes of the tree are changes of the
  pool, there is nothing to write back. The table stores the attributes of a tuple
  (\<open>rec.data()\<close>), not its null flags.
\<close>

section \<open>The tree as a parameter\<close>

record 't pbptree =
  bt_new :: 't
  bt_lookup :: "'t \<Rightarrow> 64 word \<Rightarrow> sval list option"
  bt_insert :: "'t \<Rightarrow> 64 word \<Rightarrow> sval list \<Rightarrow> 't"
  bt_assign :: "'t \<Rightarrow> 64 word \<Rightarrow> sval list \<Rightarrow> 't"
  bt_erase :: "'t \<Rightarrow> 64 word \<Rightarrow> 't \<times> bool"
  bt_entries :: "'t \<Rightarrow> (64 word \<times> sval list) list"

text \<open>
  \<open>lookup\<close> copies the value and \<open>lookupRef\<close> returns a pointer to it; \<open>bt_assign\<close> is an
  assignment through this pointer. \<open>bt_entries\<close> is what the iterators from \<open>begin\<close> to \<open>end\<close> visit.
\<close>

definition pbptree_laws :: "'t pbptree \<Rightarrow> bool" where
  "pbptree_laws B \<longleftrightarrow>
     bt_lookup B (bt_new B) = Map.empty \<and>
     (\<forall>b k v. bt_lookup B b k = None \<longrightarrow> bt_lookup B (bt_insert B b k v) = (bt_lookup B b)(k \<mapsto> v)) \<and>
     (\<forall>b k v. bt_lookup B b k \<noteq> None \<longrightarrow> bt_lookup B (bt_assign B b k v) = (bt_lookup B b)(k \<mapsto> v)) \<and>
     (\<forall>b k. bt_lookup B (fst (bt_erase B b k)) = (bt_lookup B b)(k := None) \<and>
        snd (bt_erase B b k) = (bt_lookup B b k \<noteq> None)) \<and>
     (\<forall>b. distinct (map fst (bt_entries B b)) \<and> map_of (bt_entries B b) = bt_lookup B b)"

definition list_tree :: "(64 word \<times> sval list) list pbptree" where
  "list_tree =
     \<lparr>bt_new = [], bt_lookup = (\<lambda>b. map_of b), bt_insert = (\<lambda>b k v. (k, v) # b),
      bt_assign = (\<lambda>b k v. umap_assign k v b), bt_erase = (\<lambda>b k. (umap_erase k b, map_of b k \<noteq> None)),
      bt_entries = AList.clearjunk\<rparr>"

lemma list_tree_laws: "pbptree_laws list_tree"
  by (auto simp: pbptree_laws_def list_tree_def map_of_erase map_of_assign distinct_clearjunk map_of_clearjunk fun_eq_iff)

section \<open>The table\<close>

text \<open>
  \<open>pPools\<close> are the pool files (a pool whose root object was deleted has no tree), \<open>pLive\<close> tells
  that the root pointer \<open>q\<close> is not null.
\<close>

record 't PBPTreeTable =
  pTableName :: string
  pPath :: string
  pPools :: "string \<rightharpoonup> 't option"
  pLive :: bool
  pImmediateObservers :: nat
  pDeferredObservers :: nat
  pNotified :: "(Tuple \<times> ModificationMode \<times> NotificationMode) list"

text \<open>After \<open>drop\<close> the member \<open>btree\<close> still points to the deleted tree.\<close>

definition deref_btree :: "'t PBPTreeTable \<Rightarrow> 't res" where
  "deref_btree t =
     (if \<not> pLive t then Inl UseAfterErase
      else case pPools t (pPath t) of Some (Some b) \<Rightarrow> Inr b | _ \<Rightarrow> Inl NullPointer)"

definition set_btree :: "'t \<Rightarrow> 't PBPTreeTable \<Rightarrow> 't PBPTreeTable" where
  "set_btree b t = t\<lparr>pPools := (pPools t)(pPath t \<mapsto> Some b)\<rparr>"

definition pbp_registerObserver :: "'t PBPTreeTable \<Rightarrow> NotificationMode \<Rightarrow> 't PBPTreeTable" where
  "pbp_registerObserver t mode =
     (case mode of Immediate \<Rightarrow> t\<lparr>pImmediateObservers := pImmediateObservers t + 1\<rparr>
      | OnCommit \<Rightarrow> t\<lparr>pDeferredObservers := pDeferredObservers t + 1\<rparr>)"

definition pbp_notifyObservers ::
  "'t PBPTreeTable \<Rightarrow> Tuple \<Rightarrow> ModificationMode \<Rightarrow> NotificationMode \<Rightarrow> 't PBPTreeTable" where
  "pbp_notifyObservers t rec mode notify =
     (if (if notify = Immediate then pImmediateObservers t else pDeferredObservers t) > 0
      then t\<lparr>pNotified := pNotified t @ [(rec, mode, notify)]\<rparr> else t)"

text \<open>\<open>openOrCreateTable\<close> and the constructors; \<open>gPmemPath\<close> is the configured directory prefix.\<close>

definition pbp_openOrCreateTable ::
  "'t pbptree \<Rightarrow> string \<Rightarrow> string \<Rightarrow> 't PBPTreeTable \<Rightarrow> 't PBPTreeTable" where
  "pbp_openOrCreateTable B gPmemPath tableName t =
     (let path = gPmemPath @ tableName @ ''.db'';
          pools = (if pPools t path = None then (pPools t)(path \<mapsto> Some (bt_new B)) else pPools t)
      in t\<lparr>pPath := path, pPools := pools, pLive := True\<rparr>)"

definition PBPTreeTable_new :: "'t pbptree \<Rightarrow> string \<Rightarrow> (string \<rightharpoonup> 't option) \<Rightarrow> string \<Rightarrow> 't PBPTreeTable" where
  "PBPTreeTable_new B gPmemPath pools tableName =
     pbp_openOrCreateTable B gPmemPath tableName
       \<lparr>pTableName = tableName, pPath = [], pPools = pools, pLive = False, pImmediateObservers = 0,
        pDeferredObservers = 0, pNotified = []\<rparr>"

definition pbp_insert :: "'t pbptree \<Rightarrow> 't PBPTreeTable \<Rightarrow> 64 word \<Rightarrow> Tuple \<Rightarrow> 't PBPTreeTable res" where
  "pbp_insert B t key rec =
     bind_res (deref_btree t) (\<lambda>b.
       if bt_lookup B b key \<noteq> None
       then Inr (pbp_notifyObservers (set_btree (bt_assign B b key (attrs rec)) t) rec MUpdate Immediate)
       else Inr (pbp_notifyObservers (set_btree (bt_insert B b key (attrs rec)) t) rec MInsert Immediate))"

definition pbp_deleteByKey :: "'t pbptree \<Rightarrow> 't PBPTreeTable \<Rightarrow> 64 word \<Rightarrow> ('t PBPTreeTable \<times> nat) res" where
  "pbp_deleteByKey B t key =
     bind_res (deref_btree t) (\<lambda>b. let (b', ok) = bt_erase B b key in Inr (set_btree b' t, of_bool ok))"

text \<open>These three are stubs.\<close>

definition pbp_deleteWhere :: "'t PBPTreeTable \<Rightarrow> (Tuple \<Rightarrow> bool) \<Rightarrow> 't PBPTreeTable \<times> nat" where
  "pbp_deleteWhere t func = (t, 0)"

definition pbp_updateOrDeleteByKey ::
  "'t PBPTreeTable \<Rightarrow> 64 word \<Rightarrow> (sval list \<Rightarrow> sval list \<times> bool) \<Rightarrow> 't PBPTreeTable \<times> nat" where
  "pbp_updateOrDeleteByKey t key ufunc = (t, 0)"

definition pbp_updateWhere ::
  "'t PBPTreeTable \<Rightarrow> (Tuple \<Rightarrow> bool) \<Rightarrow> (sval list \<Rightarrow> sval list) \<Rightarrow> 't PBPTreeTable \<times> nat" where
  "pbp_updateWhere t pfunc ufunc = (t, 0)"

definition pbp_getAsRef :: "'t pbptree \<Rightarrow> 't PBPTreeTable \<Rightarrow> 64 word \<Rightarrow> sval list option res" where
  "pbp_getAsRef B t key = bind_res (deref_btree t) (\<lambda>b. Inr (bt_lookup B b key))"

text \<open>\<open>updateByKey\<close> changes the value in place and notifies nobody.\<close>

definition pbp_updateByKey ::
  "'t pbptree \<Rightarrow> 't PBPTreeTable \<Rightarrow> 64 word \<Rightarrow> (sval list \<Rightarrow> sval list) \<Rightarrow> ('t PBPTreeTable \<times> nat) res" where
  "pbp_updateByKey B t key ufunc =
     bind_res (deref_btree t) (\<lambda>b.
     bind_res (pbp_getAsRef B t key) (\<lambda>ref.
       case ref of Some val \<Rightarrow> Inr (set_btree (bt_assign B b key (ufunc val)) t, 1) | None \<Rightarrow> Inr (t, 0)))"

text \<open>
  \<open>"Key not found: " + key\<close> moves a pointer into the literal: the message loses its first
  characters, and a key past the literal makes the exception read outside it.
\<close>

definition key_not_found :: "64 word \<Rightarrow> op_error" where
  "key_not_found key =
     (let s = ''Key not found: ''
      in if unat key \<le> length s then TableException (drop (unat key) s) else OutOfBounds)"

definition pbp_getByKey :: "'t pbptree \<Rightarrow> 't PBPTreeTable \<Rightarrow> 64 word \<Rightarrow> Tuple res" where
  "pbp_getByKey B t key =
     bind_res (deref_btree t) (\<lambda>b.
       case bt_lookup B b key of Some tt \<Rightarrow> Inr (Tuple_new tt) | None \<Rightarrow> Inl (key_not_found key))"

definition pbp_getByKey_out :: "'t pbptree \<Rightarrow> 't PBPTreeTable \<Rightarrow> 64 word \<Rightarrow> Tuple option res" where
  "pbp_getByKey_out B t key = bind_res (deref_btree t) (\<lambda>b. Inr (map_option Tuple_new (bt_lookup B b key)))"

definition pbp_size :: "'t pbptree \<Rightarrow> 't PBPTreeTable \<Rightarrow> nat res" where
  "pbp_size B t = bind_res (deref_btree t) (\<lambda>b. Inr (length (bt_entries B b)))"

text \<open>
  \<open>drop\<close> deletes the tree and the root object, but removes the file \<open>tableName.db\<close> of the
  working directory, not the pool file. A second \<open>drop\<close> dereferences the null pointer \<open>q\<close>;
  \<open>truncate\<close> after it uses the closed pool.
\<close>

definition pbp_drop :: "'t PBPTreeTable \<Rightarrow> 't PBPTreeTable res" where
  "pbp_drop t =
     (if \<not> pLive t then Inl NullPointer
      else Inr (t\<lparr>pPools := ((pPools t)(pPath t \<mapsto> None))(pTableName t @ ''.db'' := None), pLive := False\<rparr>))"

definition pbp_truncate :: "'t pbptree \<Rightarrow> 't PBPTreeTable \<Rightarrow> 't PBPTreeTable res" where
  "pbp_truncate B t = (if \<not> pLive t then Inl NullPointer else Inr (set_btree (bt_new B) t))"

subsection \<open>Iterators\<close>

text \<open>The entries from the position to the end, and the predicate; copies move independently.\<close>

record PBPTreeIterator =
  pit_rest :: "(64 word \<times> sval list) list"
  pit_pred :: "Tuple \<Rightarrow> bool"

definition makePBPTreeIterator :: "(64 word \<times> sval list) list \<Rightarrow> (Tuple \<Rightarrow> bool) \<Rightarrow> PBPTreeIterator" where
  "makePBPTreeIterator es p = \<lparr>pit_rest = dropWhile (\<lambda>e. \<not> p (Tuple_new (snd e))) es, pit_pred = p\<rparr>"

definition pit_isValid :: "PBPTreeIterator \<Rightarrow> bool" where
  "pit_isValid it \<longleftrightarrow> pit_rest it \<noteq> []"

definition pit_inc :: "PBPTreeIterator \<Rightarrow> PBPTreeIterator res" where
  "pit_inc it =
     (case pit_rest it of [] \<Rightarrow> Inl OutOfBounds
      | _ # es \<Rightarrow> Inr (it\<lparr>pit_rest := dropWhile (\<lambda>e. \<not> pit_pred it (Tuple_new (snd e))) es\<rparr>))"

definition pit_postinc :: "PBPTreeIterator \<Rightarrow> (PBPTreeIterator \<times> PBPTreeIterator) res" where
  "pit_postinc it = bind_res (pit_inc it) (\<lambda>it'. Inr (it', it))"

definition pit_deref :: "PBPTreeIterator \<Rightarrow> Tuple res" where
  "pit_deref it = (case pit_rest it of [] \<Rightarrow> Inl OutOfBounds | e # _ \<Rightarrow> Inr (Tuple_new (snd e)))"

definition pbp_select :: "'t pbptree \<Rightarrow> 't PBPTreeTable \<Rightarrow> (Tuple \<Rightarrow> bool) \<Rightarrow> PBPTreeIterator res" where
  "pbp_select B t func = bind_res (deref_btree t) (\<lambda>b. Inr (makePBPTreeIterator (bt_entries B b) func))"

definition pbp_select_all :: "'t pbptree \<Rightarrow> 't PBPTreeTable \<Rightarrow> PBPTreeIterator res" where
  "pbp_select_all B t = bind_res (deref_btree t) (\<lambda>b. Inr (makePBPTreeIterator (bt_entries B b) (\<lambda>_. True)))"

text \<open>The loop \<open>for (; it.isValid(); ++it) use(*it)\<close>, with fuel.\<close>

fun pit_collect :: "nat \<Rightarrow> PBPTreeIterator \<Rightarrow> Tuple list res option" where
  "pit_collect 0 it = None"
| "pit_collect (Suc n) it =
     (if pit_isValid it
      then (case (pit_deref it, pit_inc it) of
              (Inr v, Inr it') \<Rightarrow> map_option (map_sum id (\<lambda>vs. v # vs)) (pit_collect n it')
            | (Inl e, _) \<Rightarrow> Some (Inl e)
            | (_, Inl e) \<Rightarrow> Some (Inl e))
      else Some (Inr []))"

section \<open>Lemmas\<close>

definition pbp_ready :: "'t PBPTreeTable \<Rightarrow> bool" where
  "pbp_ready t \<longleftrightarrow> (\<exists>b. deref_btree t = Inr b)"

definition pbp_map :: "'t pbptree \<Rightarrow> 't PBPTreeTable \<Rightarrow> 64 word \<rightharpoonup> sval list" where
  "pbp_map B t = (case deref_btree t of Inr b \<Rightarrow> bt_lookup B b | Inl _ \<Rightarrow> Map.empty)"

lemma deref_set_btree [simp]: "pLive t \<Longrightarrow> deref_btree (set_btree b t) = Inr b"
  by (simp add: deref_btree_def set_btree_def)

lemma deref_notify [simp]: "deref_btree (pbp_notifyObservers t r md n) = deref_btree t"
  by (simp add: deref_btree_def pbp_notifyObservers_def)

lemma deref_live: "deref_btree t = Inr b \<Longrightarrow> pLive t"
  by (auto simp: deref_btree_def split: if_splits)

lemma pbp_readyE:
  assumes "pbp_ready t"
  obtains b where "deref_btree t = Inr b" "pLive t" "pbp_map B t = bt_lookup B b"
proof -
  obtain b where "deref_btree t = Inr b" using assms by (auto simp: pbp_ready_def)
  then show thesis using that deref_live [of t b] by (simp add: pbp_map_def)
qed

text \<open>A scan is the scan of the in-memory table over the same entries.\<close>

lemma pit_collect_hash:
  "pit_collect n it = it_collect n \<lparr>it_rest = map (\<lambda>e. (fst e, Tuple_new (snd e))) (pit_rest it), it_pred = pit_pred it\<rparr>"
proof (induction n arbitrary: it)
  case (Suc n)
  then show ?case
    by (cases "pit_rest it")
      (simp_all add: pit_isValid_def it_isValid_def pit_deref_def it_deref_def pit_inc_def it_inc_def dropWhile_map comp_def)
qed simp

lemma pit_collect_select:
  "length es < n \<Longrightarrow> pit_collect n (makePBPTreeIterator es p) = Some (Inr (filter p (map (Tuple_new \<circ> snd) es)))"
  using it_collect_select [of "map (\<lambda>e. (fst e, Tuple_new (snd e))) es" n p]
  by (simp add: pit_collect_hash makePBPTreeIterator_def makeHashMapIterator_def dropWhile_map comp_def)

locale pbptree_impl =
  fixes B :: "'t pbptree"
  assumes laws: "pbptree_laws B"
begin

lemma insert_map:
  assumes "pbp_ready t"
  shows "\<exists>t'. pbp_insert B t k rec = Inr t' \<and> pbp_ready t' \<and> pbp_map B t' = (pbp_map B t)(k \<mapsto> attrs rec)"
proof -
  obtain b where b: "deref_btree t = Inr b" "pLive t" "pbp_map B t = bt_lookup B b" using assms by (rule pbp_readyE)
  then show ?thesis using laws by (auto simp: pbp_insert_def pbp_ready_def pbp_map_def pbptree_laws_def)
qed

lemma delete_map:
  assumes "pbp_ready t"
  shows "\<exists>t'. pbp_deleteByKey B t k = Inr (t', if pbp_map B t k = None then 0 else 1) \<and> pbp_ready t' \<and>
    pbp_map B t' = (pbp_map B t)(k := None)"
proof -
  obtain b where b: "deref_btree t = Inr b" "pLive t" "pbp_map B t = bt_lookup B b" using assms by (rule pbp_readyE)
  then show ?thesis
    using laws by (auto simp: pbp_deleteByKey_def pbp_ready_def pbp_map_def pbptree_laws_def case_prod_unfold)
qed

lemma update_map:
  assumes "pbp_ready t"
  shows "\<exists>t'. pbp_updateByKey B t k u = Inr (t', if pbp_map B t k = None then 0 else 1) \<and> pbp_ready t' \<and>
    pbp_map B t' = (pbp_map B t)(k := map_option u (pbp_map B t k)) \<and> pNotified t' = pNotified t"
proof -
  obtain b where b: "deref_btree t = Inr b" "pLive t" "pbp_map B t = bt_lookup B b" using assms by (rule pbp_readyE)
  show ?thesis
  proof (cases "bt_lookup B b k")
    case None
    with b assms show ?thesis by (auto simp: pbp_updateByKey_def pbp_getAsRef_def)
  next
    case (Some v)
    then have "bt_lookup B (bt_assign B b k (u v)) = (bt_lookup B b)(k \<mapsto> u v)" using laws by (simp add: pbptree_laws_def)
    with b Some show ?thesis
      by (simp add: pbp_updateByKey_def pbp_getAsRef_def pbp_ready_def pbp_map_def) (simp add: set_btree_def)
  qed
qed

lemma get_map:
  assumes "pbp_ready t"
  shows "pbp_getByKey B t k = (case pbp_map B t k of Some v \<Rightarrow> Inr (Tuple_new v) | None \<Rightarrow> Inl (key_not_found k))"
    and "pbp_getByKey_out B t k = Inr (map_option Tuple_new (pbp_map B t k))"
proof -
  obtain b where "deref_btree t = Inr b" "pbp_map B t = bt_lookup B b" using assms by (rule pbp_readyE)
  then show "pbp_getByKey B t k = (case pbp_map B t k of Some v \<Rightarrow> Inr (Tuple_new v) | None \<Rightarrow> Inl (key_not_found k))"
    "pbp_getByKey_out B t k = Inr (map_option Tuple_new (pbp_map B t k))"
    by (simp_all add: pbp_getByKey_def pbp_getByKey_out_def)
qed

lemma size_map:
  assumes "pbp_ready t"
  shows "pbp_size B t = Inr (card (dom (pbp_map B t)))" and "finite (dom (pbp_map B t))"
proof -
  obtain b where b: "deref_btree t = Inr b" "pbp_map B t = bt_lookup B b" using assms by (rule pbp_readyE)
  have e: "distinct (map fst (bt_entries B b))" "map_of (bt_entries B b) = bt_lookup B b" using laws by (auto simp: pbptree_laws_def)
  have "dom (pbp_map B t) = fst ` set (bt_entries B b)" using b e(2) by (metis dom_map_of_conv_image_fst)
  moreover have "card (fst ` set (bt_entries B b)) = length (bt_entries B b)" using distinct_card [OF e(1)] by simp
  ultimately show "pbp_size B t = Inr (card (dom (pbp_map B t)))" "finite (dom (pbp_map B t))"
    using b by (simp_all add: pbp_size_def)
qed

lemma select_map:
  assumes "pbp_ready t"
  shows "\<exists>it kvs. pbp_select B t p = Inr it \<and> distinct (map fst kvs) \<and> map_of kvs = pbp_map B t \<and>
    (\<forall>n. card (dom (pbp_map B t)) < n \<longrightarrow> pit_collect n it = Some (Inr (filter p (map (Tuple_new \<circ> snd) kvs))))"
proof -
  obtain b where b: "deref_btree t = Inr b" "pbp_map B t = bt_lookup B b" using assms by (rule pbp_readyE)
  have e: "distinct (map fst (bt_entries B b))" "map_of (bt_entries B b) = bt_lookup B b" using laws by (auto simp: pbptree_laws_def)
  have "length (bt_entries B b) = card (dom (pbp_map B t))" using size_map(1) [OF assms] b by (simp add: pbp_size_def)
  then show ?thesis using b e pit_collect_select by (auto simp: pbp_select_def)
qed

end

text \<open>A live table is a keyed store of attribute lists; the facts of \<open>kv_store\<close> hold for it.\<close>

sublocale pbptree_impl \<subseteq> kv: kv_store "pbp_map B" "\<lambda>t k v. projr (pbp_insert B t k (Tuple_new v))"
  "\<lambda>t k. fst (projr (pbp_deleteByKey B t k))" pbp_ready
proof unfold_locales
  fix t :: "'t PBPTreeTable" and k v
  assume r: "pbp_ready t"
  show "pbp_map B (projr (pbp_insert B t k (Tuple_new v))) = (pbp_map B t)(k \<mapsto> v)"
    "pbp_ready (projr (pbp_insert B t k (Tuple_new v)))"
    using insert_map [OF r, of k "Tuple_new v"] by (auto simp: Tuple_new_def)
  show "pbp_map B (fst (projr (pbp_deleteByKey B t k))) = (pbp_map B t)(k := None)"
    "pbp_ready (fst (projr (pbp_deleteByKey B t k)))"
    using delete_map [OF r, of k] by auto
qed

interpretation list_pbp: pbptree_impl list_tree
  by unfold_locales (rule list_tree_laws)

lemma new_ready:
  assumes "pools (gPmemPath @ name @ ''.db'') \<noteq> Some None"
  shows "pbp_ready (PBPTreeTable_new B gPmemPath pools name)"
  using assms by (auto simp: pbp_ready_def PBPTreeTable_new_def pbp_openOrCreateTable_def deref_btree_def Let_def)

lemma reopened_has_same_tree:
  assumes "deref_btree t = Inr b" and "pPath t = gPmemPath @ pTableName t @ ''.db''"
  shows "deref_btree (PBPTreeTable_new B gPmemPath (pPools t) (pTableName t)) = Inr b"
  using assms
  by (auto simp: PBPTreeTable_new_def pbp_openOrCreateTable_def deref_btree_def Let_def split: if_splits option.splits)

text \<open>
  After \<open>drop\<close> the pool file is still there without its tree: a table of the same name
  opens it instead of creating a new one, and no operation on it succeeds.
\<close>

lemma dropped_pool_stays:
  assumes "pbp_drop t = Inr t'" and "pPath t = gPmemPath @ pTableName t @ ''.db''" and "gPmemPath \<noteq> []"
  shows "pPools t' (pPath t) = Some None"
    and "deref_btree (PBPTreeTable_new B gPmemPath (pPools t') (pTableName t)) = Inl NullPointer"
    and "pbp_getByKey B t' k = Inl UseAfterErase"
  using assms
  by (auto simp: pbp_drop_def PBPTreeTable_new_def pbp_openOrCreateTable_def deref_btree_def pbp_getByKey_def Let_def
      split: if_splits)

lemma truncate_empties_tree:
  assumes "pbptree_laws B" and "pbp_ready t"
  shows "\<exists>t'. pbp_truncate B t = Inr t' \<and> pbp_ready t' \<and> pbp_map B t' = Map.empty"
  using assms deref_live by (auto simp: pbp_ready_def pbp_truncate_def pbp_map_def pbptree_laws_def)

text \<open>Reading a missing key: the message is cut, and from key 16 on the read is out of bounds.\<close>

lemma missing_key_message:
  assumes "pbp_ready t" and "pbp_map B t k = None" and "15 < unat k"
  shows "pbp_getByKey B t k = Inl OutOfBounds"
  using assms by (auto simp: pbp_ready_def pbp_map_def pbp_getByKey_def key_not_found_def)

end
