(* ===== verification/Tuplify.thy ===== *)
theory Tuplify
  imports Pf_Prelude "HOL-Library.Multiset"
begin

text \<open>
  The operator of \<open>qop/Tuplifier.hpp\<close>: RDF triples with a common subject become one tuple whose
  attributes are the objects of a list of predicates. The \<open>boost::unordered_map\<close>s are
  association lists with distinct keys in iteration order, which the library leaves open. The creation of a tuple
  from strings, \<open>create\<close> of the element traits, is a parameter because it depends on the types of the attributes; the
  timestamp extractor is a parameter as in the source. The mutex of the buffer is not modelled: the
  callback of the notifier is an operation of its own between two handlers.
\<close>

section \<open>State\<close>

datatype TuplifyMode = ORDERED | WINDOW | PUNCTUATED | COMPLETED

type_synonym triple = "string \<times> string \<times> string"

record BufferItem =
  tripleList :: "triple list"
  matches :: nat
  arrivalTime :: nat

record Tuplifier =
  tupleBuffer :: "(string \<times> BufferItem) list"
  predicates :: "(string \<times> nat) list"
  tmode :: TuplifyMode
  currentSubj :: string

text \<open>\<open>insert\<close> keeps the entry of a predicate that is listed twice, but its number is used up.\<close>

fun insert_predicates :: "string list \<Rightarrow> nat \<Rightarrow> (string \<times> nat) list \<Rightarrow> (string \<times> nat) list" where
  "insert_predicates [] i pm = pm"
| "insert_predicates (p # ps) i pm =
     insert_predicates ps (Suc i) (if p \<in> fst ` set pm then pm else pm @ [(p, Suc i)])"

definition Tuplifier_new :: "string list \<Rightarrow> TuplifyMode \<Rightarrow> Tuplifier" where
  "Tuplifier_new predList m = \<lparr>tupleBuffer = [], predicates = insert_predicates predList 0 [], tmode = m, currentSubj = []\<rparr>"

section \<open>Operations\<close>

definition addToBuffer :: "(triple \<Rightarrow> nat) option \<Rightarrow> triple \<Rightarrow> Tuplifier \<Rightarrow> Tuplifier" where
  "addToBuffer mTimestampExtractor data s =
     (case data of (subj, pred, obj) \<Rightarrow>
        if pred \<notin> fst ` set (predicates s) then s
        else (case map_of (tupleBuffer s) subj of
            Some item \<Rightarrow> s\<lparr>tupleBuffer := map (\<lambda>(k, b). (k, if k = subj
                then b\<lparr>matches := Suc (matches b), tripleList := tripleList b @ [data]\<rparr> else b)) (tupleBuffer s)\<rparr>
          | None \<Rightarrow> s\<lparr>tupleBuffer := tupleBuffer s @ [(subj, \<lparr>tripleList = [data], matches = 1,
                arrivalTime = (case mTimestampExtractor of None \<Rightarrow> 0 | Some f \<Rightarrow> f data)\<rparr>)]\<rparr>))"

text \<open>The loop of \<open>produceTuple\<close> over the triples.\<close>

fun fill_data :: "(string \<times> nat) list \<Rightarrow> triple list \<Rightarrow> string list \<Rightarrow> string list res" where
  "fill_data pm [] data = Inr data"
| "fill_data pm ((subj, pred, obj) # ts) data =
     (case map_of pm pred of
        None \<Rightarrow> Inl AssertFailed
      | Some field \<Rightarrow> if field < length data then fill_data pm ts (data[field := obj]) else Inl OutOfBounds)"

definition produceTuple :: "(string list \<Rightarrow> 'b res) \<Rightarrow> (string \<times> nat) list \<Rightarrow> triple list \<Rightarrow> 'b res" where
  "produceTuple create pm tbuf =
     (case tbuf of
        [] \<Rightarrow> Inl EmptyAccess
      | t # ts \<Rightarrow> bind_res (fill_data pm tbuf ((replicate (length pm + 1) [])[0 := fst t])) create)"

definition produceTupleForSubject :: "(string list \<Rightarrow> 'b res) \<Rightarrow> string \<Rightarrow> Tuplifier \<Rightarrow> (Tuplifier \<times> 'b event list) res" where
  "produceTupleForSubject create subj s =
     (case map_of (tupleBuffer s) subj of
        None \<Rightarrow> Inr (s, [])
      | Some item \<Rightarrow> bind_res (produceTuple create (predicates s) (tripleList item)) (\<lambda>tn.
          Inr (s\<lparr>tupleBuffer := filter (\<lambda>(k, b). k \<noteq> subj) (tupleBuffer s)\<rparr>, [Data tn False])))"

fun complete_loop :: "(string list \<Rightarrow> 'b res) \<Rightarrow> (string \<times> nat) list \<Rightarrow> (string \<times> BufferItem) list \<Rightarrow> ((string \<times> BufferItem) list \<times> 'b event list) res" where
  "complete_loop create pm [] = Inr ([], [])"
| "complete_loop create pm ((k, bitem) # bs) =
     (if matches bitem = length pm
      then bind_res (produceTuple create pm (tripleList bitem)) (\<lambda>tn.
           bind_res (complete_loop create pm bs) (\<lambda>(bs', out). Inr (bs', Data tn False # out)))
      else bind_res (complete_loop create pm bs) (\<lambda>(bs', out). Inr ((k, bitem) # bs', out)))"

definition produceCompleteTuples :: "(string list \<Rightarrow> 'b res) \<Rightarrow> Tuplifier \<Rightarrow> (Tuplifier \<times> 'b event list) res" where
  "produceCompleteTuples create s =
     bind_res (complete_loop create (predicates s) (tupleBuffer s)) (\<lambda>(bs, out). Inr (s\<lparr>tupleBuffer := bs\<rparr>, out))"

fun all_loop :: "(string list \<Rightarrow> 'b res) \<Rightarrow> (string \<times> nat) list \<Rightarrow> (string \<times> BufferItem) list \<Rightarrow> 'b event list res" where
  "all_loop create pm [] = Inr []"
| "all_loop create pm ((k, bitem) # bs) =
     bind_res (produceTuple create pm (tripleList bitem)) (\<lambda>tn.
     bind_res (all_loop create pm bs) (\<lambda>out. Inr (Data tn False # out)))"

definition produceAllTuples :: "(string list \<Rightarrow> 'b res) \<Rightarrow> Tuplifier \<Rightarrow> (Tuplifier \<times> 'b event list) res" where
  "produceAllTuples create s = bind_res (all_loop create (predicates s) (tupleBuffer s)) (\<lambda>out. Inr (s\<lparr>tupleBuffer := []\<rparr>, out))"

fun outdated_loop :: "(string list \<Rightarrow> 'b res) \<Rightarrow> (string \<times> nat) list \<Rightarrow> (string \<times> BufferItem) list \<Rightarrow> ((string \<times> BufferItem) list \<times> 'b event list) res" where
  "outdated_loop create pm [] = Inr ([], [])"
| "outdated_loop create pm ((k, bitem) # bs) =
     (if arrivalTime bitem = 0
      then bind_res (produceTuple create pm (tripleList bitem)) (\<lambda>tn.
           bind_res (outdated_loop create pm bs) (\<lambda>(bs', out). Inr (bs', Data tn False # out)))
      else bind_res (outdated_loop create pm bs) (\<lambda>(bs', out). Inr ((k, bitem) # bs', out)))"

definition notificationCallback :: "(string list \<Rightarrow> 'b res) \<Rightarrow> Tuplifier \<Rightarrow> (Tuplifier \<times> 'b event list) res" where
  "notificationCallback create s =
     bind_res (outdated_loop create (predicates s) (tupleBuffer s)) (\<lambda>(bs, out). Inr (s\<lparr>tupleBuffer := bs\<rparr>, out))"

text \<open>The handlers; the flag for outdated tuples is not looked at.\<close>

definition tuplifier_data :: "(string list \<Rightarrow> 'b res) \<Rightarrow> (triple \<Rightarrow> nat) option \<Rightarrow> triple \<Rightarrow> Tuplifier \<Rightarrow> (Tuplifier \<times> 'b event list) res" where
  "tuplifier_data create tsx data s =
     (let subj = fst data in
      if tmode s = ORDERED
      then (if currentSubj s = [] \<or> subj = currentSubj s
            then Inr (let s1 = addToBuffer tsx data s in if currentSubj s1 = [] then s1\<lparr>currentSubj := subj\<rparr> else s1, [])
            else bind_res (produceTupleForSubject create (currentSubj s) s) (\<lambda>(s1, out).
                   Inr (addToBuffer tsx data (s1\<lparr>currentSubj := subj\<rparr>), out)))
      else (let s1 = addToBuffer tsx data s
            in if tmode s1 = COMPLETED then produceCompleteTuples create s1 else Inr (s1, [])))"

definition tuplifier_punctuation :: "(string list \<Rightarrow> 'b res) \<Rightarrow> Punctuation \<Rightarrow> Tuplifier \<Rightarrow> (Tuplifier \<times> 'b event list) res" where
  "tuplifier_punctuation create pp s =
     bind_res (if tmode s = ORDERED then produceTupleForSubject create (currentSubj s) s else produceAllTuples create s)
       (\<lambda>(s1, out). Inr (s1, out @ [Punct pp]))"

fun tuplifier_step :: "(string list \<Rightarrow> 'b res) \<Rightarrow> (triple \<Rightarrow> nat) option \<Rightarrow> (Tuplifier, triple, 'b) opstep" where
  "tuplifier_step create tsx s (Data t outdated) = tuplifier_data create tsx t s"
| "tuplifier_step create tsx s (Punct pp) = tuplifier_punctuation create pp s"

section \<open>The row of a subject\<close>

text \<open>The specification: for each predicate the last object, or the empty string.\<close>

definition last_object :: "string \<Rightarrow> triple list \<Rightarrow> string \<Rightarrow> string" where
  "last_object p ts d = foldl (\<lambda>d (s, q, ob). if q = p then ob else d) d ts"

definition row :: "string list \<Rightarrow> string \<Rightarrow> triple list \<Rightarrow> string list" where
  "row predList subj ts = subj # map (\<lambda>p. last_object p ts []) predList"

lemma insert_predicates_distinct:
  "distinct ps \<Longrightarrow> fst ` set pm \<inter> set ps = {} \<Longrightarrow> insert_predicates ps i pm = pm @ zip ps [Suc i..<Suc (i + length ps)]"
proof (induction ps arbitrary: i pm)
  case (Cons p ps)
  then have "insert_predicates ps (Suc i) (pm @ [(p, Suc i)]) = (pm @ [(p, Suc i)]) @ zip ps [Suc (Suc i)..<Suc (Suc i + length ps)]"
    by (intro Cons.IH) auto
  moreover have "p \<notin> fst ` set pm" using Cons.prems by auto
  moreover have "[Suc i..<Suc (i + length (p # ps))] = Suc i # [Suc (Suc i)..<Suc (Suc i + length ps)]"
    by (simp add: upt_conv_Cons del: upt_Suc)
  ultimately show ?case by simp
qed simp

lemma new_predicates:
  assumes "distinct ps"
  shows "insert_predicates ps 0 [] = zip ps [1..<Suc (length ps)]"
  using insert_predicates_distinct [OF assms, of "[]" 0] by simp

lemma field_of:
  assumes "distinct ps" "i < length ps"
  shows "map_of (zip ps [1..<Suc (length ps)]) (ps ! i) = Some (Suc i)"
  using assms by (simp add: map_of_zip_nth del: upt_Suc)

lemma fill_data_row:
  assumes "distinct ps" "\<forall>t\<in>set ts. fst (snd t) \<in> set ps" "length vals = length ps"
  shows "fill_data (zip ps [1..<Suc (length ps)]) ts (x # vals) = Inr (x # map2 (\<lambda>p d. last_object p ts d) ps vals)"
  using assms(2,3)
proof (induction ts arbitrary: vals)
  case Nil
  then show ?case by (auto simp: last_object_def intro!: nth_equalityI)
next
  case (Cons t ts)
  obtain subj p ob where t: "t = (subj, p, ob)" by (cases t)
  then obtain i where i: "i < length ps" "ps ! i = p" using Cons.prems(1) by (auto simp: in_set_conv_nth)
  have f: "map_of (zip ps [1..<Suc (length ps)]) p = Some (Suc i)" using field_of [OF assms(1) i(1)] i(2) by simp
  have "map2 (\<lambda>p d. last_object p ts d) ps (vals[i := ob]) = map2 (\<lambda>p d. last_object p (t # ts) d) ps vals"
    using Cons.prems(2) i assms(1) t
    by (intro nth_equalityI) (auto simp: last_object_def nth_list_update nth_eq_iff_index_eq)
  then show ?case using Cons.IH [of "vals[i := ob]"] Cons.prems i t f by (simp del: upt_Suc)
qed

lemma produceTuple_row:
  assumes "distinct ps" "\<forall>t\<in>set ts. fst t = subj \<and> fst (snd t) \<in> set ps" "ts \<noteq> []"
  shows "produceTuple create (zip ps [1..<Suc (length ps)]) ts = create (row ps subj ts)"
proof -
  have "map2 (\<lambda>p d. last_object p ts d) ps (replicate (length ps) []) = map (\<lambda>p. last_object p ts []) ps"
    by (rule nth_equalityI) auto
  moreover have "fst (hd ts) = subj" using assms(2,3) by (cases ts) auto
  ultimately show ?thesis
    using fill_data_row [OF assms(1), of ts "replicate (length ps) []" subj] assms(2,3)
    by (cases ts) (auto simp: produceTuple_def row_def simp del: upt_Suc)
qed

section \<open>Ordered mode\<close>

definition relevant :: "string list \<Rightarrow> triple list \<Rightarrow> triple list" where
  "relevant ps ts = filter (\<lambda>t. fst (snd t) \<in> set ps) ts"

definition arrival :: "(triple \<Rightarrow> nat) option \<Rightarrow> triple list \<Rightarrow> nat" where
  "arrival tsx ts = (case tsx of None \<Rightarrow> 0 | Some f \<Rightarrow> f (hd ts))"

definition item_of :: "(triple \<Rightarrow> nat) option \<Rightarrow> triple list \<Rightarrow> BufferItem" where
  "item_of tsx ts = \<lparr>tripleList = ts, matches = length ts, arrivalTime = arrival tsx ts\<rparr>"

definition ord_state :: "(triple \<Rightarrow> nat) option \<Rightarrow> string list \<Rightarrow> string \<Rightarrow> triple list \<Rightarrow> Tuplifier" where
  "ord_state tsx ps subj acc = \<lparr>tupleBuffer = (if acc = [] then [] else [(subj, item_of tsx acc)]),
     predicates = zip ps [1..<Suc (length ps)], tmode = ORDERED, currentSubj = subj\<rparr>"

definition rows :: "(string list \<Rightarrow> 'b) \<Rightarrow> string list \<Rightarrow> string \<Rightarrow> triple list \<Rightarrow> 'b list" where
  "rows mk ps subj acc = (if acc = [] then [] else [mk (row ps subj acc)])"

definition about :: "string list \<Rightarrow> string \<Rightarrow> triple list \<Rightarrow> bool" where
  "about ps subj acc \<longleftrightarrow> (\<forall>t\<in>set acc. fst t = subj \<and> fst (snd t) \<in> set ps)"

lemma new_ord_state: "distinct ps \<Longrightarrow> Tuplifier_new ps ORDERED = ord_state tsx ps [] []"
  by (simp add: Tuplifier_new_def ord_state_def new_predicates del: upt_Suc)

lemma known_predicates [simp]: "fst ` set (zip ps [Suc 0..<Suc (length ps)]) = set ps"
  by (simp flip: set_map del: upt_Suc)

lemma add_ord_state:
  "fst t = subj \<Longrightarrow> addToBuffer tsx t (ord_state tsx ps subj acc) = ord_state tsx ps subj (acc @ relevant ps [t])"
  by (cases t; cases tsx)
    (auto simp: addToBuffer_def ord_state_def item_of_def relevant_def arrival_def simp del: upt_Suc)

lemma flush_ord_state:
  assumes "distinct ps" "about ps subj acc"
  shows "produceTupleForSubject (\<lambda>d. Inr (mk d)) subj (ord_state tsx ps subj acc)
    = Inr (ord_state tsx ps subj [], new_tuples (rows mk ps subj acc))"
  using assms produceTuple_row [OF assms(1), of acc subj "\<lambda>d. Inr (mk d)"]
  by (auto simp: produceTupleForSubject_def ord_state_def item_of_def rows_def about_def simp del: upt_Suc)

lemma same_subject_step:
  "subj \<noteq> [] \<Longrightarrow> fst t = subj \<Longrightarrow>
    tuplifier_step create tsx (ord_state tsx ps subj acc) (Data t od) = Inr (ord_state tsx ps subj (acc @ relevant ps [t]), [])"
  using add_ord_state [of t subj tsx ps acc] by (auto simp: tuplifier_data_def ord_state_def Let_def simp del: upt_Suc)

lemma same_subject_run:
  "subj \<noteq> [] \<Longrightarrow> \<forall>t\<in>set ts. fst t = subj \<Longrightarrow>
    run (tuplifier_step create tsx) (ord_state tsx ps subj acc) (new_tuples ts) = Inr (ord_state tsx ps subj (acc @ relevant ps ts), [])"
proof (induction ts arbitrary: acc)
  case Nil
  then show ?case by (simp add: relevant_def)
next
  case (Cons t ts)
  then show ?case using same_subject_step [of subj t create tsx ps acc False]
    by (simp add: relevant_def del: tuplifier_step.simps)
qed

lemma next_subject_step:
  assumes "distinct ps" "about ps prev acc" "prev = [] \<longrightarrow> acc = []" "fst t \<noteq> prev" "fst t \<noteq> []"
  shows "tuplifier_step (\<lambda>d. Inr (mk d)) tsx (ord_state tsx ps prev acc) (Data t od)
    = Inr (ord_state tsx ps (fst t) (relevant ps [t]), new_tuples (rows mk ps prev acc))"
proof -
  have switch: "(ord_state tsx ps prev [])\<lparr>currentSubj := fst t\<rparr> = ord_state tsx ps (fst t) []" for prev
    by (simp add: ord_state_def)
  have first: "(addToBuffer tsx t (ord_state tsx ps [] []))\<lparr>currentSubj := fst t\<rparr> = ord_state tsx ps (fst t) (relevant ps [t])"
    by (cases t; cases tsx) (auto simp: addToBuffer_def ord_state_def item_of_def relevant_def arrival_def simp del: upt_Suc)
  have cs: "currentSubj (addToBuffer tsx t s) = currentSubj s" for s
    by (auto simp: addToBuffer_def split: prod.split option.split)
  have st: "tmode (ord_state tsx ps prev acc) = ORDERED" "currentSubj (ord_state tsx ps prev acc) = prev" by (simp_all add: ord_state_def)
  show ?thesis
  proof (cases "prev = []")
    case True
    then show ?thesis using assms(3) first cs st by (simp add: tuplifier_data_def rows_def Let_def)
  next
    case False
    then show ?thesis using assms(4) flush_ord_state [OF assms(1,2), of mk tsx] st add_ord_state [of t "fst t" tsx ps "[]"]
      by (simp add: tuplifier_data_def switch)
  qed
qed

definition triples :: "string \<times> (string \<times> string) list \<Rightarrow> triple list" where
  "triples g = map (\<lambda>(p, ob). (fst g, p, ob)) (snd g)"

lemma about_relevant: "about ps (fst g) (relevant ps (triples g))"
  by (auto simp: about_def relevant_def triples_def)

lemma group_run:
  assumes "distinct ps" "about ps prev acc" "prev = [] \<longrightarrow> acc = []" "fst g \<noteq> prev" "fst g \<noteq> []" "snd g \<noteq> []"
  shows "run (tuplifier_step (\<lambda>d. Inr (mk d)) tsx) (ord_state tsx ps prev acc) (new_tuples (triples g))
    = Inr (ord_state tsx ps (fst g) (relevant ps (triples g)), new_tuples (rows mk ps prev acc))"
proof -
  obtain t ts where t: "triples g = t # ts" using assms(6) by (cases "triples g") (auto simp: triples_def)
  have "\<forall>u\<in>set (t # ts). fst u = fst g" by (auto simp: triples_def simp flip: t)
  then have "fst t = fst g" "\<forall>u\<in>set ts. fst u = fst g" by simp_all
  then show ?thesis
    using next_subject_step [OF assms(1-3), of t mk tsx False] same_subject_run [OF assms(5), of ts "\<lambda>d. Inr (mk d)" tsx ps "relevant ps [t]"] assms(4,5)
    by (simp add: t del: tuplifier_step.simps) (simp add: relevant_def)
qed

lemma groups_run:
  assumes "distinct ps" "about ps prev acc" "prev = [] \<longrightarrow> acc = []" "successively (\<noteq>) (prev # map fst groups)"
    "\<forall>g\<in>set groups. fst g \<noteq> [] \<and> snd g \<noteq> []"
  shows "\<exists>s. run (tuplifier_step (\<lambda>d. Inr (mk d)) tsx) (ord_state tsx ps prev acc) (new_tuples (concat (map triples groups)) @ [Punct pp])
      = Inr (s, new_tuples (rows mk ps prev acc @ concat (map (\<lambda>g. rows mk ps (fst g) (relevant ps (triples g))) groups)) @ [Punct pp]) \<and>
    tupleBuffer s = []"
  using assms(2-)
proof (induction groups arbitrary: prev acc)
  case Nil
  then show ?case using flush_ord_state [OF assms(1), of prev acc mk tsx]
    by (auto simp: tuplifier_punctuation_def ord_state_def)
next
  case (Cons g groups)
  have suc: "fst g \<noteq> prev" "successively (\<noteq>) (fst g # map fst groups)" using Cons.prems(3) by (auto simp: successively_Cons)
  obtain s where s: "run (tuplifier_step (\<lambda>d. Inr (mk d)) tsx) (ord_state tsx ps (fst g) (relevant ps (triples g))) (new_tuples (concat (map triples groups)) @ [Punct pp])
      = Inr (s, new_tuples (rows mk ps (fst g) (relevant ps (triples g)) @ concat (map (\<lambda>g. rows mk ps (fst g) (relevant ps (triples g))) groups)) @ [Punct pp])"
      "tupleBuffer s = []"
    using Cons.IH [of "fst g" "relevant ps (triples g)"] Cons.prems(4) suc(2) about_relevant by auto
  show ?case
    using s group_run [OF assms(1) Cons.prems(1,2) suc(1), of mk tsx] Cons.prems(4)
    by (simp add: run_append)
qed

text \<open>
  In ordered mode a stream of triples that is grouped by subject becomes one tuple per group: the
  subject and, for each predicate of the list, the last object that the group has for it, or the empty string.
  A group without any listed predicate gives no tuple. The tuple of a group is published when the next group starts or at a
  punctuation, in the order of the groups, the punctuation follows, and nothing is left in the buffer.
\<close>

theorem ordered_tuples:
  assumes "distinct predList" and "successively (\<noteq>) (map fst groups)" and "\<forall>g\<in>set groups. fst g \<noteq> [] \<and> snd g \<noteq> []"
  shows "\<exists>s. run (tuplifier_step (\<lambda>d. Inr (mk d)) tsx) (Tuplifier_new predList ORDERED) (new_tuples (concat (map triples groups)) @ [Punct pp])
      = Inr (s, new_tuples (concat (map (\<lambda>g. rows mk predList (fst g) (relevant predList (triples g))) groups)) @ [Punct pp]) \<and>
    tupleBuffer s = []"
proof -
  have "successively (\<noteq>) ([] # map fst groups)" using assms(2,3) by (cases groups) auto
  then show ?thesis
    using groups_run [OF assms(1), of "[]" "[]" groups mk tsx pp] assms(3) by (simp add: new_ord_state [OF assms(1), of tsx] about_def rows_def)
qed

theorem ordered_tuples_witness:
  "\<exists>s. run (tuplifier_step (\<lambda>d. Inr d) None) (Tuplifier_new [''p'', ''q''] ORDERED)
       (new_tuples (concat (map triples [(''a'', [(''q'', ''1''), (''p'', ''2''), (''q'', ''3'')]), (''b'', [(''p'', ''4'')])])) @ [Punct (mkPunctuation EndOfStream)])
      = Inr (s, new_tuples [[''a'', ''2'', ''3''], [''b'', ''4'', []]] @ [Punct (mkPunctuation EndOfStream)]) \<and> tupleBuffer s = []"
  using ordered_tuples [of "[''p'', ''q'']" "[(''a'', [(''q'', ''1''), (''p'', ''2''), (''q'', ''3'')]), (''b'', [(''p'', ''4'')])]" "\<lambda>d. d" None "mkPunctuation EndOfStream"]
  by (simp add: rows_def row_def relevant_def triples_def last_object_def)

section \<open>Punctuated mode\<close>

definition of_subject :: "string \<Rightarrow> triple list \<Rightarrow> triple list" where
  "of_subject k ts = filter (\<lambda>t. fst t = k) ts"

text \<open>The buffer holds the triples \<open>ts\<close>, by subject.\<close>

definition buffers :: "(string \<times> BufferItem) list \<Rightarrow> triple list \<Rightarrow> bool" where
  "buffers bs ts \<longleftrightarrow> distinct (map fst bs) \<and> fst ` set bs = fst ` set ts \<and>
     (\<forall>(k, b)\<in>set bs. tripleList b = of_subject k ts \<and> matches b = length (tripleList b))"

lemma buffers_Nil: "buffers [] []"
  by (simp add: buffers_def)

lemma buffersD:
  "buffers bs ts \<Longrightarrow> (k, b) \<in> set bs \<Longrightarrow> k \<in> fst ` set ts \<and> tripleList b = of_subject k ts \<and> matches b = length (tripleList b)"
  using imageI [of "(k, b)" "set bs" fst] by (auto simp: buffers_def)

lemma buffersI:
  assumes "distinct (map fst bs)" "fst ` set bs = fst ` set ts"
    "\<And>k b. (k, b) \<in> set bs \<Longrightarrow> tripleList b = of_subject k ts \<and> matches b = length (tripleList b)"
  shows "buffers bs ts"
  using assms by (auto simp: buffers_def)

lemma buffers_known:
  assumes "buffers bs ts" "map_of bs (fst t) = Some item"
  shows "buffers (map (\<lambda>(k, b). (k, if k = fst t then b\<lparr>matches := Suc (matches b), tripleList := tripleList b @ [t]\<rparr> else b)) bs) (ts @ [t])"
proof -
  have k: "fst t \<in> fst ` set ts" using buffersD [OF assms(1) map_of_SomeD [OF assms(2)]] by simp
  let ?bs = "map (\<lambda>(k, b). (k, if k = fst t then b\<lparr>matches := Suc (matches b), tripleList := tripleList b @ [t]\<rparr> else b)) bs"
  have "map fst ?bs = map fst bs"
    by auto
  moreover have "distinct (map fst bs)" "set (map fst bs) = fst ` set (ts @ [t])"
    using assms(1) k by (auto simp: buffers_def)
  ultimately have "distinct (map fst ?bs)" "fst ` set ?bs = fst ` set (ts @ [t])"
    by (metis, metis set_map)
  then show ?thesis using buffersD [OF assms(1)] by (intro buffersI) (auto simp: of_subject_def)
qed

lemma buffers_new:
  assumes "buffers bs ts" "map_of bs (fst t) = None"
  shows "buffers (bs @ [(fst t, \<lparr>tripleList = [t], matches = 1, arrivalTime = a\<rparr>)]) (ts @ [t])"
proof -
  have "fst t \<notin> fst ` set ts" using assms by (simp add: buffers_def map_of_eq_None_iff)
  then have "of_subject (fst t) ts = []" by (fastforce simp: of_subject_def filter_empty_conv image_iff)
  moreover have "fst t \<notin> fst ` set bs" using assms(2) by (simp add: map_of_eq_None_iff)
  ultimately show ?thesis
  proof (intro buffersI)
    fix k b
    assume kb: "(k, b) \<in> set (bs @ [(fst t, \<lparr>tripleList = [t], matches = 1, arrivalTime = a\<rparr>)])"
    show "tripleList b = of_subject k (ts @ [t]) \<and> matches b = length (tripleList b)"
    proof (cases "(k, b) \<in> set bs")
      case True
      then have "k \<noteq> fst t" using buffersD [OF assms(1) True] \<open>fst t \<notin> fst ` set ts\<close> by blast
      then show ?thesis using buffersD [OF assms(1) True] by (simp add: of_subject_def)
    next
      case False
      then show ?thesis using kb \<open>of_subject (fst t) ts = []\<close> by (auto simp: of_subject_def)
    qed
  qed (use assms(1) in \<open>auto simp: buffers_def\<close>)
qed

lemma add_buffers:
  assumes "predicates s = zip ps [1..<Suc (length ps)]" "buffers (tupleBuffer s) ts"
  shows "\<exists>bs. addToBuffer tsx t s = s\<lparr>tupleBuffer := bs\<rparr> \<and> buffers bs (ts @ relevant ps [t])"
proof (cases "fst (snd t) \<in> set ps")
  case True
  obtain subj p ob where t: "t = (subj, p, ob)" by (cases t)
  show ?thesis using assms True buffers_known [of "tupleBuffer s" ts t] buffers_new [of "tupleBuffer s" ts t] unfolding t
    by (cases "map_of (tupleBuffer s) subj") (auto simp: addToBuffer_def relevant_def simp del: upt_Suc)
next
  case False
  then show ?thesis using assms by (intro exI [of _ "tupleBuffer s"]) (cases t, auto simp: addToBuffer_def relevant_def simp del: upt_Suc)
qed

lemma collecting_run:
  assumes "predicates s = zip ps [1..<Suc (length ps)]" "tmode s \<notin> {ORDERED, COMPLETED}" "buffers (tupleBuffer s) acc"
  shows "\<exists>bs. run (tuplifier_step create tsx) s (new_tuples ts) = Inr (s\<lparr>tupleBuffer := bs\<rparr>, []) \<and> buffers bs (acc @ relevant ps ts)"
  using assms
proof (induction ts arbitrary: s acc)
  case Nil
  then show ?case by (intro exI [of _ "tupleBuffer s"]) (simp add: relevant_def)
next
  case (Cons t ts)
  obtain bs where bs: "addToBuffer tsx t s = s\<lparr>tupleBuffer := bs\<rparr>" "buffers bs (acc @ relevant ps [t])"
    using add_buffers [OF Cons.prems(1,3)] by blast
  then have st: "tuplifier_step create tsx s (Data t False) = Inr (s\<lparr>tupleBuffer := bs\<rparr>, [])"
    using Cons.prems(2) by (auto simp: tuplifier_data_def Let_def)
  obtain bs2 where "run (tuplifier_step create tsx) (s\<lparr>tupleBuffer := bs\<rparr>) (new_tuples ts) = Inr (s\<lparr>tupleBuffer := bs2\<rparr>, [])"
      "buffers bs2 ((acc @ relevant ps [t]) @ relevant ps ts)"
    using Cons.IH [of "s\<lparr>tupleBuffer := bs\<rparr>" "acc @ relevant ps [t]"] Cons.prems(1,2) bs(2) by auto
  then show ?case using st by (intro exI [of _ bs2]) (simp add: relevant_def del: tuplifier_step.simps split: if_splits)
qed

lemma all_loop_rows:
  assumes "distinct ps" "\<forall>(k, b)\<in>set bs. tripleList b \<noteq> [] \<and> about ps k (tripleList b)"
  shows "all_loop (\<lambda>d. Inr (mk d)) (zip ps [1..<Suc (length ps)]) bs = Inr (new_tuples (map (\<lambda>(k, b). mk (row ps k (tripleList b))) bs))"
  using assms(2)
proof (induction bs)
  case (Cons x bs)
  obtain k b where x: "x = (k, b)" by (cases x)
  then show ?case using Cons produceTuple_row [OF assms(1), of "tripleList b" k "\<lambda>d. Inr (mk d)"]
    by (auto simp: about_def simp del: upt_Suc)
qed simp

text \<open>
  In punctuated mode (and in window mode while the notifier does not fire) the triples may arrive
  in any order: at a punctuation the operator publishes exactly one tuple for every subject that has a listed
  predicate, with the last object for each predicate, then the punctuation, and the buffer is empty.
\<close>

theorem punctuated_tuples:
  assumes "distinct predList" and "m = PUNCTUATED \<or> m = WINDOW"
  shows "\<exists>s out. run (tuplifier_step (\<lambda>d. Inr (mk d)) tsx) (Tuplifier_new predList m) (new_tuples ts @ [Punct pp])
      = Inr (s, new_tuples out @ [Punct pp]) \<and> tupleBuffer s = [] \<and>
    mset out = image_mset (\<lambda>k. mk (row predList k (of_subject k (relevant predList ts)))) (mset_set (fst ` set (relevant predList ts)))"
proof -
  let ?pm = "zip predList [1..<Suc (length predList)]" and ?s = "Tuplifier_new predList m" and ?r = "relevant predList ts"
  have s: "predicates ?s = ?pm" "tmode ?s = m" "tupleBuffer ?s = []" by (simp_all add: Tuplifier_new_def new_predicates assms(1) del: upt_Suc)
  obtain bs where bs: "run (tuplifier_step (\<lambda>d. Inr (mk d)) tsx) ?s (new_tuples ts) = Inr (?s\<lparr>tupleBuffer := bs\<rparr>, [])" "buffers bs ?r"
    using collecting_run [of ?s predList "[]"] s assms(2) buffers_Nil by fastforce
  have items: "tripleList b = of_subject k ?r" "k \<in> fst ` set ?r" if "(k, b) \<in> set bs" for k b using buffersD [OF bs(2) that] by auto
  have "tripleList b \<noteq> [] \<and> about predList k (tripleList b)" if "(k, b) \<in> set bs" for k b
    using items [OF that] by (auto simp: of_subject_def about_def relevant_def filter_empty_conv)
  then have "all_loop (\<lambda>d. Inr (mk d)) ?pm bs = Inr (new_tuples (map (\<lambda>(k, b). mk (row predList k (tripleList b))) bs))"
    using all_loop_rows [OF assms(1), of bs mk] by blast
  moreover have "mset (map (\<lambda>(k, b). mk (row predList k (tripleList b))) bs)
      = image_mset (\<lambda>k. mk (row predList k (of_subject k ?r))) (mset_set (fst ` set ?r))"
  proof -
    have "map (\<lambda>(k, b). mk (row predList k (tripleList b))) bs = map (\<lambda>k. mk (row predList k (of_subject k ?r))) (map fst bs)"
      using items(1) by auto
    moreover have "mset (map fst bs) = mset_set (fst ` set ?r)"
      using bs(2) mset_set_set [of "map fst bs"] by (simp add: buffers_def)
    ultimately show ?thesis by (metis mset_map)
  qed
  ultimately show ?thesis using bs(1) s assms(2)
    by (intro exI [of _ "?s\<lparr>tupleBuffer := []\<rparr>"] exI [of _ "map (\<lambda>(k, b). mk (row predList k (tripleList b))) bs"])
      (auto simp: run_append tuplifier_punctuation_def produceAllTuples_def simp del: upt_Suc mset_map)
qed

theorem punctuated_tuples_witness:
  "\<exists>s out. run (tuplifier_step (\<lambda>d. Inr d) None) (Tuplifier_new [''p'', ''q''] PUNCTUATED)
       (new_tuples [(''a'', ''p'', ''1''), (''b'', ''p'', ''2''), (''a'', ''q'', ''3'')] @ [Punct (mkPunctuation EndOfStream)])
      = Inr (s, new_tuples out @ [Punct (mkPunctuation EndOfStream)]) \<and> tupleBuffer s = [] \<and>
    mset out = {#[''a'', ''1'', ''3''], [''b'', ''2'', []]#}"
proof -
  have two: "{''a'', ''b'', ''a''} = {''a'', ''b''}" by blast
  show ?thesis
    using punctuated_tuples [of "[''p'', ''q'']" PUNCTUATED "\<lambda>d. d" None "[(''a'', ''p'', ''1''), (''b'', ''p'', ''2''), (''a'', ''q'', ''3'')]" "mkPunctuation EndOfStream"]
    by (simp add: row_def relevant_def last_object_def of_subject_def two del: run.simps)
qed

section \<open>No handler fails\<close>

definition good_item :: "string list \<Rightarrow> TuplifyMode \<Rightarrow> string \<times> BufferItem \<Rightarrow> bool" where
  "good_item ps m kb = (case kb of (k, b) \<Rightarrow> tripleList b \<noteq> [] \<and> about ps k (tripleList b) \<and>
     matches b = length (tripleList b) \<and> (m = COMPLETED \<longrightarrow> matches b < length ps))"

definition tup_inv :: "string list \<Rightarrow> TuplifyMode \<Rightarrow> Tuplifier \<Rightarrow> bool" where
  "tup_inv ps m s \<longleftrightarrow> predicates s = zip ps [1..<Suc (length ps)] \<and> tmode s = m \<and> list_all (good_item ps m) (tupleBuffer s)"

text \<open>Adding a triple may fill an item of a completed tuple; \<open>produceCompleteTuples\<close> removes it.\<close>

definition open_item :: "string list \<Rightarrow> string \<times> BufferItem \<Rightarrow> bool" where
  "open_item ps kb = (case kb of (k, b) \<Rightarrow> tripleList b \<noteq> [] \<and> about ps k (tripleList b) \<and>
     matches b = length (tripleList b) \<and> matches b \<le> length ps)"

lemma add_frame:
  "predicates (addToBuffer tsx t s) = predicates s" "tmode (addToBuffer tsx t s) = tmode s" "currentSubj (addToBuffer tsx t s) = currentSubj s"
  by (cases t; simp add: addToBuffer_def split: option.split)+

lemma add_item_cases:
  assumes "kb \<in> set (tupleBuffer (addToBuffer tsx t s))" "kb \<notin> set (tupleBuffer s)"
  shows "fst (snd t) \<in> fst ` set (predicates s) \<and>
    ((\<exists>b. (fst t, b) \<in> set (tupleBuffer s) \<and> kb = (fst t, b\<lparr>matches := Suc (matches b), tripleList := tripleList b @ [t]\<rparr>)) \<or>
     (\<exists>a. kb = (fst t, \<lparr>tripleList = [t], matches = 1, arrivalTime = a\<rparr>)))"
proof -
  obtain subj p ob where t: "t = (subj, p, ob)" by (cases t)
  have p: "p \<in> fst ` set (predicates s)" using assms by (auto simp: addToBuffer_def t split: if_splits)
  show ?thesis
  proof (cases "map_of (tupleBuffer s) subj")
    case None
    then show ?thesis using assms p by (auto simp: addToBuffer_def t)
  next
    case (Some b)
    then show ?thesis using assms p by (auto simp: addToBuffer_def t split: if_splits)
  qed
qed

lemma add_items:
  assumes "tup_inv ps m s"
  shows "list_all (\<lambda>kb. if m = COMPLETED then open_item ps kb else good_item ps m kb) (tupleBuffer (addToBuffer tsx t s))"
  unfolding list_all_iff
proof
  fix kb
  assume kb: "kb \<in> set (tupleBuffer (addToBuffer tsx t s))"
  have old: "good_item ps m x" if "x \<in> set (tupleBuffer s)" for x using assms that by (simp add: tup_inv_def list_all_iff)
  show "if m = COMPLETED then open_item ps kb else good_item ps m kb"
  proof (cases "kb \<in> set (tupleBuffer s)")
    case True
    then show ?thesis using old [OF True] by (auto simp: good_item_def open_item_def)
  next
    case False
    have p: "fst (snd t) \<in> set ps" using add_item_cases [OF kb False] assms by (simp add: tup_inv_def del: upt_Suc)
    then have "0 < length ps" by auto
    consider b where "good_item ps m (fst t, b)" "kb = (fst t, b\<lparr>matches := Suc (matches b), tripleList := tripleList b @ [t]\<rparr>)"
      | a where "kb = (fst t, \<lparr>tripleList = [t], matches = 1, arrivalTime = a\<rparr>)"
      using add_item_cases [OF kb False] old by blast
    then show ?thesis using p \<open>0 < length ps\<close>
      by cases (auto simp: good_item_def open_item_def about_def Suc_le_eq)
  qed
qed

lemma produce_ok:
  assumes "distinct ps" "tripleList b \<noteq> []" "about ps k (tripleList b)"
  shows "produceTuple (\<lambda>d. Inr (mk d)) (zip ps [1..<Suc (length ps)]) (tripleList b) = Inr (mk (row ps k (tripleList b)))"
  using produceTuple_row [OF assms(1), of "tripleList b" k] assms(2,3) by (simp add: about_def del: upt_Suc)

lemma complete_loop_ok:
  assumes "distinct ps" "list_all (open_item ps) bs"
  shows "\<exists>bs' out. complete_loop (\<lambda>d. Inr (mk d)) (zip ps [1..<Suc (length ps)]) bs = Inr (bs', out) \<and> list_all (good_item ps COMPLETED) bs'"
  using assms(2)
proof (induction bs)
  case (Cons x bs)
  obtain k b where x: "x = (k, b)" by (cases x)
  then show ?case using Cons produce_ok [OF assms(1), of b k mk]
    by (auto simp: open_item_def good_item_def simp del: upt_Suc)
qed simp

lemma outdated_loop_ok:
  assumes "distinct ps" "list_all (good_item ps m) bs"
  shows "\<exists>bs' out. outdated_loop (\<lambda>d. Inr (mk d)) (zip ps [1..<Suc (length ps)]) bs = Inr (bs', out) \<and> list_all (good_item ps m) bs'"
  using assms(2)
proof (induction bs)
  case (Cons x bs)
  obtain k b where x: "x = (k, b)" by (cases x)
  then show ?case using Cons produce_ok [OF assms(1), of b k mk]
    by (auto simp: good_item_def simp del: upt_Suc)
qed simp

lemma subject_ok:
  assumes "distinct ps" "tup_inv ps m s"
  shows "\<exists>s' out. produceTupleForSubject (\<lambda>d. Inr (mk d)) subj s = Inr (s', out) \<and> tup_inv ps m s'"
proof (cases "map_of (tupleBuffer s) subj")
  case (Some b)
  then have "good_item ps m (subj, b)" using assms(2) by (auto simp: tup_inv_def list_all_iff dest: map_of_SomeD)
  then show ?thesis using assms produce_ok [OF assms(1), of b subj mk] Some
    by (auto simp: produceTupleForSubject_def tup_inv_def good_item_def list_all_iff simp del: upt_Suc)
qed (use assms in \<open>auto simp: produceTupleForSubject_def\<close>)

lemma all_ok:
  assumes "distinct ps" "tup_inv ps m s"
  shows "\<exists>s' out. produceAllTuples (\<lambda>d. Inr (mk d)) s = Inr (s', out) \<and> tup_inv ps m s'"
proof -
  have "\<forall>(k, b)\<in>set (tupleBuffer s). tripleList b \<noteq> [] \<and> about ps k (tripleList b)"
    using assms(2) by (auto simp: tup_inv_def list_all_iff good_item_def)
  then show ?thesis using all_loop_rows [OF assms(1)] assms(2) by (auto simp: produceAllTuples_def tup_inv_def simp del: upt_Suc)
qed

lemma data_ok:
  assumes "distinct ps" "tup_inv ps m s"
  shows "\<exists>s' out. tuplifier_data (\<lambda>d. Inr (mk d)) tsx t s = Inr (s', out) \<and> tup_inv ps m s'"
proof (cases "m = ORDERED")
  case True
  have add: "tup_inv ps m (addToBuffer tsx t s')" if "tup_inv ps m s'" for s'
    using add_items [OF that] that True by (simp add: tup_inv_def add_frame)
  have cur: "tup_inv ps m (s'\<lparr>currentSubj := c\<rparr>) = tup_inv ps m s'" for s' c by (simp add: tup_inv_def)
  obtain s1 o1 where "produceTupleForSubject (\<lambda>d. Inr (mk d)) (currentSubj s) s = Inr (s1, o1)" "tup_inv ps m s1"
    using subject_ok [OF assms] by blast
  then show ?thesis using add assms(2) cur True by (auto simp: tuplifier_data_def Let_def tup_inv_def)
next
  case False
  let ?s = "addToBuffer tsx t s"
  note a = add_items [OF assms(2), of tsx t] add_frame [of tsx t s]
  show ?thesis
  proof (cases "m = COMPLETED")
    case True
    then obtain bs out where "complete_loop (\<lambda>d. Inr (mk d)) (predicates ?s) (tupleBuffer ?s) = Inr (bs, out)" "list_all (good_item ps m) bs"
      using complete_loop_ok [OF assms(1), of "tupleBuffer ?s" mk] a assms(2) by (auto simp: tup_inv_def simp del: upt_Suc)
    then show ?thesis using True a assms(2) by (auto simp: tuplifier_data_def produceCompleteTuples_def tup_inv_def Let_def)
  next
    case nc: False
    then show ?thesis using False a assms(2) by (auto simp: tuplifier_data_def tup_inv_def Let_def)
  qed
qed

lemma tuplifier_total:
  assumes "distinct ps"
  shows "total_operator (tuplifier_step (\<lambda>d. Inr (mk d)) tsx) (tup_inv ps m) (\<lambda>_ _. True)"
proof -
  have "\<exists>s' out. tuplifier_step (\<lambda>d. Inr (mk d)) tsx s e = Inr (s', out) \<and> tup_inv ps m s'" if "tup_inv ps m s" for s e
    using data_ok [OF assms that] subject_ok [OF assms that, of mk "currentSubj s"] all_ok [OF assms that, of mk]
    by (cases e) (fastforce simp: tuplifier_punctuation_def)+
  then show ?thesis by unfold_locales (blast, metis old.prod.inject sum.inject(2))
qed

text \<open>The states that events and the callbacks of the notifier lead to.\<close>

inductive tup_reach :: "(string list \<Rightarrow> 'b) \<Rightarrow> (triple \<Rightarrow> nat) option \<Rightarrow> string list \<Rightarrow> TuplifyMode \<Rightarrow> Tuplifier \<Rightarrow> bool" for mk tsx ps m where
  tr_new: "tup_reach mk tsx ps m (Tuplifier_new ps m)"
| tr_event: "tup_reach mk tsx ps m s \<Longrightarrow> tuplifier_step (\<lambda>d. Inr (mk d)) tsx s e = Inr (s', out) \<Longrightarrow> tup_reach mk tsx ps m s'"
| tr_notify: "tup_reach mk tsx ps m s \<Longrightarrow> notificationCallback (\<lambda>d. Inr (mk d)) s = Inr (s', out) \<Longrightarrow> tup_reach mk tsx ps m s'"

lemma notify_ok:
  assumes "distinct ps" "tup_inv ps m s"
  shows "\<exists>s' out. notificationCallback (\<lambda>d. Inr (mk d)) s = Inr (s', out) \<and> tup_inv ps m s'"
  using outdated_loop_ok [OF assms(1), of m "tupleBuffer s" mk] assms(2) by (auto simp: notificationCallback_def tup_inv_def simp del: upt_Suc)

lemma reach_inv:
  assumes "tup_reach mk tsx ps m s" "distinct ps"
  shows "tup_inv ps m s"
  using assms(1)
proof (induction rule: tup_reach.induct)
  case tr_new
  then show ?case using assms(2) by (simp add: tup_inv_def Tuplifier_new_def new_predicates del: upt_Suc)
next
  case (tr_event s e s' out)
  then show ?case using total_operator.step_inv [OF tuplifier_total [OF assms(2)]] by blast
next
  case (tr_notify s s' out)
  then show ?case using notify_ok [OF assms(2), of m s mk] by auto
qed

text \<open>
  For a list of different predicates and a total creation of tuples no handler of the tuplifier fails, in
  any mode and for any interleaving of triples, punctuations and callbacks of the notifier: no assertion, no access
  outside the vector of fields and no access to an empty list. In completed mode the buffer never holds as many triples of
  a subject as there are predicates.
\<close>

theorem tuplifier_never_fails:
  assumes "distinct predList" and "tup_reach mk tsx predList m s"
  shows "(\<exists>r. tuplifier_step (\<lambda>d. Inr (mk d)) tsx s e = Inr r) \<and> (\<exists>r. notificationCallback (\<lambda>d. Inr (mk d)) s = Inr r) \<and>
    (m = COMPLETED \<longrightarrow> (\<forall>(k, b)\<in>set (tupleBuffer s). length (tripleList b) < length predList))"
proof -
  note inv = reach_inv [OF assms(2,1)]
  have "\<exists>r. tuplifier_step (\<lambda>d. Inr (mk d)) tsx s e = Inr r"
    using total_operator.step_total [OF tuplifier_total [OF assms(1)] inv] by blast
  moreover have "\<exists>r. notificationCallback (\<lambda>d. Inr (mk d)) s = Inr r" using notify_ok [OF assms(1) inv] by blast
  ultimately show ?thesis using inv by (auto simp: tup_inv_def list_all_iff good_item_def)
qed

theorem tuplifier_never_fails_witness:
  "\<exists>r. tuplifier_step (\<lambda>d. Inr d) None (Tuplifier_new [''p'', ''q''] COMPLETED) (Data (''a'', ''p'', ''1'') False) = Inr r"
  using tuplifier_never_fails [of "[''p'', ''q'']" "\<lambda>d. d" None COMPLETED "Tuplifier_new [''p'', ''q''] COMPLETED" "Data (''a'', ''p'', ''1'') False"]
    tr_new [of "\<lambda>d. d" None "[''p'', ''q'']" COMPLETED] by (simp del: tuplifier_step.simps)

text \<open>Completed mode counts triples, not predicates: a repeated predicate completes a tuple whose other fields are empty.\<close>

lemma completed_counts_triples:
  "p \<noteq> q \<Longrightarrow> \<exists>s. run (tuplifier_step (\<lambda>d. Inr (mk d)) tsx) (Tuplifier_new [p, q] COMPLETED) (new_tuples [(subj, p, x), (subj, p, y)])
    = Inr (s, [Data (mk [subj, y, []]) False])"
  by (simp add: Tuplifier_new_def tuplifier_data_def addToBuffer_def produceCompleteTuples_def produceTuple_def Let_def)

text \<open>A predicate that is listed twice uses up a field number: the last field is outside the vector.\<close>

lemma repeated_predicate_out_of_bounds:
  "p \<noteq> q \<Longrightarrow> run (tuplifier_step create tsx) (Tuplifier_new [p, p, q] PUNCTUATED) (new_tuples [(subj, q, x)] @ [Punct pp]) = Inl OutOfBounds"
  by (simp add: Tuplifier_new_def tuplifier_data_def tuplifier_punctuation_def addToBuffer_def produceAllTuples_def produceTuple_def Let_def)

text \<open>With a timestamp extractor that gives no zero the notifier publishes nothing.\<close>

lemma window_with_timestamps_publishes_nothing:
  "\<forall>(k, b)\<in>set (tupleBuffer s). arrivalTime b \<noteq> 0 \<Longrightarrow> notificationCallback create s = Inr (s, [])"
proof -
  have "outdated_loop create pm bs = Inr (bs, [])" if "\<forall>(k, b)\<in>set bs. arrivalTime b \<noteq> 0" for pm bs
    using that by (induction bs) auto
  then show "\<forall>(k, b)\<in>set (tupleBuffer s). arrivalTime b \<noteq> 0 \<Longrightarrow> notificationCallback create s = Inr (s, [])"
    by (simp add: notificationCallback_def)
qed

text \<open>In ordered mode the empty subject is taken for the begin of the stream: its tuple stays in the buffer.\<close>

lemma empty_subject_lost:
  "\<exists>s. run (tuplifier_step (\<lambda>d. Inr (mk d)) tsx) (Tuplifier_new [p] ORDERED) (new_tuples [([], p, x), (''a'', p, y), (''b'', p, z)] @ [Punct pp])
     = Inr (s, new_tuples [mk [''a'', y], mk [''b'', z]] @ [Punct pp]) \<and> map fst (tupleBuffer s) = [[]]"
  by (simp add: Tuplifier_new_def tuplifier_data_def tuplifier_punctuation_def addToBuffer_def produceTupleForSubject_def produceTuple_def Let_def)

end
