(* ===== verification/Matrices.thy ===== *)
theory Matrices
  imports Pf_Prelude "HOL-Library.Multiset"
begin

text \<open>
  Matrices: the dense and the sparse matrix (\<open>matrix/DenseMatrix.hpp\<close>, \<open>matrix/SparseMatrix.hpp\<close>), the
  extraction of cells from tuples (\<open>matrix/ReaderValue.hpp\<close>) and the operators that slice and merge
  matrices and move streams into matrices and back (\<open>qop/MatrixSlice.hpp\<close>, \<open>qop/MatrixMerge.hpp\<close>,
  \<open>qop/ToMatrix.hpp\<close>, \<open>qop/FromMatrix.hpp\<close>). The containers of the Eigen library are not part of this code
  base: they are records of the operations that the code calls, arguments of the definitions,
  and \<open>dense_laws\<close> and \<open>sparse_laws\<close> state their documented behaviour. Indices are \<open>Eigen::Index\<close>, a signed
  type; sizes are chosen at run time and the storage is column-major.
\<close>

section \<open>Eigen as a parameter\<close>

text \<open>
  \<open>conservativeResize\<close> keeps the cells that fit and leaves the new ones open; an assignment to a cell
  changes this cell only.
\<close>

record ('m, 'a) EigenDense =
  ed_empty :: 'm
  ed_rows :: "'m \<Rightarrow> int"
  ed_cols :: "'m \<Rightarrow> int"
  ed_coeff :: "'m \<Rightarrow> int \<Rightarrow> int \<Rightarrow> 'a"
  ed_assign :: "'m \<Rightarrow> int \<Rightarrow> int \<Rightarrow> 'a \<Rightarrow> 'm"
  ed_resize :: "'m \<Rightarrow> int \<Rightarrow> int \<Rightarrow> 'm"

definition in_range :: "int \<Rightarrow> int \<Rightarrow> int \<Rightarrow> int \<Rightarrow> bool" where
  "in_range r c i j \<longleftrightarrow> 0 \<le> i \<and> i < r \<and> 0 \<le> j \<and> j < c"

definition dense_laws :: "('m, 'a) EigenDense \<Rightarrow> bool" where
  "dense_laws E \<longleftrightarrow> ed_rows E (ed_empty E) = 0 \<and> ed_cols E (ed_empty E) = 0 \<and> (\<forall>m. 0 \<le> ed_rows E m \<and> 0 \<le> ed_cols E m) \<and>
     (\<forall>m i j v. in_range (ed_rows E m) (ed_cols E m) i j \<longrightarrow>
        ed_rows E (ed_assign E m i j v) = ed_rows E m \<and> ed_cols E (ed_assign E m i j v) = ed_cols E m \<and>
        (\<forall>i' j'. in_range (ed_rows E m) (ed_cols E m) i' j' \<longrightarrow>
           ed_coeff E (ed_assign E m i j v) i' j' = (if i' = i \<and> j' = j then v else ed_coeff E m i' j'))) \<and>
     (\<forall>m r c. 0 \<le> r \<and> 0 \<le> c \<longrightarrow> ed_rows E (ed_resize E m r c) = r \<and> ed_cols E (ed_resize E m r c) = c \<and>
        (\<forall>i j. in_range (ed_rows E m) (ed_cols E m) i j \<and> in_range r c i j \<longrightarrow> ed_coeff E (ed_resize E m r c) i j = ed_coeff E m i j))"

section \<open>Dense matrices\<close>

record 'm DenseMatrix =
  dmatrix :: 'm
  did :: nat
  incidentIndexes :: "(int \<times> int) list"

definition DenseMatrix_new :: "('m, 'a) EigenDense \<Rightarrow> nat \<Rightarrow> 'm DenseMatrix" where
  "DenseMatrix_new E ident = \<lparr>dmatrix = ed_empty E, did = ident, incidentIndexes = []\<rparr>"

definition dense_set :: "('m, 'a) EigenDense \<Rightarrow> int \<Rightarrow> int \<Rightarrow> 'a \<Rightarrow> 'm \<Rightarrow> 'm res" where
  "dense_set E x y value m =
     (let m1 = (if x \<ge> ed_rows E m \<or> y \<ge> ed_cols E m
                then ed_resize E m (if x \<ge> ed_rows E m then x + 1 else ed_rows E m) (if y \<ge> ed_cols E m then y + 1 else ed_cols E m)
                else m)
      in if \<not> (x < ed_rows E m1 \<and> y < ed_cols E m1) then Inl AssertFailed
         else if in_range (ed_rows E m1) (ed_cols E m1) x y then Inr (ed_assign E m1 x y value) else Inl OutOfBounds)"

definition dense_remove :: "('m, 'a::zero) EigenDense \<Rightarrow> int \<Rightarrow> int \<Rightarrow> 'm \<Rightarrow> 'm res" where
  "dense_remove E x y m = (if in_range (ed_rows E m) (ed_cols E m) x y then Inr (ed_assign E m x y 0) else Inl AssertFailed)"

definition add2end :: "('m, 'a) EigenDense \<Rightarrow> 'a \<Rightarrow> 'm DenseMatrix \<Rightarrow> 'm DenseMatrix res" where
  "add2end E value m =
     (let i = ed_rows E (dmatrix m); j = (if ed_cols E (dmatrix m) = 0 then 0 else ed_cols E (dmatrix m) - 1)
      in bind_res (dense_set E i j value (dmatrix m)) (\<lambda>mat. Inr (m\<lparr>dmatrix := mat\<rparr>)))"

definition addIncident :: "('m, 'a) EigenDense \<Rightarrow> int \<Rightarrow> int \<Rightarrow> 'a \<Rightarrow> 'm DenseMatrix \<Rightarrow> 'm DenseMatrix res" where
  "addIncident E i j value m = bind_res (add2end E value m) (\<lambda>m1. Inr (m1\<lparr>incidentIndexes := incidentIndexes m1 @ [(i, j)]\<rparr>))"

definition getIncident :: "('m, 'a) EigenDense \<Rightarrow> nat \<Rightarrow> 'm DenseMatrix \<Rightarrow> (int \<times> int \<times> 'a) res" where
  "getIncident E index m =
     (let i = int index; j = (if ed_cols E (dmatrix m) = 0 then 0 else ed_cols E (dmatrix m) - 1)
      in if \<not> in_range (ed_rows E (dmatrix m)) (ed_cols E (dmatrix m)) i j then Inl OutOfBounds
         else if index < length (incidentIndexes m)
         then Inr (fst (incidentIndexes m ! index), snd (incidentIndexes m ! index), ed_coeff E (dmatrix m) i j)
         else Inl OutOfBounds)"

text \<open>The iterator: \<open>incIters\<close>, and the cells between \<open>begin\<close> and \<open>end\<close>.\<close>

definition incIters :: "int \<Rightarrow> int \<Rightarrow> int \<times> int \<Rightarrow> int \<times> int" where
  "incIters rows cols rc =
     (case rc of (row, col) \<Rightarrow>
        if row + 1 \<ge> rows then (if col + 1 < cols then (0, col + 1) else (row + 1, col + 1)) else (row + 1, col))"

definition cells_left :: "int \<Rightarrow> int \<Rightarrow> int \<times> int \<Rightarrow> nat" where
  "cells_left r c rc = nat (c - snd rc) + nat ((c - snd rc) * r - fst rc)"

lemma incIters_less:
  assumes "in_range r c (fst rc) (snd rc)"
  shows "cells_left r c (incIters r c rc) < cells_left r c rc"
proof -
  obtain i j where rc: "rc = (i, j)" by (cases rc)
  have b: "0 \<le> i" "i < r" "0 \<le> j" "j < c" using assms by (simp_all add: rc in_range_def)
  obtain p where p: "(c - j) * r = p" by blast
  have le: "r \<le> p" using mult_right_mono [of 1 "c - j" r] b p by simp
  have q: "(c - (j + 1)) * r = p - r" using p by (simp add: left_diff_distrib distrib_right)
  show ?thesis
  proof (cases "i + 1 < r")
    case True
    then have "cells_left r c (incIters r c rc) = nat (c - j) + nat (p - (i + 1))" by (simp add: rc incIters_def cells_left_def p)
    then show ?thesis using True b(4) le by (simp add: rc cells_left_def p)
  next
    case False
    then have "cells_left r c (incIters r c rc) \<le> nat (c - (j + 1)) + nat (p - r)" using b(1) by (auto simp: rc incIters_def cells_left_def q intro: nat_mono)
    then show ?thesis using b le by (simp add: rc cells_left_def p)
  qed
qed

function dense_cells :: "('m, 'a) EigenDense \<Rightarrow> 'm \<Rightarrow> int \<times> int \<Rightarrow> (int \<times> int \<times> 'a) list res" where
  "dense_cells E m rc =
     (if rc = (ed_rows E m, ed_cols E m) then Inr []
      else if in_range (ed_rows E m) (ed_cols E m) (fst rc) (snd rc)
      then bind_res (dense_cells E m (incIters (ed_rows E m) (ed_cols E m) rc)) (\<lambda>cs. Inr ((fst rc, snd rc, ed_coeff E m (fst rc) (snd rc)) # cs))
      else Inl OutOfBounds)"
  by pat_completeness auto
termination
  by (relation "measure (\<lambda>(E, m, rc). cells_left (ed_rows E m) (ed_cols E m) rc)") (auto intro: incIters_less)

declare dense_cells.simps [simp del]

section \<open>Slicing and merging dense matrices\<close>

fun slice_cells :: "('m, 'a) EigenDense \<Rightarrow> ('a \<Rightarrow> int \<Rightarrow> int \<Rightarrow> nat) \<Rightarrow> (int \<times> int \<times> 'a) list \<Rightarrow> 'm DenseMatrix list \<Rightarrow> 'm DenseMatrix list res" where
  "slice_cells E sliceFun [] parts = Inr parts"
| "slice_cells E sliceFun ((i, j, v) # cs) parts =
     (let k = sliceFun v i j
      in if k < length parts then bind_res (addIncident E i j v (parts ! k)) (\<lambda>p. slice_cells E sliceFun cs (parts[k := p])) else Inl OutOfBounds)"

text \<open>
  \<open>processDataElement\<close> of \<open>MatrixSlice\<close>; the identifier is the next one of the generator. All parts are
  published as new, whatever the flag of the input.
\<close>

definition slice_process :: "('m, 'a) EigenDense \<Rightarrow> ('a \<Rightarrow> int \<Rightarrow> int \<Rightarrow> nat) \<Rightarrow> nat \<Rightarrow> nat \<Rightarrow> 'm DenseMatrix \<Rightarrow> 'm DenseMatrix event list res" where
  "slice_process E sliceFun numParts partID rec =
     bind_res (dense_cells E (dmatrix rec) (0, 0)) (\<lambda>cs.
     bind_res (slice_cells E sliceFun cs (replicate numParts (DenseMatrix_new E 0))) (\<lambda>parts.
       Inr (map (\<lambda>p. Data (p\<lparr>did := partID\<rparr>) False) parts)))"

fun slice_step :: "('m, 'a) EigenDense \<Rightarrow> ('a \<Rightarrow> int \<Rightarrow> int \<Rightarrow> nat) \<Rightarrow> nat \<Rightarrow> (nat, 'm DenseMatrix, 'm DenseMatrix) opstep" where
  "slice_step E sliceFun numParts gen (Data rec outdated) = bind_res (slice_process E sliceFun numParts gen rec) (\<lambda>out. Inr (Suc gen, out))"
| "slice_step E sliceFun numParts gen (Punct p) = Inr (gen, [Punct p])"

text \<open>\<open>merge_to\<close>, and \<open>processDataElement\<close> of \<open>MatrixMerge\<close> with the map of partitions.\<close>

fun merge_cells :: "('m, 'a) EigenDense \<Rightarrow> nat list \<Rightarrow> 'm DenseMatrix \<Rightarrow> 'm \<Rightarrow> 'm res" where
  "merge_cells E [] src dst = Inr dst"
| "merge_cells E (k # ks) src dst =
     bind_res (getIncident E k src) (\<lambda>(i, j, v). bind_res (dense_set E i j v dst) (\<lambda>dst1. merge_cells E ks src dst1))"

definition merge_to :: "('m, 'a) EigenDense \<Rightarrow> 'm DenseMatrix \<Rightarrow> 'm \<Rightarrow> 'm res" where
  "merge_to E src dst = merge_cells E [0..<length (incidentIndexes src)] src dst"

record 'm Partition =
  countParts :: nat
  pmatrix :: 'm

definition merge_process :: "('m, 'a) EigenDense \<Rightarrow> nat \<Rightarrow> 'm DenseMatrix \<Rightarrow> bool \<Rightarrow> (nat \<rightharpoonup> 'm Partition) \<Rightarrow> ((nat \<rightharpoonup> 'm Partition) \<times> 'm event list) res" where
  "merge_process E numParts mat outdated partitions =
     (let part = (case partitions (did mat) of Some p \<Rightarrow> p | None \<Rightarrow> \<lparr>countParts = 0, pmatrix = ed_empty E\<rparr>)
      in bind_res (merge_to E mat (pmatrix part)) (\<lambda>m.
           if Suc (countParts part) = numParts then Inr (partitions(did mat := None), [Data m outdated])
           else Inr (partitions(did mat \<mapsto> \<lparr>countParts = Suc (countParts part), pmatrix = m\<rparr>), [])))"

fun merge_step :: "('m, 'a) EigenDense \<Rightarrow> nat \<Rightarrow> (nat \<rightharpoonup> 'm Partition, 'm DenseMatrix, 'm) opstep" where
  "merge_step E numParts partitions (Data mat outdated) = merge_process E numParts mat outdated partitions"
| "merge_step E numParts partitions (Punct p) = Inr (partitions, [Punct p])"

section \<open>What the dense operations do\<close>

type_synonym 'a cell = "int \<times> int \<times> 'a"

abbreviation pos :: "'a cell \<Rightarrow> int \<times> int" where "pos c \<equiv> (fst c, fst (snd c))"
abbreviation cell_value :: "'a cell \<Rightarrow> 'a" where "cell_value c \<equiv> snd (snd c)"

lemma dense_nonneg: "dense_laws E \<Longrightarrow> 0 \<le> ed_rows E m \<and> 0 \<le> ed_cols E m"
  by (simp add: dense_laws_def)

lemma dense_empty: "dense_laws E \<Longrightarrow> ed_rows E (ed_empty E) = 0 \<and> ed_cols E (ed_empty E) = 0"
  by (simp add: dense_laws_def)

lemma dense_assign:
  "dense_laws E \<Longrightarrow> in_range (ed_rows E m) (ed_cols E m) i j \<Longrightarrow>
    ed_rows E (ed_assign E m i j v) = ed_rows E m \<and> ed_cols E (ed_assign E m i j v) = ed_cols E m \<and>
    (\<forall>i' j'. in_range (ed_rows E m) (ed_cols E m) i' j' \<longrightarrow>
       ed_coeff E (ed_assign E m i j v) i' j' = (if i' = i \<and> j' = j then v else ed_coeff E m i' j'))"
  by (simp add: dense_laws_def)

lemma dense_resize:
  "dense_laws E \<Longrightarrow> 0 \<le> r \<Longrightarrow> 0 \<le> c \<Longrightarrow> ed_rows E (ed_resize E m r c) = r \<and> ed_cols E (ed_resize E m r c) = c \<and>
    (\<forall>i j. in_range (ed_rows E m) (ed_cols E m) i j \<and> in_range r c i j \<longrightarrow> ed_coeff E (ed_resize E m r c) i j = ed_coeff E m i j)"
  by (simp add: dense_laws_def)

text \<open>\<open>set\<close> lets the matrix grow just enough and changes one cell.\<close>

lemma dense_set_ok:
  assumes "dense_laws E" "0 \<le> x" "0 \<le> y"
  shows "\<exists>m'. dense_set E x y v m = Inr m' \<and> ed_rows E m' = max (ed_rows E m) (x + 1) \<and> ed_cols E m' = max (ed_cols E m) (y + 1) \<and>
    ed_coeff E m' x y = v \<and> (\<forall>i j. in_range (ed_rows E m) (ed_cols E m) i j \<longrightarrow> (i, j) \<noteq> (x, y) \<longrightarrow> ed_coeff E m' i j = ed_coeff E m i j)"
proof -
  let ?r = "max (ed_rows E m) (x + 1)" and ?c = "max (ed_cols E m) (y + 1)"
  obtain m1 where m1: "m1 = (if x \<ge> ed_rows E m \<or> y \<ge> ed_cols E m
      then ed_resize E m (if x \<ge> ed_rows E m then x + 1 else ed_rows E m) (if y \<ge> ed_cols E m then y + 1 else ed_cols E m) else m)" by blast
  have sizes: "(if x \<ge> ed_rows E m then x + 1 else ed_rows E m) = ?r" "(if y \<ge> ed_cols E m then y + 1 else ed_cols E m) = ?c" by auto
  have big: "ed_rows E m1 = ?r \<and> ed_cols E m1 = ?c \<and> (\<forall>i j. in_range (ed_rows E m) (ed_cols E m) i j \<longrightarrow> ed_coeff E m1 i j = ed_coeff E m i j)"
  proof (cases "x \<ge> ed_rows E m \<or> y \<ge> ed_cols E m")
    case True
    then have "m1 = ed_resize E m ?r ?c" using m1 sizes by simp
    moreover have "0 \<le> ?r" "0 \<le> ?c" using assms(2,3) by auto
    ultimately show ?thesis using dense_resize [OF assms(1), of ?r ?c m] by (auto simp: in_range_def less_max_iff_disj)
  next
    case False
    then show ?thesis using m1 by auto
  qed
  then have xy: "in_range (ed_rows E m1) (ed_cols E m1) x y" using assms(2,3) by (auto simp: in_range_def)
  have "dense_set E x y v m = Inr (ed_assign E m1 x y v)"
    using xy unfolding dense_set_def m1 [symmetric] Let_def by (simp add: in_range_def)
  then show ?thesis using big dense_assign [OF assms(1) xy, of v] xy by (auto simp: in_range_def less_max_iff_disj)
qed

text \<open>The cells of a matrix, and a matrix that holds a set of cells and is as small as they allow.\<close>

definition cells :: "('m, 'a) EigenDense \<Rightarrow> 'm \<Rightarrow> 'a cell set" where
  "cells E m = {(i, j, v). in_range (ed_rows E m) (ed_cols E m) i j \<and> v = ed_coeff E m i j}"

definition holds :: "('m, 'a) EigenDense \<Rightarrow> 'm \<Rightarrow> 'a cell set \<Rightarrow> bool" where
  "holds E m T \<longleftrightarrow> finite T \<and> (\<forall>c\<in>T. 0 \<le> fst c \<and> 0 \<le> fst (snd c) \<and> ed_coeff E m (fst c) (fst (snd c)) = cell_value c) \<and>
     ed_rows E m = Max (insert 0 ((\<lambda>c. fst c + 1) ` T)) \<and> ed_cols E m = Max (insert 0 ((\<lambda>c. fst (snd c) + 1) ` T))"

lemma cells_held_empty: "dense_laws E \<Longrightarrow> holds E (ed_empty E) {}"
  by (simp add: holds_def dense_empty)

lemma holds_range:
  assumes "holds E m T" "c \<in> T"
  shows "in_range (ed_rows E m) (ed_cols E m) (fst c) (fst (snd c))"
proof -
  have b: "ed_rows E m = Max (insert 0 ((\<lambda>c. fst c + 1) ` T))" "ed_cols E m = Max (insert 0 ((\<lambda>c. fst (snd c) + 1) ` T))"
    using assms(1) by (simp_all only: holds_def)
  have "fst c + 1 \<le> ed_rows E m" "fst (snd c) + 1 \<le> ed_cols E m"
    unfolding b by (rule Max_ge; use assms in \<open>simp add: holds_def\<close>)+
  moreover have "0 \<le> fst c" "0 \<le> fst (snd c)" using assms by (simp_all add: holds_def)
  ultimately show ?thesis by (simp add: in_range_def)
qed

lemma holds_set:
  assumes "dense_laws E" "holds E m T" "0 \<le> i" "0 \<le> j" "(i, j) \<notin> pos ` T"
  shows "\<exists>m'. dense_set E i j v m = Inr m' \<and> holds E m' (insert (i, j, v) T)"
proof -
  obtain m' where m': "dense_set E i j v m = Inr m'" "ed_rows E m' = max (ed_rows E m) (i + 1)" "ed_cols E m' = max (ed_cols E m) (j + 1)"
    "ed_coeff E m' i j = v" "\<forall>i' j'. in_range (ed_rows E m) (ed_cols E m) i' j' \<longrightarrow> (i', j') \<noteq> (i, j) \<longrightarrow> ed_coeff E m' i' j' = ed_coeff E m i' j'"
    using dense_set_ok [OF assms(1,3,4)] by blast
  have keep: "ed_coeff E m' (fst c) (fst (snd c)) = cell_value c" if "c \<in> T" for c
    using m'(5) holds_range [OF assms(2) that] that assms(2,5) by (fastforce simp: holds_def)
  have fin: "finite T" using assms(2) by (simp add: holds_def)
  have "Max (insert 0 ((\<lambda>c. fst c + 1) ` insert (i, j, v) T)) = max (i + 1) (Max (insert 0 ((\<lambda>c. fst c + 1) ` T)))"
    "Max (insert 0 ((\<lambda>c. fst (snd c) + 1) ` insert (i, j, v) T)) = max (j + 1) (Max (insert 0 ((\<lambda>c. fst (snd c) + 1) ` T)))"
    using fin by (simp_all add: insert_commute [of 0])
  then show ?thesis using m' keep assms(2-4) by (intro exI [of _ m']) (auto simp: holds_def max.commute)
qed

text \<open>A part of a slice: its cells are one column, in the order of the recorded positions.\<close>

definition part_cells :: "('m, 'a) EigenDense \<Rightarrow> 'm DenseMatrix \<Rightarrow> 'a cell list" where
  "part_cells E p = map (\<lambda>k. (fst (incidentIndexes p ! k), snd (incidentIndexes p ! k), ed_coeff E (dmatrix p) (int k) 0)) [0..<length (incidentIndexes p)]"

definition wf_part :: "('m, 'a) EigenDense \<Rightarrow> 'm DenseMatrix \<Rightarrow> bool" where
  "wf_part E p \<longleftrightarrow> ed_rows E (dmatrix p) = int (length (incidentIndexes p)) \<and> ed_cols E (dmatrix p) = (if incidentIndexes p = [] then 0 else 1)"

lemma part_new: "dense_laws E \<Longrightarrow> wf_part E (DenseMatrix_new E d) \<and> part_cells E (DenseMatrix_new E d) = []"
  by (simp add: wf_part_def part_cells_def DenseMatrix_new_def dense_empty)

lemma part_id: "wf_part E (p\<lparr>did := d\<rparr>) = wf_part E p" "part_cells E (p\<lparr>did := d\<rparr>) = part_cells E p"
  by (simp_all add: wf_part_def part_cells_def)

lemma addIncident_ok:
  assumes "dense_laws E" "wf_part E p"
  shows "\<exists>p'. addIncident E i j v p = Inr p' \<and> wf_part E p' \<and> part_cells E p' = part_cells E p @ [(i, j, v)]"
proof -
  let ?n = "length (incidentIndexes p)"
  obtain m' where m': "dense_set E (int ?n) 0 v (dmatrix p) = Inr m'" "ed_rows E m' = max (int ?n) (int ?n + 1)"
    "ed_cols E m' = max (ed_cols E (dmatrix p)) 1" "ed_coeff E m' (int ?n) 0 = v"
    "\<forall>i j. in_range (int ?n) (ed_cols E (dmatrix p)) i j \<longrightarrow> (i, j) \<noteq> (int ?n, 0) \<longrightarrow> ed_coeff E m' i j = ed_coeff E (dmatrix p) i j"
    using dense_set_ok [OF assms(1), of "int ?n" 0 v "dmatrix p"] assms(2) by (auto simp: wf_part_def)
  let ?p = "p\<lparr>dmatrix := m', incidentIndexes := incidentIndexes p @ [(i, j)]\<rparr>"
  have "addIncident E i j v p = Inr ?p" using m'(1) assms(2) by (simp add: addIncident_def add2end_def wf_part_def Let_def)
  moreover have "wf_part E ?p" using m'(2,3) assms(2) by (simp add: wf_part_def)
  moreover have "ed_coeff E m' (int k) 0 = ed_coeff E (dmatrix p) (int k) 0" if "k < ?n" for k
    using m'(5) that assms(2) by (cases "incidentIndexes p = []") (auto simp: in_range_def wf_part_def)
  then have "part_cells E ?p = part_cells E p @ [(i, j, v)]" using m'(4) by (simp add: part_cells_def nth_append)
  ultimately show ?thesis by blast
qed

lemma getIncident_ok:
  assumes "wf_part E p" "k < length (incidentIndexes p)"
  shows "getIncident E k p = Inr (part_cells E p ! k)"
  using assms by (auto simp: getIncident_def part_cells_def wf_part_def in_range_def Let_def)

text \<open>Slicing distributes the cells.\<close>

lemma slice_cells_ok:
  assumes "dense_laws E" "\<forall>p\<in>set parts. wf_part E p" "\<forall>c\<in>set cs. f (cell_value c) (fst c) (fst (snd c)) < length parts"
  shows "\<exists>parts'. slice_cells E f cs parts = Inr parts' \<and> length parts' = length parts \<and> (\<forall>p\<in>set parts'. wf_part E p) \<and>
    (\<forall>k<length parts. part_cells E (parts' ! k) = part_cells E (parts ! k) @ filter (\<lambda>c. f (cell_value c) (fst c) (fst (snd c)) = k) cs)"
  using assms(2,3)
proof (induction cs arbitrary: parts)
  case (Cons c cs)
  obtain i j v where c: "c = (i, j, v)" by (cases c)
  let ?k = "f v i j"
  have k: "?k < length parts" using Cons.prems(2) c by simp
  obtain p where p: "addIncident E i j v (parts ! ?k) = Inr p" "wf_part E p" "part_cells E p = part_cells E (parts ! ?k) @ [(i, j, v)]"
    using addIncident_ok [OF assms(1), of "parts ! ?k" i j v] Cons.prems(1) k by auto
  have wf: "\<forall>q\<in>set (parts[?k := p]). wf_part E q" using Cons.prems(1) p(2) by (auto dest: set_update_subset_insert [THEN subsetD])
  obtain parts' where parts': "slice_cells E f cs (parts[?k := p]) = Inr parts'" "length parts' = length parts" "\<forall>q\<in>set parts'. wf_part E q"
    "\<forall>l<length parts. part_cells E (parts' ! l) = part_cells E (parts[?k := p] ! l) @ filter (\<lambda>c. f (cell_value c) (fst c) (fst (snd c)) = l) cs"
    using Cons.IH [OF wf] Cons.prems(2) by auto
  then show ?case using p k by (auto simp: c Let_def nth_list_update)
qed simp

text \<open>The iterator visits every cell once; a matrix with rows but no columns, or the other way round, is read outside.\<close>

definition proper :: "('m, 'a) EigenDense \<Rightarrow> 'm \<Rightarrow> bool" where
  "proper E m \<longleftrightarrow> (ed_rows E m = 0 \<longleftrightarrow> ed_cols E m = 0)"

definition cells_from :: "('m, 'a) EigenDense \<Rightarrow> 'm \<Rightarrow> int \<times> int \<Rightarrow> 'a cell set" where
  "cells_from E m rc = {c \<in> cells E m. snd rc < fst (snd c) \<or> snd rc = fst (snd c) \<and> fst rc \<le> fst c}"

lemma cells_from_end: "cells_from E m (ed_rows E m, ed_cols E m) = {}"
  by (auto simp: cells_from_def cells_def in_range_def)

lemma inc_order:
  assumes "in_range r c i j" "in_range r c a b"
  shows "j < b \<or> j = b \<and> i \<le> a \<longleftrightarrow> (a, b) = (i, j) \<or> snd (incIters r c (i, j)) < b \<or> snd (incIters r c (i, j)) = b \<and> fst (incIters r c (i, j)) \<le> a"
proof (cases "i + 1 < r")
  case True
  then have "incIters r c (i, j) = (i + 1, j)" by (simp add: incIters_def)
  then show ?thesis by auto
next
  case False
  then have "a \<le> i" "i = r - 1" using assms by (auto simp: in_range_def)
  moreover have "incIters r c (i, j) = (if j + 1 < c then (0, j + 1) else (r, j + 1))" using False \<open>i = r - 1\<close> by (simp add: incIters_def)
  ultimately show ?thesis using assms by (auto simp: in_range_def)
qed

lemma inc_strict:
  assumes "in_range r c i j"
  shows "\<not> (snd (incIters r c (i, j)) < j \<or> snd (incIters r c (i, j)) = j \<and> fst (incIters r c (i, j)) \<le> i)"
  using assms by (auto simp: incIters_def in_range_def)

lemma cells_from_inc:
  assumes "in_range (ed_rows E m) (ed_cols E m) i j"
  shows "cells_from E m (i, j) = insert (i, j, ed_coeff E m i j) (cells_from E m (incIters (ed_rows E m) (ed_cols E m) (i, j)))" (is ?set)
    and "(i, j) \<notin> pos ` cells_from E m (incIters (ed_rows E m) (ed_cols E m) (i, j))"
proof -
  show "(i, j) \<notin> pos ` cells_from E m (incIters (ed_rows E m) (ed_cols E m) (i, j))"
    using inc_strict [OF assms] by (auto simp: cells_from_def)
  have c: "c \<in> cells E m \<longleftrightarrow> in_range (ed_rows E m) (ed_cols E m) (fst c) (fst (snd c)) \<and> cell_value c = ed_coeff E m (fst c) (fst (snd c))" for c
    by (cases c) (simp add: cells_def)
  show ?set
  proof (rule set_eqI)
    fix x
    show "x \<in> cells_from E m (i, j) \<longleftrightarrow> x \<in> insert (i, j, ed_coeff E m i j) (cells_from E m (incIters (ed_rows E m) (ed_cols E m) (i, j)))"
      using assms inc_order [OF assms, of "fst x" "fst (snd x)"] by (cases x) (auto simp: cells_from_def c)
  qed
qed

lemma inc_range:
  assumes "in_range r c i j"
  shows "incIters r c (i, j) = (r, c) \<or> in_range r c (fst (incIters r c (i, j))) (snd (incIters r c (i, j)))"
  using assms by (auto simp: incIters_def in_range_def)

lemma dense_cells_from:
  assumes "rc = (ed_rows E m, ed_cols E m) \<or> in_range (ed_rows E m) (ed_cols E m) (fst rc) (snd rc)"
  shows "\<exists>cs. dense_cells E m rc = Inr cs \<and> set cs = cells_from E m rc \<and> distinct (map pos cs)"
  using assms
proof (induction E m rc rule: dense_cells.induct)
  case (1 E m rc)
  obtain i j where rc: "rc = (i, j)" by (cases rc)
  let ?next = "incIters (ed_rows E m) (ed_cols E m) (i, j)"
  show ?case
  proof (cases "rc = (ed_rows E m, ed_cols E m)")
    case True
    then show ?thesis by (simp add: dense_cells.simps [of E m] cells_from_end)
  next
    case False
    then have r: "in_range (ed_rows E m) (ed_cols E m) i j" using "1.prems" by (auto simp: rc)
    obtain cs where cs: "dense_cells E m ?next = Inr cs" "set cs = cells_from E m ?next" "distinct (map pos cs)"
      using "1.IH" [OF False] r inc_range [OF r] by (auto simp: rc)
    then have "dense_cells E m rc = Inr ((i, j, ed_coeff E m i j) # cs)" using False r by (simp add: dense_cells.simps [of E m "(i, j)"] rc)
    then show ?thesis using cs cells_from_inc [OF r] by (auto simp: rc)
  qed
qed

lemma dense_cells_all:
  assumes "dense_laws E" "proper E m"
  shows "\<exists>cs. dense_cells E m (0, 0) = Inr cs \<and> set cs = cells E m \<and> distinct (map pos cs)"
proof -
  have "(0, 0) = (ed_rows E m, ed_cols E m) \<or> in_range (ed_rows E m) (ed_cols E m) (fst (0, 0)) (snd (0, 0))"
    using assms(2) dense_nonneg [OF assms(1), of m] by (auto simp: proper_def in_range_def)
  moreover have "cells_from E m (0, 0) = cells E m" by (auto simp: cells_from_def cells_def in_range_def)
  ultimately show ?thesis using dense_cells_from [of "(0, 0)" E m] by auto
qed

text \<open>Merging a part adds its cells.\<close>

lemma merge_cells_ok:
  assumes "dense_laws E" "wf_part E src" "ks = [l..<length (incidentIndexes src)]" "holds E dst T"
    "\<forall>c\<in>set (part_cells E src). 0 \<le> fst c \<and> 0 \<le> fst (snd c)"
    "distinct (map pos (part_cells E src))" "pos ` set (drop l (part_cells E src)) \<inter> pos ` T = {}"
  shows "\<exists>m. merge_cells E ks src dst = Inr m \<and> holds E m (T \<union> set (drop l (part_cells E src)))"
  using assms(3,4,7)
proof (induction ks arbitrary: l dst T)
  case Nil
  then have "length (incidentIndexes src) \<le> l" using upt_rec [of l "length (incidentIndexes src)"] by (auto split: if_splits)
  then have "drop l (part_cells E src) = []" by (simp add: part_cells_def)
  then show ?case using Nil by simp
next
  case (Cons k ks)
  let ?n = "length (incidentIndexes src)" and ?cs = "part_cells E src"
  have "l < ?n" using Cons.prems(1) upt_rec [of l ?n] by (auto split: if_splits)
  moreover have "[l..<?n] = l # [Suc l..<?n]" using \<open>l < ?n\<close> by (rule upt_conv_Cons)
  ultimately have l: "l < ?n" "k = l" "ks = [Suc l..<?n]" using Cons.prems(1) by simp_all
  have len: "length ?cs = ?n" by (simp add: part_cells_def)
  obtain i j v where c: "?cs ! l = (i, j, v)" by (cases "?cs ! l")
  have d: "drop l ?cs = (i, j, v) # drop (Suc l) ?cs" using l(1) len c by (metis Cons_nth_drop_Suc)
  have "(i, j, v) \<in> set ?cs" using nth_mem [of l ?cs] l(1) len c by simp
  then have nn: "0 \<le> i" "0 \<le> j" using assms(5) by auto
  have new: "(i, j) \<notin> pos ` T" using Cons.prems(3) d by auto
  have "distinct (map pos (drop l ?cs))" using assms(6) distinct_drop [of "map pos ?cs" l] by (simp add: drop_map)
  then have dist: "(i, j) \<notin> pos ` set (drop (Suc l) ?cs)" by (simp add: d)
  obtain m1 where m1: "dense_set E i j v dst = Inr m1" "holds E m1 (insert (i, j, v) T)"
    using holds_set [OF assms(1) Cons.prems(2) nn new] by blast
  have disj: "pos ` set (drop (Suc l) ?cs) \<inter> pos ` insert (i, j, v) T = {}" using Cons.prems(3) d dist by auto
  obtain m where "merge_cells E ks src m1 = Inr m" "holds E m (insert (i, j, v) T \<union> set (drop (Suc l) ?cs))"
    using Cons.IH [OF l(3) m1(2) disj] by blast
  then show ?case using getIncident_ok [OF assms(2) l(1)] l(2) c m1(1) d by auto
qed

lemma merge_to_ok:
  assumes "dense_laws E" "wf_part E src" "holds E dst T" "\<forall>c\<in>set (part_cells E src). 0 \<le> fst c \<and> 0 \<le> fst (snd c)"
    "distinct (map pos (part_cells E src))" "pos ` set (part_cells E src) \<inter> pos ` T = {}"
  shows "\<exists>m. merge_to E src dst = Inr m \<and> holds E m (T \<union> set (part_cells E src))"
  using merge_cells_ok [OF assms(1,2) refl, of dst T 0] assms(3-) by (simp add: merge_to_def)

text \<open>What a matrix contains.\<close>

definition content :: "('m, 'a) EigenDense \<Rightarrow> 'm \<Rightarrow> int \<times> int \<times> 'a cell set" where
  "content E m = (ed_rows E m, ed_cols E m, cells E m)"

lemma holds_cells_content:
  assumes "dense_laws E" "proper E M" "holds E m (cells E M)"
  shows "content E m = content E M"
proof -
  let ?r = "ed_rows E M" and ?c = "ed_cols E M"
  have size: "ed_rows E m = ?r \<and> ed_cols E m = ?c"
  proof (cases "?r = 0")
    case True
    then have "cells E M = {}" by (auto simp: cells_def in_range_def)
    then show ?thesis using assms True by (simp add: holds_def proper_def)
  next
    case False
    then have pos: "0 < ?r" "0 < ?c" using assms(2) dense_nonneg [OF assms(1), of M] by (auto simp: proper_def order_le_less)
    let ?last = "(?r - 1, ?c - 1, ed_coeff E M (?r - 1) (?c - 1))"
    have "?last \<in> cells E M" using pos by (simp add: cells_def in_range_def)
    then have "?r - 1 < ed_rows E m" "?c - 1 < ed_cols E m" using holds_range [OF assms(3)] by (fastforce simp: in_range_def)+
    moreover have "ed_rows E m \<le> ?r" "ed_cols E m \<le> ?c"
    proof -
      have fin: "finite (cells E M)" and b: "ed_rows E m = Max (insert 0 ((\<lambda>c. fst c + 1) ` cells E M))" "ed_cols E m = Max (insert 0 ((\<lambda>c. fst (snd c) + 1) ` cells E M))"
        using assms(3) by (simp_all only: holds_def)
      show "ed_rows E m \<le> ?r" "ed_cols E m \<le> ?c"
        unfolding b using fin pos by (subst Max_le_iff; auto simp: cells_def in_range_def)+
    qed
    ultimately show ?thesis by linarith
  qed
  have "ed_coeff E m i j = ed_coeff E M i j" if "in_range ?r ?c i j" for i j
    using assms(3) that by (fastforce simp: holds_def cells_def)
  then show ?thesis using size by (auto simp: content_def cells_def)
qed

section \<open>Interleaved parts\<close>

definition by_id :: "nat \<Rightarrow> 'm DenseMatrix list \<Rightarrow> 'm DenseMatrix list" where
  "by_id d ps = filter (\<lambda>p. did p = d) ps"

definition all_cells :: "('m, 'a) EigenDense \<Rightarrow> 'm DenseMatrix list \<Rightarrow> 'a cell list" where
  "all_cells E ps = concat (map (part_cells E) ps)"

text \<open>The parts with number \<open>d\<close> are the \<open>n\<close> parts of the matrix \<open>M\<close>.\<close>

definition job :: "('m, 'a) EigenDense \<Rightarrow> nat \<Rightarrow> 'm \<Rightarrow> nat \<Rightarrow> 'm DenseMatrix list \<Rightarrow> bool" where
  "job E n M d ps \<longleftrightarrow> length (by_id d ps) = n \<and> (\<forall>p\<in>set (by_id d ps). wf_part E p) \<and>
     distinct (map pos (all_cells E (by_id d ps))) \<and> set (all_cells E (by_id d ps)) = cells E M \<and> proper E M"

definition entry_ok :: "('m, 'a) EigenDense \<Rightarrow> nat \<Rightarrow> 'm Partition option \<Rightarrow> 'm DenseMatrix list \<Rightarrow> bool" where
  "entry_ok E n e qs = (case e of
     None \<Rightarrow> qs = [] \<or> length qs = n
   | Some p \<Rightarrow> countParts p = length qs \<and> qs \<noteq> [] \<and> length qs < n \<and> holds E (pmatrix p) (set (all_cells E qs)))"

text \<open>One part of a matrix that is not complete.\<close>

lemma merge_part:
  assumes "dense_laws E" "job E n M (did p) (qs @ p # rs)" "entry_ok E n (st (did p)) (by_id (did p) qs)" "0 < n"
  shows "\<exists>m. holds E m (set (all_cells E (by_id (did p) qs @ [p]))) \<and>
    merge_step E n st (Data p False) = Inr (if Suc (length (by_id (did p) qs)) = n then (st(did p := None), [Data m False])
      else (st(did p \<mapsto> \<lparr>countParts = Suc (length (by_id (did p) qs)), pmatrix = m\<rparr>), []))"
proof -
  let ?d = "did p" and ?qs = "by_id (did p) qs"
  have all: "by_id ?d (qs @ p # rs) = ?qs @ p # by_id ?d rs" by (simp add: by_id_def)
  have len: "length ?qs < n" using assms(2) by (auto simp: job_def all)
  have split: "all_cells E (by_id ?d (qs @ p # rs)) = (all_cells E ?qs @ part_cells E p) @ all_cells E (by_id ?d rs)"
    by (simp add: all all_cells_def)
  have wf: "wf_part E p" using assms(2) by (simp add: job_def all)
  have dist: "distinct (map pos (all_cells E ?qs @ part_cells E p))"
    using assms(2) unfolding job_def split map_append [of pos "all_cells E ?qs @ part_cells E p"] distinct_append by blast
  have sub: "set (part_cells E p) \<subseteq> cells E M" using assms(2) by (auto simp: job_def split)
  have nn: "\<forall>c\<in>set (part_cells E p). 0 \<le> fst c \<and> 0 \<le> fst (snd c)" using sub by (auto simp: cells_def in_range_def)
  let ?part = "case st ?d of Some q \<Rightarrow> q | None \<Rightarrow> \<lparr>countParts = 0, pmatrix = ed_empty E\<rparr>"
  have part: "holds E (pmatrix ?part) (set (all_cells E ?qs))" "countParts ?part = length ?qs"
    using assms(3) len cells_held_empty [OF assms(1)] by (auto simp: entry_ok_def all_cells_def split: option.splits)
  have "distinct (map pos (part_cells E p))" "pos ` set (part_cells E p) \<inter> pos ` set (all_cells E ?qs) = {}"
    using dist by (simp_all add: Int_commute)
  then obtain m where m: "merge_to E p (pmatrix ?part) = Inr m" "holds E m (set (all_cells E ?qs) \<union> set (part_cells E p))"
    using merge_to_ok [OF assms(1) wf part(1) nn] by blast
  have "merge_step E n st (Data p False) = Inr (if Suc (length ?qs) = n then (st(?d := None), [Data m False])
      else (st(?d \<mapsto> \<lparr>countParts = Suc (length ?qs), pmatrix = m\<rparr>), []))"
    using m(1) part(2) by (simp add: merge_process_def Let_def)
  then show ?thesis using m(2) by (intro exI [of _ m]) (simp add: all_cells_def)
qed

lemma by_id_snoc: "by_id d (qs @ [p]) = (if did p = d then by_id d qs @ [p] else by_id d qs)"
  by (simp add: by_id_def)

definition complete_ids :: "nat set \<Rightarrow> nat \<Rightarrow> 'm DenseMatrix list \<Rightarrow> nat set" where
  "complete_ids D n qs = {d \<in> D. length (by_id d qs) = n}"

lemma merge_interleaved:
  assumes "dense_laws E" "0 < n" "finite D" "\<forall>d\<in>D. job E n (M d) d (qs @ rs)" "\<forall>p\<in>set qs. did p \<in> D"
  shows "\<exists>st out. run (merge_step E n) Map.empty (new_tuples qs) = Inr (st, new_tuples out) \<and>
    (\<forall>d. entry_ok E n (st d) (by_id d qs)) \<and>
    mset (map (content E) out) = image_mset (\<lambda>d. content E (M d)) (mset_set (complete_ids D n qs))"
  using assms(4,5)
proof (induction qs arbitrary: rs rule: rev_induct)
  case Nil
  then show ?case using assms(2) by (intro exI [of _ Map.empty] exI [of _ "[]"]) (auto simp: entry_ok_def by_id_def complete_ids_def)
next
  case (snoc p qs)
  let ?d = "did p" and ?k = "length (by_id (did p) qs)"
  obtain st out where IH: "run (merge_step E n) Map.empty (new_tuples qs) = Inr (st, new_tuples out)" "\<forall>d. entry_ok E n (st d) (by_id d qs)"
    "mset (map (content E) out) = image_mset (\<lambda>d. content E (M d)) (mset_set (complete_ids D n qs))"
    using snoc.IH [of "p # rs"] snoc.prems by auto
  have jb: "job E n (M ?d) ?d (qs @ p # rs)" and D: "?d \<in> D" using snoc.prems by auto
  have entry: "entry_ok E n (st ?d) (by_id ?d qs)" using IH(2) by blast
  obtain m where m: "holds E m (set (all_cells E (by_id ?d qs @ [p])))"
    "merge_step E n st (Data p False) = Inr (if Suc ?k = n then (st(?d := None), [Data m False])
      else (st(?d \<mapsto> \<lparr>countParts = Suc ?k, pmatrix = m\<rparr>), []))"
    using merge_part [of E n "M ?d" p qs rs st, OF assms(1) jb entry assms(2)] by blast
  have le: "Suc ?k \<le> n" using jb by (auto simp: job_def by_id_def)
  have step: "run (merge_step E n) Map.empty (new_tuples (qs @ [p])) =
      Inr (if Suc ?k = n then (st(?d := None), new_tuples (out @ [m])) else (st(?d \<mapsto> \<lparr>countParts = Suc ?k, pmatrix = m\<rparr>), new_tuples out))"
    using IH(1) m(2) by (simp add: run_append del: merge_step.simps)
  show ?case
  proof (cases "Suc ?k = n")
    case True
    then have "by_id ?d rs = []" using jb by (auto simp: job_def by_id_def)
    then have "holds E m (cells E (M ?d))" using m(1) jb by (auto simp: job_def by_id_def)
    then have cont: "content E m = content E (M ?d)" using holds_cells_content [OF assms(1)] jb by (auto simp: job_def)
    have ids: "complete_ids D n (qs @ [p]) = insert ?d (complete_ids D n qs)" "?d \<notin> complete_ids D n qs" "finite (complete_ids D n qs)"
      using True D assms(3) by (auto simp: complete_ids_def by_id_snoc)
    have "\<forall>d. entry_ok E n ((st(?d := None)) d) (by_id d (qs @ [p]))" using IH(2) True by (auto simp: by_id_snoc entry_ok_def)
    then show ?thesis using step True IH(3) cont ids by (intro exI [of _ "st(?d := None)"] exI [of _ "out @ [m]"]) auto
  next
    case False
    then have "complete_ids D n (qs @ [p]) = complete_ids D n qs" using le by (auto simp: complete_ids_def by_id_snoc)
    moreover have "\<forall>d. entry_ok E n ((st(?d \<mapsto> \<lparr>countParts = Suc ?k, pmatrix = m\<rparr>)) d) (by_id d (qs @ [p]))"
      using IH(2) False le m(1) by (auto simp: by_id_snoc entry_ok_def)
    ultimately show ?thesis using step False IH(3) by (intro exI [of _ "st(?d \<mapsto> \<lparr>countParts = Suc ?k, pmatrix = m\<rparr>)"] exI [of _ out]) auto
  qed
qed

section \<open>Slicing and merging\<close>

lemma filter_classes:
  "mset (concat (map (\<lambda>k. filter (\<lambda>c. g c = k) cs) [0..<n])) = filter_mset (\<lambda>c. g c < n) (mset cs)"
proof (induction n)
  case (Suc n)
  have "filter_mset (\<lambda>c. g c < Suc n) (mset cs) = filter_mset (\<lambda>c. g c < n) (mset cs) + filter_mset (\<lambda>c. g c = n) (mset cs)"
    by (rule multiset_eqI) (auto simp: less_Suc_eq)
  then show ?case using Suc by simp
qed simp

lemma slice_process_ok:
  assumes "dense_laws E" "proper E (dmatrix rec)" "\<forall>v i j. f v i j < n"
  shows "\<exists>ps. slice_process E f n d rec = Inr (new_tuples ps) \<and> (\<forall>p\<in>set ps. did p = d) \<and> job E n (dmatrix rec) d ps"
proof -
  let ?g = "\<lambda>c. f (cell_value c) (fst c) (fst (snd c))"
  let ?new = "replicate n (DenseMatrix_new E 0)"
  obtain cs where cs: "dense_cells E (dmatrix rec) (0, 0) = Inr cs" "set cs = cells E (dmatrix rec)" "distinct (map pos cs)"
    using dense_cells_all [OF assms(1,2)] by blast
  have wf0: "\<forall>p\<in>set ?new. wf_part E p" using part_new [OF assms(1)] by simp
  have fn: "\<forall>c\<in>set cs. ?g c < length ?new" using assms(3) by simp
  obtain parts where parts: "slice_cells E f cs ?new = Inr parts" "length parts = n" "\<forall>p\<in>set parts. wf_part E p"
    "\<forall>k<n. part_cells E (parts ! k) = filter (\<lambda>c. ?g c = k) cs"
    using slice_cells_ok [OF assms(1) wf0 fn] part_new [OF assms(1)] by auto
  let ?ps = "map (\<lambda>p. p\<lparr>did := d\<rparr>) parts"
  have "map (part_cells E) ?ps = map (\<lambda>k. filter (\<lambda>c. ?g c = k) cs) [0..<n]"
    using parts(2,4) by (intro nth_equalityI) (auto simp: part_id)
  then have ms: "mset (all_cells E ?ps) = mset cs" using filter_classes [of ?g cs n] assms(3) by (simp add: all_cells_def)
  have all: "by_id d ?ps = ?ps" by (simp add: by_id_def)
  have "mset (map pos (all_cells E ?ps)) = mset (map pos cs)" using ms by (simp only: mset_map)
  then have "distinct (map pos (all_cells E ?ps))" using cs(3) mset_eq_imp_distinct_iff by blast
  moreover have "set (all_cells E ?ps) = set cs" using ms by (rule mset_eq_setD)
  ultimately have "job E n (dmatrix rec) d ?ps" using parts(2,3) cs(2) assms(2) unfolding job_def all by (auto simp: part_id)
  moreover have "slice_process E f n d rec = Inr (new_tuples ?ps)" using cs(1) parts(1) by (simp add: slice_process_def)
  ultimately show ?thesis by (intro exI [of _ ?ps]) auto
qed

lemma by_id_append: "by_id d (xs @ ys) = by_id d xs @ by_id d ys"
  by (simp add: by_id_def)

lemma by_id_none: "d \<notin> did ` set xs \<Longrightarrow> by_id d xs = []"
  by (auto simp: by_id_def filter_empty_conv)

lemma job_append:
  "d \<notin> did ` set ys \<Longrightarrow> job E n M d (xs @ ys) = job E n M d xs" "d \<notin> did ` set xs \<Longrightarrow> job E n M d (xs @ ys) = job E n M d ys"
  by (simp_all add: job_def by_id_append by_id_none)

lemma slice_run:
  assumes "dense_laws E" "\<forall>v i j. f v i j < n" "\<forall>M\<in>set Ms. proper E (dmatrix M)"
  shows "\<exists>ps. run (slice_step E f n) gen (new_tuples Ms) = Inr (gen + length Ms, new_tuples ps) \<and>
    (\<forall>p\<in>set ps. gen \<le> did p \<and> did p < gen + length Ms) \<and> (\<forall>k<length Ms. job E n (dmatrix (Ms ! k)) (gen + k) ps)"
  using assms(3)
proof (induction Ms arbitrary: gen)
  case (Cons M Ms)
  obtain ps where ps: "slice_process E f n gen M = Inr (new_tuples ps)" "\<forall>p\<in>set ps. did p = gen" "job E n (dmatrix M) gen ps"
    using slice_process_ok [OF assms(1) _ assms(2), of M gen] Cons.prems by auto
  obtain qs where qs: "run (slice_step E f n) (Suc gen) (new_tuples Ms) = Inr (Suc gen + length Ms, new_tuples qs)"
    "\<forall>p\<in>set qs. Suc gen \<le> did p \<and> did p < Suc gen + length Ms" "\<forall>k<length Ms. job E n (dmatrix (Ms ! k)) (Suc gen + k) qs"
    using Cons.IH [of "Suc gen"] Cons.prems by auto
  have r: "run (slice_step E f n) gen (new_tuples (M # Ms)) = Inr (gen + length (M # Ms), new_tuples (ps @ qs))" using ps(1) qs(1) by simp
  have first: "gen \<notin> did ` set qs" using qs(2) by auto
  have "job E n (dmatrix ((M # Ms) ! k)) (gen + k) (ps @ qs)" if "k < length (M # Ms)" for k
  proof (cases k)
    case 0
    then show ?thesis using ps(3) job_append(1) [OF first, of E n "dmatrix M" ps] by simp
  next
    case (Suc l)
    then have "gen + k \<notin> did ` set ps" using ps(2) by auto
    then show ?thesis using qs(3) that Suc by (auto simp: job_append(2))
  qed
  then show ?case using r ps(2) qs(2) by (intro exI [of _ "ps @ qs"]) auto
qed simp

lemma mset_all_cells: "mset xs = mset ys \<Longrightarrow> mset (all_cells E xs) = mset (all_cells E ys)"
proof -
  assume "mset xs = mset ys"
  then have "sum_mset (image_mset (\<lambda>p. mset (part_cells E p)) (mset xs)) = sum_mset (image_mset (\<lambda>p. mset (part_cells E p)) (mset ys))" by simp
  then show ?thesis by (simp add: all_cells_def mset_concat comp_def flip: sum_mset_sum_list)
qed

lemma job_permute:
  assumes "mset ps' = mset ps" "job E n M d ps"
  shows "job E n M d ps'"
proof -
  have m: "mset (by_id d ps') = mset (by_id d ps)" using assms(1) by (simp add: by_id_def)
  have c: "mset (all_cells E (by_id d ps')) = mset (all_cells E (by_id d ps))" using mset_all_cells [OF m] .
  have "mset (map pos (all_cells E (by_id d ps'))) = mset (map pos (all_cells E (by_id d ps)))" using c by (simp only: mset_map)
  then have "distinct (map pos (all_cells E (by_id d ps')))" using assms(2) mset_eq_imp_distinct_iff unfolding job_def by blast
  then show ?thesis using assms(2) mset_eq_length [OF m] mset_eq_setD [OF m] mset_eq_setD [OF c] by (simp add: job_def)
qed

lemma merge_complete:
  assumes "dense_laws E" "0 < n" "finite D" "\<forall>d\<in>D. job E n (M d) d ps" "\<forall>p\<in>set ps. did p \<in> D"
  shows "\<exists>out. run (merge_step E n) Map.empty (new_tuples ps) = Inr (Map.empty, new_tuples out) \<and>
    mset (map (content E) out) = image_mset (\<lambda>d. content E (M d)) (mset_set D)"
proof -
  have jobs: "\<forall>d\<in>D. job E n (M d) d (ps @ [])" using assms(4) by simp
  obtain st out where r: "run (merge_step E n) Map.empty (new_tuples ps) = Inr (st, new_tuples out)" "\<forall>d. entry_ok E n (st d) (by_id d ps)"
    "mset (map (content E) out) = image_mset (\<lambda>d. content E (M d)) (mset_set (complete_ids D n ps))"
    using merge_interleaved [OF assms(1-3) jobs assms(5)] by blast
  have len: "length (by_id d ps) = n" if "d \<in> D" for d using assms(4) that by (simp add: job_def)
  have "st d = None" for d
  proof -
    have "by_id d ps = [] \<or> length (by_id d ps) = n"
    proof (cases "d \<in> D")
      case False
      then have "d \<notin> did ` set ps" using assms(5) by blast
      then show ?thesis using by_id_none by blast
    qed (use len in blast)
    moreover have "entry_ok E n (st d) (by_id d ps)" using r(2) by blast
    ultimately show ?thesis by (cases "st d") (auto simp: entry_ok_def)
  qed
  then have "st = Map.empty" by blast
  moreover have "complete_ids D n ps = D" using len unfolding complete_ids_def by blast
  ultimately show ?thesis using r(1,3) by auto
qed

text \<open>
  (C30) Slicing and merging dense matrices is a round trip: for a stream of matrices, a slice function that gives numbers
  of parts and any order in which the parts of all these matrices arrive at the merge operator, interleaved in any way,
  it publishes exactly the matrices of the stream, with the same sizes and the same values, and keeps nothing. The order
  of the results is that of the last parts. Eigen is a parameter with the laws \<open>dense_laws\<close>; a matrix has to have rows and columns or neither.
\<close>

theorem slice_merge_roundtrip:
  assumes "dense_laws E" and "0 < n" and "\<forall>v i j. f v i j < n" and "\<forall>M\<in>set Ms. proper E (dmatrix M)"
  shows "\<exists>parts. run (slice_step E f n) gen (new_tuples Ms) = Inr (gen + length Ms, new_tuples parts) \<and>
    (\<forall>parts'. mset parts' = mset parts \<longrightarrow>
       (\<exists>out. run (merge_step E n) Map.empty (new_tuples parts') = Inr (Map.empty, new_tuples out) \<and>
          mset (map (content E) out) = mset (map (\<lambda>M. content E (dmatrix M)) Ms)))"
proof -
  let ?D = "{gen..<gen + length Ms}" and ?M = "\<lambda>d. dmatrix (Ms ! (d - gen))"
  obtain ps where ps: "run (slice_step E f n) gen (new_tuples Ms) = Inr (gen + length Ms, new_tuples ps)"
    "\<forall>p\<in>set ps. gen \<le> did p \<and> did p < gen + length Ms" "\<forall>k<length Ms. job E n (dmatrix (Ms ! k)) (gen + k) ps"
    using slice_run [OF assms(1,3,4)] by blast
  have same: "image_mset (\<lambda>d. content E (?M d)) (mset_set ?D) = mset (map (\<lambda>M. content E (dmatrix M)) Ms)"
  proof -
    have "mset_set ?D = mset [gen..<gen + length Ms]" using mset_set_set [of "[gen..<gen + length Ms]"] by simp
    moreover have "map (\<lambda>d. content E (?M d)) [gen..<gen + length Ms] = map (\<lambda>M. content E (dmatrix M)) Ms" by (intro nth_equalityI) auto
    ultimately show ?thesis by (simp only: flip: mset_map)
  qed
  have "\<exists>out. run (merge_step E n) Map.empty (new_tuples ps') = Inr (Map.empty, new_tuples out) \<and>
      mset (map (content E) out) = mset (map (\<lambda>M. content E (dmatrix M)) Ms)" if perm: "mset ps' = mset ps" for ps'
  proof -
    have "job E n (?M d) d ps'" if "d \<in> ?D" for d
    proof -
      have "d - gen < length Ms" "gen + (d - gen) = d" using that by auto
      then show ?thesis using ps(3) job_permute [OF perm] by metis
    qed
    moreover have "\<forall>p\<in>set ps'. did p \<in> ?D" using ps(2) mset_eq_setD [OF perm] by simp
    ultimately show ?thesis unfolding same [symmetric] by (intro merge_complete [OF assms(1,2)]) blast+
  qed
  then show ?thesis using ps(1) by blast
qed

text \<open>A container that satisfies the laws.\<close>

definition fun_dense :: "(nat \<times> nat \<times> (int \<Rightarrow> int \<Rightarrow> 'a::zero), 'a) EigenDense" where
  "fun_dense = \<lparr>ed_empty = (0, 0, \<lambda>_ _. 0), ed_rows = \<lambda>(r, c, g). int r, ed_cols = \<lambda>(r, c, g). int c, ed_coeff = \<lambda>(r, c, g). g,
     ed_assign = \<lambda>(r, c, g) i j v. (r, c, \<lambda>i' j'. if i' = i \<and> j' = j then v else g i' j'), ed_resize = \<lambda>(r, c, g) r' c'. (nat r', nat c', g)\<rparr>"

lemma fun_dense_laws: "dense_laws fun_dense"
  by (auto simp: dense_laws_def fun_dense_def)

theorem slice_merge_roundtrip_witness:
  "\<exists>parts. run (slice_step fun_dense (\<lambda>v i j. if i = 0 then 0 else 1) 2) 7
      (new_tuples [\<lparr>dmatrix = (2, 1, \<lambda>i j. i + 5), did = 0, incidentIndexes = []\<rparr>]) = Inr (8, new_tuples parts) \<and>
    (\<exists>out. run (merge_step fun_dense 2) Map.empty (new_tuples (rev parts)) = Inr (Map.empty, new_tuples out) \<and>
       mset (map (content fun_dense) out) = {#content fun_dense (2, 1, \<lambda>i j. i + 5)#})"
proof -
  let ?M = "\<lparr>dmatrix = (2, 1, \<lambda>i j. i + 5), did = 0, incidentIndexes = []\<rparr> :: (nat \<times> nat \<times> (int \<Rightarrow> int \<Rightarrow> int)) DenseMatrix"
  have pr: "\<forall>M\<in>set [?M]. proper fun_dense (dmatrix M)" by (simp add: proper_def fun_dense_def)
  have two: "\<forall>v i j. (if i = (0::int) then 0 else 1) < (2::nat)" by simp
  obtain parts where "run (slice_step fun_dense (\<lambda>v i j. if i = 0 then 0 else 1) 2) 7 (new_tuples [?M]) = Inr (7 + length [?M], new_tuples parts)"
    "\<forall>parts'. mset parts' = mset parts \<longrightarrow> (\<exists>out. run (merge_step fun_dense 2) Map.empty (new_tuples parts') = Inr (Map.empty, new_tuples out) \<and>
       mset (map (content fun_dense) out) = mset (map (\<lambda>M. content fun_dense (dmatrix M)) [?M]))"
    using slice_merge_roundtrip [of fun_dense 2 "\<lambda>v i j. if i = 0 then 0 else 1" "[?M]" 7, OF fun_dense_laws _ two pr] by (auto simp del: slice_step.simps run.simps list.map)
  then show ?thesis by (intro exI [of _ parts]) (simp del: slice_step.simps run.simps)
qed

text \<open>A matrix with rows and no columns is read at its first cell.\<close>

lemma degenerate_matrix_read_outside:
  "ed_rows E m = 0 \<Longrightarrow> ed_cols E m \<noteq> 0 \<Longrightarrow> dense_cells E m (0, 0) = Inl OutOfBounds"
  "ed_rows E m \<noteq> 0 \<Longrightarrow> ed_cols E m = 0 \<Longrightarrow> dense_cells E m (0, 0) = Inl OutOfBounds"
  by (simp_all add: dense_cells.simps [of E m "(0, 0)"] in_range_def)

section \<open>Sparse matrices\<close>

text \<open>
  A column of the container is the list of its stored entries. \<open>coeffRef\<close> checks the range and creates the
  entry; \<open>pruned\<close> drops the stored zeros.
\<close>

record ('m, 'a) EigenSparse =
  es_new :: "int \<Rightarrow> int \<Rightarrow> 'm"
  es_rows :: "'m \<Rightarrow> int"
  es_cols :: "'m \<Rightarrow> int"
  es_inner :: "'m \<Rightarrow> int \<Rightarrow> (int \<times> 'a) list"
  es_coeffRef :: "'m \<Rightarrow> int \<Rightarrow> int \<Rightarrow> 'a \<Rightarrow> 'm"
  es_resize :: "'m \<Rightarrow> int \<Rightarrow> int \<Rightarrow> 'm"
  es_pruned :: "'m \<Rightarrow> 'm"

definition es_nonZeros :: "('m, 'a) EigenSparse \<Rightarrow> 'm \<Rightarrow> nat" where
  "es_nonZeros E m = sum_list (map (\<lambda>j. length (es_inner E m (int j))) [0..<nat (es_cols E m)])"

definition sparse_laws :: "('m, 'a) EigenSparse \<Rightarrow> bool" where
  "sparse_laws E \<longleftrightarrow> (\<forall>r c. 0 \<le> r \<and> 0 \<le> c \<longrightarrow> es_rows E (es_new E r c) = r \<and> es_cols E (es_new E r c) = c) \<and>
     (\<forall>m. 0 \<le> es_rows E m \<and> 0 \<le> es_cols E m) \<and> (\<forall>r c j. es_inner E (es_new E r c) j = []) \<and>
     (\<forall>m j e. 0 \<le> j \<and> j < es_cols E m \<and> e \<in> set (es_inner E m j) \<longrightarrow> 0 \<le> fst e \<and> fst e < es_rows E m) \<and>
     (\<forall>m i j v. in_range (es_rows E m) (es_cols E m) i j \<longrightarrow>
        es_rows E (es_coeffRef E m i j v) = es_rows E m \<and> es_cols E (es_coeffRef E m i j v) = es_cols E m)"

record ('m, 'r) Matrix =
  smatrix :: 'm
  sid :: nat
  observers :: nat
  observed :: "('r \<times> bool) list"

definition sparse_set :: "('m, 'a) EigenSparse \<Rightarrow> int \<Rightarrow> int \<Rightarrow> 'a \<Rightarrow> 'm \<Rightarrow> 'm res" where
  "sparse_set E x y value m =
     (let newRow = (if x \<ge> es_rows E m then x + 1 else es_rows E m); newCol = (if y \<ge> es_cols E m then y + 1 else es_cols E m);
          m1 = (if newRow = es_rows E m \<and> newCol = es_cols E m then m else es_resize E m newRow newCol)
      in if in_range (es_rows E m1) (es_cols E m1) x y then Inr (es_coeffRef E m1 x y value) else Inl AssertFailed)"

definition sparse_remove :: "('m, 'a::zero) EigenSparse \<Rightarrow> int \<Rightarrow> int \<Rightarrow> 'm \<Rightarrow> 'm res" where
  "sparse_remove E x y m =
     (if in_range (es_rows E m) (es_cols E m) x y then Inr (es_pruned E (es_coeffRef E m x y 0)) else Inl AssertFailed)"

text \<open>\<open>insert\<close> and \<open>erase\<close> read the cell with \<open>ReaderValue\<close>, which asserts its sign, and call the observers.\<close>

definition sparse_insert :: "('m, 'a) EigenSparse \<Rightarrow> 'a cell \<Rightarrow> ('m, 'a cell) Matrix \<Rightarrow> ('m, 'a cell) Matrix res" where
  "sparse_insert E rec s =
     (if 0 \<le> fst rec \<and> 0 \<le> fst (snd rec)
      then bind_res (sparse_set E (fst rec) (fst (snd rec)) (cell_value rec) (smatrix s)) (\<lambda>m.
             Inr (s\<lparr>smatrix := m, observed := observed s @ (if 0 < observers s then [(rec, False)] else [])\<rparr>))
      else Inl AssertFailed)"

definition sparse_erase :: "('m, 'a::zero) EigenSparse \<Rightarrow> 'a cell \<Rightarrow> ('m, 'a cell) Matrix \<Rightarrow> ('m, 'a cell) Matrix res" where
  "sparse_erase E rec s =
     (if 0 \<le> fst rec \<and> 0 \<le> fst (snd rec)
      then bind_res (sparse_remove E (fst rec) (fst (snd rec)) (smatrix s)) (\<lambda>m.
             Inr (s\<lparr>smatrix := m, observed := observed s @ (if 0 < observers s then [(rec, True)] else [])\<rparr>))
      else Inl AssertFailed)"

text \<open>\<open>ToMatrix\<close>: the matrix is changed, then the element is passed on.\<close>

fun toMatrix_step :: "('m, 'a::zero) EigenSparse \<Rightarrow> (('m, 'a cell) Matrix, 'a cell, 'a cell) opstep" where
  "toMatrix_step E s (Data rec outdated) =
     bind_res (if outdated then sparse_erase E rec s else sparse_insert E rec s) (\<lambda>s1. Inr (s1, [Data rec outdated]))"
| "toMatrix_step E s (Punct p) = Inr (s, [Punct p])"

text \<open>\<open>FromMatrix\<close>: the callback puts the change into the queue; a round of \<open>produce\<close> publishes what the queue holds.\<close>

definition matrixCallback :: "'r \<times> bool \<Rightarrow> ('r \<times> bool) list \<Rightarrow> ('r \<times> bool) list" where
  "matrixCallback change queue = queue @ [change]"

fun produce_round :: "('r \<times> bool) list \<Rightarrow> 'r event list" where
  "produce_round [] = []"
| "produce_round ((rec, deleted) # queue) = Data rec deleted # produce_round queue"

text \<open>The iterator of the sparse matrix: the comparison with the end moves over empty columns up to the last one.\<close>

function sp_skip :: "('m, 'a) EigenSparse \<Rightarrow> 'm \<Rightarrow> int \<Rightarrow> (int \<times> 'a) list \<Rightarrow> int \<times> (int \<times> 'a) list" where
  "sp_skip E m idx rest = (if rest = [] \<and> idx < es_cols E m - 1 then sp_skip E m (idx + 1) (es_inner E m (idx + 1)) else (idx, rest))"
  by pat_completeness auto
termination
  by (relation "measure (\<lambda>(E, m, idx, rest). nat (es_cols E m - idx))") auto

declare sp_skip.simps [simp del]

lemma sp_skip_less: "sp_skip E m idx rest = (idx', e # es) \<Longrightarrow> idx \<le> idx' \<and> (idx' = idx \<longrightarrow> rest = e # es)"
proof (induction E m idx rest rule: sp_skip.induct)
  case (1 E m idx rest)
  then show ?case by (subst (asm) (2) sp_skip.simps) (fastforce split: if_splits)
qed

lemma sp_skip_bound: "idx < es_cols E m \<Longrightarrow> fst (sp_skip E m idx rest) < es_cols E m"
proof (induction E m idx rest rule: sp_skip.induct)
  case (1 E m idx rest)
  then show ?case by (subst sp_skip.simps) auto
qed

lemma sp_loop_less:
  assumes "(idx', e # es) = sp_skip E m idx rest" "idx' < es_cols E m"
  shows "nat (es_cols E m - idx') < nat (es_cols E m - idx) \<or> nat (es_cols E m - idx') = nat (es_cols E m - idx) \<and> length es < length rest"
  using sp_skip_less [OF assms(1) [symmetric]] assms(2) by (cases "idx' = idx") auto

function sp_loop :: "('m, 'a) EigenSparse \<Rightarrow> 'm \<Rightarrow> int \<Rightarrow> (int \<times> 'a) list \<Rightarrow> 'a cell list" where
  "sp_loop E m idx rest =
     (case sp_skip E m idx rest of
        (idx', []) \<Rightarrow> []
      | (idx', (i, v) # es) \<Rightarrow> if idx' < es_cols E m then (i, idx', v) # sp_loop E m idx' es else [])"
  by pat_completeness auto
termination
  by (relation "inv_image (less_than <*lex*> less_than) (\<lambda>(E, m, idx, rest). (nat (es_cols E m - idx), length rest))")
    (auto dest: sp_loop_less)

declare sp_loop.simps [simp del]

definition sparse_cells :: "('m, 'a) EigenSparse \<Rightarrow> 'm \<Rightarrow> 'a cell list res" where
  "sparse_cells E m = (if es_cols E m = 0 then Inl OutOfBounds else Inr (sp_loop E m 0 (es_inner E m 0)))"

section \<open>Slicing and merging sparse matrices\<close>

fun sp_slice_cells :: "('m, 'a) EigenSparse \<Rightarrow> ('a \<Rightarrow> int \<Rightarrow> int \<Rightarrow> nat) \<Rightarrow> 'a cell list \<Rightarrow> 'm list \<Rightarrow> 'm list res" where
  "sp_slice_cells E sliceFun [] parts = Inr parts"
| "sp_slice_cells E sliceFun ((i, j, v) # cs) parts =
     (let k = sliceFun v i j
      in if k < length parts then bind_res (sparse_set E i j v (parts ! k)) (\<lambda>p. sp_slice_cells E sliceFun cs (parts[k := p])) else Inl OutOfBounds)"

text \<open>
  The move constructor of the sparse matrix takes over the container and the observers but not the identifier, which is
  left without a value: \<open>junk\<close>. The operator sets the identifiers and then moves each part into its tuple.
\<close>

definition move_matrix :: "nat \<Rightarrow> ('m, 'r) Matrix \<Rightarrow> ('m, 'r) Matrix" where
  "move_matrix junk rhs = \<lparr>smatrix = smatrix rhs, sid = junk, observers = observers rhs, observed = observed rhs\<rparr>"

definition sp_slice_process ::
  "('m, 'a) EigenSparse \<Rightarrow> ('a \<Rightarrow> int \<Rightarrow> int \<Rightarrow> nat) \<Rightarrow> nat \<Rightarrow> nat \<Rightarrow> (nat \<Rightarrow> nat) \<Rightarrow> 'm \<Rightarrow> ('m, 'r) Matrix event list res" where
  "sp_slice_process E sliceFun numParts partID junk m =
     bind_res (sparse_cells E m) (\<lambda>cs.
     bind_res (sp_slice_cells E sliceFun cs (replicate numParts (es_new E (es_rows E m) (es_cols E m)))) (\<lambda>parts.
       let labelled = map (\<lambda>p. \<lparr>smatrix = p, sid = partID, observers = 0, observed = []\<rparr>) parts
       in Inr (map (\<lambda>(k, p). Data (move_matrix (junk k) p) False) (zip [0..<length labelled] labelled))))"

fun sp_set_cells :: "('m, 'a) EigenSparse \<Rightarrow> 'a cell list \<Rightarrow> 'm \<Rightarrow> 'm res" where
  "sp_set_cells E [] dst = Inr dst"
| "sp_set_cells E ((i, j, v) # cs) dst = bind_res (sparse_set E i j v dst) (sp_set_cells E cs)"

definition sp_merge_to :: "('m, 'a) EigenSparse \<Rightarrow> 'm \<Rightarrow> 'm \<Rightarrow> 'm res" where
  "sp_merge_to E src dst =
     (if es_nonZeros E dst = 0 then Inr src else bind_res (sparse_cells E src) (\<lambda>cs. sp_set_cells E cs dst))"

definition sp_merge_process ::
  "('m, 'a) EigenSparse \<Rightarrow> nat \<Rightarrow> ('m, 'r) Matrix \<Rightarrow> bool \<Rightarrow> (nat \<rightharpoonup> 'm Partition) \<Rightarrow> ((nat \<rightharpoonup> 'm Partition) \<times> 'm event list) res" where
  "sp_merge_process E numParts mat outdated partitions =
     (let part = (case partitions (sid mat) of Some p \<Rightarrow> p | None \<Rightarrow> \<lparr>countParts = 0, pmatrix = es_new E 0 0\<rparr>)
      in bind_res (sp_merge_to E (smatrix mat) (pmatrix part)) (\<lambda>m.
           if Suc (countParts part) = numParts then Inr (partitions(sid mat := None), [Data m outdated])
           else Inr (partitions(sid mat \<mapsto> \<lparr>countParts = Suc (countParts part), pmatrix = m\<rparr>), [])))"

fun sp_merge_step :: "('m, 'a) EigenSparse \<Rightarrow> nat \<Rightarrow> (nat \<rightharpoonup> 'm Partition, ('m, 'r) Matrix, 'm) opstep" where
  "sp_merge_step E numParts partitions (Data mat outdated) = sp_merge_process E numParts mat outdated partitions"
| "sp_merge_step E numParts partitions (Punct p) = Inr (partitions, [Punct p])"

lemma sparse_entries:
  assumes "sparse_laws E" "0 \<le> j" "j < es_cols E m"
  shows "\<forall>e\<in>set (es_inner E m j). 0 \<le> fst e \<and> fst e < es_rows E m"
proof
  fix e
  assume "e \<in> set (es_inner E m j)"
  moreover have "\<forall>m j e. 0 \<le> j \<and> j < es_cols E m \<and> e \<in> set (es_inner E m j) \<longrightarrow> 0 \<le> fst e \<and> fst e < es_rows E m"
    using assms(1) unfolding sparse_laws_def by (elim conjE)
  ultimately show "0 \<le> fst e \<and> fst e < es_rows E m" using assms(2,3) by blast
qed

lemma sp_skip_step: "rest = [] \<and> idx < es_cols E m - 1 \<Longrightarrow> sp_skip E m idx rest = sp_skip E m (idx + 1) (es_inner E m (idx + 1))"
  and sp_skip_stop: "\<not> (rest = [] \<and> idx < es_cols E m - 1) \<Longrightarrow> sp_skip E m idx rest = (idx, rest)"
  by (subst sp_skip.simps, erule if_P) (subst sp_skip.simps, erule if_not_P)

lemma sp_skip_entries:
  assumes "sparse_laws E" "0 \<le> idx" "\<forall>e\<in>set rest. 0 \<le> fst e \<and> fst e < es_rows E m" "sp_skip E m idx rest = (idx', es)"
  shows "0 \<le> idx' \<and> (\<forall>e\<in>set es. 0 \<le> fst e \<and> fst e < es_rows E m)"
  using assms
proof (induction E m idx rest rule: sp_skip.induct)
  case (1 E m idx rest)
  show ?case
  proof (cases "rest = [] \<and> idx < es_cols E m - 1")
    case True
    have "0 \<le> idx + 1" "idx + 1 < es_cols E m" using True "1.prems"(2) by simp_all
    then show ?thesis
      using "1.IH" [OF True "1.prems"(1) _ sparse_entries [OF "1.prems"(1)]] "1.prems"(4) unfolding sp_skip_step [OF True] by blast
  next
    case False
    then have "idx' = idx" "es = rest" using "1.prems"(4) sp_skip_stop [OF False] by simp_all
    then show ?thesis using "1.prems"(2,3) by simp
  qed
qed

lemma sp_loop_range:
  assumes "sparse_laws E"
    "0 \<le> idx" "\<forall>e\<in>set rest. 0 \<le> fst e \<and> fst e < es_rows E m" "c \<in> set (sp_loop E m idx rest)"
  shows "in_range (es_rows E m) (es_cols E m) (fst c) (fst (snd c))"
  using assms
proof (induction E m idx rest rule: sp_loop.induct)
  case (1 E m idx rest)
  obtain idx' es where sk: "sp_skip E m idx rest = (idx', es)" by (cases "sp_skip E m idx rest")
  note b = sp_skip_entries [OF "1.prems"(1-3) sk]
  show ?case
  proof (cases es)
    case Nil
    then show ?thesis using "1.prems"(4) sk by (simp add: sp_loop.simps [of E m idx rest])
  next
    case (Cons e es')
    obtain i v where e: "e = (i, v)" by (cases e)
    then have lt: "idx' < es_cols E m" and c: "c = (i, idx', v) \<or> c \<in> set (sp_loop E m idx' es')"
      using "1.prems"(4) sk Cons by (auto simp: sp_loop.simps [of E m idx rest] split: if_splits)
    have rest: "0 \<le> idx'" "\<forall>e\<in>set es'. 0 \<le> fst e \<and> fst e < es_rows E m" using b Cons by simp_all
    show ?thesis
    proof (cases "c = (i, idx', v)")
      case True
      then show ?thesis using b lt Cons e by (simp add: in_range_def)
    next
      case False
      then have "c \<in> set (sp_loop E m idx' es')" using c by blast
      then show ?thesis using "1.IH" [OF sk [symmetric] Cons e [symmetric] lt "1.prems"(1) rest] by blast
    qed
  qed
qed

lemma sp_slice_total:
  assumes "sparse_laws E" "\<forall>p\<in>set parts. es_rows E p = r \<and> es_cols E p = c" "\<forall>x\<in>set cs. in_range r c (fst x) (fst (snd x))" "\<forall>v i j. f v i j < length parts"
  shows "\<exists>parts'. sp_slice_cells E f cs parts = Inr parts' \<and> length parts' = length parts"
  using assms(2-)
proof (induction cs arbitrary: parts)
  case (Cons x cs)
  obtain i j v where x: "x = (i, j, v)" by (cases x)
  let ?k = "f v i j"
  have k: "?k < length parts" using Cons.prems(3) by blast
  have p: "es_rows E (parts ! ?k) = r" "es_cols E (parts ! ?k) = c" using Cons.prems(1) k by auto
  have xr: "in_range r c i j" using Cons.prems(2) x by simp
  then have s: "sparse_set E i j v (parts ! ?k) = Inr (es_coeffRef E (parts ! ?k) i j v)" using p by (auto simp: sparse_set_def in_range_def Let_def)
  have sz: "es_rows E (es_coeffRef E (parts ! ?k) i j v) = r \<and> es_cols E (es_coeffRef E (parts ! ?k) i j v) = c"
    using assms(1) xr p by (simp add: sparse_laws_def)
  have "\<forall>q\<in>set (parts[?k := es_coeffRef E (parts ! ?k) i j v]). es_rows E q = r \<and> es_cols E q = c"
    using Cons.prems(1) sz set_update_subset_insert [of parts ?k] by blast
  then show ?case using Cons.IH [of "parts[?k := es_coeffRef E (parts ! ?k) i j v]"] Cons.prems s k by (auto simp: x Let_def)
qed simp

lemma merge_strangers:
  assumes "sparse_laws E" "2 \<le> n" "distinct (map sid ps)" "\<forall>p\<in>set ps. st (sid p) = None"
  shows "\<exists>st'. run (sp_merge_step E n) st (new_tuples ps) = Inr (st', [])"
  using assms(3,4)
proof (induction ps arbitrary: st)
  case (Cons p ps)
  have "es_nonZeros E (es_new E 0 0) = 0" using assms(1) by (simp add: es_nonZeros_def sparse_laws_def)
  then have s: "sp_merge_step E n st (Data p False) = Inr (st(sid p \<mapsto> \<lparr>countParts = 1, pmatrix = smatrix p\<rparr>), [])"
    using assms(2) Cons.prems(2) by (simp add: sp_merge_process_def sp_merge_to_def)
  obtain st1 where st1: "st1 = st(sid p \<mapsto> \<lparr>countParts = 1, pmatrix = smatrix p\<rparr>)" by blast
  have "st1 (sid q) = None" if "q \<in> set ps" for q
  proof -
    have "sid q \<noteq> sid p" using Cons.prems(1) imageI [OF that, of sid] by auto
    then show ?thesis using Cons.prems(2) that by (simp add: st1)
  qed
  then obtain st' where "run (sp_merge_step E n) st1 (new_tuples ps) = Inr (st', [])"
    using Cons.IH [of st1] Cons.prems(1) by auto
  then show ?case using s by (simp add: st1 del: sp_merge_step.simps)
qed simp

text \<open>
  For sparse matrices slicing and merging is not a round trip: the parts lose their common identifier when they are
  moved into their tuples, and what the merge operator finds there are values that were never set. When these differ, it takes each
  part for a part of another matrix and publishes nothing, although all parts have arrived.
\<close>

theorem sparse_parts_are_lost:
  fixes E :: "('m, 'a) EigenSparse"
  assumes "sparse_laws E" and "0 < es_cols E m" and "2 \<le> n" and "\<forall>v i j. f v i j < n" and "inj junk"
  shows "\<exists>(parts :: ('m, 'r) Matrix list) st. sp_slice_process E f n partID junk m = Inr (new_tuples parts) \<and> length parts = n \<and>
    run (sp_merge_step E n) Map.empty (new_tuples parts) = Inr (st, [])"
proof -
  let ?new = "replicate n (es_new E (es_rows E m) (es_cols E m))" and ?cs = "sp_loop E m 0 (es_inner E m 0)"
  have cs: "\<forall>x\<in>set ?cs. in_range (es_rows E m) (es_cols E m) (fst x) (fst (snd x))"
    using sp_loop_range [OF assms(1) order_refl sparse_entries [OF assms(1) order_refl assms(2)]] by blast
  have new: "\<forall>p\<in>set ?new. es_rows E p = es_rows E m \<and> es_cols E p = es_cols E m" using assms(1) by (simp add: sparse_laws_def)
  obtain parts where parts: "sp_slice_cells E f ?cs ?new = Inr parts" "length parts = n"
    using sp_slice_total [OF assms(1) new cs, of f] assms(4) by auto
  let ?l = "map (\<lambda>p. \<lparr>smatrix = p, sid = partID, observers = 0, observed = []\<rparr>) parts :: ('m, 'r) Matrix list"
  let ?ps = "map (\<lambda>(k, p). move_matrix (junk k) p) (zip [0..<n] ?l)"
  have s: "sp_slice_process E f n partID junk m = Inr (new_tuples ?ps)"
    using parts assms(2) by (simp add: sp_slice_process_def sparse_cells_def Let_def case_prod_unfold comp_def)
  have "map sid ?ps = map junk [0..<n]" using parts(2) by (intro nth_equalityI) (auto simp: move_matrix_def)
  moreover have "distinct (map junk [0..<n])" using assms(5) by (simp add: distinct_map inj_on_def inj_def)
  ultimately have "distinct (map sid ?ps)" by (simp only:)
  then obtain st where "run (sp_merge_step E n) Map.empty (new_tuples ?ps) = Inr (st, [])"
    using merge_strangers [OF assms(1,3), of ?ps Map.empty] by auto
  then show ?thesis using s parts(2) by (intro exI [of _ ?ps] exI [of _ st]) simp
qed

text \<open>A sparse container that satisfies the laws.\<close>

definition list_sparse :: "(nat \<times> nat \<times> (int \<Rightarrow> (int \<times> 'a::zero) list), 'a) EigenSparse" where
  "list_sparse = \<lparr>es_new = \<lambda>r c. (nat r, nat c, \<lambda>_. []), es_rows = \<lambda>(r, c, g). int r, es_cols = \<lambda>(r, c, g). int c,
     es_inner = \<lambda>(r, c, g) j. filter (\<lambda>(i, v). 0 \<le> i \<and> i < int r) (g j),
     es_coeffRef = \<lambda>(r, c, g) i j v. (r, c, \<lambda>j'. if j' = j then filter (\<lambda>(i', _). i' < i) (g j) @ [(i, v)] @ filter (\<lambda>(i', _). i < i') (g j) else g j'),
     es_resize = \<lambda>(r, c, g) r' c'. (nat r', nat c', g), es_pruned = \<lambda>(r, c, g). (r, c, \<lambda>j. filter (\<lambda>(_, v). v \<noteq> 0) (g j))\<rparr>"

lemma list_sparse_laws: "sparse_laws list_sparse"
  by (auto simp: sparse_laws_def list_sparse_def)

theorem sparse_parts_are_lost_witness:
  "\<exists>parts st. sp_slice_process list_sparse (\<lambda>v i j. if i = 0 then 0 else 1) 2 7 (\<lambda>k. k + 100) (2, 1, \<lambda>j. [(0, 5::int), (1, 6)]) = Inr (new_tuples parts) \<and>
    length parts = 2 \<and> run (sp_merge_step list_sparse 2) Map.empty (new_tuples parts) = Inr (st, [])"
proof (rule sparse_parts_are_lost [OF list_sparse_laws])
  show "0 < es_cols list_sparse (2, 1, \<lambda>j. [(0, 5::int), (1, 6)])" by (simp add: list_sparse_def)
qed (simp_all add: inj_def)

text \<open>What \<open>FromMatrix\<close> publishes of a stream that \<open>ToMatrix\<close> writes into an observed matrix is this stream, with its flags.\<close>

lemma produce_round_append: "produce_round (q @ q') = produce_round q @ produce_round q'"
  by (induction q rule: produce_round.induct) auto

lemma matrix_change_stream:
  assumes "run (toMatrix_step E) s es = Inr (s', out)" "0 < observers s"
  shows "produce_round (observed s') = produce_round (observed s) @ filter (\<lambda>e. case e of Data x od \<Rightarrow> True | Punct p \<Rightarrow> False) es \<and> out = es \<and> 0 < observers s'"
  using assms
proof (induction es arbitrary: s s' out)
  case (Cons e es)
  obtain s1 o1 o2 where s1: "toMatrix_step E s e = Inr (s1, o1)" "run (toMatrix_step E) s1 es = Inr (s', o2)" "out = o1 @ o2"
    using Cons.prems(1) by (auto split: sum.splits prod.splits simp del: toMatrix_step.simps)
  have "produce_round (observed s1) = produce_round (observed s) @ filter (\<lambda>e. case e of Data x od \<Rightarrow> True | Punct p \<Rightarrow> False) [e] \<and> o1 = [e] \<and> 0 < observers s1"
    using s1(1) Cons.prems(2) by (cases e) (auto simp: sparse_erase_def sparse_insert_def produce_round_append split: if_splits)
  then show ?case using Cons.IH [OF s1(2)] s1(3) by simp
qed simp

text \<open>An outdated cell outside the matrix fails.\<close>

lemma erase_outside_fails:
  "\<not> in_range (es_rows E (smatrix s)) (es_cols E (smatrix s)) i j \<Longrightarrow> toMatrix_step E s (Data (i, j, v) True) = Inl AssertFailed"
  by (simp add: sparse_erase_def sparse_remove_def)

end
