(* ===== verification/Channels.thy ===== *)
theory Channels
  imports Pf_Prelude
begin

text \<open>
  Publish and subscribe (\<open>pubsub/\<close>): the signals \<open>OneToManySignal\<close> (the default of all operators)
  and \<open>OneToOneSignal\<close>, and the subscriptions between output and input channels
  (\<open>channels/Channel.hpp\<close>, \<open>OutputChannel.hpp\<close>, \<open>Subscription.hpp\<close>), which both endpoints and the
  handles of the caller share. The object graph is an explicit store: channels and
  subscriptions are addresses, a destroyed channel is \<open>None\<close>, and the weak references of a
  subscription are the addresses of its endpoints, which \<open>lock\<close> finds or not.
\<close>

section \<open>Signals\<close>

text \<open>A slot is a callback, \<open>None\<close> the empty \<open>std::function\<close>.\<close>

record 's OneToManySignal =
  mNextSlotID :: uint
  mSlots :: "(uint \<times> 's option) list"

definition OneToManySignal_new :: "'s OneToManySignal" where
  "OneToManySignal_new = \<lparr>mNextSlotID = 0, mSlots = []\<rparr>"

definition otm_connect :: "'s OneToManySignal \<Rightarrow> 's option \<Rightarrow> uint \<times> 's OneToManySignal" where
  "otm_connect sig slot =
     (mNextSlotID sig, sig\<lparr>mNextSlotID := mNextSlotID sig + 1, mSlots := mSlots sig @ [(mNextSlotID sig, slot)]\<rparr>)"

text \<open>\<open>find_if\<close> and \<open>erase\<close>: the first entry with the id.\<close>

fun erase_slot :: "uint \<Rightarrow> (uint \<times> 's option) list \<Rightarrow> (uint \<times> 's option) list option" where
  "erase_slot c [] = None"
| "erase_slot c (e # es) = (if fst e = c then Some es else map_option ((#) e) (erase_slot c es))"

definition otm_disconnect :: "'s OneToManySignal \<Rightarrow> uint \<Rightarrow> 's OneToManySignal res" where
  "otm_disconnect sig connection =
     (case erase_slot connection (mSlots sig) of None \<Rightarrow> Inl AssertFailed
      | Some es \<Rightarrow> Inr (sig\<lparr>mSlots := es\<rparr>))"

text \<open>The slots that \<open>operator()\<close> invokes, in order.\<close>

definition otm_publish :: "'s OneToManySignal \<Rightarrow> 's list" where
  "otm_publish sig = List.map_filter snd (mSlots sig)"

type_synonym 's OneToOneSignal = "'s option"

definition oto_connect :: "'s OneToOneSignal \<Rightarrow> 's option \<Rightarrow> (uint \<times> 's OneToOneSignal) res" where
  "oto_connect sig slot = (if sig = None then Inr (0, slot) else Inl AssertFailed)"

definition oto_disconnect :: "'s OneToOneSignal \<Rightarrow> uint \<Rightarrow> 's OneToOneSignal res" where
  "oto_disconnect sig connection = (if connection = 0 then Inr None else Inl AssertFailed)"

definition oto_publish :: "'s OneToOneSignal \<Rightarrow> 's list" where
  "oto_publish sig = (case sig of None \<Rightarrow> [] | Some s \<Rightarrow> [s])"

section \<open>Channels and subscriptions\<close>

record Subscription =
  mPublisher :: nat
  mSubscriber :: nat
  mConnection :: uint
  mIsConnected :: bool

text \<open>
  The slot of an input channel is bound to its consumer; it is named by the address of the
  channel. The set of subscriptions of a channel is a list without order.
\<close>

record OutputChannel =
  mSignal :: "nat OneToManySignal"
  mSubscriptions :: "nat list"

record PubSub =
  outs :: "OutputChannel option list"
  ins :: "nat list option list"
  subs :: "Subscription list"

definition PubSub_empty :: PubSub where
  "PubSub_empty = \<lparr>outs = [], ins = [], subs = []\<rparr>"

definition OutputChannel_new :: "PubSub \<Rightarrow> PubSub" where
  "OutputChannel_new st = st\<lparr>outs := outs st @ [Some \<lparr>mSignal = OneToManySignal_new, mSubscriptions = []\<rparr>]\<rparr>"

definition InputChannel_new :: "PubSub \<Rightarrow> PubSub" where
  "InputChannel_new st = st\<lparr>ins := ins st @ [Some []]\<rparr>"

definition addSubscription :: "nat \<Rightarrow> nat list \<Rightarrow> nat list" where
  "addSubscription sid ss = List.insert sid ss"

definition removeSubscription :: "nat \<Rightarrow> nat list \<Rightarrow> nat list" where
  "removeSubscription sid ss = removeAll sid ss"

text \<open>A live object of the store.\<close>

definition alive :: "'a option list \<Rightarrow> nat \<Rightarrow> 'a option" where
  "alive xs i = (if i < length xs then xs ! i else None)"

text \<open>\<open>connectChannels\<close>, \<open>OutputChannel::subscribe\<close>; both channels are references, hence alive.\<close>

definition subscribe :: "PubSub \<Rightarrow> nat \<Rightarrow> nat \<Rightarrow> PubSub res" where
  "subscribe st p s =
     (case (alive (outs st) p, alive (ins st) s) of
        (Some oc, Some ic) \<Rightarrow>
          (let sid = length (subs st); (connection, sig) = otm_connect (mSignal oc) (Some s)
           in Inr (st\<lparr>subs := subs st @ [\<lparr>mPublisher = p, mSubscriber = s, mConnection = connection, mIsConnected = True\<rparr>],
                outs := (outs st)[p := Some (oc\<lparr>mSignal := sig, mSubscriptions := addSubscription sid (mSubscriptions oc)\<rparr>)],
                ins := (ins st)[s := Some (addSubscription sid ic)]\<rparr>))
      | _ \<Rightarrow> Inl UseAfterErase)"

text \<open>\<open>Subscription::closeSubscription\<close>, in its parts: the publisher, the subscriber, the flag.\<close>

definition close_publisher :: "PubSub \<Rightarrow> nat \<Rightarrow> PubSub res" where
  "close_publisher st sid =
     (case alive (outs st) (mPublisher (subs st ! sid)) of
        None \<Rightarrow> Inr st
      | Some oc \<Rightarrow> bind_res (otm_disconnect (mSignal oc) (mConnection (subs st ! sid))) (\<lambda>sig.
          Inr (st\<lparr>outs := (outs st)[mPublisher (subs st ! sid) :=
                 Some (oc\<lparr>mSignal := sig, mSubscriptions := removeSubscription sid (mSubscriptions oc)\<rparr>)]\<rparr>)))"

definition close_subscriber :: "PubSub \<Rightarrow> nat \<Rightarrow> PubSub" where
  "close_subscriber st sid =
     (case alive (ins st) (mSubscriber (subs st ! sid)) of
        None \<Rightarrow> st
      | Some ic \<Rightarrow> st\<lparr>ins := (ins st)[mSubscriber (subs st ! sid) := Some (removeSubscription sid ic)]\<rparr>)"

definition closeSubscription :: "PubSub \<Rightarrow> nat \<Rightarrow> PubSub res" where
  "closeSubscription st sid =
     (if sid < length (subs st)
      then if mIsConnected (subs st ! sid)
        then bind_res (close_publisher st sid) (\<lambda>st1.
          let st2 = close_subscriber st1 sid
          in Inr (st2\<lparr>subs := (subs st2)[sid := (subs st2 ! sid)\<lparr>mIsConnected := False\<rparr>]\<rparr>))
        else Inr st
      else Inl UseAfterErase)"

fun close_all :: "PubSub \<Rightarrow> nat list \<Rightarrow> PubSub res" where
  "close_all st [] = Inr st"
| "close_all st (sid # sids) = bind_res (closeSubscription st sid) (\<lambda>st'. close_all st' sids)"

text \<open>
  \<open>~Channel\<close>: takes its subscriptions one by one and closes them. No shared reference to the
  channel is left, so \<open>lock\<close> does not find it any more.
\<close>

definition destroy_out :: "PubSub \<Rightarrow> nat \<Rightarrow> PubSub res" where
  "destroy_out st p =
     (case alive (outs st) p of None \<Rightarrow> Inl UseAfterErase
      | Some oc \<Rightarrow> close_all (st\<lparr>outs := (outs st)[p := None]\<rparr>) (mSubscriptions oc))"

definition destroy_in :: "PubSub \<Rightarrow> nat \<Rightarrow> PubSub res" where
  "destroy_in st s =
     (case alive (ins st) s of None \<Rightarrow> Inl UseAfterErase
      | Some ic \<Rightarrow> close_all (st\<lparr>ins := (ins st)[s := None]\<rparr>) ic)"

text \<open>The input channels that a publication through an output channel reaches, in order.\<close>

definition publish :: "PubSub \<Rightarrow> nat \<Rightarrow> nat list res" where
  "publish st p = (case alive (outs st) p of None \<Rightarrow> Inl UseAfterErase | Some oc \<Rightarrow> Inr (otm_publish (mSignal oc)))"

datatype ps_op = NewOut | NewIn | Subscribe nat nat | Close nat | DestroyOut nat | DestroyIn nat

fun ps_exec :: "PubSub \<Rightarrow> ps_op \<Rightarrow> PubSub res" where
  "ps_exec st NewOut = Inr (OutputChannel_new st)"
| "ps_exec st NewIn = Inr (InputChannel_new st)"
| "ps_exec st (Subscribe p s) = subscribe st p s"
| "ps_exec st (Close sid) = closeSubscription st sid"
| "ps_exec st (DestroyOut p) = destroy_out st p"
| "ps_exec st (DestroyIn s) = destroy_in st s"

fun ps_run :: "PubSub \<Rightarrow> ps_op list \<Rightarrow> PubSub res" where
  "ps_run st [] = Inr st"
| "ps_run st (x # xs) = bind_res (ps_exec st x) (\<lambda>st'. ps_run st' xs)"

section \<open>Specification\<close>

text \<open>
  What the layer promises: a set of open links in the order of their creation. A link is open
  until it is closed or one of its ends is destroyed. \<open>None\<close> is a use of a dead object.
\<close>

record LinkSpec =
  live_outs :: "bool list"
  live_ins :: "bool list"
  created :: nat
  links :: "(nat \<times> nat \<times> nat) list"

definition is_live :: "bool list \<Rightarrow> nat \<Rightarrow> bool" where
  "is_live xs i \<longleftrightarrow> i < length xs \<and> xs ! i"

fun spec_exec :: "LinkSpec \<Rightarrow> ps_op \<Rightarrow> LinkSpec option" where
  "spec_exec a NewOut = Some (a\<lparr>live_outs := live_outs a @ [True]\<rparr>)"
| "spec_exec a NewIn = Some (a\<lparr>live_ins := live_ins a @ [True]\<rparr>)"
| "spec_exec a (Subscribe p s) =
     (if is_live (live_outs a) p \<and> is_live (live_ins a) s
      then Some (a\<lparr>created := Suc (created a), links := links a @ [(created a, p, s)]\<rparr>) else None)"
| "spec_exec a (Close sid) =
     (if sid < created a then Some (a\<lparr>links := filter (\<lambda>(i, _). i \<noteq> sid) (links a)\<rparr>) else None)"
| "spec_exec a (DestroyOut p) =
     (if is_live (live_outs a) p then Some (a\<lparr>live_outs := (live_outs a)[p := False], links := filter (\<lambda>(_, q, _). q \<noteq> p) (links a)\<rparr>) else None)"
| "spec_exec a (DestroyIn s) =
     (if is_live (live_ins a) s then Some (a\<lparr>live_ins := (live_ins a)[s := False], links := filter (\<lambda>(_, _, t). t \<noteq> s) (links a)\<rparr>) else None)"

fun spec_run :: "LinkSpec \<Rightarrow> ps_op list \<Rightarrow> LinkSpec option" where
  "spec_run a [] = Some a"
| "spec_run a (x # xs) = (case spec_exec a x of None \<Rightarrow> None | Some a' \<Rightarrow> spec_run a' xs)"

definition reached :: "LinkSpec \<Rightarrow> nat \<Rightarrow> nat list" where
  "reached a p = map (\<lambda>(_, _, s). s) (filter (\<lambda>(_, q, _). q = p) (links a))"

section \<open>The invariant\<close>

lemma alive_update [simp]:
  "alive (xs[i := v]) j = (if i = j \<and> i < length xs then v else alive xs j)"
  by (simp add: alive_def)

lemma alive_length: "alive xs i = Some x \<Longrightarrow> i < length xs"
  by (simp add: alive_def split: if_splits)

lemma alive_append [simp]: "alive (xs @ [v]) j = (if j = length xs then v else alive xs j)"
  by (simp add: alive_def nth_append)

definition live :: "'a option list \<Rightarrow> bool list" where
  "live xs = map (\<lambda>x. x \<noteq> None) xs"

lemma is_live_live: "is_live (live xs) i \<longleftrightarrow> alive xs i \<noteq> None"
  by (auto simp: is_live_def live_def alive_def)

lemma live_update: "live (xs[i := v]) = (live xs)[i := v \<noteq> None]"
  by (simp add: live_def map_update)

lemma live_same: "alive xs i = Some x \<Longrightarrow> live (xs[i := Some y]) = live xs"
  by (rule nth_equalityI) (auto simp: live_def alive_def nth_list_update split: if_splits)

lemma live_snoc: "live (xs @ [Some y]) = live xs @ [True]"
  by (simp add: live_def)

definition open_links :: "Subscription list \<Rightarrow> (nat \<times> nat \<times> nat) list" where
  "open_links xs = map (\<lambda>i. (i, mPublisher (xs ! i), mSubscriber (xs ! i))) (filter (\<lambda>i. mIsConnected (xs ! i)) [0..<length xs])"

definition abs_ps :: "PubSub \<Rightarrow> LinkSpec" where
  "abs_ps st = \<lparr>live_outs = live (outs st), live_ins = live (ins st), created = length (subs st), links = open_links (subs st)\<rparr>"

definition count_of :: "nat \<Rightarrow> Subscription list \<Rightarrow> nat" where
  "count_of p xs = length (filter (\<lambda>x. mPublisher x = p) xs)"

definition out_ok :: "(nat \<times> nat \<times> nat) list \<Rightarrow> Subscription list \<Rightarrow> nat \<Rightarrow> OutputChannel \<Rightarrow> bool" where
  "out_ok L xs p oc \<longleftrightarrow>
     mSlots (mSignal oc) = map (\<lambda>(i, _, s). (mConnection (xs ! i), Some s)) (filter (\<lambda>(_, q, _). q = p) L) \<and>
     mNextSlotID (mSignal oc) = of_nat (count_of p xs) \<and>
     set (mSubscriptions oc) = fst ` set (filter (\<lambda>(_, q, _). q = p) L)"

definition in_ok :: "(nat \<times> nat \<times> nat) list \<Rightarrow> nat \<Rightarrow> nat list \<Rightarrow> bool" where
  "in_ok L s ic \<longleftrightarrow> set ic = fst ` set (filter (\<lambda>(_, _, t). t = s) L)"

definition conns_ok :: "Subscription list \<Rightarrow> bool" where
  "conns_ok xs \<longleftrightarrow> (\<forall>i<length xs. mConnection (xs ! i) = of_nat (count_of (mPublisher (xs ! i)) (take i xs)))"

definition ends_ok :: "PubSub \<Rightarrow> bool" where
  "ends_ok st \<longleftrightarrow> (\<forall>i<length (subs st). mPublisher (subs st ! i) < length (outs st) \<and> mSubscriber (subs st ! i) < length (ins st))"

definition ps_inv :: "PubSub \<Rightarrow> bool" where
  "ps_inv st \<longleftrightarrow> conns_ok (subs st) \<and> ends_ok st \<and>
     (\<forall>p oc. alive (outs st) p = Some oc \<longrightarrow> out_ok (open_links (subs st)) (subs st) p oc) \<and>
     (\<forall>s ic. alive (ins st) s = Some ic \<longrightarrow> in_ok (open_links (subs st)) s ic)"

lemma open_links_mem:
  "(i, p, s) \<in> set (open_links xs) \<longleftrightarrow> i < length xs \<and> mIsConnected (xs ! i) \<and> mPublisher (xs ! i) = p \<and> mSubscriber (xs ! i) = s"
  by (auto simp: open_links_def)

lemma open_links_distinct: "distinct (map fst (open_links xs))"
  by (simp add: open_links_def comp_def)

text \<open>Connection numbers of one publisher differ as long as the counter does not wrap.\<close>

lemma count_less:
  assumes "i < j" "j \<le> length xs" "mPublisher (xs ! i) = p"
  shows "count_of p (take i xs) < count_of p (take j xs)"
proof -
  have "take j xs = take i xs @ xs ! i # take (j - Suc i) (drop (Suc i) xs)"
    using assms(1,2) by (metis Cons_nth_drop_Suc Suc_diff_Suc less_le_trans order_less_imp_le le_add_diff_inverse take_Suc_Cons take_add)
  then show ?thesis using assms(3) by (simp add: count_of_def)
qed

lemma count_le: "count_of p (take j xs) \<le> length xs"
  by (metis count_of_def length_filter_le le_trans length_take min.cobounded1)

lemma conn_inj:
  assumes "conns_ok xs" "length xs \<le> 2 ^ 32" "i < length xs" "j < length xs"
    and "mPublisher (xs ! i) = mPublisher (xs ! j)" "mConnection (xs ! i) = mConnection (xs ! j)"
  shows "i = j"
proof -
  have "False" if "i < j" "j < length xs" "mPublisher (xs ! i) = mPublisher (xs ! j)" "mConnection (xs ! i) = mConnection (xs ! j)" for i j
  proof -
    let ?p = "mPublisher (xs ! i)"
    have lt: "count_of ?p (take i xs) < count_of ?p (take j xs)" using count_less [of i j xs ?p] that by simp
    have "count_of ?p (take j xs) < count_of ?p (take (length xs) xs)" using count_less [of j "length xs" xs ?p] that by simp
    then have b: "count_of ?p (take j xs) < 2 ^ 32" using assms(2) count_le [of ?p "length xs" xs] by simp
    have "(of_nat (count_of ?p (take i xs)) :: uint) = of_nat (count_of ?p (take j xs))"
      using assms(1) that by (simp add: conns_ok_def)
    then have "unat (of_nat (count_of ?p (take i xs)) :: uint) = unat (of_nat (count_of ?p (take j xs)) :: uint)" by simp
    then show False using lt b by (simp add: unat_of_nat)
  qed
  from this [of i j] this [of j i] show ?thesis using assms(3-6) by (metis linorder_neqE_nat)
qed

lemma erase_slot_filter:
  "distinct (map fst es) \<Longrightarrow> c \<in> fst ` set es \<Longrightarrow> erase_slot c es = Some (filter (\<lambda>e. fst e \<noteq> c) es)"
proof (induction es)
  case (Cons e es)
  have "filter (\<lambda>e. fst e \<noteq> c) es = es" if "fst e = c"
    using Cons.prems(1) that by (intro filter_True ballI) (metis distinct.simps(2) image_eqI list.set_map list.simps(9))
  then show ?case using Cons by auto
qed simp

section \<open>Closing\<close>

definition without :: "nat \<Rightarrow> (nat \<times> nat \<times> nat) list \<Rightarrow> (nat \<times> nat \<times> nat) list" where
  "without sid L = filter (\<lambda>(i, _). i \<noteq> sid) L"

lemma out_ok_other:
  "out_ok L xs p oc \<Longrightarrow> (\<And>q s. (sid, q, s) \<in> set L \<Longrightarrow> q \<noteq> p) \<Longrightarrow> out_ok (without sid L) xs p oc"
proof -
  assume "\<And>q s. (sid, q, s) \<in> set L \<Longrightarrow> q \<noteq> p"
  then have "filter (\<lambda>(_, q, _). q = p) (without sid L) = filter (\<lambda>(_, q, _). q = p) L"
    by (auto simp: without_def intro!: filter_cong)
  then show "out_ok L xs p oc \<Longrightarrow> out_ok (without sid L) xs p oc" by (simp add: out_ok_def)
qed

lemma in_ok_other:
  "in_ok L s ic \<Longrightarrow> (\<And>q t. (sid, q, t) \<in> set L \<Longrightarrow> t \<noteq> s) \<Longrightarrow> in_ok (without sid L) s ic"
  by (force simp: in_ok_def without_def)

lemma in_ok_remove: "in_ok L s ic \<Longrightarrow> in_ok (without sid L) s (removeSubscription sid ic)"
  by (force simp: in_ok_def without_def removeSubscription_def)

lemma disconnect_ok:
  assumes ok: "out_ok (open_links xs) xs p oc" and c: "conns_ok xs" "length xs \<le> 2 ^ 32"
    and sid: "sid < length xs" "mIsConnected (xs ! sid)" "mPublisher (xs ! sid) = p"
  obtains sig where "otm_disconnect (mSignal oc) (mConnection (xs ! sid)) = Inr sig"
    and "out_ok (without sid (open_links xs)) xs p (oc\<lparr>mSignal := sig, mSubscriptions := removeSubscription sid (mSubscriptions oc)\<rparr>)"
proof -
  let ?L = "filter (\<lambda>(_, q, _). q = p) (open_links xs)" and ?f = "\<lambda>(i, _, s). (mConnection (xs ! i), Some s)"
  have inj: "mConnection (xs ! i) = mConnection (xs ! sid) \<longleftrightarrow> i = sid" if "(i, q, s) \<in> set ?L" for i q s
    using that conn_inj [OF c, of i sid] sid by (auto simp: open_links_mem)
  have "distinct (map (mConnection \<circ> nth xs) (map fst ?L))"
  proof (subst distinct_map, intro conjI)
    show "distinct (map fst ?L)" using open_links_distinct [of xs] by (simp add: distinct_map_filter)
    show "inj_on (mConnection \<circ> nth xs) (set (map fst ?L))"
      by (rule inj_onI) (use conn_inj [OF c] in \<open>auto simp: open_links_mem\<close>)
  qed
  moreover have keys: "map fst (map ?f ?L) = map (mConnection \<circ> nth xs) (map fst ?L)" by auto
  moreover have "(sid, p, mSubscriber (xs ! sid)) \<in> set ?L" using sid by (simp add: open_links_mem)
  then have "mConnection (xs ! sid) \<in> fst ` set (map ?f ?L)" by force
  ultimately have "erase_slot (mConnection (xs ! sid)) (map ?f ?L) = Some (filter (\<lambda>e. fst e \<noteq> mConnection (xs ! sid)) (map ?f ?L))"
    by (metis erase_slot_filter)
  moreover have "filter (\<lambda>e. fst e \<noteq> mConnection (xs ! sid)) (map ?f ?L) = map ?f (filter (\<lambda>(_, q, _). q = p) (without sid (open_links xs)))"
    unfolding filter_map without_def filter_filter using inj by (intro arg_cong [of _ _ "map ?f"] filter_cong) auto
  ultimately have "otm_disconnect (mSignal oc) (mConnection (xs ! sid)) =
      Inr ((mSignal oc)\<lparr>mSlots := map ?f (filter (\<lambda>(_, q, _). q = p) (without sid (open_links xs)))\<rparr>)"
    using ok by (simp add: out_ok_def otm_disconnect_def)
  moreover have "set (removeSubscription sid (mSubscriptions oc)) = fst ` set (filter (\<lambda>(_, q, _). q = p) (without sid (open_links xs)))"
    using ok by (force simp: out_ok_def removeSubscription_def without_def)
  ultimately show ?thesis
    using ok that [of "(mSignal oc)\<lparr>mSlots := map ?f (filter (\<lambda>(_, q, _). q = p) (without sid (open_links xs)))\<rparr>"]
    by (simp add: out_ok_def)
qed

lemma open_links_close:
  assumes "sid < length xs"
  shows "open_links (xs[sid := (xs ! sid)\<lparr>mIsConnected := False\<rparr>]) = without sid (open_links xs)"
proof -
  let ?y = "xs[sid := (xs ! sid)\<lparr>mIsConnected := False\<rparr>]"
  have "filter (\<lambda>i. mIsConnected (?y ! i)) [0..<length xs] = filter (\<lambda>i. i \<noteq> sid) (filter (\<lambda>i. mIsConnected (xs ! i)) [0..<length xs])"
    unfolding filter_filter using assms by (intro filter_cong) (auto simp: nth_list_update)
  moreover have "mPublisher (?y ! i) = mPublisher (xs ! i)" "mSubscriber (?y ! i) = mSubscriber (xs ! i)" for i
    using assms by (cases "i = sid"; simp)+
  ultimately show ?thesis by (simp add: open_links_def without_def filter_map comp_def)
qed

lemma close_keeps_conns:
  assumes "sid < length xs"
  defines "ys \<equiv> xs[sid := (xs ! sid)\<lparr>mIsConnected := False\<rparr>]"
  shows "count_of p (take i ys) = count_of p (take i xs)" and "conns_ok xs \<Longrightarrow> conns_ok ys" and "out_ok L ys p oc = out_ok L xs p oc"
proof -
  have pub: "map mPublisher ys = map mPublisher xs" using assms(1) by (intro nth_equalityI) (auto simp: ys_def nth_list_update)
  then have tk: "map mPublisher (take i ys) = map mPublisher (take i xs)" for i by (metis take_map)
  have cm: "count_of q zs = length (filter (\<lambda>x. x = q) (map mPublisher zs))" for q zs
    by (simp add: count_of_def filter_map comp_def)
  show cnt: "count_of p (take i ys) = count_of p (take i xs)" for p i unfolding cm tk ..
  have n: "mPublisher (ys ! i) = mPublisher (xs ! i)" "mConnection (ys ! i) = mConnection (xs ! i)" "length ys = length xs" for i
    using assms(1) by (simp_all add: ys_def) (cases "i = sid"; simp)+
  show "conns_ok xs \<Longrightarrow> conns_ok ys" by (simp add: conns_ok_def n cnt)
  have "count_of p ys = count_of p xs" unfolding cm pub ..
  then show "out_ok L ys p oc = out_ok L xs p oc" by (simp add: out_ok_def n)
qed

text \<open>The two ends of a link are closed separately; an end that is gone already is skipped.\<close>

lemma close_publisher_ok:
  assumes inv: "ps_inv st" and b: "length (subs st) \<le> 2 ^ 32" and sid: "sid < length (subs st)" "mIsConnected (subs st ! sid)"
  obtains os where "close_publisher st sid = Inr (st\<lparr>outs := os\<rparr>)" "live os = live (outs st)"
    "\<forall>p oc. alive os p = Some oc \<longrightarrow> out_ok (without sid (open_links (subs st))) (subs st) p oc"
proof (cases "alive (outs st) (mPublisher (subs st ! sid))")
  case None
  then have "\<forall>p oc. alive (outs st) p = Some oc \<longrightarrow> out_ok (without sid (open_links (subs st))) (subs st) p oc"
    using inv by (auto simp: ps_inv_def open_links_mem intro!: out_ok_other)
  then show ?thesis using that [of "outs st"] None by (simp add: close_publisher_def)
next
  case (Some oc)
  let ?xs = "subs st" and ?p = "mPublisher (subs st ! sid)"
  obtain sig where sig: "otm_disconnect (mSignal oc) (mConnection (?xs ! sid)) = Inr sig"
    "out_ok (without sid (open_links ?xs)) ?xs ?p (oc\<lparr>mSignal := sig, mSubscriptions := removeSubscription sid (mSubscriptions oc)\<rparr>)"
    using disconnect_ok [of ?xs ?p oc sid] inv Some b sid by (auto simp: ps_inv_def)
  let ?os = "(outs st)[?p := Some (oc\<lparr>mSignal := sig, mSubscriptions := removeSubscription sid (mSubscriptions oc)\<rparr>)]"
  have "out_ok (without sid (open_links ?xs)) ?xs p oc'" if "alive ?os p = Some oc'" for p oc'
    using that inv sig(2) out_ok_other [of "open_links ?xs" ?xs p oc' sid] alive_length [OF Some]
    by (cases "p = ?p") (auto simp: ps_inv_def open_links_mem)
  then show ?thesis using that [of ?os] Some sig(1) live_same [OF Some] by (simp add: close_publisher_def)
qed

lemma close_subscriber_ok:
  assumes inv: "ps_inv st"
  obtains ics where "close_subscriber (st\<lparr>outs := os\<rparr>) sid = st\<lparr>outs := os, ins := ics\<rparr>" "live ics = live (ins st)"
    "\<forall>s ic. alive ics s = Some ic \<longrightarrow> in_ok (without sid (open_links (subs st))) s ic"
proof (cases "alive (ins st) (mSubscriber (subs st ! sid))")
  case None
  then have "\<forall>s ic. alive (ins st) s = Some ic \<longrightarrow> in_ok (without sid (open_links (subs st))) s ic"
    using inv by (auto simp: ps_inv_def open_links_mem intro!: in_ok_other)
  then show ?thesis using that [of "ins st"] None by (simp add: close_subscriber_def)
next
  case (Some ic)
  let ?s = "mSubscriber (subs st ! sid)"
  have "in_ok (without sid (open_links (subs st))) s ic'" if "alive ((ins st)[?s := Some (removeSubscription sid ic)]) s = Some ic'" for s ic'
    using that inv Some in_ok_remove [of "open_links (subs st)" s ic sid] in_ok_other [of "open_links (subs st)" s ic' sid] alive_length [OF Some]
    by (cases "s = ?s") (auto simp: ps_inv_def open_links_mem)
  then show ?thesis using that [of "(ins st)[?s := Some (removeSubscription sid ic)]"] Some live_same [OF Some]
    by (simp add: close_subscriber_def)
qed

text \<open>
  Closing removes exactly the link, whichever of the two endpoints is still alive; an already
  closed subscription stays closed.
\<close>

lemma close_ok:
  assumes inv: "ps_inv st" and sid: "sid < length (subs st)" and b: "length (subs st) \<le> 2 ^ 32"
  obtains st' where "closeSubscription st sid = Inr st'" "ps_inv st'" "length (subs st') = length (subs st)"
    "live (outs st') = live (outs st)" "live (ins st') = live (ins st)" "open_links (subs st') = without sid (open_links (subs st))"
proof (cases "mIsConnected (subs st ! sid)")
  case False
  then have "without sid (open_links (subs st)) = open_links (subs st)"
    by (auto simp: without_def open_links_mem intro!: filter_True)
  then show ?thesis using False sid inv that [of st] by (simp add: closeSubscription_def)
next
  case True
  let ?L = "without sid (open_links (subs st))" and ?ys = "(subs st)[sid := (subs st ! sid)\<lparr>mIsConnected := False\<rparr>]"
  note k = close_keeps_conns [OF sid]
  obtain os where os: "close_publisher st sid = Inr (st\<lparr>outs := os\<rparr>)" "live os = live (outs st)"
    "\<forall>p oc. alive os p = Some oc \<longrightarrow> out_ok ?L (subs st) p oc" by (rule close_publisher_ok [OF inv b sid True])
  obtain ics where ics: "close_subscriber (st\<lparr>outs := os\<rparr>) sid = st\<lparr>outs := os, ins := ics\<rparr>" "live ics = live (ins st)"
    "\<forall>s ic. alive ics s = Some ic \<longrightarrow> in_ok ?L s ic" by (rule close_subscriber_ok [OF inv])
  have "closeSubscription st sid = Inr (st\<lparr>outs := os, ins := ics, subs := ?ys\<rparr>)"
    using True sid os(1) ics(1) by (simp add: closeSubscription_def)
  moreover have "length os = length (outs st)" "length ics = length (ins st)"
    using os(2) ics(2) by (metis live_def length_map)+
  then have "ends_ok (st\<lparr>outs := os, ins := ics, subs := ?ys\<rparr>)"
    using inv sid by (auto simp: ps_inv_def ends_ok_def nth_list_update)
  then have "ps_inv (st\<lparr>outs := os, ins := ics, subs := ?ys\<rparr>)"
    using inv os(3) ics(3) k(2) k(3) by (simp add: ps_inv_def open_links_close [OF sid])
  ultimately show ?thesis using that os(2) ics(2) by (simp add: open_links_close [OF sid])
qed

definition without_all :: "nat list \<Rightarrow> (nat \<times> nat \<times> nat) list \<Rightarrow> (nat \<times> nat \<times> nat) list" where
  "without_all sids L = filter (\<lambda>(i, _). i \<notin> set sids) L"

lemma close_all_ok:
  assumes "ps_inv st" "\<forall>sid\<in>set sids. sid < length (subs st)" "length (subs st) \<le> 2 ^ 32"
  shows "\<exists>st'. close_all st sids = Inr st' \<and> ps_inv st' \<and> length (subs st') = length (subs st) \<and>
    live (outs st') = live (outs st) \<and> live (ins st') = live (ins st) \<and> open_links (subs st') = without_all sids (open_links (subs st))"
  using assms
proof (induction sids arbitrary: st)
  case Nil
  then show ?case by (simp add: without_all_def)
next
  case (Cons sid sids)
  obtain st1 where s1: "closeSubscription st sid = Inr st1" "ps_inv st1" "length (subs st1) = length (subs st)"
    "live (outs st1) = live (outs st)" "live (ins st1) = live (ins st)" "open_links (subs st1) = without sid (open_links (subs st))"
    using close_ok [of st sid] Cons.prems by auto
  have "without_all sids (without sid L) = without_all (sid # sids) L" for L
    by (auto simp: without_all_def without_def filter_filter intro!: filter_cong)
  then show ?case using Cons.IH [OF s1(2)] Cons.prems s1 by simp
qed

section \<open>The refinement\<close>

lemma open_links_snoc:
  "open_links (xs @ [x]) = open_links xs @ (if mIsConnected x then [(length xs, mPublisher x, mSubscriber x)] else [])"
proof -
  have "filter (\<lambda>i. mIsConnected ((xs @ [x]) ! i)) [0..<length xs] = filter (\<lambda>i. mIsConnected (xs ! i)) [0..<length xs]"
    by (rule filter_cong) (simp_all add: nth_append)
  then show ?thesis by (auto simp: open_links_def nth_append)
qed

lemma out_ok_snoc:
  assumes "out_ok (open_links xs) xs p oc" "mPublisher x \<noteq> p"
  shows "out_ok (open_links (xs @ [x])) (xs @ [x]) p oc"
proof -
  have "mConnection ((xs @ [x]) ! i) = mConnection (xs ! i)" if "(i, q, s) \<in> set (open_links xs)" for i q s
    using that by (simp add: open_links_mem nth_append)
  then show ?thesis using assms by (auto simp: out_ok_def open_links_snoc count_of_def)
qed

lemma out_ok_connect:
  fixes s :: nat
  assumes ok: "out_ok (open_links xs) xs p oc"
  defines "x \<equiv> \<lparr>mPublisher = p, mSubscriber = s, mConnection = mNextSlotID (mSignal oc), mIsConnected = True\<rparr>"
  shows "out_ok (open_links (xs @ [x])) (xs @ [x]) p
    (oc\<lparr>mSignal := snd (otm_connect (mSignal oc) (Some s)), mSubscriptions := addSubscription (length xs) (mSubscriptions oc)\<rparr>)"
proof -
  have "mConnection ((xs @ [x]) ! i) = mConnection (xs ! i)" if "(i, q, t) \<in> set (open_links xs)" for i q t
    using that by (simp add: open_links_mem nth_append)
  then show ?thesis
    using ok by (auto simp: out_ok_def open_links_snoc count_of_def otm_connect_def addSubscription_def x_def add.commute)
qed

lemma in_ok_snoc:
  "in_ok L t ic \<Longrightarrow> in_ok (L @ [(n, p, s)]) t (if t = s then addSubscription n ic else ic)"
  by (simp add: in_ok_def addSubscription_def)

lemma subscribe_ok:
  assumes inv: "ps_inv st" and p: "alive (outs st) p = Some oc" and s: "alive (ins st) s = Some ic"
  shows "\<exists>st'. subscribe st p s = Inr st' \<and> ps_inv st' \<and>
    abs_ps st' = (abs_ps st)\<lparr>created := Suc (created (abs_ps st)), links := links (abs_ps st) @ [(created (abs_ps st), p, s)]\<rparr>"
proof -
  let ?xs = "subs st" and ?n = "length (subs st)"
  let ?x = "\<lparr>mPublisher = p, mSubscriber = s, mConnection = mNextSlotID (mSignal oc), mIsConnected = True\<rparr>"
  let ?oc = "oc\<lparr>mSignal := snd (otm_connect (mSignal oc) (Some s)), mSubscriptions := addSubscription ?n (mSubscriptions oc)\<rparr>"
  let ?st = "st\<lparr>subs := ?xs @ [?x], outs := (outs st)[p := Some ?oc], ins := (ins st)[s := Some (addSubscription ?n ic)]\<rparr>"
  have eq: "subscribe st p s = Inr ?st" using p s by (simp add: subscribe_def otm_connect_def Let_def)
  have ok: "out_ok (open_links ?xs) ?xs q oc'" if "alive (outs st) q = Some oc'" for q oc' using inv that by (simp add: ps_inv_def)
  have "out_ok (open_links (?xs @ [?x])) (?xs @ [?x]) q oc'" if "alive ((outs st)[p := Some ?oc]) q = Some oc'" for q oc'
    using that ok out_ok_snoc [of ?xs q oc' ?x] out_ok_connect [OF ok [OF p], of s] alive_length [OF p] by (cases "q = p") auto
  moreover have "in_ok (open_links (?xs @ [?x])) t ic'" if "alive ((ins st)[s := Some (addSubscription ?n ic)]) t = Some ic'" for t ic'
    using that inv s alive_length [OF s] in_ok_snoc [of "open_links ?xs" t _ ?n p s] by (cases "t = s") (auto simp: ps_inv_def open_links_snoc)
  moreover have "conns_ok (?xs @ [?x])"
    using inv ok [OF p] by (auto simp: ps_inv_def conns_ok_def nth_append out_ok_def less_Suc_eq)
  moreover have "ends_ok ?st"
    using inv alive_length [OF p] alive_length [OF s] by (auto simp: ps_inv_def ends_ok_def nth_append less_Suc_eq)
  ultimately have "ps_inv ?st" by (simp add: ps_inv_def)
  moreover have "abs_ps ?st = (abs_ps st)\<lparr>created := Suc (created (abs_ps st)), links := links (abs_ps st) @ [(created (abs_ps st), p, s)]\<rparr>"
    using live_same [OF p] live_same [OF s] by (simp add: abs_ps_def open_links_snoc)
  ultimately show ?thesis using eq by blast
qed

lemma without_all_eq:
  assumes "set sids = fst ` set (filter P (open_links xs))"
  shows "without_all sids (open_links xs) = filter (\<lambda>x. \<not> P x) (open_links xs)"
proof -
  have "fst x \<notin> set sids \<longleftrightarrow> \<not> P x" if "x \<in> set (open_links xs)" for x
    using inj_on_image_mem_iff [of fst "set (open_links xs)" x "set (filter P (open_links xs))"] that assms open_links_distinct [of xs]
    by (simp add: distinct_map)
  then show ?thesis by (auto simp: without_all_def intro!: filter_cong)
qed

lemma sids_bound: "set sids = fst ` set (filter P (open_links xs)) \<Longrightarrow> \<forall>sid\<in>set sids. sid < length xs"
  by (auto simp: open_links_mem)

lemma destroy_out_ok:
  assumes inv: "ps_inv st" and b: "length (subs st) \<le> 2 ^ 32" and p: "alive (outs st) p = Some oc"
  shows "\<exists>st'. destroy_out st p = Inr st' \<and> ps_inv st' \<and>
    abs_ps st' = (abs_ps st)\<lparr>live_outs := (live_outs (abs_ps st))[p := False], links := filter (\<lambda>(_, q, _). q \<noteq> p) (links (abs_ps st))\<rparr>"
proof -
  have m: "set (mSubscriptions oc) = fst ` set (filter (\<lambda>(_, q, _). q = p) (open_links (subs st)))"
    using inv p by (simp add: ps_inv_def out_ok_def)
  let ?st = "st\<lparr>outs := (outs st)[p := None]\<rparr>"
  have "ps_inv ?st" using inv by (auto simp: ps_inv_def ends_ok_def)
  from close_all_ok [OF this, of "mSubscriptions oc"] obtain st' where st': "close_all ?st (mSubscriptions oc) = Inr st'" "ps_inv st'"
    "length (subs st') = length (subs st)" "live (outs st') = live (outs ?st)" "live (ins st') = live (ins st)"
    "open_links (subs st') = without_all (mSubscriptions oc) (open_links (subs st))" using sids_bound [OF m] b by auto
  moreover have "(\<lambda>x. \<not> (case x of (_ :: nat, q, _ :: nat) \<Rightarrow> q = p)) = (\<lambda>(_, q, _). q \<noteq> p)" by auto
  ultimately show ?thesis using p without_all_eq [OF m] by (simp add: destroy_out_def abs_ps_def live_update)
qed

lemma destroy_in_ok:
  assumes inv: "ps_inv st" and b: "length (subs st) \<le> 2 ^ 32" and s: "alive (ins st) s = Some ic"
  shows "\<exists>st'. destroy_in st s = Inr st' \<and> ps_inv st' \<and>
    abs_ps st' = (abs_ps st)\<lparr>live_ins := (live_ins (abs_ps st))[s := False], links := filter (\<lambda>(_, _, t). t \<noteq> s) (links (abs_ps st))\<rparr>"
proof -
  have m: "set ic = fst ` set (filter (\<lambda>(_, _, t). t = s) (open_links (subs st)))" using inv s by (simp add: ps_inv_def in_ok_def)
  let ?st = "st\<lparr>ins := (ins st)[s := None]\<rparr>"
  have "ps_inv ?st" using inv by (auto simp: ps_inv_def ends_ok_def)
  from close_all_ok [OF this, of ic] obtain st' where st': "close_all ?st ic = Inr st'" "ps_inv st'"
    "length (subs st') = length (subs st)" "live (outs st') = live (outs st)" "live (ins st') = live (ins ?st)"
    "open_links (subs st') = without_all ic (open_links (subs st))" using sids_bound [OF m] b by auto
  moreover have "(\<lambda>x. \<not> (case x of (_ :: nat, _ :: nat, t) \<Rightarrow> t = s)) = (\<lambda>(_, _, t). t \<noteq> s)" by auto
  ultimately show ?thesis using s without_all_eq [OF m] by (simp add: destroy_in_def abs_ps_def live_update)
qed

lemma new_out_ok:
  assumes inv: "ps_inv st"
  shows "ps_inv (OutputChannel_new st)"
proof -
  have "filter (\<lambda>(_, q, _). q = length (outs st)) (open_links (subs st)) = []"
    using inv by (auto simp: filter_empty_conv open_links_mem ps_inv_def ends_ok_def)
  moreover have "count_of (length (outs st)) (subs st) = 0" 
    using inv by (force simp: count_of_def filter_empty_conv ps_inv_def ends_ok_def in_set_conv_nth)
  ultimately have "out_ok (open_links (subs st)) (subs st) (length (outs st)) \<lparr>mSignal = OneToManySignal_new, mSubscriptions = []\<rparr>"
    unfolding out_ok_def by (simp add: OneToManySignal_new_def)
  then show ?thesis using inv by (auto simp: ps_inv_def ends_ok_def OutputChannel_new_def)
qed

lemma new_in_ok:
  assumes inv: "ps_inv st"
  shows "ps_inv (InputChannel_new st)"
proof -
  have "filter (\<lambda>(_, _, t). t = length (ins st)) (open_links (subs st)) = []"
    using inv by (auto simp: filter_empty_conv open_links_mem ps_inv_def ends_ok_def)
  then have "in_ok (open_links (subs st)) (length (ins st)) []" unfolding in_ok_def by simp
  then show ?thesis using inv by (auto simp: ps_inv_def ends_ok_def InputChannel_new_def)
qed

lemma exec_refines:
  assumes inv: "ps_inv st" and b: "length (subs st) \<le> 2 ^ 32" and e: "spec_exec (abs_ps st) x = Some a"
  shows "\<exists>st'. ps_exec st x = Inr st' \<and> ps_inv st' \<and> abs_ps st' = a"
proof (cases x)
  case NewOut
  then show ?thesis using e new_out_ok [OF inv] by (simp add: OutputChannel_new_def abs_ps_def live_snoc)
next
  case NewIn
  then show ?thesis using e new_in_ok [OF inv] by (simp add: InputChannel_new_def abs_ps_def live_snoc)
next
  case (Subscribe p s)
  then obtain oc ic where "alive (outs st) p = Some oc" "alive (ins st) s = Some ic"
    and a: "a = (abs_ps st)\<lparr>created := Suc (created (abs_ps st)), links := links (abs_ps st) @ [(created (abs_ps st), p, s)]\<rparr>"
    using e by (auto simp: abs_ps_def is_live_live split: if_splits)
  from subscribe_ok [OF inv this(1,2)] show ?thesis using a Subscribe by auto
next
  case (Close sid)
  then have sid: "sid < length (subs st)" and a: "a = (abs_ps st)\<lparr>links := without sid (links (abs_ps st))\<rparr>"
    using e by (auto simp: abs_ps_def without_def split: if_splits)
  from close_ok [OF inv sid b] show ?thesis using a Close by (metis (no_types, lifting) abs_ps_def ps_exec.simps(4) LinkSpec.update_convs(4) LinkSpec.select_convs(4))
next
  case (DestroyOut p)
  then obtain oc where "alive (outs st) p = Some oc"
    and a: "a = (abs_ps st)\<lparr>live_outs := (live_outs (abs_ps st))[p := False], links := filter (\<lambda>(_, q, _). q \<noteq> p) (links (abs_ps st))\<rparr>"
    using e by (auto simp: abs_ps_def is_live_live split: if_splits)
  from destroy_out_ok [OF inv b this(1)] show ?thesis using a DestroyOut by auto
next
  case (DestroyIn s)
  then obtain ic where "alive (ins st) s = Some ic"
    and a: "a = (abs_ps st)\<lparr>live_ins := (live_ins (abs_ps st))[s := False], links := filter (\<lambda>(_, _, t). t \<noteq> s) (links (abs_ps st))\<rparr>"
    using e by (auto simp: abs_ps_def is_live_live split: if_splits)
  from destroy_in_ok [OF inv b this(1)] show ?thesis using a DestroyIn by auto
qed

lemma spec_created_mono: "spec_exec a x = Some a' \<Longrightarrow> created a \<le> created a'"
  by (cases x) (auto split: if_splits)

lemma spec_run_created_mono: "spec_run a xs = Some a' \<Longrightarrow> created a \<le> created a'"
  by (induction xs arbitrary: a) (auto split: option.splits dest: spec_created_mono intro: le_trans)

lemma run_refines:
  assumes "ps_inv st" and "spec_run (abs_ps st) xs = Some a" and "created a \<le> 2 ^ 32"
  shows "\<exists>st'. ps_run st xs = Inr st' \<and> ps_inv st' \<and> abs_ps st' = a"
  using assms
proof (induction xs arbitrary: st)
  case (Cons x xs)
  then obtain a1 where a1: "spec_exec (abs_ps st) x = Some a1" "spec_run a1 xs = Some a" by (auto split: option.splits)
  have "created (abs_ps st) \<le> created a" using spec_run_created_mono [OF Cons.prems(2)] .
  then have "length (subs st) \<le> 2 ^ 32" using Cons.prems(3) by (simp add: abs_ps_def)
  from exec_refines [OF Cons.prems(1) this a1(1)] obtain st1 where "ps_exec st x = Inr st1" "ps_inv st1" "abs_ps st1 = a1" by blast
  then show ?case using Cons.IH [of st1] a1(2) Cons.prems(3) by simp
qed simp

lemma publish_reached:
  assumes inv: "ps_inv st" and p: "is_live (live_outs (abs_ps st)) p"
  shows "publish st p = Inr (reached (abs_ps st) p)"
proof -
  obtain oc where oc: "alive (outs st) p = Some oc" using p by (auto simp: abs_ps_def is_live_live)
  then have "mSlots (mSignal oc) = map (\<lambda>(i, _, s). (mConnection (subs st ! i), Some s)) (filter (\<lambda>(_, q, _). q = p) (open_links (subs st)))"
    using inv by (simp add: ps_inv_def out_ok_def)
  moreover have "List.map_filter snd (map (\<lambda>(i, _, s). (C i, Some s)) L) = map (\<lambda>(_, _, s). s) L" for C :: "nat \<Rightarrow> uint" and L :: "(nat \<times> nat \<times> nat) list"
    by (induction L) (auto simp: map_filter_simps)
  ultimately show ?thesis using oc by (simp add: publish_def otm_publish_def reached_def abs_ps_def)
qed

section \<open>Properties\<close>

definition LinkSpec_empty :: LinkSpec where
  "LinkSpec_empty = \<lparr>live_outs = [], live_ins = [], created = 0, links = []\<rparr>"

lemma empty_ok: "ps_inv PubSub_empty" and abs_empty: "abs_ps PubSub_empty = LinkSpec_empty"
  by (simp_all add: ps_inv_def PubSub_empty_def alive_def conns_ok_def ends_ok_def abs_ps_def LinkSpec_empty_def live_def open_links_def)

text \<open>
  (C16) Delivery: for every sequence of creations, subscriptions, closings and destructions of
  channels that uses only live objects and makes at most \<open>2 ^ 32\<close> subscriptions, no assertion
  fails, and a publication reaches exactly the input channels whose subscriptions are open,
  in the order in which they were made: a subscription is open until it is closed or one of
  its two channels is destroyed.
\<close>

theorem publish_reaches_open_subscriptions:
  assumes "spec_run LinkSpec_empty xs = Some a" and "created a \<le> 2 ^ 32"
  shows "\<exists>st. ps_run PubSub_empty xs = Inr st \<and>
    (\<forall>p. publish st p = (if is_live (live_outs a) p then Inr (reached a p) else Inl UseAfterErase))"
proof -
  obtain st where st: "ps_run PubSub_empty xs = Inr st" "ps_inv st" "abs_ps st = a"
    using run_refines [OF empty_ok, of xs a] assms abs_empty by auto
  moreover have "publish st p = Inl UseAfterErase" if "\<not> is_live (live_outs a) p" for p
    using that st(3) by (auto simp: abs_ps_def is_live_live publish_def)
  ultimately show ?thesis using publish_reached [of st] by auto
qed

abbreviation demo_wiring :: "ps_op list" where
  "demo_wiring \<equiv> [NewOut, NewIn, NewIn, NewIn, Subscribe 0 2, Subscribe 0 1, Subscribe 0 0, Close 1, DestroyIn 2]"

theorem publish_reaches_open_subscriptions_witness:
  "\<exists>st. ps_run PubSub_empty demo_wiring = Inr st \<and> publish st 0 = Inr [0]"
proof -
  let ?a = "\<lparr>live_outs = [True], live_ins = [True, True, False], created = 3, links = [(2, 0, 0)]\<rparr>"
  have "spec_run LinkSpec_empty demo_wiring = Some ?a" by (simp add: LinkSpec_empty_def is_live_def numeral_eq_Suc)
  from publish_reaches_open_subscriptions [OF this] show ?thesis by (auto simp: is_live_def reached_def)
qed

text \<open>
  The counter of a signal wraps: after \<open>2 ^ 32\<close> connections a number is handed out again while
  the first slot that has it is still connected, and closing the new connection removes the
  old slot.
\<close>

fun reconnect :: "nat \<Rightarrow> 's OneToManySignal \<Rightarrow> 's option \<Rightarrow> 's OneToManySignal res" where
  "reconnect 0 sig slot = Inr sig"
| "reconnect (Suc n) sig slot =
     (case otm_connect sig slot of (c, sig1) \<Rightarrow> bind_res (otm_disconnect sig1 c) (\<lambda>sig2. reconnect n sig2 slot))"

lemma reconnect_counts:
  assumes "mSlots sig = [(0, Some a)]" "mNextSlotID sig = of_nat k" "0 < k" "k + n \<le> 2 ^ 32"
  shows "reconnect n sig slot = Inr (sig\<lparr>mNextSlotID := of_nat (k + n)\<rparr>)"
  using assms
proof (induction n arbitrary: k sig)
  case (Suc n)
  have "(of_nat k :: uint) \<noteq> 0" using Suc.prems(3,4) by (simp add: word_of_nat_eq_0_iff nat_dvd_not_less)
  then have "otm_disconnect (snd (otm_connect sig slot)) (of_nat k) = Inr (sig\<lparr>mNextSlotID := of_nat (Suc k)\<rparr>)"
    using Suc.prems(1,2) by (cases sig) (simp add: otm_connect_def otm_disconnect_def add.commute)
  then have "reconnect (Suc n) sig slot = reconnect n (sig\<lparr>mNextSlotID := of_nat (Suc k)\<rparr>) slot"
    using Suc.prems(2) by (simp add: otm_connect_def)
  also have "\<dots> = Inr (sig\<lparr>mNextSlotID := of_nat (Suc k + n)\<rparr>)"
    using Suc.IH [of "sig\<lparr>mNextSlotID := of_nat (Suc k)\<rparr>" "Suc k"] Suc.prems by simp
  finally show ?case by simp
qed simp

text \<open>The signal with one slot after \<open>2 ^ 32 - 1\<close> further connections that were closed again.\<close>

lemma slot_ids_wrap:
  fixes a b :: 's
  shows "\<exists>sig1 sig2. reconnect (2 ^ 32 - 1) (snd (otm_connect OneToManySignal_new (Some a))) None = Inr sig1 \<and>
    otm_connect sig1 (Some b) = (0, sig2) \<and> otm_publish sig2 = [a, b] \<and>
    (\<exists>sig3. otm_disconnect sig2 0 = Inr sig3 \<and> otm_publish sig3 = [b])"
proof -
  let ?s0 = "snd (otm_connect OneToManySignal_new (Some a))"
  have "reconnect (2 ^ 32 - 1) ?s0 None = Inr (?s0\<lparr>mNextSlotID := of_nat (1 + (2 ^ 32 - 1))\<rparr>)"
    by (rule reconnect_counts [where a = a and k = 1]) (simp_all add: otm_connect_def OneToManySignal_new_def)
  moreover have "(of_nat (1 + (2 ^ 32 - 1)) :: uint) = 0" by simp
  ultimately have "reconnect (2 ^ 32 - 1) ?s0 None = Inr (?s0\<lparr>mNextSlotID := 0\<rparr>)" by simp
  then show ?thesis
    by (auto simp: otm_connect_def OneToManySignal_new_def otm_publish_def otm_disconnect_def map_filter_simps)
qed

end
