(* ===== verification/Windows.thy ===== *)
theory Windows
  imports Pf_Prelude
begin

text \<open>
  The window operators: \<open>qop/Window.hpp\<close> (state and constructors), \<open>qop/SlidingWindow.hpp\<close>
  and \<open>qop/TumblingWindow.hpp\<close> (handlers and eviction strategies), and the tick of the
  eviction thread of \<open>qop/Window.cpp\<close>. The buffer counter is the 32-bit unsigned integer of
  the source; a handler's failures are the error branches of its result.
\<close>

section \<open>Window state and constructors\<close>

datatype WinType = InvalidWindow | RangeWindow | RowWindow

text \<open>\<open>boost::variant<Timestamp, unsigned int>\<close>.\<close>

datatype WinSizeType = WinTime Timestamp | WinRows uint

record 'a Window =
  mTimestampExtractor :: "('a \<Rightarrow> Timestamp) option"
  mWinType :: WinType
  mWinSize :: WinSizeType
  mWindowOpFunc :: "('a list \<Rightarrow> 'a \<Rightarrow> 'a) option"
  mEvictInterval :: uint
  mTupleBuf :: "'a list"
  mCurrSize :: uint
  mEvictThread :: bool

text \<open>
  The three constructors of \<open>Window\<close>. In the first the size of a range window is given in
  seconds and \<open>sz * 1000 * 1000\<close> is computed in \<open>unsigned int\<close>, that is modulo \<open>2 ^ 32\<close>,
  before it becomes a timestamp; the second takes a duration (here already in
  microseconds); the third is the row constructor with its assertion.
\<close>

definition Window_seconds ::
  "('a \<Rightarrow> Timestamp) \<Rightarrow> WinType \<Rightarrow> uint \<Rightarrow> ('a list \<Rightarrow> 'a \<Rightarrow> 'a) option \<Rightarrow> uint \<Rightarrow> 'a Window" where
  "Window_seconds func wt sz opf ei =
     \<lparr>mTimestampExtractor = Some func, mWinType = wt,
      mWinSize = (if wt = RangeWindow then WinTime (uint (sz * 1000 * 1000)) else WinRows sz),
      mWindowOpFunc = opf, mEvictInterval = ei, mTupleBuf = [], mCurrSize = 0,
      mEvictThread = False\<rparr>"

definition Window_duration ::
  "('a \<Rightarrow> Timestamp) \<Rightarrow> WinType \<Rightarrow> Timestamp \<Rightarrow> ('a list \<Rightarrow> 'a \<Rightarrow> 'a) option \<Rightarrow> uint \<Rightarrow> 'a Window" where
  "Window_duration func wt d opf ei =
     \<lparr>mTimestampExtractor = Some func, mWinType = wt, mWinSize = WinTime d,
      mWindowOpFunc = opf, mEvictInterval = ei, mTupleBuf = [], mCurrSize = 0,
      mEvictThread = False\<rparr>"

definition Window_rows ::
  "WinType \<Rightarrow> uint \<Rightarrow> ('a list \<Rightarrow> 'a \<Rightarrow> 'a) option \<Rightarrow> uint \<Rightarrow> 'a Window res" where
  "Window_rows wt sz opf ei =
     (if wt = RowWindow
      then Inr \<lparr>mTimestampExtractor = None, mWinType = wt, mWinSize = WinRows sz,
                mWindowOpFunc = opf, mEvictInterval = ei, mTupleBuf = [], mCurrSize = 0,
                mEvictThread = False\<rparr>
      else Inl AssertFailed)"

section \<open>Sliding window\<close>

text \<open>
  \<open>setupEviction\<close>: without an interval the incoming tuple evicts; with one the eviction
  thread is started (and always runs the time-based strategy).
\<close>

definition sw_setupEviction :: "uint \<Rightarrow> 'a Window \<Rightarrow> 'a Window" where
  "sw_setupEviction ei w = (if ei = 0 then w else w\<lparr>mEvictThread := True\<rparr>)"

definition SlidingWindow_seconds where
  "SlidingWindow_seconds func wt sz opf ei = sw_setupEviction ei (Window_seconds func wt sz opf ei)"

definition SlidingWindow_duration where
  "SlidingWindow_duration func wt d opf ei = sw_setupEviction ei (Window_duration func wt d opf ei)"

definition SlidingWindow_rows where
  "SlidingWindow_rows wt sz opf ei = map_sum id (sw_setupEviction ei) (Window_rows wt sz opf ei)"

text \<open>The loop of \<open>evictByCount\<close>: while there are too many tuples, drop the front one.\<close>

fun evict_count_loop :: "uint \<Rightarrow> 'a list \<Rightarrow> uint \<Rightarrow> ('a list \<times> uint \<times> 'a event list) res" where
  "evict_count_loop lim [] cur = (if cur > lim then Inl EmptyAccess else Inr ([], cur, []))"
| "evict_count_loop lim (tup # rest) cur =
     (if cur > lim
      then (case evict_count_loop lim rest (cur - 1) of
              Inl e \<Rightarrow> Inl e
            | Inr (buf, c, os) \<Rightarrow> Inr (buf, c, Data tup True # os))
      else Inr (tup # rest, cur, []))"

definition sw_evictByCount :: "'a Window \<Rightarrow> ('a Window \<times> 'a event list) res" where
  "sw_evictByCount w =
     (case mWinSize w of
        WinTime _ \<Rightarrow> Inl BadGet
      | WinRows lim \<Rightarrow>
          (case evict_count_loop lim (mTupleBuf w) (mCurrSize w) of
             Inl e \<Rightarrow> Inl e
           | Inr (buf, c, os) \<Rightarrow> Inr (w\<lparr>mTupleBuf := buf, mCurrSize := c\<rparr>, os)))"

text \<open>The loop of \<open>evictByTime\<close>: stop at the first tuple inside the valid time window.\<close>

fun evict_time_loop :: "('a \<Rightarrow> Timestamp) \<Rightarrow> Timestamp \<Rightarrow> 'a list \<Rightarrow> uint \<Rightarrow> 'a list \<times> uint \<times> 'a event list" where
  "evict_time_loop ts acc [] cur = ([], cur, [])"
| "evict_time_loop ts acc (tup # rest) cur =
     (if ts tup \<le> acc
      then (case evict_time_loop ts acc rest (cur - 1) of (buf, c, os) \<Rightarrow> (buf, c, Data tup True # os))
      else (tup # rest, cur, []))"

definition sw_evictByTime :: "'a Window \<Rightarrow> ('a Window \<times> 'a event list) res" where
  "sw_evictByTime w =
     (if mTupleBuf w = [] then Inl EmptyAccess
      else (case mTimestampExtractor w of
              None \<Rightarrow> Inl BadFunctionCall
            | Some ts \<Rightarrow>
                (let lastTupleTime = ts (last (mTupleBuf w))
                 in (case mWinSize w of
                       WinRows _ \<Rightarrow> Inl BadGet
                     | WinTime sz \<Rightarrow>
                         (if lastTupleTime \<ge> sz
                          then (case evict_time_loop ts (lastTupleTime - sz) (mTupleBuf w) (mCurrSize w) of
                                  (buf, c, os) \<Rightarrow> Inr (w\<lparr>mTupleBuf := buf, mCurrSize := c\<rparr>, os))
                          else Inr (w, []))))))"

text \<open>\<open>mEvictFun\<close> as bound by \<open>setupEviction\<close> when there is no eviction thread.\<close>

definition sw_evictFun :: "'a Window \<Rightarrow> ('a Window \<times> 'a event list) res" where
  "sw_evictFun w = (if mWinType w = RangeWindow then sw_evictByTime w else sw_evictByCount w)"

definition win_push :: "'a \<Rightarrow> 'a Window \<Rightarrow> 'a Window" where
  "win_push x w = w\<lparr>mTupleBuf := mTupleBuf w @ [x], mCurrSize := mCurrSize w + 1\<rparr>"

definition win_apply :: "'a Window \<Rightarrow> 'a \<Rightarrow> 'a" where
  "win_apply w x = (case mWindowOpFunc w of None \<Rightarrow> x | Some f \<Rightarrow> f (mTupleBuf w) x)"

definition sw_processDataElement :: "'a Window \<Rightarrow> 'a \<Rightarrow> bool \<Rightarrow> ('a Window \<times> 'a event list) res" where
  "sw_processDataElement w x outdated =
     (if outdated then Inr (w, [Data x outdated])
      else (let w1 = win_push x w
            in (case (if mEvictThread w1 then Inr (w1, []) else sw_evictFun w1) of
                  Inl e \<Rightarrow> Inl e
                | Inr (w2, os) \<Rightarrow> Inr (w2, os @ [Data (win_apply w2 x) outdated]))))"

fun sw_step :: "('a Window, 'a, 'a) opstep" where
  "sw_step w (Data x outdated) = sw_processDataElement w x outdated"
| "sw_step w (Punct p) = Inr (w, [])"

text \<open>One round of \<open>EvictionNotifier::operator()\<close> after its sleep: the eviction callback.\<close>

definition sw_tick :: "'a Window \<Rightarrow> ('a Window \<times> 'a event list) res" where
  "sw_tick w = sw_evictByTime w"

text \<open>
  The loop of \<open>EvictionNotifier::operator()\<close>: it runs the callback until the interrupt flag
  is seen set; \<open>flags\<close> are the values read at the loop head, the first one before the first
  sleep.
\<close>

fun evictionNotifier_loop :: "bool list \<Rightarrow> 'a Window \<Rightarrow> ('a Window \<times> 'a event list) res" where
  "evictionNotifier_loop [] w = Inr (w, [])"
| "evictionNotifier_loop (interrupted # flags) w =
     (if interrupted then Inr (w, [])
      else (case sw_tick w of
              Inl e \<Rightarrow> Inl e
            | Inr (w1, o1) \<Rightarrow>
                (case evictionNotifier_loop flags w1 of
                   Inl e \<Rightarrow> Inl e
                 | Inr (w2, o2) \<Rightarrow> Inr (w2, o1 @ o2))))"

section \<open>Tumbling window\<close>

definition tw_evictByCount :: "'a Window \<Rightarrow> ('a Window \<times> 'a event list) res" where
  "tw_evictByCount w =
     (case mWinSize w of
        WinTime _ \<Rightarrow> Inl BadGet
      | WinRows sz \<Rightarrow>
          (if mCurrSize w = sz
           then Inr (w\<lparr>mCurrSize := 0, mTupleBuf := []\<rparr>,
                     old_tuples (mTupleBuf w) @ [Punct (mkPunctuation WindowExpired)])
           else Inr (w, [])))"

definition tw_evictByTime :: "'a Window \<Rightarrow> ('a Window \<times> 'a event list) res" where
  "tw_evictByTime w =
     (if mTupleBuf w = [] then Inl EmptyAccess
      else (case mTimestampExtractor w of
              None \<Rightarrow> Inl BadFunctionCall
            | Some ts \<Rightarrow>
                (let lastTupleTime = ts (last (mTupleBuf w))
                 in (case mWinSize w of
                       WinRows _ \<Rightarrow> Inl BadGet
                     | WinTime sz \<Rightarrow>
                         (if lastTupleTime \<ge> sz \<and> ts (hd (mTupleBuf w)) \<le> lastTupleTime - sz
                          then Inr (w\<lparr>mCurrSize := 1, mTupleBuf := [last (mTupleBuf w)]\<rparr>,
                                    old_tuples (butlast (mTupleBuf w))
                                      @ [Punct (mkPunctuation WindowExpired)])
                          else Inr (w, []))))))"

text \<open>\<open>TumblingWindow::setupEviction\<close>: everything but a row window evicts by time.\<close>

definition tw_evictFun :: "'a Window \<Rightarrow> ('a Window \<times> 'a event list) res" where
  "tw_evictFun w = (if mWinType w = RowWindow then tw_evictByCount w else tw_evictByTime w)"

text \<open>
  With a window function the tuple is published before the eviction, without one after it.
\<close>

definition tw_processDataElement :: "'a Window \<Rightarrow> 'a \<Rightarrow> bool \<Rightarrow> ('a Window \<times> 'a event list) res" where
  "tw_processDataElement w x outdated =
     (if outdated then Inr (w, [Data x outdated])
      else (let w1 = win_push x w;
                ev = (if mEvictThread w1 then Inr (w1, []) else tw_evictFun w1)
            in (case mWindowOpFunc w1 of
                  Some f \<Rightarrow>
                    (case ev of Inl e \<Rightarrow> Inl e
                     | Inr (w2, os) \<Rightarrow> Inr (w2, Data (f (mTupleBuf w1) x) outdated # os))
                | None \<Rightarrow>
                    (case ev of Inl e \<Rightarrow> Inl e
                     | Inr (w2, os) \<Rightarrow> Inr (w2, os @ [Data x outdated])))))"

fun tw_step :: "('a Window, 'a, 'a) opstep" where
  "tw_step w (Data x outdated) = tw_processDataElement w x outdated"
| "tw_step w (Punct p) = Inr (w, [])"

definition TumblingWindow_rows where
  "TumblingWindow_rows wt sz opf = Window_rows wt sz opf 0"

definition TumblingWindow_seconds where
  "TumblingWindow_seconds func wt sz opf = Window_seconds func wt sz opf 0"

definition TumblingWindow_duration where
  "TumblingWindow_duration func wt d opf = Window_duration func wt d opf 0"

lemmas window_handlers [op_defs] =
  sw_evictFun_def sw_processDataElement_def tw_evictFun_def tw_processDataElement_def
  win_push_def win_apply_def sw_evictByCount_def sw_evictByTime_def
  tw_evictByCount_def tw_evictByTime_def

section \<open>Well-formed windows\<close>

text \<open>
  The counter follows the buffer, the size has the type that the eviction strategy reads,
  and a range window has an extractor. The counter is compared as a word, so the invariant
  needs no bound on the number of tuples.
\<close>

definition win_inv :: "'a Window \<Rightarrow> bool" where
  "win_inv w \<longleftrightarrow>
     mCurrSize w = of_nat (length (mTupleBuf w)) \<and>
     (case mWinSize w of
        WinRows _ \<Rightarrow> mWinType w = RowWindow \<and> \<not> mEvictThread w
      | WinTime sz \<Rightarrow> mWinType w = RangeWindow \<and> 0 \<le> sz \<and> mTimestampExtractor w \<noteq> None)"

section \<open>Eviction loops\<close>

lemma evict_count_loop_word:
  assumes "cur = of_nat (length buf)" and "length buf < 2 ^ 32"
  shows "evict_count_loop lim buf cur =
     Inr (last_n (unat lim) buf, of_nat (min (unat lim) (length buf)),
          old_tuples (take (length buf - unat lim) buf))"
  using assms
proof (induction buf arbitrary: cur)
  case Nil
  then show ?case by (simp add: last_n_def)
next
  case (Cons x rest)
  have ucur: "unat cur = Suc (length rest)"
    using Cons.prems by (simp add: unat_of_nat del: of_nat_Suc)
  have gt: "cur > lim \<longleftrightarrow> unat lim < Suc (length rest)"
    by (simp add: word_less_nat_alt ucur)
  show ?case
  proof (cases "cur > lim")
    case True
    have "cur - 1 = of_nat (length rest)"
      using Cons.prems(1) by simp
    then have "evict_count_loop lim rest (cur - 1) =
       Inr (last_n (unat lim) rest, of_nat (min (unat lim) (length rest)),
            old_tuples (take (length rest - unat lim) rest))"
      using Cons.IH Cons.prems(2) by simp
    with True gt show ?thesis
      by (auto simp: last_n_def Suc_diff_le min_def)
  next
    case False
    with gt Cons.prems(1) show ?thesis
      by (simp add: last_n_def min_def)
  qed
qed

lemma evict_time_loop_eq:
  "evict_time_loop ts acc buf cur =
     (dropWhile (\<lambda>x. ts x \<le> acc) buf, cur - of_nat (length (takeWhile (\<lambda>x. ts x \<le> acc) buf)),
      old_tuples (takeWhile (\<lambda>x. ts x \<le> acc) buf))"
  by (induction buf arbitrary: cur) (auto simp: algebra_simps)

lemma dropWhile_counter:
  "of_nat (length buf) - of_nat (length (takeWhile P buf)) = (of_nat (length (dropWhile P buf)) :: uint)"
proof -
  have "length buf = length (takeWhile P buf) + length (dropWhile P buf)"
    by (metis length_append takeWhile_dropWhile_id)
  then show ?thesis by simp
qed

lemma evict_count_loop_counter:
  "evict_count_loop lim buf (of_nat (length buf)) = Inr (b, c, os) \<Longrightarrow>
     c = of_nat (length b) \<and> mset b + mset (olds os) = mset buf \<and> news os = []"
proof (induction buf arbitrary: b c os)
  case Nil
  then show ?case by (auto split: if_splits)
next
  case (Cons x rest)
  then show ?case by (auto split: if_splits sum.splits)
qed

lemma evict_count_loop_total: "\<exists>r. evict_count_loop lim buf (of_nat (length buf)) = Inr r"
  by (induction buf) (auto split: sum.splits)

section \<open>Both windows are conserving operators\<close>

lemma mset_dropWhile_takeWhile: "mset (dropWhile P xs) + mset (takeWhile P xs) = mset xs"
  by (metis add.commute mset_append takeWhile_dropWhile_id)

lemma win_push_inv:
  assumes "win_inv w"
  shows "win_inv (win_push x w)" and "mset (mTupleBuf (win_push x w)) = mset (mTupleBuf w) + {#x#}"
    and "mTupleBuf (win_push x w) \<noteq> []" and "mEvictThread (win_push x w) = mEvictThread w"
  using assms by (auto simp: win_inv_def win_push_def split: WinSizeType.splits)

lemma sw_evictFun_conserves:
  assumes inv: "win_inv w" and ne: "mTupleBuf w \<noteq> []"
  shows "\<exists>w' os. sw_evictFun w = Inr (w', os) \<and> win_inv w' \<and> news os = [] \<and>
           mset (mTupleBuf w') + mset (olds os) = mset (mTupleBuf w)"
proof (cases "mWinSize w")
  case (WinTime sz)
  with inv ne show ?thesis
    by (auto simp: sw_evictFun_def sw_evictByTime_def win_inv_def Let_def evict_time_loop_eq
        dropWhile_counter mset_dropWhile_takeWhile)
next
  case (WinRows lim)
  obtain b c os where ev: "evict_count_loop lim (mTupleBuf w) (of_nat (length (mTupleBuf w))) = Inr (b, c, os)"
    using evict_count_loop_total [of lim "mTupleBuf w"] by auto
  from evict_count_loop_counter [OF ev] ev WinRows inv show ?thesis
    by (auto simp: sw_evictFun_def sw_evictByCount_def win_inv_def)
qed

lemma tw_evictFun_conserves:
  assumes inv: "win_inv w" and ne: "mTupleBuf w \<noteq> []"
  shows "\<exists>w' os. tw_evictFun w = Inr (w', os) \<and> win_inv w' \<and> news os = [] \<and>
           mset (mTupleBuf w') + mset (olds os) = mset (mTupleBuf w)"
proof -
  have "mset (mTupleBuf w) = {#last (mTupleBuf w)#} + mset (butlast (mTupleBuf w))"
    using ne by (metis append_butlast_last_id mset.simps mset_append union_commute)
  with inv ne show ?thesis
    by (cases "mWinSize w")
      (auto simp: tw_evictFun_def tw_evictByCount_def tw_evictByTime_def win_inv_def Let_def)
qed

lemma sw_step_conserves:
  assumes inv: "win_inv w"
  shows "\<exists>w' os. sw_step w (Data x False) = Inr (w', os) \<and> win_inv w' \<and>
           mset (mTupleBuf w') + mset (olds os) = mset (mTupleBuf w) + {#x#}"
proof -
  note p = win_push_inv [OF inv]
  obtain w' os where "sw_evictFun (win_push x w) = Inr (w', os)" and "win_inv w'"
    and "mset (mTupleBuf w') + mset (olds os) = mset (mTupleBuf w) + {#x#}"
    using sw_evictFun_conserves [OF p(1) p(3)] unfolding p(2) by blast
  with p show ?thesis
    by (cases "mEvictThread w") (simp_all add: sw_processDataElement_def Let_def)
qed

lemma tw_step_conserves:
  assumes inv: "win_inv w"
  shows "\<exists>w' os. tw_step w (Data x False) = Inr (w', os) \<and> win_inv w' \<and>
           mset (mTupleBuf w') + mset (olds os) = mset (mTupleBuf w) + {#x#}"
proof -
  note p = win_push_inv [OF inv]
  obtain w' os where "tw_evictFun (win_push x w) = Inr (w', os)" and "win_inv w'"
    and "mset (mTupleBuf w') + mset (olds os) = mset (mTupleBuf w) + {#x#}"
    using tw_evictFun_conserves [OF p(1) p(3)] unfolding p(2) by blast
  with p show ?thesis
    by (cases "mEvictThread w"; cases "mWindowOpFunc (win_push x w)")
      (simp_all add: tw_processDataElement_def Let_def)
qed

lemma sw_step_keeps:
  "win_inv w \<Longrightarrow> sw_step w (Data x False) = Inr (w', os) \<Longrightarrow>
     win_inv w' \<and> mset (mTupleBuf w') + mset (olds os) = mset (mTupleBuf w) + {#x#}"
  using sw_step_conserves [of w x] by auto

lemma tw_step_keeps:
  "win_inv w \<Longrightarrow> tw_step w (Data x False) = Inr (w', os) \<Longrightarrow>
     win_inv w' \<and> mset (mTupleBuf w') + mset (olds os) = mset (mTupleBuf w) + {#x#}"
  using tw_step_conserves [of w x] by auto

interpretation slide: conserving_operator sw_step win_inv "\<lambda>w. mset (mTupleBuf w)"
proof unfold_locales
  show "\<exists>s' os. sw_step s e = Inr (s', os)" if "win_inv s" "\<exists>x. e = Data x False" for s e
    using that sw_step_conserves by metis
  show "win_inv s'" if "win_inv s" "\<exists>x. e = Data x False" "sw_step s e = Inr (s', os)" for s e s' os
    using that sw_step_keeps by metis
  show "mset (mTupleBuf s') + mset (olds os) = mset (mTupleBuf s) + {#x#}"
    if "win_inv s" "sw_step s (Data x False) = Inr (s', os)" for s x s' os
    by (rule conjunct2 [OF sw_step_keeps [OF that]])
qed

interpretation tumble: conserving_operator tw_step win_inv "\<lambda>w. mset (mTupleBuf w)"
proof unfold_locales
  show "\<exists>s' os. tw_step s e = Inr (s', os)" if "win_inv s" "\<exists>x. e = Data x False" for s e
    using that tw_step_conserves by metis
  show "win_inv s'" if "win_inv s" "\<exists>x. e = Data x False" "tw_step s e = Inr (s', os)" for s e s' os
    using that tw_step_keeps by metis
  show "mset (mTupleBuf s') + mset (olds os) = mset (mTupleBuf s) + {#x#}"
    if "win_inv s" "tw_step s (Data x False) = Inr (s', os)" for s x s' os
    by (rule conjunct2 [OF tw_step_keeps [OF that]])
qed

section \<open>Functional behaviour\<close>

text \<open>The publications of a row-based sliding window, tuple by tuple.\<close>

definition slide_rows_out :: "nat \<Rightarrow> 'a list \<Rightarrow> 'a event list" where
  "slide_rows_out n xs =
     concat (map (\<lambda>i. (if n \<le> i then [Data (xs ! (i - n)) True] else []) @ [Data (xs ! i) False])
              [0..<length xs])"

lemma slide_rows_out_snoc:
  "slide_rows_out n (xs @ [x]) =
     slide_rows_out n xs @ (if n \<le> length xs then [Data ((xs @ [x]) ! (length xs - n)) True] else [])
       @ [Data x False]"
proof -
  have "concat (map (\<lambda>i. (if n \<le> i then [Data ((xs @ [x]) ! (i - n)) True] else []) @ [Data ((xs @ [x]) ! i) False]) [0..<length xs])
      = concat (map (\<lambda>i. (if n \<le> i then [Data (xs ! (i - n)) True] else []) @ [Data (xs ! i) False]) [0..<length xs])"
    by (rule arg_cong [where f = concat], rule map_cong) (auto simp: nth_append)
  then show ?thesis by (simp add: slide_rows_out_def)
qed

lemma last_n_last_n_snoc: "last_n n (last_n n xs @ [x]) = last_n n (xs @ [x])"
  by (cases "length xs < n") (auto simp: last_n_def Suc_diff_le)

lemma take_last_n_snoc:
  "take (length (last_n n xs @ [x]) - n) (last_n n xs @ [x]) =
     (if n \<le> length xs then [(xs @ [x]) ! (length xs - n)] else [])"
proof (cases "n \<le> length xs")
  case True
  then have "length (last_n n xs @ [x]) - n = 1"
    by (simp add: last_n_length)
  moreover have "take 1 (last_n n xs @ [x]) = [(xs @ [x]) ! (length xs - n)]"
  proof (cases "n = 0")
    case False
    with True have "length xs - n < length xs" by simp
    with True False show ?thesis by (simp add: last_n_snoc_full nth_append)
  qed simp
  ultimately show ?thesis using True by simp
qed (simp add: last_n_length)

lemma sw_row_step:
  assumes w: "mWinType w = RowWindow" "mWinSize w = WinRows sz" "mWindowOpFunc w = None"
      "\<not> mEvictThread w" "mCurrSize w = of_nat (length (mTupleBuf w))"
      "length (mTupleBuf w) + 1 < 2 ^ 32"
  shows "sw_step w (Data x False) =
     Inr (w\<lparr>mTupleBuf := last_n (unat sz) (mTupleBuf w @ [x]),
            mCurrSize := of_nat (min (unat sz) (length (mTupleBuf w) + 1))\<rparr>,
          old_tuples (take (length (mTupleBuf w @ [x]) - unat sz) (mTupleBuf w @ [x])) @ [Data x False])"
proof -
  have "evict_count_loop sz (mTupleBuf w @ [x]) (mCurrSize w + 1) =
      Inr (last_n (unat sz) (mTupleBuf w @ [x]), of_nat (min (unat sz) (length (mTupleBuf w) + 1)),
           old_tuples (take (length (mTupleBuf w @ [x]) - unat sz) (mTupleBuf w @ [x])))"
    using evict_count_loop_word [of "mCurrSize w + 1" "mTupleBuf w @ [x]" sz] w by simp
  with w show ?thesis
    by (simp add: op_defs Let_def)
qed

lemma unat_lt_max: "unat sz + 1 < 2 ^ 32" if "sz \<noteq> - 1" for sz :: uint
proof -
  have "unat sz \<noteq> unat (- 1 :: uint)" using that by (metis word_unat_eq_iff)
  then show ?thesis using unsigned_less [where w = sz and ?'a = nat] by (simp add: unsigned_minus_1_eq_mask mask_eq_exp_minus_1)
qed

lemma sliding_row_run:
  assumes w: "mWinType w = RowWindow" "mWinSize w = WinRows sz" "mWindowOpFunc w = None"
      "\<not> mEvictThread w" "mTupleBuf w = []" "mCurrSize w = 0" and sz: "sz \<noteq> - 1"
  shows "run sw_step w (new_tuples xs) =
     Inr (w\<lparr>mTupleBuf := last_n (unat sz) xs, mCurrSize := of_nat (min (unat sz) (length xs))\<rparr>,
          slide_rows_out (unat sz) xs)"
proof (induction xs rule: rev_induct)
  case Nil
  have "w = w\<lparr>mTupleBuf := [], mCurrSize := 0\<rparr>" using w by simp
  then show ?case by (simp add: slide_rows_out_def last_n_def)
next
  case (snoc x xs)
  let ?w = "w\<lparr>mTupleBuf := last_n (unat sz) xs, mCurrSize := of_nat (min (unat sz) (length xs))\<rparr>"
  have len: "length (last_n (unat sz) xs) + 1 < 2 ^ 32"
    using unat_lt_max [OF sz] by (simp add: last_n_length)
  have "sw_step ?w (Data x False) =
     Inr (w\<lparr>mTupleBuf := last_n (unat sz) (xs @ [x]),
            mCurrSize := of_nat (min (unat sz) (length (xs @ [x])))\<rparr>,
          old_tuples (if unat sz \<le> length xs then [(xs @ [x]) ! (length xs - unat sz)] else []) @ [Data x False])"
  proof -
    have m: "min (unat sz) (length (last_n (unat sz) xs) + 1) = min (unat sz) (length (xs @ [x]))"
      by (simp add: last_n_length)
    have "sw_step ?w (Data x False) =
       Inr (?w\<lparr>mTupleBuf := last_n (unat sz) (last_n (unat sz) xs @ [x]),
              mCurrSize := of_nat (min (unat sz) (length (last_n (unat sz) xs) + 1))\<rparr>,
            old_tuples (take (length (last_n (unat sz) xs @ [x]) - unat sz) (last_n (unat sz) xs @ [x]))
              @ [Data x False])"
      using sw_row_step [of ?w sz x] w len by (simp add: last_n_length)
    then show ?thesis
      unfolding take_last_n_snoc last_n_last_n_snoc m by simp
  qed
  with snoc.IH show ?case
    by (auto simp: run_append slide_rows_out_snoc)
qed

text \<open>Range windows: on sorted timestamps the eviction loop is a filter.\<close>

lemma dropWhile_sorted_filter:
  "sorted (map ts xs) \<Longrightarrow> dropWhile (\<lambda>y. ts y \<le> (a::int)) xs = filter (\<lambda>y. a < ts y) xs"
proof (induction xs)
  case (Cons y ys)
  then have "a < ts z" if "a < ts y" "z \<in> set ys" for z
    using that by fastforce
  with Cons show ?case by (auto intro!: filter_True [symmetric])
qed simp

lemma sw_range_step:
  assumes w: "mWinType w = RangeWindow" "mWinSize w = WinTime sz" "mWindowOpFunc w = None"
      "mTimestampExtractor w = Some ts" "\<not> mEvictThread w"
      "mCurrSize w = of_nat (length (mTupleBuf w))"
  shows "sw_step w (Data x False) =
     (let evict = (\<lambda>y. sz \<le> ts x \<and> ts y \<le> ts x - sz); buf = mTupleBuf w @ [x]
      in Inr (w\<lparr>mTupleBuf := dropWhile evict buf, mCurrSize := of_nat (length (dropWhile evict buf))\<rparr>,
              old_tuples (takeWhile evict buf) @ [Data x False]))"
proof (cases "sz \<le> ts x")
  case True
  have "of_nat (length (mTupleBuf w)) + 1 - of_nat (length (takeWhile P (mTupleBuf w @ [x])))
      = (of_nat (length (dropWhile P (mTupleBuf w @ [x]))) :: uint)" for P
    using dropWhile_counter [of "mTupleBuf w @ [x]" P] by (simp add: add.commute)
  with w True show ?thesis
    by (simp add: op_defs Let_def evict_time_loop_eq)
next
  case False
  then have "takeWhile (\<lambda>y. sz \<le> ts x \<and> ts y \<le> ts x - sz) l = []" for l
    by (cases l) auto
  with w False show ?thesis by (simp add: op_defs Let_def add.commute)
qed

text \<open>Timestamps that do not decrease: the evicted prefix is what is too old for the new tuple.\<close>

lemma range_evict_filter:
  fixes ts :: "'a \<Rightarrow> int"
  assumes srt: "sorted (map ts (xs @ [x]))" and nn: "\<And>y. y \<in> set (xs @ [x]) \<Longrightarrow> 0 \<le> ts y"
  shows "dropWhile (\<lambda>y. sz \<le> ts x \<and> ts y \<le> ts x - sz) (filter (\<lambda>y. ts (last xs) - sz < ts y) xs @ [x]) =
    filter (\<lambda>y. ts x - sz < ts y) (xs @ [x])" (is "dropWhile ?ev (?old @ _) = _")
proof -
  from srt have le: "\<And>y. y \<in> set xs \<Longrightarrow> ts y \<le> ts x" and sb: "sorted (map ts (?old @ [x]))"
    by (auto simp: sorted_append intro!: sorted_filter)
  have "dropWhile ?ev (?old @ [x]) = filter (\<lambda>y. ts x - sz < ts y) (?old @ [x])"
  proof (cases "sz \<le> ts x")
    case False
    then have "ts x - sz < ts y" if "y \<in> set (?old @ [x])" for y using that nn by force
    then have "filter (\<lambda>y. ts x - sz < ts y) (?old @ [x]) = ?old @ [x]" by (intro filter_True) blast
    with False show ?thesis by (simp del: filter_append filter_filter)
  next
    case True
    with dropWhile_sorted_filter [OF sb] show ?thesis by (simp del: filter_append)
  qed
  moreover have "ts (last xs) - sz < ts y" if "y \<in> set xs" "ts x - sz < ts y" for y
    using that le [of "last xs"] by (cases xs) (auto split: if_splits)
  then have "filter (\<lambda>y. ts x - sz < ts y) (?old @ [x]) = filter (\<lambda>y. ts x - sz < ts y) (xs @ [x])"
    by (auto intro: filter_cong)
  ultimately show ?thesis by simp
qed

lemma sliding_range_run:
  assumes w: "mWinType w = RangeWindow" "mWinSize w = WinTime sz" "mWindowOpFunc w = None"
      "mTimestampExtractor w = Some ts" "\<not> mEvictThread w" "mTupleBuf w = []" "mCurrSize w = 0"
    and nonneg: "\<And>y. y \<in> set xs \<Longrightarrow> 0 \<le> ts y" and srt: "sorted (map ts xs)"
  shows "\<exists>w' os. run sw_step w (new_tuples xs) = Inr (w', os) \<and>
     w' = w\<lparr>mTupleBuf := mTupleBuf w', mCurrSize := of_nat (length (mTupleBuf w'))\<rparr> \<and>
     mTupleBuf w' = filter (\<lambda>y. ts (last xs) - sz < ts y) xs \<and>
     olds os @ mTupleBuf w' = xs \<and> news os = xs \<and> puncts os = []"
  using nonneg srt
proof (induction xs rule: rev_induct)
  case Nil
  with w show ?case by simp
next
  case (snoc x xs)
  from snoc.prems have srt: "sorted (map ts xs)" and le: "\<And>y. y \<in> set xs \<Longrightarrow> ts y \<le> ts x"
    and nn: "0 \<le> ts x" "\<And>y. y \<in> set xs \<Longrightarrow> 0 \<le> ts y"
    by (auto simp: sorted_append)
  obtain w1 o1 where r: "run sw_step w (new_tuples xs) = Inr (w1, o1)"
    and w1: "w1 = w\<lparr>mTupleBuf := mTupleBuf w1, mCurrSize := of_nat (length (mTupleBuf w1))\<rparr>"
    and buf: "mTupleBuf w1 = filter (\<lambda>y. ts (last xs) - sz < ts y) xs"
    and o1: "olds o1 @ mTupleBuf w1 = xs" "news o1 = xs" "puncts o1 = []"
    using snoc.IH srt nn(2) by blast
  let ?ev = "\<lambda>y. sz \<le> ts x \<and> ts y \<le> ts x - sz" and ?buf = "mTupleBuf w1 @ [x]"
  have fields: "mWinType w1 = RangeWindow" "mWinSize w1 = WinTime sz" "mWindowOpFunc w1 = None"
      "mTimestampExtractor w1 = Some ts" "\<not> mEvictThread w1"
      "mCurrSize w1 = of_nat (length (mTupleBuf w1))"
    using w by (subst w1, simp)+
  have st: "sw_step w1 (Data x False) =
     Inr (w1\<lparr>mTupleBuf := dropWhile ?ev ?buf, mCurrSize := of_nat (length (dropWhile ?ev ?buf))\<rparr>,
          old_tuples (takeWhile ?ev ?buf) @ [Data x False])"
    using sw_range_step [OF fields] by (simp add: Let_def)
  have b: "dropWhile ?ev ?buf = filter (\<lambda>y. ts x - sz < ts y) (xs @ [x])"
    unfolding buf using snoc.prems by (rule range_evict_filter [rotated])
  have "olds o1 @ takeWhile ?ev ?buf @ dropWhile ?ev ?buf = xs @ [x]"
    using o1(1) by (simp add: takeWhile_dropWhile_id flip: append_assoc)
  moreover have "run sw_step w (new_tuples (xs @ [x])) =
     Inr (w1\<lparr>mTupleBuf := dropWhile ?ev ?buf, mCurrSize := of_nat (length (dropWhile ?ev ?buf))\<rparr>,
          o1 @ old_tuples (takeWhile ?ev ?buf) @ [Data x False])"
    using run_snoc [OF r st] by simp
  moreover have "w1\<lparr>mTupleBuf := dropWhile ?ev ?buf, mCurrSize := of_nat (length (dropWhile ?ev ?buf))\<rparr> =
     w\<lparr>mTupleBuf := dropWhile ?ev ?buf, mCurrSize := of_nat (length (dropWhile ?ev ?buf))\<rparr>"
    by (subst w1) simp
  ultimately show ?case
    using b o1 by (intro exI conjI) (assumption, simp_all)
qed

text \<open>Row-based tumbling windows.\<close>

lemma tw_row_step:
  assumes w: "mWinType w = RowWindow" "mWinSize w = WinRows sz" "mWindowOpFunc w = None"
      "\<not> mEvictThread w" "mCurrSize w = of_nat (length (mTupleBuf w))"
    and len: "length (mTupleBuf w) < unat sz"
  shows "tw_step w (Data x False) =
     (if length (mTupleBuf w) + 1 = unat sz
      then Inr (w\<lparr>mTupleBuf := [], mCurrSize := 0\<rparr>,
                old_tuples (mTupleBuf w @ [x]) @ [Punct (mkPunctuation WindowExpired), Data x False])
      else Inr (w\<lparr>mTupleBuf := mTupleBuf w @ [x], mCurrSize := of_nat (length (mTupleBuf w) + 1)\<rparr>,
                [Data x False]))"
proof -
  have "length (mTupleBuf w) + 1 < 2 ^ 32"
    using len unsigned_less [where w = sz and ?'a = nat] by simp
  then have "of_nat (length (mTupleBuf w) + 1) = sz \<longleftrightarrow> length (mTupleBuf w) + 1 = unat sz"
    by (auto simp: word_unat_eq_iff unat_of_nat simp del: of_nat_Suc)
  with w show ?thesis
    by (auto simp: op_defs Let_def add.commute)
qed

lemma tumbling_row_run:
  assumes w: "mWinType w = RowWindow" "mWinSize w = WinRows sz" "mWindowOpFunc w = None"
      "\<not> mEvictThread w" "mTupleBuf w = []" "mCurrSize w = 0" and sz: "sz \<noteq> 0"
  shows "\<exists>w' os. run tw_step w (new_tuples xs) = Inr (w', os) \<and>
     w' = w\<lparr>mTupleBuf := mTupleBuf w', mCurrSize := of_nat (length (mTupleBuf w'))\<rparr> \<and>
     length (mTupleBuf w') = length xs mod unat sz \<and>
     olds os @ mTupleBuf w' = xs \<and> news os = xs \<and>
     puncts os = replicate (length xs div unat sz) (mkPunctuation WindowExpired)"
proof (induction xs rule: rev_induct)
  case Nil
  with w show ?case by simp
next
  case (snoc x xs)
  obtain w1 o1 where r: "run tw_step w (new_tuples xs) = Inr (w1, o1)"
    and w1: "w1 = w\<lparr>mTupleBuf := mTupleBuf w1, mCurrSize := of_nat (length (mTupleBuf w1))\<rparr>"
    and len: "length (mTupleBuf w1) = length xs mod unat sz"
    and o1: "olds o1 @ mTupleBuf w1 = xs" "news o1 = xs"
      "puncts o1 = replicate (length xs div unat sz) (mkPunctuation WindowExpired)"
    using snoc.IH by blast
  have fields: "mWinType w1 = RowWindow" "mWinSize w1 = WinRows sz" "mWindowOpFunc w1 = None"
      "\<not> mEvictThread w1" "mCurrSize w1 = of_nat (length (mTupleBuf w1))"
    using w by (subst w1, simp)+
  have pos: "0 < unat sz" using sz by (simp add: unat_gt_0)
  with len have lt: "length (mTupleBuf w1) < unat sz" by simp
  note st = tw_row_step [OF fields lt, of x]
  show ?case
  proof (cases "length (mTupleBuf w1) + 1 = unat sz")
    case True
    with len pos have "Suc (length xs) mod unat sz = 0"
      and "Suc (length xs) div unat sz = Suc (length xs div unat sz)"
      by (auto simp: mod_Suc div_Suc)
    moreover have "run tw_step w (new_tuples (xs @ [x])) = Inr (w1\<lparr>mTupleBuf := [], mCurrSize := 0\<rparr>,
        o1 @ old_tuples (mTupleBuf w1 @ [x]) @ [Punct (mkPunctuation WindowExpired), Data x False])"
      using run_snoc [OF r] st True by simp
    moreover have "w1\<lparr>mTupleBuf := [], mCurrSize := 0\<rparr> = w\<lparr>mTupleBuf := [], mCurrSize := 0\<rparr>"
      by (subst w1) simp
    ultimately show ?thesis
      using o1 by (intro exI conjI) (assumption, simp_all flip: replicate_append_same append_assoc)
  next
    case False
    with len pos have "Suc (length xs) mod unat sz = Suc (length (mTupleBuf w1))"
      and "Suc (length xs) div unat sz = length xs div unat sz"
      by (auto simp: mod_Suc div_Suc)
    moreover have "run tw_step w (new_tuples (xs @ [x])) =
       Inr (w1\<lparr>mTupleBuf := mTupleBuf w1 @ [x], mCurrSize := of_nat (length (mTupleBuf w1) + 1)\<rparr>,
            o1 @ [Data x False])"
      using run_snoc [OF r] st False by simp
    moreover have "w1\<lparr>mTupleBuf := mTupleBuf w1 @ [x], mCurrSize := of_nat (length (mTupleBuf w1) + 1)\<rparr> =
       w\<lparr>mTupleBuf := mTupleBuf w1 @ [x], mCurrSize := of_nat (length (mTupleBuf w1) + 1)\<rparr>"
      by (subst w1) simp
    ultimately show ?thesis
      using o1 by (intro exI conjI) (assumption, simp_all flip: append_assoc)
  qed
qed

section \<open>Properties\<close>

text \<open>
  (C38) Row-based sliding window: after any sequence of new tuples the buffer holds exactly
  the last \<open>sz\<close> of them, and the output is, tuple by tuple, the tuple that leaves the window
  (published as outdated) followed by the tuple that enters it. The one size excluded is
  \<open>2 ^ 32 - 1\<close>, where the 32-bit counter would wrap.
\<close>

theorem sliding_row_window_correct:
  assumes "SlidingWindow_rows RowWindow sz None 0 = Inr w" and "sz \<noteq> - 1"
  shows "run sw_step w (new_tuples xs) =
     Inr (w\<lparr>mTupleBuf := last_n (unat sz) xs, mCurrSize := of_nat (min (unat sz) (length xs))\<rparr>,
          slide_rows_out (unat sz) xs)"
  using assms by (intro sliding_row_run)
    (auto simp: SlidingWindow_rows_def Window_rows_def sw_setupEviction_def)

theorem sliding_row_window_correct_witness:
  "\<exists>w. SlidingWindow_rows RowWindow (2 :: uint) None 0 = Inr w \<and>
     run sw_step w (new_tuples [10, 20, 30 :: int]) =
       Inr (w\<lparr>mTupleBuf := [20, 30], mCurrSize := 2\<rparr>,
            [Data 10 False, Data 20 False, Data 10 True, Data 30 False])"
proof -
  obtain w where w: "SlidingWindow_rows RowWindow (2 :: uint) (None :: (int list \<Rightarrow> int \<Rightarrow> int) option) 0 = Inr w"
    by (simp add: SlidingWindow_rows_def Window_rows_def)
  have "(2 :: uint) \<noteq> - 1" by simp
  from sliding_row_window_correct [OF w this, of "[10, 20, 30]"] w show ?thesis
    by (intro exI [of _ w]) (simp add: last_n_def slide_rows_out_def upt_rec)
qed

text \<open>
  Time-based sliding window: for tuples that arrive in timestamp order, with timestamps
  that are not negative, the buffer holds exactly the tuples younger than the newest
  timestamp minus the window size; the outdated tuples followed by the buffer are the input
  in order, so each tuple leaves the window at most once, first in first out.
\<close>

theorem sliding_range_window_correct:
  assumes "\<forall>x \<in> set xs. 0 \<le> ts x" and "sorted (map ts xs)"
  shows "\<exists>w' os. run sw_step (SlidingWindow_duration ts RangeWindow sz None 0) (new_tuples xs) = Inr (w', os) \<and>
     mTupleBuf w' = filter (\<lambda>y. ts (last xs) - sz < ts y) xs \<and>
     olds os @ mTupleBuf w' = xs \<and> news os = xs"
  using sliding_range_run [of "SlidingWindow_duration ts RangeWindow sz None 0" sz ts xs] assms
  by (auto simp: SlidingWindow_duration_def Window_duration_def sw_setupEviction_def)

theorem sliding_range_window_correct_witness:
  "\<exists>w' os. run sw_step (SlidingWindow_duration id RangeWindow 5 None 0) (new_tuples [1, 4, 6, 10 :: int]) = Inr (w', os) \<and>
     mTupleBuf w' = [6, 10] \<and> olds os = [1, 4]"
  using sliding_range_window_correct [of "[1, 4, 6, 10]" id 5] by auto

text \<open>
  Row-based tumbling window of a positive size \<open>sz\<close>: after \<open>n\<close> tuples the buffer holds the
  \<open>n mod sz\<close> newest ones, all earlier ones were published as outdated in order, and exactly
  \<open>n div sz\<close> \<open>WindowExpired\<close> punctuations were published.
\<close>

theorem tumbling_row_window_correct:
  assumes "TumblingWindow_rows RowWindow sz None = Inr w" and "sz \<noteq> 0"
  shows "\<exists>w' os. run tw_step w (new_tuples xs) = Inr (w', os) \<and>
     length (mTupleBuf w') = length xs mod unat sz \<and> olds os @ mTupleBuf w' = xs \<and> news os = xs \<and>
     puncts os = replicate (length xs div unat sz) (mkPunctuation WindowExpired)"
proof -
  have "mWinType w = RowWindow" "mWinSize w = WinRows sz" "mWindowOpFunc w = None"
      "\<not> mEvictThread w" "mTupleBuf w = []" "mCurrSize w = 0"
    using assms(1) by (auto simp: TumblingWindow_rows_def Window_rows_def)
  from tumbling_row_run [OF this assms(2), of xs] show ?thesis by blast
qed

theorem tumbling_row_window_correct_witness:
  "\<exists>w w' os. TumblingWindow_rows RowWindow (2 :: uint) None = Inr w \<and>
     run tw_step w (new_tuples [1, 2, 3 :: int]) = Inr (w', os) \<and>
     olds os = [1, 2] \<and> mTupleBuf w' = [3] \<and> puncts os = [mkPunctuation WindowExpired]"
proof -
  obtain w where w: "TumblingWindow_rows RowWindow (2 :: uint) (None :: (int list \<Rightarrow> int \<Rightarrow> int) option) = Inr w"
    by (simp add: TumblingWindow_rows_def Window_rows_def)
  have two: "(2 :: uint) \<noteq> 0" by simp
  obtain w' os where r: "run tw_step w (new_tuples [1, 2, 3 :: int]) = Inr (w', os)"
    and len: "length (mTupleBuf w') = 1" and os: "olds os @ mTupleBuf w' = [1, 2, 3]"
    and p: "puncts os = [mkPunctuation WindowExpired]"
    using tumbling_row_window_correct [OF w two, of "[1, 2, 3]"] by (auto simp del: run.simps)
  from len obtain y where y: "mTupleBuf w' = [y]" by (auto simp: length_Suc_conv)
  with os have "olds os @ [y] = [1, 2] @ [3]" by simp
  then have "olds os = [1, 2]" "y = 3" by (auto simp only: append1_eq_conv)
  with w r y p show ?thesis by blast
qed

text \<open>
  Both windows, in any state that satisfies the invariant and with any window function,
  handle every new tuple without a failure, keep the invariant, and lose no tuple: what is
  buffered afterwards together with what was published as outdated is what was buffered
  before together with the input.
\<close>

theorem windows_conserve_tuples:
  assumes "win_inv w"
  shows "\<exists>w1 o1 w2 o2.
     run sw_step w (new_tuples xs) = Inr (w1, o1) \<and> win_inv w1 \<and>
     mset (mTupleBuf w1) + mset (olds o1) = mset (mTupleBuf w) + mset xs \<and>
     run tw_step w (new_tuples xs) = Inr (w2, o2) \<and> win_inv w2 \<and>
     mset (mTupleBuf w2) + mset (olds o2) = mset (mTupleBuf w) + mset xs"
  using slide.run_conserves [OF assms, of xs] tumble.run_conserves [OF assms, of xs] by blast

theorem windows_conserve_tuples_witness:
  "\<exists>w1 o1. run sw_step (SlidingWindow_duration id RangeWindow 5 None 0) (new_tuples [3, 1, 9 :: int]) = Inr (w1, o1) \<and>
     mset (mTupleBuf w1) + mset (olds o1) = {#1, 3, 9#}"
proof -
  have "win_inv (SlidingWindow_duration (id :: int \<Rightarrow> int) RangeWindow 5 None 0)"
    by (simp add: win_inv_def SlidingWindow_duration_def Window_duration_def sw_setupEviction_def)
  from windows_conserve_tuples [OF this, of "[3, 1, 9]"] show ?thesis
    by (auto simp: SlidingWindow_duration_def Window_duration_def sw_setupEviction_def add_mset_commute)
qed

text \<open>
  A range window whose size is given in seconds has the intended size in microseconds
  exactly up to 4294 seconds: beyond that the 32-bit product wraps around.
\<close>

theorem range_window_seconds_exact_iff:
  "mWinSize (Window_seconds ts RangeWindow sz opf ei) = WinTime (1000000 * uint sz) \<longleftrightarrow> uint sz \<le> 4294"
proof -
  have "sz * 1000 * 1000 = sz * 1000000" by simp
  moreover have "uint (sz * 1000000) = (uint sz * uint (1000000 :: uint)) mod 2 ^ 32"
    unfolding uint_word_ariths by simp
  ultimately have "uint (sz * 1000 * 1000) = (uint sz * 1000000) mod 2 ^ 32"
    by (simp add: mult.commute)
  moreover have "(uint sz * 1000000) mod 2 ^ 32 = 1000000 * uint sz \<longleftrightarrow> uint sz * 1000000 < 2 ^ 32"
    by (auto simp: mult.commute)
  ultimately show ?thesis
    by (auto simp: Window_seconds_def)
qed

text \<open>
  A row-based sliding window with an eviction interval never evicts: its thread runs the
  time-based strategy, and every tick fails, first on the missing element of an empty buffer
  and then on the missing timestamp extractor.
\<close>

theorem row_window_eviction_thread_fails:
  assumes "SlidingWindow_rows RowWindow sz opf ei = Inr w" and "ei \<noteq> 0"
    and "run sw_step w (new_tuples xs) = Inr (w', os)"
  shows "sw_tick w' = Inl (if xs = [] then EmptyAccess else BadFunctionCall)"
proof -
  have w: "mTimestampExtractor w = None" "mEvictThread w" "mTupleBuf w = []"
    using assms(1,2) by (auto simp: SlidingWindow_rows_def Window_rows_def sw_setupEviction_def)
  have "mTimestampExtractor w' = None \<and> mTupleBuf w' = mTupleBuf w @ xs"
    using assms(3) w(1,2)
  proof (induction xs arbitrary: w os)
    case (Cons x xs)
    then show ?case
      by (fastforce simp: sw_processDataElement_def win_push_def Let_def split: sum.splits)
  qed simp
  with w(3) show ?thesis
    by (auto simp: sw_tick_def sw_evictByTime_def)
qed

theorem row_window_eviction_thread_fails_witness:
  "\<exists>w w' os. SlidingWindow_rows RowWindow (2 :: uint) None 1 = Inr w \<and>
     run sw_step w (new_tuples [7 :: int]) = Inr (w', os) \<and> sw_tick w' = Inl BadFunctionCall"
proof -
  obtain w where w: "SlidingWindow_rows RowWindow (2 :: uint) (None :: (int list \<Rightarrow> int \<Rightarrow> int) option) 1 = Inr w"
    by (simp add: SlidingWindow_rows_def Window_rows_def)
  then obtain w' os where r: "run sw_step w (new_tuples [7]) = Inr (w', os)"
    by (auto simp: SlidingWindow_rows_def Window_rows_def sw_setupEviction_def op_defs Let_def)
  have "(1 :: uint) \<noteq> 0" by simp
  from row_window_eviction_thread_fails [OF w this r] w r show ?thesis by auto
qed

end
