(* ===== verification/Aggr_Funcs.thy ===== *)
theory Aggr_Funcs
  imports Complex_Main Pf_Prelude
begin

text \<open>
  The incremental aggregate functions of \<open>qop/aggr_functions\<close>: each is an initial state, an
  \<open>iterate\<close> that adds a new value or retracts an outdated one, and a \<open>value\<close>. Counters are
  the 32-bit unsigned integers of the source; sums are over any abelian group, so that both
  the mathematical integers and the wrapping machine words are instances; the floating-point
  division of the average is taken in an exact field. The interface \<open>aggregate_func\<close> says
  that the state represents the multiset of the values added and not yet retracted.
\<close>

section \<open>Interface\<close>

text \<open>
  A sequence of updates (value and outdated flag) applied to an aggregate, and the values
  present after it, if there is room for each new value and each retraction is of a present
  value.
\<close>

fun apply_updates :: "('s \<Rightarrow> 'a \<Rightarrow> bool \<Rightarrow> 's res) \<Rightarrow> ('a \<times> bool) list \<Rightarrow> 's \<Rightarrow> 's res" where
  "apply_updates iterate [] s = Inr s"
| "apply_updates iterate ((x, od) # us) s = bind_res (iterate s x od) (apply_updates iterate us)"

fun present :: "('a multiset \<Rightarrow> bool) \<Rightarrow> ('a \<times> bool) list \<Rightarrow> 'a multiset \<Rightarrow> 'a multiset option" where
  "present room [] A = Some A"
| "present room ((x, False) # us) A = (if room A then present room us (add_mset x A) else None)"
| "present room ((x, True) # us) A = (if x \<in># A then present room us (A - {#x#}) else None)"

locale aggregate_func =
  fixes init :: 's
    and iterate :: "'s \<Rightarrow> 'a \<Rightarrow> bool \<Rightarrow> 's res"
    and val :: "'s \<Rightarrow> 'r res"
    and rel :: "'s \<Rightarrow> 'a multiset \<Rightarrow> bool"
    and room :: "'a multiset \<Rightarrow> bool"
    and spec :: "'a multiset \<Rightarrow> 'r"
  assumes rel_init: "rel init {#}"
    and rel_new: "rel s A \<Longrightarrow> room A \<Longrightarrow> \<exists>s'. iterate s x False = Inr s' \<and> rel s' (add_mset x A)"
    and rel_old: "rel s A \<Longrightarrow> x \<in># A \<Longrightarrow> \<exists>s'. iterate s x True = Inr s' \<and> rel s' (A - {#x#})"
    and rel_val: "rel s A \<Longrightarrow> A \<noteq> {#} \<Longrightarrow> val s = Inr (spec A)"
begin

lemma updates_rel:
  "present room us A = Some B \<Longrightarrow> rel s A \<Longrightarrow> \<exists>s'. apply_updates iterate us s = Inr s' \<and> rel s' B"
proof (induction us arbitrary: A s)
  case (Cons u us)
  obtain x od where u: "u = (x, od)" by (cases u)
  show ?case
  proof (cases od)
    case False
    then have r: "room A" and p: "present room us (add_mset x A) = Some B" using Cons.prems(1) u by (auto split: if_splits)
    obtain s1 where "iterate s x False = Inr s1" "rel s1 (add_mset x A)" using rel_new [OF Cons.prems(2) r] by blast
    then show ?thesis using Cons.IH [OF p] u False by auto
  next
    case True
    then have r: "x \<in># A" and p: "present room us (A - {#x#}) = Some B" using Cons.prems(1) u by (auto split: if_splits)
    obtain s1 where "iterate s x True = Inr s1" "rel s1 (A - {#x#})" using rel_old [OF Cons.prems(2) r] by blast
    then show ?thesis using Cons.IH [OF p] u True by auto
  qed
qed simp

lemma value_correct:
  assumes "present room us {#} = Some B" and "B \<noteq> {#}"
  shows "\<exists>s. apply_updates iterate us init = Inr s \<and> val s = Inr (spec B)"
  using updates_rel [OF assms(1) rel_init] rel_val assms(2) by blast

end

section \<open>Sum, count and average\<close>

definition AggrSum_init :: "'a::ab_group_add" where
  "AggrSum_init = 0"

definition AggrSum_iterate :: "'a::ab_group_add \<Rightarrow> 'a \<Rightarrow> bool \<Rightarrow> 'a res" where
  "AggrSum_iterate mSum data outdated = Inr (mSum + (if outdated then - data else data))"

definition AggrSum_value :: "'a \<Rightarrow> 'a res" where
  "AggrSum_value mSum = Inr mSum"

definition AggrCount_init :: uint where
  "AggrCount_init = 0"

definition AggrCount_iterate :: "uint \<Rightarrow> 'a \<Rightarrow> bool \<Rightarrow> uint res" where
  "AggrCount_iterate mCount data outdated = Inr (mCount + (if outdated then - 1 else 1))"

definition AggrCount_value :: "uint \<Rightarrow> uint res" where
  "AggrCount_value mCount = Inr mCount"

record 'r AggrAvg =
  avgCount :: uint
  avgSum :: 'r

definition AggrAvg_init :: "'r::field AggrAvg" where
  "AggrAvg_init = \<lparr>avgCount = 0, avgSum = 0\<rparr>"

definition AggrAvg_iterate :: "'r::field AggrAvg \<Rightarrow> 'r \<Rightarrow> bool \<Rightarrow> 'r AggrAvg res" where
  "AggrAvg_iterate s data outdated =
     Inr (if outdated then \<lparr>avgCount = avgCount s - 1, avgSum = avgSum s - data\<rparr>
          else \<lparr>avgCount = avgCount s + 1, avgSum = avgSum s + data\<rparr>)"

text \<open>The division by a zero count gives no number.\<close>

definition AggrAvg_value :: "'r::field AggrAvg \<Rightarrow> 'r res" where
  "AggrAvg_value s = (if avgCount s = 0 then Inl DivByZero else Inr (avgSum s / of_nat (unat (avgCount s))))"

section \<open>Counted values: distinct count, minimum and maximum\<close>

text \<open>\<open>std::unordered_map\<close> of counters.\<close>

type_synonym 'a ValueCounters = "('a \<times> uint) list"

text \<open>An existing entry: its counter is changed, and the entry erased if it is not positive.\<close>

definition adjust_counter :: "'a ValueCounters \<Rightarrow> 'a \<Rightarrow> uint \<Rightarrow> bool \<Rightarrow> 'a ValueCounters" where
  "adjust_counter m data c outdated =
     (let c' = c + (if outdated then - 1 else 1)
      in if c' \<le> 0 then filter (\<lambda>e. fst e \<noteq> data) m
         else map (\<lambda>e. if fst e = data then (data, c') else e) m)"

definition AggrDCount_init :: "'a ValueCounters" where
  "AggrDCount_init = []"

definition AggrDCount_iterate :: "'a ValueCounters \<Rightarrow> 'a \<Rightarrow> bool \<Rightarrow> 'a ValueCounters res" where
  "AggrDCount_iterate m data outdated =
     (case map_of m data of
        Some c \<Rightarrow> Inr (adjust_counter m data c outdated)
      | None \<Rightarrow> if outdated then Inl AssertFailed else Inr ((data, 1) # m))"

definition AggrDCount_value :: "'a ValueCounters \<Rightarrow> nat res" where
  "AggrDCount_value m = Inr (length m)"

text \<open>\<open>std::map\<close> ordered by the comparator: a list of entries in that order.\<close>

fun omap_insert :: "('a \<Rightarrow> 'a \<Rightarrow> bool) \<Rightarrow> 'a \<Rightarrow> uint \<Rightarrow> 'a ValueCounters \<Rightarrow> 'a ValueCounters" where
  "omap_insert cmp k c [] = [(k, c)]"
| "omap_insert cmp k c (e # es) = (if cmp (fst e) k then e # omap_insert cmp k c es else (k, c) # e # es)"

definition AggrMinMax_init :: "'a ValueCounters" where
  "AggrMinMax_init = []"

definition AggrMinMax_iterate :: "('a \<Rightarrow> 'a \<Rightarrow> bool) \<Rightarrow> 'a ValueCounters \<Rightarrow> 'a \<Rightarrow> bool \<Rightarrow> 'a ValueCounters res" where
  "AggrMinMax_iterate cmp m data outdated =
     (case map_of m data of
        Some c \<Rightarrow> Inr (adjust_counter m data c outdated)
      | None \<Rightarrow> Inr (omap_insert cmp data 1 m))"

definition AggrMinMax_value :: "'a ValueCounters \<Rightarrow> 'a res" where
  "AggrMinMax_value m = (case m of [] \<Rightarrow> Inl AssertFailed | (k, _) # _ \<Rightarrow> Inr k)"

section \<open>Global extrema, identity, least and most recent value\<close>

text \<open>\<open>lowest\<close> and \<open>highest\<close> are \<open>std::numeric_limits<Tin>::min()\<close> and \<open>max()\<close>.\<close>

definition AggrGlobalMax_iterate :: "'a::linorder \<Rightarrow> 'a \<Rightarrow> bool \<Rightarrow> 'a res" where
  "AggrGlobalMax_iterate mMax data outdated = (if outdated then Inl AssertFailed else Inr (max mMax data))"

definition AggrGlobalMin_iterate :: "'a::linorder \<Rightarrow> 'a \<Rightarrow> bool \<Rightarrow> 'a res" where
  "AggrGlobalMin_iterate mMin data outdated = (if outdated then Inl AssertFailed else Inr (min mMin data))"

definition AggrGlobalMax_init :: "'a \<Rightarrow> 'a" where
  "AggrGlobalMax_init lowest = lowest"

definition AggrGlobalMin_init :: "'a \<Rightarrow> 'a" where
  "AggrGlobalMin_init highest = highest"

definition AggrIdentity_iterate :: "'a \<Rightarrow> 'a \<Rightarrow> bool \<Rightarrow> 'a res" where
  "AggrIdentity_iterate mValue data outdated = Inr data"

definition AggrLRecent_iterate :: "'a list \<Rightarrow> 'a \<Rightarrow> bool \<Rightarrow> 'a list res" where
  "AggrLRecent_iterate vals data outdated =
     (if \<not> outdated then Inr (vals @ [data])
      else (case vals of [] \<Rightarrow> Inl AssertFailed | _ # ds \<Rightarrow> Inr ds))"

definition AggrLRecent_value :: "'a list \<Rightarrow> 'a res" where
  "AggrLRecent_value vals = (case vals of [] \<Rightarrow> Inl AssertFailed | d # _ \<Rightarrow> Inr d)"

record 'a AggrMRecent =
  mrVal :: 'a
  mrTime :: Timestamp

definition AggrMRecent_iterate :: "'a AggrMRecent \<Rightarrow> 'a \<Rightarrow> bool \<Rightarrow> 'a AggrMRecent res" where
  "AggrMRecent_iterate s data outdated = Inr (if \<not> outdated then s\<lparr>mrVal := data\<rparr> else s)"

definition AggrMRecent_iterate_ts :: "'a AggrMRecent \<Rightarrow> 'a \<Rightarrow> Timestamp \<Rightarrow> bool \<Rightarrow> 'a AggrMRecent res" where
  "AggrMRecent_iterate_ts s data ts outdated =
     Inr (if \<not> outdated \<and> ts > mrTime s then s\<lparr>mrVal := data, mrTime := ts\<rparr> else s)"

section \<open>Interpretations\<close>

lemma size_remove: "x \<in># A \<Longrightarrow> size A = Suc (size (A - {#x#}))"
  by (metis insert_DiffM size_add_mset)

interpretation aggr_sum: aggregate_func AggrSum_init AggrSum_iterate AggrSum_value
  "\<lambda>s A. s = sum_mset A" "\<lambda>_. True" sum_mset
  by unfold_locales
    (auto simp: AggrSum_init_def AggrSum_iterate_def AggrSum_value_def sum_mset_diff add.commute)

interpretation aggr_count: aggregate_func AggrCount_init AggrCount_iterate AggrCount_value
  "\<lambda>s A. s = of_nat (size A)" "\<lambda>_. True" "\<lambda>A. of_nat (size A)"
proof unfold_locales
  show "\<exists>s'. AggrCount_iterate s x True = Inr s' \<and> s' = of_nat (size (A - {#x#}))"
    if "s = of_nat (size A)" "x \<in># A" for s x and A :: "'a multiset"
  proof -
    have "size A = Suc (size (A - {#x#}))" using size_remove [OF that(2)] .
    then show ?thesis using that(1) by (simp add: AggrCount_iterate_def)
  qed
qed (auto simp: AggrCount_init_def AggrCount_iterate_def AggrCount_value_def)

text \<open>A table of counters represents a multiset of fewer than \<open>2 ^ 32\<close> values.\<close>

definition cnt_rel :: "'a ValueCounters \<Rightarrow> 'a multiset \<Rightarrow> bool" where
  "cnt_rel m A \<longleftrightarrow> distinct (map fst m) \<and> size A < 2 ^ 32 \<and>
     (\<forall>x. map_of m x = (if x \<in># A then Some (of_nat (count A x)) else None))"

abbreviation cnt_room :: "'a multiset \<Rightarrow> bool" where
  "cnt_room A \<equiv> Suc (size A) < 2 ^ 32"

lemma map_of_filter_key: "map_of (filter (\<lambda>e. fst e \<noteq> k) m) x = (if x = k then None else map_of m x)"
  by (induction m) auto

lemma map_of_set_key: "map_of (map (\<lambda>e. if fst e = k then (k, c) else e) m) x =
    (if x = k \<and> map_of m k \<noteq> None then Some c else map_of m x)"
  by (induction m) auto

lemma map_fst_set_key: "map fst (map (\<lambda>e. if fst e = k then (k, c) else e) m) = map fst m"
  by (induction m) auto

lemma map_fst_filter_key: "map fst (filter (\<lambda>e. fst e \<noteq> k) m) = filter (\<lambda>x. x \<noteq> k) (map fst m)"
  by (induction m) auto

lemma count_word_small:
  assumes "n < 2 ^ 32"
  shows "(of_nat n :: uint) = 0 \<longleftrightarrow> n = 0"
proof -
  have "unat (of_nat n :: uint) = n" using assms by (simp add: unat_of_nat)
  then show ?thesis using unat_eq_zero [of "of_nat n :: uint"] by simp
qed

lemma cnt_rel_lookup: "cnt_rel m A \<Longrightarrow> map_of m x = (if x \<in># A then Some (of_nat (count A x)) else None)"
  unfolding cnt_rel_def by blast

lemma adjust_new:
  assumes "cnt_rel m A" and "cnt_room A" and "map_of m x = Some c"
  shows "cnt_rel (adjust_counter m x c False) (add_mset x A)"
    and "map fst (adjust_counter m x c False) = map fst m"
proof -
  have c: "c = of_nat (count A x)" using assms(3) cnt_rel_lookup [OF assms(1), of x] by (auto split: if_splits)
  have le: "Suc (count A x) < 2 ^ 32" using assms(2) count_le_size [of A x] by simp
  then have nz: "\<not> c + 1 \<le> 0" using count_word_small [OF le] c by (simp add: add.commute)
  then have eq: "adjust_counter m x c False = map (\<lambda>e. if fst e = x then (x, c + 1) else e) m"
    by (simp add: adjust_counter_def)
  show keys: "map fst (adjust_counter m x c False) = map fst m" unfolding eq by (rule map_fst_set_key)
  have mo: "map_of (adjust_counter m x c False) y = (if y = x then Some (c + 1) else map_of m y)" for y
    unfolding eq map_of_set_key using assms(3) by simp
  have "map_of (adjust_counter m x c False) y =
      (if y \<in># add_mset x A then Some (of_nat (count (add_mset x A) y)) else None)" for y
    unfolding mo cnt_rel_lookup [OF assms(1)] using c by (simp add: add.commute)
  moreover have "distinct (map fst (adjust_counter m x c False))" "size (add_mset x A) < 2 ^ 32"
    unfolding keys using assms(1,2) by (simp_all add: cnt_rel_def)
  ultimately show "cnt_rel (adjust_counter m x c False) (add_mset x A)" unfolding cnt_rel_def by blast
qed

lemma adjust_old:
  assumes "cnt_rel m A" and "x \<in># A" and "map_of m x = Some c"
  shows "cnt_rel (adjust_counter m x c True) (A - {#x#})"
    and "map fst (adjust_counter m x c True) = map fst m \<or>
      map fst (adjust_counter m x c True) = filter (\<lambda>y. y \<noteq> x) (map fst m)"
proof -
  have c: "c = of_nat (count A x)" using assms(3) cnt_rel_lookup [OF assms(1), of x] by (auto split: if_splits)
  obtain n where n: "count A x = Suc n" using assms(2) by (metis count_greater_zero_iff gr0_implies_Suc)
  have lt: "n < 2 ^ 32" using assms(1) n count_le_size [of A x] by (simp add: cnt_rel_def)
  have z: "c + - 1 \<le> 0 \<longleftrightarrow> n = 0" using count_word_small [OF lt] c n by simp
  have sz: "size (A - {#x#}) < 2 ^ 32" using assms(1) size_remove [OF assms(2)] by (simp add: cnt_rel_def)
  show "map fst (adjust_counter m x c True) = map fst m \<or>
      map fst (adjust_counter m x c True) = filter (\<lambda>y. y \<noteq> x) (map fst m)"
    unfolding adjust_counter_def Let_def using map_fst_set_key [of x _ m] map_fst_filter_key [of x m] by presburger
  then have "distinct (map fst (adjust_counter m x c True))" using assms(1) by (auto simp: cnt_rel_def)
  moreover have "map_of (adjust_counter m x c True) y =
      (if y \<in># A - {#x#} then Some (of_nat (count (A - {#x#}) y)) else None)" for y
  proof (cases "n = 0")
    case True
    then have "adjust_counter m x c True = filter (\<lambda>e. fst e \<noteq> x) m" using z by (simp add: adjust_counter_def)
    then show ?thesis using n True
      by (cases "y = x") (simp_all add: map_of_filter_key cnt_rel_lookup [OF assms(1)] in_diff_count not_in_iff)
  next
    case False
    then have "adjust_counter m x c True = map (\<lambda>e. if fst e = x then (x, c + - 1) else e) m"
      using z by (simp add: adjust_counter_def)
    then show ?thesis using n False c assms(2)
      by (cases "y = x") (simp_all add: map_of_set_key cnt_rel_lookup [OF assms(1)] in_diff_count)
  qed
  ultimately show "cnt_rel (adjust_counter m x c True) (A - {#x#})" using sz unfolding cnt_rel_def by blast
qed

lemma cnt_rel_insert:
  assumes "cnt_rel m A" and "cnt_room A" and "map_of m x = None"
    and "\<And>y. map_of m' y = (if y = x then Some 1 else map_of m y)" and "distinct (map fst m')"
  shows "cnt_rel m' (add_mset x A)"
proof -
  have "x \<notin># A" using assms(3) cnt_rel_lookup [OF assms(1), of x] by (auto split: if_splits)
  then have "map_of m' y = (if y \<in># add_mset x A then Some (of_nat (count (add_mset x A) y)) else None)" for y
    unfolding assms(4) cnt_rel_lookup [OF assms(1)] by (simp add: not_in_iff)
  then show ?thesis using assms(2,5) unfolding cnt_rel_def by simp
qed

interpretation aggr_dcount: aggregate_func AggrDCount_init AggrDCount_iterate AggrDCount_value
  cnt_rel cnt_room "\<lambda>A. card (set_mset A)"
proof unfold_locales
  show "cnt_rel AggrDCount_init {#}" by (simp add: AggrDCount_init_def cnt_rel_def)
  fix m :: "'a ValueCounters" and A x
  assume r: "cnt_rel m A"
  have d: "distinct (map fst m)" using r by (simp add: cnt_rel_def)
  show "\<exists>m'. AggrDCount_iterate m x False = Inr m' \<and> cnt_rel m' (add_mset x A)" if "cnt_room A"
  proof (cases "map_of m x")
    case None
    then have "cnt_rel ((x, 1) # m) (add_mset x A)"
      using r that d by (intro cnt_rel_insert) (auto simp: map_of_eq_None_iff)
    then show ?thesis using None by (simp add: AggrDCount_iterate_def)
  next
    case (Some c)
    then show ?thesis using adjust_new(1) [OF r that Some] by (simp add: AggrDCount_iterate_def)
  qed
  show "\<exists>m'. AggrDCount_iterate m x True = Inr m' \<and> cnt_rel m' (A - {#x#})" if "x \<in># A"
  proof -
    have "map_of m x = Some (of_nat (count A x))" using cnt_rel_lookup [OF r] that by simp
    then show ?thesis using adjust_old(1) [OF r that] by (simp add: AggrDCount_iterate_def)
  qed
  show "AggrDCount_value m = Inr (card (set_mset A))" if "A \<noteq> {#}"
  proof -
    have "dom (map_of m) = set_mset A" by (auto simp: dom_def cnt_rel_lookup [OF r])
    then have "set_mset A = set (map fst m)" by (simp add: dom_map_of_conv_image_fst)
    then show ?thesis using d distinct_card [of "map fst m"] by (simp add: AggrDCount_value_def)
  qed
qed

text \<open>The ordered map for a strict total order, and its first key.\<close>

definition strict_total :: "('a \<Rightarrow> 'a \<Rightarrow> bool) \<Rightarrow> bool" where
  "strict_total cmp \<longleftrightarrow> irreflp cmp \<and> transp cmp \<and> totalp cmp"

definition omap_rel :: "('a \<Rightarrow> 'a \<Rightarrow> bool) \<Rightarrow> 'a ValueCounters \<Rightarrow> 'a multiset \<Rightarrow> bool" where
  "omap_rel cmp m A \<longleftrightarrow> cnt_rel m A \<and> sorted_wrt cmp (map fst m)"

lemma omap_insert_set: "set (map fst (omap_insert cmp k c m)) = insert k (set (map fst m))"
  by (induction m) auto

lemma omap_insert_map_of: "map_of m k = None \<Longrightarrow> map_of (omap_insert cmp k c m) y = (if y = k then Some c else map_of m y)"
  by (induction m) auto

lemma omap_insert_sorted:
  assumes "strict_total cmp" and "map_of m k = None" and "sorted_wrt cmp (map fst m)"
  shows "sorted_wrt cmp (map fst (omap_insert cmp k c m))"
  using assms(2,3)
proof (induction m)
  case (Cons e es)
  have ne: "fst e \<noteq> k" and n: "map_of es k = None" using Cons.prems(1) by (cases e; auto split: if_splits)+
  show ?case
  proof (cases "cmp (fst e) k")
    case True
    then show ?thesis using Cons n omap_insert_set [of cmp k c es] by auto
  next
    case False
    then have "cmp k (fst e)" using assms(1) ne by (auto simp: strict_total_def totalp_on_def)
    then show ?thesis
      using False Cons.prems(2) assms(1) unfolding strict_total_def by (auto dest: transpD)
  qed
qed simp

lemma sorted_wrt_distinct: "strict_total cmp \<Longrightarrow> sorted_wrt cmp xs \<Longrightarrow> distinct xs"
  by (induction xs) (auto simp: strict_total_def dest: irreflpD)

lemma minmax_new:
  assumes "strict_total cmp" and "omap_rel cmp m A" and "cnt_room A"
  shows "\<exists>m'. AggrMinMax_iterate cmp m x False = Inr m' \<and> omap_rel cmp m' (add_mset x A)"
proof (cases "map_of m x")
  case None
  have s: "sorted_wrt cmp (map fst (omap_insert cmp x 1 m))"
    using omap_insert_sorted [OF assms(1) None] assms(2) by (simp add: omap_rel_def)
  have "cnt_rel (omap_insert cmp x 1 m) (add_mset x A)"
    using assms(2,3) None omap_insert_map_of [OF None] sorted_wrt_distinct [OF assms(1) s]
    by (intro cnt_rel_insert) (simp_all add: omap_rel_def)
  then show ?thesis using None s by (simp add: AggrMinMax_iterate_def omap_rel_def)
next
  case (Some c)
  then show ?thesis
    using adjust_new [OF _ assms(3) Some] assms(2) by (simp add: AggrMinMax_iterate_def omap_rel_def)
qed

lemma minmax_old:
  assumes "omap_rel cmp m A" and "x \<in># A"
  shows "\<exists>m'. AggrMinMax_iterate cmp m x True = Inr m' \<and> omap_rel cmp m' (A - {#x#})"
proof -
  have r: "cnt_rel m A" and s: "sorted_wrt cmp (map fst m)" using assms(1) by (simp_all add: omap_rel_def)
  have c: "map_of m x = Some (of_nat (count A x))" using cnt_rel_lookup [OF r] assms(2) by simp
  note ad = adjust_old [OF r assms(2) c]
  then have "sorted_wrt cmp (map fst (adjust_counter m x (of_nat (count A x)) True))"
    using s sorted_wrt_filter by metis
  then show ?thesis using ad(1) c by (simp add: AggrMinMax_iterate_def omap_rel_def)
qed

lemma minmax_value:
  assumes "omap_rel cmp m A" and "A \<noteq> {#}"
  shows "\<exists>k. AggrMinMax_value m = Inr k \<and> k \<in># A \<and> (\<forall>y\<in>#A. y = k \<or> cmp k y)"
proof -
  have r: "cnt_rel m A" and s: "sorted_wrt cmp (map fst m)" using assms(1) by (simp_all add: omap_rel_def)
  have "dom (map_of m) = set_mset A" by (auto simp: dom_def cnt_rel_lookup [OF r])
  then have keys: "set_mset A = set (map fst m)" by (simp add: dom_map_of_conv_image_fst)
  then obtain k c es where m: "m = (k, c) # es" using assms(2) by (cases m) auto
  then show ?thesis using s keys by (auto simp: AggrMinMax_value_def)
qed

lemma strict_total_less: "strict_total ((<) :: 'a::linorder \<Rightarrow> 'a \<Rightarrow> bool)"
  and strict_total_greater: "strict_total ((>) :: 'a::linorder \<Rightarrow> 'a \<Rightarrow> bool)"
  by (auto simp: strict_total_def)

interpretation aggr_min: aggregate_func AggrMinMax_init "AggrMinMax_iterate (<)" AggrMinMax_value
  "omap_rel (<)" cnt_room "\<lambda>A. Min (set_mset A) :: 'a::linorder"
proof unfold_locales
  show "omap_rel (<) AggrMinMax_init {#}" by (simp add: AggrMinMax_init_def omap_rel_def cnt_rel_def)
  show "AggrMinMax_value m = Inr (Min (set_mset A))" if r: "omap_rel (<) m A" "A \<noteq> {#}" for m and A :: "'a multiset"
  proof -
    obtain k where "AggrMinMax_value m = Inr k" "k \<in># A" "\<forall>y\<in>#A. y = k \<or> k < y" using minmax_value [OF r] by blast
    then show ?thesis using Min_eqI [of "set_mset A" k] by fastforce
  qed
qed (auto intro: minmax_new [OF strict_total_less] minmax_old)

interpretation aggr_max: aggregate_func AggrMinMax_init "AggrMinMax_iterate (>)" AggrMinMax_value
  "omap_rel (>)" cnt_room "\<lambda>A. Max (set_mset A) :: 'a::linorder"
proof unfold_locales
  show "omap_rel (>) AggrMinMax_init {#}" by (simp add: AggrMinMax_init_def omap_rel_def cnt_rel_def)
  show "AggrMinMax_value m = Inr (Max (set_mset A))" if r: "omap_rel (>) m A" "A \<noteq> {#}" for m and A :: "'a multiset"
  proof -
    obtain k where "AggrMinMax_value m = Inr k" "k \<in># A" "\<forall>y\<in>#A. y = k \<or> y < k" using minmax_value [OF r] by blast
    then show ?thesis using Max_eqI [of "set_mset A" k] by fastforce
  qed
qed (auto intro: minmax_new [OF strict_total_greater] minmax_old)

text \<open>The average of fewer than \<open>2 ^ 32\<close> values in an exact field of characteristic zero.\<close>

definition avg_rel :: "'r::field_char_0 AggrAvg \<Rightarrow> 'r multiset \<Rightarrow> bool" where
  "avg_rel s A \<longleftrightarrow> size A < 2 ^ 32 \<and> avgCount s = of_nat (size A) \<and> avgSum s = sum_mset A"

interpretation aggr_avg: aggregate_func AggrAvg_init AggrAvg_iterate AggrAvg_value
  avg_rel cnt_room "\<lambda>A. sum_mset A / of_nat (size A) :: 'r::field_char_0"
proof unfold_locales
  show "avg_rel AggrAvg_init {#}" by (simp add: avg_rel_def AggrAvg_init_def)
  fix s and A :: "'r multiset" and x
  assume r: "avg_rel s A"
  show "\<exists>s'. AggrAvg_iterate s x False = Inr s' \<and> avg_rel s' (add_mset x A)" if "cnt_room A"
    using r that by (simp add: AggrAvg_iterate_def avg_rel_def add.commute)
  show "\<exists>s'. AggrAvg_iterate s x True = Inr s' \<and> avg_rel s' (A - {#x#})" if "x \<in># A"
    using r that size_remove [OF that] by (simp add: AggrAvg_iterate_def avg_rel_def sum_mset_diff)
  show "AggrAvg_value s = Inr (sum_mset A / of_nat (size A))" if "A \<noteq> {#}"
    using r that count_word_small [of "size A"] by (simp add: AggrAvg_value_def avg_rel_def unat_of_nat)
qed

section \<open>Properties\<close>

lemma present_more_room: "present P us A = Some B \<Longrightarrow> present (\<lambda>_. True) us A = Some B"
  by (induction P us A rule: present.induct) (auto split: if_splits)

text \<open>
  The incremental aggregates compute what they are named after. For every sequence of
  insertions and retractions in which only present values are retracted and fewer than
  \<open>2 ^ 32\<close> values are present at any time, no aggregate fails and, if values are present at
  the end, each one returns the aggregate of exactly those values: their sum, their number,
  their average, their number of distinct values, their minimum and their maximum.
\<close>

theorem aggregates_correct:
  fixes us :: "('a::linordered_field \<times> bool) list"
  assumes "present cnt_room us {#} = Some B" and "B \<noteq> {#}"
  shows "(\<exists>s. apply_updates AggrSum_iterate us AggrSum_init = Inr s \<and> AggrSum_value s = Inr (sum_mset B)) \<and>
    (\<exists>s. apply_updates AggrCount_iterate us AggrCount_init = Inr s \<and> AggrCount_value s = Inr (of_nat (size B))) \<and>
    (\<exists>s. apply_updates AggrAvg_iterate us AggrAvg_init = Inr s \<and> AggrAvg_value s = Inr (sum_mset B / of_nat (size B))) \<and>
    (\<exists>s. apply_updates AggrDCount_iterate us AggrDCount_init = Inr s \<and> AggrDCount_value s = Inr (card (set_mset B))) \<and>
    (\<exists>s. apply_updates (AggrMinMax_iterate (<)) us AggrMinMax_init = Inr s \<and> AggrMinMax_value s = Inr (Min (set_mset B))) \<and>
    (\<exists>s. apply_updates (AggrMinMax_iterate (>)) us AggrMinMax_init = Inr s \<and> AggrMinMax_value s = Inr (Max (set_mset B)))"
  using aggr_sum.value_correct [OF present_more_room [OF assms(1)] assms(2)]
    aggr_count.value_correct [OF present_more_room [OF assms(1)] assms(2)]
    aggr_avg.value_correct [OF assms] aggr_dcount.value_correct [OF assms]
    aggr_min.value_correct [OF assms] aggr_max.value_correct [OF assms]
  by (intro conjI)

theorem aggregates_correct_witness:
  "\<exists>s. apply_updates (AggrMinMax_iterate (<)) [(4, False), (2, False), (7, False), (2, True)] AggrMinMax_init = Inr s \<and>
     AggrMinMax_value s = Inr (4 :: real)"
proof -
  have p: "present cnt_room [(4, False), (2, False), (7, False), (2, True)] {#} = Some {#4, 7 :: real#}"
    by (simp add: add_mset_commute)
  show ?thesis using aggregates_correct [OF p] by simp
qed

end
