(* ===== verification/Aggr_Ops.thy ===== *)
theory Aggr_Ops
  imports Windows Aggr_Funcs
begin

text \<open>
  The aggregation operators: the aggregate states of \<open>qop/AggregateStateBase.hpp\<close>, the
  operators \<open>qop/Aggregation.hpp\<close> and \<open>qop/GroupedAggregation.hpp\<close> with all their trigger
  strategies, and the tick of \<open>qop/TriggerNotifier.cpp\<close>. The operator mutex is a flag of the
  state, so that locking it twice in one thread is an error value.
\<close>

section \<open>Aggregate states\<close>

text \<open>
  \<open>mTstmp\<close> is not initialised by the constructor (None), the counter starts at one. The
  states with one to four aggregates extend the base class.
\<close>

record AggregateStateBase =
  mTstmp :: "Timestamp option"
  asCounter :: uint

definition updateCounter :: "int \<Rightarrow> 'z AggregateStateBase_scheme \<Rightarrow> 'z AggregateStateBase_scheme" where
  "updateCounter v st = st\<lparr>asCounter := asCounter st + of_int v\<rparr>"

definition getCounter :: "'z AggregateStateBase_scheme \<Rightarrow> int" where
  "getCounter st = sint (asCounter st)"

definition setTimestamp :: "Timestamp \<Rightarrow> 'z AggregateStateBase_scheme \<Rightarrow> 'z AggregateStateBase_scheme" where
  "setTimestamp t st = st\<lparr>mTstmp := Some t\<rparr>"

definition getTimestamp :: "'z AggregateStateBase_scheme \<Rightarrow> Timestamp option" where
  "getTimestamp st = mTstmp st"

record 'f Aggregator1 = AggregateStateBase +
  aggr1_1 :: 'f

record ('f1, 'f2) Aggregator2 = AggregateStateBase +
  aggr2_1 :: 'f1
  aggr2_2 :: 'f2

record ('f1, 'f2, 'f3) Aggregator3 = AggregateStateBase +
  aggr3_1 :: 'f1
  aggr3_2 :: 'f2
  aggr3_3 :: 'f3

record ('f1, 'f2, 'f3, 'f4) Aggregator4 = AggregateStateBase +
  aggr4_1 :: 'f1
  aggr4_2 :: 'f2
  aggr4_3 :: 'f3
  aggr4_4 :: 'f4

text \<open>
  The aggregates are constructed in their initial state. \<open>it1\<close> stands for
  \<open>Aggr1Func::iterate\<close>, \<open>col1\<close> for \<open>getAttribute<Aggr1Col>\<close>, \<open>val1\<close> for
  \<open>Aggr1Func::value\<close>; \<open>iterateForKey\<close> does the same and ignores the key.
\<close>

definition Aggregator1_new :: "'f \<Rightarrow> 'f Aggregator1" where
  "Aggregator1_new i1 = \<lparr>mTstmp = None, asCounter = 1, aggr1_1 = i1\<rparr>"

definition Aggregator1_init :: "'f \<Rightarrow> 'f Aggregator1 \<Rightarrow> 'f Aggregator1" where
  "Aggregator1_init i1 st = st\<lparr>aggr1_1 := i1\<rparr>"

definition Aggregator1_iterate ::
  "('f \<Rightarrow> 'v \<Rightarrow> bool \<Rightarrow> 'f res) \<Rightarrow> ('a \<Rightarrow> 'v) \<Rightarrow> 'a \<Rightarrow> 'f Aggregator1 \<Rightarrow> bool \<Rightarrow> 'f Aggregator1 res" where
  "Aggregator1_iterate it1 col1 tp st outdated =
     bind_res (it1 (aggr1_1 st) (col1 tp) outdated) (\<lambda>f. Inr (st\<lparr>aggr1_1 := f\<rparr>))"

definition Aggregator1_iterateForKey where
  "Aggregator1_iterateForKey it1 col1 tp key st outdated = Aggregator1_iterate it1 col1 tp st outdated"

definition Aggregator1_finalize :: "('f \<Rightarrow> 'r res) \<Rightarrow> 'f Aggregator1 \<Rightarrow> 'r res" where
  "Aggregator1_finalize val1 st = val1 (aggr1_1 st)"

definition Aggregator2_new :: "'f1 \<Rightarrow> 'f2 \<Rightarrow> ('f1, 'f2) Aggregator2" where
  "Aggregator2_new i1 i2 = \<lparr>mTstmp = None, asCounter = 1, aggr2_1 = i1, aggr2_2 = i2\<rparr>"

definition Aggregator2_init :: "'f1 \<Rightarrow> 'f2 \<Rightarrow> ('f1, 'f2) Aggregator2 \<Rightarrow> ('f1, 'f2) Aggregator2" where
  "Aggregator2_init i1 i2 st = st\<lparr>aggr2_1 := i1, aggr2_2 := i2\<rparr>"

definition Aggregator2_iterate where
  "Aggregator2_iterate it1 col1 it2 col2 tp st outdated =
     bind_res (it1 (aggr2_1 st) (col1 tp) outdated) (\<lambda>f1.
     bind_res (it2 (aggr2_2 st) (col2 tp) outdated) (\<lambda>f2.
       Inr (st\<lparr>aggr2_1 := f1, aggr2_2 := f2\<rparr>)))"

definition Aggregator2_iterateForKey where
  "Aggregator2_iterateForKey it1 col1 it2 col2 tp key st outdated =
     Aggregator2_iterate it1 col1 it2 col2 tp st outdated"

definition Aggregator2_finalize where
  "Aggregator2_finalize val1 val2 st =
     bind_res (val1 (aggr2_1 st)) (\<lambda>r1. bind_res (val2 (aggr2_2 st)) (\<lambda>r2. Inr (r1, r2)))"

definition Aggregator3_new where
  "Aggregator3_new i1 i2 i3 = \<lparr>mTstmp = None, asCounter = 1, aggr3_1 = i1, aggr3_2 = i2, aggr3_3 = i3\<rparr>"

definition Aggregator3_init where
  "Aggregator3_init i1 i2 i3 st = st\<lparr>aggr3_1 := i1, aggr3_2 := i2, aggr3_3 := i3\<rparr>"

definition Aggregator3_iterate where
  "Aggregator3_iterate it1 col1 it2 col2 it3 col3 tp st outdated =
     bind_res (it1 (aggr3_1 st) (col1 tp) outdated) (\<lambda>f1.
     bind_res (it2 (aggr3_2 st) (col2 tp) outdated) (\<lambda>f2.
     bind_res (it3 (aggr3_3 st) (col3 tp) outdated) (\<lambda>f3.
       Inr (st\<lparr>aggr3_1 := f1, aggr3_2 := f2, aggr3_3 := f3\<rparr>))))"

definition Aggregator3_finalize where
  "Aggregator3_finalize val1 val2 val3 st =
     bind_res (val1 (aggr3_1 st)) (\<lambda>r1. bind_res (val2 (aggr3_2 st)) (\<lambda>r2.
     bind_res (val3 (aggr3_3 st)) (\<lambda>r3. Inr (r1, r2, r3))))"

definition Aggregator4_new where
  "Aggregator4_new i1 i2 i3 i4 =
     \<lparr>mTstmp = None, asCounter = 1, aggr4_1 = i1, aggr4_2 = i2, aggr4_3 = i3, aggr4_4 = i4\<rparr>"

definition Aggregator4_init where
  "Aggregator4_init i1 i2 i3 i4 st = st\<lparr>aggr4_1 := i1, aggr4_2 := i2, aggr4_3 := i3, aggr4_4 := i4\<rparr>"

definition Aggregator4_iterate where
  "Aggregator4_iterate it1 col1 it2 col2 it3 col3 it4 col4 tp st outdated =
     bind_res (it1 (aggr4_1 st) (col1 tp) outdated) (\<lambda>f1.
     bind_res (it2 (aggr4_2 st) (col2 tp) outdated) (\<lambda>f2.
     bind_res (it3 (aggr4_3 st) (col3 tp) outdated) (\<lambda>f3.
     bind_res (it4 (aggr4_4 st) (col4 tp) outdated) (\<lambda>f4.
       Inr (st\<lparr>aggr4_1 := f1, aggr4_2 := f2, aggr4_3 := f3, aggr4_4 := f4\<rparr>)))))"

definition Aggregator4_finalize where
  "Aggregator4_finalize val1 val2 val3 val4 st =
     bind_res (val1 (aggr4_1 st)) (\<lambda>r1. bind_res (val2 (aggr4_2 st)) (\<lambda>r2.
     bind_res (val3 (aggr4_3 st)) (\<lambda>r3. bind_res (val4 (aggr4_4 st)) (\<lambda>r4. Inr (r1, r2, r3, r4)))))"

section \<open>Aggregation\<close>

datatype AggregationTriggerType = TriggerAll | TriggerByCount | TriggerByTime | TriggerByTimestamp

text \<open>\<open>boost::variant<Timestamp, unsigned int>\<close>.\<close>

datatype IntervalType = IvTime Timestamp | IvCount uint

record ('a, 's, 'r) Aggregation =
  mAggrState :: 's
  aggrMtx :: bool
  mIterateFunc :: "'a \<Rightarrow> 's \<Rightarrow> bool \<Rightarrow> 's res"
  mFinalFunc :: "'s \<Rightarrow> 'r res"
  agTimestampExtractor :: "('a \<Rightarrow> Timestamp) option"
  mNotifier :: "uint option"
  mLastTriggerTime :: Timestamp
  mTriggerType :: AggregationTriggerType
  mTriggerInterval :: IntervalType
  mCounter :: uint

text \<open>
  The constructors: with a trigger type and an interval (a notifier thread only for
  \<open>TriggerByTime\<close>); with a timestamp extractor and a duration in microseconds; with a
  timestamp extractor and seconds, where \<open>tInterval * 1000 * 1000\<close> is computed in
  \<open>unsigned int\<close>.
\<close>

definition Aggregation_new ::
  "'s \<Rightarrow> ('s \<Rightarrow> 'r res) \<Rightarrow> ('a \<Rightarrow> 's \<Rightarrow> bool \<Rightarrow> 's res) \<Rightarrow> AggregationTriggerType \<Rightarrow> uint \<Rightarrow>
   ('a, 's, 'r) Aggregation" where
  "Aggregation_new state final_fun it_fun tType tInterval =
     \<lparr>mAggrState = state, aggrMtx = False, mIterateFunc = it_fun, mFinalFunc = final_fun,
      agTimestampExtractor = None,
      mNotifier = (if tInterval > 0 \<and> tType = TriggerByTime then Some tInterval else None),
      mLastTriggerTime = 0, mTriggerType = tType, mTriggerInterval = IvCount tInterval,
      mCounter = 0\<rparr>"

definition Aggregation_duration ::
  "'s \<Rightarrow> ('s \<Rightarrow> 'r res) \<Rightarrow> ('a \<Rightarrow> 's \<Rightarrow> bool \<Rightarrow> 's res) \<Rightarrow> ('a \<Rightarrow> Timestamp) \<Rightarrow> Timestamp \<Rightarrow>
   ('a, 's, 'r) Aggregation" where
  "Aggregation_duration state final_fun it_fun func d =
     \<lparr>mAggrState = state, aggrMtx = False, mIterateFunc = it_fun, mFinalFunc = final_fun,
      agTimestampExtractor = Some func, mNotifier = None, mLastTriggerTime = 0,
      mTriggerType = TriggerByTimestamp, mTriggerInterval = IvTime d, mCounter = 0\<rparr>"

definition Aggregation_seconds where
  "Aggregation_seconds state final_fun it_fun func (tInterval :: uint) =
     Aggregation_duration state final_fun it_fun func (uint (tInterval * 1000 * 1000))"

definition ag_produceAggregates :: "('a, 's, 'r) Aggregation \<Rightarrow> (('a, 's, 'r) Aggregation \<times> 'r event list) res" where
  "ag_produceAggregates ag =
     (if aggrMtx ag then Inl SelfDeadlock
      else bind_res (mFinalFunc ag (mAggrState ag)) (\<lambda>r. Inr (ag, [Data r False])))"

definition ag_notificationCallback :: "('a, 's, 'r) Aggregation \<Rightarrow> (('a, 's, 'r) Aggregation \<times> 'r event list) res" where
  "ag_notificationCallback ag =
     bind_res (ag_produceAggregates ag) (\<lambda>(ag1, os). Inr (ag1, os @ [Punct (mkPunctuation SlideExpired)]))"

text \<open>The cases of the trigger switch for a new tuple, with the lock held.\<close>

definition ag_trigger :: "('a, 's, 'r) Aggregation \<Rightarrow> 'a \<Rightarrow> (('a, 's, 'r) Aggregation \<times> 'r event list) res" where
  "ag_trigger ag data =
     (case mTriggerType ag of
        TriggerAll \<Rightarrow>
          bind_res (mFinalFunc ag (mAggrState ag)) (\<lambda>tn. Inr (ag\<lparr>aggrMtx := False\<rparr>, [Data tn False]))
      | TriggerByCount \<Rightarrow>
          (let ag1 = ag\<lparr>mCounter := mCounter ag + 1\<rparr>
           in case mTriggerInterval ag1 of
                IvTime _ \<Rightarrow> Inl BadGet
              | IvCount n \<Rightarrow>
                  if mCounter ag1 = n
                  then bind_res (ag_notificationCallback (ag1\<lparr>aggrMtx := False\<rparr>))
                         (\<lambda>(ag2, os). Inr (ag2\<lparr>mCounter := 0\<rparr>, os))
                  else Inr (ag1\<lparr>aggrMtx := False\<rparr>, []))
      | TriggerByTimestamp \<Rightarrow>
          (case agTimestampExtractor ag of
             None \<Rightarrow> Inl BadFunctionCall
           | Some func \<Rightarrow>
               (case mTriggerInterval ag of
                  IvCount _ \<Rightarrow> Inl BadGet
                | IvTime d \<Rightarrow>
                    if func data - mLastTriggerTime ag \<ge> d
                    then bind_res (ag_notificationCallback (ag\<lparr>aggrMtx := False\<rparr>))
                           (\<lambda>(ag2, os). Inr (ag2\<lparr>mLastTriggerTime := func data\<rparr>, os))
                    else Inr (ag\<lparr>aggrMtx := False\<rparr>, [])))
      | TriggerByTime \<Rightarrow> Inr (ag\<lparr>aggrMtx := False\<rparr>, []))"

definition ag_processDataElement ::
  "('a, 's, 'r) Aggregation \<Rightarrow> 'a \<Rightarrow> bool \<Rightarrow> (('a, 's, 'r) Aggregation \<times> 'r event list) res" where
  "ag_processDataElement ag data outdated =
     (if aggrMtx ag then Inl SelfDeadlock
      else bind_res (mIterateFunc ag data (mAggrState ag) outdated) (\<lambda>st.
             let ag1 = ag\<lparr>aggrMtx := True, mAggrState := st\<rparr>
             in if \<not> outdated then ag_trigger ag1 data
                else bind_res (mFinalFunc ag1 (mAggrState ag1))
                       (\<lambda>r. Inr (ag1\<lparr>aggrMtx := False\<rparr>, [Data r True]))))"

fun ag_step :: "(('a, 's, 'r) Aggregation, 'a, 'r) opstep" where
  "ag_step ag (Data data outdated) = ag_processDataElement ag data outdated"
| "ag_step ag (Punct p) = Inr (ag, [Punct p])"

text \<open>
  The loop of the trigger notifier: the list gives the value of the interrupt flag at each
  evaluation of the loop condition; after it the thread is still waiting.
\<close>

fun notifier_loop :: "('s \<Rightarrow> ('s \<times> 'r event list) res) \<Rightarrow> bool list \<Rightarrow> 's \<Rightarrow> ('s \<times> 'r event list) res" where
  "notifier_loop cb [] s = Inr (s, [])"
| "notifier_loop cb (interrupted # is) s =
     (if interrupted then Inr (s, [])
      else bind_res (cb s) (\<lambda>(s1, o1). bind_res (notifier_loop cb is s1) (\<lambda>(s2, o2). Inr (s2, o1 @ o2))))"

lemmas ag_handlers [op_defs] =
  ag_processDataElement_def ag_trigger_def ag_notificationCallback_def ag_produceAggregates_def

section \<open>Grouped aggregation\<close>

text \<open>
  \<open>gaState\<close> is the state that the default constructor of the \<open>AggregateState\<close> template
  parameter makes; the hash table is a map, since no code iterates over it.
\<close>

record ('a, 'k, 's, 'r) GroupedAggregation =
  mAggregateTable :: "'k \<rightharpoonup> 's"
  gaTimestampExtractor :: "('a \<Rightarrow> Timestamp) option"
  mAggrMtx :: bool
  mGroupByFunc :: "'a \<Rightarrow> 'k"
  gaIterateFunc :: "'a \<Rightarrow> 'k \<Rightarrow> 's \<Rightarrow> bool \<Rightarrow> 's res"
  gaFinalFunc :: "'s \<Rightarrow> 'r res"
  gaTriggerInterval :: IntervalType
  gaNotifier :: "uint option"
  gaLastTriggerTime :: Timestamp
  gaTriggerType :: AggregationTriggerType
  gaCounter :: uint
  mFactory :: "'s option"
  mFactoryFunc :: "('s \<Rightarrow> 's) option"
  gaState :: 's

definition GroupedAggregation_new where
  "GroupedAggregation_new state groupby_fun final_fun it_fun tType tInterval =
     \<lparr>mAggregateTable = (\<lambda>_. None), gaTimestampExtractor = None, mAggrMtx = False,
      mGroupByFunc = groupby_fun, gaIterateFunc = it_fun, gaFinalFunc = final_fun,
      gaTriggerInterval = IvCount tInterval,
      gaNotifier = (if tInterval > 0 \<and> tType = TriggerByTime then Some tInterval else None),
      gaLastTriggerTime = 0, gaTriggerType = tType, gaCounter = 0, mFactory = None,
      mFactoryFunc = None, gaState = state\<rparr>"

definition GroupedAggregation_factory where
  "GroupedAggregation_factory state factory factory_fun groupby_fun final_fun it_fun tType tInterval =
     (GroupedAggregation_new state groupby_fun final_fun it_fun tType tInterval)
       \<lparr>mFactory := Some factory, mFactoryFunc := Some factory_fun\<rparr>"

text \<open>The constructor with an extractor ignores its trigger type argument.\<close>

definition GroupedAggregation_timestamp where
  "GroupedAggregation_timestamp state groupby_fun final_fun it_fun func (tType :: AggregationTriggerType) tInterval =
     (GroupedAggregation_new state groupby_fun final_fun it_fun TriggerByTimestamp tInterval)
       \<lparr>gaTimestampExtractor := Some func, gaNotifier := None\<rparr>"

definition ga_elementTime where
  "ga_elementTime ga data = (case gaTimestampExtractor ga of Some func \<Rightarrow> func data | None \<Rightarrow> 0)"

definition ga_produceAggregate where
  "ga_produceAggregate ga st outdated = bind_res (gaFinalFunc ga st) (\<lambda>tn. Inr [Data tn outdated])"

definition ga_newState :: "('a, 'k, 's, 'r) GroupedAggregation \<Rightarrow> 's res" where
  "ga_newState ga =
     (case mFactory ga of
        Some f \<Rightarrow> (case mFactoryFunc ga of Some ff \<Rightarrow> Inr (ff f) | None \<Rightarrow> Inl BadFunctionCall)
      | None \<Rightarrow> Inr (gaState ga))"

definition processNewAggregationGroup ::
  "('a, 'k, 'z AggregateStateBase_scheme, 'r) GroupedAggregation \<Rightarrow> 'k \<Rightarrow> 'a \<Rightarrow>
   (('a, 'k, 'z AggregateStateBase_scheme, 'r) GroupedAggregation \<times> 'r event list) res" where
  "processNewAggregationGroup ga grpKey data =
     bind_res (ga_newState ga) (\<lambda>st0.
     bind_res (gaIterateFunc ga data grpKey (setTimestamp (ga_elementTime ga data) st0) False) (\<lambda>st.
       let ga1 = ga\<lparr>mAggregateTable := (mAggregateTable ga)(grpKey \<mapsto> st)\<rparr>
       in if gaTriggerType ga1 = TriggerAll
          then bind_res (ga_produceAggregate ga1 st False) (\<lambda>os. Inr (ga1, os))
          else Inr (ga1, [])))"

text \<open>
  The state pointer is shared with the table, so the table keeps the updated state; the
  group is erased after its result has been published.
\<close>

definition updateAggregationGroup ::
  "('a, 'k, 'z AggregateStateBase_scheme, 'r) GroupedAggregation \<Rightarrow> 'k \<Rightarrow> 'a \<Rightarrow> bool \<Rightarrow>
   (('a, 'k, 'z AggregateStateBase_scheme, 'r) GroupedAggregation \<times> 'r event list) res" where
  "updateAggregationGroup ga grpKey data outdated =
     (case mAggregateTable ga grpKey of
        None \<Rightarrow> Inl EmptyAccess
      | Some st0 \<Rightarrow>
          let st1 = updateCounter (if outdated then - 1 else 1) (setTimestamp (ga_elementTime ga data) st0);
              outdatedAggregate = (getCounter st1 = 0)
          in bind_res (gaIterateFunc ga data grpKey st1 outdated) (\<lambda>st.
             bind_res (if gaTriggerType ga = TriggerAll then ga_produceAggregate ga st outdated else Inr []) (\<lambda>os.
               Inr (ga\<lparr>mAggregateTable := (mAggregateTable ga)
                          (grpKey := (if outdatedAggregate then None else Some st))\<rparr>, os))))"

text \<open>The callback locks the mutex itself.\<close>

definition ga_notificationCallback ::
  "('a, 'k, 's, 'r) GroupedAggregation \<Rightarrow> (('a, 'k, 's, 'r) GroupedAggregation \<times> 'r event list) res" where
  "ga_notificationCallback ga =
     (if mAggrMtx ga then Inl SelfDeadlock else Inr (ga, [Punct (mkPunctuation SlideExpired)]))"

text \<open>The trigger switch at the end of the handler; the scoped lock is still held.\<close>

definition ga_trigger ::
  "('a, 'k, 's, 'r) GroupedAggregation \<Rightarrow> 'a \<Rightarrow> (('a, 'k, 's, 'r) GroupedAggregation \<times> 'r event list) res" where
  "ga_trigger ga data =
     (case gaTriggerType ga of
        TriggerByCount \<Rightarrow>
          (let ga1 = ga\<lparr>gaCounter := gaCounter ga + 1\<rparr>
           in case gaTriggerInterval ga1 of
                IvTime _ \<Rightarrow> Inl BadGet
              | IvCount n \<Rightarrow>
                  if gaCounter ga1 = n
                  then bind_res (ga_notificationCallback ga1) (\<lambda>(ga2, os). Inr (ga2\<lparr>gaCounter := 0\<rparr>, os))
                  else Inr (ga1, []))
      | TriggerByTimestamp \<Rightarrow>
          (case gaTimestampExtractor ga of
             None \<Rightarrow> Inl BadFunctionCall
           | Some func \<Rightarrow>
               (case gaTriggerInterval ga of
                  IvCount _ \<Rightarrow> Inl BadGet
                | IvTime d \<Rightarrow>
                    if func data - gaLastTriggerTime ga \<ge> d
                    then bind_res (ga_notificationCallback ga)
                           (\<lambda>(ga2, os). Inr (ga2\<lparr>gaLastTriggerTime := func data\<rparr>, os))
                    else Inr (ga, [])))
      | _ \<Rightarrow> Inr (ga, []))"

definition ga_processDataElement ::
  "('a, 'k, 'z AggregateStateBase_scheme, 'r) GroupedAggregation \<Rightarrow> 'a \<Rightarrow> bool \<Rightarrow>
   (('a, 'k, 'z AggregateStateBase_scheme, 'r) GroupedAggregation \<times> 'r event list) res" where
  "ga_processDataElement ga data outdated =
     (if mAggrMtx ga then Inl SelfDeadlock
      else let ga0 = ga\<lparr>mAggrMtx := True\<rparr>; grpKey = mGroupByFunc ga0 data
           in bind_res
                (if mAggregateTable ga0 grpKey = None
                 then (if \<not> outdated then processNewAggregationGroup ga0 grpKey data else Inr (ga0, []))
                 else updateAggregationGroup ga0 grpKey data outdated) (\<lambda>(ga1, os1).
              bind_res (ga_trigger ga1 data) (\<lambda>(ga2, os2).
                Inr (ga2\<lparr>mAggrMtx := False\<rparr>, os1 @ os2))))"

fun ga_step :: "(('a, 'k, 'z AggregateStateBase_scheme, 'r) GroupedAggregation, 'a, 'r) opstep" where
  "ga_step ga (Data data outdated) = ga_processDataElement ga data outdated"
| "ga_step ga (Punct p) = (if mAggrMtx ga then Inl SelfDeadlock else Inr (ga, [Punct p]))"

lemmas ga_handlers [op_defs] =
  ga_processDataElement_def ga_trigger_def ga_notificationCallback_def updateAggregationGroup_def
  processNewAggregationGroup_def ga_newState_def ga_produceAggregate_def

section \<open>Aggregation behind a sliding window\<close>

lemma last_n_snoc: "0 < n \<Longrightarrow> last_n n (xs @ [x]) = last_n (n - 1) xs @ [x]"
  by (simp add: last_n_def)

lemma last_n_unfold: "0 < n \<Longrightarrow> n \<le> length xs \<Longrightarrow> last_n n xs = xs ! (length xs - n) # last_n (n - 1) xs"
  by (simp add: last_n_def Cons_nth_drop_Suc [symmetric] Suc_diff_le del: drop_Suc_Cons)

context aggregate_func
begin

definition ag_represents :: "('v \<Rightarrow> 'a) \<Rightarrow> ('v, 's Aggregator1, 'r) Aggregation \<Rightarrow> 'a multiset \<Rightarrow> bool" where
  "ag_represents col ag A \<longleftrightarrow> \<not> aggrMtx ag \<and> mTriggerType ag = TriggerAll \<and>
     mIterateFunc ag = Aggregator1_iterate iterate col \<and> mFinalFunc ag = Aggregator1_finalize val \<and>
     rel (aggr1_1 (mAggrState ag)) A"

lemma ag_represents_new:
  "ag_represents col (Aggregation_new (Aggregator1_new init) (Aggregator1_finalize val)
     (Aggregator1_iterate iterate col) TriggerAll n) {#}"
  by (simp add: ag_represents_def Aggregation_new_def Aggregator1_new_def rel_init)

lemma ag_step_new:
  assumes r: "ag_represents col ag A" and "room A"
  shows "\<exists>ag'. ag_step ag (Data x False) = Inr (ag', [Data (spec (add_mset (col x) A)) False]) \<and>
           ag_represents col ag' (add_mset (col x) A)"
proof -
  obtain f where f: "iterate (aggr1_1 (mAggrState ag)) (col x) False = Inr f" "rel f (add_mset (col x) A)"
    using r rel_new [OF _ assms(2)] unfolding ag_represents_def by blast
  moreover have "val f = Inr (spec (add_mset (col x) A))" using rel_val [OF f(2)] by simp
  ultimately show ?thesis using r
    by (simp add: op_defs ag_represents_def Aggregator1_iterate_def Aggregator1_finalize_def)
qed

lemma ag_step_old:
  assumes r: "ag_represents col ag A" and x: "col x \<in># A" and ne: "A - {#col x#} \<noteq> {#}"
  shows "\<exists>ag'. ag_step ag (Data x True) = Inr (ag', [Data (spec (A - {#col x#})) True]) \<and>
           ag_represents col ag' (A - {#col x#})"
proof -
  obtain f where f: "iterate (aggr1_1 (mAggrState ag)) (col x) True = Inr f" "rel f (A - {#col x#})"
    using r rel_old [OF _ x] unfolding ag_represents_def by blast
  moreover have "val f = Inr (spec (A - {#col x#}))" using rel_val [OF f(2) ne] .
  ultimately show ?thesis using r
    by (simp add: op_defs ag_represents_def Aggregator1_iterate_def Aggregator1_finalize_def)
qed

text \<open>The results for the new and for the outdated tuples of a row window of \<open>n\<close> tuples.\<close>

definition window_news :: "('v \<Rightarrow> 'a) \<Rightarrow> nat \<Rightarrow> 'v list \<Rightarrow> 'r list" where
  "window_news col n xs = map (\<lambda>i. spec (mset (map col (last_n n (take (Suc i) xs))))) [0..<length xs]"

definition window_olds :: "('v \<Rightarrow> 'a) \<Rightarrow> nat \<Rightarrow> 'v list \<Rightarrow> 'r list" where
  "window_olds col n xs = map (\<lambda>i. spec (mset (map col (last_n (n - 1) (take i xs))))) [n..<length xs]"

lemma window_news_snoc:
  "window_news col n (xs @ [x]) = window_news col n xs @ [spec (mset (map col (last_n n (xs @ [x]))))]"
  by (simp add: window_news_def)

lemma window_olds_snoc:
  "window_olds col n (xs @ [x]) =
     window_olds col n xs @ (if n \<le> length xs then [spec (mset (map col (last_n (n - 1) xs)))] else [])"
  by (simp add: window_olds_def)

lemma ag_run_window:
  assumes n: "2 \<le> n" and room: "\<And>A. size A < n \<Longrightarrow> room A" and r: "ag_represents col ag {#}"
  shows "\<exists>ag' os. run ag_step ag (slide_rows_out n xs) = Inr (ag', os) \<and>
    ag_represents col ag' (mset (map col (last_n n xs))) \<and>
    news os = window_news col n xs \<and> olds os = window_olds col n xs"
proof (induction xs rule: rev_induct)
  case Nil
  then show ?case using r by (simp add: slide_rows_out_def last_n_def window_news_def window_olds_def)
next
  case (snoc x xs)
  then obtain ag1 o1 where run1: "run ag_step ag (slide_rows_out n xs) = Inr (ag1, o1)"
    and r1: "ag_represents col ag1 (mset (map col (last_n n xs)))"
    and o1: "news o1 = window_news col n xs" "olds o1 = window_olds col n xs" by blast
  let ?A = "mset (map col (last_n (n - 1) xs))"
  have sA: "size ?A < n" using n by (simp add: last_n_length)
  have B: "last_n n (xs @ [x]) = last_n (n - 1) xs @ [x]" using n by (simp add: last_n_snoc)
  show ?case
  proof (cases "n \<le> length xs")
    case True
    let ?y = "xs ! (length xs - n)"
    have A: "mset (map col (last_n n xs)) = add_mset (col ?y) ?A" using last_n_unfold [of n xs] n True by simp
    have "?A \<noteq> {#}" using n True by (simp add: last_n_def)
    then obtain ag2 where s2: "ag_step ag1 (Data ?y True) = Inr (ag2, [Data (spec ?A) True])" and r2: "ag_represents col ag2 ?A"
      using ag_step_old [OF r1 [unfolded A], of ?y] by auto
    obtain ag3 where "ag_step ag2 (Data x False) = Inr (ag3, [Data (spec (add_mset (col x) ?A)) False])" "ag_represents col ag3 (add_mset (col x) ?A)"
      using ag_step_new [OF r2 room [OF sA]] by blast
    moreover have "length xs - n < length xs" using n True by simp
    ultimately show ?thesis using run1 s2 o1 True
      by (simp add: slide_rows_out_snoc run_append window_news_snoc window_olds_snoc B nth_append)
  next
    case False
    then have e: "last_n n xs = last_n (n - 1) xs" by (simp add: last_n_def)
    obtain ag3 where "ag_step ag1 (Data x False) = Inr (ag3, [Data (spec (add_mset (col x) ?A)) False])" "ag_represents col ag3 (add_mset (col x) ?A)"
      using ag_step_new [OF r1 [unfolded e] room [OF sA]] by blast
    then show ?thesis using run1 o1 False
      by (simp add: slide_rows_out_snoc run_append window_news_snoc window_olds_snoc B)
  qed
qed

end

section \<open>Aggregation triggered by count\<close>

text \<open>
  The results of a trigger after every \<open>n\<close> tuples: \<open>st\<close> is the aggregate state after a
  list of tuples.
\<close>

definition count_results :: "('s \<Rightarrow> 'r) \<Rightarrow> ('a list \<Rightarrow> 's) \<Rightarrow> nat \<Rightarrow> 'a list \<Rightarrow> 'r event list" where
  "count_results fin st n xs =
     concat (map (\<lambda>k. [Data (fin (st (take (Suc k * n) xs))) False, Punct (mkPunctuation SlideExpired)])
              [0..<length xs div n])"

lemma count_results_snoc:
  assumes "0 < n"
  shows "count_results fin st n (xs @ [x]) = count_results fin st n xs @
    (if Suc (length xs) mod n = 0
     then [Data (fin (st (xs @ [x]))) False, Punct (mkPunctuation SlideExpired)] else [])"
proof -
  have eq: "concat (map (\<lambda>k. [Data (fin (st (take (Suc k * n) (xs @ [x])))) False, Punct (mkPunctuation SlideExpired)]) [0..<length xs div n]) =
      count_results fin st n xs"
    unfolding count_results_def
  proof (rule arg_cong [where f = concat], rule map_cong [OF refl])
    fix k assume "k \<in> set [0..<length xs div n]"
    then have "Suc k * n \<le> length xs div n * n" by (intro mult_le_mono1) simp
    then have "Suc k * n \<le> length xs" using div_times_less_eq_dividend le_trans by blast
    then show "[Data (fin (st (take (Suc k * n) (xs @ [x])))) False, Punct (mkPunctuation SlideExpired)] =
        [Data (fin (st (take (Suc k * n) xs))) False, Punct (mkPunctuation SlideExpired)]" by simp
  qed
  show ?thesis
  proof (cases "Suc (length xs) mod n = 0")
    case True
    then have d: "Suc (length xs) div n = Suc (length xs div n)" by (simp add: div_Suc)
    have "Suc (length xs div n) * n = Suc (length xs)" using True d by (metis add.right_neutral div_mult_mod_eq)
    then show ?thesis using eq d True unfolding count_results_def [of fin st n "xs @ [x]"] by simp
  next
    case False
    then have "Suc (length xs) div n = length xs div n" by (simp add: div_Suc)
    then show ?thesis using eq False unfolding count_results_def [of fin st n "xs @ [x]"] by simp
  qed
qed

lemma count_word_step:
  fixes n :: uint
  assumes "0 < n"
  shows "of_nat (l mod unat n) + 1 = n \<longleftrightarrow> Suc l mod unat n = 0"
proof -
  let ?N = "unat n"
  have N: "0 < ?N" using assms by (simp add: unat_gt_0)
  then have lt: "l mod ?N < ?N" by simp
  have "of_nat (l mod ?N) + 1 = (of_nat (Suc (l mod ?N)) :: uint)" by simp
  moreover have "(of_nat (Suc (l mod ?N)) :: uint) = n \<longleftrightarrow> Suc (l mod ?N) = ?N"
  proof -
    have "Suc (l mod ?N) < 2 ^ LENGTH(32)" using lt unsigned_less [where w = n and ?'a = nat] by simp
    then have "unat (of_nat (Suc (l mod ?N)) :: uint) = Suc (l mod ?N)" unfolding unat_of_nat by (rule mod_less)
    then show ?thesis by (metis word_unat_eq_iff)
  qed
  moreover have "Suc (l mod ?N) = ?N \<longleftrightarrow> Suc l mod ?N = 0" using N by (simp add: mod_Suc)
  ultimately show ?thesis by (simp add: add.commute)
qed

lemma ag_run_by_count:
  fixes it :: "'a \<Rightarrow> 's \<Rightarrow> bool \<Rightarrow> 's" and fin :: "'s \<Rightarrow> 'r" and s0 :: 's and n :: uint
  assumes n: "0 < n"
  defines "st \<equiv> foldl (\<lambda>s x. it x s False) s0"
  defines "ag \<equiv> Aggregation_new s0 (\<lambda>s. Inr (fin s)) (\<lambda>x s od. Inr (it x s od)) TriggerByCount n"
  shows "run ag_step ag (new_tuples xs) =
    Inr (ag\<lparr>mAggrState := st xs, mCounter := of_nat (length xs mod unat n)\<rparr>, count_results fin st (unat n) xs)"
proof (induction xs rule: rev_induct)
  case Nil
  then show ?case by (simp add: ag_def Aggregation_new_def st_def count_results_def)
next
  case (snoc x xs)
  have N: "0 < unat n" using n by (simp add: unat_gt_0)
  let ?ag = "ag\<lparr>mAggrState := st xs, mCounter := of_nat (length xs mod unat n)\<rparr>"
  let ?r = "[Data (fin (st (xs @ [x]))) False, Punct (mkPunctuation SlideExpired)]"
  have m: "Suc (length xs) mod unat n \<noteq> 0 \<Longrightarrow> Suc (length xs) mod unat n = Suc (length xs mod unat n)"
    by (simp add: mod_Suc split: if_splits)
  have m: "Suc (length xs) mod unat n \<noteq> 0 \<Longrightarrow>
      (of_nat (length xs mod unat n) + 1 :: uint) = of_nat (Suc (length xs) mod unat n)"
    using m by simp
  have "ag_step ?ag (Data x False) =
     Inr (ag\<lparr>mAggrState := st (xs @ [x]), mCounter := of_nat (Suc (length xs) mod unat n)\<rparr>,
          if Suc (length xs) mod unat n = 0 then ?r else [])"
    using m by (simp add: op_defs ag_def Aggregation_new_def Let_def count_word_step [OF n] st_def del: of_nat_Suc)
  then show ?case using snoc.IH by (simp add: run_append count_results_snoc [OF N])
qed

section \<open>Groups\<close>

text \<open>
  Specification: every update publishes the aggregate of its group after the update, with
  the flag of the tuple.
\<close>

fun group_results ::
  "('a \<Rightarrow> 'k) \<Rightarrow> ('a \<Rightarrow> 'v) \<Rightarrow> ('v multiset \<Rightarrow> 'r) \<Rightarrow> ('a \<times> bool) list \<Rightarrow> 'a multiset \<Rightarrow> 'r event list" where
  "group_results key col spec [] A = []"
| "group_results key col spec ((x, od) # us) A =
     (let B = (if od then A - {#x#} else add_mset x A)
      in Data (spec (image_mset col {#y \<in># B. key y = key x#})) od # group_results key col spec us B)"

text \<open>No retraction takes the last tuple of its group.\<close>

fun groups_kept :: "('a \<Rightarrow> 'k) \<Rightarrow> ('a \<times> bool) list \<Rightarrow> 'a multiset \<Rightarrow> bool" where
  "groups_kept key [] A = True"
| "groups_kept key ((x, False) # us) A = groups_kept key us (add_mset x A)"
| "groups_kept key ((x, True) # us) A = ({#y \<in># A - {#x#}. key y = key x#} \<noteq> {#} \<and> groups_kept key us (A - {#x#}))"

lemma filter_diff_single: "x \<in># A \<Longrightarrow> {#y \<in># A - {#x#}. P y#} = {#y \<in># A. P y#} - (if P x then {#x#} else {#})"
  by simp

context aggregate_func
begin

definition group_rel :: "('v \<Rightarrow> 'a) \<Rightarrow> 's Aggregator1 option \<Rightarrow> 'v multiset \<Rightarrow> bool" where
  "group_rel col g G \<longleftrightarrow>
     (case g of None \<Rightarrow> G = {#}
      | Some st \<Rightarrow> G \<noteq> {#} \<and> asCounter st = of_nat (size G) \<and> rel (aggr1_1 st) (image_mset col G))"

definition ga_represents ::
  "('v \<Rightarrow> 'k) \<Rightarrow> ('v \<Rightarrow> 'a) \<Rightarrow> ('v, 'k, 's Aggregator1, 'r) GroupedAggregation \<Rightarrow> 'v multiset \<Rightarrow> bool" where
  "ga_represents key col ga A \<longleftrightarrow> \<not> mAggrMtx ga \<and> gaTriggerType ga = TriggerAll \<and> mFactory ga = None \<and>
     gaState ga = Aggregator1_new init \<and> mGroupByFunc ga = key \<and>
     gaIterateFunc ga = Aggregator1_iterateForKey iterate col \<and> gaFinalFunc ga = Aggregator1_finalize val \<and>
     size A < 2 ^ 32 \<and> (\<forall>k. group_rel col (mAggregateTable ga k) {#y \<in># A. key y = k#})"

lemma ga_represents_new:
  "ga_represents key col (GroupedAggregation_new (Aggregator1_new init) key (Aggregator1_finalize val)
     (Aggregator1_iterateForKey iterate col) TriggerAll n) {#}"
  by (simp add: ga_represents_def GroupedAggregation_new_def group_rel_def)

text \<open>One group: creation, update, and removal with its last tuple.\<close>

lemma group_new:
  assumes "room {#}"
  shows "\<exists>f. iterate init (col x) False = Inr f \<and> val f = Inr (spec {#col x#}) \<and>
     group_rel col (Some \<lparr>mTstmp = t, asCounter = 1, aggr1_1 = f\<rparr>) {#x#}"
  using rel_new [OF rel_init assms(1), of "col x"] by (fastforce simp: group_rel_def dest: rel_val)

lemma group_add:
  assumes g: "group_rel col (Some st) G" and "room (image_mset col G)" and lt: "size (add_mset x G) < 2 ^ 32"
  shows "\<exists>f. iterate (aggr1_1 st) (col x) False = Inr f \<and> val f = Inr (spec (image_mset col (add_mset x G))) \<and>
     asCounter st + 1 \<noteq> 0 \<and> group_rel col (Some (st\<lparr>mTstmp := t, asCounter := asCounter st + 1, aggr1_1 := f\<rparr>)) (add_mset x G)"
proof -
  have r: "rel (aggr1_1 st) (image_mset col G)" and c: "asCounter st = of_nat (size G)" using g by (auto simp: group_rel_def)
  obtain f where f: "iterate (aggr1_1 st) (col x) False = Inr f" "rel f (add_mset (col x) (image_mset col G))"
    using rel_new [OF r assms(2)] by blast
  have "(of_nat (Suc (size G)) :: uint) \<noteq> 0" using count_word_small [of "Suc (size G)"] lt by simp
  then have "asCounter st + 1 \<noteq> 0" using c by (simp add: add.commute)
  then show ?thesis using f rel_val [OF f(2)] c by (simp add: group_rel_def)
qed

lemma group_remove:
  assumes g: "group_rel col (Some st) G" and x: "x \<in># G" and lt: "size G < 2 ^ 32"
    and total: "(\<forall>s. rel s {#} \<longrightarrow> val s = Inr (spec {#})) \<or> G - {#x#} \<noteq> {#}"
  shows "\<exists>f. iterate (aggr1_1 st) (col x) True = Inr f \<and> val f = Inr (spec (image_mset col (G - {#x#}))) \<and>
     group_rel col (if asCounter st - 1 = 0 then None
                    else Some (st\<lparr>mTstmp := t, asCounter := asCounter st - 1, aggr1_1 := f\<rparr>)) (G - {#x#})"
proof -
  have r: "rel (aggr1_1 st) (image_mset col G)" and c: "asCounter st = of_nat (size G)" using g by (auto simp: group_rel_def)
  have "col x \<in># image_mset col G" using x by simp
  then obtain f where f: "iterate (aggr1_1 st) (col x) True = Inr f" "rel f (image_mset col G - {#col x#})"
    using rel_old [OF r] by blast
  have e: "image_mset col G - {#col x#} = image_mset col (G - {#x#})" using x by (simp add: image_mset_Diff)
  have s: "size G = Suc (size (G - {#x#}))" using size_remove [OF x] .
  then have c1: "asCounter st - 1 = of_nat (size (G - {#x#}))" using c by simp
  have "(of_nat (size (G - {#x#})) :: uint) = 0 \<longleftrightarrow> G - {#x#} = {#}"
    using count_word_small [of "size (G - {#x#})"] lt s by (metis Suc_lessD of_nat_0 size_eq_0_iff_empty)
  moreover have "val f = Inr (spec (image_mset col (G - {#x#})))"
    using f(2) total rel_val [OF f(2)] unfolding e by (cases "G - {#x#} = {#}") auto
  ultimately show ?thesis using f c1 unfolding e by (simp add: group_rel_def)
qed

end

context aggregate_func
begin

text \<open>A new table entry for the group of the tuple represents the updated multiset.\<close>

lemma ga_represents_update:
  assumes r: "ga_represents key col ga A" and g: "group_rel col e {#y \<in># B. key y = key x#}"
    and other: "\<And>k. k \<noteq> key x \<Longrightarrow> {#y \<in># B. key y = k#} = {#y \<in># A. key y = k#}" and "size B < 2 ^ 32"
  shows "ga_represents key col (ga\<lparr>mAggregateTable := (mAggregateTable ga)(key x := e), mAggrMtx := False\<rparr>) B"
  using assms unfolding ga_represents_def by (auto simp: fun_upd_def)

lemma ga_step_new:
  fixes x :: 'v
  assumes r: "ga_represents key col ga A" and lt: "cnt_room A" and room: "\<And>A. cnt_room A \<Longrightarrow> room A"
  defines "B \<equiv> add_mset x A"
  shows "\<exists>ga'. ga_step ga (Data x False) = Inr (ga', [Data (spec (image_mset col {#y \<in># B. key y = key x#})) False]) \<and>
     ga_represents key col ga' B"
proof -
  let ?k = "key x" and ?G = "{#y \<in># A. key y = key x#}"
  note fields = r [unfolded ga_represents_def]
  have g: "group_rel col (mAggregateTable ga ?k) ?G" using fields by blast
  have lts: "cnt_room ?G" using le_less_trans [OF size_filter_mset_lesseq [of "\<lambda>y. key y = key x" A], of "2 ^ 32 - 1"] lt by simp
  have BG: "{#y \<in># B. key y = key x#} = add_mset x ?G" by (simp add: B_def)
  have upd: "ga_represents key col (ga\<lparr>mAggregateTable := (mAggregateTable ga)(?k := e), mAggrMtx := False\<rparr>) B"
    if "group_rel col e (add_mset x ?G)" for e
    using ga_represents_update [OF r that [folded BG]] lt by (simp add: B_def)
  show ?thesis
  proof (cases "mAggregateTable ga ?k")
    case None
    then have G: "?G = {#}" using g by (simp add: group_rel_def)
    have "room {#}" by (rule room) simp
    from group_new [OF this, of col x "Some (ga_elementTime (ga\<lparr>mAggrMtx := True\<rparr>) x)"]
    obtain f where f: "iterate init (col x) False = Inr f" "val f = Inr (spec {#col x#})"
      "group_rel col (Some \<lparr>mTstmp = Some (ga_elementTime (ga\<lparr>mAggrMtx := True\<rparr>) x), asCounter = 1, aggr1_1 = f\<rparr>) (add_mset x ?G)"
      unfolding G by blast
    show ?thesis using upd [OF f(3)] f(1,2) fields None unfolding BG G
      by (simp add: op_defs Let_def Aggregator1_iterateForKey_def Aggregator1_iterate_def Aggregator1_finalize_def
          Aggregator1_new_def setTimestamp_def)
  next
    case (Some st)
    have "cnt_room (image_mset col ?G)" using lts by simp
    from group_add [OF g [unfolded Some] room [OF this], of x "Some (ga_elementTime (ga\<lparr>mAggrMtx := True\<rparr>) x)"] lts
    obtain f where f: "iterate (aggr1_1 st) (col x) False = Inr f" "val f = Inr (spec (image_mset col (add_mset x ?G)))"
      "asCounter st + 1 \<noteq> 0"
      "group_rel col (Some (st\<lparr>mTstmp := Some (ga_elementTime (ga\<lparr>mAggrMtx := True\<rparr>) x), asCounter := asCounter st + 1, aggr1_1 := f\<rparr>)) (add_mset x ?G)"
      by auto
    show ?thesis using upd [OF f(4)] f(1-3) fields Some unfolding BG
      by (simp add: op_defs Let_def Aggregator1_iterateForKey_def Aggregator1_iterate_def Aggregator1_finalize_def
          setTimestamp_def updateCounter_def getCounter_def signed_eq_0_iff)
  qed
qed

lemma ga_step_old:
  assumes r: "ga_represents key col ga A" and x: "x \<in># A"
    and total: "(\<forall>s. rel s {#} \<longrightarrow> val s = Inr (spec {#})) \<or> {#y \<in># A - {#x#}. key y = key x#} \<noteq> {#}"
  defines "B \<equiv> A - {#x#}"
  shows "\<exists>ga'. ga_step ga (Data x True) = Inr (ga', [Data (spec (image_mset col {#y \<in># B. key y = key x#})) True]) \<and>
     ga_represents key col ga' B"
proof -
  let ?k = "key x" and ?G = "{#y \<in># A. key y = key x#}" and ?t = "Some (ga_elementTime (ga\<lparr>mAggrMtx := True\<rparr>) x)"
  note fields = r [unfolded ga_represents_def]
  have g: "group_rel col (mAggregateTable ga ?k) ?G" using fields by blast
  have BG: "{#y \<in># B. key y = key x#} = ?G - {#x#}" using x by (simp add: B_def)
  have xG: "x \<in># ?G" using x by simp
  then obtain st where st: "mAggregateTable ga ?k = Some st" using g by (cases "mAggregateTable ga ?k") (auto simp: group_rel_def)
  have "size ?G < 2 ^ 32" using fields by (blast intro: le_less_trans [OF size_filter_mset_lesseq])
  from group_remove [OF g [unfolded st] xG this total [folded B_def, unfolded BG], of ?t]
  obtain f where f: "iterate (aggr1_1 st) (col x) True = Inr f" "val f = Inr (spec (image_mset col (?G - {#x#})))"
    "group_rel col (if asCounter st - 1 = 0 then None
       else Some (st\<lparr>mTstmp := ?t, asCounter := asCounter st - 1, aggr1_1 := f\<rparr>)) (?G - {#x#})"
    by blast
  have "size B < 2 ^ 32" using fields unfolding B_def by (blast intro: le_less_trans [OF size_mset_mono [OF diff_subset_eq_self]])
  then have "ga_represents key col (ga\<lparr>mAggregateTable := (mAggregateTable ga)(?k := (if asCounter st - 1 = 0 then None
       else Some (st\<lparr>mTstmp := ?t, asCounter := asCounter st - 1, aggr1_1 := f\<rparr>))), mAggrMtx := False\<rparr>) B"
    using ga_represents_update [OF r f(3) [folded BG]] x by (simp add: B_def)
  then show ?thesis using f(1,2) fields st unfolding BG
    by (simp add: op_defs Let_def Aggregator1_iterateForKey_def Aggregator1_iterate_def Aggregator1_finalize_def
        setTimestamp_def updateCounter_def getCounter_def signed_eq_0_iff)
qed

lemma ga_run:
  assumes room: "\<And>A. cnt_room A \<Longrightarrow> room A" 
  shows "ga_represents key col ga A \<Longrightarrow> present cnt_room us A = Some B \<Longrightarrow>
    (\<forall>s. rel s {#} \<longrightarrow> val s = Inr (spec {#})) \<or> groups_kept key us A \<Longrightarrow>
    \<exists>ga'. run ga_step ga (map (\<lambda>(x, od). Data x od) us) = Inr (ga', group_results key col spec us A) \<and>
      ga_represents key col ga' B"
proof (induction us arbitrary: ga A)
  case (Cons u us)
  obtain x od where u: "u = (x, od)" by (cases u)
  let ?C = "if od then A - {#x#} else add_mset x A"
  have p: "present cnt_room us ?C = Some B" using Cons.prems(2) u by (cases od) (auto split: if_splits)
  obtain ga1 where s: "ga_step ga (Data x od) = Inr (ga1, [Data (spec (image_mset col {#y \<in># ?C. key y = key x#})) od])"
    and r1: "ga_represents key col ga1 ?C"
  proof (cases od)
    case True
    then have "x \<in># A" using Cons.prems(2) u by (auto split: if_splits)
    moreover have "(\<forall>s. rel s {#} \<longrightarrow> val s = Inr (spec {#})) \<or> {#y \<in># A - {#x#}. key y = key x#} \<noteq> {#}"
      using Cons.prems(3) True u by auto
    ultimately show thesis using ga_step_old [OF Cons.prems(1), of x] that True by auto
  next
    case False
    then have "cnt_room A" using Cons.prems(2) u by (auto split: if_splits)
    from ga_step_new [OF Cons.prems(1) this room, of x] show thesis using that False by auto
  qed
  have "(\<forall>s. rel s {#} \<longrightarrow> val s = Inr (spec {#})) \<or> groups_kept key us ?C" using Cons.prems(3) u by (cases od) auto
  from Cons.IH [OF r1 p this] s show ?case by (auto simp: u Let_def)
qed simp

end

section \<open>Properties\<close>

text \<open>
  A row-based sliding window connected to an aggregation that publishes for every tuple,
  fed with new tuples.
\<close>

abbreviation windowed_aggregation where
  "windowed_aggregation init it val col w xs \<equiv>
     run (compose_step sw_step ag_step)
       (w, Aggregation_new (Aggregator1_new init) (Aggregator1_finalize val) (Aggregator1_iterate it col) TriggerAll 0)
       (new_tuples xs)"

context aggregate_func
begin

lemma windowed_news:
  assumes "SlidingWindow_rows RowWindow sz None 0 = Inr w" and sz: "2 \<le> unat sz" "sz \<noteq> - 1"
    and room: "\<And>A. cnt_room A \<Longrightarrow> room A"
  shows "\<exists>st os. windowed_aggregation init iterate val col w xs = Inr (st, os) \<and>
     news os = map (\<lambda>i. spec (mset (map col (last_n (unat sz) (take (Suc i) xs))))) [0..<length xs] \<and>
     olds os = map (\<lambda>i. spec (mset (map col (last_n (unat sz - 1) (take i xs))))) [unat sz..<length xs]"
proof -
  have win: "run sw_step w (new_tuples xs) =
      Inr (w\<lparr>mTupleBuf := last_n (unat sz) xs, mCurrSize := of_nat (min (unat sz) (length xs))\<rparr>, slide_rows_out (unat sz) xs)"
    using assms(1) sz(2) by (intro sliding_row_run)
      (auto simp: SlidingWindow_rows_def Window_rows_def sw_setupEviction_def)
  have "room A" if "size A < unat sz" for A :: "'a multiset" using that unat_lt_max [OF sz(2)] by (intro room) simp
  then obtain ag' os where ag: "run ag_step (Aggregation_new (Aggregator1_new init) (Aggregator1_finalize val)
      (Aggregator1_iterate iterate col) TriggerAll 0) (slide_rows_out (unat sz) xs) = Inr (ag', os)"
    and os: "news os = window_news col (unat sz) xs" "olds os = window_olds col (unat sz) xs"
    using ag_run_window [OF sz(1) _ ag_represents_new, of col 0 xs] by fast
  show ?thesis by (rule exI, rule exI, rule conjI [OF run_compose [OF win ag]])
    (simp add: os [unfolded window_news_def window_olds_def])
qed

end

text \<open>
  (C31) Windowed aggregation: behind a row-based sliding window of at least two tuples, the
  aggregation operator publishes for the i-th new tuple exactly the aggregate (sum, average,
  minimum, maximum) of the last \<open>sz\<close> tuples up to it, although it only ever sees the
  insertions and retractions of the window; neither operator fails.
\<close>

theorem windowed_aggregates_correct:
  fixes col :: "'v \<Rightarrow> 'a::linordered_field"
  assumes "SlidingWindow_rows RowWindow sz None 0 = Inr w" and "2 \<le> unat sz" and "sz \<noteq> - 1"
  defines "win \<equiv> \<lambda>xs i. map col (last_n (unat sz) (take (Suc i) xs))"
  shows "(\<exists>st os. windowed_aggregation AggrSum_init AggrSum_iterate AggrSum_value col w xs = Inr (st, os) \<and>
      news os = map (\<lambda>i. sum_list (win xs i)) [0..<length xs]) \<and>
    (\<exists>st os. windowed_aggregation AggrAvg_init AggrAvg_iterate AggrAvg_value col w xs = Inr (st, os) \<and>
      news os = map (\<lambda>i. sum_list (win xs i) / of_nat (length (win xs i))) [0..<length xs]) \<and>
    (\<exists>st os. windowed_aggregation AggrMinMax_init (AggrMinMax_iterate (<)) AggrMinMax_value col w xs = Inr (st, os) \<and>
      news os = map (\<lambda>i. Min (set (win xs i))) [0..<length xs]) \<and>
    (\<exists>st os. windowed_aggregation AggrMinMax_init (AggrMinMax_iterate (>)) AggrMinMax_value col w xs = Inr (st, os) \<and>
      news os = map (\<lambda>i. Max (set (win xs i))) [0..<length xs])"
proof (intro conjI)
  show "\<exists>st os. windowed_aggregation AggrSum_init AggrSum_iterate AggrSum_value col w xs = Inr (st, os) \<and>
      news os = map (\<lambda>i. sum_list (win xs i)) [0..<length xs]"
    using aggr_sum.windowed_news [OF assms(1-3), of col xs] unfolding win_def sum_mset_sum_list by auto
  show "\<exists>st os. windowed_aggregation AggrAvg_init AggrAvg_iterate AggrAvg_value col w xs = Inr (st, os) \<and>
      news os = map (\<lambda>i. sum_list (win xs i) / of_nat (length (win xs i))) [0..<length xs]"
    using aggr_avg.windowed_news [OF assms(1-3), of col xs] unfolding win_def sum_mset_sum_list size_mset by auto
  show "\<exists>st os. windowed_aggregation AggrMinMax_init (AggrMinMax_iterate (<)) AggrMinMax_value col w xs = Inr (st, os) \<and>
      news os = map (\<lambda>i. Min (set (win xs i))) [0..<length xs]"
    using aggr_min.windowed_news [OF assms(1-3), of col xs] unfolding win_def set_mset_mset by auto
  show "\<exists>st os. windowed_aggregation AggrMinMax_init (AggrMinMax_iterate (>)) AggrMinMax_value col w xs = Inr (st, os) \<and>
      news os = map (\<lambda>i. Max (set (win xs i))) [0..<length xs]"
    using aggr_max.windowed_news [OF assms(1-3), of col xs] unfolding win_def set_mset_mset by auto
qed

theorem windowed_aggregates_correct_witness:
  "\<exists>w. SlidingWindow_rows RowWindow 2 None 0 = Inr w \<and>
     (\<exists>st os. windowed_aggregation AggrMinMax_init (AggrMinMax_iterate (<)) AggrMinMax_value id w [3, 1, 4 :: real] = Inr (st, os) \<and>
       news os = [3, 1, 1])"
proof -
  obtain w where w: "SlidingWindow_rows RowWindow (2 :: uint) (None :: (real list \<Rightarrow> real \<Rightarrow> real) option) 0 = Inr w"
    by (simp add: SlidingWindow_rows_def Window_rows_def)
  have "(2 :: uint) \<noteq> - 1" and "2 \<le> unat (2 :: uint)" by simp_all
  from windowed_aggregates_correct [OF w this(2,1), of id "[3, 1, 4]"] w show ?thesis
    by (intro exI [of _ w] conjI) (simp_all add: upt_rec last_n_def)
qed

text \<open>
  Trigger by count: an aggregation with interval \<open>n > 0\<close> publishes after every \<open>n\<close>-th
  new tuple the value of the state after exactly these tuples, followed by a
  \<open>SlideExpired\<close> punctuation, and nothing in between; the counter is the number of tuples
  since the last result and the operator mutex is free again.
\<close>

theorem aggregation_by_count:
  fixes it :: "'a \<Rightarrow> 's \<Rightarrow> bool \<Rightarrow> 's" and fin :: "'s \<Rightarrow> 'r" and s0 :: 's and n :: uint
  assumes "0 < n"
  defines "st \<equiv> foldl (\<lambda>s x. it x s False) s0"
  defines "ag \<equiv> Aggregation_new s0 (\<lambda>s. Inr (fin s)) (\<lambda>x s od. Inr (it x s od)) TriggerByCount n"
  shows "run ag_step ag (new_tuples xs) =
    Inr (ag\<lparr>mAggrState := st xs, mCounter := of_nat (length xs mod unat n)\<rparr>,
         concat (map (\<lambda>k. [Data (fin (st (take (Suc k * unat n) xs))) False, Punct (mkPunctuation SlideExpired)])
                  [0..<length xs div unat n]))"
  unfolding st_def ag_def using ag_run_by_count [OF assms(1)] unfolding count_results_def .

theorem aggregation_by_count_witness:
  "\<exists>ag os. run ag_step (Aggregation_new 0 Inr (\<lambda>x s od. Inr (s + x)) TriggerByCount 2) (new_tuples [1, 2, 3 :: int]) = Inr (ag, os) \<and>
     os = [Data 3 False, Punct (mkPunctuation SlideExpired)] \<and> mCounter ag = 1"
  using aggregation_by_count [where n = 2 and it = "\<lambda>x s od. s + x" and ?s0.0 = 0 and fin = "\<lambda>s. s" and xs = "[1, 2, 3 :: int]"]
  by (simp add: upt_rec)

text \<open>
  A grouped aggregation that publishes for every tuple, fed with insertions and retractions, and its table: an entry
  exactly for the groups with present tuples, its counter the size of the group.
\<close>

abbreviation grouped_aggregation where
  "grouped_aggregation init it val key col us \<equiv>
     run ga_step (GroupedAggregation_new (Aggregator1_new init) key (Aggregator1_finalize val) (Aggregator1_iterateForKey it col) TriggerAll 0)
       (map (\<lambda>(x, od). Data x od) us)"

definition group_entries :: "('v \<Rightarrow> 'k) \<Rightarrow> ('v, 'k, 's Aggregator1, 'r) GroupedAggregation \<Rightarrow> 'v multiset \<Rightarrow> bool" where
  "group_entries key ga B \<longleftrightarrow> (\<forall>k. case mAggregateTable ga k of
     None \<Rightarrow> {#y \<in># B. key y = k#} = {#}
   | Some st \<Rightarrow> {#y \<in># B. key y = k#} \<noteq> {#} \<and> asCounter st = of_nat (size {#y \<in># B. key y = k#}))"

context aggregate_func
begin

lemma grouped_results:
  assumes "\<And>A. cnt_room A \<Longrightarrow> room A" and "present cnt_room us {#} = Some B"
    and "(\<forall>s. rel s {#} \<longrightarrow> val s = Inr (spec {#})) \<or> groups_kept key us {#}"
  shows "\<exists>ga. grouped_aggregation init iterate val key col us = Inr (ga, group_results key col spec us {#}) \<and> group_entries key ga B"
proof -
  obtain ga where r: "grouped_aggregation init iterate val key col us = Inr (ga, group_results key col spec us {#})" "ga_represents key col ga B"
    using ga_run [OF assms(1) ga_represents_new assms(2,3)] by blast
  have "group_rel col (mAggregateTable ga k) {#y \<in># B. key y = k#}" for k using r(2) by (simp add: ga_represents_def)
  then have "group_entries key ga B" unfolding group_entries_def group_rel_def by (metis (mono_tags, lifting) option.case_eq_if)
  then show ?thesis using r(1) by blast
qed

end

lemma empty_counters: "cnt_rel m {#} \<longrightarrow> AggrDCount_value m = Inr 0"
  by (cases m) (auto simp: cnt_rel_def AggrDCount_value_def split: if_splits)

text \<open>
  (C34) Grouped aggregation that publishes for every tuple (\<open>TriggerAll\<close>): for every sequence of insertions and retractions that only
  retracts present tuples, the operator publishes for each tuple the aggregate over exactly the
  present tuples of its group, with the flag of the tuple, and afterwards its table has an entry
  exactly for the groups with present tuples, each with the size of the group. This holds for sum, count and distinct count; for
  average, minimum and maximum if no retraction takes the last tuple of its group, which makes the code evaluate the aggregate of an empty
  group.
\<close>

theorem grouped_aggregation_correct:
  fixes key :: "'v \<Rightarrow> 'k" and col :: "'v \<Rightarrow> 'a::linordered_field"
  assumes "present cnt_room us {#} = Some B"
  shows "(\<exists>ga. grouped_aggregation AggrSum_init AggrSum_iterate AggrSum_value key col us = Inr (ga, group_results key col sum_mset us {#}) \<and>
      group_entries key ga B) \<and>
    (\<exists>ga. grouped_aggregation AggrCount_init AggrCount_iterate AggrCount_value key col us =
      Inr (ga, group_results key col (\<lambda>A. of_nat (size A)) us {#}) \<and> group_entries key ga B) \<and>
    (\<exists>ga. grouped_aggregation AggrDCount_init AggrDCount_iterate AggrDCount_value key col us =
      Inr (ga, group_results key col (\<lambda>A. card (set_mset A)) us {#}) \<and> group_entries key ga B) \<and>
    (groups_kept key us {#} \<longrightarrow>
      (\<exists>ga. grouped_aggregation AggrAvg_init AggrAvg_iterate AggrAvg_value key col us =
        Inr (ga, group_results key col (\<lambda>A. sum_mset A / of_nat (size A)) us {#}) \<and> group_entries key ga B) \<and>
      (\<exists>ga. grouped_aggregation AggrMinMax_init (AggrMinMax_iterate (<)) AggrMinMax_value key col us =
        Inr (ga, group_results key col (\<lambda>A. Min (set_mset A)) us {#}) \<and> group_entries key ga B) \<and>
      (\<exists>ga. grouped_aggregation AggrMinMax_init (AggrMinMax_iterate (>)) AggrMinMax_value key col us =
        Inr (ga, group_results key col (\<lambda>A. Max (set_mset A)) us {#}) \<and> group_entries key ga B))"
proof (intro conjI impI)
  show "\<exists>ga. grouped_aggregation AggrSum_init AggrSum_iterate AggrSum_value key col us = Inr (ga, group_results key col sum_mset us {#}) \<and>
      group_entries key ga B"
    by (rule aggr_sum.grouped_results [OF TrueI assms]) (simp add: AggrSum_value_def)
  show "\<exists>ga. grouped_aggregation AggrCount_init AggrCount_iterate AggrCount_value key col us =
      Inr (ga, group_results key col (\<lambda>A. of_nat (size A)) us {#}) \<and> group_entries key ga B"
    by (rule aggr_count.grouped_results [OF TrueI assms]) (simp add: AggrCount_value_def)
  show "\<exists>ga. grouped_aggregation AggrDCount_init AggrDCount_iterate AggrDCount_value key col us =
      Inr (ga, group_results key col (\<lambda>A. card (set_mset A)) us {#}) \<and> group_entries key ga B"
    by (rule aggr_dcount.grouped_results [OF _ assms]) (simp_all add: empty_counters)
  assume k: "groups_kept key us {#}"
  show "\<exists>ga. grouped_aggregation AggrAvg_init AggrAvg_iterate AggrAvg_value key col us =
        Inr (ga, group_results key col (\<lambda>A. sum_mset A / of_nat (size A)) us {#}) \<and> group_entries key ga B"
    by (rule aggr_avg.grouped_results [OF _ assms]) (simp_all add: k)
  show "\<exists>ga. grouped_aggregation AggrMinMax_init (AggrMinMax_iterate (<)) AggrMinMax_value key col us =
        Inr (ga, group_results key col (\<lambda>A. Min (set_mset A)) us {#}) \<and> group_entries key ga B"
    by (rule aggr_min.grouped_results [OF _ assms]) (simp_all add: k)
  show "\<exists>ga. grouped_aggregation AggrMinMax_init (AggrMinMax_iterate (>)) AggrMinMax_value key col us =
        Inr (ga, group_results key col (\<lambda>A. Max (set_mset A)) us {#}) \<and> group_entries key ga B"
    by (rule aggr_max.grouped_results [OF _ assms]) (simp_all add: k)
qed

theorem grouped_aggregation_correct_witness:
  "\<exists>ga. grouped_aggregation AggrSum_init AggrSum_iterate AggrSum_value fst snd [((''a'', 5), False), ((''b'', 2), False), ((''a'', 5), True)]
      = Inr (ga, [Data 5 False, Data 2 False, Data (0 :: real) True]) \<and> mAggregateTable ga ''a'' = None"
proof -
  let ?us = "[((''a'', 5), False), ((''b'', 2), False), ((''a'', 5 :: real), True)]"
  have "present cnt_room ?us {#} = Some {#(''b'', 2 :: real)#}" by (simp add: add_mset_commute)
  from conjunct1 [OF grouped_aggregation_correct [OF this, of fst snd]]
  obtain ga where r: "grouped_aggregation AggrSum_init AggrSum_iterate AggrSum_value fst snd ?us = Inr (ga, group_results fst snd sum_mset ?us {#})"
    and e: "group_entries fst ga {#(''b'', 2 :: real)#}"
    by blast
  have "mAggregateTable ga ''a'' = None" using e [unfolded group_entries_def, rule_format, of "''a''"] by (cases "mAggregateTable ga ''a''") simp_all
  then show ?thesis using r by (intro exI [of _ ga]) (simp add: Let_def)
qed

lemma ga_count_step:
  fixes it :: "'a \<Rightarrow> 'k \<Rightarrow> 'z AggregateStateBase_scheme \<Rightarrow> bool \<Rightarrow> 'z AggregateStateBase_scheme"
  assumes ga: "\<not> mAggrMtx ga" "gaTriggerType ga = TriggerByCount" "gaTriggerInterval ga = IvCount n" "mFactory ga = None"
    "gaIterateFunc ga = (\<lambda>x k s od. Inr (it x k s od))"
  shows "if gaCounter ga + 1 = n then ga_step ga (Data x od) = Inl SelfDeadlock
    else \<exists>ga'. ga_step ga (Data x od) = Inr (ga', []) \<and> gaCounter ga' = gaCounter ga + 1 \<and> \<not> mAggrMtx ga' \<and>
      gaTriggerType ga' = TriggerByCount \<and> gaTriggerInterval ga' = IvCount n \<and> mFactory ga' = None \<and>
      gaIterateFunc ga' = (\<lambda>x k s od. Inr (it x k s od))"
  using ga by (cases "mAggregateTable ga (mGroupByFunc ga x)") (simp_all add: op_defs Let_def)

lemma ga_count_deadlock:
  fixes it :: "'a \<Rightarrow> 'k \<Rightarrow> 'z AggregateStateBase_scheme \<Rightarrow> bool \<Rightarrow> 'z AggregateStateBase_scheme"
  assumes "\<not> mAggrMtx ga" "gaTriggerType ga = TriggerByCount" "gaTriggerInterval ga = IvCount n" "mFactory ga = None"
    "gaIterateFunc ga = (\<lambda>x k s od. Inr (it x k s od))" and "gaCounter ga = n - of_nat d" and "0 < d" and "d \<le> unat n" and "d \<le> length xs"
  shows "run ga_step ga (new_tuples xs) = Inl SelfDeadlock"
  using assms
proof (induction xs arbitrary: ga d)
  case (Cons x xs)
  note st = ga_count_step [OF Cons.prems(1-5), of x False]
  have c: "gaCounter ga + 1 = n - of_nat (d - 1)" using Cons.prems(6,7) by (simp add: of_nat_diff)
  have "d - 1 < 2 ^ 32" using Cons.prems(8) unsigned_less [where w = n and ?'a = nat] by simp
  then have z: "(of_nat (d - 1) :: uint) = 0 \<longleftrightarrow> d = 1" using count_word_small [of "d - 1"] Cons.prems(7) by auto
  show ?case
  proof (cases "d = 1")
    case True
    then show ?thesis using st c by simp
  next
    case False
    then have ne: "gaCounter ga + 1 \<noteq> n" using c z by simp
    then obtain ga' where g: "ga_step ga (Data x False) = Inr (ga', [])" "gaCounter ga' = gaCounter ga + 1"
      "\<not> mAggrMtx ga'" "gaTriggerType ga' = TriggerByCount" "gaTriggerInterval ga' = IvCount n" "mFactory ga' = None"
      "gaIterateFunc ga' = (\<lambda>x k s od. Inr (it x k s od))" using st [unfolded if_not_P [OF ne]] by blast
    have "run ga_step ga' (new_tuples xs) = Inl SelfDeadlock"
      using False Cons.prems(7,8,9) g(2) c by (intro Cons.IH [OF g(3-7), of "d - 1"]) simp_all
    then show ?thesis using g(1) by simp
  qed
qed simp

text \<open>
  The count and timestamp triggers of the grouped aggregation never produce a result.
  With \<open>TriggerByCount\<close> and interval \<open>n\<close> the \<open>n\<close>-th tuple makes the handler lock the mutex
  it holds, so the operator deadlocks; with the timestamp constructor the interval is stored
  as \<open>unsigned int\<close> and read as \<open>Timestamp\<close>, so the first tuple throws. A grouped minimum
  that publishes for every tuple fails its assertion when the last tuple of a group is
  retracted.
\<close>

theorem grouped_triggers_fail:
  fixes it :: "'a \<Rightarrow> 'k \<Rightarrow> 'z AggregateStateBase_scheme \<Rightarrow> bool \<Rightarrow> 'z AggregateStateBase_scheme"
  assumes "0 < n" and "unat n \<le> length xs"
  shows "run ga_step (GroupedAggregation_new s0 key fin (\<lambda>x k s od. Inr (it x k s od)) TriggerByCount n) (new_tuples xs)
      = Inl SelfDeadlock \<and>
    run ga_step (GroupedAggregation_timestamp s0 key fin (\<lambda>x k s od. Inr (it x k s od)) ts tt n) (new_tuples xs)
      = Inl BadGet \<and>
    run ga_step (GroupedAggregation_new (Aggregator1_new AggrMinMax_init) key (Aggregator1_finalize AggrMinMax_value)
        (Aggregator1_iterateForKey (AggrMinMax_iterate ((<) :: 'v::linorder \<Rightarrow> 'v \<Rightarrow> bool)) col) TriggerAll 0)
      [Data x False, Data x True] = Inl AssertFailed"
proof (intro conjI)
  have n: "0 < unat n" using assms(1) by (simp add: unat_gt_0)
  show "run ga_step (GroupedAggregation_new s0 key fin (\<lambda>x k s od. Inr (it x k s od)) TriggerByCount n) (new_tuples xs) = Inl SelfDeadlock"
    using n assms(2) by (intro ga_count_deadlock [where n = n and d = "unat n" and it = it]) (simp_all add: GroupedAggregation_new_def)
  obtain y ys where "xs = y # ys" using assms(2) n by (cases xs) auto
  then show "run ga_step (GroupedAggregation_timestamp s0 key fin (\<lambda>x k s od. Inr (it x k s od)) ts tt n) (new_tuples xs) = Inl BadGet"
    by (simp add: op_defs GroupedAggregation_timestamp_def GroupedAggregation_new_def Let_def)
  show "run ga_step (GroupedAggregation_new (Aggregator1_new AggrMinMax_init) key (Aggregator1_finalize AggrMinMax_value)
        (Aggregator1_iterateForKey (AggrMinMax_iterate ((<) :: 'v \<Rightarrow> 'v \<Rightarrow> bool)) col) TriggerAll 0)
      [Data x False, Data x True] = Inl AssertFailed"
    by (simp add: op_defs GroupedAggregation_new_def Let_def Aggregator1_new_def Aggregator1_finalize_def
        Aggregator1_iterateForKey_def Aggregator1_iterate_def AggrMinMax_init_def AggrMinMax_iterate_def
        AggrMinMax_value_def adjust_counter_def setTimestamp_def updateCounter_def getCounter_def)
qed

theorem grouped_triggers_fail_witness:
  "run ga_step (GroupedAggregation_new (Aggregator1_new 0) id (Aggregator1_finalize Inr)
     (\<lambda>x k s od. Inr (s\<lparr>aggr1_1 := aggr1_1 s + x\<rparr>)) TriggerByCount 2) (new_tuples [1, 2 :: int]) = Inl SelfDeadlock"
proof -
  have a: "0 < (2 :: uint)" "unat (2 :: uint) \<le> length [1, 2 :: int]" by simp_all
  show ?thesis by (rule conjunct1 [OF grouped_triggers_fail [OF a]])
qed

end
