(* ===== verification/Pipe_Builder.thy ===== *)
theory Pipe_Builder
  imports Aggr_Ops
begin

text \<open>
  The construction of a query (\<open>dsl/Pipe.hpp\<close>, \<open>dsl/Dataflow.cpp\<close>): every method of a pipe allocates
  operators, connects their channels to the operators at the tail of the pipe, appends them
  to the list of publishers of the dataflow and returns a pipe with a new tail. Operators are
  addresses in a heap that keeps their class and element types, so that the dynamic casts
  of the code can fail; the connections are a list of pairs of channels. The element type
  \<open>T\<close> of \<open>Pipe<T>\<close> is a field of the pipe, and the \<open>boost::any\<close> values for extractors keep the
  argument type of the function they hold.
\<close>

section \<open>Element types and operators\<close>

text \<open>
  Attribute types of tuples; a stream element is a pointer to a tuple, its type the list of
  its attribute types. \<open>AUser\<close> stands for the other C++ types.
\<close>

datatype attr = AStringRef | ABuf | ABatch "attr list" | AUser nat

type_synonym elem = "attr list"

abbreviation TStringPtr :: elem where "TStringPtr \<equiv> [AStringRef]"
abbreviation TBufPtr :: elem where "TBufPtr \<equiv> [ABuf]"
abbreviation BatchPtr :: "elem \<Rightarrow> elem" where "BatchPtr T \<equiv> [ABatch T]"

datatype op_kind = KTextFileSource | KSource | KWhere | KMap | KStatefulMap | KNotify | KQueue | KBarrier
  | KBatcher | KUnBatcher | KTupleExtractor | KJsonExtractor | KTuplifier | KSlidingWindow | KTumblingWindow
  | KAggregation AggregationTriggerType bool | KGroupedAggregation | KMatcher | KSHJoin | KScaleJoin nat nat
  | KToTable | KToTxTable | KPartitionBy | KMerge | KConsoleWriter | KFileWriter

text \<open>\<open>opName()\<close> of the classes; a class that does not override it has the name of the base class.\<close>

fun opName :: "op_kind \<Rightarrow> string" where
  "opName KTextFileSource = ''TextFileSource''"
| "opName KWhere = ''Where''"
| "opName KMap = ''Map''"
| "opName KStatefulMap = ''StatefulMap''"
| "opName KNotify = ''Notify''"
| "opName KBarrier = ''Barrier''"
| "opName KBatcher = ''Batcher''"
| "opName KUnBatcher = ''UnBatcher''"
| "opName KTupleExtractor = ''TupleExtractor''"
| "opName (KAggregation _ _) = ''Aggregation''"
| "opName KSHJoin = ''SHJoin''"
| "opName KToTable = ''ToTable''"
| "opName KToTxTable = ''ToTxTable''"
| "opName KPartitionBy = ''PartitionBy''"
| "opName KMerge = ''Merge''"
| "opName KConsoleWriter = ''ConsoleWriter''"
| "opName _ = ''BaseOp''"

text \<open>
  An operator: its class, the element types of its inputs (one, or left and right), the
  element type it publishes (none for a sink), and for \<open>PartitionBy\<close> the number of partitions
  and the ids in its partition table.
\<close>

record Op =
  kind :: op_kind
  inTypes :: "elem list"
  outType :: "elem option"
  mNumPartitions :: nat
  mPartitions :: "nat list"

datatype port = OutData nat | OutPunct nat | PartData nat nat | PartPunct nat nat
  | InData nat | InPunct nat | InLeft nat | InRight nat

record Dataflow =
  heap :: "Op list"
  publishers :: "nat list"
  sinks :: "nat list"
  links :: "(port \<times> port) list"

definition Dataflow_new :: Dataflow where
  "Dataflow_new = \<lparr>heap = [], publishers = [], sinks = [], links = []\<rparr>"

definition new_op :: "op_kind \<Rightarrow> elem list \<Rightarrow> elem option \<Rightarrow> Dataflow \<Rightarrow> Dataflow" where
  "new_op k ins out fl = fl\<lparr>heap := heap fl @ [\<lparr>kind = k, inTypes = ins, outType = out, mNumPartitions = 0, mPartitions = []\<rparr>]\<rparr>"

definition connectChannels :: "port \<Rightarrow> port \<Rightarrow> Dataflow \<Rightarrow> Dataflow" where
  "connectChannels a b fl = fl\<lparr>links := links fl @ [(a, b)]\<rparr>"

definition create_link :: "nat \<Rightarrow> nat \<Rightarrow> Dataflow \<Rightarrow> Dataflow" where
  "create_link p s fl = connectChannels (OutPunct p) (InPunct s) (connectChannels (OutData p) (InData s) fl)"

section \<open>The dataflow\<close>

text \<open>
  Iterators of the list of publishers: the position of an element, which stays valid since
  the list only grows at its end, or the end of the list, which stays the end.
\<close>

type_synonym iter = "nat option"

definition df_addPublisher :: "nat \<Rightarrow> Dataflow \<Rightarrow> Dataflow \<times> iter" where
  "df_addPublisher op fl = (fl\<lparr>publishers := publishers fl @ [op]\<rparr>, Some (length (publishers fl)))"

definition df_addPublisherList :: "nat list \<Rightarrow> Dataflow \<Rightarrow> Dataflow \<times> iter" where
  "df_addPublisherList ops fl =
     (fl\<lparr>publishers := publishers fl @ ops\<rparr>, if ops = [] then None else Some (length (publishers fl)))"

definition df_addSink :: "nat \<Rightarrow> Dataflow \<Rightarrow> Dataflow" where
  "df_addSink op fl = fl\<lparr>sinks := sinks fl @ [op]\<rparr>"

text \<open>
  \<open>Dataflow::getPublishers\<close>: \<open>-num\<close> is computed in \<open>unsigned int\<close>, so the iterator is advanced
  forwards from the end by \<open>2 ^ 32 - num\<close>, which is undefined unless \<open>num\<close> is zero.
\<close>

definition df_getPublishers :: "uint \<Rightarrow> Dataflow \<Rightarrow> iter res" where
  "df_getPublishers num fl = (if - num = 0 then Inr None else Inl OutOfBounds)"

definition deref :: "Dataflow \<Rightarrow> iter \<Rightarrow> nat res" where
  "deref fl it = (case it of None \<Rightarrow> Inl OutOfBounds | Some i \<Rightarrow> Inr (publishers fl ! i))"

definition next_iter :: "Dataflow \<Rightarrow> iter \<Rightarrow> iter" where
  "next_iter fl it = (case it of None \<Rightarrow> None | Some i \<Rightarrow> if Suc i < length (publishers fl) then Some (Suc i) else None)"

section \<open>Pipes\<close>

datatype PartitioningState = NoPartitioning | FirstInPartitioning | NextInPartitioning

record Pipe =
  elemType :: elem
  partitioningState :: PartitioningState
  timestampExtractor :: "elem option"
  keyExtractor :: "(elem \<times> attr) option"
  transactionIDExtractor :: "elem option"
  numPartitions :: nat
  tailIter :: iter

definition Pipe_new :: "elem \<Rightarrow> iter \<Rightarrow> Pipe" where
  "Pipe_new T it = \<lparr>elemType = T, partitioningState = NoPartitioning, timestampExtractor = None, keyExtractor = None,
     transactionIDExtractor = None, numPartitions = 0, tailIter = it\<rparr>"

definition getPublisher :: "Dataflow \<Rightarrow> Pipe \<Rightarrow> nat res" where
  "getPublisher fl p = (case tailIter p of None \<Rightarrow> Inl AssertFailed | Some i \<Rightarrow> Inr (publishers fl ! i))"

definition incompatible :: op_error where
  "incompatible = TopologyException ''Incompatible tuple types in Pipe.''"

text \<open>\<open>castOperator\<close> to \<open>DataSource<T>\<close>, to \<open>PartitionBy<T>\<close> and to \<open>Queue<T>\<close>.\<close>

definition castDataSource :: "Dataflow \<Rightarrow> elem \<Rightarrow> nat \<Rightarrow> nat res" where
  "castDataSource fl T op = (if outType (heap fl ! op) = Some T then Inr op else Inl incompatible)"

definition castPartitionBy :: "Dataflow \<Rightarrow> elem \<Rightarrow> nat \<Rightarrow> nat res" where
  "castPartitionBy fl T op =
     (if outType (heap fl ! op) = Some T \<and> kind (heap fl ! op) = KPartitionBy then Inr op else Inl incompatible)"

definition castQueue :: "Dataflow \<Rightarrow> elem \<Rightarrow> nat \<Rightarrow> nat res" where
  "castQueue fl T op =
     (if outType (heap fl ! op) = Some T \<and> kind (heap fl ! op) = KQueue then Inr op else Inl incompatible)"

text \<open>\<open>Pipe::addPublisher\<close>.\<close>

definition addPublisher :: "elem \<Rightarrow> nat \<Rightarrow> Pipe \<Rightarrow> Dataflow \<Rightarrow> (Dataflow \<times> iter) res" where
  "addPublisher T op p fl =
     bind_res (getPublisher fl p) (\<lambda>q. bind_res (castDataSource fl T q) (\<lambda>q.
       Inr (df_addPublisher op (create_link q op fl))))"

text \<open>
  \<open>PartitionBy::connectChannelsForPartition\<close>: the partition gets a queue that is connected to
  the given channels; \<open>insert\<close> keeps an entry that exists, and then the new queue and its
  connections are gone at the end of the function.
\<close>

definition connectChannelsForPartition :: "nat \<Rightarrow> nat \<Rightarrow> port \<Rightarrow> port \<Rightarrow> Dataflow \<Rightarrow> Dataflow res" where
  "connectChannelsForPartition part i dataChannel punctuationChannel fl =
     (if i < mNumPartitions (heap fl ! part)
      then if i \<in> set (mPartitions (heap fl ! part)) then Inr fl
        else Inr (connectChannels (PartPunct part i) punctuationChannel (connectChannels (PartData part i) dataChannel
               (fl\<lparr>heap := (heap fl)[part := (heap fl ! part)\<lparr>mPartitions := mPartitions (heap fl ! part) @ [i]\<rparr>]\<rparr>)))
      else Inl AssertFailed)"

fun link_first :: "nat \<Rightarrow> nat \<Rightarrow> nat list \<Rightarrow> Dataflow \<Rightarrow> Dataflow res" where
  "link_first part i [] fl = Inr fl"
| "link_first part i (op # ops) fl =
     bind_res (connectChannelsForPartition part i (InData op) (InPunct op) fl) (link_first part (Suc i) ops)"

fun link_next :: "elem \<Rightarrow> iter \<Rightarrow> nat list \<Rightarrow> Dataflow \<Rightarrow> Dataflow res" where
  "link_next T it [] fl = Inr fl"
| "link_next T it (op # ops) fl =
     (case it of None \<Rightarrow> Inr fl
      | Some i \<Rightarrow> bind_res (castDataSource fl T (publishers fl ! i)) (\<lambda>q.
          link_next T (next_iter fl it) ops (create_link q op fl)))"

text \<open>\<open>addPartitionedPublisher\<close>; it changes the state of the pipe it is called on.\<close>

definition addPartitionedPublisher :: "elem \<Rightarrow> nat list \<Rightarrow> Pipe \<Rightarrow> Dataflow \<Rightarrow> (Dataflow \<times> Pipe \<times> iter) res" where
  "addPartitionedPublisher T ops p fl =
     (case partitioningState p of
        NoPartitioning \<Rightarrow> Inl (TopologyException ''Missing partitionBy operator in topology.'')
      | FirstInPartitioning \<Rightarrow>
          bind_res (getPublisher fl p) (\<lambda>q. bind_res (castPartitionBy fl T q) (\<lambda>part.
          bind_res (link_first part 0 ops fl) (\<lambda>fl1.
            let (fl2, it) = df_addPublisherList ops fl1 in Inr (fl2, p\<lparr>partitioningState := NextInPartitioning\<rparr>, it))))
      | NextInPartitioning \<Rightarrow>
          bind_res (link_next T (tailIter p) ops fl) (\<lambda>fl1.
            let (fl2, it) = df_addPublisherList ops fl1 in Inr (fl2, p, it)))"

section \<open>Methods that append one operator, or one per partition\<close>

type_synonym built = "(Dataflow \<times> Pipe \<times> Pipe) res"

text \<open>
  A method returns the dataflow, the pipe it was called on (whose state it may change) and the
  new pipe.
\<close>

definition new_ops :: "nat \<Rightarrow> op_kind \<Rightarrow> elem list \<Rightarrow> elem option \<Rightarrow> Dataflow \<Rightarrow> Dataflow" where
  "new_ops n k ins out fl = (new_op k ins out ^^ n) fl"

definition add_stage :: "op_kind \<Rightarrow> elem \<Rightarrow> elem \<Rightarrow> Pipe \<Rightarrow> Dataflow \<Rightarrow> built" where
  "add_stage k Tin Tout p fl =
     (if partitioningState p = NoPartitioning
      then bind_res (addPublisher Tin (length (heap fl)) p (new_op k [Tin] (Some Tout) fl)) (\<lambda>(fl1, it).
             Inr (fl1, p, p\<lparr>elemType := Tout, tailIter := it\<rparr>))
      else bind_res (addPartitionedPublisher Tin [length (heap fl)..<length (heap fl) + numPartitions p] p
                       (new_ops (numPartitions p) k [Tin] (Some Tout) fl)) (\<lambda>(fl1, p1, it).
             Inr (fl1, p1, p1\<lparr>elemType := Tout, tailIter := it\<rparr>)))"

definition pipe_where :: "Pipe \<Rightarrow> Dataflow \<Rightarrow> built" where
  "pipe_where p fl = add_stage KWhere (elemType p) (elemType p) p fl"

definition pipe_notify :: "Pipe \<Rightarrow> Dataflow \<Rightarrow> built" where
  "pipe_notify p fl = add_stage KNotify (elemType p) (elemType p) p fl"

definition pipe_queue :: "Pipe \<Rightarrow> Dataflow \<Rightarrow> built" where
  "pipe_queue p fl = add_stage KQueue (elemType p) (elemType p) p fl"

definition pipe_barrier :: "Pipe \<Rightarrow> Dataflow \<Rightarrow> built" where
  "pipe_barrier p fl = add_stage KBarrier (elemType p) (elemType p) p fl"

definition pipe_map :: "elem \<Rightarrow> Pipe \<Rightarrow> Dataflow \<Rightarrow> built" where
  "pipe_map Tout p fl = add_stage KMap (elemType p) Tout p fl"

definition pipe_statefulMap :: "elem \<Rightarrow> Pipe \<Rightarrow> Dataflow \<Rightarrow> built" where
  "pipe_statefulMap Tout p fl = add_stage KStatefulMap (elemType p) Tout p fl"

definition pipe_tuplify :: "elem \<Rightarrow> Pipe \<Rightarrow> Dataflow \<Rightarrow> built" where
  "pipe_tuplify Tout p fl = add_stage KTuplifier (elemType p) Tout p fl"

definition pipe_extract :: "elem \<Rightarrow> Pipe \<Rightarrow> Dataflow \<Rightarrow> built" where
  "pipe_extract Tout p fl = add_stage KTupleExtractor TStringPtr Tout p fl"

definition pipe_extractJson :: "elem \<Rightarrow> Pipe \<Rightarrow> Dataflow \<Rightarrow> built" where
  "pipe_extractJson Tout p fl = add_stage KJsonExtractor TStringPtr Tout p fl"

definition pipe_batch :: "Pipe \<Rightarrow> Dataflow \<Rightarrow> built" where
  "pipe_batch p fl = add_stage KBatcher (elemType p) (BatchPtr (elemType p)) p fl"

definition pipe_unbatch :: "elem \<Rightarrow> Pipe \<Rightarrow> Dataflow \<Rightarrow> built" where
  "pipe_unbatch Tout p fl = add_stage KUnBatcher (BatchPtr Tout) Tout p fl"

text \<open>A range window needs a timestamp extractor for the element type of the pipe.\<close>

definition pipe_window :: "op_kind \<Rightarrow> string \<Rightarrow> WinType \<Rightarrow> Pipe \<Rightarrow> Dataflow \<Rightarrow> built" where
  "pipe_window k msg wt p fl =
     (if wt = RangeWindow \<and> timestampExtractor p \<noteq> Some (elemType p) then Inl (TopologyException msg)
      else add_stage k (elemType p) (elemType p) p fl)"

definition pipe_slidingWindow :: "WinType \<Rightarrow> Pipe \<Rightarrow> Dataflow \<Rightarrow> built" where
  "pipe_slidingWindow wt p fl = pipe_window KSlidingWindow ''No TimestampExtractor defined for slidingWindow.'' wt p fl"

definition pipe_tumblingWindow :: "WinType \<Rightarrow> Pipe \<Rightarrow> Dataflow \<Rightarrow> built" where
  "pipe_tumblingWindow wt p fl = pipe_window KTumblingWindow ''No TimestampExtractor defined for tumblingWindow.'' wt p fl"

text \<open>
  \<open>aggregate\<close>: an extractor that is set overrides the trigger; the flag of the class says whether
  the operator was constructed with the extractor, which only the branch without partitions
  does. The failing cast is not caught.
\<close>

definition pipe_aggregate :: "elem \<Rightarrow> AggregationTriggerType \<Rightarrow> Pipe \<Rightarrow> Dataflow \<Rightarrow> built" where
  "pipe_aggregate Tout tType p fl =
     (let t = (if timestampExtractor p \<noteq> None then TriggerByTimestamp else tType)
      in if partitioningState p = NoPartitioning \<and> t = TriggerByTimestamp
         then if timestampExtractor p = Some (elemType p)
              then add_stage (KAggregation TriggerByTimestamp True) (elemType p) Tout p fl
              else Inl BadAnyCast
         else add_stage (KAggregation t False) (elemType p) Tout p fl)"

definition pipe_aggregate_state :: "elem \<Rightarrow> AggregationTriggerType \<Rightarrow> Pipe \<Rightarrow> Dataflow \<Rightarrow> built" where
  "pipe_aggregate_state Tout tType p fl = add_stage (KAggregation tType False) (elemType p) Tout p fl"

definition pipe_groupBy :: "elem \<Rightarrow> attr \<Rightarrow> Pipe \<Rightarrow> Dataflow \<Rightarrow> built" where
  "pipe_groupBy Tout K p fl =
     (if keyExtractor p = Some (elemType p, K) then add_stage KGroupedAggregation (elemType p) Tout p fl
      else Inl (TopologyException ''No KeyExtractor defined for groupBy.''))"

section \<open>Methods for a single operator\<close>

definition add_single :: "op_kind \<Rightarrow> elem \<Rightarrow> Pipe \<Rightarrow> Dataflow \<Rightarrow> built" where
  "add_single k Tout p fl =
     bind_res (addPublisher (elemType p) (length (heap fl)) p (new_op k [elemType p] (Some Tout) fl)) (\<lambda>(fl1, it).
       Inr (fl1, p, p\<lparr>elemType := Tout, tailIter := it\<rparr>))"

definition pipe_matchByNFA :: "elem \<Rightarrow> Pipe \<Rightarrow> Dataflow \<Rightarrow> built" where
  "pipe_matchByNFA Tout p fl = add_single KMatcher Tout p fl"

definition pipe_matcher :: "elem \<Rightarrow> Pipe \<Rightarrow> Dataflow \<Rightarrow> built" where
  "pipe_matcher Tout p fl = (if partitioningState p = NoPartitioning then add_single KMatcher Tout p fl else Inl AssertFailed)"

definition pipe_toTable :: "attr \<Rightarrow> Pipe \<Rightarrow> Dataflow \<Rightarrow> built" where
  "pipe_toTable K p fl =
     (if partitioningState p \<noteq> NoPartitioning then Inl AssertFailed
      else if keyExtractor p = Some (elemType p, K) then add_single KToTable (elemType p) p fl
      else Inl (TopologyException ''No KeyExtractor defined for toTable.''))"

definition pipe_toTxTable :: "attr \<Rightarrow> Pipe \<Rightarrow> Dataflow \<Rightarrow> built" where
  "pipe_toTxTable K p fl =
     (if partitioningState p \<noteq> NoPartitioning then Inl AssertFailed
      else if keyExtractor p = Some (elemType p, K) \<and> transactionIDExtractor p = Some (elemType p)
      then add_single KToTxTable (elemType p) p fl
      else Inl (TopologyException ''No KeyExtractor or TransactionIDExtractor defined for toTxTable.''))"

definition pipe_updateTable :: "attr \<Rightarrow> Pipe \<Rightarrow> Dataflow \<Rightarrow> built" where
  "pipe_updateTable K p fl =
     (if partitioningState p \<noteq> NoPartitioning then Inl AssertFailed
      else if keyExtractor p = Some (elemType p, K) then pipe_map (elemType p) p fl
      else Inl (TopologyException ''No KeyExtractor defined for updateTable.''))"

text \<open>Sinks are connected to the tail, which stays the tail of the pipe.\<close>

definition add_sink :: "op_kind \<Rightarrow> Pipe \<Rightarrow> Dataflow \<Rightarrow> built" where
  "add_sink k p fl =
     (if partitioningState p \<noteq> NoPartitioning then Inl AssertFailed
      else let op = length (heap fl); fl1 = new_op k [elemType p] None fl
        in bind_res (getPublisher fl1 p) (\<lambda>q. bind_res (castDataSource fl1 (elemType p) q) (\<lambda>q.
             Inr (df_addSink op (create_link q op fl1), p, p))))"

definition pipe_print :: "Pipe \<Rightarrow> Dataflow \<Rightarrow> built" where
  "pipe_print p fl = add_sink KConsoleWriter p fl"

definition pipe_saveToFile :: "Pipe \<Rightarrow> Dataflow \<Rightarrow> built" where
  "pipe_saveToFile p fl = add_sink KFileWriter p fl"

definition pipe_toStream :: "nat \<Rightarrow> Pipe \<Rightarrow> Dataflow \<Rightarrow> built" where
  "pipe_toStream stream p fl =
     (if partitioningState p \<noteq> NoPartitioning then Inl AssertFailed
      else bind_res (castQueue fl (elemType p) stream) (\<lambda>queueOp.
           bind_res (getPublisher fl p) (\<lambda>q. bind_res (castDataSource fl (elemType p) q) (\<lambda>q.
             Inr (create_link q queueOp fl, p, p)))))"

section \<open>Extractors, partitioning and merging\<close>

definition pipe_keyBy :: "attr \<Rightarrow> Pipe \<Rightarrow> Pipe" where
  "pipe_keyBy K p = p\<lparr>keyExtractor := Some (elemType p, K)\<rparr>"

definition pipe_assignTimestamps :: "Pipe \<Rightarrow> Pipe" where
  "pipe_assignTimestamps p = p\<lparr>timestampExtractor := Some (elemType p)\<rparr>"

definition pipe_assignTransactionID :: "Pipe \<Rightarrow> Pipe" where
  "pipe_assignTransactionID p = p\<lparr>transactionIDExtractor := Some (elemType p)\<rparr>"

definition pipe_partitionBy :: "nat \<Rightarrow> Pipe \<Rightarrow> Dataflow \<Rightarrow> built" where
  "pipe_partitionBy n p fl =
     (if partitioningState p \<noteq> NoPartitioning then Inl (TopologyException ''Cannot partition an already partitioned stream.'')
      else let op = length (heap fl);
               fl1 = fl\<lparr>heap := heap fl @ [\<lparr>kind = KPartitionBy, inTypes = [elemType p], outType = Some (elemType p), mNumPartitions = n, mPartitions = []\<rparr>]\<rparr>
        in bind_res (addPublisher (elemType p) op p fl1) (\<lambda>(fl2, it).
             Inr (fl2, p, p\<lparr>partitioningState := FirstInPartitioning, numPartitions := n, tailIter := it\<rparr>)))"

text \<open>The loop of \<open>merge\<close> runs from the tail to the end of the list of publishers.\<close>

fun link_merge :: "elem \<Rightarrow> nat list \<Rightarrow> nat \<Rightarrow> Dataflow \<Rightarrow> Dataflow res" where
  "link_merge T [] op fl = Inr fl"
| "link_merge T (q # qs) op fl = bind_res (castDataSource fl T q) (\<lambda>q. link_merge T qs op (create_link q op fl))"

definition from_iter :: "Dataflow \<Rightarrow> iter \<Rightarrow> nat list" where
  "from_iter fl it = (case it of None \<Rightarrow> [] | Some i \<Rightarrow> drop i (publishers fl))"

definition pipe_merge :: "Pipe \<Rightarrow> Dataflow \<Rightarrow> built" where
  "pipe_merge p fl =
     (if partitioningState p \<noteq> NextInPartitioning then Inl (TopologyException ''Nothing to merge in topology.'')
      else let op = length (heap fl); fl1 = new_op KMerge [elemType p] (Some (elemType p)) fl
        in bind_res (link_merge (elemType p) (from_iter fl1 (tailIter p)) op fl1) (\<lambda>fl2.
             let fl3 = new_op KQueue [elemType p] (Some (elemType p)) (fst (df_addPublisher op fl2));
                 (fl4, it2) = df_addPublisher (Suc op) (create_link op (Suc op) fl3)
             in Inr (fl4, p, p\<lparr>partitioningState := NoPartitioning, numPartitions := 0, tailIter := it2\<rparr>)))"

section \<open>Joins\<close>

definition link_left :: "nat \<Rightarrow> nat \<Rightarrow> Dataflow \<Rightarrow> Dataflow" where
  "link_left q op fl = connectChannels (OutPunct q) (InPunct op) (connectChannels (OutData q) (InLeft op) fl)"

definition link_right :: "nat \<Rightarrow> nat \<Rightarrow> Dataflow \<Rightarrow> Dataflow" where
  "link_right q op fl = connectChannels (OutPunct q) (InPunct op) (connectChannels (OutData q) (InRight op) fl)"

text \<open>
  The right input of the join of partition \<open>i\<close>, with the iterator over the publishers of the
  other pipe. The iterator is dereferenced before it is compared with the end.
\<close>

definition join_right :: "Pipe \<Rightarrow> nat \<Rightarrow> nat \<Rightarrow> iter \<Rightarrow> Dataflow \<Rightarrow> (Dataflow \<times> iter) res" where
  "join_right other i op it fl =
     (if partitioningState other = NoPartitioning
      then bind_res (getPublisher fl other) (\<lambda>q. bind_res (castDataSource fl (elemType other) q) (\<lambda>q.
             Inr (link_right q op fl, it)))
      else bind_res (deref fl it) (\<lambda>x. bind_res (castDataSource fl (elemType other) x) (\<lambda>q.
             if opName (kind (heap fl ! q)) = ''PartitionBy''
             then bind_res (castPartitionBy fl (elemType other) x) (\<lambda>part2.
                    bind_res (connectChannelsForPartition part2 i (InRight op) (InPunct op) fl) (\<lambda>fl1. Inr (fl1, it)))
             else Inr (link_right q op fl, next_iter fl it))))"

fun join_first :: "nat \<Rightarrow> Pipe \<Rightarrow> nat \<Rightarrow> nat list \<Rightarrow> iter \<Rightarrow> Dataflow \<Rightarrow> Dataflow res" where
  "join_first part other i [] it fl = Inr fl"
| "join_first part other i (op # ops) it fl =
     bind_res (connectChannelsForPartition part i (InLeft op) (InPunct op) fl) (\<lambda>fl1.
     bind_res (join_right other i op it fl1) (\<lambda>(fl2, it'). join_first part other (Suc i) ops it' fl2))"

fun join_next :: "elem \<Rightarrow> iter \<Rightarrow> Pipe \<Rightarrow> nat \<Rightarrow> nat list \<Rightarrow> iter \<Rightarrow> Dataflow \<Rightarrow> Dataflow res" where
  "join_next T my other i [] it fl = Inr fl"
| "join_next T my other i (op # ops) it fl =
     (case my of None \<Rightarrow> Inr fl
      | Some j \<Rightarrow>
          bind_res (castDataSource fl T (publishers fl ! j)) (\<lambda>q.
          bind_res (join_right other i op it (link_left q op fl)) (\<lambda>(fl2, it').
            join_next T (next_iter fl2 my) other (Suc i) ops it' fl2)))"

text \<open>One join for a partitioned right side: all its partitions, or all its publishers.\<close>

fun join_parts :: "nat \<Rightarrow> nat list \<Rightarrow> nat \<Rightarrow> Dataflow \<Rightarrow> Dataflow res" where
  "join_parts part2 [] op fl = Inr fl"
| "join_parts part2 (i # is) op fl =
     bind_res (connectChannelsForPartition part2 i (InRight op) (InPunct op) fl) (join_parts part2 is op)"

fun join_publishers :: "elem \<Rightarrow> nat list \<Rightarrow> nat \<Rightarrow> Dataflow \<Rightarrow> Dataflow res" where
  "join_publishers T2 [] op fl = Inr fl"
| "join_publishers T2 (x # xs) op fl =
     bind_res (castDataSource fl T2 x) (\<lambda>q.
       join_publishers T2 xs op (if opName (kind (heap fl ! q)) \<noteq> ''BaseOp'' then link_right q op fl else fl))"

definition join_one :: "Pipe \<Rightarrow> Pipe \<Rightarrow> nat \<Rightarrow> Dataflow \<Rightarrow> Dataflow res" where
  "join_one p other op fl =
     bind_res (getPublisher fl p) (\<lambda>q. bind_res (castDataSource fl (elemType p) q) (\<lambda>q.
     let fl1 = link_left q op fl
     in bind_res (deref fl1 (tailIter other)) (\<lambda>x. bind_res (castDataSource fl1 (elemType other) x) (\<lambda>o2.
          if opName (kind (heap fl1 ! o2)) = ''PartitionBy''
          then bind_res (castPartitionBy fl1 (elemType other) x) (\<lambda>part2. join_parts part2 [0..<numPartitions other] op fl1)
          else join_publishers (elemType other) (from_iter fl1 (tailIter other)) op fl1))))"

definition addJoin :: "nat list \<Rightarrow> Pipe \<Rightarrow> Pipe \<Rightarrow> Dataflow \<Rightarrow> (Dataflow \<times> Pipe \<times> iter) res" where
  "addJoin ops other p fl =
     bind_res (case partitioningState p of
         FirstInPartitioning \<Rightarrow>
           bind_res (getPublisher fl p) (\<lambda>q. bind_res (castPartitionBy fl (elemType p) q) (\<lambda>part.
           bind_res (join_first part other 0 ops (tailIter other) fl) (\<lambda>fl1. Inr (fl1, p\<lparr>partitioningState := NextInPartitioning\<rparr>))))
       | NoPartitioning \<Rightarrow> bind_res (join_one p other (hd ops) fl) (\<lambda>fl1. Inr (fl1, p))
       | NextInPartitioning \<Rightarrow> bind_res (join_next (elemType p) (tailIter p) other 0 ops (tailIter other) fl) (\<lambda>fl1. Inr (fl1, p)))
       (\<lambda>(fl1, p1). let (fl2, it) = df_addPublisherList ops fl1 in Inr (fl2, p1, it))"

text \<open>\<open>join\<close>; the result has the attributes of both sides. Both pipes belong to the same dataflow.\<close>

definition pipe_join :: "attr \<Rightarrow> Pipe \<Rightarrow> Pipe \<Rightarrow> Dataflow \<Rightarrow> built" where
  "pipe_join K other p fl =
     (if keyExtractor p \<noteq> Some (elemType p, K) \<or> keyExtractor other \<noteq> Some (elemType other, K)
      then Inl (TopologyException ''No KeyExtractor defined for join.'')
      else let op = length (heap fl); Tout = elemType p @ elemType other;
               mk = new_op KSHJoin [elemType p, elemType other] (Some Tout);
               result = (\<lambda>(fl1, p1, it). Inr (fl1, p1, p1\<lparr>elemType := Tout, tailIter := it\<rparr>))
        in if partitioningState p = NoPartitioning \<and> partitioningState other = NoPartitioning
           then bind_res (getPublisher fl p) (\<lambda>q. bind_res (castDataSource fl (elemType p) q) (\<lambda>q.
                let fl1 = link_left q op (mk fl)
                in bind_res (getPublisher fl1 other) (\<lambda>q2. bind_res (castDataSource fl1 (elemType other) q2) (\<lambda>q2.
                     let (fl2, it) = df_addPublisher op (link_right q2 op fl1) in result (fl2, p, it)))))
           else if partitioningState p = NoPartitioning
           then bind_res (addJoin [op] other p (mk fl)) result
           else bind_res (addJoin [op..<op + numPartitions p] other p ((mk ^^ numPartitions p) fl)) result)"

text \<open>
  \<open>scaleJoin\<close>: each of the \<open>n\<close> instances gets a queue for its left input; all publish into one
  queue. The operators of one round are allocated in this order: queue, join.
\<close>

fun scale_links :: "nat \<Rightarrow> nat \<Rightarrow> nat \<Rightarrow> nat \<Rightarrow> elem \<Rightarrow> elem \<Rightarrow> nat list \<Rightarrow> Dataflow \<Rightarrow> Dataflow" where
  "scale_links n q q2 combine T T2 [] fl = fl"
| "scale_links n q q2 combine T T2 (i # is) fl =
     (let qu = length (heap fl); sj = Suc qu;
          fl1 = new_op (KScaleJoin i n) [T, T2] (Some (T @ T2)) (new_op KQueue [T] (Some T) fl)
      in scale_links n q q2 combine T T2 is
           (create_link sj combine (link_right q2 sj (link_left qu sj (create_link q qu fl1)))))"

definition pipe_scaleJoin :: "attr \<Rightarrow> Pipe \<Rightarrow> nat \<Rightarrow> Pipe \<Rightarrow> Dataflow \<Rightarrow> built" where
  "pipe_scaleJoin K other n p fl =
     (if keyExtractor p \<noteq> Some (elemType p, K) \<or> keyExtractor other \<noteq> Some (elemType other, K)
      then Inl (TopologyException ''No KeyExtractor defined for join.'')
      else bind_res (getPublisher fl p) (\<lambda>q. bind_res (castDataSource fl (elemType p) q) (\<lambda>q.
           bind_res (getPublisher fl other) (\<lambda>q2. bind_res (castDataSource fl (elemType other) q2) (\<lambda>q2.
             if partitioningState p \<noteq> NoPartitioning \<or> partitioningState other \<noteq> NoPartitioning \<or> n = 0 then Inl AssertFailed
             else let combine = length (heap fl); Tout = elemType p @ elemType other;
                      fl1 = scale_links n q q2 combine (elemType p) (elemType other) [0..<n] (new_op KQueue [Tout] (Some Tout) fl);
                      fl2 = fst (df_addPublisherList (map (\<lambda>i. combine + 1 + 2 * i) [0..<n]) fl1);
                      fl3 = fst (df_addPublisherList (map (\<lambda>i. combine + 2 + 2 * i) [0..<n]) fl2);
                      (fl4, it) = df_addPublisher combine fl3
               in Inr (fl4, p, p\<lparr>elemType := Tout, tailIter := it\<rparr>))))))"

section \<open>Sources of a topology\<close>

definition new_source :: "op_kind \<Rightarrow> elem \<Rightarrow> Dataflow \<Rightarrow> Dataflow \<times> Pipe" where
  "new_source k T fl = (let (fl1, it) = df_addPublisher (length (heap fl)) (new_op k [] (Some T) fl) in (fl1, Pipe_new T it))"

definition newStreamFromFile :: "Dataflow \<Rightarrow> Dataflow \<times> Pipe" where
  "newStreamFromFile fl = new_source KTextFileSource TStringPtr fl"

definition streamFromGenerator :: "elem \<Rightarrow> Dataflow \<Rightarrow> Dataflow \<times> Pipe" where
  "streamFromGenerator T fl = new_source KSource T fl"

definition selectFromTable :: "elem \<Rightarrow> Dataflow \<Rightarrow> Dataflow \<times> Pipe" where
  "selectFromTable T fl = new_source KSource T fl"

definition fromStream :: "elem \<Rightarrow> nat \<Rightarrow> Dataflow \<Rightarrow> (Dataflow \<times> Pipe) res" where
  "fromStream T stream fl =
     (if outType (heap fl ! stream) = Some T \<and> kind (heap fl ! stream) = KQueue
      then let (fl1, it) = df_addPublisher stream fl in Inr (fl1, Pipe_new T it)
      else Inl (TopologyException ''Incompatible tuple type of stream object.''))"

section \<open>Queries as chains of calls\<close>

datatype call = CWhere | CNotify | CQueue | CBarrier | CMap elem | CStatefulMap elem | CTuplify elem
  | CExtract elem | CExtractJson elem | CBatch | CUnbatch elem | CSlidingWindow WinType | CTumblingWindow WinType
  | CAggregate elem AggregationTriggerType | CAggregateState elem AggregationTriggerType | CGroupBy elem attr
  | CMatchByNFA elem | CMatcher elem | CToTable attr | CToTxTable attr | CUpdateTable attr | CPrint | CSaveToFile
  | CKeyBy attr | CAssignTimestamps | CAssignTransactionID | CPartitionBy nat | CMerge

fun exec_call :: "call \<Rightarrow> Pipe \<Rightarrow> Dataflow \<Rightarrow> built" where
  "exec_call CWhere p fl = pipe_where p fl"
| "exec_call CNotify p fl = pipe_notify p fl"
| "exec_call CQueue p fl = pipe_queue p fl"
| "exec_call CBarrier p fl = pipe_barrier p fl"
| "exec_call (CMap T) p fl = pipe_map T p fl"
| "exec_call (CStatefulMap T) p fl = pipe_statefulMap T p fl"
| "exec_call (CTuplify T) p fl = pipe_tuplify T p fl"
| "exec_call (CExtract T) p fl = pipe_extract T p fl"
| "exec_call (CExtractJson T) p fl = pipe_extractJson T p fl"
| "exec_call CBatch p fl = pipe_batch p fl"
| "exec_call (CUnbatch T) p fl = pipe_unbatch T p fl"
| "exec_call (CSlidingWindow wt) p fl = pipe_slidingWindow wt p fl"
| "exec_call (CTumblingWindow wt) p fl = pipe_tumblingWindow wt p fl"
| "exec_call (CAggregate T t) p fl = pipe_aggregate T t p fl"
| "exec_call (CAggregateState T t) p fl = pipe_aggregate_state T t p fl"
| "exec_call (CGroupBy T K) p fl = pipe_groupBy T K p fl"
| "exec_call (CMatchByNFA T) p fl = pipe_matchByNFA T p fl"
| "exec_call (CMatcher T) p fl = pipe_matcher T p fl"
| "exec_call (CToTable K) p fl = pipe_toTable K p fl"
| "exec_call (CToTxTable K) p fl = pipe_toTxTable K p fl"
| "exec_call (CUpdateTable K) p fl = pipe_updateTable K p fl"
| "exec_call CPrint p fl = pipe_print p fl"
| "exec_call CSaveToFile p fl = pipe_saveToFile p fl"
| "exec_call (CKeyBy K) p fl = Inr (fl, p, pipe_keyBy K p)"
| "exec_call CAssignTimestamps p fl = Inr (fl, p, pipe_assignTimestamps p)"
| "exec_call CAssignTransactionID p fl = Inr (fl, p, pipe_assignTransactionID p)"
| "exec_call (CPartitionBy n) p fl = pipe_partitionBy n p fl"
| "exec_call CMerge p fl = pipe_merge p fl"

text \<open>The usual form of a query: every method is called on the result of the one before it.\<close>

fun chain :: "call list \<Rightarrow> Pipe \<Rightarrow> Dataflow \<Rightarrow> (Dataflow \<times> Pipe) res" where
  "chain [] p fl = Inr (fl, p)"
| "chain (c # cs) p fl = bind_res (exec_call c p fl) (\<lambda>(fl1, _, p1). chain cs p1 fl1)"

section \<open>Specification: the graph of a query\<close>

text \<open>
  The graph without iterators, casts and partitioning states: the operators that make up the
  tail of the query are given directly, a single one, the partitions of a partition operator
  that are not connected yet, or one operator per partition. \<open>None\<close> is a query that is not well
  formed.
\<close>

datatype tail = Single nat | Split nat nat | Group "nat list"

record Query =
  gops :: "(op_kind \<times> elem list \<times> elem option) list"
  glinks :: "(port \<times> port) list"
  gsinks :: "nat list"
  gtail :: tail
  gtype :: elem
  gts :: "elem option"
  gkey :: "(elem \<times> attr) option"
  gtx :: "elem option"

definition data_punct :: "nat \<Rightarrow> nat \<Rightarrow> (port \<times> port) list" where
  "data_punct q op = [(OutData q, InData op), (OutPunct q, InPunct op)]"

definition part_punct :: "nat \<Rightarrow> nat \<Rightarrow> nat \<Rightarrow> (port \<times> port) list" where
  "part_punct part i op = [(PartData part i, InData op), (PartPunct part i, InPunct op)]"

fun tail_width :: "tail \<Rightarrow> nat" where
  "tail_width (Single q) = 1"
| "tail_width (Split part n) = n"
| "tail_width (Group qs) = length qs"

text \<open>The new operators \<open>ops\<close> behind a tail: each is connected to its counterpart.\<close>

fun stage_links :: "tail \<Rightarrow> nat list \<Rightarrow> (port \<times> port) list" where
  "stage_links (Single q) ops = concat (map (data_punct q) ops)"
| "stage_links (Split part n) ops = concat (map (\<lambda>(i, op). part_punct part i op) (zip [0..<n] ops))"
| "stage_links (Group qs) ops = concat (map (\<lambda>(q, op). data_punct q op) (zip qs ops))"

definition is_single :: "Query \<Rightarrow> bool" where
  "is_single G \<longleftrightarrow> (\<exists>q. gtail G = Single q)"

definition spec_stage :: "op_kind \<Rightarrow> elem \<Rightarrow> elem \<Rightarrow> Query \<Rightarrow> Query option" where
  "spec_stage k Tin Tout G =
     (if gtype G = Tin
      then let w = tail_width (gtail G); ops = [length (gops G)..<length (gops G) + w]
        in Some (G\<lparr>gops := gops G @ replicate w (k, [Tin], Some Tout), glinks := glinks G @ stage_links (gtail G) ops,
             gtail := (if is_single G then Single (hd ops) else Group ops), gtype := Tout\<rparr>)
      else None)"

definition spec_sink :: "op_kind \<Rightarrow> Query \<Rightarrow> Query option" where
  "spec_sink k G =
     (case gtail G of Single q \<Rightarrow>
        Some (G\<lparr>gops := gops G @ [(k, [gtype G], None)], glinks := glinks G @ data_punct q (length (gops G)),
          gsinks := gsinks G @ [length (gops G)]\<rparr>)
      | _ \<Rightarrow> None)"

definition require :: "bool \<Rightarrow> Query option \<Rightarrow> Query option" where
  "require b G = (if b then G else None)"

fun spec_call :: "call \<Rightarrow> Query \<Rightarrow> Query option" where
  "spec_call CWhere G = spec_stage KWhere (gtype G) (gtype G) G"
| "spec_call CNotify G = spec_stage KNotify (gtype G) (gtype G) G"
| "spec_call CQueue G = spec_stage KQueue (gtype G) (gtype G) G"
| "spec_call CBarrier G = spec_stage KBarrier (gtype G) (gtype G) G"
| "spec_call (CMap T) G = spec_stage KMap (gtype G) T G"
| "spec_call (CStatefulMap T) G = spec_stage KStatefulMap (gtype G) T G"
| "spec_call (CTuplify T) G = spec_stage KTuplifier (gtype G) T G"
| "spec_call (CExtract T) G = spec_stage KTupleExtractor TStringPtr T G"
| "spec_call (CExtractJson T) G = spec_stage KJsonExtractor TStringPtr T G"
| "spec_call CBatch G = spec_stage KBatcher (gtype G) (BatchPtr (gtype G)) G"
| "spec_call (CUnbatch T) G = spec_stage KUnBatcher (BatchPtr T) T G"
| "spec_call (CSlidingWindow wt) G =
     require (wt = RangeWindow \<longrightarrow> gts G = Some (gtype G)) (spec_stage KSlidingWindow (gtype G) (gtype G) G)"
| "spec_call (CTumblingWindow wt) G =
     require (wt = RangeWindow \<longrightarrow> gts G = Some (gtype G)) (spec_stage KTumblingWindow (gtype G) (gtype G) G)"
| "spec_call (CAggregate T t) G =
     (if gts G = None \<and> t \<noteq> TriggerByTimestamp then spec_stage (KAggregation t False) (gtype G) T G
      else require (gts G = Some (gtype G) \<and> is_single G) (spec_stage (KAggregation TriggerByTimestamp True) (gtype G) T G))"
| "spec_call (CAggregateState T t) G = require (t \<noteq> TriggerByTimestamp) (spec_stage (KAggregation t False) (gtype G) T G)"
| "spec_call (CGroupBy T K) G = require (gkey G = Some (gtype G, K)) (spec_stage KGroupedAggregation (gtype G) T G)"
| "spec_call (CMatchByNFA T) G = require (is_single G) (spec_stage KMatcher (gtype G) T G)"
| "spec_call (CMatcher T) G = require (is_single G) (spec_stage KMatcher (gtype G) T G)"
| "spec_call (CToTable K) G =
     require (is_single G \<and> gkey G = Some (gtype G, K)) (spec_stage KToTable (gtype G) (gtype G) G)"
| "spec_call (CToTxTable K) G =
     require (is_single G \<and> gkey G = Some (gtype G, K) \<and> gtx G = Some (gtype G)) (spec_stage KToTxTable (gtype G) (gtype G) G)"
| "spec_call (CUpdateTable K) G =
     require (is_single G \<and> gkey G = Some (gtype G, K)) (spec_stage KMap (gtype G) (gtype G) G)"
| "spec_call CPrint G = spec_sink KConsoleWriter G"
| "spec_call CSaveToFile G = spec_sink KFileWriter G"
| "spec_call (CKeyBy K) G = Some (G\<lparr>gkey := Some (gtype G, K)\<rparr>)"
| "spec_call CAssignTimestamps G = Some (G\<lparr>gts := Some (gtype G)\<rparr>)"
| "spec_call CAssignTransactionID G = Some (G\<lparr>gtx := Some (gtype G)\<rparr>)"
| "spec_call (CPartitionBy n) G =
     require (is_single G) (map_option (\<lambda>H. H\<lparr>gtail := Split (length (gops G)) n\<rparr>) (spec_stage KPartitionBy (gtype G) (gtype G) G))"
| "spec_call CMerge G =
     (case gtail G of Group qs \<Rightarrow>
        (let m = length (gops G)
         in Some (G\<lparr>gops := gops G @ [(KMerge, [gtype G], Some (gtype G)), (KQueue, [gtype G], Some (gtype G))],
              glinks := glinks G @ concat (map (\<lambda>q. data_punct q m) qs) @ data_punct m (Suc m), gtail := Single (Suc m)\<rparr>))
      | _ \<Rightarrow> None)"

fun spec_chain :: "call list \<Rightarrow> Query \<Rightarrow> Query option" where
  "spec_chain [] G = Some G"
| "spec_chain (c # cs) G = (case spec_call c G of None \<Rightarrow> None | Some H \<Rightarrow> spec_chain cs H)"

definition Query_new :: "op_kind \<Rightarrow> elem \<Rightarrow> Query" where
  "Query_new k T = \<lparr>gops = [(k, [], Some T)], glinks = [], gsinks = [], gtail = Single 0, gtype = T, gts = None, gkey = None, gtx = None\<rparr>"

section \<open>The construction refines the specification\<close>

definition class_of :: "Op \<Rightarrow> op_kind \<times> elem list \<times> elem option" where
  "class_of x = (kind x, inTypes x, outType x)"

text \<open>The iterator and the partitioning state stand for the tail.\<close>

fun tail_ok :: "Dataflow \<Rightarrow> Pipe \<Rightarrow> tail \<Rightarrow> bool" where
  "tail_ok fl p (Single q) \<longleftrightarrow> partitioningState p = NoPartitioning \<and>
     (\<exists>i. tailIter p = Some i \<and> i < length (publishers fl) \<and> publishers fl ! i = q) \<and>
     q < length (heap fl) \<and> outType (heap fl ! q) = Some (elemType p)"
| "tail_ok fl p (Split part n) \<longleftrightarrow> partitioningState p = FirstInPartitioning \<and> numPartitions p = n \<and>
     (\<exists>i. tailIter p = Some i \<and> i < length (publishers fl) \<and> publishers fl ! i = part) \<and>
     part < length (heap fl) \<and> outType (heap fl ! part) = Some (elemType p) \<and> kind (heap fl ! part) = KPartitionBy \<and>
     mNumPartitions (heap fl ! part) = n \<and> mPartitions (heap fl ! part) = []"
| "tail_ok fl p (Group qs) \<longleftrightarrow> partitioningState p = NextInPartitioning \<and> numPartitions p = length qs \<and>
     from_iter fl (tailIter p) = qs \<and> (\<forall>q\<in>set qs. q < length (heap fl) \<and> outType (heap fl ! q) = Some (elemType p))"

definition pipe_sim :: "Dataflow \<Rightarrow> Pipe \<Rightarrow> Query \<Rightarrow> bool" where
  "pipe_sim fl p G \<longleftrightarrow> map class_of (heap fl) = gops G \<and> links fl = glinks G \<and> sinks fl = gsinks G \<and>
     elemType p = gtype G \<and> timestampExtractor p = gts G \<and> keyExtractor p = gkey G \<and> transactionIDExtractor p = gtx G \<and>
     tail_ok fl p (gtail G)"

abbreviation fresh :: "op_kind \<Rightarrow> elem list \<Rightarrow> elem option \<Rightarrow> Op" where
  "fresh k ins out \<equiv> \<lparr>kind = k, inTypes = ins, outType = out, mNumPartitions = 0, mPartitions = []\<rparr>"

lemma new_ops_heap: "new_ops n k ins out fl = fl\<lparr>heap := heap fl @ replicate n (fresh k ins out)\<rparr>"
  by (induction n) (simp_all add: new_ops_def new_op_def replicate_append_same [symmetric])

lemma create_link_links: "create_link q op fl = fl\<lparr>links := links fl @ data_punct q op\<rparr>"
  by (simp add: create_link_def connectChannels_def data_punct_def)

lemma from_iter_same: "publishers fl' = publishers fl \<Longrightarrow> from_iter fl' it = from_iter fl it"
  by (cases it) (simp_all add: from_iter_def)

lemma from_iter_Cons:
  assumes "from_iter fl it = q # qs"
  obtains i where "it = Some i" "publishers fl ! i = q" "from_iter fl (next_iter fl it) = qs"
proof (cases it)
  case (Some i)
  then have d: "drop i (publishers fl) = q # qs" using assms by (simp add: from_iter_def)
  then have i: "i < length (publishers fl)" by (metis drop_eq_Nil list.discI not_le)
  then have "publishers fl ! i = q" "drop (Suc i) (publishers fl) = qs" using d by (simp_all add: Cons_nth_drop_Suc [symmetric])
  moreover have "from_iter fl (next_iter fl it) = drop (Suc i) (publishers fl)"
    using Some by (simp add: from_iter_def next_iter_def)
  ultimately show ?thesis using that Some by simp
qed (use assms in \<open>simp add: from_iter_def\<close>)

text \<open>The loop that connects each partition to the operator of the same partition.\<close>

lemma link_next_zip:
  assumes "from_iter fl it = qs" "length ops \<le> length qs" "\<forall>q\<in>set qs. outType (heap fl ! q) = Some T"
  shows "link_next T it ops fl = Inr (fl\<lparr>links := links fl @ concat (map (\<lambda>(q, op). data_punct q op) (zip qs ops))\<rparr>)"
  using assms
proof (induction ops arbitrary: it qs fl)
  case (Cons op ops)
  obtain q qs' where qs: "qs = q # qs'" using Cons.prems(2) by (cases qs) auto
  obtain i where i: "it = Some i" "publishers fl ! i = q" "from_iter fl (next_iter fl it) = qs'"
    using Cons.prems(1) qs by (metis from_iter_Cons)
  let ?fl = "create_link q op fl"
  have "from_iter ?fl (next_iter fl it) = qs'" using i(3) from_iter_same [of ?fl fl] by (simp add: create_link_links)
  moreover have "\<forall>q\<in>set qs'. outType (heap ?fl ! q) = Some T" using Cons.prems(3) qs by (simp add: create_link_links)
  ultimately have "link_next T (next_iter fl it) ops ?fl =
      Inr (?fl\<lparr>links := links ?fl @ concat (map (\<lambda>(q, op). data_punct q op) (zip qs' ops))\<rparr>)"
    using Cons.IH [of ?fl "next_iter fl it" qs'] Cons.prems(2) qs by simp
  moreover have "link_next T it (op # ops) fl = link_next T (next_iter fl it) ops ?fl"
    using Cons.prems(3) i(1,2) by (simp add: qs castDataSource_def)
  ultimately show ?case by (simp add: qs create_link_links)
qed simp

text \<open>The loop that connects the first operators behind a partition operator.\<close>

lemma link_first_zip:
  assumes "part < length (heap fl)" "mPartitions (heap fl ! part) = [0..<i]" "i + length ops \<le> mNumPartitions (heap fl ! part)"
  shows "link_first part i ops fl =
    Inr (fl\<lparr>heap := (heap fl)[part := (heap fl ! part)\<lparr>mPartitions := [0..<i + length ops]\<rparr>],
      links := links fl @ concat (map (\<lambda>(j, op). part_punct part j op) (zip [i..<i + length ops] ops))\<rparr>)"
  using assms
proof (induction ops arbitrary: i fl)
  case Nil
  have "(heap fl)[part := (heap fl ! part)\<lparr>mPartitions := [0..<i]\<rparr>] = heap fl"
    using Nil.prems(2) by (simp add: list_update_same_conv Nil.prems(1))
  then show ?case by simp
next
  case (Cons op ops)
  let ?x = "(heap fl ! part)\<lparr>mPartitions := [0..<Suc i]\<rparr>"
  let ?fl = "fl\<lparr>heap := (heap fl)[part := ?x], links := links fl @ part_punct part i op\<rparr>"
  have c: "connectChannelsForPartition part i (InData op) (InPunct op) fl = Inr ?fl"
    using Cons.prems by (simp add: connectChannelsForPartition_def connectChannels_def part_punct_def)
  have "link_first part (Suc i) ops ?fl =
      Inr (?fl\<lparr>heap := (heap ?fl)[part := (heap ?fl ! part)\<lparr>mPartitions := [0..<Suc i + length ops]\<rparr>],
        links := links ?fl @ concat (map (\<lambda>(j, op). part_punct part j op) (zip [Suc i..<Suc i + length ops] ops))\<rparr>)"
    using Cons.prems by (intro Cons.IH) simp_all
  moreover have "[i..<i + length (op # ops)] = i # [Suc i..<Suc i + length ops]" by (simp add: upt_conv_Cons del: upt_Suc)
  ultimately show ?case using c Cons.prems(1) by (simp del: upt_Suc)
qed

lemma class_of_update: "map class_of ((heap fl)[part := (heap fl ! part)\<lparr>mPartitions := xs\<rparr>]) = map class_of (heap fl)"
  by (cases "part < length (heap fl)") (simp_all add: map_update class_of_def list_update_same_conv list_update_beyond)

text \<open>A stage: one operator behind a single tail, one per partition otherwise.\<close>

lemma sim_length: "pipe_sim fl p G \<Longrightarrow> length (gops G) = length (heap fl)"
  by (metis length_map pipe_sim_def)

lemma spec_stageE:
  assumes "spec_stage k Tin Tout G = Some H" "pipe_sim fl p G"
  defines "ops \<equiv> [length (heap fl)..<length (heap fl) + tail_width (gtail G)]"
  shows "gtype G = Tin" and "elemType p = Tin"
    and "H = G\<lparr>gops := gops G @ replicate (tail_width (gtail G)) (k, [Tin], Some Tout), glinks := glinks G @ stage_links (gtail G) ops,
      gtail := (if is_single G then Single (hd ops) else Group ops), gtype := Tout\<rparr>"
  using assms(1) assms(2)[unfolded pipe_sim_def] sim_length [OF assms(2)] by (auto simp: spec_stage_def ops_def Let_def split: if_splits)

lemma new_heap_nth: "q \<in> set [length hs..<length hs + w] \<Longrightarrow> (hs @ replicate w x) ! q = x"
  by (auto simp: nth_append)

lemma group_ok:
  assumes "partitioningState p = NextInPartitioning" "numPartitions p = w" "elemType p = Tout"
    and "tailIter p = (if w = 0 then None else Some (length (publishers fl)))"
    and "\<And>q. q \<in> set [n..<n + w] \<Longrightarrow> q < length (heap fl') \<and> outType (heap fl' ! q) = Some Tout"
    and "publishers fl' = publishers fl @ [n..<n + w]"
  shows "tail_ok fl' p (Group [n..<n + w])"
proof -
  have "from_iter fl' (tailIter p) = [n..<n + w]" using assms(4,6) by (simp add: from_iter_def)
  then show ?thesis using assms(1-3,5) by simp
qed

lemma add_stage_single:
  assumes sim: "pipe_sim fl p G" and sp: "spec_stage k Tin Tout G = Some H" and q: "gtail G = Single q"
  shows "\<exists>fl' p0 p'. add_stage k Tin Tout p fl = Inr (fl', p0, p') \<and> pipe_sim fl' p' H"
proof -
  note e = spec_stageE [OF sp sim]
  let ?n = "length (heap fl)"
  obtain i where i: "partitioningState p = NoPartitioning" "tailIter p = Some i" "i < length (publishers fl)"
    "publishers fl ! i = q" "q < ?n" "outType (heap fl ! q) = Some Tin" using sim e(2) q by (auto simp: pipe_sim_def)
  let ?fl = "fl\<lparr>heap := heap fl @ [fresh k [Tin] (Some Tout)], links := links fl @ data_punct q ?n, publishers := publishers fl @ [?n]\<rparr>"
  let ?p = "p\<lparr>elemType := Tout, tailIter := Some (length (publishers fl))\<rparr>"
  have "add_stage k Tin Tout p fl = Inr (?fl, p, ?p)"
    using i by (simp add: add_stage_def addPublisher_def new_op_def getPublisher_def castDataSource_def nth_append
      df_addPublisher_def create_link_links)
  moreover have "pipe_sim ?fl ?p H" unfolding e(3) using sim i(1) q by (simp add: pipe_sim_def class_of_def is_single_def)
  ultimately show ?thesis by blast
qed

lemma add_stage_split:
  assumes sim: "pipe_sim fl p G" and sp: "spec_stage k Tin Tout G = Some H" and q: "gtail G = Split part w"
  shows "\<exists>fl' p0 p'. add_stage k Tin Tout p fl = Inr (fl', p0, p') \<and> pipe_sim fl' p' H"
proof -
  note e = spec_stageE [OF sp sim]
  let ?n = "length (heap fl)"
  obtain i where i: "partitioningState p = FirstInPartitioning" "numPartitions p = w" "tailIter p = Some i"
    "publishers fl ! i = part" "part < ?n" "outType (heap fl ! part) = Some Tin" "kind (heap fl ! part) = KPartitionBy"
    "mNumPartitions (heap fl ! part) = w" "mPartitions (heap fl ! part) = []" using sim e(2) q by (auto simp: pipe_sim_def)
  let ?ops = "[?n..<?n + w]" and ?h = "heap fl @ replicate w (fresh k [Tin] (Some Tout))"
  let ?L = "links fl @ concat (map (\<lambda>(j, op). part_punct part j op) (zip [0..<w] ?ops))"
  let ?h' = "?h[part := (?h ! part)\<lparr>mPartitions := [0..<w]\<rparr>]"
  let ?fl = "fl\<lparr>heap := ?h', links := ?L, publishers := publishers fl @ ?ops\<rparr>"
  let ?p = "p\<lparr>partitioningState := NextInPartitioning, elemType := Tout, tailIter := if w = 0 then None else Some (length (publishers fl))\<rparr>"
  have "link_first part 0 ?ops (fl\<lparr>heap := ?h\<rparr>) = Inr (fl\<lparr>heap := ?h', links := ?L\<rparr>)"
    using i by (subst link_first_zip) (simp_all add: nth_append)
  then have "add_stage k Tin Tout p fl = Inr (?fl, p\<lparr>partitioningState := NextInPartitioning\<rparr>, ?p)"
    using i by (simp add: add_stage_def new_ops_heap addPartitionedPublisher_def getPublisher_def castPartitionBy_def nth_append
      df_addPublisherList_def)
  moreover have "outType (?h' ! j) = Some Tout" if "j \<in> set ?ops" for j using that i(5) new_heap_nth [OF that] by (auto simp: nth_list_update)
  then have "tail_ok ?fl ?p (Group ?ops)" using i(2) by (intro group_ok) auto
  moreover have "map class_of ?h' = gops G @ replicate w (k, [Tin], Some Tout)"
    using sim class_of_update [of "fl\<lparr>heap := ?h\<rparr>" part "[0..<w]"] by (simp add: pipe_sim_def class_of_def)
  ultimately show ?thesis using sim e(3) q by (fastforce simp: pipe_sim_def is_single_def)
qed

lemma add_stage_group:
  assumes sim: "pipe_sim fl p G" and sp: "spec_stage k Tin Tout G = Some H" and q: "gtail G = Group qs"
  shows "\<exists>fl' p0 p'. add_stage k Tin Tout p fl = Inr (fl', p0, p') \<and> pipe_sim fl' p' H"
proof -
  note e = spec_stageE [OF sp sim]
  let ?n = "length (heap fl)" and ?w = "length qs"
  have i: "partitioningState p = NextInPartitioning" "numPartitions p = ?w" "from_iter fl (tailIter p) = qs"
    "\<forall>q\<in>set qs. q < ?n \<and> outType (heap fl ! q) = Some Tin" using sim e(2) q by (auto simp: pipe_sim_def)
  let ?ops = "[?n..<?n + ?w]" and ?h = "heap fl @ replicate ?w (fresh k [Tin] (Some Tout))"
  let ?L = "links fl @ concat (map (\<lambda>(q, op). data_punct q op) (zip qs ?ops))"
  let ?fl = "fl\<lparr>heap := ?h, links := ?L, publishers := publishers fl @ ?ops\<rparr>"
  let ?p = "p\<lparr>elemType := Tout, tailIter := if ?w = 0 then None else Some (length (publishers fl))\<rparr>"
  have "from_iter (fl\<lparr>heap := ?h\<rparr>) (tailIter p) = qs" using i(3) from_iter_same [of "fl\<lparr>heap := ?h\<rparr>" fl] by simp
  then have "link_next Tin (tailIter p) ?ops (fl\<lparr>heap := ?h\<rparr>) = Inr (fl\<lparr>heap := ?h, links := ?L\<rparr>)"
    using i(4) by (subst link_next_zip) (auto simp: nth_append)
  then have "add_stage k Tin Tout p fl = Inr (?fl, p, ?p)"
    using i by (simp add: add_stage_def new_ops_heap addPartitionedPublisher_def df_addPublisherList_def)
  moreover have "tail_ok ?fl ?p (Group ?ops)" using i(1,2) by (intro group_ok) (auto simp: nth_append)
  moreover have "map class_of ?h = gops G @ replicate ?w (k, [Tin], Some Tout)" using sim by (simp add: pipe_sim_def class_of_def)
  ultimately show ?thesis using sim e(3) q by (fastforce simp: pipe_sim_def is_single_def)
qed

lemma add_stage_refines:
  assumes "pipe_sim fl p G" and "spec_stage k Tin Tout G = Some H"
  shows "\<exists>fl' p0 p'. add_stage k Tin Tout p fl = Inr (fl', p0, p') \<and> pipe_sim fl' p' H"
  using add_stage_single [OF assms] add_stage_split [OF assms] add_stage_group [OF assms] by (cases "gtail G") blast+

lemma sim_single:
  assumes "pipe_sim fl p G" "is_single G"
  obtains q where "gtail G = Single q" "partitioningState p = NoPartitioning" "getPublisher fl p = Inr q" "q < length (heap fl)"
    "outType (heap fl ! q) = Some (elemType p)"
  using assms by (auto simp: pipe_sim_def is_single_def getPublisher_def)

lemma add_single_stage: "partitioningState p = NoPartitioning \<Longrightarrow> add_single k Tout p fl = add_stage k (elemType p) Tout p fl"
  by (simp add: add_single_def add_stage_def)

lemma add_sink_refines:
  assumes sim: "pipe_sim fl p G" and sp: "spec_sink k G = Some H"
  shows "\<exists>fl' p0 p'. add_sink k p fl = Inr (fl', p0, p') \<and> pipe_sim fl' p' H"
proof -
  obtain q where q: "gtail G = Single q" using sp by (auto simp: spec_sink_def split: tail.splits)
  then obtain i where i: "partitioningState p = NoPartitioning" "tailIter p = Some i" "i < length (publishers fl)" "publishers fl ! i = q"
    "q < length (heap fl)" "outType (heap fl ! q) = Some (elemType p)" using sim by (auto simp: pipe_sim_def)
  let ?n = "length (heap fl)"
  let ?fl = "fl\<lparr>heap := heap fl @ [fresh k [elemType p] None], links := links fl @ data_punct q ?n, sinks := sinks fl @ [?n]\<rparr>"
  have "add_sink k p fl = Inr (?fl, p, p)"
    using i by (simp add: add_sink_def new_op_def getPublisher_def castDataSource_def nth_append create_link_links df_addSink_def Let_def)
  moreover have "pipe_sim ?fl p H"
    using sim sp q i sim_length [OF sim] by (auto simp: spec_sink_def pipe_sim_def class_of_def nth_append)
  ultimately show ?thesis by blast
qed

lemma partitionBy_refines:
  assumes sim: "pipe_sim fl p G" and sp: "spec_call (CPartitionBy n) G = Some H"
  shows "\<exists>fl' p0 p'. pipe_partitionBy n p fl = Inr (fl', p0, p') \<and> pipe_sim fl' p' H"
proof -
  obtain q where q: "gtail G = Single q" using sp by (auto simp: require_def is_single_def split: if_splits)
  then obtain i where i: "partitioningState p = NoPartitioning" "tailIter p = Some i" "i < length (publishers fl)" "publishers fl ! i = q"
    "q < length (heap fl)" "outType (heap fl ! q) = Some (elemType p)" using sim by (auto simp: pipe_sim_def)
  let ?n = "length (heap fl)" and ?T = "elemType p"
  let ?x = "\<lparr>kind = KPartitionBy, inTypes = [?T], outType = Some ?T, mNumPartitions = n, mPartitions = []\<rparr>"
  let ?fl = "fl\<lparr>heap := heap fl @ [?x], links := links fl @ data_punct q ?n, publishers := publishers fl @ [?n]\<rparr>"
  let ?p = "p\<lparr>partitioningState := FirstInPartitioning, numPartitions := n, tailIter := Some (length (publishers fl))\<rparr>"
  have "pipe_partitionBy n p fl = Inr (?fl, p, ?p)"
    using i by (simp add: pipe_partitionBy_def addPublisher_def getPublisher_def castDataSource_def nth_append
      df_addPublisher_def create_link_links Let_def)
  moreover have "H = G\<lparr>gops := gops G @ [(KPartitionBy, [?T], Some ?T)], glinks := glinks G @ data_punct q ?n, gtail := Split ?n n\<rparr>"
    using sp q sim sim_length [OF sim] by (auto simp: require_def spec_stage_def is_single_def pipe_sim_def)
  then have "pipe_sim ?fl ?p H" using sim by (simp add: pipe_sim_def class_of_def)
  ultimately show ?thesis by blast
qed

lemma link_merge_all:
  assumes "\<forall>q\<in>set qs. outType (heap fl ! q) = Some T"
  shows "link_merge T qs op fl = Inr (fl\<lparr>links := links fl @ concat (map (\<lambda>q. data_punct q op) qs)\<rparr>)"
  using assms
proof (induction qs arbitrary: fl)
  case (Cons q qs)
  then have "link_merge T (q # qs) op fl = link_merge T qs op (create_link q op fl)" by (simp add: castDataSource_def)
  also have "\<dots> = Inr (fl\<lparr>links := links fl @ data_punct q op @ concat (map (\<lambda>q. data_punct q op) qs)\<rparr>)"
    using Cons.IH [of "create_link q op fl"] Cons.prems by (simp add: create_link_links)
  finally show ?case by simp
qed simp

lemma merge_refines:
  assumes sim: "pipe_sim fl p G" and sp: "spec_call CMerge G = Some H"
  shows "\<exists>fl' p0 p'. pipe_merge p fl = Inr (fl', p0, p') \<and> pipe_sim fl' p' H"
proof -
  obtain qs where q: "gtail G = Group qs" using sp by (auto split: tail.splits)
  let ?n = "length (heap fl)" and ?T = "elemType p"
  have i: "partitioningState p = NextInPartitioning" "from_iter fl (tailIter p) = qs" "\<forall>q\<in>set qs. q < ?n \<and> outType (heap fl ! q) = Some ?T"
    using sim q by (auto simp: pipe_sim_def)
  let ?L = "links fl @ concat (map (\<lambda>q. data_punct q ?n) qs)"
  let ?fl1 = "fl\<lparr>heap := heap fl @ [fresh KMerge [?T] (Some ?T)]\<rparr>"
  have l: "link_merge ?T qs ?n ?fl1 = Inr (?fl1\<lparr>links := ?L\<rparr>)" using i(3) by (subst link_merge_all) (auto simp: nth_append)
  have f: "from_iter ?fl1 (tailIter p) = qs" using i(2) from_iter_same [of ?fl1 fl] by simp
  let ?fl = "fl\<lparr>heap := heap fl @ [fresh KMerge [?T] (Some ?T), fresh KQueue [?T] (Some ?T)], links := ?L @ data_punct ?n (Suc ?n),
    publishers := publishers fl @ [?n, Suc ?n]\<rparr>"
  let ?p = "p\<lparr>partitioningState := NoPartitioning, numPartitions := 0, tailIter := Some (Suc (length (publishers fl)))\<rparr>"
  have "pipe_merge p fl = Inr (?fl, p, ?p)"
    using i(1) l f by (simp add: pipe_merge_def new_op_def df_addPublisher_def create_link_links Let_def)
  moreover have "pipe_sim ?fl ?p H"
    using sim sp q sim_length [OF sim] by (auto simp: pipe_sim_def class_of_def nth_append Let_def)
  ultimately show ?thesis by blast
qed

lemmas stage_methods = pipe_where_def pipe_notify_def pipe_queue_def pipe_barrier_def pipe_map_def pipe_statefulMap_def pipe_tuplify_def
  pipe_extract_def pipe_extractJson_def pipe_batch_def pipe_unbatch_def pipe_slidingWindow_def pipe_tumblingWindow_def pipe_window_def
  pipe_aggregate_def pipe_aggregate_state_def pipe_groupBy_def

lemma sim_fields:
  assumes "pipe_sim fl p G"
  shows "elemType p = gtype G" "timestampExtractor p = gts G" "keyExtractor p = gkey G" "transactionIDExtractor p = gtx G"
    and "is_single G \<longleftrightarrow> partitioningState p = NoPartitioning"
  using assms by (cases "gtail G"; auto simp: pipe_sim_def is_single_def)+

lemma call_refines:
  assumes sim: "pipe_sim fl p G" and sp: "spec_call c G = Some H"
  shows "\<exists>fl' p0 p'. exec_call c p fl = Inr (fl', p0, p') \<and> pipe_sim fl' p' H"
proof -
  note st = add_stage_refines [OF sim] add_sink_refines [OF sim]
  note f = sim_fields [OF sim]
  show ?thesis
  proof (cases c)
    case (CPartitionBy n)
    then show ?thesis using partitionBy_refines [OF sim, of n H] sp by simp
  next
    case CMerge
    then show ?thesis using merge_refines [OF sim, of H] sp by simp
  next
    case (CKeyBy K)
    then show ?thesis using sim sp by (cases "gtail G") (auto simp: pipe_keyBy_def pipe_sim_def from_iter_def)
  next
    case CAssignTimestamps
    then show ?thesis using sim sp by (cases "gtail G") (auto simp: pipe_assignTimestamps_def pipe_sim_def from_iter_def)
  next
    case CAssignTransactionID
    then show ?thesis using sim sp by (cases "gtail G") (auto simp: pipe_assignTransactionID_def pipe_sim_def from_iter_def)
  qed (use sp st f in \<open>auto simp: stage_methods require_def pipe_print_def pipe_saveToFile_def pipe_matchByNFA_def pipe_matcher_def
     pipe_toTable_def pipe_toTxTable_def pipe_updateTable_def add_single_stage Let_def split: if_splits\<close>)
qed

lemma chain_refines:
  assumes "pipe_sim fl p G" and "spec_chain cs G = Some H"
  shows "\<exists>fl' p'. chain cs p fl = Inr (fl', p') \<and> pipe_sim fl' p' H"
  using assms
proof (induction cs arbitrary: fl p G)
  case (Cons c cs)
  then obtain G1 where G1: "spec_call c G = Some G1" "spec_chain cs G1 = Some H" by (auto split: option.splits)
  from call_refines [OF Cons.prems(1) G1(1)] obtain fl1 p0 p1 where "exec_call c p fl = Inr (fl1, p0, p1)" "pipe_sim fl1 p1 G1" by blast
  then show ?case using Cons.IH [OF _ G1(2)] by simp
qed simp

lemma new_source_sim: "case new_source k T Dataflow_new of (fl, p) \<Rightarrow> pipe_sim fl p (Query_new k T)"
  by (simp add: new_source_def new_op_def Dataflow_new_def df_addPublisher_def Pipe_new_def pipe_sim_def Query_new_def class_of_def)

section \<open>Types and connections of the graph\<close>

fun link_typed :: "(op_kind \<times> elem list \<times> elem option) list \<Rightarrow> port \<times> port \<Rightarrow> bool" where
  "link_typed ops (OutData q, InData op) \<longleftrightarrow>
     q < length ops \<and> op < length ops \<and> (\<exists>T. snd (snd (ops ! q)) = Some T \<and> fst (snd (ops ! op)) = [T])"
| "link_typed ops (PartData q i, InData op) \<longleftrightarrow>
     q < length ops \<and> op < length ops \<and> (\<exists>T. snd (snd (ops ! q)) = Some T \<and> fst (snd (ops ! op)) = [T])"
| "link_typed ops (OutPunct q, InPunct op) \<longleftrightarrow> q < length ops \<and> op < length ops"
| "link_typed ops (PartPunct q i, InPunct op) \<longleftrightarrow> q < length ops \<and> op < length ops"
| "link_typed ops _ \<longleftrightarrow> False"

definition inputs :: "(port \<times> port) list \<Rightarrow> nat \<Rightarrow> (port \<times> port) list" where
  "inputs L op = filter (\<lambda>(_, b). b = InData op) L"

definition one_input :: "(op_kind \<times> elem list \<times> elem option) list \<Rightarrow> (port \<times> port) list \<Rightarrow> bool" where
  "one_input ops L \<longleftrightarrow> (\<forall>op<length ops. fst (ops ! op) \<noteq> KMerge \<and> fst (snd (ops ! op)) \<noteq> [] \<longrightarrow> length (inputs L op) = 1)"

fun tail_ops :: "tail \<Rightarrow> nat list" where
  "tail_ops (Single q) = [q]"
| "tail_ops (Split part n) = [part]"
| "tail_ops (Group qs) = qs"

definition well_wired :: "Query \<Rightarrow> bool" where
  "well_wired G \<longleftrightarrow> (\<forall>l\<in>set (glinks G). link_typed (gops G) l) \<and> one_input (gops G) (glinks G) \<and>
     (\<forall>q\<in>set (tail_ops (gtail G)). q < length (gops G) \<and> snd (snd (gops G ! q)) = Some (gtype G))"

lemma link_typed_append: "link_typed ops l \<Longrightarrow> link_typed (ops @ xs) l"
  by (cases "(ops, l)" rule: link_typed.cases) (auto simp: nth_append)

lemma typed_no_input: "\<forall>l\<in>set L. link_typed ops l \<Longrightarrow> length ops \<le> op \<Longrightarrow> inputs L op = []"
proof -
  have "link_typed ops (a, InData op) \<Longrightarrow> op < length ops" for a by (cases a) auto
  then show "\<forall>l\<in>set L. link_typed ops l \<Longrightarrow> length ops \<le> op \<Longrightarrow> inputs L op = []"
    by (fastforce simp: inputs_def filter_empty_conv)
qed

lemma inputs_append: "inputs (L @ M) op = inputs L op @ inputs M op"
  by (simp add: inputs_def)

lemma inputs_data_punct [simp]: "inputs (data_punct q n) op = (if op = n then [(OutData q, InData n)] else [])"
  by (simp add: inputs_def data_punct_def)

lemma inputs_part_punct [simp]: "inputs (part_punct part i n) op = (if op = n then [(PartData part i, InData n)] else [])"
  by (simp add: inputs_def part_punct_def)

lemma inputs_zip:
  assumes "\<And>x n. inputs (f (x, n)) op = (if op = n then [g x n] else [])" "distinct ns" "length xs = length ns"
  shows "length (inputs (concat (map f (zip xs ns))) op) = (if op \<in> set ns then 1 else 0)"
  using assms(2,3)
proof (induction xs ns rule: list_induct2')
  case (4 x xs n ns)
  then show ?case using assms(1) [of x n] by (auto simp: inputs_append)
qed (simp_all add: inputs_def)

lemma stage_inputs:
  assumes "length ops = tail_width t" "distinct ops"
  shows "length (inputs (stage_links t ops) op) = (if op \<in> set ops then 1 else 0)"
proof (cases t)
  case (Single q)
  then obtain n where "ops = [n]" using assms(1) by (auto simp: length_Suc_conv)
  then show ?thesis using Single by simp
next
  case (Split part n)
  then show ?thesis using inputs_zip [of "\<lambda>(i, op). part_punct part i op" op _ ops "[0..<n]"] assms by simp
next
  case (Group qs)
  then show ?thesis using inputs_zip [of "\<lambda>(q, op). data_punct q op" op _ ops qs] assms by simp
qed

lemma stage_typed:
  assumes "\<forall>q\<in>set (tail_ops t). q < length os \<and> snd (snd (os ! q)) = Some T" "\<forall>op\<in>set ops. op < length os \<and> fst (snd (os ! op)) = [T]"
  shows "\<forall>l\<in>set (stage_links t ops). link_typed os l"
proof (cases t)
  case (Group qs)
  have "\<forall>l\<in>set (data_punct q op). link_typed os l" if "(q, op) \<in> set (zip qs ops)" for q op
    using set_zip_leftD [OF that] set_zip_rightD [OF that] assms Group by (auto simp: data_punct_def)
  then show ?thesis using Group by fastforce
qed (use assms in \<open>auto simp: data_punct_def part_punct_def dest: set_zip_rightD\<close>)

text \<open>New operators that are connected once and typed keep a query well wired.\<close>

lemma well_wired_extend:
  assumes w: "well_wired G" and H: "gops H = gops G @ xs" "glinks H = glinks G @ M"
    and typed: "\<forall>l\<in>set M. link_typed (gops H) l"
    and new: "\<And>i. i < length xs \<Longrightarrow> fst (xs ! i) \<noteq> KMerge \<Longrightarrow> length (inputs M (length (gops G) + i)) = 1"
    and old: "\<And>op. op < length (gops G) \<Longrightarrow> inputs M op = []"
    and tail: "\<forall>q\<in>set (tail_ops (gtail H)). q < length (gops H) \<and> snd (snd (gops H ! q)) = Some (gtype H)"
  shows "well_wired H"
proof -
  have "one_input (gops H) (glinks H)" unfolding one_input_def
  proof (intro allI impI)
    fix op assume op: "op < length (gops H)" "fst (gops H ! op) \<noteq> KMerge \<and> fst (snd (gops H ! op)) \<noteq> []"
    show "length (inputs (glinks H) op) = 1"
    proof (cases "op < length (gops G)")
      case True
      then show ?thesis using w op(2) old by (simp add: H inputs_append well_wired_def one_input_def nth_append)
    next
      case False
      then have "inputs (glinks G) op = []" using w typed_no_input [of "glinks G" "gops G" op] by (simp add: well_wired_def)
      then show ?thesis using False op new [of "op - length (gops G)"] by (simp add: H inputs_append nth_append)
    qed
  qed
  then show ?thesis using w typed tail H link_typed_append by (auto simp: well_wired_def)
qed

lemma spec_stage_wired:
  assumes "well_wired G" "spec_stage k Tin Tout G = Some H"
  shows "well_wired H"
proof -
  let ?n = "length (gops G)" and ?w = "tail_width (gtail G)"
  let ?ops = "[?n..<?n + ?w]"
  have H: "gtype G = Tin" "gops H = gops G @ replicate ?w (k, [Tin], Some Tout)" "glinks H = glinks G @ stage_links (gtail G) ?ops"
    "set (tail_ops (gtail H)) \<subseteq> set ?ops" "gtype H = Tout"
    using assms(2) by (auto simp: spec_stage_def Let_def is_single_def split: if_splits)
  note old = assms(1)[unfolded well_wired_def]
  show ?thesis
  proof (rule well_wired_extend [OF assms(1) H(2,3)])
    show "\<forall>l\<in>set (stage_links (gtail G) ?ops). link_typed (gops H) l"
      by (rule stage_typed [where T = Tin]) (use old H(1) in \<open>auto simp: H(2) nth_append\<close>)
    show "length (inputs (stage_links (gtail G) ?ops) (?n + i)) = 1" if "i < length (replicate ?w (k, [Tin], Some Tout))" for i
      using that stage_inputs [of ?ops "gtail G" "?n + i"] by simp
    show "inputs (stage_links (gtail G) ?ops) op = []" if "op < ?n" for op
      using that stage_inputs [of ?ops "gtail G" op] by simp
    show "\<forall>q\<in>set (tail_ops (gtail H)). q < length (gops H) \<and> snd (snd (gops H ! q)) = Some (gtype H)"
      using H(4,5) by (auto simp: H(2) nth_append)
  qed
qed

lemma spec_sink_wired:
  assumes w: "well_wired G" and sp: "spec_sink k G = Some H"
  shows "well_wired H"
proof -
  let ?n = "length (gops G)"
  obtain q where q: "gtail G = Single q" and H: "gops H = gops G @ [(k, [gtype G], None)]" "glinks H = glinks G @ data_punct q ?n"
    "gtail H = gtail G" "gtype H = gtype G" using sp by (auto simp: spec_sink_def split: tail.splits)
  have "q < ?n" "snd (snd (gops G ! q)) = Some (gtype G)" using w q by (auto simp: well_wired_def)
  then show ?thesis
    by (intro well_wired_extend [OF w H(1,2)]) (auto simp: H q data_punct_def nth_append inputs_def less_Suc_eq)
qed

lemma spec_merge_wired:
  assumes w: "well_wired G" and sp: "spec_call CMerge G = Some H"
  shows "well_wired H"
proof -
  let ?n = "length (gops G)" and ?T = "gtype G"
  obtain qs where q: "gtail G = Group qs"
    and H: "gops H = gops G @ [(KMerge, [?T], Some ?T), (KQueue, [?T], Some ?T)]"
    "glinks H = glinks G @ concat (map (\<lambda>q. data_punct q ?n) qs) @ data_punct ?n (Suc ?n)" "gtail H = Single (Suc ?n)" "gtype H = ?T"
    using sp by (auto simp: Let_def split: tail.splits)
  have qs: "\<forall>q\<in>set qs. q < ?n \<and> snd (snd (gops G ! q)) = Some ?T" using w q by (simp add: well_wired_def)
  have i: "inputs (concat (map (\<lambda>q. data_punct q ?n) qs)) op = []" if "op \<noteq> ?n" for op
    using that by (induction qs) (simp_all add: inputs_append, simp add: inputs_def)
  show ?thesis
  proof (rule well_wired_extend [OF w H(1,2)])
    show "\<forall>l\<in>set (concat (map (\<lambda>q. data_punct q ?n) qs) @ data_punct ?n (Suc ?n)). link_typed (gops H) l"
      using qs by (auto simp: H(1) data_punct_def nth_append)
    show "length (inputs (concat (map (\<lambda>q. data_punct q ?n) qs) @ data_punct ?n (Suc ?n)) (?n + j)) = 1"
      if "j < length [(KMerge, [?T], Some ?T), (KQueue, [?T], Some ?T)]"
        "fst ([(KMerge, [?T], Some ?T), (KQueue, [?T], Some ?T)] ! j) \<noteq> KMerge" for j
      using that i [of "Suc ?n"] by (cases j) (simp_all add: inputs_append)
    show "inputs (concat (map (\<lambda>q. data_punct q ?n) qs) @ data_punct ?n (Suc ?n)) op = []" if "op < ?n" for op
      using that i [of op] by (simp add: inputs_append)
  qed (simp add: H nth_append)
qed

lemma well_wired_extractors [simp]:
  "well_wired (G\<lparr>gkey := K\<rparr>) = well_wired G" "well_wired (G\<lparr>gts := ts\<rparr>) = well_wired G" "well_wired (G\<lparr>gtx := tx\<rparr>) = well_wired G"
  by (simp_all add: well_wired_def)

lemma spec_call_wired:
  assumes w: "well_wired G" and sp: "spec_call c G = Some H"
  shows "well_wired H"
proof (cases c)
  case CMerge
  then show ?thesis using spec_merge_wired [OF w] sp by simp
next
  case (CPartitionBy n)
  then obtain H1 where H1: "spec_stage KPartitionBy (gtype G) (gtype G) G = Some H1" "H = H1\<lparr>gtail := Split (length (gops G)) n\<rparr>" "is_single G"
    using sp by (auto simp: require_def split: if_splits)
  moreover have "tail_ops (gtail H1) = [length (gops G)]" using H1(1,3) by (auto simp: spec_stage_def is_single_def)
  ultimately show ?thesis using spec_stage_wired [OF w H1(1)] by (simp add: well_wired_def)
qed (use sp w in \<open>auto simp: require_def intro: spec_stage_wired [OF w] spec_sink_wired [OF w] split: if_splits\<close>)

lemma spec_chain_wired: "well_wired G \<Longrightarrow> spec_chain cs G = Some H \<Longrightarrow> well_wired H"
  by (induction cs arbitrary: G) (auto split: option.splits dest: spec_call_wired)

lemma query_new_wired: "well_wired (Query_new k T)"
  by (simp add: well_wired_def Query_new_def one_input_def)

section \<open>Properties\<close>

text \<open>
  (C17) The graph of a query: for every well-formed chain of calls on a new source, the
  construction succeeds, and the operators, connections and sinks it leaves in the dataflow
  are those of the specification: each stage behind a partition operator has one operator per
  partition, connected to the operator of the same partition before it, and a merge collects
  all of them.
\<close>

theorem pipe_chain_builds_graph:
  assumes "spec_chain cs (Query_new k T) = Some G"
  shows "\<exists>fl p. chain cs (snd (new_source k T Dataflow_new)) (fst (new_source k T Dataflow_new)) = Inr (fl, p) \<and>
    map class_of (heap fl) = gops G \<and> links fl = glinks G \<and> sinks fl = gsinks G \<and> elemType p = gtype G"
  using chain_refines [OF _ assms, of "fst (new_source k T Dataflow_new)" "snd (new_source k T Dataflow_new)"] new_source_sim [of k T]
  by (auto simp: pipe_sim_def case_prod_beta)

abbreviation demo_query :: "call list" where
  "demo_query \<equiv> [CExtract [AUser 0, AUser 1], CKeyBy (AUser 0), CPartitionBy 2, CWhere, CGroupBy [AUser 2] (AUser 0), CMerge, CPrint]"

theorem pipe_chain_builds_graph_witness:
  "\<exists>fl p. chain demo_query (snd (new_source KTextFileSource TStringPtr Dataflow_new)) (fst (new_source KTextFileSource TStringPtr Dataflow_new)) = Inr (fl, p) \<and>
     length (heap fl) = 10 \<and> sinks fl = [9] \<and> elemType p = [AUser 2] \<and>
     (PartData 2 1, InData 4) \<in> set (links fl) \<and> (OutData 4, InData 6) \<in> set (links fl) \<and> (OutData 6, InData 7) \<in> set (links fl)"
proof -
  obtain G where G: "spec_chain demo_query (Query_new KTextFileSource TStringPtr) = Some G" "length (gops G) = 10" "gsinks G = [9]"
    "gtype G = [AUser 2]" "(PartData 2 1, InData 4) \<in> set (glinks G)" "(OutData 4, InData 6) \<in> set (glinks G)" "(OutData 6, InData 7) \<in> set (glinks G)"
    by (simp add: Query_new_def spec_stage_def require_def is_single_def spec_sink_def data_punct_def part_punct_def Let_def upt_rec numeral_eq_Suc)
  from pipe_chain_builds_graph [OF G(1)] show ?thesis using G(2-) by (metis length_map)
qed

text \<open>
  (C18) Types: in the graph of a well-formed query every data connection joins an output and
  an input of the same element type, so none of the dynamic casts of the construction fails,
  and the input of every operator that is neither a source nor a merge is connected exactly
  once.
\<close>

theorem pipe_chain_type_safe:
  assumes "spec_chain cs (Query_new k T) = Some G"
  shows "\<exists>fl p. chain cs (snd (new_source k T Dataflow_new)) (fst (new_source k T Dataflow_new)) = Inr (fl, p) \<and>
    (\<forall>l\<in>set (links fl). link_typed (map class_of (heap fl)) l) \<and> one_input (map class_of (heap fl)) (links fl)"
proof -
  obtain fl p where fl: "chain cs (snd (new_source k T Dataflow_new)) (fst (new_source k T Dataflow_new)) = Inr (fl, p)" "pipe_sim fl p G"
    using chain_refines [OF _ assms, of "fst (new_source k T Dataflow_new)" "snd (new_source k T Dataflow_new)"] new_source_sim [of k T]
    by (auto simp: case_prod_beta)
  then show ?thesis using spec_chain_wired [OF query_new_wired assms] by (auto simp: well_wired_def pipe_sim_def)
qed

theorem pipe_chain_type_safe_witness:
  "\<exists>fl p. chain [CExtract [AUser 0], CBatch, CUnbatch [AUser 0]] (snd (new_source KTextFileSource TStringPtr Dataflow_new))
      (fst (new_source KTextFileSource TStringPtr Dataflow_new)) = Inr (fl, p) \<and>
    (\<forall>l\<in>set (links fl). link_typed (map class_of (heap fl)) l) \<and> one_input (map class_of (heap fl)) (links fl)"
proof -
  obtain G where G: "spec_chain [CExtract [AUser 0], CBatch, CUnbatch [AUser 0]] (Query_new KTextFileSource TStringPtr) = Some G"
    by (simp add: Query_new_def spec_stage_def is_single_def Let_def)
  show ?thesis by (rule pipe_chain_type_safe [OF G])
qed

text \<open>The second call on a pipe behind \<open>partitionBy\<close>: the first one has changed its state.\<close>

lemma split_stage:
  assumes p: "partitioningState p = FirstInPartitioning" "tailIter p = Some (length ps)" "elemType p = T"
    and fl: "publishers fl = ps @ [part]" "part < length (heap fl)" "outType (heap fl ! part) = Some T" "kind (heap fl ! part) = KPartitionBy"
      "mNumPartitions (heap fl ! part) = numPartitions p" "mPartitions (heap fl ! part) = []"
  defines "ops \<equiv> [length (heap fl)..<length (heap fl) + numPartitions p]"
  obtains fl1 where "pipe_where p fl = Inr (fl1, p\<lparr>partitioningState := NextInPartitioning\<rparr>,
      p\<lparr>partitioningState := NextInPartitioning, elemType := T, tailIter := if ops = [] then None else Some (Suc (length ps))\<rparr>)"
    and "publishers fl1 = ps @ [part] @ ops" "length (heap fl1) = length (heap fl) + numPartitions p"
    and "\<forall>q\<in>set (part # ops). outType (heap fl1 ! q) = Some T"
proof -
  let ?n = "length (heap fl)" and ?w = "numPartitions p"
  let ?h = "heap fl @ replicate ?w (fresh KWhere [T] (Some T))"
  let ?h' = "?h[part := (?h ! part)\<lparr>mPartitions := [0..<?w]\<rparr>]"
  let ?L = "links fl @ concat (map (\<lambda>(j, op). part_punct part j op) (zip [0..<?w] ops))"
  let ?fl = "fl\<lparr>heap := ?h', links := ?L, publishers := publishers fl @ ops\<rparr>"
  have "link_first part 0 ops (fl\<lparr>heap := ?h\<rparr>) = Inr (fl\<lparr>heap := ?h', links := ?L\<rparr>)"
    using fl by (subst link_first_zip) (simp_all add: nth_append ops_def)
  then have "pipe_where p fl = Inr (?fl, p\<lparr>partitioningState := NextInPartitioning\<rparr>,
      p\<lparr>partitioningState := NextInPartitioning, elemType := T, tailIter := if ops = [] then None else Some (Suc (length ps))\<rparr>)"
    using p fl by (simp add: pipe_where_def add_stage_def new_ops_heap addPartitionedPublisher_def getPublisher_def castPartitionBy_def nth_append
      df_addPublisherList_def ops_def [symmetric])
  moreover have "outType (?h' ! q) = Some T" if "q \<in> set (part # ops)" for q
    using that fl(2,3) by (auto simp: ops_def nth_append nth_list_update)
  ultimately show ?thesis using that [of ?fl] fl(1) by simp
qed

text \<open>
  Using a partitioned pipe twice: for a pipe behind \<open>partitionBy\<close> the first operator is
  connected to the partitions, but a second operator called on the same pipe is not. Its
  first instance is connected to the output of the partition operator, which never
  publishes there, and instance \<open>i + 1\<close> to the output of instance \<open>i\<close> of the first operator,
  although the construction reports no error.
\<close>

theorem partitioned_pipe_reuse_miswired:
  assumes "partitioningState p = FirstInPartitioning" "tailIter p = Some (length ps)" "elemType p = T" "numPartitions p = Suc n"
    and "publishers fl = ps @ [part]" "part < length (heap fl)" "outType (heap fl ! part) = Some T" "kind (heap fl ! part) = KPartitionBy"
      "mNumPartitions (heap fl ! part) = Suc n" "mPartitions (heap fl ! part) = []"
  shows "\<exists>fl1 p1 pa fl2 p2 pb a. pipe_where p fl = Inr (fl1, p1, pa) \<and> pipe_where p1 fl1 = Inr (fl2, p2, pb) \<and> a = length (heap fl) \<and>
    links fl2 = links fl1 @ concat (map (\<lambda>(q, op). data_punct q op) (zip (part # [a..<a + n]) [a + Suc n..<a + Suc n + Suc n]))"
proof -
  let ?a = "length (heap fl)"
  obtain fl1 where w1: "pipe_where p fl = Inr (fl1, p\<lparr>partitioningState := NextInPartitioning\<rparr>,
      p\<lparr>partitioningState := NextInPartitioning, elemType := T, tailIter := Some (Suc (length ps))\<rparr>)"
    and fl1: "publishers fl1 = ps @ [part] @ [?a..<?a + Suc n]" "length (heap fl1) = ?a + Suc n"
      "\<forall>q\<in>set (part # [?a..<?a + Suc n]). outType (heap fl1 ! q) = Some T"
    using split_stage [OF assms(1-3) assms(5-8)] assms(4,9,10) by auto
  let ?p = "p\<lparr>partitioningState := NextInPartitioning\<rparr>" and ?b = "length (heap fl1)"
  let ?qs = "part # [?a..<?a + Suc n]" and ?ops = "[?b..<?b + Suc n]" and ?h = "heap fl1 @ replicate (Suc n) (fresh KWhere [T] (Some T))"
  have f: "from_iter (fl1\<lparr>heap := ?h\<rparr>) (tailIter p) = ?qs" using assms(2) fl1(1) by (simp add: from_iter_def)
  have "outType (?h ! q) = Some T" if "q \<in> set ?qs" for q using that fl1(2,3) assms(6) by (auto simp: nth_append)
  then have "link_next T (tailIter p) ?ops (fl1\<lparr>heap := ?h\<rparr>) =
      Inr (fl1\<lparr>heap := ?h, links := links fl1 @ concat (map (\<lambda>(q, op). data_punct q op) (zip ?qs ?ops))\<rparr>)"
    using link_next_zip [OF f, of ?ops T] by simp
  then obtain fl2 p2 pb where "pipe_where ?p fl1 = Inr (fl2, p2, pb)"
    and "links fl2 = links fl1 @ concat (map (\<lambda>(q, op). data_punct q op) (zip ?qs ?ops))"
    using assms(3,4) by (simp add: pipe_where_def add_stage_def new_ops_heap addPartitionedPublisher_def df_addPublisherList_def)
  moreover have "zip ?qs ?ops = zip (part # [?a..<?a + n]) ?ops"
    using zip_append1 [of "part # [?a..<?a + n]" "[?a + n]" ?ops] by simp
  ultimately show ?thesis using w1 fl1(2) by auto
qed

abbreviation demo_split :: "Dataflow \<times> Pipe" where
  "demo_split \<equiv> (\<lparr>heap = [fresh KSource [] (Some [AUser 0]), (fresh KPartitionBy [[AUser 0]] (Some [AUser 0]))\<lparr>mNumPartitions := Suc (Suc 0)\<rparr>],
      publishers = [0, 1], sinks = [], links = data_punct 0 1\<rparr>,
     (Pipe_new [AUser 0] (Some 1))\<lparr>partitioningState := FirstInPartitioning, numPartitions := Suc (Suc 0)\<rparr>)"

theorem partitioned_pipe_reuse_miswired_witness:
  "chain [CPartitionBy (Suc (Suc 0))] (snd (streamFromGenerator [AUser 0] Dataflow_new)) (fst (streamFromGenerator [AUser 0] Dataflow_new)) = Inr demo_split \<and>
   (\<exists>fl1 p1 pa fl2 p2 pb. pipe_where (snd demo_split) (fst demo_split) = Inr (fl1, p1, pa) \<and> pipe_where p1 fl1 = Inr (fl2, p2, pb) \<and>
      links fl2 = links fl1 @ data_punct 1 4 @ data_punct 2 5)"
proof
  show "chain [CPartitionBy (Suc (Suc 0))] (snd (streamFromGenerator [AUser 0] Dataflow_new)) (fst (streamFromGenerator [AUser 0] Dataflow_new)) = Inr demo_split"
    by (simp add: streamFromGenerator_def new_source_def new_op_def df_addPublisher_def Dataflow_new_def Pipe_new_def pipe_partitionBy_def
      addPublisher_def getPublisher_def castDataSource_def create_link_links Let_def)
  show "\<exists>fl1 p1 pa fl2 p2 pb. pipe_where (snd demo_split) (fst demo_split) = Inr (fl1, p1, pa) \<and> pipe_where p1 fl1 = Inr (fl2, p2, pb) \<and>
      links fl2 = links fl1 @ data_punct 1 4 @ data_punct 2 5"
    using partitioned_pipe_reuse_miswired [of "snd demo_split" "[0]" "[AUser 0]" "Suc 0" "fst demo_split" 1]
    by (simp add: Pipe_new_def upt_rec numeral_eq_Suc)
qed

text \<open>
  \<open>merge\<close> connects everything behind its tail, also operators that another query has added to
  the topology in between: a stream of another type makes it fail, one of the same type is
  merged.
\<close>

lemma merge_takes_foreign_streams:
  assumes "partitioningState p = NextInPartitioning" "from_iter fl (tailIter p) = qs @ [r]" "\<forall>q\<in>set qs. outType (heap fl ! q) = Some (elemType p)"
    and "\<forall>q\<in>set (qs @ [r]). q < length (heap fl)"
  shows "outType (heap fl ! r) \<noteq> Some (elemType p) \<Longrightarrow> pipe_merge p fl = Inl incompatible"
    and "outType (heap fl ! r) = Some (elemType p) \<Longrightarrow>
      \<exists>fl' p'. pipe_merge p fl = Inr (fl', p, p') \<and> (OutData r, InData (length (heap fl))) \<in> set (links fl')"
proof -
  let ?T = "elemType p" and ?n = "length (heap fl)"
  let ?fl1 = "fl\<lparr>heap := heap fl @ [fresh KMerge [?T] (Some ?T)]\<rparr>"
  have f: "from_iter ?fl1 (tailIter p) = qs @ [r]" using assms(2) from_iter_same [of ?fl1 fl] by simp
  have ty: "\<forall>q\<in>set qs. outType (heap ?fl1 ! q) = Some ?T" "outType (heap ?fl1 ! r) = outType (heap fl ! r)"
    using assms(3,4) by (auto simp: nth_append)
  have app: "link_merge ?T (xs @ ys) op g = bind_res (link_merge ?T xs op g) (link_merge ?T ys op)" for xs ys op g
    by (induction xs arbitrary: g) (simp_all add: castDataSource_def)
  have "link_merge ?T (qs @ [r]) ?n ?fl1 = (if outType (heap fl ! r) = Some ?T
      then Inr (?fl1\<lparr>links := links fl @ concat (map (\<lambda>q. data_punct q ?n) qs) @ data_punct r ?n\<rparr>) else Inl incompatible)"
    unfolding app link_merge_all [OF ty(1)] using ty(2) by (simp add: castDataSource_def create_link_links)
  then show "outType (heap fl ! r) \<noteq> Some ?T \<Longrightarrow> pipe_merge p fl = Inl incompatible"
    and "outType (heap fl ! r) = Some ?T \<Longrightarrow> \<exists>fl' p'. pipe_merge p fl = Inr (fl', p, p') \<and> (OutData r, InData ?n) \<in> set (links fl')"
    using assms(1) f by (simp_all add: pipe_merge_def new_op_def df_addPublisher_def create_link_links data_punct_def Let_def)
qed

text \<open>A matcher added by \<open>matchByNFA\<close> to a partitioned pipe listens to the first partition only.\<close>

lemma matchByNFA_first_partition:
  assumes "from_iter fl (tailIter p) = q # qs" "q < length (heap fl)" "outType (heap fl ! q) = Some (elemType p)"
  shows "\<exists>fl' p'. pipe_matchByNFA T p fl = Inr (fl', p, p') \<and> links fl' = links fl @ data_punct q (length (heap fl))"
proof -
  obtain i where "tailIter p = Some i" "publishers fl ! i = q" using from_iter_Cons [OF assms(1)] by metis
  then show ?thesis using assms(2,3)
    by (simp add: pipe_matchByNFA_def add_single_def addPublisher_def new_op_def getPublisher_def castDataSource_def nth_append
      df_addPublisher_def create_link_links)
qed

text \<open>
  A join of a stream with a partitioned one skips the operators whose class has no name of
  its own: behind windows, queues and grouped aggregations the right side is not connected
  at all.
\<close>

lemma join_skips_unnamed:
  assumes "\<forall>x\<in>set xs. outType (heap fl ! x) = Some T2 \<and> opName (kind (heap fl ! x)) = ''BaseOp''"
  shows "join_publishers T2 xs op fl = Inr fl"
  using assms by (induction xs) (simp_all add: castDataSource_def)

text \<open>
  An aggregate with a timestamp extractor on a partitioned pipe is constructed without the
  extractor, and the operator fails at its first tuple.
\<close>

lemma partitioned_timestamp_aggregate:
  assumes "partitioningState p \<noteq> NoPartitioning" "timestampExtractor p \<noteq> None"
  shows "pipe_aggregate Tout t p fl = add_stage (KAggregation TriggerByTimestamp False) (elemType p) Tout p fl"
    and "it_fun x st False = Inr st' \<Longrightarrow> ag_step (Aggregation_new st final_fun it_fun TriggerByTimestamp n) (Data x False) = Inl BadFunctionCall"
  using assms by (simp_all add: pipe_aggregate_def Aggregation_new_def ag_processDataElement_def ag_trigger_def)

text \<open>An extraction on a pipe that does not carry lines fails when the query is built.\<close>

lemma extract_needs_lines:
  assumes "pipe_sim fl p G" "is_single G" "gtype G \<noteq> TStringPtr"
  shows "pipe_extract Tout p fl = Inl incompatible"
proof -
  obtain q where q: "partitioningState p = NoPartitioning" "getPublisher fl p = Inr q" "q < length (heap fl)" "outType (heap fl ! q) = Some (elemType p)"
    using sim_single [OF assms(1,2)] by metis
  moreover have "elemType p \<noteq> TStringPtr" using assms(1,3) by (simp add: pipe_sim_def)
  ultimately show ?thesis
    by (auto simp: pipe_extract_def add_stage_def addPublisher_def new_op_def getPublisher_def castDataSource_def nth_append split: option.splits)
qed

end
