(* ===== verification/Tx_Table.thy ===== *)
theory Tx_Table
  imports Hash_Table
begin

text \<open>
  The transactional table of \<open>table/TxTable.hpp\<close> over the hash table, with the redo log of
  \<open>table/LogBuffer.hpp\<close>. Writes of a transaction go to its log only; the commit replays the
  log on the table under the table mutex, so an operation is one atomic step and the
  behaviour of concurrent transactions is a sequence of operations.
\<close>

section \<open>Log buffer\<close>

datatype LogOp = LInsert | LUpdate | LDelete

record ('k, 'v) LogEntry =
  logOp :: LogOp
  lkey :: 'k
  recordPtr :: "'v option"

type_synonym ('k, 'v) LogBuffer = "TransactionID \<rightharpoonup> ('k, 'v) LogEntry list"

definition log_push :: "('k, 'v) LogBuffer \<Rightarrow> TransactionID \<Rightarrow> ('k, 'v) LogEntry \<Rightarrow> ('k, 'v) LogBuffer" where
  "log_push b txID entry =
     (case b txID of Some es \<Rightarrow> b(txID \<mapsto> es @ [entry]) | None \<Rightarrow> b(txID \<mapsto> [entry]))"

definition append_key :: "('k, 'v) LogBuffer \<Rightarrow> TransactionID \<Rightarrow> LogOp \<Rightarrow> 'k \<Rightarrow> ('k, 'v) LogBuffer" where
  "append_key b txID op k = log_push b txID \<lparr>logOp = op, lkey = k, recordPtr = None\<rparr>"

definition append_rec :: "('k, 'v) LogBuffer \<Rightarrow> TransactionID \<Rightarrow> LogOp \<Rightarrow> 'k \<Rightarrow> 'v \<Rightarrow> ('k, 'v) LogBuffer" where
  "append_rec b txID op k r = log_push b txID \<lparr>logOp = op, lkey = k, recordPtr = Some r\<rparr>"

text \<open>\<open>begin\<close> and \<open>end\<close> delimit the entries of a transaction; both assert that it has a log.\<close>

definition log_range :: "('k, 'v) LogBuffer \<Rightarrow> TransactionID \<Rightarrow> ('k, 'v) LogEntry list res" where
  "log_range b txID = (case b txID of None \<Rightarrow> Inl AssertFailed | Some es \<Rightarrow> Inr es)"

definition log_cleanup :: "('k, 'v) LogBuffer \<Rightarrow> TransactionID \<Rightarrow> ('k, 'v) LogBuffer" where
  "log_cleanup b txID = b(txID := None)"

section \<open>Transactional table\<close>

record ('k, 'v) TxTable =
  tx_tbl :: "('k, 'v) HashMapTable"
  logBuffer :: "('k, 'v) LogBuffer"

definition TxTable_new :: "('k, 'v) TxTable" where
  "TxTable_new = \<lparr>tx_tbl = HashMapTable_new, logBuffer = Map.empty\<rparr>"

definition tx_begin :: "('k, 'v) TxTable \<Rightarrow> TransactionID \<Rightarrow> ('k, 'v) TxTable" where
  "tx_begin t txID = t"

fun replay :: "('k, 'v) LogEntry list \<Rightarrow> ('k, 'v) HashMapTable \<Rightarrow> ('k, 'v) HashMapTable res" where
  "replay [] t = Inr t"
| "replay (e # es) t =
     (case logOp e of
        LInsert \<Rightarrow> (case recordPtr e of None \<Rightarrow> Inl NullPointer | Some r \<Rightarrow> replay es (ht_insert t (lkey e) r))
      | LUpdate \<Rightarrow> replay es t
      | LDelete \<Rightarrow> replay es (fst (ht_deleteByKey t (lkey e))))"

definition tx_commit :: "('k, 'v) TxTable \<Rightarrow> TransactionID \<Rightarrow> ('k, 'v) TxTable res" where
  "tx_commit t txID =
     bind_res (log_range (logBuffer t) txID)
       (\<lambda>es. bind_res (replay es (tx_tbl t))
          (\<lambda>tb. Inr (t\<lparr>tx_tbl := tb, logBuffer := log_cleanup (logBuffer t) txID\<rparr>)))"

definition tx_preCommit :: "('k, 'v) TxTable \<Rightarrow> TransactionID \<Rightarrow> ('k, 'v) TxTable res" where
  "tx_preCommit t txID = tx_commit t txID"

definition tx_abort :: "('k, 'v) TxTable \<Rightarrow> TransactionID \<Rightarrow> ('k, 'v) TxTable" where
  "tx_abort t txID = t\<lparr>logBuffer := log_cleanup (logBuffer t) txID\<rparr>"

definition tx_insert :: "('k, 'v) TxTable \<Rightarrow> TransactionID \<Rightarrow> 'k \<Rightarrow> 'v \<Rightarrow> ('k, 'v) TxTable" where
  "tx_insert t txID key rec = t\<lparr>logBuffer := append_rec (logBuffer t) txID LInsert key rec\<rparr>"

definition tx_deleteByKey :: "('k, 'v) TxTable \<Rightarrow> TransactionID \<Rightarrow> 'k \<Rightarrow> ('k, 'v) TxTable \<times> nat" where
  "tx_deleteByKey t txID key = (t\<lparr>logBuffer := append_key (logBuffer t) txID LDelete key\<rparr>, 1)"

definition tx_deleteWhere :: "('k, 'v) TxTable \<Rightarrow> ('v \<Rightarrow> bool) \<Rightarrow> ('k, 'v) TxTable \<times> nat" where
  "tx_deleteWhere t func = (let (tb, n) = ht_deleteWhere (tx_tbl t) func in (t\<lparr>tx_tbl := tb\<rparr>, n))"

definition tx_updateOrDeleteByKey ::
  "('k, 'v) TxTable \<Rightarrow> 'k \<Rightarrow> ('v \<Rightarrow> 'v \<times> bool) \<Rightarrow> 'v option \<Rightarrow> ('k, 'v) TxTable \<times> nat" where
  "tx_updateOrDeleteByKey t key ufunc ifunc = (t, 0)"

definition tx_updateByKey :: "('k, 'v) TxTable \<Rightarrow> 'k \<Rightarrow> ('v \<Rightarrow> 'v) \<Rightarrow> ('k, 'v) TxTable \<times> nat" where
  "tx_updateByKey t key ufunc = (let (tb, n) = ht_updateByKey (tx_tbl t) key ufunc in (t\<lparr>tx_tbl := tb\<rparr>, n))"

definition tx_updateWhere :: "('k, 'v) TxTable \<Rightarrow> ('v \<Rightarrow> bool) \<Rightarrow> ('v \<Rightarrow> 'v) \<Rightarrow> ('k, 'v) TxTable \<times> nat" where
  "tx_updateWhere t pfunc ufunc = (let (tb, n) = ht_updateWhere (tx_tbl t) pfunc ufunc in (t\<lparr>tx_tbl := tb\<rparr>, n))"

definition tx_getByKey :: "('k, 'v) TxTable \<Rightarrow> 'k \<Rightarrow> 'v res" where
  "tx_getByKey t key = ht_getByKey (tx_tbl t) key"

definition tx_select :: "('k, 'v) TxTable \<Rightarrow> ('v \<Rightarrow> bool) \<Rightarrow> ('k, 'v) HashMapIterator" where
  "tx_select t func = ht_select (tx_tbl t) func"

definition tx_select_all :: "('k, 'v) TxTable \<Rightarrow> ('k, 'v) HashMapIterator" where
  "tx_select_all t = ht_select_all (tx_tbl t)"

definition tx_size :: "('k, 'v) TxTable \<Rightarrow> nat" where
  "tx_size t = ht_size (tx_tbl t)"

definition tx_truncate :: "('k, 'v) TxTable \<Rightarrow> ('k, 'v) TxTable" where
  "tx_truncate t = t\<lparr>tx_tbl := ht_truncate (tx_tbl t)\<rparr>"

section \<open>Histories\<close>

text \<open>The transactional operations that concurrent transactions issue, in some order.\<close>

datatype ('k, 'v) tx_op = OpBegin TransactionID | OpInsert TransactionID 'k 'v | OpDelete TransactionID 'k
  | OpCommit TransactionID | OpAbort TransactionID

fun tx_exec :: "('k, 'v) TxTable \<Rightarrow> ('k, 'v) tx_op \<Rightarrow> ('k, 'v) TxTable res" where
  "tx_exec t (OpBegin x) = Inr (tx_begin t x)"
| "tx_exec t (OpInsert x k v) = Inr (tx_insert t x k v)"
| "tx_exec t (OpDelete x k) = Inr (fst (tx_deleteByKey t x k))"
| "tx_exec t (OpCommit x) = tx_preCommit t x"
| "tx_exec t (OpAbort x) = Inr (tx_abort t x)"

fun tx_run :: "('k, 'v) TxTable \<Rightarrow> ('k, 'v) tx_op list \<Rightarrow> ('k, 'v) TxTable res" where
  "tx_run t [] = Inr t"
| "tx_run t (op # ops) = bind_res (tx_exec t op) (\<lambda>t'. tx_run t' ops)"

text \<open>
  The serial history of a history: a committed transaction runs as one block at its commit,
  an aborted or unfinished one does not run at all. \<open>pend x\<close> are the writes of \<open>x\<close> so far.
\<close>

fun serial :: "(TransactionID \<Rightarrow> ('k, 'v) tx_op list) \<Rightarrow> ('k, 'v) tx_op list \<Rightarrow> ('k, 'v) tx_op list" where
  "serial pend [] = []"
| "serial pend (OpBegin x # ops) = serial pend ops"
| "serial pend (OpInsert x k v # ops) = serial (pend(x := pend x @ [OpInsert x k v])) ops"
| "serial pend (OpDelete x k # ops) = serial (pend(x := pend x @ [OpDelete x k])) ops"
| "serial pend (OpCommit x # ops) = pend x @ OpCommit x # serial (pend(x := [])) ops"
| "serial pend (OpAbort x # ops) = serial (pend(x := [])) ops"

text \<open>No transaction commits without having written: the log asserts that it has entries.\<close>

fun commits_nonempty :: "(TransactionID \<Rightarrow> bool) \<Rightarrow> ('k, 'v) tx_op list \<Rightarrow> bool" where
  "commits_nonempty w [] = True"
| "commits_nonempty w (OpBegin x # ops) = commits_nonempty w ops"
| "commits_nonempty w (OpInsert x k v # ops) = commits_nonempty (w(x := True)) ops"
| "commits_nonempty w (OpDelete x k # ops) = commits_nonempty (w(x := True)) ops"
| "commits_nonempty w (OpCommit x # ops) = (w x \<and> commits_nonempty (w(x := False)) ops)"
| "commits_nonempty w (OpAbort x # ops) = commits_nonempty (w(x := False)) ops"

section \<open>Lemmas\<close>

fun entry_of :: "('k, 'v) tx_op \<Rightarrow> ('k, 'v) LogEntry" where
  "entry_of (OpInsert x k v) = \<lparr>logOp = LInsert, lkey = k, recordPtr = Some v\<rparr>"
| "entry_of (OpDelete x k) = \<lparr>logOp = LDelete, lkey = k, recordPtr = None\<rparr>"
| "entry_of _ = undefined"

fun is_write :: "TransactionID \<Rightarrow> ('k, 'v) tx_op \<Rightarrow> bool" where
  "is_write x (OpInsert y k v) \<longleftrightarrow> x = y"
| "is_write x (OpDelete y k) \<longleftrightarrow> x = y"
| "is_write x _ \<longleftrightarrow> False"

definition entries_of :: "('k, 'v) tx_op list \<Rightarrow> ('k, 'v) LogEntry list option" where
  "entries_of ws = (if ws = [] then None else Some (map entry_of ws))"

lemma log_push_entries:
  "b x = entries_of ws \<Longrightarrow> log_push b x e = b(x \<mapsto> map entry_of ws @ [e])"
  by (cases "ws = []") (simp_all add: log_push_def entries_of_def)

lemma tx_run_append: "tx_run t (xs @ ys) = bind_res (tx_run t xs) (\<lambda>t'. tx_run t' ys)"
proof (induction xs arbitrary: t)
  case (Cons x xs)
  then show ?case by (cases "tx_exec t x") simp_all
qed simp

lemma exec_write:
  assumes "is_write x op" and "logBuffer t x = entries_of ws"
  shows "tx_exec t op = Inr (t\<lparr>logBuffer := (logBuffer t)(x := entries_of (ws @ [op]))\<rparr>)"
  using assms by (cases op) (auto simp: tx_insert_def tx_deleteByKey_def append_rec_def append_key_def
      log_push_entries [of "logBuffer t" x ws, OF assms(2)] entries_of_def)

lemma run_writes:
  "\<forall>op\<in>set ws. is_write x op \<Longrightarrow> logBuffer t x = None \<Longrightarrow>
   tx_run t ws = Inr (t\<lparr>logBuffer := (logBuffer t)(x := entries_of ws)\<rparr>)"
proof (induction ws rule: rev_induct)
  case Nil
  then have "(logBuffer t)(x := entries_of []) = logBuffer t" by (auto simp: entries_of_def)
  then show ?case by simp
next
  case (snoc op ws)
  let ?t = "t\<lparr>logBuffer := (logBuffer t)(x := entries_of ws)\<rparr>"
  have e: "tx_exec ?t op = Inr (?t\<lparr>logBuffer := (logBuffer ?t)(x := entries_of (ws @ [op]))\<rparr>)"
    using snoc.prems by (intro exec_write) auto
  have r: "tx_run t ws = Inr ?t"
    using snoc.prems by (intro snoc.IH) auto
  show ?case
    unfolding tx_run_append r bind_res.simps tx_run.simps e by (rule arg_cong [of _ _ Inr], rule TxTable.equality) auto
qed

text \<open>A replay of logged writes is total and is the fold of its entries over the table.\<close>

fun write_entry :: "('k, 'v) LogEntry \<Rightarrow> 'k \<times> 'v option" where
  "write_entry e = (lkey e, recordPtr e)"

lemma replay_fold:
  assumes "\<forall>op\<in>set ws. is_write x op"
  shows "replay (map entry_of ws) tb =
    Inr (fold (ht.apply_entry) (map (write_entry \<circ> entry_of) ws) tb)"
  using assms
proof (induction ws arbitrary: tb)
  case (Cons op ws)
  then show ?case by (cases op) (auto simp: ht.apply_entry_def)
qed simp

lemma replay_writes:
  assumes "\<forall>op\<in>set ws. is_write x op" and "ht_inv tb"
  obtains tb' where "replay (map entry_of ws) tb = Inr tb'" and "ht_inv tb'"
    and "\<And>k. ht_lookup tb' k = (case map_of (rev (map (write_entry \<circ> entry_of) ws)) k of
                                None \<Rightarrow> ht_lookup tb k | Some ov \<Rightarrow> ov)"
  using that [OF replay_fold [OF assms(1)]] ht.fold_entries [OF assms(2)] ht.last_entry_wins [OF assms(2)]
  by blast

lemma commit_writes:
  assumes ws: "\<forall>op\<in>set ws. is_write x op" "ws \<noteq> []" and "logBuffer t x = entries_of ws"
    and r: "replay (map entry_of ws) (tx_tbl t) = Inr tb"
  shows "tx_exec t (OpCommit x) = Inr (t\<lparr>tx_tbl := tb, logBuffer := (logBuffer t)(x := None)\<rparr>)"
  using assms by (simp add: tx_preCommit_def tx_commit_def log_range_def entries_of_def log_cleanup_def)

text \<open>The simulation between an interleaved run and the run of its serial history.\<close>

definition sim_pend :: "('k, 'v) TxTable \<Rightarrow> (TransactionID \<Rightarrow> ('k, 'v) tx_op list) \<Rightarrow> bool" where
  "sim_pend t pend \<longleftrightarrow> ht_inv (tx_tbl t) \<and>
     (\<forall>x. logBuffer t x = entries_of (pend x) \<and> (\<forall>op\<in>set (pend x). is_write x op))"

lemma sim_write:
  assumes "sim_pend t pend" and "is_write x op"
  obtains t' where "tx_exec t op = Inr t'" and "sim_pend t' (pend(x := pend x @ [op]))" and "tx_tbl t' = tx_tbl t"
proof (rule that)
  show "tx_exec t op = Inr (t\<lparr>logBuffer := (logBuffer t)(x := entries_of (pend x @ [op]))\<rparr>)"
    using assms by (intro exec_write) (auto simp: sim_pend_def)
  show "sim_pend (t\<lparr>logBuffer := (logBuffer t)(x := entries_of (pend x @ [op]))\<rparr>) (pend(x := pend x @ [op]))"
    using assms by (auto simp: sim_pend_def)
qed simp

lemma sim_commit:
  assumes "sim_pend t pend" and "pend x \<noteq> []"
  obtains t' where "tx_exec t (OpCommit x) = Inr t'" and "sim_pend t' (pend(x := []))"
    and "tx_run (t\<lparr>logBuffer := Map.empty\<rparr>) (pend x @ [OpCommit x]) = Inr (t'\<lparr>logBuffer := Map.empty\<rparr>)"
proof -
  have ws: "\<forall>op\<in>set (pend x). is_write x op" "pend x \<noteq> []" "logBuffer t x = entries_of (pend x)"
    using assms by (auto simp: sim_pend_def)
  obtain tb where tb: "replay (map entry_of (pend x)) (tx_tbl t) = Inr tb" "ht_inv tb"
    using replay_writes [OF ws(1), of "tx_tbl t"] assms(1) by (metis sim_pend_def)
  let ?t' = "t\<lparr>tx_tbl := tb, logBuffer := (logBuffer t)(x := None)\<rparr>"
  let ?e = "t\<lparr>logBuffer := Map.empty\<rparr>" and ?e1 = "t\<lparr>logBuffer := [x \<mapsto> map entry_of (pend x)]\<rparr>"
  have "tx_run ?e (pend x) = Inr ?e1"
    using run_writes [OF ws(1), of ?e] ws(2) by (simp add: entries_of_def)
  moreover have "tx_exec ?e1 (OpCommit x) = Inr (?t'\<lparr>logBuffer := Map.empty\<rparr>)"
    using commit_writes [OF ws(1,2), of ?e1 tb] tb(1) ws(2) by (simp add: entries_of_def)
  ultimately have "tx_run ?e (pend x @ [OpCommit x]) = Inr (?t'\<lparr>logBuffer := Map.empty\<rparr>)" by (simp add: tx_run_append)
  moreover have "sim_pend ?t' (pend(x := []))"
    using assms(1) tb(2) by (auto simp: sim_pend_def entries_of_def)
  ultimately show ?thesis using that commit_writes [OF ws tb(1)] by blast
qed

lemma serial_sim:
  assumes "sim_pend t pend" and "commits_nonempty (\<lambda>x. pend x \<noteq> []) ops"
  shows "\<exists>t' s'. tx_run t ops = Inr t' \<and> tx_run (t\<lparr>logBuffer := Map.empty\<rparr>) (serial pend ops) = Inr s' \<and>
    tx_tbl s' = tx_tbl t' \<and> ht_inv (tx_tbl t')"
  using assms
proof (induction ops arbitrary: t pend)
  case Nil
  then show ?case by (simp add: sim_pend_def)
next
  case (Cons op ops)
  have wr: ?case if "is_write x op" "serial pend (op # ops) = serial (pend(x := pend x @ [op])) ops"
    "commits_nonempty ((\<lambda>x. pend x \<noteq> [])(x := True)) ops" for x
  proof -
    note w = that(1)
    obtain t' where t': "tx_exec t op = Inr t'" "sim_pend t' (pend(x := pend x @ [op]))" "tx_tbl t' = tx_tbl t"
      using sim_write [OF Cons.prems(1) w] by metis
    have "(\<lambda>y. (pend(x := pend x @ [op])) y \<noteq> []) = (\<lambda>x. pend x \<noteq> [])(x := True)" by auto
    then have "commits_nonempty (\<lambda>y. (pend(x := pend x @ [op])) y \<noteq> []) ops" using that(3) by simp
    from Cons.IH [OF t'(2) this] have "\<exists>u s'. tx_run t' ops = Inr u \<and>
        tx_run (t'\<lparr>logBuffer := Map.empty\<rparr>) (serial (pend(x := pend x @ [op])) ops) = Inr s' \<and>
        tx_tbl s' = tx_tbl u \<and> ht_inv (tx_tbl u)" .
    moreover have "t'\<lparr>logBuffer := Map.empty\<rparr> = t\<lparr>logBuffer := Map.empty\<rparr>" using t'(3) by simp
    ultimately show ?thesis using t'(1) that(2) by simp
  qed
  show ?case
  proof (cases op)
    case (OpBegin x)
    then show ?thesis using Cons by (simp add: tx_begin_def)
  next
    case (OpInsert x k v)
    then show ?thesis using wr [of x] Cons.prems by simp
  next
    case (OpDelete x k)
    then show ?thesis using wr [of x] Cons.prems by simp
  next
    case (OpAbort x)
    have "(\<lambda>y. (pend(x := [])) y \<noteq> []) = (\<lambda>y. pend y \<noteq> [])(x := False)" by auto
    moreover have "sim_pend (tx_abort t x) (pend(x := []))"
      using Cons.prems(1) by (auto simp: sim_pend_def tx_abort_def log_cleanup_def entries_of_def)
    ultimately show ?thesis
      using Cons.IH [of "tx_abort t x" "pend(x := [])"] Cons.prems OpAbort by (simp add: tx_abort_def fun_upd_def)
  next
    case (OpCommit x)
    obtain t' where t': "tx_exec t op = Inr t'" "sim_pend t' (pend(x := []))"
      "tx_run (t\<lparr>logBuffer := Map.empty\<rparr>) (pend x @ [op]) = Inr (t'\<lparr>logBuffer := Map.empty\<rparr>)"
      using sim_commit [OF Cons.prems(1), of x] Cons.prems(2) OpCommit by auto
    have "(\<lambda>y. (pend(x := [])) y \<noteq> []) = (\<lambda>y. pend y \<noteq> [])(x := False)" by auto
    then have "commits_nonempty (\<lambda>y. (pend(x := [])) y \<noteq> []) ops" using Cons.prems(2) OpCommit by simp
    from Cons.IH [OF t'(2) this] show ?thesis
      using t'(1,3) OpCommit tx_run_append [of "t\<lparr>logBuffer := Map.empty\<rparr>" "pend x @ [op]" "serial (pend(x := [])) ops"] by (simp add: fun_upd_def)
  qed
qed

section \<open>Properties\<close>

text \<open>
  (C4) Serializability of \<open>TxTable\<close>: for every interleaving of the operations of any number of
  transactions in which a committing transaction has written something, the run succeeds and
  leaves exactly the table (content and observer notifications) that a serial run leaves in
  which each committed transaction executes alone at its commit and aborted or unfinished
  transactions do not execute at all.
\<close>

theorem tx_table_serializable:
  fixes ops :: "('a, 'b) tx_op list"
  assumes "commits_nonempty (\<lambda>_. False) ops"
  shows "\<exists>t s. tx_run TxTable_new ops = Inr t \<and> tx_run TxTable_new (serial (\<lambda>_. []) ops) = Inr s \<and>
    tx_tbl s = tx_tbl t \<and> ht_inv (tx_tbl t)"
proof -
  have "sim_pend (TxTable_new :: ('a, 'b) TxTable) (\<lambda>_. [])"
    by (simp add: sim_pend_def TxTable_new_def entries_of_def ht_inv_def HashMapTable_new_def)
  moreover have "TxTable_new\<lparr>logBuffer := Map.empty\<rparr> = (TxTable_new :: ('a, 'b) TxTable)" by (simp add: TxTable_new_def)
  ultimately show ?thesis using serial_sim [of TxTable_new "\<lambda>_. []" ops] assms by simp
qed

abbreviation demo_history :: "(nat, nat) tx_op list" where
  "demo_history \<equiv> [OpBegin 1, OpInsert 1 5 10, OpBegin 2, OpInsert 2 5 20, OpInsert 3 6 0, OpCommit 2, OpAbort 3, OpCommit 1]"

theorem tx_table_serializable_witness:
  "commits_nonempty (\<lambda>_. False) demo_history \<and>
   serial (\<lambda>_. []) demo_history = [OpInsert 2 5 20, OpCommit 2, OpInsert 1 5 10, OpCommit 1] \<and>
   (\<exists>t s. tx_run TxTable_new demo_history = Inr t \<and>
      tx_run TxTable_new [OpInsert 2 5 20, OpCommit 2, OpInsert 1 5 10, OpCommit 1] = Inr s \<and> tx_tbl s = tx_tbl t)"
proof -
  have c: "commits_nonempty (\<lambda>_. False) demo_history" by simp
  have s: "serial (\<lambda>_. []) demo_history = [OpInsert 2 5 20, OpCommit 2, OpInsert 1 5 10, OpCommit 1]" by simp
  show ?thesis
    using c s tx_table_serializable [OF c] unfolding s by blast
qed

text \<open>
  Effect of a commit: a transaction whose logged writes are \<open>ws\<close> makes, for every key, its
  last write or deletion of that key visible and nothing else; its log is dropped and the
  logs of the other transactions stay. A transaction without log entries cannot commit: the
  assertion of the log buffer fails.
\<close>

theorem tx_commit_effect:
  assumes "ht_inv (tx_tbl t)" and "\<forall>op\<in>set ws. is_write x op" and "logBuffer t x = entries_of ws"
  shows "if ws = [] then tx_preCommit t x = Inl AssertFailed
    else (\<exists>t'. tx_preCommit t x = Inr t' \<and> logBuffer t' = (logBuffer t)(x := None) \<and>
            (\<forall>k. ht_lookup (tx_tbl t') k = (case map_of (rev (map (write_entry \<circ> entry_of) ws)) k of
                   None \<Rightarrow> ht_lookup (tx_tbl t) k | Some ov \<Rightarrow> ov)))"
proof (cases "ws = []")
  case True
  then show ?thesis using assms(3) by (simp add: entries_of_def tx_preCommit_def tx_commit_def log_range_def)
next
  case False
  obtain tb where tb: "replay (map entry_of ws) (tx_tbl t) = Inr tb"
    "\<And>k. ht_lookup tb k = (case map_of (rev (map (write_entry \<circ> entry_of) ws)) k of
             None \<Rightarrow> ht_lookup (tx_tbl t) k | Some ov \<Rightarrow> ov)"
    using replay_writes [OF assms(2,1)] by metis
  show ?thesis
    using False commit_writes [OF assms(2) False assms(3) tb(1)] tb(2) by simp
qed

theorem tx_commit_effect_witness:
  "\<exists>t'. tx_preCommit (tx_insert (tx_insert (TxTable_new :: (nat, nat) TxTable) 1 5 10) 1 5 11) 1 = Inr t' \<and>
     ht_lookup (tx_tbl t') 5 = Some 11"
  using tx_commit_effect [of "tx_insert (tx_insert (TxTable_new :: (nat, nat) TxTable) 1 5 10) 1 5 11"
      "[OpInsert 1 5 10, OpInsert 1 5 11]" 1]
  by (auto simp: tx_insert_def TxTable_new_def append_rec_def log_push_def entries_of_def ht_inv_def HashMapTable_new_def)

end
