(* ===== verification/Slot_Mask.thy ===== *)
theory Slot_Mask
  imports Pf_Prelude
begin

text \<open>
  The 64-bit mask of used slots of \<open>table/StateContext.cpp\<close>: the de-Bruijn search for the
  first free position, setting and clearing a position, and the interleaving semantics
  \<open>slot_step\<close> of the two compare-and-swap loops when several threads share the mask.
\<close>

unbundle bit_operations_syntax

section \<open>Free positions of a bit mask\<close>

definition tab64 :: "nat list" where
  "tab64 =
    [63, 0, 58, 1, 59, 47, 53, 2,
     60, 39, 48, 27, 54, 33, 42, 3,
     61, 51, 37, 40, 49, 18, 28, 20,
     55, 30, 34, 11, 43, 14, 22, 4,
     62, 57, 46, 52, 38, 26, 32, 41,
     50, 36, 17, 19, 29, 10, 13, 21,
     56, 45, 25, 31, 35, 16, 9, 12,
     44, 24, 15, 8, 23, 7, 6, 5]"

definition getFreePos :: "64 word \<Rightarrow> nat" where
  "getFreePos v =
     (if v = - 1 then 64
      else tab64 ! unat (drop_bit 58 ((NOT v AND - (NOT v)) * 0x07EDD5E59A4E28C2)))"

text \<open>
  \<open>getSetFreePos\<close> and \<open>unsetPos\<close> without interference: the first compare-and-swap succeeds.
  A full mask gives position 64, and \<open>1ULL << 64\<close> is undefined.
\<close>

definition getSetFreePos :: "64 word \<Rightarrow> (nat \<times> 64 word) res" where
  "getSetFreePos v =
     (let pos = getFreePos v
      in if pos < 64 then Inr (pos, v OR push_bit pos 1) else Inl OutOfBounds)"

definition unsetPos :: "64 word \<Rightarrow> nat \<Rightarrow> 64 word" where
  "unsetPos v pos = v AND NOT (push_bit pos 1)"

definition hashMe :: "uint \<Rightarrow> uint" where
  "hashMe x =
     (let x = x + 1;
          x = (drop_bit 16 x XOR x) * 0x45d9f3b;
          x = (drop_bit 16 x XOR x) * 0x45d9f3b
      in drop_bit 16 x XOR x)"

text \<open>
  The same two functions as threads on a shared mask. A thread that takes a slot has loaded
  an expected value; the weak compare-and-swap succeeds only if the mask still has that
  value, and otherwise (or spuriously) reloads it. A thread that holds a slot releases it by
  a second such loop. A thread whose expected value is a full mask shifts by 64, which is undefined (\<open>getSetFreePos\<close> fails
  there): it stays in \<open>SUndefined\<close> and nothing is claimed of it.
\<close>

datatype slot_thread = SIdle | STaking "64 word" | SHolding nat | SReleasing nat "64 word" | SUndefined

inductive slot_step :: "64 word \<times> (nat \<Rightarrow> slot_thread) \<Rightarrow> 64 word \<times> (nat \<Rightarrow> slot_thread) \<Rightarrow> bool" where
  take_load: "ts i = SIdle \<Longrightarrow> slot_step (v, ts) (v, ts(i := STaking v))"
| take_cas: "ts i = STaking v \<Longrightarrow> getSetFreePos v = Inr (pos, v') \<Longrightarrow>
    slot_step (v, ts) (v', ts(i := SHolding pos))"
| take_full: "ts i = STaking e \<Longrightarrow> getSetFreePos e = Inl err \<Longrightarrow> slot_step (v, ts) (v, ts(i := SUndefined))"
| take_retry: "ts i = STaking e \<Longrightarrow> slot_step (v, ts) (v, ts(i := STaking v))"
| release_load: "ts i = SHolding pos \<Longrightarrow> slot_step (v, ts) (v, ts(i := SReleasing pos v))"
| release_cas: "ts i = SReleasing pos v \<Longrightarrow> slot_step (v, ts) (unsetPos v pos, ts(i := SIdle))"
| release_retry: "ts i = SReleasing pos e \<Longrightarrow> slot_step (v, ts) (v, ts(i := SReleasing pos v))"

inductive slot_reach :: "64 word \<times> (nat \<Rightarrow> slot_thread) \<Rightarrow> bool" where
  slot_init: "slot_reach (0, \<lambda>_. SIdle)"
| slot_next: "slot_reach s \<Longrightarrow> slot_step s s' \<Longrightarrow> slot_reach s'"

fun slot_held :: "slot_thread \<Rightarrow> nat option" where
  "slot_held (SHolding p) = Some p"
| "slot_held (SReleasing p _) = Some p"
| "slot_held _ = None"

section \<open>Lemmas: free positions\<close>

lemma odd_and_minus: "odd (u :: int) \<Longrightarrow> u AND - u = 1"
proof -
  assume "odd u"
  then obtain k where u: "u = 1 + 2 * k" by (metis oddE add.commute)
  have m: "- u = 1 + 2 * NOT k" using u by (simp add: not_int_def)
  show ?thesis unfolding m unfolding u by (subst and_int_rec) simp
qed

lemma lowest_bit_isolated:
  fixes w :: "64 word"
  assumes "bit w i" and "\<And>j. j < i \<Longrightarrow> \<not> bit w j"
  shows "w AND - w = 2 ^ i"
proof -
  define u where "u = drop_bit i (uint w)"
  have odd: "odd u"
    using assms(1) bit_imp_le_length [OF assms(1)]
    by (simp add: u_def bit_iff_odd_drop_bit [symmetric] bit_uint_iff)
  have "take_bit i (uint w) = 0"
    using assms(2) by (intro bit_eqI) (auto simp: bit_take_bit_iff bit_uint_iff)
  then have "uint w = push_bit i u"
    using bits_ident [of i "uint w"] by (simp add: u_def)
  then have w: "w = word_of_int (push_bit i u)" by (metis word_of_int_uint)
  have "push_bit i u AND - push_bit i u = push_bit i (u AND - u)"
    by (simp add: push_bit_and push_bit_minus)
  also have "\<dots> = 2 ^ i" using odd_and_minus [OF odd] by (simp add: push_bit_eq_mult)
  finally have "push_bit i u AND - push_bit i u = 2 ^ i" .
  moreover have "w AND - w = word_of_int (push_bit i u AND - push_bit i u)"
    unfolding w by (simp add: of_int_and_eq)
  ultimately show ?thesis by simp
qed

lemma tab64_inverts:
  "\<forall>i\<in>set [0..<64]. tab64 ! unat (drop_bit 58 ((2 ^ i :: 64 word) * 0x07EDD5E59A4E28C2)) = i"
  by code_simp

lemma zero_bit_exists:
  fixes v :: "64 word"
  assumes "v \<noteq> - 1"
  shows "\<exists>i < 64. \<not> bit v i"
proof (rule ccontr)
  assume "\<not> (\<exists>i < 64. \<not> bit v i)"
  then have "v = - 1"
    by (intro bit_word_eqI) auto
  with assms show False by simp
qed

lemma getFreePos_spec:
  assumes "v \<noteq> - 1"
  shows "getFreePos v < 64" and "\<not> bit v (getFreePos v)" and "j < getFreePos v \<Longrightarrow> bit v j"
proof -
  define i where "i = (LEAST i. \<not> bit v i)"
  obtain k where "k < 64" and "\<not> bit v k"
    using zero_bit_exists [OF assms] by blast
  then have i: "i < 64" "\<not> bit v i"
    unfolding i_def using Least_le [of "\<lambda>i. \<not> bit v i" k] LeastI [of "\<lambda>i. \<not> bit v i" k] by simp_all
  have low: "bit v j" if "j < i" for j
    using that not_less_Least [of j "\<lambda>i. \<not> bit v i"] unfolding i_def by blast
  have "NOT v AND - (NOT v) = 2 ^ i"
    using i low by (intro lowest_bit_isolated) (auto simp: bit_not_iff)
  then have "getFreePos v = i"
    using assms tab64_inverts i(1) by (auto simp: getFreePos_def)
  then show "getFreePos v < 64" "\<not> bit v (getFreePos v)" "j < getFreePos v \<Longrightarrow> bit v j"
    using i low by simp_all
qed

lemma getFreePos_full [simp]: "getFreePos (- 1) = 64"
  by (simp add: getFreePos_def)

lemma getSetFreePos_InrD:
  assumes "getSetFreePos v = Inr (pos, v')"
  shows "pos < 64" and "\<not> bit v pos" and "bit v' p \<longleftrightarrow> bit v p \<or> p = pos"
proof -
  have ne: "v \<noteq> - 1"
    using assms by (auto simp: getSetFreePos_def)
  have pos: "pos = getFreePos v" and v': "v' = v OR push_bit pos 1"
    using assms by (auto simp: getSetFreePos_def Let_def split: if_splits)
  show lt: "pos < 64" and "\<not> bit v pos"
    using getFreePos_spec [OF ne] pos by simp_all
  then show "bit v' p \<longleftrightarrow> bit v p \<or> p = pos"
    by (auto simp: v' bit_or_iff bit_exp_iff)
qed

lemma bit_unsetPos: "bit (unsetPos v pos) p \<longleftrightarrow> bit v p \<and> p \<noteq> pos"
  by (auto simp: unsetPos_def bit_and_iff bit_not_iff bit_exp_iff dest: bit_imp_le_length)

section \<open>Lemmas: concurrent slot allocation\<close>

definition slot_inv :: "64 word \<times> (nat \<Rightarrow> slot_thread) \<Rightarrow> bool" where
  "slot_inv s \<longleftrightarrow>
     (\<forall>p. bit (fst s) p \<longleftrightarrow> (\<exists>i. slot_held (snd s i) = Some p)) \<and>
     (\<forall>i j p. slot_held (snd s i) = Some p \<longrightarrow> slot_held (snd s j) = Some p \<longrightarrow> i = j)"

lemma slot_step_inv: "slot_step s s' \<Longrightarrow> slot_inv s \<Longrightarrow> slot_inv s'"
proof (induction rule: slot_step.induct)
  case (take_cas ts i v pos v')
  note g = getSetFreePos_InrD [OF take_cas(2)]
  have free: "slot_held (ts j) \<noteq> Some pos" for j
    using g(2) take_cas(3) by (auto simp: slot_inv_def)
  have "bit v' p \<longleftrightarrow> (\<exists>j. slot_held ((ts(i := SHolding pos)) j) = Some p)" for p
  proof
    assume "bit v' p"
    then consider "p = pos" | j where "slot_held (ts j) = Some p"
      using g(3) take_cas(3) by (auto simp: slot_inv_def)
    then show "\<exists>j. slot_held ((ts(i := SHolding pos)) j) = Some p"
    proof cases
      case 1
      then show ?thesis by (intro exI [of _ i]) simp
    next
      case 2
      then have "j \<noteq> i" using take_cas(1) by auto
      with 2 show ?thesis by (intro exI [of _ j]) simp
    qed
  next
    assume "\<exists>j. slot_held ((ts(i := SHolding pos)) j) = Some p"
    then show "bit v' p" using g(3) take_cas(3) by (auto simp: slot_inv_def split: if_splits)
  qed
  then show ?case
    using take_cas(1,3) free by (auto simp: slot_inv_def)
next
  case (release_cas ts i pos v)
  have "bit (unsetPos v pos) p \<longleftrightarrow> (\<exists>j. slot_held ((ts(i := SIdle)) j) = Some p)" for p
    using release_cas by (auto simp: slot_inv_def bit_unsetPos) (metis slot_held.simps(2) option.inject)+
  then show ?case
    using release_cas(2) by (auto simp: slot_inv_def)
next
  case (take_full ts i e err v)
  then have "slot_held ((ts(i := SUndefined)) j) = slot_held (ts j)" for j by auto
  with take_full show ?case unfolding slot_inv_def by simp
next
  case (take_load ts i v)
  then have "slot_held ((ts(i := STaking v)) j) = slot_held (ts j)" for j by auto
  with take_load show ?case unfolding slot_inv_def by simp
next
  case (take_retry ts i e v)
  then have "slot_held ((ts(i := STaking v)) j) = slot_held (ts j)" for j by auto
  with take_retry show ?case unfolding slot_inv_def by simp
next
  case (release_load ts i pos v)
  then have "slot_held ((ts(i := SReleasing pos v)) j) = slot_held (ts j)" for j by auto
  with release_load show ?case unfolding slot_inv_def by simp
next
  case (release_retry ts i pos e v)
  then have "slot_held ((ts(i := SReleasing pos v)) j) = slot_held (ts j)" for j by auto
  with release_retry show ?case unfolding slot_inv_def by simp
qed

lemma slot_reach_inv: "slot_reach s \<Longrightarrow> slot_inv s"
proof (induction rule: slot_reach.induct)
  case slot_init
  then show ?case by (simp add: slot_inv_def)
next
  case (slot_next s s')
  then show ?case by (blast intro: slot_step_inv)
qed

section \<open>Properties\<close>

text \<open>
  (C39) \<open>getFreePos\<close> computes what its comment says: the position of the first 0 bit counted from
  the right, and 64 exactly when the mask is full. The multiplication by the de-Bruijn
  constant and the table lookup are equivalent to a search for the least zero bit.
\<close>

theorem getFreePos_is_first_zero:
  "getFreePos v = (if v = - 1 then 64 else (LEAST i. \<not> bit v i))"
proof (cases "v = - 1")
  case False
  have "(LEAST i. \<not> bit v i) = getFreePos v"
    using getFreePos_spec [OF False] by (intro Least_equality) (auto simp: not_less [symmetric])
  with False show ?thesis by simp
qed simp

text \<open>
  (C9) Slots are exclusive and not leaked. In every state that any number of threads reach by
  interleaving \<open>getSetFreePos\<close> and \<open>unsetPos\<close>, starting from an empty mask, a bit of the mask
  is set exactly if one and only one thread holds that position, and all positions are
  below 64; so two running transactions never share an entry of \<open>activeTxs\<close>. A thread that finds the mask full gets
  no position in the model, where the code is undefined.
\<close>

theorem slots_exclusive:
  assumes "slot_reach (v, ts)"
  shows "(bit v p \<longleftrightarrow> (\<exists>!i. slot_held (ts i) = Some p)) \<and> (slot_held (ts i) = Some p \<longrightarrow> p < 64)"
proof -
  have inv: "slot_inv (v, ts)" using slot_reach_inv [OF assms] .
  then have "bit v p \<longleftrightarrow> (\<exists>!i. slot_held (ts i) = Some p)"
    unfolding slot_inv_def fst_conv snd_conv by metis
  moreover have "p < 64" if "slot_held (ts i) = Some p"
    using inv that bit_imp_le_length [of v p] by (auto simp: slot_inv_def)
  ultimately show ?thesis by blast
qed

text \<open>Two threads load the empty mask; the first wins the race, the second retries.\<close>

lemma getSetFreePos_0: "getSetFreePos 0 = Inr (0, 1)" and getSetFreePos_1: "getSetFreePos 1 = Inr (1, 3)"
  by code_simp+

definition two_taken :: "nat \<Rightarrow> slot_thread" where
  "two_taken = (\<lambda>_. SIdle)(0 := SHolding 0, 1 := SHolding 1)"

lemma two_taken_reach: "slot_reach (3, two_taken)"
proof -
  let ?z = "\<lambda>_::nat. SIdle"
  have "slot_reach (0, ?z(0 := STaking 0))"
    using slot_next [OF slot_init take_load [of ?z 0 0]] by simp
  then have "slot_reach (0, ?z(0 := STaking 0, 1 := STaking 0))"
    using slot_next take_load [of "?z(0 := STaking 0)" 1 0] by fastforce
  then have "slot_reach (1, ?z(0 := STaking 0, 1 := STaking 0, 0 := SHolding 0))"
    using slot_next take_cas [OF _ getSetFreePos_0, of "?z(0 := STaking 0, 1 := STaking 0)" 0] by fastforce
  then have "slot_reach (1, ?z(0 := STaking 0, 1 := STaking 0, 0 := SHolding 0, 1 := STaking 1))"
    using slot_next take_retry [of "?z(0 := STaking 0, 1 := STaking 0, 0 := SHolding 0)" 1 0 1] by fastforce
  then have "slot_reach (3, ?z(0 := STaking 0, 1 := STaking 0, 0 := SHolding 0, 1 := STaking 1, 1 := SHolding 1))"
    using slot_next take_cas [OF _ getSetFreePos_1,
        of "?z(0 := STaking 0, 1 := STaking 0, 0 := SHolding 0, 1 := STaking 1)" 1] by fastforce
  moreover have "?z(0 := STaking 0, 1 := STaking 0, 0 := SHolding 0, 1 := STaking 1, 1 := SHolding 1) = two_taken"
    by (rule ext) (simp add: two_taken_def)
  ultimately show ?thesis by simp
qed

theorem slots_exclusive_witness:
  "slot_reach (3, two_taken) \<and> \<not> bit (3 :: 64 word) 2 \<and> (\<exists>!i. slot_held (two_taken i) = Some 1)"
  using two_taken_reach slots_exclusive [OF two_taken_reach, of 1 1] by (simp add: bit_numeral_rec)

end
