(* ===== verification/State_Context.thy ===== *)
theory State_Context
  imports Slot_Mask
begin

text \<open>
  The transaction context of \<open>table/StateContext.hpp\<close>: the table of active transactions with
  their write status per table and their read snapshot, the last commit timestamp of the
  topology groups and the oldest version a reader may still need. The operations are state
  transformers; unchecked array accesses of the code are \<open>OutOfBounds\<close> branches. The clock
  value that seeds the transaction counter and the initial content of the mask, which the
  constructor of the code leaves uninitialised, are arguments of the constructor.
\<close>

section \<open>The state context\<close>

datatype Status = Active | Commit | Abort

datatype Errc = SUCCESS | ABORT | NOT_FOUND | INCONSISTENT

type_synonym TableID = nat

abbreviation "MAX_TOPO_GRPS \<equiv> 1 :: nat"
abbreviation "MAX_STATES \<equiv> 2 :: nat"
abbreviation "MAX_STATES_TOPO \<equiv> 2 :: nat"

definition DTS_INF :: TransactionID where "DTS_INF = - 1"

record ActiveTx =
  atxID :: TransactionID
  atxWrite :: "Status list"
  atxRead :: "TransactionID list"

record StateContext =
  nextTxID :: TransactionID
  topoGrps :: "(TableID list \<times> TransactionID) list"
  regStates :: "nat option list"
  tToTX :: "TransactionID \<rightharpoonup> TransactionID"
  restarts :: "64 word"
  txCntR :: "64 word"
  txCntW :: "64 word"
  usedSlots :: "64 word"
  activeTxs :: "ActiveTx list"
  oldestVisibleVersion :: TransactionID
  numStates :: nat
  numGroups :: nat

definition emptyTx :: "TransactionID \<Rightarrow> ActiveTx" where
  "emptyTx t = \<lparr>atxID = t, atxWrite = replicate MAX_STATES_TOPO Active, atxRead = replicate MAX_TOPO_GRPS 0\<rparr>"

definition StateContext_new :: "TransactionID \<Rightarrow> 64 word \<Rightarrow> StateContext" where
  "StateContext_new clock slots0 =
     \<lparr>nextTxID = clock, topoGrps = replicate MAX_TOPO_GRPS ([0, 0], 0),
      regStates = replicate MAX_STATES None, tToTX = Map.empty, restarts = 0, txCntR = 0, txCntW = 0,
      usedSlots = slots0, activeTxs = replicate 64 (emptyTx 0), oldestVisibleVersion = 0,
      numStates = 0, numGroups = 0\<rparr>"

text \<open>\<open>getPosFromTxnID\<close> scans the array without a bound: an unknown id runs past its end.\<close>

fun pos_scan :: "TransactionID \<Rightarrow> ActiveTx list \<Rightarrow> nat \<Rightarrow> nat res" where
  "pos_scan t [] pos = Inl OutOfBounds"
| "pos_scan t (a # as) pos = (if atxID a \<noteq> t then pos_scan t as (Suc pos) else Inr pos)"

definition getPosFromTxnID :: "StateContext \<Rightarrow> TransactionID \<Rightarrow> nat res" where
  "getPosFromTxnID c t = pos_scan t (activeTxs c) 0"

definition getWriteStatus :: "StateContext \<Rightarrow> TransactionID \<Rightarrow> TableID \<Rightarrow> Status res" where
  "getWriteStatus c t tbl =
     bind_res (getPosFromTxnID c t)
       (\<lambda>p. let ws = atxWrite (activeTxs c ! p) in if tbl < length ws then Inr (ws ! tbl) else Inl OutOfBounds)"

text \<open>The assignment through the reference that the non-const \<open>getWriteStatus\<close> returns.\<close>

definition setWriteStatus :: "StateContext \<Rightarrow> TransactionID \<Rightarrow> TableID \<Rightarrow> Status \<Rightarrow> StateContext res" where
  "setWriteStatus c t tbl st =
     bind_res (getPosFromTxnID c t)
       (\<lambda>p. let a = activeTxs c ! p
            in if tbl < length (atxWrite a)
               then Inr (c\<lparr>activeTxs := (activeTxs c)[p := a\<lparr>atxWrite := (atxWrite a)[tbl := st]\<rparr>]\<rparr>)
               else Inl OutOfBounds)"

definition getReadCTS :: "StateContext \<Rightarrow> TransactionID \<Rightarrow> nat \<Rightarrow> TransactionID res" where
  "getReadCTS c t topo =
     bind_res (getPosFromTxnID c t)
       (\<lambda>p. let rs = atxRead (activeTxs c ! p) in if topo < length rs then Inr (rs ! topo) else Inl OutOfBounds)"

definition setReadCTS :: "StateContext \<Rightarrow> TransactionID \<Rightarrow> nat \<Rightarrow> TransactionID \<Rightarrow> StateContext res" where
  "setReadCTS c t topo r =
     bind_res (getPosFromTxnID c t)
       (\<lambda>p. let a = activeTxs c ! p
            in if topo < length (atxRead a)
               then Inr (c\<lparr>activeTxs := (activeTxs c)[p := a\<lparr>atxRead := (atxRead a)[topo := r]\<rparr>]\<rparr>)
               else Inl OutOfBounds)"

text \<open>The scans over the 64 slots, as folds over the positions.\<close>

definition getOldestActiveTx :: "StateContext \<Rightarrow> TransactionID" where
  "getOldestActiveTx c =
     fold (\<lambda>pos oldest. if bit (usedSlots c) pos then min (atxID (activeTxs c ! pos)) oldest else oldest)
       [0..<64] DTS_INF"

definition newTx :: "StateContext \<Rightarrow> (TransactionID \<times> StateContext) res" where
  "newTx c =
     (let txnID = nextTxID c; c1 = c\<lparr>nextTxID := nextTxID c + 1\<rparr>
      in bind_res (getSetFreePos (usedSlots c1))
           (\<lambda>(pos, slots). Inr (txnID, c1\<lparr>usedSlots := slots,
                                         activeTxs := (activeTxs c1)[pos := emptyTx txnID]\<rparr>)))"

definition getNewTS :: "StateContext \<Rightarrow> TransactionID \<times> StateContext" where
  "getNewTS c = (nextTxID c, c\<lparr>nextTxID := nextTxID c + 1\<rparr>)"

definition removeTx :: "StateContext \<Rightarrow> TransactionID \<Rightarrow> StateContext res" where
  "removeTx c t =
     bind_res (setReadCTS c t 0 0)
       (\<lambda>c1. bind_res (getPosFromTxnID c1 t)
          (\<lambda>p. Inr (c1\<lparr>usedSlots := unsetPos (usedSlots c1) p\<rparr>)))"

definition getLastCTS :: "StateContext \<Rightarrow> nat \<Rightarrow> TransactionID res" where
  "getLastCTS c topo = (if topo < length (topoGrps c) then Inr (snd (topoGrps c ! topo)) else Inl OutOfBounds)"

definition setLastCTS :: "StateContext \<Rightarrow> nat \<Rightarrow> TransactionID \<Rightarrow> StateContext res" where
  "setLastCTS c topo t =
     (if topo < length (topoGrps c)
      then Inr (c\<lparr>topoGrps := (topoGrps c)[topo := (fst (topoGrps c ! topo), t)]\<rparr>)
      else Inl OutOfBounds)"

definition getOldestVisible :: "StateContext \<Rightarrow> TransactionID" where
  "getOldestVisible c = oldestVisibleVersion c"

definition minReadCTS :: "StateContext \<Rightarrow> TransactionID" where
  "minReadCTS c =
     fold (\<lambda>pos newMin.
             if bit (usedSlots c) pos
             then (let rCTS = atxRead (activeTxs c ! pos) ! 0
                   in if rCTS \<noteq> 0 \<and> rCTS < newMin then rCTS else newMin)
             else newMin)
       [0..<64] DTS_INF"

definition recalcOldestVisible :: "StateContext \<Rightarrow> TransactionID \<Rightarrow> (TransactionID \<times> StateContext) res" where
  "recalcOldestVisible c txnID =
     (let mi = oldestVisibleVersion c
      in if mi \<noteq> 0
         then bind_res (if minReadCTS c = DTS_INF then getLastCTS c 0 else Inr (minReadCTS c))
                (\<lambda>newMin. Inr (newMin, if mi < newMin then c\<lparr>oldestVisibleVersion := newMin\<rparr> else c))
         else bind_res (getLastCTS c 0)
                (\<lambda>newMin. Inr (newMin, c\<lparr>oldestVisibleVersion := newMin\<rparr>)))"

definition registerState :: "StateContext \<Rightarrow> nat \<Rightarrow> (TableID \<times> StateContext) res" where
  "registerState c tbl =
     (if numStates c < length (regStates c)
      then Inr (numStates c, c\<lparr>regStates := (regStates c)[numStates c := Some tbl], numStates := numStates c + 1\<rparr>)
      else Inl OutOfBounds)"

definition registerTopo :: "StateContext \<Rightarrow> TableID list \<Rightarrow> (nat \<times> StateContext) res" where
  "registerTopo c tbls =
     (if numGroups c < length (topoGrps c)
      then Inr (numGroups c, c\<lparr>topoGrps := (topoGrps c)[numGroups c := (tbls, 0)], numGroups := numGroups c + 1\<rparr>)
      else Inl OutOfBounds)"

definition updateTopo :: "StateContext \<Rightarrow> nat \<Rightarrow> TableID list \<Rightarrow> StateContext res" where
  "updateTopo c topo tbls =
     (if topo < length (topoGrps c)
      then Inr (c\<lparr>topoGrps := (topoGrps c)[topo := (tbls, snd (topoGrps c ! topo))]\<rparr>)
      else Inl OutOfBounds)"

definition ctx_reset :: "StateContext \<Rightarrow> TransactionID \<Rightarrow> StateContext" where
  "ctx_reset c clock =
     c\<lparr>nextTxID := clock, restarts := 0, txCntR := 0, txCntW := 0, usedSlots := 0,
       oldestVisibleVersion := 0, tToTX := Map.empty\<rparr>"

lemmas [tbl_defs] = getWriteStatus_def setWriteStatus_def getReadCTS_def setReadCTS_def newTx_def
  removeTx_def getLastCTS_def setLastCTS_def recalcOldestVisible_def

section \<open>Lemmas: the context invariant\<close>

abbreviation slot_id :: "StateContext \<Rightarrow> nat \<Rightarrow> TransactionID" where
  "slot_id c p \<equiv> atxID (activeTxs c ! p)"

definition active_tx :: "StateContext \<Rightarrow> TransactionID \<Rightarrow> bool" where
  "active_tx c t \<longleftrightarrow> (\<exists>p < 64. bit (usedSlots c) p \<and> slot_id c p = t)"

definition ctx_inv :: "StateContext \<Rightarrow> bool" where
  "ctx_inv c \<longleftrightarrow>
     length (activeTxs c) = 64 \<and> length (topoGrps c) = MAX_TOPO_GRPS \<and> length (regStates c) = MAX_STATES \<and>
     (\<forall>p < 64. length (atxWrite (activeTxs c ! p)) = MAX_STATES_TOPO \<and>
               length (atxRead (activeTxs c ! p)) = MAX_TOPO_GRPS \<and>
               slot_id c p < nextTxID c \<and> (bit (usedSlots c) p \<longrightarrow> slot_id c p \<noteq> 0)) \<and>
     (\<forall>p < 64. \<forall>q < 64. slot_id c p = slot_id c q \<longrightarrow> slot_id c p \<noteq> 0 \<longrightarrow> p = q)"

lemma ctx_inv_new: "0 < clock \<Longrightarrow> ctx_inv (StateContext_new clock 0)"
  by (simp add: ctx_inv_def StateContext_new_def emptyTx_def)

lemma pos_scan_first:
  "p < length as \<Longrightarrow> atxID (as ! p) = t \<Longrightarrow> (\<And>q. q < p \<Longrightarrow> atxID (as ! q) \<noteq> t) \<Longrightarrow>
   pos_scan t as n = Inr (n + p)"
proof (induction as arbitrary: p n)
  case (Cons a as)
  show ?case
  proof (cases p)
    case (Suc q)
    have "atxID a \<noteq> t" using Cons.prems(3) [of 0] Suc by simp
    moreover have "pos_scan t as (Suc n) = Inr (Suc n + q)"
    proof (rule Cons.IH)
      show "q < length as" and "atxID (as ! q) = t" using Cons.prems(1,2) Suc by simp_all
      show "atxID (as ! r) \<noteq> t" if "r < q" for r using Cons.prems(3) [of "Suc r"] Suc that by simp
    qed
    ultimately show ?thesis using Suc by simp
  qed (use Cons.prems in simp)
qed simp

lemma getPos_slot:
  assumes "ctx_inv c" and "p < 64" and "slot_id c p = t" and "t \<noteq> 0"
  shows "getPosFromTxnID c t = Inr p"
proof -
  have "slot_id c q \<noteq> t" if "q < p" for q
  proof
    assume "slot_id c q = t"
    then have "q = p" using assms that unfolding ctx_inv_def by fastforce
    then show False using that by simp
  qed
  then have "pos_scan t (activeTxs c) 0 = Inr (0 + p)"
    using assms by (intro pos_scan_first) (auto simp: ctx_inv_def)
  then show ?thesis by (simp add: getPosFromTxnID_def)
qed

lemma pos_scan_bound: "pos_scan t as n = Inr p \<Longrightarrow> n \<le> p \<and> p - n < length as \<and> atxID (as ! (p - n)) = t"
proof (induction as arbitrary: n)
  case (Cons a as)
  show ?case
  proof (cases "atxID a = t")
    case False
    with Cons.prems have r: "pos_scan t as (Suc n) = Inr p" by simp
    note ih = Cons.IH [OF r]
    then have "p - n = Suc (p - Suc n)" by arith
    with ih show ?thesis by simp
  qed (use Cons.prems in simp)
qed simp

lemma getPos_InrD: "ctx_inv c \<Longrightarrow> getPosFromTxnID c t = Inr p \<Longrightarrow> p < 64 \<and> slot_id c p = t"
  using pos_scan_bound [of t "activeTxs c" 0 p] by (auto simp: getPosFromTxnID_def ctx_inv_def)

lemma newTx_InrD:
  assumes "newTx c = Inr (t, c')"
  obtains pos where "pos < 64" and "\<not> bit (usedSlots c) pos" and "t = nextTxID c"
    and "c' = c\<lparr>nextTxID := nextTxID c + 1, usedSlots := usedSlots c OR push_bit pos 1,
                activeTxs := (activeTxs c)[pos := emptyTx t]\<rparr>"
    and "\<And>p. bit (usedSlots c') p \<longleftrightarrow> bit (usedSlots c) p \<or> p = pos"
proof -
  obtain pos slots where g: "getSetFreePos (usedSlots c) = Inr (pos, slots)"
    and t: "t = nextTxID c"
    and c': "c' = c\<lparr>nextTxID := nextTxID c + 1, usedSlots := slots, activeTxs := (activeTxs c)[pos := emptyTx t]\<rparr>"
    using assms by (cases "getSetFreePos (usedSlots c)") (auto simp: newTx_def Let_def)
  have "slots = usedSlots c OR push_bit pos 1"
    using g by (auto simp: getSetFreePos_def Let_def split: if_splits)
  with that getSetFreePos_InrD [OF g] t c' show thesis by simp
qed

lemma word_less_add_1: "n \<noteq> - 1 \<Longrightarrow> x < n + 1 \<longleftrightarrow> x \<le> n" for n x :: TransactionID
proof -
  assume "n \<noteq> - 1"
  then have "1 + n \<noteq> 0" by (metis add_eq_0_iff)
  then have "unat (n + 1) = Suc (unat n)" by (simp add: unatSuc add.commute)
  then show ?thesis by (simp add: word_less_nat_alt word_le_nat_alt less_Suc_eq_le)
qed

lemma newTx_inv:
  assumes inv: "ctx_inv c" and n: "newTx c = Inr (t, c')" and ov: "nextTxID c \<noteq> - 1"
  shows "ctx_inv c'"
proof -
  obtain pos where pos: "pos < 64" "\<not> bit (usedSlots c) pos" and t: "t = nextTxID c"
    and c': "c' = c\<lparr>nextTxID := nextTxID c + 1, usedSlots := usedSlots c OR push_bit pos 1,
                activeTxs := (activeTxs c)[pos := emptyTx t]\<rparr>"
    and b: "\<And>p. bit (usedSlots c') p \<longleftrightarrow> bit (usedSlots c) p \<or> p = pos"
    using newTx_InrD [OF n] by metis
  have len: "length (activeTxs c) = 64" using inv by (simp add: ctx_inv_def)
  have lt: "slot_id c p < nextTxID c" if "p < 64" for p using inv that by (simp add: ctx_inv_def)
  have suc: "x < nextTxID c + 1 \<longleftrightarrow> x \<le> nextTxID c" for x
    using ov by (rule word_less_add_1)
  have t0: "t \<noteq> 0" using lt [of pos] pos t by (auto simp: word_less_nat_alt)
  have id': "slot_id c' p = (if p = pos then t else slot_id c p)" if "p < 64" for p
    using len that pos(1) by (simp add: c' nth_list_update emptyTx_def)
  have "slot_id c' p \<le> nextTxID c" if "p < 64" for p
    using that lt id' t by (simp add: order.strict_implies_order)
  moreover have "length (atxWrite (activeTxs c' ! p)) = MAX_STATES_TOPO \<and> length (atxRead (activeTxs c' ! p)) = MAX_TOPO_GRPS"
    if "p < 64" for p using inv len that pos(1) by (simp add: c' nth_list_update emptyTx_def ctx_inv_def)
  moreover have "p = q" if "p < 64" "q < 64" "slot_id c' p = slot_id c' q" "slot_id c' p \<noteq> 0" for p q
  proof -
    have "slot_id c p = t \<longrightarrow> False" "slot_id c q = t \<longrightarrow> False" using lt that(1,2) t by fastforce+
    then have "p = pos \<longleftrightarrow> q = pos" using that(1-3) id' by metis
    then show ?thesis using that id' inv unfolding ctx_inv_def by (metis (no_types, lifting))
  qed
  moreover have "bit (usedSlots c') p \<longrightarrow> slot_id c' p \<noteq> 0" if "p < 64" for p
    using that b id' t0 inv by (auto simp: ctx_inv_def)
  ultimately show ?thesis
    using inv len by (simp add: ctx_inv_def) (simp add: c' suc)
qed

lemma active_tx_nonzero: "ctx_inv c \<Longrightarrow> active_tx c t \<Longrightarrow> t \<noteq> 0"
  by (auto simp: ctx_inv_def active_tx_def)

lemma active_tx_slot:
  assumes "ctx_inv c" and "active_tx c t"
  obtains p where "p < 64" and "bit (usedSlots c) p" and "slot_id c p = t"
    and "getPosFromTxnID c t = Inr p"
  using assms getPos_slot active_tx_nonzero by (metis active_tx_def)

lemma getWriteStatus_slot:
  "ctx_inv c \<Longrightarrow> getPosFromTxnID c t = Inr p \<Longrightarrow> tbl < MAX_STATES_TOPO \<Longrightarrow>
   getWriteStatus c t tbl = Inr (atxWrite (activeTxs c ! p) ! tbl)"
  using getPos_InrD [of c t p] by (simp add: getWriteStatus_def ctx_inv_def)

lemma getReadCTS_slot:
  "ctx_inv c \<Longrightarrow> getPosFromTxnID c t = Inr p \<Longrightarrow> getReadCTS c t 0 = Inr (atxRead (activeTxs c ! p) ! 0)"
  using getPos_InrD [of c t p] by (simp add: getReadCTS_def ctx_inv_def Let_def) (metis length_0_conv nat.simps(3))

lemma newTx_keeps_others:
  assumes inv: "ctx_inv c" and n: "newTx c = Inr (t, c')" and ov: "nextTxID c \<noteq> - 1" and act: "active_tx c u"
  shows "getWriteStatus c' u tbl = getWriteStatus c u tbl" and "getReadCTS c' u topo = getReadCTS c u topo"
proof -
  obtain pos where pos: "pos < 64" "\<not> bit (usedSlots c) pos"
    and c': "c' = c\<lparr>nextTxID := nextTxID c + 1, usedSlots := usedSlots c OR push_bit pos 1,
                activeTxs := (activeTxs c)[pos := emptyTx t]\<rparr>"
    using newTx_InrD [OF n] by metis
  obtain p where p: "p < 64" "bit (usedSlots c) p" "slot_id c p = u" and g: "getPosFromTxnID c u = Inr p"
    using active_tx_slot [OF inv act] by metis
  have "p \<noteq> pos" using p pos by auto
  then have same: "activeTxs c' ! p = activeTxs c ! p" by (simp add: c')
  have "getPosFromTxnID c' u = Inr p"
    using getPos_slot [OF newTx_inv [OF inv n ov] p(1)] same p(3) active_tx_nonzero [OF inv act] by simp
  with g same show "getWriteStatus c' u tbl = getWriteStatus c u tbl" "getReadCTS c' u topo = getReadCTS c u topo"
    by (simp_all add: getWriteStatus_def getReadCTS_def)
qed

lemma newTx_active:
  assumes inv: "ctx_inv c" and n: "newTx c = Inr (t, c')"
  shows "active_tx c' u \<longleftrightarrow> active_tx c u \<or> u = t" and "\<not> active_tx c t"
proof -
  obtain pos where pos: "pos < 64" "\<not> bit (usedSlots c) pos" and t: "t = nextTxID c"
    and c': "c' = c\<lparr>nextTxID := nextTxID c + 1, usedSlots := usedSlots c OR push_bit pos 1,
                activeTxs := (activeTxs c)[pos := emptyTx t]\<rparr>"
    and b: "\<And>p. bit (usedSlots c') p \<longleftrightarrow> bit (usedSlots c) p \<or> p = pos"
    using newTx_InrD [OF n] by metis
  have "slot_id c' p = (if p = pos then t else slot_id c p)" if "p < 64" for p
    using inv that pos(1) by (simp add: c' nth_list_update emptyTx_def ctx_inv_def)
  then show "active_tx c' u \<longleftrightarrow> active_tx c u \<or> u = t"
    unfolding active_tx_def using b pos by metis
  show "\<not> active_tx c t"
    using inv t by (auto simp: active_tx_def ctx_inv_def)
qed

lemma newTx_total: "usedSlots c \<noteq> - 1 \<Longrightarrow> \<exists>t c'. newTx c = Inr (t, c')"
  using getFreePos_spec(1) by (simp add: newTx_def getSetFreePos_def Let_def)

lemma newTx_fields:
  assumes inv: "ctx_inv c" and n: "newTx c = Inr (t, c')" and ov: "nextTxID c \<noteq> - 1"
  shows "tbl < MAX_STATES_TOPO \<Longrightarrow> getWriteStatus c' t tbl = Inr Active" and "getReadCTS c' t 0 = Inr 0"
proof -
  obtain pos where pos: "pos < 64" and t: "t = nextTxID c"
    and c': "c' = c\<lparr>nextTxID := nextTxID c + 1, usedSlots := usedSlots c OR push_bit pos 1,
                activeTxs := (activeTxs c)[pos := emptyTx t]\<rparr>"
    using newTx_InrD [OF n] by metis
  note inv' = newTx_inv [OF inv n ov]
  have e: "activeTxs c' ! pos = emptyTx t" using inv pos by (simp add: c' ctx_inv_def)
  have "slot_id c pos < t" using inv pos t by (simp add: ctx_inv_def)
  then have "t \<noteq> 0" by (auto simp: word_less_nat_alt)
  then have g: "getPosFromTxnID c' t = Inr pos"
    using getPos_slot [OF inv' pos] e by (simp add: emptyTx_def)
  show "getReadCTS c' t 0 = Inr 0"
    using getReadCTS_slot [OF inv' g] e by (simp add: emptyTx_def)
  show "getWriteStatus c' t tbl = Inr Active" if "tbl < MAX_STATES_TOPO"
    using getWriteStatus_slot [OF inv' g that] e that by (simp add: emptyTx_def)
qed

lemma ctx_inv_cong:
  assumes "ctx_inv c" and "\<And>p. p < 64 \<Longrightarrow> slot_id c' p = slot_id c p"
    and "\<And>p. p < 64 \<Longrightarrow> length (atxWrite (activeTxs c' ! p)) = MAX_STATES_TOPO"
    and "\<And>p. p < 64 \<Longrightarrow> length (atxRead (activeTxs c' ! p)) = MAX_TOPO_GRPS"
    and "\<And>p. bit (usedSlots c') p \<Longrightarrow> bit (usedSlots c) p"
    and "length (activeTxs c') = 64" "length (topoGrps c') = MAX_TOPO_GRPS" "length (regStates c') = MAX_STATES"
    and "nextTxID c' = nextTxID c"
  shows "ctx_inv c'"
proof -
  have 1: "slot_id c p < nextTxID c \<and> (bit (usedSlots c) p \<longrightarrow> slot_id c p \<noteq> 0)" if "p < 64" for p
    using assms(1) that unfolding ctx_inv_def by blast
  have 2: "p = q" if "p < 64" "q < 64" "slot_id c p = slot_id c q" "slot_id c p \<noteq> 0" for p q
    using assms(1) that unfolding ctx_inv_def by blast
  show ?thesis
    unfolding ctx_inv_def using assms(2-) 1 2 by (intro conjI allI impI) auto
qed

lemma ctx_inv_update:
  assumes "ctx_inv c" and "p < 64" and "atxID a = slot_id c p"
    and "length (atxWrite a) = MAX_STATES_TOPO" and "length (atxRead a) = MAX_TOPO_GRPS"
  shows "ctx_inv (c\<lparr>activeTxs := (activeTxs c)[p := a]\<rparr>)"
proof (rule ctx_inv_cong [OF assms(1)])
  fix q :: nat
  assume "q < 64"
  then have "length (atxWrite (activeTxs c ! q)) = MAX_STATES_TOPO \<and> length (atxRead (activeTxs c ! q)) = MAX_TOPO_GRPS"
    and "length (activeTxs c) = 64"
    using assms(1) by (simp_all add: ctx_inv_def)
  with assms(2-5) \<open>q < 64\<close>
  show "slot_id (c\<lparr>activeTxs := (activeTxs c)[p := a]\<rparr>) q = slot_id c q"
    and "length (atxWrite (activeTxs (c\<lparr>activeTxs := (activeTxs c)[p := a]\<rparr>) ! q)) = MAX_STATES_TOPO"
    and "length (atxRead (activeTxs (c\<lparr>activeTxs := (activeTxs c)[p := a]\<rparr>) ! q)) = MAX_TOPO_GRPS"
    by (simp_all add: nth_list_update)
qed (use assms(1) in \<open>simp_all add: ctx_inv_def\<close>)

lemma removeTx_slot:
  assumes inv: "ctx_inv c" and p: "p < 64" "slot_id c p = t" "t \<noteq> 0"
  shows "removeTx c t =
    Inr (c\<lparr>activeTxs := (activeTxs c)[p := (activeTxs c ! p)\<lparr>atxRead := [0]\<rparr>],
           usedSlots := unsetPos (usedSlots c) p\<rparr>)"
proof -
  let ?c1 = "c\<lparr>activeTxs := (activeTxs c)[p := (activeTxs c ! p)\<lparr>atxRead := [0]\<rparr>]\<rparr>"
  have len: "length (activeTxs c) = 64" using inv by (simp add: ctx_inv_def)
  have "length (atxRead (activeTxs c ! p)) = Suc 0" using inv p by (simp add: ctx_inv_def)
  then have "(atxRead (activeTxs c ! p))[0 := 0] = [0]" "0 < length (atxRead (activeTxs c ! p))"
    by (cases "atxRead (activeTxs c ! p)"; simp)+
  then have s: "setReadCTS c t 0 0 = Inr ?c1"
    using getPos_slot [OF inv p] by (simp add: setReadCTS_def Let_def)
  have id: "slot_id ?c1 q = slot_id c q" if "q < 64" for q
    using that len p(1) by (simp add: nth_list_update)
  have "ctx_inv ?c1"
    using inv p(1) by (intro ctx_inv_update) (simp_all add: ctx_inv_def)
  then have "getPosFromTxnID ?c1 t = Inr p"
    using getPos_slot [of ?c1 p t] p id by simp
  with s show ?thesis by (simp add: removeTx_def)
qed

lemma fold_min_le:
  fixes g :: "nat \<Rightarrow> TransactionID"
  assumes "\<And>p acc. f p acc \<le> acc" and "\<And>p acc. P p \<Longrightarrow> f p acc \<le> g p"
  shows "fold f ps a \<le> a \<and> (\<forall>p\<in>set ps. P p \<longrightarrow> fold f ps a \<le> g p)"
proof (induction ps arbitrary: a)
  case (Cons q ps)
  note ih = Cons.IH [of "f q a"]
  have "fold f ps (f q a) \<le> a" using ih assms(1) [of q a] by auto
  moreover have "fold f ps (f q a) \<le> g q" if "P q" using ih assms(2) [OF that, of a] by auto
  ultimately show ?case using ih by auto
qed simp

lemma minReadCTS_le:
  assumes "p < 64" "bit (usedSlots c) p" "atxRead (activeTxs c ! p) ! 0 \<noteq> 0"
  shows "minReadCTS c \<le> atxRead (activeTxs c ! p) ! 0"
proof -
  have "\<forall>q\<in>set [0..<64]. bit (usedSlots c) q \<and> atxRead (activeTxs c ! q) ! 0 \<noteq> 0 \<longrightarrow>
      minReadCTS c \<le> atxRead (activeTxs c ! q) ! 0"
    unfolding minReadCTS_def
    by (intro conjunct2 [OF fold_min_le]) (auto simp: Let_def)
  then show ?thesis using assms by simp
qed

lemma removeTx_correct:
  assumes inv: "ctx_inv c" and act: "active_tx c t"
  obtains c' where "removeTx c t = Inr c'" and "ctx_inv c'" and "\<not> active_tx c' t"
    and "\<And>u. u \<noteq> t \<Longrightarrow> active_tx c' u = active_tx c u"
    and "\<And>u tbl. u \<noteq> t \<Longrightarrow> active_tx c u \<Longrightarrow> getWriteStatus c' u tbl = getWriteStatus c u tbl"
    and "\<And>u topo. u \<noteq> t \<Longrightarrow> active_tx c u \<Longrightarrow> getReadCTS c' u topo = getReadCTS c u topo"
    and "usedSlots c' \<noteq> - 1" and "topoGrps c' = topoGrps c"
proof -
  obtain p where p: "p < 64" "bit (usedSlots c) p" "slot_id c p = t"
    using active_tx_slot [OF inv act] by metis
  note t0 = active_tx_nonzero [OF inv act]
  define c' where "c' = c\<lparr>activeTxs := (activeTxs c)[p := (activeTxs c ! p)\<lparr>atxRead := [0]\<rparr>],
           usedSlots := unsetPos (usedSlots c) p\<rparr>"
  have i1: "ctx_inv (c\<lparr>activeTxs := (activeTxs c)[p := (activeTxs c ! p)\<lparr>atxRead := [0]\<rparr>]\<rparr>)"
    using inv p(1) by (intro ctx_inv_update) (simp_all add: ctx_inv_def)
  have inv': "ctx_inv c'"
    by (rule ctx_inv_cong [OF i1]) (use i1 in \<open>simp_all add: c'_def ctx_inv_def bit_unsetPos\<close>)
  have id: "slot_id c' q = slot_id c q" if "q < 64" for q
    using inv that p(1) by (simp add: c'_def nth_list_update ctx_inv_def)
  have bit: "bit (usedSlots c') q \<longleftrightarrow> bit (usedSlots c) q \<and> q \<noteq> p" for q
    by (simp add: c'_def bit_unsetPos)
  have uniq: "q = p" if "q < 64" "slot_id c q = t" for q
    using inv p(1,3) t0 that unfolding ctx_inv_def by metis
  have same: "getPosFromTxnID c' u = getPosFromTxnID c u \<and>
      (\<forall>q. getPosFromTxnID c u = Inr q \<longrightarrow> activeTxs c' ! q = activeTxs c ! q)"
    if "u \<noteq> t" "active_tx c u" for u
  proof -
    note ua = that(2)
    obtain q where q: "q < 64" "slot_id c q = u" "getPosFromTxnID c u = Inr q"
      using active_tx_slot [OF inv ua] by metis
    moreover have "q \<noteq> p" using q(2) p(3) that(1) by auto
    moreover have "getPosFromTxnID c' u = Inr q"
      using getPos_slot [OF inv' q(1)] id [OF q(1)] q(2) active_tx_nonzero [OF inv that(2)] by simp
    ultimately show ?thesis by (simp add: c'_def)
  qed
  have act': "active_tx c' u \<longleftrightarrow> active_tx c u \<and> u \<noteq> t" for u
    unfolding active_tx_def using id bit uniq p by metis
  show thesis
  proof (rule that)
    show "removeTx c t = Inr c'" unfolding c'_def using removeTx_slot [OF inv p(1,3) t0] .
    show "getWriteStatus c' u tbl = getWriteStatus c u tbl" if "u \<noteq> t" "active_tx c u" for u tbl
      using same [OF that] by (cases "getPosFromTxnID c u") (simp_all add: getWriteStatus_def)
    show "getReadCTS c' u topo = getReadCTS c u topo" if "u \<noteq> t" "active_tx c u" for u topo
      using same [OF that] by (cases "getPosFromTxnID c u") (simp_all add: getReadCTS_def)
    show "usedSlots c' \<noteq> - 1" using bit [of p] p(1) by (auto simp: bit_minus_1_iff)
  qed (use inv' act' in \<open>simp_all add: c'_def\<close>)
qed

lemma slot_update_spec:
  assumes inv: "ctx_inv c" and p: "p < 64" "slot_id c p = t" "bit (usedSlots c) p"
    and a: "atxID a = t" "length (atxWrite a) = MAX_STATES_TOPO" "length (atxRead a) = MAX_TOPO_GRPS"
    and c': "c' = c\<lparr>activeTxs := (activeTxs c)[p := a]\<rparr>"
  shows "ctx_inv c'" and "active_tx c' u = active_tx c u"
    and "tbl < MAX_STATES_TOPO \<Longrightarrow> getWriteStatus c' t tbl = Inr (atxWrite a ! tbl)"
    and "getReadCTS c' t 0 = Inr (atxRead a ! 0)"
    and "active_tx c u \<Longrightarrow> u \<noteq> t \<Longrightarrow> getWriteStatus c' u tbl = getWriteStatus c u tbl"
    and "active_tx c u \<Longrightarrow> u \<noteq> t \<Longrightarrow> getReadCTS c' u topo = getReadCTS c u topo"
proof -
  have t0: "t \<noteq> 0" using inv p unfolding ctx_inv_def by blast
  have len: "length (activeTxs c) = 64" using inv by (simp add: ctx_inv_def)
  show inv': "ctx_inv c'" unfolding c' using inv p a by (intro ctx_inv_update) simp_all
  have id: "slot_id c' q = slot_id c q" if "q < 64" for q
    using that len p a by (auto simp: c' nth_list_update)
  show act: "active_tx c' u = active_tx c u" for u
    unfolding active_tx_def using id by (auto simp: c')
  have g: "getPosFromTxnID c' t = Inr p" using getPos_slot [OF inv' p(1)] id [OF p(1)] p(2) t0 by simp
  have pa: "activeTxs c' ! p = a" using len p(1) by (simp add: c')
  show "getWriteStatus c' t tbl = Inr (atxWrite a ! tbl)" if "tbl < MAX_STATES_TOPO"
    using getWriteStatus_slot [OF inv' g that] pa by simp
  show "getReadCTS c' t 0 = Inr (atxRead a ! 0)" using getReadCTS_slot [OF inv' g] pa by simp
  have other: "getPosFromTxnID c' u = getPosFromTxnID c u \<and>
      (\<forall>q. getPosFromTxnID c u = Inr q \<longrightarrow> activeTxs c' ! q = activeTxs c ! q)"
    if ua: "active_tx c u" "u \<noteq> t" for u
  proof -
    obtain q where q: "q < 64" "slot_id c q = u" "getPosFromTxnID c u = Inr q"
      using active_tx_slot [OF inv ua(1)] by metis
    moreover have "q \<noteq> p" using q(2) p(2) ua(2) by auto
    moreover have "getPosFromTxnID c' u = Inr q"
      using getPos_slot [OF inv' q(1)] id [OF q(1)] q(2) active_tx_nonzero [OF inv ua(1)] by simp
    ultimately show ?thesis by (simp add: c')
  qed
  show "getWriteStatus c' u tbl = getWriteStatus c u tbl" if "active_tx c u" "u \<noteq> t"
    using other [OF that] by (cases "getPosFromTxnID c u") (simp_all add: getWriteStatus_def)
  show "getReadCTS c' u topo = getReadCTS c u topo" if "active_tx c u" "u \<noteq> t"
    using other [OF that] by (cases "getPosFromTxnID c u") (simp_all add: getReadCTS_def)
qed

lemma setReadCTS_spec:
  assumes inv: "ctx_inv c" and act: "active_tx c t"
  obtains c' a where "setReadCTS c t 0 r = Inr (c\<lparr>activeTxs := a\<rparr>)" and "c' = c\<lparr>activeTxs := a\<rparr>" and "ctx_inv c'"
    and "\<And>u. active_tx c' u = active_tx c u" and "getReadCTS c' t 0 = Inr r"
    and "\<And>u. active_tx c u \<Longrightarrow> u \<noteq> t \<Longrightarrow> getReadCTS c' u 0 = getReadCTS c u 0"
    and "\<And>u tbl. active_tx c u \<Longrightarrow> tbl < MAX_STATES_TOPO \<Longrightarrow> getWriteStatus c' u tbl = getWriteStatus c u tbl"
proof -
  obtain p where p: "p < 64" "bit (usedSlots c) p" "slot_id c p = t" "getPosFromTxnID c t = Inr p"
    using active_tx_slot [OF inv act] by metis
  let ?a = "(activeTxs c ! p)\<lparr>atxRead := (atxRead (activeTxs c ! p))[0 := r]\<rparr>"
  define c' where "c' = c\<lparr>activeTxs := (activeTxs c)[p := ?a]\<rparr>"
  have lr: "length (atxRead (activeTxs c ! p)) = MAX_TOPO_GRPS" "length (atxWrite (activeTxs c ! p)) = MAX_STATES_TOPO"
    using inv p(1) by (simp_all add: ctx_inv_def)
  note sp = slot_update_spec [OF inv p(1,3,2) _ _ _ c'_def]
  show thesis
  proof (rule that [OF _ c'_def])
    show "setReadCTS c t 0 r = Inr (c\<lparr>activeTxs := (activeTxs c)[p := ?a]\<rparr>)"
      using p(4) lr(1) by (simp add: setReadCTS_def Let_def flip: length_greater_0_conv)
    show "getWriteStatus c' u tbl = getWriteStatus c u tbl" if "active_tx c u" "tbl < MAX_STATES_TOPO" for u tbl
      using sp(3,5) lr p(3) that getWriteStatus_slot [OF inv p(4) that(2)] by (cases "u = t") simp_all
    show "getReadCTS c' t 0 = Inr r" using sp(4) lr p(3) by simp
  qed (use sp lr p(3) in simp_all)
qed

lemma recalc_bound:
  assumes inv: "ctx_inv c" and nz: "oldestVisibleVersion c \<noteq> 0"
    and rec: "recalcOldestVisible c t = Inr (m, c')"
    and rd: "active_tx c u" "getReadCTS c u 0 = Inr r" "r \<noteq> 0" "r \<noteq> DTS_INF"
  shows "m \<le> r"
proof -
  obtain p where p: "p < 64" "bit (usedSlots c) p" "getPosFromTxnID c u = Inr p"
    using active_tx_slot [OF inv rd(1)] by metis
  have r: "r = atxRead (activeTxs c ! p) ! 0" using getReadCTS_slot [OF inv p(3)] rd(2) by simp
  have le: "minReadCTS c \<le> r" using minReadCTS_le [OF p(1,2)] r rd(3) by simp
  have "minReadCTS c \<noteq> DTS_INF"
    using le rd(4) word_order.extremum_unique [of r] by (auto simp: DTS_INF_def)
  with le rec nz show ?thesis by (auto simp: recalcOldestVisible_def Let_def)
qed

section \<open>Properties\<close>

text \<open>
  \<open>newTx\<close> registers a fresh transaction: while a slot is free and the counter does not
  wrap, it returns an id that no running transaction has, with status Active for both
  tables and an unset read snapshot; the running transactions are exactly the old ones and
  the new one, every other transaction keeps its status and snapshot, and the invariant of
  the context (ids unique, slots in range) is kept.
\<close>

theorem newTx_registers:
  assumes "ctx_inv c" and "usedSlots c \<noteq> - 1" and "nextTxID c \<noteq> - 1"
  shows "\<exists>t c'. newTx c = Inr (t, c') \<and> ctx_inv c' \<and> \<not> active_tx c t \<and>
    getWriteStatus c' t 0 = Inr Active \<and> getWriteStatus c' t 1 = Inr Active \<and> getReadCTS c' t 0 = Inr 0 \<and>
    (\<forall>u. active_tx c' u \<longleftrightarrow> active_tx c u \<or> u = t) \<and>
    (\<forall>u tbl topo. active_tx c u \<longrightarrow>
       getWriteStatus c' u tbl = getWriteStatus c u tbl \<and> getReadCTS c' u topo = getReadCTS c u topo)"
proof -
  obtain t c' where n: "newTx c = Inr (t, c')" using newTx_total [OF assms(2)] by blast
  show ?thesis
    using n newTx_inv [OF assms(1) n assms(3)] newTx_active [OF assms(1) n]
      newTx_fields [OF assms(1) n assms(3)] newTx_keeps_others [OF assms(1) n assms(3)]
    by (intro exI [of _ t] exI [of _ c']) simp
qed

abbreviation ctx0 :: StateContext where "ctx0 \<equiv> StateContext_new 7 0"

lemma ctx0_inv: "ctx_inv ctx0" by (rule ctx_inv_new) simp

theorem newTx_registers_witness: "\<exists>t c'. newTx ctx0 = Inr (t, c') \<and> ctx_inv c' \<and> active_tx c' t"
  using newTx_registers [OF ctx0_inv] by (auto simp: StateContext_new_def)

text \<open>
  \<open>removeTx\<close> ends exactly one transaction: for a running transaction it finds its slot,
  frees it (so \<open>newTx\<close> finds a free slot again), and leaves the status and the read snapshot
  of every other running transaction and the snapshot timestamps of the groups unchanged.
\<close>

theorem removeTx_releases:
  assumes "ctx_inv c" and "active_tx c t"
  shows "\<exists>c'. removeTx c t = Inr c' \<and> ctx_inv c' \<and> usedSlots c' \<noteq> - 1 \<and> topoGrps c' = topoGrps c \<and>
    (\<forall>u. active_tx c' u \<longleftrightarrow> active_tx c u \<and> u \<noteq> t) \<and>
    (\<forall>u tbl topo. active_tx c u \<longrightarrow> u \<noteq> t \<longrightarrow>
       getWriteStatus c' u tbl = getWriteStatus c u tbl \<and> getReadCTS c' u topo = getReadCTS c u topo)"
  using removeTx_correct [OF assms] by metis

theorem removeTx_releases_witness:
  "\<exists>t c c'. newTx ctx0 = Inr (t, c) \<and> active_tx c t \<and> removeTx c t = Inr c' \<and> \<not> active_tx c' t"
proof -
  obtain t c where n: "newTx ctx0 = Inr (t, c)" using newTx_total [of ctx0] by (auto simp: StateContext_new_def)
  have "ctx_inv c" using newTx_inv [OF ctx0_inv n] by (simp add: StateContext_new_def)
  moreover have "active_tx c t" using newTx_active(1) [OF ctx0_inv n] by simp
  ultimately show ?thesis using n removeTx_releases [of c t] by blast
qed

text \<open>
  Garbage collection respects readers, once it has run before: if the oldest visible
  version is set, \<open>recalcOldestVisible\<close> returns, never lowers the stored horizon, and its
  result is at most the read snapshot of every running transaction that has one (a snapshot
  is a commit timestamp and so below \<open>DTS_INF\<close>).
\<close>

theorem recalcOldestVisible_respects_readers:
  assumes "ctx_inv c" and "oldestVisibleVersion c \<noteq> 0"
  shows "\<exists>m c'. recalcOldestVisible c t = Inr (m, c') \<and> ctx_inv c' \<and>
    oldestVisibleVersion c \<le> oldestVisibleVersion c' \<and>
    (\<forall>u r. active_tx c u \<longrightarrow> getReadCTS c u 0 = Inr r \<longrightarrow> r \<noteq> 0 \<longrightarrow> r \<noteq> DTS_INF \<longrightarrow> m \<le> r)"
proof -
  have l: "getLastCTS c 0 = Inr (snd (topoGrps c ! 0))" using assms(1) by (simp add: getLastCTS_def ctx_inv_def)
  define m where "m = (if minReadCTS c = DTS_INF then snd (topoGrps c ! 0) else minReadCTS c)"
  have rec: "recalcOldestVisible c t =
      Inr (m, if oldestVisibleVersion c < m then c\<lparr>oldestVisibleVersion := m\<rparr> else c)"
    using assms(2) l by (simp add: recalcOldestVisible_def Let_def m_def)
  moreover have "ctx_inv (c\<lparr>oldestVisibleVersion := m\<rparr>)" using assms(1) by (simp add: ctx_inv_def)
  ultimately show ?thesis
    using assms(1) recalc_bound [OF assms rec]
    by (intro exI [of _ m] exI [of _ "if oldestVisibleVersion c < m then c\<lparr>oldestVisibleVersion := m\<rparr> else c"])
      (simp add: less_imp_le)
qed

theorem recalcOldestVisible_respects_readers_witness:
  "\<exists>m c'. recalcOldestVisible (ctx0\<lparr>oldestVisibleVersion := 3\<rparr>) 9 = Inr (m, c') \<and> ctx_inv c' \<and>
     3 \<le> oldestVisibleVersion c'"
proof -
  have "ctx_inv (ctx0\<lparr>oldestVisibleVersion := 3\<rparr>)" using ctx0_inv by (simp add: ctx_inv_def)
  then show ?thesis using recalcOldestVisible_respects_readers [of "ctx0\<lparr>oldestVisibleVersion := 3\<rparr>" 9] by auto
qed

end
