(* ===== verification/Mvcc_Object.thy ===== *)
theory Mvcc_Object
  imports State_Context
begin

text \<open>
  The version object of \<open>table/MVCCTable.hpp\<close> (\<open>MVCCObject\<close> with its two version slots) and the
  wait loop of the commit that frees a slot. The stores of \<open>newEntry\<close> and \<open>cleanUpVersions\<close>
  are kept as single steps in program order, so that what a concurrent reader sees between
  two stores can be stated. Array accesses with position \<open>-1\<close> are out of bounds.
\<close>

unbundle bit_operations_syntax

section \<open>Version objects\<close>

abbreviation "VERSIONS \<equiv> 2 :: nat"

record 'v MVCCObject =
  headers :: "(TransactionID \<times> TransactionID) list"  \<comment> \<open>\<open>cts\<close> and \<open>dts\<close>\<close>
  oUsed :: "8 word"
  mvalues :: "'v list"

definition MVCCObject_new :: "'v \<Rightarrow> 'v MVCCObject" where
  "MVCCObject_new d = \<lparr>headers = replicate VERSIONS (DTS_INF, 0), oUsed = 0, mvalues = replicate VERSIONS d\<rparr>"

abbreviation cts :: "'v MVCCObject \<Rightarrow> nat \<Rightarrow> TransactionID" where "cts ob i \<equiv> fst (headers ob ! i)"
abbreviation dts :: "'v MVCCObject \<Rightarrow> nat \<Rightarrow> TransactionID" where "dts ob i \<equiv> snd (headers ob ! i)"

definition getCurrent :: "'v MVCCObject \<Rightarrow> TransactionID \<Rightarrow> int" where
  "getCurrent ob txnID =
     (case find (\<lambda>i. bit (oUsed ob) i \<and> dts ob i > txnID \<and> cts ob i \<le> txnID) [0..<VERSIONS] of
        Some i \<Rightarrow> int i | None \<Rightarrow> - 1)"

definition set_cts :: "nat \<Rightarrow> TransactionID \<Rightarrow> 'v MVCCObject \<Rightarrow> 'v MVCCObject" where
  "set_cts i t ob = ob\<lparr>headers := (headers ob)[i := (t, dts ob i)]\<rparr>"

definition set_dts :: "nat \<Rightarrow> TransactionID \<Rightarrow> 'v MVCCObject \<Rightarrow> 'v MVCCObject" where
  "set_dts i t ob = ob\<lparr>headers := (headers ob)[i := (cts ob i, t)]\<rparr>"

definition set_value :: "nat \<Rightarrow> 'v \<Rightarrow> 'v MVCCObject \<Rightarrow> 'v MVCCObject" where
  "set_value i v ob = ob\<lparr>mvalues := (mvalues ob)[i := v]\<rparr>"

definition use_slot :: "nat \<Rightarrow> 'v MVCCObject \<Rightarrow> 'v MVCCObject" where
  "use_slot i ob = ob\<lparr>oUsed := oUsed ob OR push_bit i 1\<rparr>"

definition free_slot :: "nat \<Rightarrow> 'v MVCCObject \<Rightarrow> 'v MVCCObject" where
  "free_slot i ob = ob\<lparr>oUsed := oUsed ob AND NOT (push_bit i 1)\<rparr>"

text \<open>The states between the stores of a sequence.\<close>

fun trace :: "('s \<Rightarrow> 's) list \<Rightarrow> 's \<Rightarrow> 's list" where
  "trace [] s = [s]"
| "trace (st # sts) s = s # trace sts (st s)"

text \<open>The stores of \<open>newEntry\<close> in program order.\<close>

definition newEntry_stores :: "TransactionID \<Rightarrow> nat \<Rightarrow> nat \<Rightarrow> 'v \<Rightarrow> ('v MVCCObject \<Rightarrow> 'v MVCCObject) list" where
  "newEntry_stores txnID iPos dPos value =
     [set_value iPos value, set_cts iPos txnID, set_dts iPos DTS_INF, set_dts dPos txnID, use_slot iPos]"

definition newEntry :: "'v MVCCObject \<Rightarrow> TransactionID \<Rightarrow> nat \<Rightarrow> int \<Rightarrow> 'v \<Rightarrow> 'v MVCCObject res" where
  "newEntry ob txnID iPos dPos value =
     (if iPos < VERSIONS \<and> 0 \<le> dPos \<and> dPos < int VERSIONS
      then Inr (fold (\<lambda>st. st) (newEntry_stores txnID iPos (nat dPos) value) ob)
      else Inl OutOfBounds)"

definition clean_stores :: "nat \<Rightarrow> ('v MVCCObject \<Rightarrow> 'v MVCCObject) list" where
  "clean_stores i = [free_slot i, set_cts i DTS_INF, set_dts i 0]"

definition cleanUpVersions :: "'v MVCCObject \<Rightarrow> TransactionID \<Rightarrow> 'v MVCCObject" where
  "cleanUpVersions ob oldestReadVersion =
     fold (\<lambda>i ob. if dts ob i \<le> oldestReadVersion then fold (\<lambda>st. st) (clean_stores i) ob else ob)
       [0..<VERSIONS] ob"

text \<open>
  The loop that waits for a free version slot, for one commit: the context is the one the
  committing thread sees, the fuel bounds the rounds, and \<open>None\<close> means still waiting.
\<close>

fun freeSlot_loop ::
  "nat \<Rightarrow> StateContext \<Rightarrow> TransactionID \<Rightarrow> 'v MVCCObject \<Rightarrow> (nat \<times> 'v MVCCObject \<times> StateContext) res option" where
  "freeSlot_loop 0 c txnID ob = None"
| "freeSlot_loop (Suc n) c txnID ob =
     (let iPos = getFreePos (ucast (oUsed ob))
      in if iPos > VERSIONS - 1
         then (case recalcOldestVisible c txnID of
                 Inl e \<Rightarrow> Some (Inl e)
               | Inr (oldest, c') \<Rightarrow> freeSlot_loop n c' txnID (cleanUpVersions ob oldest))
         else Some (Inr (iPos, ob, c)))"

text \<open>The updater that the commit applies to an existing entry.\<close>

definition mvcc_update ::
  "nat \<Rightarrow> StateContext \<Rightarrow> TransactionID \<Rightarrow> 'v \<Rightarrow> 'v MVCCObject \<Rightarrow> ('v MVCCObject \<times> StateContext) res option" where
  "mvcc_update fuel c txnID v ob =
     (let dPos = getCurrent ob txnID
      in (case freeSlot_loop fuel c txnID ob of
            None \<Rightarrow> None
          | Some (Inl e) \<Rightarrow> Some (Inl e)
          | Some (Inr (iPos, ob1, c1)) \<Rightarrow>
              Some (bind_res (newEntry ob1 txnID iPos dPos v) (\<lambda>ob2. Inr (ob2, c1)))))"

text \<open>The object the commit inserts for a key that is not in the table yet.\<close>

definition mvcc_first :: "'v \<Rightarrow> TransactionID \<Rightarrow> 'v \<Rightarrow> 'v MVCCObject" where
  "mvcc_first d txnID v =
     (let ob = MVCCObject_new d
      in (set_value 0 v (set_dts 0 DTS_INF (set_cts 0 txnID ob)))\<lparr>oUsed := 1\<rparr>)"

text \<open>What a reader with snapshot \<open>r\<close> reads from an object.\<close>

definition read_at :: "'v MVCCObject \<Rightarrow> TransactionID \<Rightarrow> 'v option" where
  "read_at ob r = (let pos = getCurrent ob r in if pos = - 1 then None else Some (mvalues ob ! nat pos))"

section \<open>Invariant and visibility\<close>

definition vis :: "'v MVCCObject \<Rightarrow> TransactionID \<Rightarrow> nat \<Rightarrow> bool" where
  "vis ob r i \<longleftrightarrow> i < VERSIONS \<and> bit (oUsed ob) i \<and> cts ob i \<le> r \<and> r < dts ob i"

text \<open>
  Both arrays have two elements, only the two slots are used, every used version has a
  non-empty validity interval, two used versions have disjoint ones, and one is current.
\<close>

definition mv_inv :: "'v MVCCObject \<Rightarrow> bool" where
  "mv_inv ob \<longleftrightarrow> length (headers ob) = VERSIONS \<and> length (mvalues ob) = VERSIONS \<and>
     (\<forall>i. bit (oUsed ob) i \<longrightarrow> i < VERSIONS \<and> cts ob i < dts ob i) \<and>
     (\<forall>i j. bit (oUsed ob) i \<longrightarrow> bit (oUsed ob) j \<longrightarrow> i \<noteq> j \<longrightarrow> dts ob i \<le> cts ob j \<or> dts ob j \<le> cts ob i) \<and>
     (\<exists>i. bit (oUsed ob) i \<and> dts ob i = DTS_INF)"

definition newest_before :: "'v MVCCObject \<Rightarrow> TransactionID \<Rightarrow> bool" where
  "newest_before ob t \<longleftrightarrow> (\<forall>i. bit (oUsed ob) i \<longrightarrow> cts ob i < t)"

lemma all_lt_2: "(\<forall>i < (2::nat). P i) \<longleftrightarrow> P 0 \<and> P 1"
  by (auto simp: less_2_cases_iff)

lemma getCurrent_cases:
  "getCurrent ob r = (if vis ob r 0 then 0 else if vis ob r 1 then 1 else - 1)"
proof -
  have "[0..<VERSIONS] = [0, 1]" by (simp add: upt_rec)
  then show ?thesis by (simp add: getCurrent_def vis_def conj_commute)
qed

lemma read_at_cases:
  "read_at ob r = (if vis ob r 0 then Some (mvalues ob ! 0) else if vis ob r 1 then Some (mvalues ob ! 1) else None)"
  by (simp add: read_at_def getCurrent_cases Let_def)

lemma read_at_cong:
  "(\<And>i. i < VERSIONS \<Longrightarrow> vis ob r i = vis ob' r i) \<Longrightarrow>
   (\<And>i. i < VERSIONS \<Longrightarrow> vis ob r i \<Longrightarrow> mvalues ob ! i = mvalues ob' ! i) \<Longrightarrow> read_at ob r = read_at ob' r"
  by (simp add: read_at_cases)

lemma vis_unique: "mv_inv ob \<Longrightarrow> vis ob r i \<Longrightarrow> vis ob r j \<Longrightarrow> i = j"
proof (rule ccontr)
  assume inv: "mv_inv ob" and i: "vis ob r i" and j: "vis ob r j" and "i \<noteq> j"
  then have "dts ob i \<le> cts ob j \<or> dts ob j \<le> cts ob i" unfolding mv_inv_def vis_def by blast
  moreover have "cts ob j < dts ob i" "cts ob i < dts ob j"
    using i j unfolding vis_def by (blast intro: le_less_trans)+
  ultimately show False by (simp add: not_le [symmetric])
qed

lemma read_at_vis: "mv_inv ob \<Longrightarrow> vis ob r i \<Longrightarrow> read_at ob r = Some (mvalues ob ! i)"
proof -
  assume inv: "mv_inv ob" and v: "vis ob r i"
  then have "i = 0 \<or> i = 1" by (simp add: vis_def less_2_cases_iff)
  then show ?thesis using v vis_unique [OF inv v, of 0] by (auto simp: read_at_cases)
qed

lemma not_inf_less: "t \<noteq> DTS_INF \<Longrightarrow> t < DTS_INF"
  by (simp add: DTS_INF_def word_order.not_eq_extremum)

text \<open>Before a commit at \<open>t\<close> the current version is the one visible at \<open>t\<close>.\<close>

lemma current_at:
  assumes "mv_inv ob" "newest_before ob t" "t \<noteq> DTS_INF"
  obtains d where "d < VERSIONS" "bit (oUsed ob) d" "dts ob d = DTS_INF" "vis ob t d" "getCurrent ob t = int d"
proof -
  obtain d where d: "bit (oUsed ob) d" "dts ob d = DTS_INF" using assms(1) by (auto simp: mv_inv_def)
  then have lt: "d < VERSIONS" using assms(1) by (auto simp: mv_inv_def)
  have "cts ob d < t" using d(1) assms(2) by (simp add: newest_before_def)
  then have v: "vis ob t d"
    using d lt not_inf_less [OF assms(3)] by (simp add: vis_def)
  have "d = 0 \<or> d = 1" using lt by (simp add: less_2_cases_iff)
  then have "getCurrent ob t = int d"
    using v vis_unique [OF assms(1) v, of 0] by (auto simp: getCurrent_cases)
  with d lt v that show thesis by blast
qed

lemmas store_defs = set_value_def set_cts_def set_dts_def use_slot_def free_slot_def

lemma bit_use: "i < 8 \<Longrightarrow> bit (oUsed (use_slot i ob)) j \<longleftrightarrow> bit (oUsed ob) j \<or> j = i"
  by (auto simp: use_slot_def bit_or_iff bit_exp_iff)

lemma bit_free: "i < 8 \<Longrightarrow> bit (oUsed (free_slot i ob)) j \<longleftrightarrow> bit (oUsed ob) j \<and> j \<noteq> i"
  by (auto simp: free_slot_def bit_and_iff bit_not_iff bit_exp_iff dest: bit_imp_le_length)

text \<open>The result of all stores of \<open>newEntry\<close>.\<close>

lemma newEntry_result:
  "fold (\<lambda>st. st) (newEntry_stores t i d v) ob =
     use_slot i (set_dts d t (set_dts i DTS_INF (set_cts i t (set_value i v ob))))"
  by (simp add: newEntry_stores_def)

lemma newEntry_fields:
  assumes "length (headers ob) = VERSIONS" "length (mvalues ob) = VERSIONS" "i < VERSIONS" "d < VERSIONS" "i \<noteq> d"
    and "ob' = fold (\<lambda>st. st) (newEntry_stores t i d v) ob"
  shows "cts ob' i = t" "dts ob' i = DTS_INF" "cts ob' d = cts ob d" "dts ob' d = t"
    "mvalues ob' ! i = v" "mvalues ob' ! d = mvalues ob ! d"
    "bit (oUsed ob') j \<longleftrightarrow> bit (oUsed ob) j \<or> j = i"
    "length (headers ob') = VERSIONS" "length (mvalues ob') = VERSIONS"
proof -
  have u: "oUsed (set_dts d t (set_dts i DTS_INF (set_cts i t (set_value i v ob)))) = oUsed ob"
    by (simp add: store_defs)
  show "bit (oUsed ob') j \<longleftrightarrow> bit (oUsed ob) j \<or> j = i"
    using bit_use [of i "set_dts d t (set_dts i DTS_INF (set_cts i t (set_value i v ob)))" j] assms(3,6)
    by (simp add: newEntry_result u)
qed (use assms in \<open>simp_all add: newEntry_result store_defs\<close>)

lemma newEntry_trace_vis:
  assumes "mv_inv ob" "i < VERSIONS" "d < VERSIONS" "\<not> bit (oUsed ob) i" "bit (oUsed ob) d"
    and "dts ob d = DTS_INF" "r < t" "s \<in> set (trace (newEntry_stores t i d v) ob)" "j < VERSIONS"
  shows "vis s r j = vis ob r j" and "vis ob r j \<Longrightarrow> mvalues s ! j = mvalues ob ! j"
proof -
  have len: "length (headers ob) = VERSIONS" "length (mvalues ob) = VERSIONS" using assms(1) by (simp_all add: mv_inv_def)
  have ne: "i \<noteq> d" using assms(4,5) by auto
  have ri: "r < DTS_INF" using less_le_trans [OF assms(7) word_order.extremum] by (simp add: DTS_INF_def)
  have j: "j = i \<or> j = d" using assms(2,3,9) ne by (auto simp: less_2_cases_iff)
  show "vis s r j = vis ob r j"
    using j
  proof
    assume ji: "j = i"
    have "\<not> vis s r i"
      using assms(2,4,7,8) len ne bit_use [of i]
      by (auto simp: newEntry_stores_def vis_def) (auto simp: store_defs not_le)
    then show ?thesis using ji assms(4) by (simp add: vis_def)
  next
    assume jd: "j = d"
    have "bit (oUsed s) d \<and> cts s d = cts ob d \<and> (dts s d = DTS_INF \<or> dts s d = t)"
      using assms(2,3,5,6,8) len ne bit_use [of i]
      by (auto simp: newEntry_stores_def) (auto simp: store_defs)
    then show ?thesis using jd assms(3,5,6,7) ri by (auto simp: vis_def)
  qed
  show "mvalues s ! j = mvalues ob ! j" if "vis ob r j"
  proof -
    have "j = d" using j that assms(4) by (auto simp: vis_def)
    then show ?thesis using assms(8) ne by (auto simp: newEntry_stores_def store_defs)
  qed
qed

lemma newEntry_mv_inv:
  assumes "mv_inv ob" "newest_before ob t" "t \<noteq> DTS_INF" "i < VERSIONS" "\<not> bit (oUsed ob) i"
    and "d < VERSIONS" "bit (oUsed ob) d" "dts ob d = DTS_INF"
    and "ob' = fold (\<lambda>st. st) (newEntry_stores t i d v) ob"
  shows "mv_inv ob'" and "read_at ob' t = Some v" and "\<forall>j. bit (oUsed ob') j \<longrightarrow> cts ob' j \<le> t"
proof -
  have len: "length (headers ob) = VERSIONS" "length (mvalues ob) = VERSIONS" using assms(1) by (simp_all add: mv_inv_def)
  have ne: "i \<noteq> d" using assms(5,7) by auto
  note f = newEntry_fields [OF len assms(4,6) ne assms(9)]
  have only: "bit (oUsed ob) j \<longrightarrow> j = d" for j
    using assms(1,4,5,6) ne by (auto simp: mv_inv_def less_2_cases_iff)
  have dt: "cts ob d < t" using assms(2,7) by (simp add: newest_before_def)
  show inv': "mv_inv ob'"
    unfolding mv_inv_def using f only dt not_inf_less [OF assms(3)] assms(4,6) by auto
  have "vis ob' t i" using f not_inf_less [OF assms(3)] assms(4) by (simp add: vis_def)
  then show "read_at ob' t = Some v" using read_at_vis [OF inv'] f(5) by simp
  show "\<forall>j. bit (oUsed ob') j \<longrightarrow> cts ob' j \<le> t" using f only dt by (auto simp: less_imp_le)
qed

text \<open>One slot of \<open>cleanUpVersions\<close>.\<close>

definition clean_slot :: "TransactionID \<Rightarrow> nat \<Rightarrow> 'v MVCCObject \<Rightarrow> 'v MVCCObject" where
  "clean_slot oldest i ob = (if dts ob i \<le> oldest then fold (\<lambda>st. st) (clean_stores i) ob else ob)"

lemma cleanUp_slots: "cleanUpVersions ob oldest = clean_slot oldest 1 (clean_slot oldest 0 ob)"
proof -
  have "[0..<VERSIONS] = [0, 1]" by (simp add: upt_rec)
  then show ?thesis by (simp add: cleanUpVersions_def clean_slot_def)
qed

lemma clean_trace_vis:
  assumes "length (headers ob) = VERSIONS" "i < VERSIONS" "dts ob i \<le> oldest" "oldest \<le> r"
    and "s \<in> set (trace (clean_stores i) ob)" "j < VERSIONS"
  shows "vis s r j = vis ob r j" and "mvalues s = mvalues ob"
proof -
  show "mvalues s = mvalues ob" using assms(5) by (auto simp: clean_stores_def store_defs)
  show "vis s r j = vis ob r j"
  proof (cases "j = i")
    case True
    have "\<not> r < dts ob i" using assms(3,4) by simp
    moreover have "\<not> bit (oUsed s) i \<or> s = ob"
      using assms(2,5) bit_free [of i ob i] by (auto simp: clean_stores_def store_defs)
    ultimately show ?thesis using True by (auto simp: vis_def)
  next
    case False
    have "bit (oUsed s) j = bit (oUsed ob) j" and "headers s ! j = headers ob ! j"
      using assms(2,5) bit_free [of i ob j] False by (auto simp: clean_stores_def store_defs)
    then show ?thesis by (simp add: vis_def)
  qed
qed

lemma clean_slot_fields:
  assumes "i < VERSIONS"
  shows "bit (oUsed (clean_slot oldest i ob)) j \<longleftrightarrow> bit (oUsed ob) j \<and> \<not> (j = i \<and> dts ob i \<le> oldest)"
    and "j \<noteq> i \<or> oldest < dts ob i \<Longrightarrow> headers (clean_slot oldest i ob) ! j = headers ob ! j"
    and "length (headers (clean_slot oldest i ob)) = length (headers ob)"
    and "mvalues (clean_slot oldest i ob) = mvalues ob"
  using assms bit_free [of i ob j] by (auto simp: clean_slot_def clean_stores_def store_defs)

lemma clean_slot_inv:
  assumes "mv_inv ob" "i < VERSIONS" "oldest \<noteq> DTS_INF"
  shows "mv_inv (clean_slot oldest i ob)"
    and "newest_before ob t \<Longrightarrow> newest_before (clean_slot oldest i ob) t"
    and "bit (oUsed ob) d \<and> dts ob d = DTS_INF \<Longrightarrow>
      bit (oUsed (clean_slot oldest i ob)) d \<and> dts (clean_slot oldest i ob) d = DTS_INF"
proof -
  note f = clean_slot_fields [OF assms(2), where oldest = oldest and ob = ob]
  have same: "headers (clean_slot oldest i ob) ! j = headers ob ! j" if "bit (oUsed (clean_slot oldest i ob)) j" for j
    using that f(1) [of j] f(2) [of j] by (auto simp: not_le)
  show keep: "bit (oUsed (clean_slot oldest i ob)) d \<and> dts (clean_slot oldest i ob) d = DTS_INF"
    if "bit (oUsed ob) d \<and> dts ob d = DTS_INF" for d
    using that f(1) [of d] same [of d] not_inf_less [OF assms(3)] by (auto simp: not_le [symmetric])
  show "newest_before (clean_slot oldest i ob) t" if "newest_before ob t"
    using that same f(1) unfolding newest_before_def by metis
  show "mv_inv (clean_slot oldest i ob)"
    unfolding mv_inv_def
  proof (intro conjI allI impI)
    show "length (headers (clean_slot oldest i ob)) = VERSIONS" "length (mvalues (clean_slot oldest i ob)) = VERSIONS"
      using assms(1) f(3,4) by (simp_all add: mv_inv_def)
    show "j < VERSIONS" "cts (clean_slot oldest i ob) j < dts (clean_slot oldest i ob) j"
      if "bit (oUsed (clean_slot oldest i ob)) j" for j
      using assms(1) same [OF that] that f(1) unfolding mv_inv_def by simp_all
    show "dts (clean_slot oldest i ob) j \<le> cts (clean_slot oldest i ob) k \<or>
        dts (clean_slot oldest i ob) k \<le> cts (clean_slot oldest i ob) j"
      if "bit (oUsed (clean_slot oldest i ob)) j" "bit (oUsed (clean_slot oldest i ob)) k" "j \<noteq> k" for j k
      using assms(1) same [OF that(1)] same [OF that(2)] that f(1) unfolding mv_inv_def by simp
    show "\<exists>j. bit (oUsed (clean_slot oldest i ob)) j \<and> dts (clean_slot oldest i ob) j = DTS_INF"
      using assms(1) keep unfolding mv_inv_def by blast
  qed
qed

lemma clean_slot_reads:
  assumes "length (headers ob) = VERSIONS" "i < VERSIONS" "oldest \<le> r"
  shows "read_at (clean_slot oldest i ob) r = read_at ob r"
proof (cases "dts ob i \<le> oldest")
  case True
  have "clean_slot oldest i ob \<in> set (trace (clean_stores i) ob)"
    using True by (simp add: clean_slot_def clean_stores_def)
  then show ?thesis
    using clean_trace_vis [OF assms(1,2) True assms(3)] by (intro read_at_cong) simp_all
qed (simp add: clean_slot_def)

lemma cleanUp_inv:
  assumes "mv_inv ob" "oldest \<noteq> DTS_INF"
  shows "mv_inv (cleanUpVersions ob oldest)"
    and "newest_before ob t \<Longrightarrow> newest_before (cleanUpVersions ob oldest) t"
    and "bit (oUsed ob) d \<and> dts ob d = DTS_INF \<Longrightarrow>
      bit (oUsed (cleanUpVersions ob oldest)) d \<and> dts (cleanUpVersions ob oldest) d = DTS_INF"
    and "oldest \<le> r \<Longrightarrow> read_at (cleanUpVersions ob oldest) r = read_at ob r"
  using clean_slot_inv [OF assms(1) _ assms(2), of 0] clean_slot_inv [OF clean_slot_inv(1) [OF assms(1) _ assms(2), of 0] _ assms(2), of 1]
    clean_slot_reads [of ob 0 oldest r] clean_slot_reads [of "clean_slot oldest 0 ob" 1 oldest r]
    clean_slot_fields(3) [of 0 oldest ob] assms(1)
  by (simp_all add: cleanUp_slots mv_inv_def)

section \<open>Waiting for a free slot\<close>

lemma bit_ucast_used: "mv_inv ob \<Longrightarrow> bit (ucast (oUsed ob) :: 64 word) i \<longleftrightarrow> bit (oUsed ob) i"
  by (auto simp: bit_ucast_iff mv_inv_def dest!: spec [of _ i])

lemma freePos_object:
  assumes "mv_inv ob"
  shows "getFreePos (ucast (oUsed ob)) < VERSIONS \<longleftrightarrow> (\<exists>i < VERSIONS. \<not> bit (oUsed ob) i)"
    and "\<not> bit (oUsed ob) (getFreePos (ucast (oUsed ob)))"
proof -
  have ne: "(ucast (oUsed ob) :: 64 word) \<noteq> - 1"
  proof
    assume "(ucast (oUsed ob) :: 64 word) = - 1"
    then have "bit (oUsed ob) 5" using bit_ucast_used [OF assms, of 5] by (simp add: bit_minus_1_iff)
    then show False using assms by (auto simp: mv_inv_def)
  qed
  note g = getFreePos_spec [OF ne]
  show nb: "\<not> bit (oUsed ob) (getFreePos (ucast (oUsed ob)))"
    using g(2) bit_ucast_used [OF assms] by simp
  show "getFreePos (ucast (oUsed ob)) < VERSIONS \<longleftrightarrow> (\<exists>i < VERSIONS. \<not> bit (oUsed ob) i)"
    using nb g(3) bit_ucast_used [OF assms] by (meson leI less_le_trans)
qed

text \<open>
  \<open>R\<close> are snapshots that running transactions have registered: garbage collection has run
  before (or there is no such snapshot), and the group's last commit is a proper timestamp.
\<close>

definition readers_ok :: "StateContext \<Rightarrow> TransactionID set \<Rightarrow> bool" where
  "readers_ok c R \<longleftrightarrow> ctx_inv c \<and> snd (topoGrps c ! 0) \<noteq> DTS_INF \<and> (R = {} \<or> oldestVisibleVersion c \<noteq> 0) \<and>
     (\<forall>r\<in>R. r \<noteq> 0 \<and> r \<noteq> DTS_INF \<and> (\<exists>u. active_tx c u \<and> getReadCTS c u 0 = Inr r))"

lemma ctx_horizon_upd [simp]:
  "ctx_inv (c\<lparr>oldestVisibleVersion := m\<rparr>) = ctx_inv c" "active_tx (c\<lparr>oldestVisibleVersion := m\<rparr>) = active_tx c"
  "getReadCTS (c\<lparr>oldestVisibleVersion := m\<rparr>) = getReadCTS c" "getWriteStatus (c\<lparr>oldestVisibleVersion := m\<rparr>) = getWriteStatus c"
  "getPosFromTxnID (c\<lparr>oldestVisibleVersion := m\<rparr>) = getPosFromTxnID c"
  by (auto simp: ctx_inv_def active_tx_def fun_eq_iff getReadCTS_def getWriteStatus_def getPosFromTxnID_def)

definition horizon :: "StateContext \<Rightarrow> TransactionID" where
  "horizon c = (if oldestVisibleVersion c = 0 \<or> minReadCTS c = DTS_INF then snd (topoGrps c ! 0) else minReadCTS c)"

lemma recalc_eq:
  assumes "ctx_inv c"
  shows "recalcOldestVisible c t = Inr (horizon c,
    if oldestVisibleVersion c = 0 \<or> oldestVisibleVersion c < horizon c then c\<lparr>oldestVisibleVersion := horizon c\<rparr> else c)"
proof -
  have "getLastCTS c 0 = Inr (snd (topoGrps c ! 0))" using assms by (simp add: getLastCTS_def ctx_inv_def)
  then show ?thesis by (simp add: recalcOldestVisible_def Let_def horizon_def)
qed

lemma recalc_ctx:
  assumes "ctx_inv c" and "recalcOldestVisible c t = Inr (m, c')"
  obtains o' where "c' = c\<lparr>oldestVisibleVersion := o'\<rparr>" and "oldestVisibleVersion c \<noteq> 0 \<longrightarrow> o' \<noteq> 0"
proof (cases "oldestVisibleVersion c = 0 \<or> oldestVisibleVersion c < horizon c")
  case True
  then have "c' = c\<lparr>oldestVisibleVersion := horizon c\<rparr>" using assms(2) recalc_eq [OF assms(1), of t] by auto
  moreover have "oldestVisibleVersion c \<noteq> 0 \<longrightarrow> horizon c \<noteq> 0" using True by auto
  ultimately show thesis by (rule that)
next
  case False
  then have "c' = c\<lparr>oldestVisibleVersion := oldestVisibleVersion c\<rparr>" using assms(2) recalc_eq [OF assms(1), of t] by auto
  then show thesis by (rule that) simp
qed

lemma readers_ok_recalc:
  assumes "readers_ok c R" and rec: "recalcOldestVisible c t = Inr (m, c')"
  shows "m \<noteq> DTS_INF" and "r \<in> R \<Longrightarrow> m \<le> r" and "readers_ok c' R"
proof -
  have inv: "ctx_inv c" using assms(1) by (simp add: readers_ok_def)
  show "m \<noteq> DTS_INF"
    using assms(1) recalc_eq [OF inv, of t] rec by (auto simp: readers_ok_def horizon_def)
  show "m \<le> r" if rR: "r \<in> R"
  proof -
    have "oldestVisibleVersion c \<noteq> 0" using assms(1) rR by (auto simp: readers_ok_def)
    moreover obtain u where "active_tx c u" "getReadCTS c u 0 = Inr r" "r \<noteq> 0" "r \<noteq> DTS_INF"
      using assms(1) rR unfolding readers_ok_def by blast
    ultimately show ?thesis using recalc_bound [OF inv _ rec] by blast
  qed
  obtain o' where c': "c' = c\<lparr>oldestVisibleVersion := o'\<rparr>" and "oldestVisibleVersion c \<noteq> 0 \<longrightarrow> o' \<noteq> 0"
    using recalc_ctx [OF inv rec] by metis
  then show "readers_ok c' R" using assms(1) by (auto simp: readers_ok_def)
qed

text \<open>The loop keeps the object's invariant, its current version and the reads of all snapshots.\<close>

lemma freeSlot_loop_keeps:
  assumes "freeSlot_loop n c t ob = Some (Inr (i, ob', c'))" and "mv_inv ob" and "readers_ok c R"
    and "bit (oUsed ob) d \<and> dts ob d = DTS_INF"
  shows "mv_inv ob' \<and> (\<forall>r\<in>R. read_at ob' r = read_at ob r) \<and> i < VERSIONS \<and> \<not> bit (oUsed ob') i \<and>
    bit (oUsed ob') d \<and> dts ob' d = DTS_INF \<and> (newest_before ob s \<longrightarrow> newest_before ob' s) \<and> readers_ok c' R"
  using assms
proof (induction n arbitrary: c ob)
  case (Suc n)
  show ?case
  proof (cases "getFreePos (ucast (oUsed ob)) > VERSIONS - 1")
    case False
    then have "i = getFreePos (ucast (oUsed ob))" "ob' = ob" "c' = c" using Suc.prems(1) by auto
    then show ?thesis using False Suc.prems freePos_object [OF Suc.prems(2)] by auto
  next
    case True
    then obtain m c1 where rc: "recalcOldestVisible c t = Inr (m, c1)"
      and lp: "freeSlot_loop n c1 t (cleanUpVersions ob m) = Some (Inr (i, ob', c'))"
      using Suc.prems(1) by (auto simp: Let_def split: sum.splits)
    note hb = readers_ok_recalc [OF Suc.prems(3) rc]
    note cl = cleanUp_inv [OF Suc.prems(2) hb(1)]
    show ?thesis
      using Suc.IH [OF lp cl(1) hb(3) cl(3) [OF Suc.prems(4)]] cl(2) cl(4) hb(2) by auto
  qed
qed simp

lemma freeSlot_loop_no_error:
  assumes "mv_inv ob" and "readers_ok c R"
  shows "freeSlot_loop n c t ob \<noteq> Some (Inl e)"
  using assms
proof (induction n arbitrary: c ob)
  case (Suc n)
  have "ctx_inv c" using Suc.prems(2) by (simp add: readers_ok_def)
  then obtain m c1 where rc: "recalcOldestVisible c t = Inr (m, c1)"
    using recalc_eq by blast
  note hb = readers_ok_recalc [OF Suc.prems(2) rc]
  show ?case using Suc.IH [OF cleanUp_inv(1) [OF Suc.prems(1) hb(1)] hb(3)] rc by (simp add: Let_def)
qed simp

lemma mvcc_update_correct:
  assumes up: "mvcc_update fuel c t v ob = Some res" and inv: "mv_inv ob" "newest_before ob t" "t \<noteq> DTS_INF"
    and rd: "readers_ok c R" "\<forall>r\<in>R. r < t"
  obtains ob' c' where "res = Inr (ob', c')" and "mv_inv ob'" and "\<forall>r\<in>R. read_at ob' r = read_at ob r"
    and "read_at ob' t = Some v" and "\<forall>j. bit (oUsed ob') j \<longrightarrow> cts ob' j \<le> t" and "readers_ok c' R"
proof -
  obtain d where d: "d < VERSIONS" "bit (oUsed ob) d" "dts ob d = DTS_INF" and cur: "getCurrent ob t = int d"
    using current_at [OF inv] by metis
  obtain i ob1 c1 where lp: "freeSlot_loop fuel c t ob = Some (Inr (i, ob1, c1))"
    using up freeSlot_loop_no_error [OF inv(1) rd(1), of fuel t]
    by (auto simp: mvcc_update_def Let_def split: option.splits sum.splits)
  note k = freeSlot_loop_keeps [OF lp inv(1) rd(1), of d t] d(2,3) inv(2)
  have i: "i < VERSIONS" "\<not> bit (oUsed ob1) i" and d1: "bit (oUsed ob1) d" "dts ob1 d = DTS_INF"
    and i1: "mv_inv ob1" "newest_before ob1 t" using k by auto
  define ob' where "ob' = fold (\<lambda>st. st) (newEntry_stores t i d v) ob1"
  have res: "res = Inr (ob', c1)"
    using up lp cur i(1) d(1) by (auto simp: mvcc_update_def newEntry_def ob'_def)
  note n = newEntry_mv_inv [OF i1 inv(3) i d(1) d1 ob'_def]
  have "ob' \<in> set (trace (newEntry_stores t i d v) ob1)"
    by (simp add: ob'_def newEntry_stores_def)
  then have "read_at ob' r = read_at ob1 r" if "r \<in> R" for r
    using newEntry_trace_vis [OF i1(1) i(1) d(1) i(2) d1, of r t ob' v] rd(2) that by (intro read_at_cong) auto
  with that [OF res n(1) _ n(2,3)] k show thesis by auto
qed

lemma loop_returns_if_free:
  "mv_inv ob \<Longrightarrow> i < VERSIONS \<Longrightarrow> \<not> bit (oUsed ob) i \<Longrightarrow>
   freeSlot_loop (Suc n) c t ob = Some (Inr (getFreePos (ucast (oUsed ob)), ob, c))"
  using freePos_object(1) [of ob] by (auto simp: Let_def not_less)

lemma full_has_superseded:
  assumes "mv_inv ob" and "\<not> (\<exists>i < VERSIONS. \<not> bit (oUsed ob) i)"
  shows "\<exists>i < VERSIONS. dts ob i \<noteq> DTS_INF"
proof (rule ccontr)
  assume "\<not> (\<exists>i < VERSIONS. dts ob i \<noteq> DTS_INF)"
  then have "dts ob 0 = DTS_INF" "dts ob 1 = DTS_INF" by simp_all
  moreover have "dts ob 0 \<le> cts ob 1 \<or> dts ob 1 \<le> cts ob 0" "cts ob 0 < dts ob 0" "cts ob 1 < dts ob 1"
    using assms unfolding mv_inv_def by simp_all
  ultimately show False by (auto simp: not_le [symmetric])
qed

lemma loop_full_round:
  assumes "mv_inv ob" and "\<not> (\<exists>i < VERSIONS. \<not> bit (oUsed ob) i)" and "recalcOldestVisible c t = Inr (m, c1)"
  shows "freeSlot_loop (Suc n) c t ob = freeSlot_loop n c1 t (cleanUpVersions ob m)"
proof -
  have "\<not> getFreePos (ucast (oUsed ob)) < VERSIONS" using freePos_object(1) [OF assms(1)] assms(2) by blast
  then have "getFreePos (ucast (oUsed ob)) > VERSIONS - 1" by simp
  then show ?thesis using assms(3) by (simp add: Let_def)
qed

lemma cleanUp_frees:
  assumes "mv_inv ob" "i < VERSIONS" "dts ob i \<le> oldest"
  shows "\<not> bit (oUsed (cleanUpVersions ob oldest)) i"
proof -
  have "i = 0 \<or> i = 1" using assms(2) by (simp add: less_2_cases_iff)
  moreover have "dts (clean_slot oldest 0 ob) 1 = dts ob 1"
    using clean_slot_fields(2) [of 0 1 oldest ob] by simp
  ultimately show ?thesis
    using assms(3) clean_slot_fields(1) [of 0 oldest ob i] clean_slot_fields(1) [of 1 oldest "clean_slot oldest 0 ob" i]
    by (auto simp: cleanUp_slots)
qed

lemma cleanUp_nothing:
  assumes "\<And>i. i < VERSIONS \<Longrightarrow> oldest < dts ob i"
  shows "cleanUpVersions ob oldest = ob"
  using assms [of 0] assms [of 1] by (simp add: cleanUp_slots clean_slot_def not_le [symmetric])

lemma horizon_ge:
  assumes "ctx_inv c" "x \<le> snd (topoGrps c ! 0)"
    and "\<And>p. p < 64 \<Longrightarrow> bit (usedSlots c) p \<Longrightarrow> atxRead (activeTxs c ! p) ! 0 = 0 \<or> x \<le> atxRead (activeTxs c ! p) ! 0"
  shows "x \<le> horizon c"
proof -
  let ?f = "\<lambda>pos newMin. if bit (usedSlots c) pos then (let rCTS = atxRead (activeTxs c ! pos) ! 0
              in if rCTS \<noteq> 0 \<and> rCTS < newMin then rCTS else newMin) else newMin"
  have "x \<le> fold ?f ps a" if "set ps \<subseteq> {..<64}" "x \<le> a" for ps a
    using that
  proof (induction ps arbitrary: a)
    case (Cons p ps)
    then have "x \<le> ?f p a" using assms(3) [of p] by (auto simp: Let_def)
    then show ?case using Cons by simp
  qed simp
  from this [of "[0..<64]" DTS_INF] have "x \<le> minReadCTS c"
    unfolding minReadCTS_def by (simp add: DTS_INF_def subset_iff)
  then show ?thesis using assms(2) by (simp add: horizon_def)
qed

lemma wait_progress:
  assumes "mv_inv ob" and "readers_ok c {}"
    and "\<And>i. i < VERSIONS \<Longrightarrow> dts ob i \<noteq> DTS_INF \<Longrightarrow> dts ob i \<le> snd (topoGrps c ! 0)"
    and "\<And>i p. i < VERSIONS \<Longrightarrow> dts ob i \<noteq> DTS_INF \<Longrightarrow> p < 64 \<Longrightarrow> bit (usedSlots c) p \<Longrightarrow>
       atxRead (activeTxs c ! p) ! 0 = 0 \<or> dts ob i \<le> atxRead (activeTxs c ! p) ! 0"
  shows "\<exists>i ob' c'. freeSlot_loop 2 c t ob = Some (Inr (i, ob', c')) \<and> i < VERSIONS \<and> \<not> bit (oUsed ob') i \<and> mv_inv ob'"
proof (cases "\<exists>i < VERSIONS. \<not> bit (oUsed ob) i")
  case True
  then show ?thesis
    using loop_returns_if_free [OF assms(1)] freePos_object [OF assms(1)] assms(1) unfolding Suc_1 [symmetric] by blast
next
  case False
  then obtain i where i: "i < VERSIONS" "dts ob i \<noteq> DTS_INF"
    using full_has_superseded [OF assms(1)] by blast
  have inv: "ctx_inv c" using assms(2) by (simp add: readers_ok_def)
  have ge: "dts ob i \<le> horizon c" using assms(3,4) i by (intro horizon_ge [OF inv]) auto
  obtain c1 where rc: "recalcOldestVisible c t = Inr (horizon c, c1)" using recalc_eq [OF inv] by blast
  note ne = readers_ok_recalc(1) [OF assms(2) rc]
  let ?ob = "cleanUpVersions ob (horizon c)"
  have inv': "mv_inv ?ob" using cleanUp_inv(1) [OF assms(1) ne] .
  have free: "\<not> bit (oUsed ?ob) i" using cleanUp_frees [OF assms(1) i(1) ge] .
  have "freeSlot_loop 2 c t ob = freeSlot_loop 1 c1 t ?ob"
    using loop_full_round [OF assms(1) False rc] unfolding Suc_1 [symmetric] .
  then show ?thesis
    using loop_returns_if_free [OF inv' i(1) free, of 0 c1 t] freePos_object [OF inv'] i(1) free inv' by auto
qed

lemma freeSlot_loop_ctx:
  assumes "freeSlot_loop n c t ob = Some (Inr (i, ob', c'))" and "readers_ok c {}" and "mv_inv ob"
  shows "\<exists>m. c' = c\<lparr>oldestVisibleVersion := m\<rparr>"
  using assms
proof (induction n arbitrary: c ob)
  case (Suc n)
  have inv: "ctx_inv c" using Suc.prems(2) by (simp add: readers_ok_def)
  obtain m c1 where rc: "recalcOldestVisible c t = Inr (m, c1)" using recalc_eq [OF inv] by blast
  obtain o1 where c1: "c1 = c\<lparr>oldestVisibleVersion := o1\<rparr>" using recalc_ctx [OF inv rc] by metis
  note rd = readers_ok_recalc [OF Suc.prems(2) rc]
  show ?case
  proof (cases "getFreePos (ucast (oUsed ob)) > VERSIONS - 1")
    case True
    then have "freeSlot_loop n c1 t (cleanUpVersions ob m) = Some (Inr (i, ob', c'))"
      using Suc.prems(1) rc by (simp add: Let_def)
    from Suc.IH [OF this rd(3) cleanUp_inv(1) [OF Suc.prems(3) rd(1)]] show ?thesis by (auto simp: c1)
  next
    case False
    then have "c' = c\<lparr>oldestVisibleVersion := oldestVisibleVersion c\<rparr>" using Suc.prems(1) by (simp add: Let_def)
    then show ?thesis by blast
  qed
qed simp

lemma mvcc_update_ctx:
  assumes "readers_ok c {}" and "mv_inv ob" and "mvcc_update n c t v ob = Some (Inr (ob', c'))"
  obtains m where "c' = c\<lparr>oldestVisibleVersion := m\<rparr>"
proof -
  obtain i ob1 where "freeSlot_loop n c t ob = Some (Inr (i, ob1, c'))"
    using assms(3) by (auto simp: mvcc_update_def Let_def newEntry_def split: option.splits sum.splits if_splits)
  from freeSlot_loop_ctx [OF this assms(1,2)] show thesis using that by blast
qed

section \<open>Properties\<close>

text \<open>
  Installing a version does not disturb snapshots. For a commit at \<open>t\<close>, newer than every
  version of the object, and any free slot \<open>i\<close>, \<open>newEntry\<close> succeeds and keeps the version
  invariant, a reader at \<open>t\<close> then reads the new value, and a reader with an older snapshot
  reads the same value before, after and at every point between two of its stores.
\<close>

theorem newEntry_keeps_snapshots:
  assumes "mv_inv ob" and "newest_before ob t" and "t \<noteq> DTS_INF" and "i < VERSIONS" and "\<not> bit (oUsed ob) i"
  shows "\<exists>d ob'. getCurrent ob t = int d \<and> newEntry ob t i (getCurrent ob t) v = Inr ob' \<and>
    mv_inv ob' \<and> read_at ob' t = Some v \<and> ob' \<in> set (trace (newEntry_stores t i d v) ob) \<and>
    (\<forall>s\<in>set (trace (newEntry_stores t i d v) ob). \<forall>r < t. read_at s r = read_at ob r)"
proof -
  obtain d where d: "d < VERSIONS" "bit (oUsed ob) d" "dts ob d = DTS_INF" and cur: "getCurrent ob t = int d"
    using current_at [OF assms(1-3)] by metis
  define ob' where "ob' = fold (\<lambda>st. st) (newEntry_stores t i d v) ob"
  note n = newEntry_mv_inv [OF assms d ob'_def]
  have "newEntry ob t i (getCurrent ob t) v = Inr ob'"
    using assms(4) d(1) cur by (simp add: newEntry_def ob'_def)
  moreover have "ob' \<in> set (trace (newEntry_stores t i d v) ob)"
    by (simp add: ob'_def newEntry_stores_def)
  moreover have "read_at s r = read_at ob r" if "s \<in> set (trace (newEntry_stores t i d v) ob)" "r < t" for s r
    using newEntry_trace_vis [OF assms(1,4) d(1) assms(5) d(2,3) that(2,1)] by (intro read_at_cong) simp_all
  ultimately show ?thesis using cur n(1,2) by blast
qed

definition one_version :: "string MVCCObject" where
  "one_version = mvcc_first [] 5 ''old''"

lemma one_version_fields:
  "headers one_version = [(5, DTS_INF), (DTS_INF, 0)]" "oUsed one_version = 1" "mvalues one_version = [''old'', [] ]"
  by code_simp+

lemma one_version_ok: "mv_inv one_version" "newest_before one_version 9" "\<not> bit (oUsed one_version) 1"
  using not_inf_less [of 5]
  by (auto simp: one_version_fields mv_inv_def newest_before_def bit_1_iff) (simp add: DTS_INF_def)

theorem newEntry_keeps_snapshots_witness:
  "\<exists>d ob'. newEntry one_version 9 1 (getCurrent one_version 9) ''new'' = Inr ob' \<and> read_at ob' 9 = Some ''new'' \<and>
    (\<forall>s\<in>set (trace (newEntry_stores 9 1 d ''new'') one_version). \<forall>r < 9. read_at s r = read_at one_version r)"
  using newEntry_keeps_snapshots [OF one_version_ok(1,2) _ _ one_version_ok(3), of "''new''"]
  by (auto simp: DTS_INF_def)

text \<open>
  Garbage collection keeps every version that a snapshot at or above its horizon can see:
  \<open>cleanUpVersions\<close> preserves the version invariant and the reads of all such snapshots, also
  at every point between the stores that release one slot.
\<close>

theorem cleanUp_keeps_snapshots:
  assumes "mv_inv ob" and "oldest \<noteq> DTS_INF" and "oldest \<le> r"
  shows "mv_inv (cleanUpVersions ob oldest) \<and> read_at (cleanUpVersions ob oldest) r = read_at ob r \<and>
    (\<forall>i < VERSIONS. dts ob i \<le> oldest \<longrightarrow> (\<forall>s\<in>set (trace (clean_stores i) ob). read_at s r = read_at ob r))"
proof -
  have "length (headers ob) = VERSIONS" using assms(1) by (simp add: mv_inv_def)
  then have "read_at s r = read_at ob r"
    if "i < VERSIONS" "dts ob i \<le> oldest" "s \<in> set (trace (clean_stores i) ob)" for i s
    using clean_trace_vis [OF _ that(1,2) assms(3) that(3)] by (intro read_at_cong) simp_all
  then show ?thesis using cleanUp_inv [OF assms(1,2)] assms(3) by blast
qed

theorem cleanUp_keeps_snapshots_witness:
  "read_at (cleanUpVersions one_version 6) 7 = Some ''old''"
proof -
  have "read_at (cleanUpVersions one_version 6) 7 = read_at one_version 7"
    using cleanUp_keeps_snapshots [OF one_version_ok(1), of 6 7] by (simp add: DTS_INF_def)
  also have "\<dots> = Some ''old''" by code_simp
  finally show ?thesis .
qed

text \<open>
  A committing writer waits for readers and for nothing else. If every superseded version
  of the object was superseded at or before the last commit of the group and at or before the
  snapshot of every running reader, the loop returns a free slot after at most one clean-up
  round; it keeps the version invariant.
\<close>

theorem commit_wait_progress:
  assumes "mv_inv ob" and "readers_ok c {}"
    and "\<And>i. i < VERSIONS \<Longrightarrow> dts ob i \<noteq> DTS_INF \<Longrightarrow> dts ob i \<le> snd (topoGrps c ! 0)"
    and "\<And>i p. i < VERSIONS \<Longrightarrow> dts ob i \<noteq> DTS_INF \<Longrightarrow> p < 64 \<Longrightarrow> bit (usedSlots c) p \<Longrightarrow>
       atxRead (activeTxs c ! p) ! 0 = 0 \<or> dts ob i \<le> atxRead (activeTxs c ! p) ! 0"
  shows "\<exists>i ob' c'. freeSlot_loop 2 c t ob = Some (Inr (i, ob', c')) \<and> i < VERSIONS \<and> \<not> bit (oUsed ob') i \<and> mv_inv ob'"
  using assms by (rule wait_progress)

definition two_versions :: "string MVCCObject" where
  "two_versions = one_version\<lparr>headers := [(5, 9), (9, DTS_INF)], oUsed := 3, mvalues := [''old'', ''new'']\<rparr>"

lemma two_versions_ok: "mv_inv two_versions" "\<not> (\<exists>i < VERSIONS. \<not> bit (oUsed two_versions) i)"
proof -
  have b: "bit (3 :: 8 word) i \<longleftrightarrow> i = 0 \<or> i = 1" for i
    by (cases i) (auto simp: bit_numeral_rec bit_Suc bit_1_iff)
  have u: "oUsed two_versions = 3" by (simp add: two_versions_def)
  show "\<not> (\<exists>i < VERSIONS. \<not> bit (oUsed two_versions) i)"
    unfolding u b by auto
  show "mv_inv two_versions"
    unfolding mv_inv_def u b using not_inf_less [of 9] by (auto simp: two_versions_def DTS_INF_def)
qed

theorem commit_wait_progress_witness:
  "\<exists>i ob' c'. freeSlot_loop 2 (ctx0\<lparr>topoGrps := [([0, 1], 9)]\<rparr>) 12 two_versions = Some (Inr (i, ob', c')) \<and> mv_inv ob'"
proof -
  have ctx: "readers_ok (ctx0\<lparr>topoGrps := [([0, 1], 9)]\<rparr>) {}"
    using ctx0_inv by (simp add: readers_ok_def ctx_inv_def DTS_INF_def)
  have "\<exists>i ob' c'. freeSlot_loop 2 (ctx0\<lparr>topoGrps := [([0, 1], 9)]\<rparr>) 12 two_versions = Some (Inr (i, ob', c')) \<and>
      i < VERSIONS \<and> \<not> bit (oUsed ob') i \<and> mv_inv ob'"
    by (rule commit_wait_progress [OF two_versions_ok(1) ctx])
      (auto simp: two_versions_def less_2_cases_iff StateContext_new_def)
  then show ?thesis by blast
qed

text \<open>
  The writer does not overtake a reader: while a running transaction with snapshot \<open>r\<close> can
  still need both versions of the object (both slots are used and neither was superseded at
  or before \<open>r\<close>) and garbage collection has run before, no number of rounds of the loop
  returns, and so no commit discards a version that reader needs.
\<close>

theorem commit_waits_for_reader:
  assumes "mv_inv ob" and "\<not> (\<exists>i < VERSIONS. \<not> bit (oUsed ob) i)" and "readers_ok c {r}"
    and "\<And>i. i < VERSIONS \<Longrightarrow> r < dts ob i"
  shows "freeSlot_loop n c t ob = None"
  using assms(3)
proof (induction n arbitrary: c)
  case (Suc n)
  have "ctx_inv c" using Suc.prems by (simp add: readers_ok_def)
  then obtain m c1 where rc: "recalcOldestVisible c t = Inr (m, c1)" using recalc_eq by blast
  note hb = readers_ok_recalc [OF Suc.prems rc]
  have "cleanUpVersions ob m = ob"
    using hb(2) [of r] assms(4) by (intro cleanUp_nothing) (auto intro: le_less_trans)
  then show ?case using loop_full_round [OF assms(1,2) rc] Suc.IH [OF hb(3)] by simp
qed simp

text \<open>A context with one running reader at snapshot 7.\<close>

lemma reader_ctx_exists:
  assumes "x \<noteq> DTS_INF"
  obtains c u where "ctx_inv c" "active_tx c u" "getReadCTS c u 0 = Inr 7" "oldestVisibleVersion c = h"
    "topoGrps c = [([0, 1], x)]" "h \<noteq> 0 \<Longrightarrow> readers_ok c {7}" "u = 7"
proof -
  let ?c0 = "ctx0\<lparr>oldestVisibleVersion := h, topoGrps := [([0, 1], x)]\<rparr>"
  have i0: "ctx_inv ?c0" "usedSlots ?c0 \<noteq> - 1" "nextTxID ?c0 \<noteq> - 1"
    using ctx0_inv by (auto simp: ctx_inv_def StateContext_new_def)
  obtain t c1 where n: "newTx ?c0 = Inr (t, c1)" using newTx_total [OF i0(2)] by blast
  have i1: "ctx_inv c1" "active_tx c1 t" using newTx_inv [OF i0(1) n i0(3)] newTx_active(1) [OF i0(1) n] by auto
  obtain a where c: "ctx_inv (c1\<lparr>activeTxs := a\<rparr>)" "active_tx (c1\<lparr>activeTxs := a\<rparr>) t"
    "getReadCTS (c1\<lparr>activeTxs := a\<rparr>) t 0 = Inr 7"
    using setReadCTS_spec [OF i1, of 7] i1(2) by metis
  obtain q where t: "t = nextTxID ?c0" and "c1 = ?c0\<lparr>nextTxID := nextTxID ?c0 + 1, usedSlots := usedSlots ?c0 OR push_bit q 1,
                activeTxs := (activeTxs ?c0)[q := emptyTx t]\<rparr>"
    using newTx_InrD [OF n] by metis
  from this(2) have f: "oldestVisibleVersion (c1\<lparr>activeTxs := a\<rparr>) = h" "topoGrps (c1\<lparr>activeTxs := a\<rparr>) = [([0, 1], x)]" by simp_all
  have "h \<noteq> 0 \<Longrightarrow> readers_ok (c1\<lparr>activeTxs := a\<rparr>) {7}"
    using c f assms by (auto simp: readers_ok_def DTS_INF_def)
  moreover have "t = 7" using t by (simp add: StateContext_new_def)
  ultimately show thesis by (rule that [OF c f])
qed

theorem commit_waits_for_reader_witness:
  "\<exists>c. readers_ok c {7} \<and> (\<forall>n. freeSlot_loop n c 12 two_versions = None)"
proof -
  obtain c where c: "readers_ok c {7}"
    by (rule reader_ctx_exists [of 9 5]) (auto simp: DTS_INF_def)
  have d: "7 < dts two_versions i" if "i < VERSIONS" for i
    using that not_inf_less [of 7] by (auto simp: two_versions_def less_2_cases_iff DTS_INF_def)
  have "freeSlot_loop n c 12 two_versions = None" for n
    using commit_waits_for_reader [OF two_versions_ok c d] .
  with c show ?thesis by blast
qed

text \<open>
  The first garbage collection ignores readers. As long as the horizon is 0,
  \<open>recalcOldestVisible\<close> takes the last commit as the horizon without looking at the running
  transactions: a reachable kind of state with a reader at snapshot 7, an object with versions
  valid from 5 to 9 and from 9 on, and last commit 9 lets a committing writer discard the
  version the reader needs; the reader finds nothing where it read a value before.
\<close>

lemma first_gc_drops_readers_version:
  "\<exists>c u i ob' c'. ctx_inv c \<and> oldestVisibleVersion c = 0 \<and> active_tx c u \<and> getReadCTS c u 0 = Inr 7 \<and> read_at two_versions 7 = Some ''old'' \<and>
     freeSlot_loop 2 c 12 two_versions = Some (Inr (i, ob', c')) \<and> read_at ob' 7 = None"
proof -
  obtain c u where c: "ctx_inv c" "active_tx c u" "getReadCTS c u 0 = Inr 7" "oldestVisibleVersion c = 0"
    "topoGrps c = [([0, 1], 9)]"
    by (rule reader_ctx_exists [of 9 0]) (auto simp: DTS_INF_def)
  have h: "horizon c = 9" using c(4,5) by (simp add: horizon_def)
  obtain c1 where rc: "recalcOldestVisible c 12 = Inr (9, c1)" using recalc_eq [OF c(1), of 12] h by metis
  let ?ob = "cleanUpVersions two_versions 9"
  have o: "read_at two_versions 7 = Some ''old''" "read_at ?ob 7 = None" "getFreePos (ucast (oUsed ?ob)) = 0"
    by code_simp+
  have "freeSlot_loop 2 c 12 two_versions = freeSlot_loop 1 c1 12 ?ob"
    using loop_full_round [OF two_versions_ok rc] unfolding Suc_1 [symmetric] .
  also have "\<dots> = Some (Inr (0, ?ob, c1))" using o(3) by simp
  finally show ?thesis using c(1-4) o by blast
qed

end
