(* ===== verification/Cuckoo_Table.thy ===== *)
theory Cuckoo_Table
  imports Hash_Table
begin

text \<open>
  The table of \<open>table/CuckooTable.hpp\<close> over the concurrent hash map of libcuckoo. The map is
  not part of this code base: it is a record of the operations the table calls, an argument
  of every definition, and \<open>cuckoo_laws\<close> states their documented behaviour (\<open>insert\<close> adds
  the pair only if the key is not there, \<open>find\<close> copies the value, \<open>update_fn\<close> applies the
  function to the stored value, \<open>erase_fn\<close> erases it if the function returns true).
\<close>

section \<open>The map as a parameter\<close>

record ('m, 'k, 'v) cuckoohash_map =
  ck_find :: "'m \<Rightarrow> 'k \<Rightarrow> 'v option"
  ck_insert :: "'m \<Rightarrow> 'k \<Rightarrow> 'v \<Rightarrow> 'm \<times> bool"
  ck_update_fn :: "'m \<Rightarrow> 'k \<Rightarrow> ('v \<Rightarrow> 'v) \<Rightarrow> 'm \<times> bool"
  ck_erase_fn :: "'m \<Rightarrow> 'k \<Rightarrow> ('v \<Rightarrow> bool) \<Rightarrow> 'm \<times> bool"
  ck_clear :: "'m \<Rightarrow> 'm"

definition cuckoo_laws :: "('m, 'k, 'v) cuckoohash_map \<Rightarrow> bool" where
  "cuckoo_laws M \<longleftrightarrow>
     (\<forall>m k v. ck_find M (fst (ck_insert M m k v)) =
        (if ck_find M m k = None then (ck_find M m)(k \<mapsto> v) else ck_find M m)) \<and>
     (\<forall>m k f. ck_find M (fst (ck_update_fn M m k f)) = (ck_find M m)(k := map_option f (ck_find M m k)) \<and>
        snd (ck_update_fn M m k f) = (ck_find M m k \<noteq> None)) \<and>
     (\<forall>m k f. ck_find M (fst (ck_erase_fn M m k f)) =
        (case ck_find M m k of Some v \<Rightarrow> if f v then (ck_find M m)(k := None) else ck_find M m | None \<Rightarrow> ck_find M m) \<and>
        snd (ck_erase_fn M m k f) = (ck_find M m k \<noteq> None)) \<and>
     (\<forall>m. ck_find M (ck_clear M m) = Map.empty)"

text \<open>A map that satisfies the laws: a finite partial function.\<close>

definition fun_map :: "('k \<rightharpoonup> 'v, 'k, 'v) cuckoohash_map" where
  "fun_map =
     \<lparr>ck_find = (\<lambda>m. m),
      ck_insert = (\<lambda>m k v. if m k = None then (m(k \<mapsto> v), True) else (m, False)),
      ck_update_fn = (\<lambda>m k f. (m(k := map_option f (m k)), m k \<noteq> None)),
      ck_erase_fn = (\<lambda>m k f. (case m k of Some v \<Rightarrow> if f v then m(k := None) else m | None \<Rightarrow> m, m k \<noteq> None)),
      ck_clear = (\<lambda>m. Map.empty)\<rparr>"

lemma fun_map_laws: "cuckoo_laws fun_map"
  by (auto simp: cuckoo_laws_def fun_map_def split: option.splits)

section \<open>Operations\<close>

record ('m, 'v) CuckooTable =
  cDataTable :: 'm
  cImmediateObservers :: nat
  cNotified :: "('v \<times> ModificationMode) list"

definition cuckoo_notify :: "('m, 'v) CuckooTable \<Rightarrow> 'v \<Rightarrow> ModificationMode \<Rightarrow> ('m, 'v) CuckooTable" where
  "cuckoo_notify t rec mode =
     (if cImmediateObservers t > 0 then t\<lparr>cNotified := cNotified t @ [(rec, mode)]\<rparr> else t)"

definition cuckoo_insert ::
  "('m, 'k, 'v) cuckoohash_map \<Rightarrow> ('m, 'v) CuckooTable \<Rightarrow> 'k \<Rightarrow> 'v \<Rightarrow> ('m, 'v) CuckooTable" where
  "cuckoo_insert M t key rec =
     cuckoo_notify (t\<lparr>cDataTable := fst (ck_insert M (cDataTable t) key rec)\<rparr>) rec MInsert"

definition cuckoo_deleteByKey ::
  "('m, 'k, 'v) cuckoohash_map \<Rightarrow> ('m, 'v) CuckooTable \<Rightarrow> 'k \<Rightarrow> ('m, 'v) CuckooTable \<times> nat" where
  "cuckoo_deleteByKey M t key =
     (case ck_find M (cDataTable t) key of
        None \<Rightarrow> (t, 0)
      | Some res \<Rightarrow>
          (let t1 = (if cImmediateObservers t \<noteq> 0 then cuckoo_notify t res MDelete else t)
           in (t1\<lparr>cDataTable := fst (ck_erase_fn M (cDataTable t1) key (\<lambda>_. True))\<rparr>, 1)))"

text \<open>\<open>updateOrDeleteByKey\<close> applies the updater to the copy that \<open>find\<close> returned.\<close>

definition cuckoo_updateOrDeleteByKey ::
  "('m, 'k, 'v) cuckoohash_map \<Rightarrow> ('m, 'v) CuckooTable \<Rightarrow> 'k \<Rightarrow> ('v \<Rightarrow> 'v \<times> bool) \<Rightarrow> 'v option \<Rightarrow>
   ('m, 'v) CuckooTable \<times> nat" where
  "cuckoo_updateOrDeleteByKey M t key ufunc ifunc =
     (case ck_find M (cDataTable t) key of
        Some rec \<Rightarrow>
          (let (res, upd) = ufunc rec
           in if \<not> upd
              then (let (m, b) = ck_erase_fn M (cDataTable t) key (\<lambda>_. True)
                    in (cuckoo_notify (t\<lparr>cDataTable := m\<rparr>) res MDelete, if b then 1 else 0))
              else (cuckoo_notify t res MUpdate, 1))
      | None \<Rightarrow> (case ifunc of Some rec \<Rightarrow> (cuckoo_insert M t key rec, 1) | None \<Rightarrow> (t, 0)))"

definition cuckoo_updateByKey ::
  "('m, 'k, 'v) cuckoohash_map \<Rightarrow> ('m, 'v) CuckooTable \<Rightarrow> 'k \<Rightarrow> ('v \<Rightarrow> 'v) \<Rightarrow> ('m, 'v) CuckooTable \<times> nat" where
  "cuckoo_updateByKey M t key ufunc =
     (let (m, b) = ck_update_fn M (cDataTable t) key ufunc; t1 = t\<lparr>cDataTable := m\<rparr>
      in if b
         then (case ck_find M m key of Some rec \<Rightarrow> (cuckoo_notify t1 rec MUpdate, 1) | None \<Rightarrow> (t1, 1))
         else (t1, 0))"

definition cuckoo_getByKey :: "('m, 'k, 'v) cuckoohash_map \<Rightarrow> ('m, 'v) CuckooTable \<Rightarrow> 'k \<Rightarrow> 'v res" where
  "cuckoo_getByKey M t key =
     (case ck_find M (cDataTable t) key of Some rec \<Rightarrow> Inr rec | None \<Rightarrow> Inl KeyNotFound)"

definition cuckoo_getByKey_out :: "('m, 'k, 'v) cuckoohash_map \<Rightarrow> ('m, 'v) CuckooTable \<Rightarrow> 'k \<Rightarrow> 'v option" where
  "cuckoo_getByKey_out M t key = ck_find M (cDataTable t) key"

definition cuckoo_truncate :: "('m, 'k, 'v) cuckoohash_map \<Rightarrow> ('m, 'v) CuckooTable \<Rightarrow> ('m, 'v) CuckooTable" where
  "cuckoo_truncate M t = t\<lparr>cDataTable := ck_clear M (cDataTable t)\<rparr>"

section \<open>Lemmas\<close>

abbreviation cuckoo_lookup :: "('m, 'k, 'v) cuckoohash_map \<Rightarrow> ('m, 'v) CuckooTable \<Rightarrow> 'k \<rightharpoonup> 'v" where
  "cuckoo_lookup M t \<equiv> ck_find M (cDataTable t)"

lemma cuckoo_notify_data [simp]: "cDataTable (cuckoo_notify t r m) = cDataTable t"
  by (simp add: cuckoo_notify_def)

lemma cuckoo_insert_lookup:
  "cuckoo_laws M \<Longrightarrow> cuckoo_lookup M (cuckoo_insert M t k v) =
     (if cuckoo_lookup M t k = None then (cuckoo_lookup M t)(k \<mapsto> v) else cuckoo_lookup M t)"
  by (simp add: cuckoo_insert_def cuckoo_laws_def)

lemma cuckoo_update_lookup:
  assumes "cuckoo_laws M"
  shows "cuckoo_lookup M (fst (cuckoo_updateByKey M t k f)) =
      (cuckoo_lookup M t)(k := map_option f (cuckoo_lookup M t k))"
    and "snd (cuckoo_updateByKey M t k f) = (if cuckoo_lookup M t k = None then 0 else 1)"
  using assms unfolding cuckoo_laws_def
  by (auto simp: cuckoo_updateByKey_def case_prod_unfold Let_def split: option.splits)

lemma cuckoo_delete_lookup:
  assumes "cuckoo_laws M"
  shows "cuckoo_lookup M (fst (cuckoo_deleteByKey M t k)) = (cuckoo_lookup M t)(k := None)"
proof (cases "cuckoo_lookup M t k")
  case None
  then show ?thesis by (auto simp: cuckoo_deleteByKey_def)
next
  case (Some v)
  then show ?thesis using assms by (simp add: cuckoo_deleteByKey_def cuckoo_laws_def Let_def)
qed

lemma cuckoo_updateOrDelete_lookup:
  assumes "cuckoo_laws M" and "cuckoo_lookup M t k = Some v"
  shows "cuckoo_lookup M (fst (cuckoo_updateOrDeleteByKey M t k u i)) =
    (if snd (u v) then cuckoo_lookup M t else (cuckoo_lookup M t)(k := None))"
  using assms by (simp add: cuckoo_updateOrDeleteByKey_def cuckoo_laws_def Let_def case_prod_unfold)

section \<open>Properties\<close>

text \<open>
  What the cuckoo table does to its content, given the documented behaviour of the map:
  \<open>updateByKey\<close> updates in place and reports whether the key exists, \<open>deleteByKey\<close> removes the
  key, \<open>insert\<close> stores a record for a new key but, unlike its documentation ("if the key
  already exists then the tuple in the table is updated"), leaves an existing record
  unchanged, and an update through \<open>updateOrDeleteByKey\<close> is lost: it is applied to a copy.
\<close>

theorem cuckoo_table_content:
  assumes "cuckoo_laws M"
  shows "cuckoo_lookup M (fst (cuckoo_updateByKey M t k f)) = (cuckoo_lookup M t)(k := map_option f (cuckoo_lookup M t k)) \<and>
    snd (cuckoo_updateByKey M t k f) = (if cuckoo_lookup M t k = None then 0 else 1) \<and>
    cuckoo_lookup M (fst (cuckoo_deleteByKey M t k)) = (cuckoo_lookup M t)(k := None) \<and>
    cuckoo_lookup M (cuckoo_insert M t k v) k = (case cuckoo_lookup M t k of None \<Rightarrow> Some v | Some w \<Rightarrow> Some w) \<and>
    (\<forall>w. cuckoo_lookup M t k = Some w \<longrightarrow>
       cuckoo_lookup M (fst (cuckoo_updateOrDeleteByKey M t k u i)) k = (if snd (u w) then Some w else None))"
  using assms
  by (simp add: cuckoo_insert_lookup cuckoo_update_lookup cuckoo_delete_lookup cuckoo_updateOrDelete_lookup
      split: option.splits)

theorem cuckoo_table_content_witness:
  "cuckoo_laws fun_map \<and>
   cuckoo_lookup fun_map (cuckoo_insert fun_map \<lparr>cDataTable = [1::nat \<mapsto> 7::nat], cImmediateObservers = 0, cNotified = []\<rparr> 1 8) 1 = Some 7"
  using fun_map_laws cuckoo_table_content [OF fun_map_laws,
      of "\<lparr>cDataTable = [1::nat \<mapsto> 7::nat], cImmediateObservers = 0, cNotified = []\<rparr>" 1 id 8]
  by (simp add: fun_map_def)

end
