(* ===== verification/Mvcc_Table.thy ===== *)
theory Mvcc_Table
  imports Mvcc_Object Cuckoo_Table "HOL-Library.Product_Lexorder"
begin

text \<open>
  The multi-version table of \<open>table/MVCCTable.hpp\<close>: the write set of the running writer, the
  two-phase commit over the two tables of a topology group, the commit that sorts and
  deduplicates the write set and installs the new versions, and snapshot reads. The
  underlying table is the cuckoo table over the parameter map \<open>M\<close>; \<open>d\<close> is the
  value-initialised record of an unused version slot. A commit may wait for readers, so it
  takes fuel for the wait loop of each entry and \<open>None\<close> means still waiting.
\<close>

section \<open>Write set\<close>

record ('k, 'v) WriteSet =
  wsTxnID :: TransactionID
  wsSet :: "('k \<times> 'v) list"

definition ws_insert :: "('k, 'v) WriteSet \<Rightarrow> 'k \<Rightarrow> 'v \<Rightarrow> ('k, 'v) WriteSet" where
  "ws_insert w k r = w\<lparr>wsSet := wsSet w @ [(k, r)]\<rparr>"

definition ws_clean :: "('k, 'v) WriteSet \<Rightarrow> ('k, 'v) WriteSet" where
  "ws_clean w = w\<lparr>wsTxnID := 0, wsSet := []\<rparr>"

text \<open>\<open>std::unique\<close> with equality of keys: the first entry of each run is kept.\<close>

fun unique_keys :: "('k \<times> 'v) list \<Rightarrow> ('k \<times> 'v) list" where
  "unique_keys [] = []"
| "unique_keys [x] = [x]"
| "unique_keys (x # y # zs) = (if fst x = fst y then unique_keys (x # zs) else x # unique_keys (y # zs))"

definition dedup :: "('k::linorder \<times> 'v::linorder) list \<Rightarrow> ('k \<times> 'v) list" where
  "dedup ws = unique_keys (sort ws)"

section \<open>Table\<close>

record ('m, 'k, 'v) MVCCTable =
  writeSet :: "('k, 'v) WriteSet"
  mtbl :: "('m, 'v MVCCObject) CuckooTable"
  tblID :: TableID

text \<open>The tables a program has created, addressed by position, and their shared context.\<close>

record ('m, 'k, 'v) MVSystem =
  sCtx :: StateContext
  tabs :: "('m, 'k, 'v) MVCCTable list"

definition mv_registerState :: "('m, 'k, 'v) MVSystem \<Rightarrow> nat \<Rightarrow> ('m, 'k, 'v) MVSystem res" where
  "mv_registerState s a =
     (if a < length (tabs s)
      then bind_res (registerState (sCtx s) a)
             (\<lambda>(i, c). Inr (s\<lparr>sCtx := c, tabs := (tabs s)[a := (tabs s ! a)\<lparr>tblID := i\<rparr>]\<rparr>))
      else Inl NullPointer)"

definition mv_transactionBegin ::
  "StateContext \<Rightarrow> ('m, 'k, 'v) MVCCTable \<Rightarrow> TransactionID \<Rightarrow> StateContext \<times> ('m, 'k, 'v) MVCCTable" where
  "mv_transactionBegin c T txnID =
     (c\<lparr>txCntW := txCntW c + 1\<rparr>, T\<lparr>writeSet := (writeSet T)\<lparr>wsTxnID := txnID\<rparr>\<rparr>)"

text \<open>The loop of the commit over the deduplicated write set.\<close>

fun commit_entries ::
  "('m, 'k, 'v MVCCObject) cuckoohash_map \<Rightarrow> 'v \<Rightarrow> nat \<Rightarrow> TransactionID \<Rightarrow> ('k \<times> 'v) list \<Rightarrow> StateContext \<Rightarrow>
   ('m, 'v MVCCObject) CuckooTable \<Rightarrow> (StateContext \<times> ('m, 'v MVCCObject) CuckooTable) res option" where
  "commit_entries M d fuel txnID [] c tb = Some (Inr (c, tb))"
| "commit_entries M d fuel txnID ((k, v) # es) c tb =
     (case ck_find M (cDataTable tb) k of
        Some ob \<Rightarrow>
          (case mvcc_update fuel c txnID v ob of
             None \<Rightarrow> None
           | Some (Inl e) \<Rightarrow> Some (Inl e)
           | Some (Inr (ob', c')) \<Rightarrow>
               commit_entries M d fuel txnID es c' (fst (cuckoo_updateByKey M tb k (\<lambda>_. ob'))))
      | None \<Rightarrow> commit_entries M d fuel txnID es c (cuckoo_insert M tb k (mvcc_first d txnID v)))"

definition mv_transactionCommit ::
  "('m, 'k::linorder, 'v::linorder MVCCObject) cuckoohash_map \<Rightarrow> 'v \<Rightarrow> nat \<Rightarrow> StateContext \<Rightarrow> ('m, 'k, 'v) MVCCTable \<Rightarrow>
   TransactionID \<Rightarrow> (Errc \<times> StateContext \<times> ('m, 'k, 'v) MVCCTable) res option" where
  "mv_transactionCommit M d fuel c T txnID =
     (case commit_entries M d fuel txnID (dedup (wsSet (writeSet T))) c (mtbl T) of
        None \<Rightarrow> None
      | Some (Inl e) \<Rightarrow> Some (Inl e)
      | Some (Inr (c', tb)) \<Rightarrow> Some (Inr (SUCCESS, c', T\<lparr>mtbl := tb, writeSet := ws_clean (writeSet T)\<rparr>)))"

text \<open>
  \<open>transactionPreCommit\<close> on the table at address \<open>a\<close>: mark this table as ready; if the other
  table of the group is ready as well, commit both, publish the snapshot and end the
  transaction. \<open>mv_commitBoth\<close> is the body of that conditional.
\<close>

definition mv_commitBoth ::
  "('m, 'k::linorder, 'v::linorder MVCCObject) cuckoohash_map \<Rightarrow> 'v \<Rightarrow> nat \<Rightarrow> ('m, 'k, 'v) MVSystem \<Rightarrow> nat \<Rightarrow>
   TableID \<Rightarrow> StateContext \<Rightarrow> TransactionID \<Rightarrow> (Errc \<times> ('m, 'k, 'v) MVSystem) res option" where
  "mv_commitBoth M d fuel s a otherID c txnID =
     (case mv_transactionCommit M d fuel c (tabs s ! a) txnID of
        None \<Rightarrow> None
      | Some (Inl e) \<Rightarrow> Some (Inl e)
      | Some (Inr (s1, c1, T1)) \<Rightarrow>
          (if s1 \<noteq> SUCCESS then Some (Inr (s1, s\<lparr>sCtx := c1, tabs := (tabs s)[a := T1]\<rparr>))
           else (case regStates c1 ! otherID of
                   None \<Rightarrow> Some (Inl NullPointer)
                 | Some b \<Rightarrow>
                     (case mv_transactionCommit M d fuel c1 ((tabs s)[a := T1] ! b) txnID of
                        None \<Rightarrow> None
                      | Some (Inl e) \<Rightarrow> Some (Inl e)
                      | Some (Inr (s2, c2, T2)) \<Rightarrow>
                          Some (bind_res (setLastCTS c2 0 txnID)
                            (\<lambda>c3. bind_res (removeTx c3 txnID)
                               (\<lambda>c4. Inr (s2, s\<lparr>sCtx := c4, tabs := (tabs s)[a := T1, b := T2]\<rparr>))))))))"

definition mv_transactionPreCommit ::
  "('m, 'k::linorder, 'v::linorder MVCCObject) cuckoohash_map \<Rightarrow> 'v \<Rightarrow> nat \<Rightarrow> ('m, 'k, 'v) MVSystem \<Rightarrow> nat \<Rightarrow>
   TransactionID \<Rightarrow> (Errc \<times> ('m, 'k, 'v) MVSystem) res option" where
  "mv_transactionPreCommit M d fuel s a txnID =
     (let T = tabs s ! a; otherID = (if tblID T = 0 then 1 else 0)
      in (case bind_res (getWriteStatus (sCtx s) txnID otherID)
                 (\<lambda>_. bind_res (setWriteStatus (sCtx s) txnID (tblID T) Commit)
                    (\<lambda>c. bind_res (getWriteStatus c txnID otherID) (\<lambda>st. Inr (c, st)))) of
            Inl e \<Rightarrow> Some (Inl e)
          | Inr (c, otherState) \<Rightarrow>
              (if otherState = Commit then mv_commitBoth M d fuel s a otherID c txnID
               else Some (Inr (SUCCESS, s\<lparr>sCtx := c\<rparr>)))))"

definition mv_transactionAbort :: "('m, 'k, 'v) MVCCTable \<Rightarrow> TransactionID \<Rightarrow> ('m, 'k, 'v) MVCCTable" where
  "mv_transactionAbort T txnID = T\<lparr>writeSet := ws_clean (writeSet T)\<rparr>"

definition mv_readCommit :: "TransactionID \<Rightarrow> 'k list \<Rightarrow> nat \<Rightarrow> Errc" where
  "mv_readCommit txnID keys until = SUCCESS"

definition mv_insert :: "('m, 'k, 'v) MVCCTable \<Rightarrow> TransactionID \<Rightarrow> 'k \<Rightarrow> 'v \<Rightarrow> Errc \<times> ('m, 'k, 'v) MVCCTable" where
  "mv_insert T txnID key rec = (SUCCESS, T\<lparr>writeSet := ws_insert (writeSet T) key rec\<rparr>)"

definition mv_deleteByKey :: "('m, 'k, 'v) MVCCTable \<Rightarrow> TransactionID \<Rightarrow> 'k \<Rightarrow> ('m, 'k, 'v) MVCCTable \<times> nat" where
  "mv_deleteByKey T txnID key = (T, 1)"

definition mv_updateOrDeleteByKey :: "('m, 'k, 'v) MVCCTable \<Rightarrow> 'k \<Rightarrow> ('m, 'k, 'v) MVCCTable \<times> nat" where
  "mv_updateOrDeleteByKey T key = (T, 0)"

definition mv_getByKey ::
  "('m, 'k, 'v MVCCObject) cuckoohash_map \<Rightarrow> StateContext \<Rightarrow> ('m, 'k, 'v) MVCCTable \<Rightarrow> TransactionID \<Rightarrow> 'k \<Rightarrow>
   (Errc \<times> 'v option \<times> StateContext) res" where
  "mv_getByKey M c T txnID key =
     (case (if wsTxnID (writeSet T) = txnID then find (\<lambda>e. fst e = key) (wsSet (writeSet T)) else None) of
        Some e \<Rightarrow> Inr (SUCCESS, Some (snd e), c)
      | None \<Rightarrow>
          (case cuckoo_getByKey_out M (mtbl T) key of
             None \<Rightarrow> Inr (NOT_FOUND, None, c)
           | Some mvcc \<Rightarrow>
               bind_res (getReadCTS c txnID 0)
                 (\<lambda>r. bind_res (if r = 0 then getLastCTS c 0 else Inr r)
                    (\<lambda>readCTS. bind_res (if r = 0 then setReadCTS c txnID 0 readCTS else Inr c)
                       (\<lambda>c'. let pos = getCurrent mvcc readCTS
                             in if pos = - 1 then Inr (NOT_FOUND, None, c')
                                else Inr (SUCCESS, Some (mvalues mvcc ! nat pos), c'))))))"

section \<open>Lemmas: deduplication\<close>

lemma unique_keys_set: "set (unique_keys xs) \<subseteq> set xs"
  by (induction xs rule: unique_keys.induct) auto

lemma unique_keys_keys: "fst ` set (unique_keys xs) = fst ` set xs"
  by (induction xs rule: unique_keys.induct) auto

lemma unique_keys_sorted_distinct:
  "sorted (map fst xs) \<Longrightarrow> distinct (map fst (unique_keys xs))"
proof (induction xs rule: unique_keys.induct)
  case (3 x y zs)
  show ?case
  proof (cases "fst x = fst y")
    case False
    have "fst x \<le> fst y" and ge: "\<forall>z\<in>set (y # zs). fst y \<le> fst z" using 3(3) by simp_all
    then have "fst x < fst y" using False by simp
    then have "fst x \<notin> fst ` set (y # zs)" using ge by (metis image_iff leD)
    then have "fst x \<notin> fst ` set (unique_keys (y # zs))" unfolding unique_keys_keys .
    then show ?thesis using False 3(2) [OF False] 3(3) by simp
  qed (use 3 in simp)
qed simp_all

lemma map_of_unique_keys: "map_of (unique_keys xs) k = map_of xs k"
proof (induction xs rule: unique_keys.induct)
  case (3 x y zs)
  then show ?case by (cases x; cases y) auto
qed simp_all

lemma sorted_map_fst: "sorted xs \<Longrightarrow> sorted (map fst xs)" for xs :: "('k::linorder \<times> 'v::linorder) list"
  by (induction xs) (auto simp: less_eq_prod_def)

lemma map_of_sorted_min:
  fixes xs :: "('k::linorder \<times> 'v::linorder) list"
  shows "sorted xs \<Longrightarrow> (k, v) \<in> set xs \<Longrightarrow> map_of xs k = Some (Min {v. (k, v) \<in> set xs})"
proof (induction xs)
  case (Cons x xs)
  obtain a b where x: "x = (a, b)" by (cases x)
  have fin: "finite {w. (a, w) \<in> set (x # xs)}"
    by (rule finite_subset [of _ "snd ` set (x # xs)"]) (auto intro: rev_image_eqI)
  show ?case
  proof (cases "a = k")
    case True
    have "b \<le> w" if "(a, w) \<in> set (x # xs)" for w
      using Cons.prems(1) that x by (auto simp: less_eq_prod_def)
    then have "Min {w. (a, w) \<in> set (x # xs)} = b" using fin x by (intro Min_eqI) auto
    then show ?thesis using True x by simp
  next
    case False
    then have "{w. (k, w) \<in> set (x # xs)} = {w. (k, w) \<in> set xs}" using x by auto
    then show ?thesis using Cons False x by auto
  qed
qed simp

lemma dedup_distinct: "distinct (map fst (dedup ws))"
  by (simp add: dedup_def unique_keys_sorted_distinct sorted_map_fst)

lemma map_of_dedup:
  "map_of (dedup ws) k = (if k \<in> fst ` set ws then Some (Min {v. (k, v) \<in> set ws}) else None)"
proof (cases "k \<in> fst ` set ws")
  case True
  then obtain v where "(k, v) \<in> set (sort ws)" by auto
  then show ?thesis using True map_of_sorted_min [of "sort ws" k v] by (simp add: dedup_def map_of_unique_keys)
next
  case False
  then have "map_of (sort ws) k = None" by (simp add: map_of_eq_None_iff)
  then show ?thesis using False by (simp add: dedup_def map_of_unique_keys)
qed

section \<open>Lemmas: commit\<close>

text \<open>What a snapshot \<open>r\<close> sees of a table.\<close>

definition tread :: "('m, 'k, 'v MVCCObject) cuckoohash_map \<Rightarrow> ('m, 'v MVCCObject) CuckooTable \<Rightarrow> TransactionID \<Rightarrow> 'k \<Rightarrow> 'v option" where
  "tread M tb r k = (case cuckoo_lookup M tb k of None \<Rightarrow> None | Some ob \<Rightarrow> read_at ob r)"

text \<open>All versions satisfy the invariant and none is newer than \<open>t\<close>; the keys in \<open>K\<close> have not been written at \<open>t\<close>.\<close>

definition tbl_ok :: "('m, 'k, 'v MVCCObject) cuckoohash_map \<Rightarrow> ('m, 'v MVCCObject) CuckooTable \<Rightarrow> TransactionID \<Rightarrow> 'k set \<Rightarrow> bool" where
  "tbl_ok M tb t K \<longleftrightarrow> (\<forall>k ob. cuckoo_lookup M tb k = Some ob \<longrightarrow>
     mv_inv ob \<and> (\<forall>j. bit (oUsed ob) j \<longrightarrow> cts ob j \<le> t) \<and> (k \<in> K \<longrightarrow> newest_before ob t))"

lemma mvcc_first_fields:
  "headers (mvcc_first d t v) = [(t, DTS_INF), (DTS_INF, 0)]" "oUsed (mvcc_first d t v) = 1"
  "mvalues (mvcc_first d t v) = [v, d]"
  by (simp_all add: mvcc_first_def MVCCObject_new_def store_defs numeral_2_eq_2)

lemma mvcc_first_ok:
  assumes "t \<noteq> DTS_INF"
  shows "mv_inv (mvcc_first d t v)" and "\<forall>j. bit (oUsed (mvcc_first d t v)) j \<longrightarrow> cts (mvcc_first d t v) j \<le> t"
    and "r < t \<Longrightarrow> read_at (mvcc_first d t v) r = None" and "read_at (mvcc_first d t v) t = Some v"
  using not_inf_less [OF assms]
  by (auto simp: mvcc_first_fields mv_inv_def bit_1_iff read_at_cases vis_def)

lemma readers_ok_empty: "readers_ok c R \<Longrightarrow> readers_ok c {}"
  by (simp add: readers_ok_def)

lemma commit_entry_step:
  assumes M: "cuckoo_laws M" and t: "t \<noteq> DTS_INF" and R: "\<forall>r\<in>R. r < t" and rd: "readers_ok c R"
    and ce: "commit_entries M d fuel t ((k, v) # es) c tb = Some res"
    and ok: "\<And>ob. cuckoo_lookup M tb k = Some ob \<Longrightarrow> mv_inv ob \<and> newest_before ob t"
  shows "\<exists>c1 tb1. commit_entries M d fuel t es c1 tb1 = Some res \<and> readers_ok c1 R \<and> (\<exists>m. c1 = c\<lparr>oldestVisibleVersion := m\<rparr>) \<and>
      (\<exists>ob'. cuckoo_lookup M tb1 = (cuckoo_lookup M tb)(k \<mapsto> ob') \<and> mv_inv ob' \<and>
         (\<forall>j. bit (oUsed ob') j \<longrightarrow> cts ob' j \<le> t) \<and> read_at ob' t = Some v \<and>
         (\<forall>r\<in>R. read_at ob' r = tread M tb r k))"
proof (cases "cuckoo_lookup M tb k")
  case None
  then have "commit_entries M d fuel t es c (cuckoo_insert M tb k (mvcc_first d t v)) = Some res"
    using ce by simp
  moreover have "cuckoo_lookup M (cuckoo_insert M tb k (mvcc_first d t v)) = (cuckoo_lookup M tb)(k \<mapsto> mvcc_first d t v)"
    using cuckoo_insert_lookup [OF M] None by metis
  moreover have "\<forall>r\<in>R. read_at (mvcc_first d t v) r = tread M tb r k"
    using mvcc_first_ok(3) [OF t, where d = d and v = v] None R by (simp add: tread_def)
  moreover have "c = c\<lparr>oldestVisibleVersion := oldestVisibleVersion c\<rparr>" by simp
  ultimately show ?thesis
    using mvcc_first_ok(1,2,4) [OF t, where d = d and v = v] rd by blast
next
  case (Some ob)
  have ob: "mv_inv ob" "newest_before ob t" using ok [OF Some] by auto
  obtain up where up: "mvcc_update fuel c t v ob = Some up" using ce Some by (auto split: option.splits)
  obtain ob' c' where u: "up = Inr (ob', c')" "mv_inv ob'" "\<forall>r\<in>R. read_at ob' r = read_at ob r"
    "read_at ob' t = Some v" "\<forall>j. bit (oUsed ob') j \<longrightarrow> cts ob' j \<le> t" "readers_ok c' R"
    using mvcc_update_correct [OF up ob t rd R] by metis
  have "commit_entries M d fuel t es c' (fst (cuckoo_updateByKey M tb k (\<lambda>_. ob'))) = Some res"
    using ce Some up u(1) by simp
  moreover have "cuckoo_lookup M (fst (cuckoo_updateByKey M tb k (\<lambda>_. ob'))) = (cuckoo_lookup M tb)(k \<mapsto> ob')"
    using cuckoo_update_lookup(1) [OF M, of tb k "\<lambda>_. ob'"] Some by simp
  moreover have "\<forall>r\<in>R. read_at ob' r = tread M tb r k" using u(3) Some by (simp add: tread_def)
  moreover obtain m where "c' = c\<lparr>oldestVisibleVersion := m\<rparr>"
    using mvcc_update_ctx [OF readers_ok_empty [OF rd] ob(1)] up u(1) by metis
  ultimately show ?thesis using u by blast
qed

lemma commit_entries_correct:
  assumes M: "cuckoo_laws M" and t: "t \<noteq> DTS_INF" and R: "\<forall>r\<in>R. r < t"
    and "commit_entries M d fuel t es c tb = Some res" and "distinct (map fst es)"
    and "tbl_ok M tb t (fst ` set es)" and "readers_ok c R"
  shows "\<exists>c' tb'. res = Inr (c', tb') \<and> tbl_ok M tb' t {} \<and> readers_ok c' R \<and> (\<exists>m. c' = c\<lparr>oldestVisibleVersion := m\<rparr>) \<and>
    (\<forall>r\<in>R. \<forall>k. tread M tb' r k = tread M tb r k) \<and>
    (\<forall>k. tread M tb' t k = (case map_of es k of None \<Rightarrow> tread M tb t k | Some v \<Rightarrow> Some v))"
  using assms(4-)
proof (induction es arbitrary: c tb)
  case Nil
  then show ?case by (auto simp: tbl_ok_def intro!: exI [of _ "oldestVisibleVersion c"])
next
  case (Cons e es)
  obtain k v where e: "e = (k, v)" by (cases e)
  have "mv_inv ob \<and> newest_before ob t" if "cuckoo_lookup M tb k = Some ob" for ob
    using that Cons.prems(3) e by (auto simp: tbl_ok_def)
  from commit_entry_step [OF M t R Cons.prems(4) Cons.prems(1) [unfolded e] this] obtain c1 tb1 ob' m where step: "commit_entries M d fuel t es c1 tb1 = Some res" "readers_ok c1 R"
    and c1: "c1 = c\<lparr>oldestVisibleVersion := m\<rparr>"
    and lk: "cuckoo_lookup M tb1 = (cuckoo_lookup M tb)(k \<mapsto> ob')"
    and ob': "mv_inv ob'" "\<forall>j. bit (oUsed ob') j \<longrightarrow> cts ob' j \<le> t" "read_at ob' t = Some v"
    "\<forall>r\<in>R. read_at ob' r = tread M tb r k" by blast
  have k: "k \<notin> fst ` set es" "distinct (map fst es)" using Cons.prems(2) e by auto
  have ok1: "tbl_ok M tb1 t (fst ` set es)"
    using Cons.prems(3) ob' k e unfolding tbl_ok_def lk by (auto split: if_splits)
  have tr: "tread M tb1 r k' = (if k' = k then read_at ob' r else tread M tb r k')" for r k'
    by (simp add: tread_def lk)
  have mk: "map_of es k = None" using k(1) by (simp add: map_of_eq_None_iff)
  obtain c' tb' where ih: "res = Inr (c', tb')" "tbl_ok M tb' t {}" "readers_ok c' R"
    "\<forall>r\<in>R. \<forall>k. tread M tb' r k = tread M tb1 r k"
    "\<And>k. tread M tb' t k = (case map_of es k of None \<Rightarrow> tread M tb1 t k | Some v \<Rightarrow> Some v)"
    and ctx: "\<exists>m. c' = c1\<lparr>oldestVisibleVersion := m\<rparr>"
    using Cons.IH [OF step(1) k(2) ok1 step(2)] by blast
  have "\<exists>m. c' = c\<lparr>oldestVisibleVersion := m\<rparr>" using ctx c1 by auto
  moreover have "tread M tb' t k' = (case map_of (e # es) k' of None \<Rightarrow> tread M tb t k' | Some v \<Rightarrow> Some v)" for k'
    using ih(5) [of k'] ob'(3) mk by (cases "k' = k"; cases "map_of es k'") (simp_all add: tr e)
  moreover have "\<forall>r\<in>R. \<forall>k'. tread M tb' r k' = tread M tb r k'"
    using ih(4) ob'(4) by (simp add: tr)
  ultimately show ?case using ih(1-3) by blast
qed

lemma commit_total:
  assumes "cuckoo_laws M" and "readers_ok c {}" and "t \<noteq> DTS_INF" and "distinct (map fst es)"
    and "tbl_ok M tb t (fst ` set es)"
    and "\<And>k ob i. cuckoo_lookup M tb k = Some ob \<Longrightarrow> k \<in> fst ` set es \<Longrightarrow> i < VERSIONS \<Longrightarrow> dts ob i \<noteq> DTS_INF \<Longrightarrow>
       dts ob i \<le> snd (topoGrps c ! 0) \<and>
       (\<forall>p < 64. bit (usedSlots c) p \<longrightarrow> atxRead (activeTxs c ! p) ! 0 = 0 \<or> dts ob i \<le> atxRead (activeTxs c ! p) ! 0)"
  shows "commit_entries M d 2 t es c tb \<noteq> None"
  using assms(2,4-)
proof (induction es arbitrary: c tb)
  case (Cons e es)
  obtain k v where e: "e = (k, v)" by (cases e)
  have k: "k \<notin> fst ` set es" "distinct (map fst es)" using Cons.prems(2) e by auto
  show ?case
  proof (cases "cuckoo_lookup M tb k")
    case None
    have lk: "cuckoo_lookup M (cuckoo_insert M tb k (mvcc_first d t v)) = (cuckoo_lookup M tb)(k \<mapsto> mvcc_first d t v)"
      using cuckoo_insert_lookup [OF assms(1)] None by metis
    have "tbl_ok M (cuckoo_insert M tb k (mvcc_first d t v)) t (fst ` set es)"
      using Cons.prems(3) k e mvcc_first_ok(1,2) [OF assms(3), where d = d and v = v] unfolding tbl_ok_def lk by (auto split: if_splits)
    then have "commit_entries M d 2 t es c (cuckoo_insert M tb k (mvcc_first d t v)) \<noteq> None"
      using Cons.prems(4) k(1) by (intro Cons.IH [OF Cons.prems(1) k(2)]) (auto simp: lk split: if_splits)
    then show ?thesis using None e by simp
  next
    case (Some ob)
    have ob: "mv_inv ob" "newest_before ob t" using Some Cons.prems(3) e by (auto simp: tbl_ok_def)
    have "\<exists>i ob1 c1. freeSlot_loop 2 c t ob = Some (Inr (i, ob1, c1)) \<and> i < VERSIONS \<and> \<not> bit (oUsed ob1) i \<and> mv_inv ob1"
      using Cons.prems(4) [OF Some] e by (intro wait_progress [OF ob(1) Cons.prems(1)]) auto
    then obtain up where up: "mvcc_update 2 c t v ob = Some up" by (auto simp: mvcc_update_def Let_def)
    obtain ob' c' where u: "up = Inr (ob', c')" "mv_inv ob'" "\<forall>j. bit (oUsed ob') j \<longrightarrow> cts ob' j \<le> t" "readers_ok c' {}"
      using mvcc_update_correct [OF up ob assms(3) Cons.prems(1)] by (metis empty_iff)
    obtain m where c': "c' = c\<lparr>oldestVisibleVersion := m\<rparr>"
      using mvcc_update_ctx [OF Cons.prems(1) ob(1)] up u(1) by metis
    have lk: "cuckoo_lookup M (fst (cuckoo_updateByKey M tb k (\<lambda>_. ob'))) = (cuckoo_lookup M tb)(k \<mapsto> ob')"
      using cuckoo_update_lookup(1) [OF assms(1), of tb k "\<lambda>_. ob'"] Some by simp
    have "tbl_ok M (fst (cuckoo_updateByKey M tb k (\<lambda>_. ob'))) t (fst ` set es)"
      using Cons.prems(3) k e u(2,3) unfolding tbl_ok_def lk by (auto split: if_splits)
    then have "commit_entries M d 2 t es c' (fst (cuckoo_updateByKey M tb k (\<lambda>_. ob'))) \<noteq> None"
      using Cons.prems(4) k(1) by (intro Cons.IH [OF u(4) k(2)]) (auto simp: lk c' split: if_splits)
    then show ?thesis using e Some up u(1) by simp
  qed
qed simp

lemma commit_correct:
  assumes "cuckoo_laws M" and "t \<noteq> DTS_INF" and "\<forall>r\<in>R. r < t" and "readers_ok c R"
    and "tbl_ok M (mtbl T) t (fst ` set (wsSet (writeSet T)))"
    and "mv_transactionCommit M d fuel c T t = Some res"
  shows "\<exists>c' T'. res = Inr (SUCCESS, c', T') \<and> writeSet T' = ws_clean (writeSet T) \<and> tblID T' = tblID T \<and>
    (\<exists>m. c' = c\<lparr>oldestVisibleVersion := m\<rparr>) \<and> tbl_ok M (mtbl T') t {} \<and> readers_ok c' R \<and>
    (\<forall>r\<in>R. \<forall>k. tread M (mtbl T') r k = tread M (mtbl T) r k) \<and>
    (\<forall>k. tread M (mtbl T') t k =
       (if k \<in> fst ` set (wsSet (writeSet T)) then Some (Min {v. (k, v) \<in> set (wsSet (writeSet T))})
        else tread M (mtbl T) t k))"
proof -
  let ?es = "dedup (wsSet (writeSet T))"
  obtain res' where ce: "commit_entries M d fuel t ?es c (mtbl T) = Some res'"
    using assms(6) by (auto simp: mv_transactionCommit_def split: option.splits)
  have keys: "fst ` set ?es = fst ` set (wsSet (writeSet T))" by (simp add: dedup_def unique_keys_keys)
  obtain c' tb' where r: "res' = Inr (c', tb')" "tbl_ok M tb' t {}" "readers_ok c' R"
    "\<forall>r\<in>R. \<forall>k. tread M tb' r k = tread M (mtbl T) r k"
    "\<And>k. tread M tb' t k = (case map_of ?es k of None \<Rightarrow> tread M (mtbl T) t k | Some v \<Rightarrow> Some v)"
    and ctx: "\<exists>m. c' = c\<lparr>oldestVisibleVersion := m\<rparr>"
    using commit_entries_correct [OF assms(1-3) ce dedup_distinct _ assms(4)] assms(5) unfolding keys by blast
  define T' where "T' = T\<lparr>mtbl := tb', writeSet := ws_clean (writeSet T)\<rparr>"
  have "res = Inr (SUCCESS, c', T')"
    using assms(6) ce r(1) by (simp add: mv_transactionCommit_def T'_def)
  moreover have "tread M tb' t k = (if k \<in> fst ` set (wsSet (writeSet T)) then Some (Min {v. (k, v) \<in> set (wsSet (writeSet T))})
        else tread M (mtbl T) t k)" for k
    using r(5) [of k] map_of_dedup [of "wsSet (writeSet T)" k] by simp
  ultimately show ?thesis using r(2-4) ctx by (intro exI [of _ c'] exI [of _ T']) (simp add: T'_def)
qed

text \<open>What \<open>getByKey\<close> returns to a reader that is not the writer of the table.\<close>

lemma getByKey_reader:
  assumes inv: "ctx_inv c" and act: "active_tx c u" and own: "wsTxnID (writeSet T) \<noteq> u"
  obtains r0 r c' where "getReadCTS c u 0 = Inr r0" and "r = (if r0 = 0 then snd (topoGrps c ! 0) else r0)"
    and "mv_getByKey M c T u k =
      Inr (case tread M (mtbl T) r k of None \<Rightarrow> (NOT_FOUND, None, c') | Some v \<Rightarrow> (SUCCESS, Some v, c'))"
    and "cuckoo_lookup M (mtbl T) k \<noteq> None \<Longrightarrow> ctx_inv c' \<and> getReadCTS c' u 0 = Inr r \<and> (\<forall>w. active_tx c' w = active_tx c w) \<and>
      topoGrps c' = topoGrps c \<and> oldestVisibleVersion c' = oldestVisibleVersion c"
proof -
  obtain p where p: "getPosFromTxnID c u = Inr p" using active_tx_slot [OF inv act] by metis
  obtain r0 where r0: "getReadCTS c u 0 = Inr r0" using getReadCTS_slot [OF inv p] by blast
  define r where "r = (if r0 = 0 then snd (topoGrps c ! 0) else r0)"
  have last: "getLastCTS c 0 = Inr (snd (topoGrps c ! 0))" using inv by (simp add: getLastCTS_def ctx_inv_def)
  obtain c1 a where s: "setReadCTS c u 0 r = Inr c1" "c1 = c\<lparr>activeTxs := a\<rparr>" "ctx_inv c1" "\<And>w. active_tx c1 w = active_tx c w"
    "getReadCTS c1 u 0 = Inr r" using setReadCTS_spec [OF inv act, of r] by metis
  define c' where "c' = (if cuckoo_lookup M (mtbl T) k = None then c else if r0 = 0 then c1 else c)"
  have "mv_getByKey M c T u k =
      Inr (case tread M (mtbl T) r k of None \<Rightarrow> (NOT_FOUND, None, c') | Some v \<Rightarrow> (SUCCESS, Some v, c'))"
    using own r0 last s(1)
    by (cases "cuckoo_lookup M (mtbl T) k"; cases "r0 = 0")
      (simp_all add: mv_getByKey_def cuckoo_getByKey_out_def tread_def read_at_def Let_def r_def c'_def)
  moreover have "ctx_inv c' \<and> getReadCTS c' u 0 = Inr r \<and> (\<forall>w. active_tx c' w = active_tx c w) \<and>
      topoGrps c' = topoGrps c \<and> oldestVisibleVersion c' = oldestVisibleVersion c"
    if "cuckoo_lookup M (mtbl T) k \<noteq> None"
    using that s(2-5) r0 inv by (auto simp: c'_def r_def)
  ultimately show thesis using that r0 r_def by blast
qed

lemma setWriteStatus_spec:
  assumes inv: "ctx_inv c" and act: "active_tx c t" and tbl: "tbl < MAX_STATES_TOPO"
  obtains a where "setWriteStatus c t tbl st = Inr (c\<lparr>activeTxs := a\<rparr>)" and "ctx_inv (c\<lparr>activeTxs := a\<rparr>)"
    and "\<And>u. active_tx (c\<lparr>activeTxs := a\<rparr>) u = active_tx c u"
    and "\<And>o'. o' < MAX_STATES_TOPO \<Longrightarrow> getWriteStatus (c\<lparr>activeTxs := a\<rparr>) t o' = (if o' = tbl then Inr st else getWriteStatus c t o')"
    and "\<And>u. active_tx c u \<Longrightarrow> getReadCTS (c\<lparr>activeTxs := a\<rparr>) u 0 = getReadCTS c u 0"
proof -
  obtain p where p: "p < 64" "bit (usedSlots c) p" "slot_id c p = t" "getPosFromTxnID c t = Inr p"
    using active_tx_slot [OF inv act] by metis
  let ?a = "(activeTxs c ! p)\<lparr>atxWrite := (atxWrite (activeTxs c ! p))[tbl := st]\<rparr>"
  have lr: "length (atxRead (activeTxs c ! p)) = MAX_TOPO_GRPS" "length (atxWrite (activeTxs c ! p)) = MAX_STATES_TOPO"
    using inv p(1) by (simp_all add: ctx_inv_def)
  note sp = slot_update_spec [OF inv p(1,3,2) _ _ _ refl, of ?a]
  show thesis
  proof (rule that [of "(activeTxs c)[p := ?a]"])
    show "setWriteStatus c t tbl st = Inr (c\<lparr>activeTxs := (activeTxs c)[p := ?a]\<rparr>)"
      using p(4) lr tbl by (simp add: setWriteStatus_def Let_def)
    show "getWriteStatus (c\<lparr>activeTxs := (activeTxs c)[p := ?a]\<rparr>) t o' = (if o' = tbl then Inr st else getWriteStatus c t o')"
      if "o' < MAX_STATES_TOPO" for o'
      using sp(3) [of o'] lr p(3) that getWriteStatus_slot [OF inv p(4) that] by (simp add: nth_list_update)
    show "getReadCTS (c\<lparr>activeTxs := (activeTxs c)[p := ?a]\<rparr>) u 0 = getReadCTS c u 0" if "active_tx c u" for u
      using sp(4) sp(6) [of u] lr p(3) that getReadCTS_slot [OF inv p(4)] by (cases "u = t") simp_all
  qed (use sp lr p(3) in simp_all)
qed

lemma readers_ok_activeTxs:
  assumes "readers_ok c R" and "ctx_inv (c\<lparr>activeTxs := a\<rparr>)"
    and "\<And>u. active_tx (c\<lparr>activeTxs := a\<rparr>) u = active_tx c u"
    and "\<And>u. active_tx c u \<Longrightarrow> getReadCTS (c\<lparr>activeTxs := a\<rparr>) u 0 = getReadCTS c u 0"
  shows "readers_ok (c\<lparr>activeTxs := a\<rparr>) R"
proof -
  have "\<exists>u. active_tx (c\<lparr>activeTxs := a\<rparr>) u \<and> getReadCTS (c\<lparr>activeTxs := a\<rparr>) u 0 = Inr r" if "r \<in> R" for r
    using assms(1,3,4) that unfolding readers_ok_def by metis
  then show ?thesis using assms(1,2) unfolding readers_ok_def by simp
qed

section \<open>Properties\<close>

text \<open>
  (C1) Snapshot isolation of a commit. When a table all of whose versions are older than \<open>t\<close>
  commits transaction \<open>t\<close> and the commit returns, it succeeds and clears the write set; every
  registered reader snapshot older than \<open>t\<close> sees exactly the same records as before, and a
  reader at \<open>t\<close> sees the written keys and otherwise the old records. Among several writes of
  one key in the same transaction the smallest value is kept (the write set is sorted by key
  and value before duplicates are removed), which need not be the last one written.
\<close>

theorem mvcc_commit_snapshot_isolation:
  assumes "cuckoo_laws M" and "t \<noteq> DTS_INF" and "\<forall>r\<in>R. r < t" and "readers_ok c R"
    and "tbl_ok M (mtbl T) t (fst ` set (wsSet (writeSet T)))"
    and "mv_transactionCommit M d fuel c T t = Some res"
  shows "\<exists>c' T'. res = Inr (SUCCESS, c', T') \<and> writeSet T' = ws_clean (writeSet T) \<and>
    tbl_ok M (mtbl T') t {} \<and> readers_ok c' R \<and>
    (\<forall>r\<in>R. \<forall>k. tread M (mtbl T') r k = tread M (mtbl T) r k) \<and>
    (\<forall>k. tread M (mtbl T') t k =
       (if k \<in> fst ` set (wsSet (writeSet T)) then Some (Min {v. (k, v) \<in> set (wsSet (writeSet T))})
        else tread M (mtbl T) t k))"
  using commit_correct [OF assms] by blast

definition demo_table :: "(nat \<rightharpoonup> nat MVCCObject, nat, nat) MVCCTable" where
  "demo_table = \<lparr>writeSet = \<lparr>wsTxnID = 9, wsSet = [(1, 30), (2, 7), (1, 20)]\<rparr>,
     mtbl = \<lparr>cDataTable = [1 \<mapsto> mvcc_first 0 5 10], cImmediateObservers = 0, cNotified = []\<rparr>, tblID = 0\<rparr>"

lemma demo_table_ok: "5 < t \<Longrightarrow> tbl_ok fun_map (mtbl demo_table) t K"
  using mvcc_first_ok(1) [of 5 0 10]
  by (auto simp: tbl_ok_def demo_table_def fun_map_def mvcc_first_fields bit_1_iff newest_before_def DTS_INF_def
      split: if_splits)

lemmas demo_table_ok9 = demo_table_ok [of 9, simplified]

lemma demo_commit_returns: "\<exists>res. mv_transactionCommit fun_map 0 1 c demo_table t = Some res"
proof -
  have "dedup (wsSet (writeSet demo_table)) = [(1, 20), (2, 7)]" by (simp add: dedup_def demo_table_def)
  moreover have "getFreePos (ucast (oUsed (mvcc_first 0 5 (10::nat)))) = 1" by code_simp
  ultimately show ?thesis
    by (auto simp: mv_transactionCommit_def demo_table_def fun_map_def mvcc_update_def Let_def
        cuckoo_updateByKey_def cuckoo_notify_def split: sum.splits)
qed

theorem mvcc_commit_snapshot_isolation_witness:
  "\<exists>c c' T'. readers_ok c {7} \<and> mv_transactionCommit fun_map 0 1 c demo_table 9 = Some (Inr (SUCCESS, c', T')) \<and>
     tread fun_map (mtbl T') 7 1 = Some 10 \<and> tread fun_map (mtbl T') 9 1 = Some 20 \<and> tread fun_map (mtbl T') 9 2 = Some 7"
proof -
  obtain c where c: "readers_ok c {7}"
    by (rule reader_ctx_exists [of 9 5]) (auto simp: DTS_INF_def)
  obtain res where res: "mv_transactionCommit fun_map 0 1 c demo_table 9 = Some res"
    using demo_commit_returns by blast
  have old: "tread fun_map (mtbl demo_table) 7 1 = Some 10"
    using not_inf_less [of 7] by (simp add: tread_def fun_map_def demo_table_def read_at_cases vis_def mvcc_first_fields DTS_INF_def)
  have mins: "{v. (1, v) \<in> set (wsSet (writeSet demo_table))} = {20, 30}" "{v. (2, v) \<in> set (wsSet (writeSet demo_table))} = {7}"
    by (auto simp: demo_table_def)
  have keys: "fst ` set (wsSet (writeSet demo_table)) = {1, 2}" by (auto simp: demo_table_def)
  obtain c' T' where r: "res = Inr (SUCCESS, c', T')" "tread fun_map (mtbl T') 7 1 = tread fun_map (mtbl demo_table) 7 1"
    "\<And>k. tread fun_map (mtbl T') 9 k =
       (if k \<in> {1, 2} then Some (Min {v. (k, v) \<in> set (wsSet (writeSet demo_table))}) else tread fun_map (mtbl demo_table) 9 k)"
    using mvcc_commit_snapshot_isolation [OF fun_map_laws _ _ c demo_table_ok9 res] unfolding keys
    by (auto simp: DTS_INF_def)
  show ?thesis
    using c res r(1) r(2) old r(3) [of 1] r(3) [of 2] unfolding mins by (intro exI [of _ c] exI [of _ c'] exI [of _ T']) simp
qed

text \<open>
  (C8) A commit terminates when no reader needs a superseded version of a written key: with two
  rounds per entry the commit returns, whatever the write set (the versions of the written
  keys that have been superseded were so at or before the last commit of the group and at or
  before every running reader's snapshot).
\<close>

theorem mvcc_commit_terminates:
  assumes "cuckoo_laws M" and "readers_ok c {}" and "t \<noteq> DTS_INF"
    and "tbl_ok M (mtbl T) t (fst ` set (wsSet (writeSet T)))"
    and "\<And>k ob i. cuckoo_lookup M (mtbl T) k = Some ob \<Longrightarrow> k \<in> fst ` set (wsSet (writeSet T)) \<Longrightarrow> i < VERSIONS \<Longrightarrow>
       dts ob i \<noteq> DTS_INF \<Longrightarrow> dts ob i \<le> snd (topoGrps c ! 0) \<and>
       (\<forall>p < 64. bit (usedSlots c) p \<longrightarrow> atxRead (activeTxs c ! p) ! 0 = 0 \<or> dts ob i \<le> atxRead (activeTxs c ! p) ! 0)"
  shows "\<exists>c' T'. mv_transactionCommit M d 2 c T t = Some (Inr (SUCCESS, c', T'))"
proof -
  have keys: "fst ` set (dedup (wsSet (writeSet T))) = fst ` set (wsSet (writeSet T))"
    by (simp add: dedup_def unique_keys_keys)
  have "commit_entries M d 2 t (dedup (wsSet (writeSet T))) c (mtbl T) \<noteq> None"
    using assms(4,5) by (intro commit_total [OF assms(1-3) dedup_distinct]) (auto simp: keys)
  then have "mv_transactionCommit M d 2 c T t \<noteq> None"
    by (auto simp: mv_transactionCommit_def split: sum.splits)
  then obtain res where "mv_transactionCommit M d 2 c T t = Some res" by blast
  then show ?thesis using commit_correct [OF assms(1,3) _ assms(2,4)] by blast
qed

theorem mvcc_commit_terminates_witness:
  "\<exists>c' T'. mv_transactionCommit fun_map 0 2 (ctx0\<lparr>topoGrps := [([0, 1], 5)]\<rparr>) demo_table 9 = Some (Inr (SUCCESS, c', T'))"
proof (rule mvcc_commit_terminates [OF fun_map_laws _ _ demo_table_ok9])
  show "readers_ok (ctx0\<lparr>topoGrps := [([0, 1], 5)]\<rparr>) {}"
    using ctx0_inv by (simp add: readers_ok_def ctx_inv_def DTS_INF_def)
qed (auto simp: DTS_INF_def demo_table_def fun_map_def mvcc_first_fields less_2_cases_iff StateContext_new_def split: if_splits)

lemma getByKey_reader_snapshot:
  assumes "ctx_inv c" "active_tx c u" "wsTxnID (writeSet T) \<noteq> u" "getReadCTS c u 0 = Inr r" "r \<noteq> 0"
  shows "\<exists>c'. mv_getByKey M c T u k =
    Inr (case tread M (mtbl T) r k of None \<Rightarrow> (NOT_FOUND, None, c') | Some v \<Rightarrow> (SUCCESS, Some v, c'))"
  using getByKey_reader [OF assms(1-3), of M k] assms(4,5) by (metis Inr_inject)

text \<open>
  A read of a key that the table does not hold leaves no trace: no snapshot is registered for the reader, so a
  transaction that commits afterwards can make the key appear for it.
\<close>

lemma missing_key_not_registered:
  "cuckoo_lookup M (mtbl T) k = None \<Longrightarrow> wsTxnID (writeSet T) \<noteq> u \<Longrightarrow> mv_getByKey M c T u k = Inr (NOT_FOUND, None, c)"
  by (simp add: mv_getByKey_def cuckoo_getByKey_out_def)

text \<open>
  (C2) Repeatable reads of existing keys. A reading transaction \<open>u\<close> reads a key for which the table has an object (so its
  snapshot \<open>r\<close> is registered, by this read or an earlier one); then another transaction
  commits at a later timestamp; when \<open>u\<close> reads the key again it gets the same result, found
  or not. The horizon must not be 0, that is, garbage collection must have run once before: as long as it is 0 a commit looks at no reader
  and may drop the version of the snapshot.
\<close>

theorem mvcc_repeatable_read:
  assumes M: "cuckoo_laws M" and c: "ctx_inv c" "active_tx c u" "oldestVisibleVersion c \<noteq> 0" "snd (topoGrps c ! 0) \<noteq> DTS_INF"
    and own: "wsTxnID (writeSet T) \<noteq> u"
    and snap: "getReadCTS c u 0 = Inr r0" "r = (if r0 = 0 then snd (topoGrps c ! 0) else r0)" "r \<noteq> 0" "r \<noteq> DTS_INF" "r < t"
    and key: "cuckoo_lookup M (mtbl T) k \<noteq> None"
    and t: "t \<noteq> DTS_INF" "tbl_ok M (mtbl T) t (fst ` set (wsSet (writeSet T)))"
    and first: "mv_getByKey M c T u k = Inr (e, v, c1)"
    and commit: "mv_transactionCommit M d fuel c1 T t = Some (Inr (e', c2, T2))"
  shows "\<exists>c3. mv_getByKey M c2 T2 u k = Inr (e, v, c3)"
proof -
  obtain r0' r' c' where g: "getReadCTS c u 0 = Inr r0'" "r' = (if r0' = 0 then snd (topoGrps c ! 0) else r0')"
    "mv_getByKey M c T u k = Inr (case tread M (mtbl T) r' k of None \<Rightarrow> (NOT_FOUND, None, c') | Some v \<Rightarrow> (SUCCESS, Some v, c'))"
    "cuckoo_lookup M (mtbl T) k \<noteq> None \<Longrightarrow> ctx_inv c' \<and> getReadCTS c' u 0 = Inr r' \<and> (\<forall>w. active_tx c' w = active_tx c w) \<and>
      topoGrps c' = topoGrps c \<and> oldestVisibleVersion c' = oldestVisibleVersion c"
    using getByKey_reader [OF c(1,2) own, of M k] by blast
  have r': "r' = r" using g(1,2) snap(1,2) by simp
  have c1: "c1 = c'" using first g(3) by (auto split: option.splits)
  have rd: "readers_ok c1 {r}"
    using g(4) [OF key] c snap(3,4) unfolding readers_ok_def c1 r' by auto
  have R: "\<forall>x\<in>{r}. x < t" using snap(5) by simp
  have k2: "writeSet T2 = ws_clean (writeSet T)" "tread M (mtbl T2) r k = tread M (mtbl T) r k" "readers_ok c2 {r}"
    using commit_correct [OF M t(1) R rd t(2) commit] by auto
  obtain m where c2: "c2 = c1\<lparr>oldestVisibleVersion := m\<rparr>"
    using commit_correct [OF M t(1) R rd t(2) commit] by blast
  have a2: "ctx_inv c2" "active_tx c2 u" "getReadCTS c2 u 0 = Inr r"
    using g(4) [OF key] c(2) k2(3) by (auto simp: c2 c1 r' readers_ok_def)
  have "wsTxnID (writeSet T2) \<noteq> u" using k2(1) active_tx_nonzero [OF c(1,2)] by (simp add: ws_clean_def)
  from getByKey_reader_snapshot [OF a2(1,2) this a2(3) snap(3), of M k] k2(2) first g(3) r'
  show ?thesis by (auto split: option.splits)
qed

theorem mvcc_repeatable_read_witness:
  "\<exists>c u c1 c2 T2 c3. mv_getByKey fun_map c demo_table u 1 = Inr (SUCCESS, Some 10, c1) \<and>
     mv_transactionCommit fun_map 0 1 c1 demo_table 9 = Some (Inr (SUCCESS, c2, T2)) \<and>
     mv_getByKey fun_map c2 T2 u 1 = Inr (SUCCESS, Some 10, c3)"
proof -
  obtain c u where c: "ctx_inv c" "active_tx c u" "getReadCTS c u 0 = Inr 7" "oldestVisibleVersion c = 5"
    "topoGrps c = [([0, 1], 8)]" and u: "u = 7" and rd: "readers_ok c {7}"
    by (rule reader_ctx_exists [of 8 5]) (auto simp: DTS_INF_def)
  have own: "wsTxnID (writeSet demo_table) \<noteq> u" by (simp add: demo_table_def u)
  have val: "tread fun_map (mtbl demo_table) 7 1 = Some 10"
    using not_inf_less [of 7] by (simp add: tread_def fun_map_def demo_table_def read_at_cases vis_def mvcc_first_fields DTS_INF_def)
  obtain c1 where g: "mv_getByKey fun_map c demo_table u 1 = Inr (SUCCESS, Some 10, c1)"
    using getByKey_reader_snapshot [OF c(1,2) own c(3), of fun_map 1] val by auto
  have c1: "c1 = c" using g c(3) own by (auto simp: mv_getByKey_def cuckoo_getByKey_out_def demo_table_def fun_map_def Let_def split: if_splits)
  obtain res where rs: "mv_transactionCommit fun_map 0 1 c demo_table 9 = Some res"
    using demo_commit_returns by blast
  have lt: "\<forall>r\<in>{7}. r < (9 :: TransactionID)" "(9 :: TransactionID) \<noteq> DTS_INF" by (simp_all add: DTS_INF_def)
  obtain c2 T2 where cm: "mv_transactionCommit fun_map 0 1 c1 demo_table 9 = Some (Inr (SUCCESS, c2, T2))"
    using commit_correct [OF fun_map_laws lt(2,1) rd demo_table_ok9 rs] rs c1 by blast
  have "\<exists>c3. mv_getByKey fun_map c2 T2 u 1 = Inr (SUCCESS, Some 10, c3)"
    by (rule mvcc_repeatable_read [OF fun_map_laws c(1,2) _ _ own c(3) refl _ _ _ _ _ demo_table_ok9 g cm])
      (simp_all add: c(4,5) DTS_INF_def fun_map_def demo_table_def)
  with g cm show ?thesis by blast
qed

lemma commitBoth_correct:
  assumes M: "cuckoo_laws M" and t: "t \<noteq> DTS_INF" "\<forall>r\<in>R. r < t" "readers_ok c R" "active_tx c t"
    and tabs: "a < length (tabs s)" "b < length (tabs s)" "a \<noteq> b" "regStates c ! j = Some b"
    and ok: "tbl_ok M (mtbl (tabs s ! a)) t (fst ` set (wsSet (writeSet (tabs s ! a))))"
      "tbl_ok M (mtbl (tabs s ! b)) t (fst ` set (wsSet (writeSet (tabs s ! b))))"
    and run: "mv_commitBoth M d fuel s a j c t = Some res"
  shows "\<exists>s'. res = Inr (SUCCESS, s') \<and> getLastCTS (sCtx s') 0 = Inr t \<and> \<not> active_tx (sCtx s') t \<and>
       (\<forall>x\<in>{a, b}. (\<forall>r\<in>R. \<forall>k. tread M (mtbl (tabs s' ! x)) r k = tread M (mtbl (tabs s ! x)) r k) \<and>
          (\<forall>k\<in>fst ` set (wsSet (writeSet (tabs s ! x))). tread M (mtbl (tabs s' ! x)) t k =
             Some (Min {v. (k, v) \<in> set (wsSet (writeSet (tabs s ! x)))})))"
proof -
  obtain res1 where r1: "mv_transactionCommit M d fuel c (tabs s ! a) t = Some res1"
    using run by (cases "mv_transactionCommit M d fuel c (tabs s ! a) t") (simp_all add: mv_commitBoth_def)
  obtain c1 T1 m1 where k1: "res1 = Inr (SUCCESS, c1, T1)" "c1 = c\<lparr>oldestVisibleVersion := m1\<rparr>" "readers_ok c1 R"
    "\<forall>r\<in>R. \<forall>k. tread M (mtbl T1) r k = tread M (mtbl (tabs s ! a)) r k"
    "\<And>k. tread M (mtbl T1) t k = (if k \<in> fst ` set (wsSet (writeSet (tabs s ! a))) then Some (Min {v. (k, v) \<in> set (wsSet (writeSet (tabs s ! a)))})
        else tread M (mtbl (tabs s ! a)) t k)"
    using commit_correct [OF M t(1-3) ok(1) r1] by blast
  have reg: "regStates c1 ! j = Some b" using tabs(4) by (simp add: k1(2))
  have tb: "(tabs s)[a := T1] ! b = tabs s ! b" using tabs(3) by simp
  obtain res2 where r2: "mv_transactionCommit M d fuel c1 (tabs s ! b) t = Some res2"
    using run by (cases "mv_transactionCommit M d fuel c1 (tabs s ! b) t") (simp_all add: mv_commitBoth_def r1 k1(1) reg tb)
  obtain c2 T2 m2 where k2: "res2 = Inr (SUCCESS, c2, T2)" "c2 = c1\<lparr>oldestVisibleVersion := m2\<rparr>" "readers_ok c2 R"
    "\<forall>r\<in>R. \<forall>k. tread M (mtbl T2) r k = tread M (mtbl (tabs s ! b)) r k"
    "\<And>k. tread M (mtbl T2) t k = (if k \<in> fst ` set (wsSet (writeSet (tabs s ! b))) then Some (Min {v. (k, v) \<in> set (wsSet (writeSet (tabs s ! b)))})
        else tread M (mtbl (tabs s ! b)) t k)"
    using commit_correct [OF M t(1,2) k1(3) ok(2) r2] by blast
  have i2: "ctx_inv c2" using k2(3) by (simp add: readers_ok_def)
  obtain g where g: "topoGrps c2 = [g]" using i2 by (auto simp: ctx_inv_def length_Suc_conv)
  define c3 where "c3 = c2\<lparr>topoGrps := [(fst g, t)]\<rparr>"
  have s3: "setLastCTS c2 0 t = Inr c3" by (simp add: setLastCTS_def g c3_def)
  have i3: "ctx_inv c3" "active_tx c3 t"
    using i2 t(4) by (simp_all add: c3_def ctx_inv_def active_tx_def k2(2) k1(2))
  obtain c4 where c4: "removeTx c3 t = Inr c4" "\<not> active_tx c4 t" "topoGrps c4 = topoGrps c3"
    using removeTx_correct [OF i3] by metis
  have "res = Inr (SUCCESS, s\<lparr>sCtx := c4, tabs := (tabs s)[a := T1, b := T2]\<rparr>)"
    using run by (simp add: mv_commitBoth_def r1 k1(1) reg tb r2 k2(1) s3 c4(1))
  moreover have "getLastCTS c4 0 = Inr t" using c4(3) by (simp add: getLastCTS_def c3_def)
  ultimately show ?thesis using c4(2) tabs(1-3) k1(4,5) k2(4,5) by simp
qed

lemma preCommit_marks:
  assumes rd: "readers_ok (sCtx s) R" and act: "active_tx (sCtx s) t" and tid: "tblID (tabs s ! a) = i" "i < 2"
    and other: "getWriteStatus (sCtx s) t (1 - i) = Inr st"
  obtains ac where "readers_ok ((sCtx s)\<lparr>activeTxs := ac\<rparr>) R" and "active_tx ((sCtx s)\<lparr>activeTxs := ac\<rparr>) t"
    and "getWriteStatus ((sCtx s)\<lparr>activeTxs := ac\<rparr>) t i = Inr Commit"
    and "\<And>M d fuel. mv_transactionPreCommit M d fuel s a t =
      (if st = Commit then mv_commitBoth M d fuel s a (1 - i) ((sCtx s)\<lparr>activeTxs := ac\<rparr>) t
       else Some (Inr (SUCCESS, s\<lparr>sCtx := (sCtx s)\<lparr>activeTxs := ac\<rparr>\<rparr>)))"
proof -
  have inv: "ctx_inv (sCtx s)" using rd by (simp add: readers_ok_def)
  have i: "i < MAX_STATES_TOPO" "1 - i < MAX_STATES_TOPO" "1 - i \<noteq> i" "(if i = 0 then 1 else 0) = 1 - i"
    using tid(2) by (auto simp: less_2_cases_iff)
  obtain ac where sw: "setWriteStatus (sCtx s) t i Commit = Inr ((sCtx s)\<lparr>activeTxs := ac\<rparr>)"
    and c: "ctx_inv ((sCtx s)\<lparr>activeTxs := ac\<rparr>)" "\<And>u. active_tx ((sCtx s)\<lparr>activeTxs := ac\<rparr>) u = active_tx (sCtx s) u"
      "\<And>o'. o' < MAX_STATES_TOPO \<Longrightarrow> getWriteStatus ((sCtx s)\<lparr>activeTxs := ac\<rparr>) t o' = (if o' = i then Inr Commit else getWriteStatus (sCtx s) t o')"
      "\<And>u. active_tx (sCtx s) u \<Longrightarrow> getReadCTS ((sCtx s)\<lparr>activeTxs := ac\<rparr>) u 0 = getReadCTS (sCtx s) u 0"
    using setWriteStatus_spec [OF inv act i(1), of Commit] by metis
  let ?c = "(sCtx s)\<lparr>activeTxs := ac\<rparr>"
  have st: "getWriteStatus ?c t (1 - i) = Inr st" using c(3) [OF i(2)] i(3) other by simp
  show thesis
  proof (rule that)
    show "readers_ok ?c R" by (rule readers_ok_activeTxs [OF rd c(1,2,4)])
    show "active_tx ?c t" "getWriteStatus ?c t i = Inr Commit" using act c(2) c(3) [OF i(1)] by simp_all
    show "mv_transactionPreCommit M d fuel s a t =
      (if st = Commit then mv_commitBoth M d fuel s a (1 - i) ?c t else Some (Inr (SUCCESS, s\<lparr>sCtx := ?c\<rparr>)))" for M d fuel
      using sw st other by (simp add: mv_transactionPreCommit_def Let_def tid(1) i(4))
  qed
qed

text \<open>
  (C3) The two-phase commit is atomic over the two tables of a group. The first table that is
  ready only records its status: no table changes. When the second one is ready and the
  commit returns, both write sets are installed at \<open>t\<close>, the published snapshot of the group
  becomes \<open>t\<close> and the transaction ends; every registered snapshot older than \<open>t\<close> sees both
  tables unchanged. So a reader sees the writes of \<open>t\<close> in both tables or in neither.
\<close>

theorem mvcc_two_phase_commit:
  assumes M: "cuckoo_laws M" and t: "t \<noteq> DTS_INF" "\<forall>r\<in>R. r < t" "readers_ok (sCtx s) R" "active_tx (sCtx s) t"
    and tabs: "a < length (tabs s)" "b < length (tabs s)" "a \<noteq> b" "tblID (tabs s ! a) = i" "i < 2"
      "regStates (sCtx s) ! (1 - i) = Some b"
    and ok: "tbl_ok M (mtbl (tabs s ! a)) t (fst ` set (wsSet (writeSet (tabs s ! a))))"
      "tbl_ok M (mtbl (tabs s ! b)) t (fst ` set (wsSet (writeSet (tabs s ! b))))"
    and other: "getWriteStatus (sCtx s) t (1 - i) = Inr st"
    and run: "mv_transactionPreCommit M d fuel s a t = Some res"
  shows "\<exists>s'. res = Inr (SUCCESS, s') \<and>
    (if st \<noteq> Commit then tabs s' = tabs s \<and> getWriteStatus (sCtx s') t i = Inr Commit
     else getLastCTS (sCtx s') 0 = Inr t \<and> \<not> active_tx (sCtx s') t \<and>
       (\<forall>x\<in>{a, b}. (\<forall>r\<in>R. \<forall>k. tread M (mtbl (tabs s' ! x)) r k = tread M (mtbl (tabs s ! x)) r k) \<and>
          (\<forall>k\<in>fst ` set (wsSet (writeSet (tabs s ! x))). tread M (mtbl (tabs s' ! x)) t k =
             Some (Min {v. (k, v) \<in> set (wsSet (writeSet (tabs s ! x)))}))))"
proof -
  obtain ac where c: "readers_ok ((sCtx s)\<lparr>activeTxs := ac\<rparr>) R" "active_tx ((sCtx s)\<lparr>activeTxs := ac\<rparr>) t"
      "getWriteStatus ((sCtx s)\<lparr>activeTxs := ac\<rparr>) t i = Inr Commit"
    and pre: "mv_transactionPreCommit M d fuel s a t =
      (if st = Commit then mv_commitBoth M d fuel s a (1 - i) ((sCtx s)\<lparr>activeTxs := ac\<rparr>) t
       else Some (Inr (SUCCESS, s\<lparr>sCtx := (sCtx s)\<lparr>activeTxs := ac\<rparr>\<rparr>)))"
    using preCommit_marks [OF t(3,4) tabs(4,5) other] by metis
  let ?c = "(sCtx s)\<lparr>activeTxs := ac\<rparr>"
  show ?thesis
  proof (cases "st = Commit")
    case False
    then have "res = Inr (SUCCESS, s\<lparr>sCtx := ?c\<rparr>)" using run pre by simp
    then show ?thesis using False c(3) by simp
  next
    case True
    then have "mv_commitBoth M d fuel s a (1 - i) ?c t = Some res" using run pre by simp
    moreover have "regStates ?c ! (1 - i) = Some b" using tabs(6) by simp
    ultimately show ?thesis
      using True commitBoth_correct [OF M t(1,2) c(1,2) tabs(1-3) _ ok] by simp
  qed
qed

definition demo_system :: "StateContext \<Rightarrow> (nat \<rightharpoonup> nat MVCCObject, nat, nat) MVSystem" where
  "demo_system c = \<lparr>sCtx = c\<lparr>regStates := [Some 0, Some 1]\<rparr>, tabs = [demo_table, demo_table\<lparr>tblID := 1\<rparr>]\<rparr>"

lemma regStates_upd [simp]:
  "active_tx (c\<lparr>regStates := x\<rparr>) = active_tx c" "getReadCTS (c\<lparr>regStates := x\<rparr>) = getReadCTS c"
  "getWriteStatus (c\<lparr>regStates := x\<rparr>) = getWriteStatus c" "getPosFromTxnID (c\<lparr>regStates := x\<rparr>) = getPosFromTxnID c"
  "length x = 2 \<Longrightarrow> ctx_inv c \<Longrightarrow> ctx_inv (c\<lparr>regStates := x\<rparr>)"
  by (auto simp: ctx_inv_def active_tx_def fun_eq_iff getReadCTS_def getWriteStatus_def getPosFromTxnID_def)

lemma demo_commitBoth_returns:
  assumes "readers_ok c {}" and "5 < t" and "t \<noteq> DTS_INF" and "regStates c = [Some 0, Some 1]"
  shows "mv_commitBoth fun_map 0 1 (demo_system c') 0 1 c t \<noteq> None"
proof -
  obtain r1 where r1: "mv_transactionCommit fun_map 0 1 c demo_table t = Some r1" using demo_commit_returns by blast
  have e: "\<forall>r\<in>{}. r < t" by simp
  obtain c1 T1 m where k: "r1 = Inr (SUCCESS, c1, T1)" "c1 = c\<lparr>oldestVisibleVersion := m\<rparr>"
    using commit_correct [OF fun_map_laws assms(3) e assms(1) demo_table_ok [OF assms(2)] r1] by blast
  have "mv_transactionCommit fun_map 0 1 c1 (demo_table\<lparr>tblID := 1\<rparr>) t \<noteq> None"
    using demo_commit_returns [of c1 t] by (auto simp: mv_transactionCommit_def split: option.splits sum.splits)
  then show ?thesis
    using r1 k assms(4) by (auto simp: mv_commitBoth_def demo_system_def split: option.splits sum.splits)
qed

theorem mvcc_two_phase_commit_witness:
  "\<exists>c s'. getWriteStatus c 7 1 = Inr Commit \<and>
     mv_transactionPreCommit fun_map 0 1 (demo_system c) 0 7 = Some (Inr (SUCCESS, s')) \<and>
     getLastCTS (sCtx s') 0 = Inr 7 \<and>
     (\<forall>x\<in>{0, 1}. tread fun_map (mtbl (tabs s' ! x)) 7 2 = Some 7)"
proof -
  obtain c0 where c0: "ctx_inv c0" "active_tx c0 7" "readers_ok c0 {7}"
    by (rule reader_ctx_exists [of 6 5]) (auto simp: DTS_INF_def)
  obtain a where a: "ctx_inv (c0\<lparr>activeTxs := a\<rparr>)" "\<And>u. active_tx (c0\<lparr>activeTxs := a\<rparr>) u = active_tx c0 u"
    "\<And>o'. o' < MAX_STATES_TOPO \<Longrightarrow> getWriteStatus (c0\<lparr>activeTxs := a\<rparr>) 7 o' = (if o' = 1 then Inr Commit else getWriteStatus c0 7 o')"
    "\<And>u. active_tx c0 u \<Longrightarrow> getReadCTS (c0\<lparr>activeTxs := a\<rparr>) u 0 = getReadCTS c0 u 0"
    using setWriteStatus_spec [OF c0(1,2), of 1 Commit] by (metis one_less_numeral_iff semiring_norm(76))
  define c where "c = c0\<lparr>activeTxs := a\<rparr>"
  have c: "ctx_inv c" "active_tx c 7" "readers_ok c {}" "getWriteStatus c 7 1 = Inr Commit"
    using a c0 readers_ok_empty [OF readers_ok_activeTxs [OF c0(3) a(1,2,4)]] by (auto simp: c_def)
  let ?s = "demo_system c"
  have rd: "readers_ok (sCtx ?s) {}" using c(3) by (simp add: readers_ok_def demo_system_def)
  have run: "mv_transactionPreCommit fun_map 0 1 ?s 0 7 \<noteq> None"
  proof -
    have o: "active_tx (sCtx ?s) 7" "tblID (tabs ?s ! 0) = 0" "getWriteStatus (sCtx ?s) 7 (1 - 0) = Inr Commit"
      using c by (simp_all add: demo_system_def demo_table_def)
    obtain ac where ac: "readers_ok ((sCtx ?s)\<lparr>activeTxs := ac\<rparr>) {}"
      "mv_transactionPreCommit fun_map 0 1 ?s 0 7 = mv_commitBoth fun_map 0 1 ?s 0 (1 - 0) ((sCtx ?s)\<lparr>activeTxs := ac\<rparr>) 7"
      using preCommit_marks [OF rd o(1,2) _ o(3)] by (metis zero_less_numeral)
    have "regStates ((sCtx ?s)\<lparr>activeTxs := ac\<rparr>) = [Some 0, Some 1]" by (simp add: demo_system_def)
    then show ?thesis using ac demo_commitBoth_returns [OF ac(1), of 7 c] by (simp add: DTS_INF_def)
  qed
  then obtain res where res: "mv_transactionPreCommit fun_map 0 1 ?s 0 7 = Some res" by blast
  have ok: "tbl_ok fun_map (mtbl (tabs ?s ! x)) 7 K" if "x < 2" for x K
    using that demo_table_ok [of 7 K] by (auto simp: demo_system_def less_2_cases_iff)
  have "\<exists>s'. res = Inr (SUCCESS, s') \<and>
    (if Commit \<noteq> Commit then tabs s' = tabs ?s \<and> getWriteStatus (sCtx s') 7 0 = Inr Commit
     else getLastCTS (sCtx s') 0 = Inr 7 \<and> \<not> active_tx (sCtx s') 7 \<and>
       (\<forall>x\<in>{0, 1}. (\<forall>r\<in>{}. \<forall>k. tread fun_map (mtbl (tabs s' ! x)) r k = tread fun_map (mtbl (tabs ?s ! x)) r k) \<and>
          (\<forall>k\<in>fst ` set (wsSet (writeSet (tabs ?s ! x))). tread fun_map (mtbl (tabs s' ! x)) 7 k =
             Some (Min {v. (k, v) \<in> set (wsSet (writeSet (tabs ?s ! x)))}))))"
    by (rule mvcc_two_phase_commit [OF fun_map_laws _ _ rd _ _ _ _ _ _ _ ok ok _ res])
      (use c in \<open>auto simp: demo_system_def demo_table_def DTS_INF_def\<close>)
  then obtain s' where s': "res = Inr (SUCCESS, s')" "getLastCTS (sCtx s') 0 = Inr 7"
    "\<forall>x\<in>{0, 1}. \<forall>k\<in>fst ` set (wsSet (writeSet (tabs ?s ! x))). tread fun_map (mtbl (tabs s' ! x)) 7 k =
             Some (Min {v. (k, v) \<in> set (wsSet (writeSet (tabs ?s ! x)))})" by auto
  have ws: "wsSet (writeSet (tabs ?s ! x)) = [(1, 30), (2, 7), (1, 20)]" if "x \<in> {0, 1}" for x
    using that by (auto simp: demo_system_def demo_table_def)
  have "{v. (2, v) \<in> set [(1, 30), (2, 7), (1::nat, 20::nat)]} = {7}" by auto
  then have "\<forall>x\<in>{0, 1}. tread fun_map (mtbl (tabs s' ! x)) 7 2 = Some 7"
    using s'(3) ws by simp
  then show ?thesis using c(4) res s'(1,2) by blast
qed

end
