(* ===== verification/S2pl_Table.thy ===== *)
theory S2pl_Table
  imports Cuckoo_Table
begin

text \<open>
  Strict two-phase locking (\<open>table/S2PLTable.hpp\<close>): a writer locks each key it writes and
  keeps the locks until its transaction ends, readers lock each key they read and restart
  when a key is locked by the writer. The lock table and the operations are functions; one
  writer and any number of readers interleave in a step relation whose steps are the critical
  sections of the lock table and the accesses to the table. \<open>locks[key]\<close> creates a row lock on
  first use, so the lock table is a total function.
\<close>

section \<open>Row locks\<close>

record RowLock =
  active_readers :: int
  active_writer :: bool

type_synonym 'k S2PLLocks = "'k \<Rightarrow> RowLock"

definition S2PLLocks_new :: "'k S2PLLocks" where
  "S2PLLocks_new = (\<lambda>_. \<lparr>active_readers = 0, active_writer = False\<rparr>)"

definition lockShared :: "'k \<Rightarrow> 'k S2PLLocks \<Rightarrow> 'k S2PLLocks \<times> int" where
  "lockShared key locks =
     (if active_writer (locks key) then (locks, - 1)
      else (locks(key := (locks key)\<lparr>active_readers := active_readers (locks key) + 1\<rparr>), 0))"

text \<open>
  \<open>lockExclusive\<close> announces the writer at once and then waits until the last reader is gone;
  the two parts are separate, because the lock is released while it waits.
\<close>

definition lockExclusive_announce :: "'k \<Rightarrow> 'k S2PLLocks \<Rightarrow> 'k S2PLLocks" where
  "lockExclusive_announce key locks = locks(key := (locks key)\<lparr>active_writer := True\<rparr>)"

definition lockExclusive_proceeds :: "'k \<Rightarrow> 'k S2PLLocks \<Rightarrow> bool" where
  "lockExclusive_proceeds key locks \<longleftrightarrow> active_readers (locks key) = 0"

definition unlockShared :: "'k \<Rightarrow> 'k S2PLLocks \<Rightarrow> 'k S2PLLocks" where
  "unlockShared key locks = locks(key := (locks key)\<lparr>active_readers := active_readers (locks key) - 1\<rparr>)"

definition unlockExclusive :: "'k \<Rightarrow> 'k S2PLLocks \<Rightarrow> 'k S2PLLocks" where
  "unlockExclusive key locks = locks(key := (locks key)\<lparr>active_writer := False\<rparr>)"

section \<open>The table\<close>

record ('k, 'v, 'm) S2PLTable =
  s2Locks :: "'k S2PLLocks"
  wKeysLocked :: "'k list"
  s2Tbl :: "('m, 'v) CuckooTable"

text \<open>\<open>insert\<close> and \<open>deleteByKey\<close> after \<open>lockExclusive\<close> has returned.\<close>

definition s2_insert_locked :: "('m, 'k, 'v) cuckoohash_map \<Rightarrow> 'k \<Rightarrow> 'v \<Rightarrow> ('k, 'v, 'm) S2PLTable \<Rightarrow> ('k, 'v, 'm) S2PLTable" where
  "s2_insert_locked M key rec t = t\<lparr>wKeysLocked := wKeysLocked t @ [key], s2Tbl := cuckoo_insert M (s2Tbl t) key rec\<rparr>"

definition s2_delete_locked :: "('m, 'k, 'v) cuckoohash_map \<Rightarrow> 'k \<Rightarrow> ('k, 'v, 'm) S2PLTable \<Rightarrow> ('k, 'v, 'm) S2PLTable" where
  "s2_delete_locked M key t = t\<lparr>wKeysLocked := wKeysLocked t @ [key], s2Tbl := fst (cuckoo_deleteByKey M (s2Tbl t) key)\<rparr>"

text \<open>The whole operations when nothing interleaves; None: the writer waits for readers.\<close>

definition s2_insert :: "('m, 'k, 'v) cuckoohash_map \<Rightarrow> 'k \<Rightarrow> 'v \<Rightarrow> ('k, 'v, 'm) S2PLTable \<Rightarrow> ('k, 'v, 'm) S2PLTable option" where
  "s2_insert M key rec t =
     (let t1 = t\<lparr>s2Locks := lockExclusive_announce key (s2Locks t)\<rparr>
      in if lockExclusive_proceeds key (s2Locks t1) then Some (s2_insert_locked M key rec t1) else None)"

definition s2_deleteByKey :: "('m, 'k, 'v) cuckoohash_map \<Rightarrow> 'k \<Rightarrow> ('k, 'v, 'm) S2PLTable \<Rightarrow> (('k, 'v, 'm) S2PLTable \<times> nat) option" where
  "s2_deleteByKey M key t =
     (let t1 = t\<lparr>s2Locks := lockExclusive_announce key (s2Locks t)\<rparr>
      in if lockExclusive_proceeds key (s2Locks t1)
         then Some (s2_delete_locked M key t1, snd (cuckoo_deleteByKey M (s2Tbl t) key)) else None)"

definition s2_transactionCommit :: "('k, 'v, 'm) S2PLTable \<Rightarrow> ('k, 'v, 'm) S2PLTable" where
  "s2_transactionCommit t = t\<lparr>s2Locks := fold unlockExclusive (wKeysLocked t) (s2Locks t), wKeysLocked := []\<rparr>"

text \<open>The undo of an abort is missing: an abort does what a commit does.\<close>

definition s2_transactionAbort :: "('k, 'v, 'm) S2PLTable \<Rightarrow> ('k, 'v, 'm) S2PLTable" where
  "s2_transactionAbort t = t\<lparr>s2Locks := fold unlockExclusive (wKeysLocked t) (s2Locks t), wKeysLocked := []\<rparr>"

text \<open>
  The second table of a group that is ready commits both; the result says whether the
  transaction has ended.
\<close>

definition s2_transactionPreCommit ::
  "bool \<Rightarrow> ('k, 'v, 'm) S2PLTable \<times> ('k, 'v, 'm) S2PLTable \<Rightarrow> ('k, 'v, 'm) S2PLTable \<times> ('k, 'v, 'm) S2PLTable \<times> bool" where
  "s2_transactionPreCommit otherCommit ts =
     (let (this, oth) = ts
      in if otherCommit then (s2_transactionCommit this, s2_transactionCommit oth, True) else (this, oth, False))"

text \<open>Without transaction support: not done at all, or done on the table without locks.\<close>

definition s2_updateOrDeleteByKey :: "'k \<Rightarrow> ('k, 'v, 'm) S2PLTable \<Rightarrow> ('k, 'v, 'm) S2PLTable \<times> nat" where
  "s2_updateOrDeleteByKey key t = (t, 0)"

definition s2_updateByKey ::
  "('m, 'k, 'v) cuckoohash_map \<Rightarrow> 'k \<Rightarrow> ('v \<Rightarrow> 'v) \<Rightarrow> ('k, 'v, 'm) S2PLTable \<Rightarrow> ('k, 'v, 'm) S2PLTable \<times> nat" where
  "s2_updateByKey M key ufunc t = (let (tbl, n) = cuckoo_updateByKey M (s2Tbl t) key ufunc in (t\<lparr>s2Tbl := tbl\<rparr>, n))"

definition s2_truncate :: "('m, 'k, 'v) cuckoohash_map \<Rightarrow> ('k, 'v, 'm) S2PLTable \<Rightarrow> ('k, 'v, 'm) S2PLTable" where
  "s2_truncate M t = t\<lparr>s2Tbl := cuckoo_truncate M (s2Tbl t)\<rparr>"

definition s2_cleanUpReads :: "'k list \<Rightarrow> ('k, 'v, 'm) S2PLTable \<Rightarrow> ('k, 'v, 'm) S2PLTable" where
  "s2_cleanUpReads keys t = t\<lparr>s2Locks := fold unlockShared keys (s2Locks t)\<rparr>"

text \<open>Errors are \<open>Errc::ABORT\<close> (\<open>None\<close>) and \<open>Errc::NOT_FOUND\<close> (\<open>Some None\<close>).\<close>

definition s2_getByKey :: "('m, 'k, 'v) cuckoohash_map \<Rightarrow> 'k \<Rightarrow> ('k, 'v, 'm) S2PLTable \<Rightarrow> ('k, 'v, 'm) S2PLTable \<times> 'v option option" where
  "s2_getByKey M key t =
     (let (l, rc) = lockShared key (s2Locks t)
      in if rc \<noteq> 0 then (t\<lparr>s2Locks := l\<rparr>, None)
         else (case cuckoo_getByKey_out M (s2Tbl t) key of
                 None \<Rightarrow> (t\<lparr>s2Locks := unlockShared key l\<rparr>, Some None)
               | Some rec \<Rightarrow> (t\<lparr>s2Locks := l\<rparr>, Some (Some rec))))"

lemmas s2pl_ops [tbl_defs] =
  lockShared_def lockExclusive_announce_def lockExclusive_proceeds_def unlockShared_def unlockExclusive_def
  s2_insert_locked_def s2_delete_locked_def

section \<open>Interleavings of a writer and readers\<close>

text \<open>
  The writer is between operations, waits in \<open>lockExclusive\<close> with the write it is about to do
  (a record, or None for a deletion), or is in the loop that releases its locks. A reader has
  the keys and values it has read, and the key whose lock it has just taken. \<open>s2Committed\<close> is
  the content that the committed transactions alone have written; \<open>s2Aborted\<close> holds the keys that an aborted
  transaction has written and no later commit has, because an abort leaves its writes in
  the table. No operation reads these two.
\<close>

datatype ('k, 'v) s2writer = SActive | SWaiting 'k "'v option" | SReleasing "'k list"

record ('k, 'v) s2reader =
  held :: "('k \<times> 'v) list"
  locked :: "'k option"

record ('k, 'v, 'm) S2PLSys =
  s2Table :: "('k, 'v, 'm) S2PLTable"
  s2Writer :: "('k, 'v) s2writer"
  s2Readers :: "('k, 'v) s2reader list"
  s2Committed :: "'k \<Rightarrow> 'v option"
  s2Aborted :: "'k set"

definition upd_locks :: "('k S2PLLocks \<Rightarrow> 'k S2PLLocks) \<Rightarrow> ('k, 'v, 'm) S2PLSys \<Rightarrow> ('k, 'v, 'm) S2PLSys" where
  "upd_locks f s = s\<lparr>s2Table := (s2Table s)\<lparr>s2Locks := f (s2Locks (s2Table s))\<rparr>\<rparr>"

definition do_write :: "('m, 'k, 'v) cuckoohash_map \<Rightarrow> 'k \<Rightarrow> 'v option \<Rightarrow> ('k, 'v, 'm) S2PLTable \<Rightarrow> ('k, 'v, 'm) S2PLTable" where
  "do_write M k w t = (case w of Some rec \<Rightarrow> s2_insert_locked M k rec t | None \<Rightarrow> s2_delete_locked M k t)"

inductive s2pl_step :: "('m, 'k, 'v) cuckoohash_map \<Rightarrow> ('k, 'v, 'm) S2PLSys \<Rightarrow> ('k, 'v, 'm) S2PLSys \<Rightarrow> bool" for M where
  announce: "s2Writer s = SActive \<Longrightarrow>
    s2pl_step M s (upd_locks (lockExclusive_announce k) (s\<lparr>s2Writer := SWaiting k w\<rparr>))"
| write_locked: "s2Writer s = SWaiting k w \<Longrightarrow> lockExclusive_proceeds k (s2Locks (s2Table s)) \<Longrightarrow>
    s2pl_step M s (s\<lparr>s2Writer := SActive, s2Table := do_write M k w (s2Table s)\<rparr>)"
| commit: "s2Writer s = SActive \<Longrightarrow>
    s2pl_step M s (s\<lparr>s2Writer := SReleasing (wKeysLocked (s2Table s)),
      s2Committed := (\<lambda>k. if k \<in> set (wKeysLocked (s2Table s)) then cuckoo_getByKey_out M (s2Tbl (s2Table s)) k else s2Committed s k),
      s2Aborted := s2Aborted s - set (wKeysLocked (s2Table s))\<rparr>)"
| abort: "s2Writer s = SActive \<Longrightarrow>
    s2pl_step M s (s\<lparr>s2Writer := SReleasing (wKeysLocked (s2Table s)), s2Aborted := s2Aborted s \<union> set (wKeysLocked (s2Table s))\<rparr>)"
| release: "s2Writer s = SReleasing (k # ks) \<Longrightarrow>
    s2pl_step M s (upd_locks (unlockExclusive k) (s\<lparr>s2Writer := SReleasing ks\<rparr>))"
| released: "s2Writer s = SReleasing [] \<Longrightarrow>
    s2pl_step M s (s\<lparr>s2Writer := SActive, s2Table := (s2Table s)\<lparr>wKeysLocked := []\<rparr>\<rparr>)"
| lock_shared: "r < length (s2Readers s) \<Longrightarrow> locked (s2Readers s ! r) = None \<Longrightarrow> lockShared k (s2Locks (s2Table s)) = (l, 0) \<Longrightarrow>
    s2pl_step M s (upd_locks (\<lambda>_. l) (s\<lparr>s2Readers := (s2Readers s)[r := (s2Readers s ! r)\<lparr>locked := Some k\<rparr>]\<rparr>))"
| read_locked: "r < length (s2Readers s) \<Longrightarrow> locked (s2Readers s ! r) = Some k \<Longrightarrow> cuckoo_getByKey_out M (s2Tbl (s2Table s)) k = Some v \<Longrightarrow>
    s2pl_step M s (s\<lparr>s2Readers := (s2Readers s)[r := \<lparr>held = held (s2Readers s ! r) @ [(k, v)], locked = None\<rparr>]\<rparr>)"
| not_found: "r < length (s2Readers s) \<Longrightarrow> locked (s2Readers s ! r) = Some k \<Longrightarrow> cuckoo_getByKey_out M (s2Tbl (s2Table s)) k = None \<Longrightarrow>
    s2pl_step M s (upd_locks (unlockShared k) (s\<lparr>s2Readers := (s2Readers s)[r := (s2Readers s ! r)\<lparr>locked := None\<rparr>]\<rparr>))"
| unlock_shared: "r < length (s2Readers s) \<Longrightarrow> held (s2Readers s ! r) = (k, v) # rest \<Longrightarrow> locked (s2Readers s ! r) = None \<Longrightarrow>
    s2pl_step M s (upd_locks (unlockShared k) (s\<lparr>s2Readers := (s2Readers s)[r := \<lparr>held = rest, locked = None\<rparr>]\<rparr>))"

definition s2pl_init :: "('m, 'k, 'v) cuckoohash_map \<Rightarrow> ('m, 'v) CuckooTable \<Rightarrow> nat \<Rightarrow> ('k, 'v, 'm) S2PLSys" where
  "s2pl_init M tbl n =
     \<lparr>s2Table = \<lparr>s2Locks = S2PLLocks_new, wKeysLocked = [], s2Tbl = tbl\<rparr>, s2Writer = SActive,
      s2Readers = replicate n \<lparr>held = [], locked = None\<rparr>, s2Committed = cuckoo_getByKey_out M tbl, s2Aborted = {}\<rparr>"

section \<open>Invariant\<close>

text \<open>
  The reader count of a row lock is the number of shared locks the readers hold on it; the
  keys the writer has written (\<open>granted\<close>) are marked and have no readers; the table differs
  from the committed content only in these keys and in those an abort has left, and what the readers hold is current.
\<close>

definition reader_keys :: "('k, 'v) s2reader \<Rightarrow> 'k list" where
  "reader_keys r = map fst (held r) @ (case locked r of None \<Rightarrow> [] | Some k \<Rightarrow> [k])"

definition reader_count :: "('k, 'v) s2reader list \<Rightarrow> 'k \<Rightarrow> nat" where
  "reader_count rs k = sum_list (map (\<lambda>r. count_list (reader_keys r) k) rs)"

fun granted :: "('k, 'v) s2writer \<Rightarrow> 'k list \<Rightarrow> 'k set" where
  "granted (SReleasing ks) wk = {}"
| "granted _ wk = set wk"

fun marked :: "('k, 'v) s2writer \<Rightarrow> 'k list \<Rightarrow> 'k set" where
  "marked SActive wk = set wk"
| "marked (SWaiting k w) wk = insert k (set wk)"
| "marked (SReleasing ks) wk = set ks"

definition counts_ok :: "('k, 'v, 'm) S2PLSys \<Rightarrow> bool" where
  "counts_ok s \<longleftrightarrow> (\<forall>k. active_readers (s2Locks (s2Table s) k) = int (reader_count (s2Readers s) k))"

definition writer_inv :: "('k, 'v, 'm) S2PLSys \<Rightarrow> bool" where
  "writer_inv s \<longleftrightarrow>
     (\<forall>k. active_writer (s2Locks (s2Table s) k) \<longrightarrow> k \<in> marked (s2Writer s) (wKeysLocked (s2Table s))) \<and>
     (\<forall>k w. s2Writer s = SWaiting k w \<longrightarrow> active_writer (s2Locks (s2Table s) k)) \<and>
     (\<forall>k \<in> granted (s2Writer s) (wKeysLocked (s2Table s)).
        active_writer (s2Locks (s2Table s) k) \<and> active_readers (s2Locks (s2Table s) k) = 0)"

definition values_ok :: "('m, 'k, 'v) cuckoohash_map \<Rightarrow> ('k, 'v, 'm) S2PLSys \<Rightarrow> bool" where
  "values_ok M s \<longleftrightarrow>
     (\<forall>k. k \<notin> granted (s2Writer s) (wKeysLocked (s2Table s)) \<and> k \<notin> s2Aborted s \<longrightarrow> cuckoo_lookup M (s2Tbl (s2Table s)) k = s2Committed s k) \<and>
     (\<forall>r \<in> set (s2Readers s). \<forall>(k, v) \<in> set (held r). cuckoo_lookup M (s2Tbl (s2Table s)) k = Some v)"

lemma reader_count_update:
  assumes "r < length rs"
  shows "int (reader_count (rs[r := x]) k) =
    int (reader_count rs k) - int (count_list (reader_keys (rs ! r)) k) + int (count_list (reader_keys x) k)"
proof -
  let ?f = "\<lambda>r. count_list (reader_keys r) k"
  have "?f (rs ! r) \<le> reader_count rs k"
    using assms by (simp add: reader_count_def member_le_sum_list)
  then show ?thesis using assms by (simp add: reader_count_def map_update sum_list_update)
qed

lemma reader_count_pos: "r \<in> set rs \<Longrightarrow> k \<in> set (reader_keys r) \<Longrightarrow> reader_count rs k \<noteq> 0"
  by (auto simp: reader_count_def count_list_0_iff)

lemma upd_locks_sel [simp]:
  "s2Locks (s2Table (upd_locks f s)) = f (s2Locks (s2Table s))" "s2Writer (upd_locks f s) = s2Writer s"
  "s2Readers (upd_locks f s) = s2Readers s" "s2Committed (upd_locks f s) = s2Committed s" "s2Aborted (upd_locks f s) = s2Aborted s"
  "wKeysLocked (s2Table (upd_locks f s)) = wKeysLocked (s2Table s)" "s2Tbl (s2Table (upd_locks f s)) = s2Tbl (s2Table s)"
  by (simp_all add: upd_locks_def)

lemma do_write_sel [simp]:
  "s2Locks (do_write M k w t) = s2Locks t" "wKeysLocked (do_write M k w t) = wKeysLocked t @ [k]"
  by (simp_all add: do_write_def tbl_defs split: option.splits)

lemma do_write_other:
  "cuckoo_laws M \<Longrightarrow> j \<noteq> k \<Longrightarrow> cuckoo_lookup M (s2Tbl (do_write M k w t)) j = cuckoo_lookup M (s2Tbl t) j"
  by (simp add: do_write_def tbl_defs cuckoo_insert_lookup cuckoo_delete_lookup split: option.splits)

lemma step_counts: "s2pl_step M s s' \<Longrightarrow> counts_ok s \<Longrightarrow> counts_ok s'"
  by (induction rule: s2pl_step.induct)
    (auto simp: counts_ok_def tbl_defs reader_count_update reader_keys_def split: if_splits)

text \<open>Readers and the writer exclude each other on every key.\<close>

lemma reader_excludes_writer:
  assumes "counts_ok s" "writer_inv s" "r \<in> set (s2Readers s)" "k \<in> set (reader_keys r)"
  shows "k \<notin> granted (s2Writer s) (wKeysLocked (s2Table s))"
proof
  assume "k \<in> granted (s2Writer s) (wKeysLocked (s2Table s))"
  then have "active_readers (s2Locks (s2Table s) k) = 0" using assms(2) unfolding writer_inv_def by blast
  then show False using assms(1) reader_count_pos [OF assms(3,4)] by (simp add: counts_ok_def)
qed

lemma step_writer:
  assumes "s2pl_step M s s'" "counts_ok s" "writer_inv s"
  shows "writer_inv s'"
  using assms
proof (induction rule: s2pl_step.induct)
  case (not_found r s k)
  have "k \<notin> granted (s2Writer s) (wKeysLocked (s2Table s))"
    by (rule reader_excludes_writer [OF not_found(4,5), of "s2Readers s ! r"]) (use not_found in \<open>auto simp: reader_keys_def\<close>)
  then show ?case using not_found(5) by (auto simp: writer_inv_def tbl_defs)
next
  case (unlock_shared r s k v rest)
  have "k \<notin> granted (s2Writer s) (wKeysLocked (s2Table s))"
    by (rule reader_excludes_writer [OF unlock_shared(4,5), of "s2Readers s ! r"]) (use unlock_shared in \<open>auto simp: reader_keys_def\<close>)
  then show ?case using unlock_shared(5) by (auto simp: writer_inv_def tbl_defs)
qed (auto simp: writer_inv_def tbl_defs split: if_splits)

lemma values_ok_reader:
  assumes "values_ok M s" "s2Table s' = s2Table s \<or> (\<exists>l. s2Table s' = (s2Table s)\<lparr>s2Locks := l\<rparr>)" "s2Writer s' = s2Writer s"
    and "s2Committed s' = s2Committed s" "s2Aborted s' = s2Aborted s" "s2Readers s' = (s2Readers s)[r := x]"
    and "\<And>k v. (k, v) \<in> set (held x) \<Longrightarrow> cuckoo_lookup M (s2Tbl (s2Table s)) k = Some v"
  shows "values_ok M s'"
proof -
  have "s2Tbl (s2Table s') = s2Tbl (s2Table s)" "wKeysLocked (s2Table s') = wKeysLocked (s2Table s)" using assms(2) by auto
  moreover have "set (s2Readers s') \<subseteq> insert x (set (s2Readers s))" unfolding assms(6) by (rule set_update_subset_insert)
  ultimately show ?thesis using assms(1,3,4,5,7) unfolding values_ok_def by fastforce
qed

lemma values_ok_writer:
  assumes "values_ok M s" "s2Tbl (s2Table s') = s2Tbl (s2Table s)" "s2Committed s' = s2Committed s" "s2Aborted s' = s2Aborted s" "s2Readers s' = s2Readers s"
    and "granted (s2Writer s') (wKeysLocked (s2Table s')) = granted (s2Writer s) (wKeysLocked (s2Table s))"
  shows "values_ok M s'"
  using assms unfolding values_ok_def by simp

lemma held_current:
  "values_ok M s \<Longrightarrow> r < length (s2Readers s) \<Longrightarrow> (k, v) \<in> set (held (s2Readers s ! r)) \<Longrightarrow> cuckoo_lookup M (s2Tbl (s2Table s)) k = Some v"
  unfolding values_ok_def using nth_mem by fastforce

lemma step_values:
  assumes "s2pl_step M s s'" "cuckoo_laws M" "counts_ok s" "writer_inv s" "values_ok M s"
  shows "values_ok M s'"
  using assms
proof (induction rule: s2pl_step.induct)
  case (write_locked s k w)
  have "k \<notin> set (reader_keys r)" if "r \<in> set (s2Readers s)" for r
    using write_locked(2,4) reader_count_pos [OF that, of k] by (auto simp: counts_ok_def lockExclusive_proceeds_def)
  then have "\<forall>r \<in> set (s2Readers s). \<forall>(j, v) \<in> set (held r). j \<noteq> k" by (force simp: reader_keys_def)
  then show ?case using write_locked(1,6) do_write_other [OF write_locked(3), of _ k w "s2Table s"]
    unfolding values_ok_def by fastforce
next
  case (commit s)
  then show ?case by (auto simp: values_ok_def cuckoo_getByKey_out_def)
next
  case (abort s)
  then show ?case by (auto simp: values_ok_def)
next
  case (lock_shared r s k l)
  show ?case
    by (rule values_ok_reader [OF lock_shared(7), where r = r]) (use held_current [OF lock_shared(7,1)] in \<open>auto simp: upd_locks_def\<close>)
next
  case (read_locked r s k v)
  show ?case
    by (rule values_ok_reader [OF read_locked(7), where r = r])
      (use held_current [OF read_locked(7,1)] read_locked(3) in \<open>auto simp: cuckoo_getByKey_out_def\<close>)
next
  case (not_found r s k)
  show ?case
    by (rule values_ok_reader [OF not_found(7), where r = r]) (use held_current [OF not_found(7,1)] in \<open>auto simp: upd_locks_def\<close>)
next
  case (unlock_shared r s k v rest)
  show ?case
    by (rule values_ok_reader [OF unlock_shared(7), where r = r])
      (use held_current [OF unlock_shared(7,1)] unlock_shared(2) in \<open>auto simp: upd_locks_def\<close>)
qed (rule values_ok_writer, assumption, (simp_all)[5])+

definition s2pl_inv :: "('m, 'k, 'v) cuckoohash_map \<Rightarrow> ('k, 'v, 'm) S2PLSys \<Rightarrow> bool" where
  "s2pl_inv M s \<longleftrightarrow> counts_ok s \<and> writer_inv s \<and> values_ok M s"

lemma s2pl_reachable_inv:
  assumes "(s2pl_step M)\<^sup>*\<^sup>* (s2pl_init M tbl n) s" and "cuckoo_laws M"
  shows "s2pl_inv M s"
  using assms(1)
proof (induction rule: rtranclp_induct)
  case base
  show ?case
    by (auto simp: s2pl_inv_def s2pl_init_def S2PLLocks_new_def counts_ok_def reader_count_def reader_keys_def writer_inv_def
        values_ok_def cuckoo_getByKey_out_def sum_list_replicate)
next
  case (step s s')
  then show ?case
    unfolding s2pl_inv_def using step_counts step_writer step_values [OF step(2) assms(2)] by blast
qed

lemma readers_see_finished:
  assumes "s2pl_inv M s" "r \<in> set (s2Readers s)" "(k, v) \<in> set (held r)"
  shows "cuckoo_lookup M (s2Tbl (s2Table s)) k = Some v" and "k \<notin> granted (s2Writer s) (wKeysLocked (s2Table s))"
    and "k \<notin> s2Aborted s \<Longrightarrow> s2Committed s k = Some v"
proof -
  have "k \<in> set (reader_keys r)" using assms(3) by (force simp: reader_keys_def)
  then show g: "k \<notin> granted (s2Writer s) (wKeysLocked (s2Table s))"
    using reader_excludes_writer [OF _ _ assms(2)] assms(1) by (simp add: s2pl_inv_def)
  show l: "cuckoo_lookup M (s2Tbl (s2Table s)) k = Some v"
    using assms held_current [of M s _ k v] by (auto simp: s2pl_inv_def in_set_conv_nth)
  show "s2Committed s k = Some v" if "k \<notin> s2Aborted s" using assms(1) g that l unfolding s2pl_inv_def values_ok_def by metis
qed

lemma held_not_written:
  assumes "s2pl_step M s s'" "cuckoo_laws M" "counts_ok s" "r \<in> set (s2Readers s)" "(k, v) \<in> set (held r)"
  shows "cuckoo_lookup M (s2Tbl (s2Table s')) k = cuckoo_lookup M (s2Tbl (s2Table s)) k"
  using assms
proof (induction rule: s2pl_step.induct)
  case (write_locked s k' w)
  have "k \<in> set (reader_keys r)" using write_locked(6) by (force simp: reader_keys_def)
  then have "k' \<noteq> k" using write_locked(2,4) reader_count_pos [OF write_locked(5), of k] by (auto simp: counts_ok_def lockExclusive_proceeds_def)
  then show ?case using do_write_other [OF write_locked(3), of k k' w "s2Table s"] by simp
qed simp_all

section \<open>Progress of the writer\<close>

text \<open>Readers never wait, so those that keep a writer waiting can always be drained by their own steps.\<close>

definition reader_work :: "('k, 'v) s2reader \<Rightarrow> nat" where
  "reader_work r = 2 * length (held r) + (if locked r = None then 0 else 3)"

definition readers_work :: "('k, 'v, 'm) S2PLSys \<Rightarrow> nat" where
  "readers_work s = sum_list (map reader_work (s2Readers s))"

lemma sum_list_decrease: "r < length xs \<Longrightarrow> f x < f (xs ! r) \<Longrightarrow> sum_list (map f (xs[r := x])) < (sum_list (map f xs) :: nat)"
  using elem_le_sum_list [of r "map f xs"] by (simp add: map_update sum_list_update)

lemma drain_step:
  assumes "r < length (s2Readers s)" "reader_work (s2Readers s ! r) \<noteq> 0"
  obtains s' where "s2pl_step M s s'" "readers_work s' < readers_work s" "s2Writer s' = s2Writer s"
proof -
  let ?upd = "\<lambda>x. s\<lparr>s2Readers := (s2Readers s)[r := x]\<rparr>"
  have less: "readers_work (?upd x) < readers_work s" if "reader_work x < reader_work (s2Readers s ! r)" for x
    unfolding readers_work_def using assms(1) that by (simp add: sum_list_decrease)
  have work: "readers_work (upd_locks f u) = readers_work u" for f u by (simp add: readers_work_def)
  show thesis
  proof (cases "locked (s2Readers s ! r)")
    case None
    then obtain k v rest where h: "held (s2Readers s ! r) = (k, v) # rest"
      using assms(2) by (cases "held (s2Readers s ! r)") (auto simp: reader_work_def)
    show thesis
      by (rule that [OF s2pl_step.unlock_shared [OF assms(1) h None]]) (use h None less in \<open>simp_all add: work reader_work_def\<close>)
  next
    case (Some k)
    show thesis
    proof (cases "cuckoo_getByKey_out M (s2Tbl (s2Table s)) k")
      case None
      show thesis
        by (rule that [OF s2pl_step.not_found [OF assms(1) Some None]]) (use Some less in \<open>simp_all add: work reader_work_def\<close>)
    next
      case (Some v)
      show thesis
        by (rule that [OF s2pl_step.read_locked [OF assms(1) \<open>locked (s2Readers s ! r) = Some k\<close> Some]])
          (use \<open>locked (s2Readers s ! r) = Some k\<close> less in \<open>simp_all add: reader_work_def\<close>)
    qed
  qed
qed

lemma readers_drain:
  "\<exists>s'. (s2pl_step M)\<^sup>*\<^sup>* s s' \<and> s2Writer s' = s2Writer s \<and> readers_work s' = 0"
proof (induction "readers_work s" arbitrary: s rule: less_induct)
  case less
  show ?case
  proof (cases "readers_work s = 0")
    case False
    then obtain x where "x \<in> set (s2Readers s)" "reader_work x \<noteq> 0" by (auto simp: readers_work_def)
    then obtain r where "r < length (s2Readers s)" "reader_work (s2Readers s ! r) \<noteq> 0" by (auto simp: in_set_conv_nth)
    then obtain s1 where s1: "s2pl_step M s s1" "readers_work s1 < readers_work s" "s2Writer s1 = s2Writer s" by (rule drain_step)
    then show ?thesis using less [OF s1(2)] converse_rtranclp_into_rtranclp [of "s2pl_step M", OF s1(1)] by metis
  qed blast
qed

lemma drained_proceeds:
  assumes "counts_ok s" "readers_work s = 0"
  shows "lockExclusive_proceeds k (s2Locks (s2Table s))"
proof -
  have "reader_keys r = []" if "r \<in> set (s2Readers s)" for r
    using assms(2) that by (auto simp: readers_work_def reader_work_def reader_keys_def split: option.splits if_splits)
  then have "reader_count (s2Readers s) k = 0" by (auto simp: reader_count_def)
  then show ?thesis using assms(1) by (simp add: counts_ok_def lockExclusive_proceeds_def)
qed

section \<open>Properties\<close>

text \<open>
  (C6) What the locks guarantee with one writer, under every interleaving: as long as a reader
  holds its locks, everything it has read is the current value of its key, was written by a
  finished transaction, and is changed by no further step. It is the value of the last committed
  transaction, unless an aborted transaction has written the key since: an abort does
  not undo its writes, and the lemma \<open>aborted_write_is_read\<close> shows a reader that gets one.
\<close>

theorem s2pl_reads_serializable:
  assumes "cuckoo_laws M" and "(s2pl_step M)\<^sup>*\<^sup>* (s2pl_init M tbl n) s" and "r \<in> set (s2Readers s)"
  shows "\<forall>(k, v)\<in>set (held r). cuckoo_lookup M (s2Tbl (s2Table s)) k = Some v \<and> k \<notin> granted (s2Writer s) (wKeysLocked (s2Table s)) \<and>
    (k \<notin> s2Aborted s \<longrightarrow> s2Committed s k = Some v) \<and> (\<forall>s'. s2pl_step M s s' \<longrightarrow> cuckoo_lookup M (s2Tbl (s2Table s')) k = Some v)"
proof -
  note inv = s2pl_reachable_inv [OF assms(2,1)]
  then have "counts_ok s" by (simp add: s2pl_inv_def)
  then have w: "s2pl_step M s s' \<Longrightarrow> (k, v) \<in> set (held r) \<Longrightarrow> cuckoo_lookup M (s2Tbl (s2Table s')) k = Some v" for s' k v
    using held_not_written [OF _ assms(1) _ assms(3)] readers_see_finished(1) [OF inv assms(3)] by simp
  show ?thesis
  proof clarify
    fix k v
    assume h: "(k, v) \<in> set (held r)"
    show "cuckoo_lookup M (s2Tbl (s2Table s)) k = Some v \<and> k \<notin> granted (s2Writer s) (wKeysLocked (s2Table s)) \<and>
      (k \<notin> s2Aborted s \<longrightarrow> s2Committed s k = Some v) \<and> (\<forall>s'. s2pl_step M s s' \<longrightarrow> cuckoo_lookup M (s2Tbl (s2Table s')) k = Some v)"
      using readers_see_finished [OF inv assms(3) h] w h by blast
  qed
qed

theorem s2pl_reads_serializable_witness:
  "\<exists>s r. (s2pl_step fun_map)\<^sup>*\<^sup>* (s2pl_init fun_map \<lparr>cDataTable = [1 \<mapsto> 7], cImmediateObservers = 0, cNotified = []\<rparr> 1) s \<and>
     r \<in> set (s2Readers s) \<and> held r = [(1::nat, 7::nat)] \<and> s2Committed s 1 = Some 7"
proof -
  let ?s0 = "s2pl_init fun_map \<lparr>cDataTable = [1::nat \<mapsto> 7::nat], cImmediateObservers = 0, cNotified = []\<rparr> 1"
  let ?l = "(s2Locks (s2Table ?s0))(1 := \<lparr>active_readers = 1, active_writer = False\<rparr>)"
  let ?s1 = "upd_locks (\<lambda>_. ?l) (?s0\<lparr>s2Readers := [\<lparr>held = [], locked = Some 1\<rparr>]\<rparr>)"
  let ?s2 = "?s1\<lparr>s2Readers := [\<lparr>held = [(1, 7)], locked = None\<rparr>]\<rparr>"
  have "s2pl_step fun_map ?s0 ?s1" using s2pl_step.lock_shared [of 0 ?s0 1 ?l fun_map]
    by (simp add: s2pl_init_def lockShared_def S2PLLocks_new_def)
  moreover have "s2pl_step fun_map ?s1 ?s2" using s2pl_step.read_locked [of 0 ?s1 1 fun_map 7]
    by (simp add: s2pl_init_def cuckoo_getByKey_out_def fun_map_def)
  ultimately have run: "(s2pl_step fun_map)\<^sup>*\<^sup>* ?s0 ?s2" by (meson rtranclp.rtrancl_refl rtranclp.rtrancl_into_rtrancl)
  have r: "\<lparr>held = [(1, 7)], locked = None\<rparr> \<in> set (s2Readers ?s2)" by simp
  have a: "1 \<notin> s2Aborted ?s2" by (simp add: s2pl_init_def)
  have "s2Committed ?s2 1 = Some 7" using s2pl_reads_serializable [OF fun_map_laws run r] a by (simp del: upd_locks_sel)
  then show ?thesis using run r by (intro exI [of _ ?s2] exI [of _ "\<lparr>held = [(1, 7)], locked = None\<rparr>"]) simp
qed

text \<open>
  (C35) A waiting writer is never deadlocked: in every reachable state in which it waits for
  readers of a key, the readers can finish by their own steps, and the write then happens.
\<close>

theorem s2pl_writer_progress:
  assumes "cuckoo_laws M" and "(s2pl_step M)\<^sup>*\<^sup>* (s2pl_init M tbl n) s" and "s2Writer s = SWaiting k w"
  shows "\<exists>s'. (s2pl_step M)\<^sup>*\<^sup>* s s' \<and> s2Writer s' = SActive \<and> k \<in> set (wKeysLocked (s2Table s'))"
proof -
  obtain s1 where s1: "(s2pl_step M)\<^sup>*\<^sup>* s s1" "s2Writer s1 = SWaiting k w" "readers_work s1 = 0"
    using readers_drain [of M s] assms(3) by auto
  have "counts_ok s1" using s2pl_reachable_inv [OF rtranclp_trans [OF assms(2) s1(1)] assms(1)] by (simp add: s2pl_inv_def)
  then have "s2pl_step M s1 (s1\<lparr>s2Writer := SActive, s2Table := do_write M k w (s2Table s1)\<rparr>)"
    using s2pl_step.write_locked [OF s1(2) drained_proceeds] s1(3) by blast
  from rtranclp.rtrancl_into_rtrancl [OF s1(1) this] show ?thesis by force
qed

theorem s2pl_writer_progress_witness:
  "\<exists>s. (s2pl_step fun_map)\<^sup>*\<^sup>* (s2pl_init fun_map \<lparr>cDataTable = [1 \<mapsto> 7], cImmediateObservers = 0, cNotified = []\<rparr> 2) s \<and>
     s2Writer s = SWaiting (1::nat) (None :: nat option) \<and>
     (\<exists>s'. (s2pl_step fun_map)\<^sup>*\<^sup>* s s' \<and> s2Writer s' = SActive \<and> 1 \<in> set (wKeysLocked (s2Table s')))"
proof -
  let ?s0 = "s2pl_init fun_map \<lparr>cDataTable = [1::nat \<mapsto> 7::nat], cImmediateObservers = 0, cNotified = []\<rparr> 2"
  let ?s1 = "upd_locks (lockExclusive_announce 1) (?s0\<lparr>s2Writer := SWaiting 1 None\<rparr>)"
  have "s2pl_step fun_map ?s0 ?s1" by (rule s2pl_step.announce) (simp add: s2pl_init_def)
  then have run: "(s2pl_step fun_map)\<^sup>*\<^sup>* ?s0 ?s1" by blast
  have w: "s2Writer ?s1 = SWaiting 1 None" by simp
  show ?thesis using run w s2pl_writer_progress [OF fun_map_laws run w] by blast
qed

text \<open>
  What the locks do not give: two writers both get the exclusive lock, because \<open>lockExclusive\<close>
  does not look at \<open>active_writer\<close>, and an abort leaves the writes in the table.
\<close>

lemma two_writers_both_lock:
  "lockExclusive_proceeds k (lockExclusive_announce k (lockExclusive_announce k S2PLLocks_new))"
  by (simp add: tbl_defs S2PLLocks_new_def)

lemma abort_keeps_writes: "s2_transactionAbort t = s2_transactionCommit t"
  by (simp add: s2_transactionAbort_def s2_transactionCommit_def)

lemma aborted_write_is_read:
  "\<exists>s r. (s2pl_step fun_map)\<^sup>*\<^sup>* (s2pl_init fun_map \<lparr>cDataTable = Map.empty, cImmediateObservers = 0, cNotified = []\<rparr> 1) s \<and>
     r \<in> set (s2Readers s) \<and> held r = [(1::nat, 8::nat)] \<and> s2Committed s 1 = None"
proof -
  let ?s0 = "s2pl_init fun_map \<lparr>cDataTable = Map.empty :: nat \<Rightarrow> nat option, cImmediateObservers = 0, cNotified = []\<rparr> 1"
  let ?s1 = "upd_locks (lockExclusive_announce 1) (?s0\<lparr>s2Writer := SWaiting 1 (Some 8)\<rparr>)"
  let ?s2 = "?s1\<lparr>s2Writer := SActive, s2Table := do_write fun_map 1 (Some 8) (s2Table ?s1)\<rparr>"
  let ?s3 = "?s2\<lparr>s2Writer := SReleasing (wKeysLocked (s2Table ?s2)), s2Aborted := s2Aborted ?s2 \<union> set (wKeysLocked (s2Table ?s2))\<rparr>"
  let ?s4 = "upd_locks (unlockExclusive 1) (?s3\<lparr>s2Writer := SReleasing []\<rparr>)"
  let ?l = "fst (lockShared 1 (s2Locks (s2Table ?s4)))"
  let ?s5 = "upd_locks (\<lambda>_. ?l) (?s4\<lparr>s2Readers := [\<lparr>held = [], locked = Some 1\<rparr>]\<rparr>)"
  let ?s6 = "?s5\<lparr>s2Readers := [\<lparr>held = [(1, 8)], locked = None\<rparr>]\<rparr>"
  note i = s2pl_init_def S2PLLocks_new_def
  have "s2pl_step fun_map ?s0 ?s1" by (rule s2pl_step.announce) (simp add: i)
  moreover have "s2pl_step fun_map ?s1 ?s2" by (rule s2pl_step.write_locked) (simp_all add: i lockExclusive_announce_def lockExclusive_proceeds_def)
  moreover have "s2pl_step fun_map ?s2 ?s3" by (rule s2pl_step.abort) simp
  moreover have "s2pl_step fun_map ?s3 ?s4" using s2pl_step.release [of ?s3 1 "[]" fun_map] by (simp add: i)
  moreover have "s2pl_step fun_map ?s4 ?s5"
  proof -
    have l: "lockShared 1 (s2Locks (s2Table ?s4)) = (?l, 0)" by (simp add: i lockShared_def unlockExclusive_def lockExclusive_announce_def)
    have q: "s2Readers ?s4 = [\<lparr>held = [], locked = None\<rparr>]" by (simp add: i)
    from s2pl_step.lock_shared [OF _ _ l, of 0 fun_map] show ?thesis unfolding q by simp
  qed
  moreover have "s2pl_step fun_map ?s5 ?s6"
  proof -
    have g: "cuckoo_getByKey_out fun_map (s2Tbl (s2Table ?s5)) 1 = Some 8"
      by (simp add: i do_write_def s2_insert_locked_def cuckoo_getByKey_out_def cuckoo_insert_def fun_map_def)
    have q: "s2Readers ?s5 = [\<lparr>held = [], locked = Some 1\<rparr>]" by simp
    from s2pl_step.read_locked [OF _ _ g, of 0] show ?thesis unfolding q by simp
  qed
  ultimately have "(s2pl_step fun_map)\<^sup>*\<^sup>* ?s0 ?s6" by (meson rtranclp.rtrancl_refl rtranclp.rtrancl_into_rtrancl)
  moreover have "s2Committed ?s6 1 = None" by (simp add: i cuckoo_getByKey_out_def fun_map_def)
  ultimately show ?thesis by (intro exI [of _ ?s6] exI [of _ "\<lparr>held = [(1, 8)], locked = None\<rparr>"]) simp
qed

text \<open>The sequential operations: a successful read keeps a lock that \<open>cleanUpReads\<close> releases.\<close>

lemma getByKey_cleanUp:
  "s2_getByKey M k t = (t', Some (Some v)) \<Longrightarrow> s2_cleanUpReads [k] t' = t"
  "s2_getByKey M k t = (t', None) \<or> s2_getByKey M k t = (t', Some None) \<Longrightarrow> t' = t"
  by (auto simp: s2_getByKey_def s2_cleanUpReads_def tbl_defs split: if_splits option.splits)

text \<open>
  When the group commits, every key one of its tables has locked is free again and the
  contents are kept.
\<close>

lemma fold_unlockExclusive:
  "active_writer (fold unlockExclusive ks l k) \<longleftrightarrow> active_writer (l k) \<and> k \<notin> set ks"
  "active_readers (fold unlockExclusive ks l k) = active_readers (l k)"
  by (induction ks arbitrary: l) (auto simp: unlockExclusive_def)

lemma preCommit_releases:
  assumes "s2_transactionPreCommit True (t, u) = (t', u', e)"
  shows "active_writer (s2Locks t' k) \<longleftrightarrow> active_writer (s2Locks t k) \<and> k \<notin> set (wKeysLocked t)"
    and "active_writer (s2Locks u' k) \<longleftrightarrow> active_writer (s2Locks u k) \<and> k \<notin> set (wKeysLocked u)"
    and "s2Tbl t' = s2Tbl t \<and> s2Tbl u' = s2Tbl u \<and> wKeysLocked t' = [] \<and> wKeysLocked u' = [] \<and> e"
  using assms by (auto simp: s2_transactionPreCommit_def s2_transactionCommit_def fold_unlockExclusive)

end
