(* ===== verification/Table_Ops.thy ===== *)
theory Table_Ops
  imports Windows Tx_Table Mvcc_Table S2pl_Table
begin

text \<open>
  The operators between streams and tables: \<open>ToTable\<close>, \<open>ToTxTable\<close> and \<open>ToMVCCTable\<close> write a stream
  to a table, \<open>FromTable\<close> publishes the changes of a table, \<open>SelectFromTable\<close>,
  \<open>SelectFromTxTable\<close> and \<open>SelectFromMVCCTable\<close> scan a table, and \<open>FromTxTables\<close> is a read
  transaction over the tables of a group. They are connected to the windows and tables of the
  other theories.
\<close>

section \<open>ToTable\<close>

fun toTable_step :: "('v \<Rightarrow> 'k) \<Rightarrow> (('k, 'v) HashMapTable, 'v, 'v) opstep" where
  "toTable_step keyFunc t (Punct p) = Inr (t, [Punct p])"
| "toTable_step keyFunc t (Data x outdated) =
     (let key = keyFunc x;
          t1 = (if outdated then fst (ht_deleteByKey t key) else ht_insert t key x)
      in Inr (t1, [Data x outdated]))"

section \<open>ToTxTable and ToMVCCTable\<close>

text \<open>
  Both are templates over the table type; \<open>tx_ops\<close> are the operations they call. A transaction
  punctuation has to carry its transaction id, otherwise \<open>any_cast\<close> throws.
\<close>

record ('t, 'k, 'v) tx_ops =
  opBegin :: "'t \<Rightarrow> TransactionID \<Rightarrow> 't res"
  opPreCommit :: "'t \<Rightarrow> TransactionID \<Rightarrow> 't res"
  opCommit :: "'t \<Rightarrow> TransactionID \<Rightarrow> 't res"
  opAbort :: "'t \<Rightarrow> TransactionID \<Rightarrow> 't res"
  opInsert :: "'t \<Rightarrow> TransactionID \<Rightarrow> 'k \<Rightarrow> 'v \<Rightarrow> 't res"
  opDelete :: "'t \<Rightarrow> TransactionID \<Rightarrow> 'k \<Rightarrow> 't res"

definition txID_cast :: "Punctuation \<Rightarrow> TransactionID res" where
  "txID_cast p = (case mData p of None \<Rightarrow> Inl BadAnyCast | Some x \<Rightarrow> Inr x)"

definition toTx_processPunctuation :: "('t, 'k, 'v) tx_ops \<Rightarrow> 't \<Rightarrow> Punctuation \<Rightarrow> 't res" where
  "toTx_processPunctuation T t p =
     (case mPtype p of
        TxBegin \<Rightarrow> bind_res (txID_cast p) (opBegin T t)
      | TxCommit \<Rightarrow> bind_res (txID_cast p) (opPreCommit T t)
      | TxAbort \<Rightarrow> bind_res (txID_cast p) (opAbort T t)
      | _ \<Rightarrow> Inr t)"

definition toTx_processDataElement ::
  "('t, 'k, 'v) tx_ops \<Rightarrow> ('v \<Rightarrow> 'k) \<Rightarrow> ('v \<Rightarrow> TransactionID) \<Rightarrow> bool \<Rightarrow> 't \<Rightarrow> 'v \<Rightarrow> bool \<Rightarrow> 't res" where
  "toTx_processDataElement T keyFunc txFunc autoCommit t x outdated =
     (let txID = txFunc x; key = keyFunc x
      in bind_res (if outdated then opDelete T t txID key else opInsert T t txID key x)
           (\<lambda>t1. if autoCommit then opCommit T t1 txID else Inr t1))"

fun toTxTable_step :: "('t, 'k, 'v) tx_ops \<Rightarrow> ('v \<Rightarrow> 'k) \<Rightarrow> ('v \<Rightarrow> TransactionID) \<Rightarrow> bool \<Rightarrow> ('t, 'v, 'v) opstep" where
  "toTxTable_step T keyFunc txFunc autoCommit t (Punct p) =
     bind_res (toTx_processPunctuation T t p) (\<lambda>t1. Inr (t1, [Punct p]))"
| "toTxTable_step T keyFunc txFunc autoCommit t (Data x outdated) =
     bind_res (toTx_processDataElement T keyFunc txFunc autoCommit t x outdated) (\<lambda>t1. Inr (t1, [Data x outdated]))"

definition toMVCC_processPunctuation :: "('t, 'k, 'v) tx_ops \<Rightarrow> 't \<Rightarrow> Punctuation \<Rightarrow> 't res" where
  "toMVCC_processPunctuation T t p =
     (if mPtype p = TxCommit then bind_res (txID_cast p) (opPreCommit T t)
      else if mPtype p = TxAbort then bind_res (txID_cast p) (opAbort T t)
      else if mPtype p = TxBegin then bind_res (txID_cast p) (opBegin T t)
      else Inr t)"

fun toMVCCTable_step :: "('t, 'k, 'v) tx_ops \<Rightarrow> ('v \<Rightarrow> 'k) \<Rightarrow> ('v \<Rightarrow> TransactionID) \<Rightarrow> bool \<Rightarrow> ('t, 'v, 'v) opstep" where
  "toMVCCTable_step T keyFunc txFunc autoCommit t (Punct p) =
     bind_res (toMVCC_processPunctuation T t p) (\<lambda>t1. Inr (t1, [Punct p]))"
| "toMVCCTable_step T keyFunc txFunc autoCommit t (Data x outdated) =
     bind_res (toTx_processDataElement T keyFunc txFunc autoCommit t x outdated) (\<lambda>t1. Inr (t1, [Data x outdated]))"

definition TxTable_ops :: "(('k, 'v) TxTable, 'k, 'v) tx_ops" where
  "TxTable_ops =
     \<lparr>opBegin = (\<lambda>t x. Inr (tx_begin t x)), opPreCommit = tx_preCommit, opCommit = tx_commit,
      opAbort = (\<lambda>t x. Inr (tx_abort t x)), opInsert = (\<lambda>t x k v. Inr (tx_insert t x k v)),
      opDelete = (\<lambda>t x k. Inr (fst (tx_deleteByKey t x k)))\<rparr>"

section \<open>FromTable\<close>

text \<open>
  The table calls \<open>tableCallback\<close> for each change; the producer thread publishes what it finds
  in the queue. The second component of a queue element is handed on as the \<open>outdated\<close> flag.
\<close>

definition tableCallback :: "('v \<times> bool) list \<Rightarrow> 'v \<times> ModificationMode \<Rightarrow> ('v \<times> bool) list" where
  "tableCallback q c = (case c of (d, mode) \<Rightarrow> q @ [(d, mode = MInsert)])"

fun producer_round :: "('v \<times> bool) list \<Rightarrow> 'v event list" where
  "producer_round [] = []"
| "producer_round ((x, b) # q) = Data x b # producer_round q"

text \<open>Changes arrive (\<open>Some\<close>) or the producer runs (\<open>None\<close>).\<close>

fun fromTable_run :: "('v \<times> bool) list \<Rightarrow> ('v \<times> ModificationMode) option list \<Rightarrow> 'v event list \<times> ('v \<times> bool) list" where
  "fromTable_run q [] = ([], q)"
| "fromTable_run q (Some c # es) = fromTable_run (tableCallback q c) es"
| "fromTable_run q (None # es) = (let (os, q') = fromTable_run [] es in (producer_round q @ os, q'))"

section \<open>Scans\<close>

record ('t, 'v) SelectFrom =
  sfTable :: 't
  sfPredicate :: "('v \<Rightarrow> bool) option"

text \<open>The constructors of \<open>SelectFromTable\<close> and \<open>SelectFromTxTable\<close> do not store the predicate.\<close>

definition SelectFromTable_new :: "'t \<Rightarrow> ('v \<Rightarrow> bool) option \<Rightarrow> ('t, 'v) SelectFrom" where
  "SelectFromTable_new tbl pred = \<lparr>sfTable = tbl, sfPredicate = None\<rparr>"

definition selectFrom_events :: "'v list \<Rightarrow> 'v event list \<times> nat" where
  "selectFrom_events vs = (new_tuples vs @ [Punct (mkPunctuation EndOfStream)], length vs)"

definition selectFromTable_start :: "(('k, 'v) HashMapTable, 'v) SelectFrom \<Rightarrow> ('v event list \<times> nat) res option" where
  "selectFromTable_start s =
     (let iter = (case sfPredicate s of None \<Rightarrow> ht_select_all (sfTable s) | Some p \<Rightarrow> ht_select (sfTable s) p)
      in map_option (map_sum id selectFrom_events) (it_collect (Suc (ht_size (sfTable s))) iter))"

definition selectFromTxTable_start :: "(('k, 'v) TxTable, 'v) SelectFrom \<Rightarrow> ('v event list \<times> nat) res option" where
  "selectFromTxTable_start s =
     (let iter = (case sfPredicate s of None \<Rightarrow> tx_select_all (sfTable s) | Some p \<Rightarrow> tx_select (sfTable s) p)
      in map_option (map_sum id selectFrom_events) (it_collect (Suc (tx_size (sfTable s))) iter))"

text \<open>
  The scan of an MVCC table: \<open>objs\<close> are the version objects the iterator visits. The position
  is not checked, so an object without a version visible at \<open>txnID\<close> is read at index -1.
\<close>

fun selectFromMVCC_scan :: "TransactionID \<Rightarrow> 'v MVCCObject list \<Rightarrow> 'v list res" where
  "selectFromMVCC_scan txnID [] = Inr []"
| "selectFromMVCC_scan txnID (ob # objs) =
     (let pos = getCurrent ob txnID
      in if pos < 0 then Inl OutOfBounds
         else bind_res (selectFromMVCC_scan txnID objs) (\<lambda>vs. Inr (mvalues ob ! nat pos # vs)))"

definition selectFromMVCC_start :: "TransactionID \<Rightarrow> 'v MVCCObject list \<Rightarrow> ('v event list \<times> nat) res" where
  "selectFromMVCC_start txnID objs = map_sum id selectFrom_events (selectFromMVCC_scan txnID objs)"

section \<open>FromTxTables\<close>

text \<open>
  One round of the read loop over the locking tables of a group: for each key, each table in
  turn. A failure reports the index of the table; the clean-up releases in every table the
  keys read so far, including the current one in the tables before the failing one.
\<close>

fun ftx_tables :: "('m, 'k, 'v) cuckoohash_map \<Rightarrow> 'k \<Rightarrow> ('k, 'v, 'm) S2PLTable list \<Rightarrow> ('k, 'v, 'm) S2PLTable list \<times> (nat + 'v list)" where
  "ftx_tables M k [] = ([], Inr [])"
| "ftx_tables M k (t # ts) =
     (case s2_getByKey M k t of
        (t', Some (Some v)) \<Rightarrow>
          (case ftx_tables M k ts of
             (ts', Inr vs) \<Rightarrow> (t' # ts', Inr (v # vs))
           | (ts', Inl i) \<Rightarrow> (t' # ts', Inl (Suc i)))
      | (t', _) \<Rightarrow> (t' # ts, Inl 0))"

fun ftx_keys :: "('m, 'k, 'v) cuckoohash_map \<Rightarrow> 'k list \<Rightarrow> nat \<Rightarrow> ('k, 'v, 'm) S2PLTable list \<Rightarrow>
    ('k, 'v, 'm) S2PLTable list \<times> (nat \<times> nat + 'v list list)" where
  "ftx_keys M [] j ts = (ts, Inr [])"
| "ftx_keys M (k # ks) j ts =
     (case ftx_tables M k ts of
        (ts', Inl i) \<Rightarrow> (ts', Inl (j, i))
      | (ts', Inr vs) \<Rightarrow>
          (case ftx_keys M ks (Suc j) ts' of
             (ts'', Inl e) \<Rightarrow> (ts'', Inl e)
           | (ts'', Inr vss) \<Rightarrow> (ts'', Inr (vs # vss))))"

definition ftx_cleanup :: "'k list \<Rightarrow> nat \<Rightarrow> nat \<Rightarrow> ('k, 'v, 'm) S2PLTable list \<Rightarrow> ('k, 'v, 'm) S2PLTable list" where
  "ftx_cleanup keys j i ts =
     map (\<lambda>s. s2_cleanUpReads (take (if i > s then j + 1 else j) keys) (ts ! s)) [0..<length ts]"

definition ftx_round :: "('m, 'k, 'v) cuckoohash_map \<Rightarrow> 'k list \<Rightarrow> ('k, 'v, 'm) S2PLTable list \<Rightarrow>
    ('k, 'v, 'm) S2PLTable list \<times> 'v list list option" where
  "ftx_round M keys ts =
     (case ftx_keys M keys 0 ts of
        (ts', Inl (j, i)) \<Rightarrow> (ftx_cleanup keys j i ts', None)
      | (ts', Inr vss) \<Rightarrow> (ts', Some vss))"

text \<open>
  \<open>start\<close>: rounds until one succeeds; \<open>env n\<close> is what other threads do to the tables during the
  pause after the n-th failed round. The tuples are published table by table. None: still
  restarting after \<open>fuel\<close> rounds.
\<close>

fun ftx_start :: "('m, 'k, 'v) cuckoohash_map \<Rightarrow> 'k list \<Rightarrow> (nat \<Rightarrow> ('k, 'v, 'm) S2PLTable list \<Rightarrow> ('k, 'v, 'm) S2PLTable list) \<Rightarrow>
    nat \<Rightarrow> nat \<Rightarrow> ('k, 'v, 'm) S2PLTable list \<Rightarrow> (('k, 'v, 'm) S2PLTable list \<times> 'v event list \<times> nat) option" where
  "ftx_start M keys env n 0 ts = None"
| "ftx_start M keys env n (Suc fuel) ts =
     (case ftx_round M keys ts of
        (ts', None) \<Rightarrow> ftx_start M keys env (Suc n) fuel (env n ts')
      | (ts', Some vss) \<Rightarrow>
          Some (map (s2_cleanUpReads keys) ts',
                concat (map (\<lambda>s. map (\<lambda>vs. Data (vs ! s) False) vss) [0..<length ts'])
                  @ [Punct (mkPunctuation EndOfStream)],
                length ts' * length keys))"

section \<open>A table behind a window\<close>

text \<open>\<open>holds\<close>: the table is exactly the list of tuples, each under its key.\<close>

definition holds :: "('v \<Rightarrow> 'k) \<Rightarrow> ('k, 'v) HashMapTable \<Rightarrow> 'v list \<Rightarrow> bool" where
  "holds key t xs \<longleftrightarrow> ht_inv t \<and> (\<forall>k x. ht_lookup t k = Some x \<longleftrightarrow> x \<in> set xs \<and> key x = k)"

lemma holds_empty: "holds key HashMapTable_new []"
  by (simp add: holds_def HashMapTable_new_def ht_inv_def)

lemma holds_insert:
  assumes "holds key t xs" "distinct (map key (xs @ [x]))"
  shows "holds key (ht_insert t (key x) x) (xs @ [x])"
proof -
  have "key z \<noteq> key x" if "z \<in> set xs" for z using assms(2) that by (auto simp: image_iff)
  moreover have "ht_inv t" using assms(1) by (simp add: holds_def)
  ultimately show ?thesis using assms(1) by (auto simp: holds_def ht.lookup_put ht_insert_inv)
qed

lemma holds_delete:
  assumes "holds key t (y # ys)" "distinct (map key (y # ys))"
  shows "holds key (fst (ht_deleteByKey t (key y))) ys"
proof -
  have "key z \<noteq> key y" if "z \<in> set ys" for z using assms(2) that by (auto simp: image_iff)
  moreover have "ht_inv t" using assms(1) by (simp add: holds_def)
  ultimately show ?thesis using assms(1) by (auto simp: holds_def ht.lookup_del ht_delete_inv)
qed

lemma toTable_run: "\<exists>t'. run (toTable_step key) t es = Inr (t', es)"
proof (induction es arbitrary: t)
  case (Cons e es)
  obtain t1 where e: "toTable_step key t e = Inr (t1, [e])" by (cases e) (auto simp: Let_def)
  obtain t' where "run (toTable_step key) t1 es = Inr (t', es)" using Cons by blast
  with e show ?case by simp
qed simp

definition window_keys_distinct :: "nat \<Rightarrow> ('v \<Rightarrow> 'k) \<Rightarrow> 'v list \<Rightarrow> bool" where
  "window_keys_distinct n key xs \<longleftrightarrow> (\<forall>i\<le>length xs. distinct (map key (last_n n (take i xs))))"

lemma window_keys_snoc:
  assumes "window_keys_distinct n key (xs @ [x])"
  shows "window_keys_distinct n key xs" and "distinct (map key (last_n n xs))" and "distinct (map key (last_n n (xs @ [x])))"
proof -
  have d: "distinct (map key (last_n n (take i (xs @ [x]))))" if "i \<le> Suc (length xs)" for i
    using assms that by (simp add: window_keys_distinct_def)
  show "distinct (map key (last_n n (xs @ [x])))" using d [of "Suc (length xs)"] by simp
  have "distinct (map key (last_n n (take i xs)))" if "i \<le> length xs" for i using d [of i] that by simp
  from this this [of "length xs"] show "window_keys_distinct n key xs" and "distinct (map key (last_n n xs))"
    by (simp_all add: window_keys_distinct_def)
qed

lemma toTable_holds_window:
  assumes "0 < n" "window_keys_distinct n key xs"
  shows "\<exists>t'. run (toTable_step key) HashMapTable_new (slide_rows_out n xs) = Inr (t', slide_rows_out n xs) \<and> holds key t' (last_n n xs)"
  using assms(2)
proof (induction xs rule: rev_induct)
  case Nil
  then show ?case by (simp add: slide_rows_out_def last_n_def holds_empty)
next
  case (snoc x xs)
  note d = window_keys_snoc [OF snoc(2)]
  obtain t where t: "run (toTable_step key) HashMapTable_new (slide_rows_out n xs) = Inr (t, slide_rows_out n xs)"
    and h: "holds key t (last_n n xs)" using snoc(1) [OF d(1)] by blast
  show ?case
  proof (cases "n \<le> length xs")
    case False
    then have "last_n n xs = xs" "last_n n (xs @ [x]) = xs @ [x]" by (simp_all add: last_n_def)
    then have "holds key (ht_insert t (key x) x) (last_n n (xs @ [x]))" using holds_insert h d(3) by metis
    then show ?thesis using t False by (simp add: slide_rows_out_snoc run_append Let_def)
  next
    case True
    let ?y = "xs ! (length xs - n)"
    obtain ys where ys: "last_n n xs = ?y # ys" "last_n n (xs @ [x]) = ys @ [x]"
      using last_n_snoc_full [OF assms(1) True, of x] assms(1) True
      by (cases "last_n n xs") (auto simp: last_n_def)
    have "(xs @ [x]) ! (length xs - n) = ?y" using True assms(1) by (intro nth_append_left) simp
    moreover have "holds key (fst (ht_deleteByKey t (key ?y))) ys" using holds_delete h d(2) ys(1) by metis
    then have "holds key (ht_insert (fst (ht_deleteByKey t (key ?y))) (key x) x) (ys @ [x])"
      using holds_insert d(3) ys(2) by metis
    ultimately show ?thesis using t True ys(2) by (simp add: slide_rows_out_snoc run_append Let_def)
  qed
qed

section \<open>Streams of transactions\<close>

lemma toMVCC_same_handler: "toMVCCTable_step T key tx ac t e = toTxTable_step T key tx ac t e"
  by (cases e) (auto simp: toMVCC_processPunctuation_def toTx_processPunctuation_def split: PType.splits)

text \<open>The table operations of a stream; punctuations of other types have none.\<close>

fun op_of_event :: "('v \<Rightarrow> 'k) \<Rightarrow> ('v \<Rightarrow> TransactionID) \<Rightarrow> 'v event \<Rightarrow> ('k, 'v) tx_op list" where
  "op_of_event key tx (Data x True) = [OpDelete (tx x) (key x)]"
| "op_of_event key tx (Data x False) = [OpInsert (tx x) (key x) x]"
| "op_of_event key tx (Punct p) =
     (case mData p of None \<Rightarrow> []
      | Some x \<Rightarrow> (if mPtype p = TxBegin then [OpBegin x] else if mPtype p = TxCommit then [OpCommit x]
                  else if mPtype p = TxAbort then [OpAbort x] else []))"

definition ops_of_stream :: "('v \<Rightarrow> 'k) \<Rightarrow> ('v \<Rightarrow> TransactionID) \<Rightarrow> 'v event list \<Rightarrow> ('k, 'v) tx_op list" where
  "ops_of_stream key tx es = concat (map (op_of_event key tx) es)"

fun carries_id :: "'v event \<Rightarrow> bool" where
  "carries_id (Data x od) = True"
| "carries_id (Punct p) = (mPtype p \<in> {TxBegin, TxCommit, TxAbort} \<longrightarrow> mData p \<noteq> None)"

lemma toTx_event:
  assumes "carries_id e"
  shows "toTxTable_step TxTable_ops key tx False t e = bind_res (tx_run t (op_of_event key tx e)) (\<lambda>t'. Inr (t', [e]))"
proof (cases e)
  case (Data x od)
  then show ?thesis by (cases od) (simp_all add: toTx_processDataElement_def TxTable_ops_def Let_def)
next
  case (Punct p)
  show ?thesis using assms Punct
    by (cases "mData p"; cases "mPtype p"; cases "tx_preCommit t (the (mData p))")
      (auto simp: toTx_processPunctuation_def txID_cast_def TxTable_ops_def)
qed

lemma toTx_run:
  assumes "\<forall>e\<in>set es. carries_id e"
  shows "run (toTxTable_step TxTable_ops key tx False) t es = bind_res (tx_run t (ops_of_stream key tx es)) (\<lambda>t'. Inr (t', es))"
  using assms
proof (induction es arbitrary: t)
  case (Cons e es)
  show ?case
  proof (cases "tx_run t (op_of_event key tx e)")
    case (Inl err)
    then show ?thesis using Cons.prems by (simp add: toTx_event ops_of_stream_def tx_run_append)
  next
    case (Inr t1)
    then show ?thesis using Cons
      by (cases "tx_run t1 (ops_of_stream key tx es)") (simp_all add: toTx_event ops_of_stream_def tx_run_append)
  qed
qed (simp add: ops_of_stream_def)

section \<open>Change streams and scans\<close>

lemma producer_round_append: "producer_round (q @ q') = producer_round q @ producer_round q'"
  by (induction q rule: producer_round.induct) auto

lemma producer_round_changes: "producer_round (foldl tableCallback q cs) = producer_round q @ map (\<lambda>(x, m). Data x (m = MInsert)) cs"
  by (induction cs arbitrary: q) (auto simp: tableCallback_def producer_round_append)

text \<open>However producer and table interleave, the changes come out once and in order.\<close>

lemma fromTable_run_order:
  "fst (fromTable_run q es) @ producer_round (snd (fromTable_run q es)) =
     producer_round q @ map (\<lambda>(x, m). Data x (m = MInsert)) (List.map_filter id es)"
proof (induction q es rule: fromTable_run.induct)
  case (2 q c es)
  then show ?case by (cases c) (simp add: tableCallback_def producer_round_append map_filter_simps)
next
  case (3 q es)
  then show ?case by (simp add: Let_def case_prod_unfold map_filter_simps)
qed (simp add: map_filter_simps)

lemma selectFromTable_start_eq:
  "selectFromTable_start (SelectFromTable_new t pred) = Some (Inr (selectFrom_events (map snd (mDataTable t))))"
  using it_collect_select [of "mDataTable t" "Suc (ht_size t)" "\<lambda>_. True"]
  by (simp add: selectFromTable_start_def SelectFromTable_new_def ht_select_all_def ht_size_def)

lemma selectFromTxTable_start_eq:
  "selectFromTxTable_start (SelectFromTable_new t pred) = Some (Inr (selectFrom_events (map snd (mDataTable (tx_tbl t)))))"
  using it_collect_select [of "mDataTable (tx_tbl t)" "Suc (ht_size (tx_tbl t))" "\<lambda>_. True"]
  by (simp add: selectFromTxTable_start_def SelectFromTable_new_def tx_select_all_def ht_select_all_def ht_size_def tx_size_def)

text \<open>The MVCC scan publishes the versions visible at its timestamp, and fails if one object has none.\<close>

lemma selectFromMVCC_scan_eq:
  "selectFromMVCC_scan x objs =
    (if \<forall>ob\<in>set objs. read_at ob x \<noteq> None then Inr (map (\<lambda>ob. the (read_at ob x)) objs) else Inl OutOfBounds)"
  by (induction objs) (auto simp: read_at_def Let_def getCurrent_cases)

section \<open>Read transactions release what they lock\<close>

lemma unlockShared_commute: "unlockShared k (unlockShared j l) = unlockShared j (unlockShared k l)"
  by (auto simp: unlockShared_def fun_eq_iff)

lemma fold_unlockShared_commute: "fold unlockShared ks (unlockShared k l) = unlockShared k (fold unlockShared ks l)"
proof (induction ks arbitrary: l)
  case (Cons j ks)
  show ?case unfolding fold_simps comp_apply unlockShared_commute [of j k] by (rule Cons.IH)
qed simp

lemma cleanUp_snoc: "s2_cleanUpReads (ks @ [k]) t = s2_cleanUpReads ks (s2_cleanUpReads [k] t)"
  by (simp add: s2_cleanUpReads_def fold_unlockShared_commute)

lemma cleanUp_Nil [simp]: "s2_cleanUpReads [] t = t"
  by (simp add: s2_cleanUpReads_def)

lemma cleanUp_data [simp]: "s2Tbl (s2_cleanUpReads ks t) = s2Tbl t"
  by (simp add: s2_cleanUpReads_def)

lemma getByKey_value:
  "s2_getByKey M k t = (t', Some (Some v)) \<Longrightarrow> cuckoo_getByKey_out M (s2Tbl t) k = Some v \<and> \<not> active_writer (s2Locks t k)"
  by (auto simp: s2_getByKey_def lockShared_def split: if_splits option.splits)

lemma ftx_tables_Inr:
  "ftx_tables M k ts = (ts', Inr vs) \<Longrightarrow>
     map (s2_cleanUpReads [k]) ts' = ts \<and> map Some vs = map (\<lambda>t. cuckoo_getByKey_out M (s2Tbl t) k) ts"
  by (induction ts arbitrary: ts' vs)
    (auto split: prod.splits option.splits sum.splits dest: getByKey_cleanUp getByKey_value)

lemma ftx_tables_Inl:
  "ftx_tables M k ts = (ts', Inl i) \<Longrightarrow>
     length ts' = length ts \<and> (\<forall>s<length ts. s2_cleanUpReads (if s < i then [k] else []) (ts' ! s) = ts ! s)"
proof (induction ts arbitrary: ts' i)
  case (Cons t ts)
  obtain t' r where g: "s2_getByKey M k t = (t', r)" by force
  show ?case
  proof (cases "\<exists>v. r = Some (Some v)")
    case True
    then obtain v where v: "r = Some (Some v)" ..
    obtain us i' where u: "ftx_tables M k ts = (us, Inl i')" "ts' = t' # us" "i = Suc i'"
      using Cons.prems g v by (auto split: prod.splits sum.splits)
    then show ?thesis using Cons.IH [OF u(1)] getByKey_cleanUp(1) [OF g [unfolded v]] by (auto simp: nth_Cons split: nat.splits)
  next
    case False
    then have "ts' = t' # ts" "i = 0" using Cons.prems g by (auto split: option.splits)
    moreover have "t' = t" using False g getByKey_cleanUp(2) [of M k t t'] by (cases r) auto
    ultimately show ?thesis by simp
  qed
qed simp

lemma ftx_keys_balanced:
  assumes "map (s2_cleanUpReads pre) ts = ts0"
  shows "ftx_keys M ks (length pre) ts = (ts', Inr vss) \<Longrightarrow> map (s2_cleanUpReads (pre @ ks)) ts' = ts0 \<and>
      map (map Some) vss = map (\<lambda>k. map (\<lambda>t. cuckoo_getByKey_out M (s2Tbl t) k) ts0) ks"
    and "ftx_keys M ks (length pre) ts = (ts', Inl (j, i)) \<Longrightarrow> ftx_cleanup (pre @ ks) j i ts' = ts0"
  using assms
proof (induction ks arbitrary: pre ts ts' vss)
  case (Cons k ks)
  {
    case 1
    obtain us vs where u: "ftx_tables M k ts = (us, Inr vs)" using 1(1) by (auto split: prod.splits sum.splits)
    obtain vss' where k: "ftx_keys M ks (length (pre @ [k])) us = (ts', Inr vss')" "vss = vs # vss'"
      using 1(1) u by (auto split: prod.splits sum.splits)
    note f = ftx_tables_Inr [OF u]
    have "map (s2_cleanUpReads (pre @ [k])) us = ts0"
      using f 1(2) by (auto simp: cleanUp_snoc comp_def simp flip: list.map_comp)
    from Cons.IH(1) [OF k(1) this] show ?case using k(2) f 1(2) by (auto simp: comp_def)
  next
    case 2
    show ?case
    proof (cases "ftx_tables M k ts")
      case (Pair us r)
      show ?thesis
      proof (cases r)
        case (Inl i')
        then have e: "ts' = us" "j = length pre" "i = i'" using 2(1) Pair by auto
        note f = ftx_tables_Inl [OF Pair [unfolded Inl]]
        have "s2_cleanUpReads (take (if i > s then j + 1 else j) (pre @ k # ks)) (us ! s) = ts0 ! s" if "s < length us" for s
          using f that e 2(2) by (auto simp: cleanUp_snoc)
        then show ?thesis using f 2(2) e unfolding ftx_cleanup_def by (intro nth_equalityI) auto
      next
        case (Inr vs)
        then have k: "ftx_keys M ks (length (pre @ [k])) us = (ts', Inl (j, i))"
          using 2(1) Pair by (auto split: prod.splits sum.splits)
        have "map (s2_cleanUpReads (pre @ [k])) us = ts0"
          using ftx_tables_Inr [OF Pair [unfolded Inr]] 2(2) by (auto simp: cleanUp_snoc comp_def simp flip: list.map_comp)
        from Cons.IH(2) [OF k this] show ?thesis by simp
      qed
    qed
  }
qed auto

definition readable :: "('m, 'k, 'v) cuckoohash_map \<Rightarrow> 'k \<Rightarrow> ('k, 'v, 'm) S2PLTable \<Rightarrow> bool" where
  "readable M k t \<longleftrightarrow> \<not> active_writer (s2Locks t k) \<and> cuckoo_getByKey_out M (s2Tbl t) k \<noteq> None"

lemma getByKey_readable:
  assumes "readable M k t"
  obtains t' v where "s2_getByKey M k t = (t', Some (Some v))" and "\<And>j. readable M j t' = readable M j t"
  using assms by (auto simp: readable_def s2_getByKey_def lockShared_def)

lemma ftx_tables_succeed:
  assumes "\<forall>t\<in>set ts. readable M k t"
  shows "\<exists>ts' vs. ftx_tables M k ts = (ts', Inr vs) \<and> (\<forall>j. list_all (readable M j) ts' = list_all (readable M j) ts)"
  using assms
proof (induction ts)
  case (Cons t ts)
  obtain t' v where t: "s2_getByKey M k t = (t', Some (Some v))" "\<And>j. readable M j t' = readable M j t"
    using getByKey_readable [of M k t] Cons.prems by auto
  obtain ts' vs where "ftx_tables M k ts = (ts', Inr vs)" "\<forall>j. list_all (readable M j) ts' = list_all (readable M j) ts"
    using Cons by auto
  with t show ?case by simp
qed simp

lemma ftx_keys_succeed:
  assumes "\<forall>k\<in>set ks. list_all (readable M k) ts"
  shows "\<exists>ts' vss. ftx_keys M ks j ts = (ts', Inr vss)"
  using assms
proof (induction ks arbitrary: j ts)
  case (Cons k ks)
  obtain ts' vs where u: "ftx_tables M k ts = (ts', Inr vs)" "\<forall>j. list_all (readable M j) ts' = list_all (readable M j) ts"
    using ftx_tables_succeed [of ts M k] Cons.prems by (auto simp: list_all_iff)
  then obtain ts'' vss where "ftx_keys M ks (Suc j) ts' = (ts'', Inr vss)" using Cons.IH [of ts' "Suc j"] Cons.prems by auto
  with u show ?case by simp
qed simp

section \<open>Properties\<close>

text \<open>
  (C23) A table behind a row-based sliding window is a materialised view of the window, as long as the keys are distinct within each window: if the
  tuples of every window have distinct keys, then after any sequence of tuples the table
  holds exactly the last \<open>sz\<close> of them, each under its key, and no operator fails.
\<close>

theorem windowed_table_view:
  assumes "SlidingWindow_rows RowWindow sz None 0 = Inr w" and "sz \<noteq> 0" and "sz \<noteq> - 1" and "window_keys_distinct (unat sz) key xs"
  shows "\<exists>w' t'. run (compose_step sw_step (toTable_step key)) (w, HashMapTable_new) (new_tuples xs) =
      Inr ((w', t'), slide_rows_out (unat sz) xs) \<and>
    (\<forall>k x. ht_lookup t' k = Some x \<longleftrightarrow> x \<in> set (last_n (unat sz) xs) \<and> key x = k)"
proof -
  have "0 < unat sz" using assms(2) by (simp add: unat_gt_0)
  from toTable_holds_window [OF this assms(4)] obtain t' where
    t: "run (toTable_step key) HashMapTable_new (slide_rows_out (unat sz) xs) = Inr (t', slide_rows_out (unat sz) xs)"
    and h: "holds key t' (last_n (unat sz) xs)" by blast
  have "run sw_step w (new_tuples xs) =
     Inr (w\<lparr>mTupleBuf := last_n (unat sz) xs, mCurrSize := of_nat (min (unat sz) (length xs))\<rparr>, slide_rows_out (unat sz) xs)"
    using assms(1,3) by (intro sliding_row_run) (auto simp: SlidingWindow_rows_def Window_rows_def sw_setupEviction_def)
  from run_compose [OF this t] h show ?thesis by (auto simp: holds_def)
qed

theorem windowed_table_view_witness:
  "\<exists>w w' t'. SlidingWindow_rows RowWindow 2 None 0 = Inr w \<and>
     run (compose_step sw_step (toTable_step fst)) (w, HashMapTable_new) (new_tuples [(1, 10), (2, 20), (1 :: int, 30 :: int)]) =
       Inr ((w', t'), slide_rows_out 2 [(1, 10), (2, 20), (1, 30)]) \<and> ht_lookup t' 1 = Some (1, 30)"
proof -
  obtain w where w: "SlidingWindow_rows RowWindow (2 :: uint) (None :: ((int \<times> int) list \<Rightarrow> int \<times> int \<Rightarrow> int \<times> int) option) 0 = Inr w"
    by (simp add: SlidingWindow_rows_def Window_rows_def)
  have u: "unat (2 :: uint) = 2" by simp
  have d: "window_keys_distinct (unat (2 :: uint)) fst [(1, 10), (2, 20), (1 :: int, 30 :: int)]"
    unfolding u by (auto simp: window_keys_distinct_def last_n_def le_Suc_eq)
  have "(2 :: uint) \<noteq> 0" "(2 :: uint) \<noteq> - 1" by simp_all
  from windowed_table_view [OF w this d] obtain w' t' where
    "run (compose_step sw_step (toTable_step fst)) (w, HashMapTable_new) (new_tuples [(1, 10), (2, 20), (1, 30)]) =
       Inr ((w', t'), slide_rows_out (unat (2 :: uint)) [(1, 10), (2, 20), (1, 30)])"
    and l: "\<forall>k x. ht_lookup t' k = Some x \<longleftrightarrow> x \<in> set (last_n (unat (2 :: uint)) [(1, 10), (2, 20), (1, 30)]) \<and> fst x = k" by blast
  moreover have "ht_lookup t' 1 = Some (1, 30)" using l by (simp add: last_n_def)
  ultimately show ?thesis using w by auto
qed

text \<open>
  Without distinct keys the view is wrong: when the older of two tuples with one key leaves
  the window, the newer one is deleted from the table although it is still in the window.
\<close>

lemma windowed_table_loses_key:
  "run (toTable_step fst) HashMapTable_new (slide_rows_out 2 [(1, 10), (1, 20), (2 :: int, 30 :: int)]) = Inr (t, os) \<Longrightarrow>
   ht_lookup t 1 = None \<and> (1, 20) \<in> set (last_n 2 [(1, 10), (1, 20), (2 :: int, 30 :: int)])"
  by (auto simp: slide_rows_out_def upt_rec last_n_def Let_def HashMapTable_new_def ht_insert_def ht_deleteByKey_def notifyObservers_def)

text \<open>
  (C7) A stream of interleaved transactions, written to a transactional table by \<open>ToTxTable\<close> (or
  by \<open>ToMVCCTable\<close>, whose handlers are the same), leaves the table of the serial execution of the
  committed transactions in the order of their commits, provided every transaction
  punctuation carries its id and no transaction commits without a write; the stream itself is
  passed on unchanged.
\<close>

theorem toTxTable_serializable:
  fixes key :: "'v \<Rightarrow> 'k" and tx :: "'v \<Rightarrow> TransactionID" and es :: "'v event list"
  assumes "\<forall>e\<in>set es. carries_id e" and "commits_nonempty (\<lambda>_. False) (ops_of_stream key tx es)"
  shows "\<exists>t s. run (toTxTable_step TxTable_ops key tx False) TxTable_new es = Inr (t, es) \<and>
    run (toMVCCTable_step TxTable_ops key tx False) TxTable_new es = Inr (t, es) \<and>
    tx_run TxTable_new (serial (\<lambda>_. []) (ops_of_stream key tx es)) = Inr s \<and> tx_tbl s = tx_tbl t"
proof -
  have "sim_pend (TxTable_new :: ('k, 'v) TxTable) (\<lambda>_. [])"
    by (simp add: sim_pend_def TxTable_new_def entries_of_def ht_inv_def HashMapTable_new_def)
  moreover have "TxTable_new\<lparr>logBuffer := Map.empty\<rparr> = (TxTable_new :: ('k, 'v) TxTable)" by (simp add: TxTable_new_def)
  ultimately obtain t s where t: "tx_run TxTable_new (ops_of_stream key tx es) = Inr t"
    "tx_run TxTable_new (serial (\<lambda>_. []) (ops_of_stream key tx es)) = Inr s" "tx_tbl s = tx_tbl t"
    using serial_sim [of TxTable_new "\<lambda>_. []" "ops_of_stream key tx es"] assms(2) by auto
  have "toMVCCTable_step TxTable_ops key tx False = toTxTable_step TxTable_ops key tx False"
    by (intro ext toMVCC_same_handler)
  with t show ?thesis using toTx_run [OF assms(1), of key tx TxTable_new] by auto
qed

abbreviation demo_tx_stream :: "(TransactionID \<times> nat) event list" where
  "demo_tx_stream \<equiv> [Punct (mkPunctuationVal TxBegin 1), Data (1, 5) False, Data (2, 5) False,
     Punct (mkPunctuationVal TxCommit 2), Data (1, 6) False, Punct (mkPunctuationVal TxAbort 1)]"

theorem toTxTable_serializable_witness:
  "commits_nonempty (\<lambda>_. False) (ops_of_stream snd fst demo_tx_stream) \<and>
   serial (\<lambda>_. []) (ops_of_stream snd fst demo_tx_stream) = [OpInsert 2 5 (2, 5), OpCommit 2] \<and>
   (\<exists>t s. run (toTxTable_step TxTable_ops snd fst False) TxTable_new demo_tx_stream = Inr (t, demo_tx_stream) \<and>
      tx_run TxTable_new [OpInsert 2 5 (2, 5), OpCommit 2] = Inr s \<and> tx_tbl s = tx_tbl t)"
proof -
  have o: "ops_of_stream snd fst demo_tx_stream =
      [OpBegin 1, OpInsert 1 5 (1, 5), OpInsert 2 5 (2, 5), OpCommit 2, OpInsert 1 6 (1, 6), OpAbort 1]"
    by (simp add: ops_of_stream_def mkPunctuationVal_def)
  have c: "commits_nonempty (\<lambda>_. False) (ops_of_stream snd fst demo_tx_stream)" unfolding o by simp
  have s: "serial (\<lambda>_. []) (ops_of_stream snd fst demo_tx_stream) = [OpInsert 2 5 (2, 5), OpCommit 2]" unfolding o by simp
  have "\<forall>e\<in>set demo_tx_stream. carries_id e" by (simp add: mkPunctuationVal_def)
  from toTxTable_serializable [OF this c] c s show ?thesis by auto
qed

text \<open>
  The change stream of a table: however the table and the producer thread interleave, every
  change is published once and in order, but with the outdated flag inverted: inserted
  records are published as outdated and deleted or updated ones as new. A copy of the table
  kept by \<open>ToTable\<close> from this stream therefore has no record after an insertion, and has the
  record after its deletion.
\<close>

theorem fromTable_inverts_changes:
  "(fst (fromTable_run [] es) @ producer_round (snd (fromTable_run [] es)) =
      map (\<lambda>(x, m). Data x (m = MInsert)) (List.map_filter id es)) \<and>
   (\<exists>t1 t2. run (toTable_step key) HashMapTable_new (fst (fromTable_run [] [Some (x, MInsert), None])) = Inr (t1, [Data x True]) \<and>
      ht_lookup t1 = Map.empty \<and>
      run (toTable_step key) t1 (fst (fromTable_run [] [Some (x, MDelete), None])) = Inr (t2, [Data x False]) \<and>
      ht_lookup t2 = [key x \<mapsto> x])"
  using fromTable_run_order [of "[]" es]
  by (simp add: tableCallback_def Let_def HashMapTable_new_def ht_deleteByKey_def ht_insert_def notifyObservers_def fun_eq_iff)

text \<open>
  A read transaction of \<open>FromTxTables\<close> over locking tables is balanced: a round that fails
  at any key and table releases exactly the locks it took, so the tables are as before; a
  round that succeeds has read every key from every table, and after the final clean-up the
  tables are as before. If all keys are readable the first round succeeds.
\<close>

theorem read_transaction_balanced:
  "(\<forall>ts'. ftx_round M keys ts = (ts', None) \<longrightarrow> ts' = ts) \<and>
   (\<forall>ts' vss. ftx_round M keys ts = (ts', Some vss) \<longrightarrow> map (s2_cleanUpReads keys) ts' = ts \<and>
      map (map Some) vss = map (\<lambda>k. map (\<lambda>t. cuckoo_getByKey_out M (s2Tbl t) k) ts) keys) \<and>
   ((\<forall>k\<in>set keys. list_all (readable M k) ts) \<longrightarrow> (\<exists>os. ftx_start M keys env n 1 ts = Some (ts, os, length ts * length keys)))"
proof (intro conjI allI impI)
  have id: "map (s2_cleanUpReads []) ts = ts" by (simp add: map_idI)
  note k = ftx_keys_balanced [OF id, of M keys, unfolded list.size append_Nil]
  show "ts' = ts" if "ftx_round M keys ts = (ts', None)" for ts'
    using that k(2) by (auto simp: ftx_round_def split: prod.splits sum.splits)
  have ok: "map (s2_cleanUpReads keys) ts' = ts \<and> map (map Some) vss = map (\<lambda>k. map (\<lambda>t. cuckoo_getByKey_out M (s2Tbl t) k) ts) keys"
    if "ftx_round M keys ts = (ts', Some vss)" for ts' vss
    using that k(1) by (auto simp: ftx_round_def split: prod.splits sum.splits)
  then show "map (s2_cleanUpReads keys) ts' = ts" "map (map Some) vss = map (\<lambda>k. map (\<lambda>t. cuckoo_getByKey_out M (s2Tbl t) k) ts) keys"
    if "ftx_round M keys ts = (ts', Some vss)" for ts' vss using that by blast+
  assume "\<forall>k\<in>set keys. list_all (readable M k) ts"
  then obtain ts' vss where r: "ftx_round M keys ts = (ts', Some vss)"
    using ftx_keys_succeed [of keys M ts 0] by (auto simp: ftx_round_def)
  then have "length ts' = length ts" using ok arg_cong [of _ _ length] by (metis length_map)
  then show "\<exists>os. ftx_start M keys env n 1 ts = Some (ts, os, length ts * length keys)"
    using r ok [OF r] by simp
qed

abbreviation demo_s2pl :: "(nat, nat, nat \<rightharpoonup> nat) S2PLTable" where
  "demo_s2pl \<equiv> \<lparr>s2Locks = S2PLLocks_new, wKeysLocked = [], s2Tbl = \<lparr>cDataTable = [1 \<mapsto> 7, 2 \<mapsto> 8], cImmediateObservers = 0, cNotified = []\<rparr>\<rparr>"

theorem read_transaction_balanced_witness:
  "\<exists>os. ftx_start fun_map [1, 2] (\<lambda>_ ts. ts) 0 1 [demo_s2pl, demo_s2pl] = Some ([demo_s2pl, demo_s2pl], os, 4)"
proof -
  have "\<forall>k\<in>set [1, 2]. list_all (readable fun_map k) [demo_s2pl, demo_s2pl]"
    by (simp add: readable_def S2PLLocks_new_def cuckoo_getByKey_out_def fun_map_def)
  moreover have "length [demo_s2pl, demo_s2pl] * length [1 :: nat, 2] = 4" by simp
  ultimately show ?thesis using read_transaction_balanced [THEN conjunct2, THEN conjunct2] by metis
qed

text \<open>
  A key that is not in a table makes the read transaction restart for ever, whatever the
  other threads do as long as they do not insert it.
\<close>

lemma missing_key_restarts:
  assumes "\<And>n us. \<exists>t\<in>set us. cuckoo_getByKey_out M (s2Tbl t) k = None \<Longrightarrow> \<exists>t\<in>set (env n us). cuckoo_getByKey_out M (s2Tbl t) k = None"
    and "\<exists>t\<in>set ts. cuckoo_getByKey_out M (s2Tbl t) k = None" and "k \<in> set keys"
  shows "ftx_start M keys env n fuel ts = None"
  using assms(2)
proof (induction fuel arbitrary: n ts)
  case (Suc fuel)
  have id: "map (s2_cleanUpReads []) ts = ts" by (simp add: map_idI)
  note b = ftx_keys_balanced [OF id, of M keys, unfolded list.size append_Nil]
  show ?case
  proof (cases "ftx_keys M keys 0 ts")
    case (Pair ts' r)
    have "\<exists>e. r = Inl e"
    proof (rule ccontr)
      assume "\<nexists>e. r = Inl e"
      then obtain vss where r: "r = Inr vss" by (cases r) auto
      from b(1) [OF Pair [unfolded r]] have "set (map (map Some) vss) = (\<lambda>k. map (\<lambda>t. cuckoo_getByKey_out M (s2Tbl t) k) ts) ` set keys"
        by (metis set_map)
      then obtain vs where "map (\<lambda>t. cuckoo_getByKey_out M (s2Tbl t) k) ts = map Some vs" using assms(3) by auto
      from arg_cong [OF this, of set] Suc.prems have "None \<in> set (map Some vs)" by (metis image_eqI set_map)
      then show False by auto
    qed
    then obtain j i where "r = Inl (j, i)" by auto
    then have "ftx_round M keys ts = (ts, None)" using b(2) Pair by (simp add: ftx_round_def)
    then show ?thesis using Suc assms(1) by simp
  qed
qed simp

end
