(* ===== verification/Bocc_Table.thy ===== *)
theory Bocc_Table
  imports Cuckoo_Table
begin

text \<open>
  Backward-oriented optimistic concurrency control (\<open>table/BOCCTable.hpp\<close>): a writer collects
  its writes, announces their keys in the list of committed write sets, and writes them to the
  table; readers read without locks and validate at commit against the announced write sets.
  The operations are functions of the table; the interleaving of one writer thread (the
  stream that maintains the state) and any number of reader threads is a step relation whose
  steps are the accesses to shared data. Timestamps are natural numbers below \<open>DTS_INF\<close>, and
  the context is reduced to its counter and the set of registered transactions. The underlying
  cuckoo map is the parameter of \<open>Cuckoo_Table\<close>.
\<close>

section \<open>The table\<close>

definition TS_INF :: nat where
  "TS_INF = 2 ^ 64 - 1"

record ('k, 'v) ActiveWriteSet =
  awTxnID :: nat
  awSet :: "('k \<times> 'v) list"

definition aw_insert :: "'k \<Rightarrow> 'v \<Rightarrow> ('k, 'v) ActiveWriteSet \<Rightarrow> ('k, 'v) ActiveWriteSet" where
  "aw_insert k r w = w\<lparr>awSet := awSet w @ [(k, r)]\<rparr>"

definition aw_clean :: "('k, 'v) ActiveWriteSet \<Rightarrow> ('k, 'v) ActiveWriteSet" where
  "aw_clean w = \<lparr>awTxnID = 0, awSet = []\<rparr>"

record 'k CommittedWS =
  wsKeys :: "'k set"
  wsVal :: nat
  wsEnd :: nat

record ('k, 'v, 'm) BOCCTable =
  boWriteSet :: "('k, 'v) ActiveWriteSet"
  committedWSs :: "'k CommittedWS list"
  boTbl :: "('m, 'v) CuckooTable"

definition bo_transactionBegin :: "nat \<Rightarrow> ('k, 'v, 'm) BOCCTable \<Rightarrow> ('k, 'v, 'm) BOCCTable" where
  "bo_transactionBegin txnID t = t\<lparr>boWriteSet := (boWriteSet t)\<lparr>awTxnID := txnID\<rparr>\<rparr>"

definition bo_insert :: "'k \<Rightarrow> 'v \<Rightarrow> ('k, 'v, 'm) BOCCTable \<Rightarrow> ('k, 'v, 'm) BOCCTable" where
  "bo_insert key rec t = t\<lparr>boWriteSet := aw_insert key rec (boWriteSet t)\<rparr>"

text \<open>Deletion is not supported: nothing happens, and one deleted tuple is reported.\<close>

definition bo_deleteByKey :: "'k \<Rightarrow> ('k, 'v, 'm) BOCCTable \<Rightarrow> ('k, 'v, 'm) BOCCTable \<times> nat" where
  "bo_deleteByKey key t = (t, 1)"

definition bo_transactionAbort :: "('k, 'v, 'm) BOCCTable \<Rightarrow> ('k, 'v, 'm) BOCCTable" where
  "bo_transactionAbort t = t\<lparr>boWriteSet := aw_clean (boWriteSet t)\<rparr>"

text \<open>
  The validation timestamp is taken first; then the new write set is announced at the front,
  under the exclusive lock of the list.
\<close>

definition saveWriteSet :: "nat \<Rightarrow> ('k, 'v, 'm) BOCCTable \<Rightarrow> ('k, 'v, 'm) BOCCTable" where
  "saveWriteSet valTS t =
     t\<lparr>committedWSs := \<lparr>wsKeys = fst ` set (awSet (boWriteSet t)), wsVal = valTS, wsEnd = TS_INF\<rparr> # committedWSs t\<rparr>"

text \<open>
  The parts of \<open>transactionCommit\<close>: one write to the table, the end of the writing, and the
  loop that removes old write sets from the first outdated one on.
\<close>

definition bo_write :: "('m, 'k, 'v) cuckoohash_map \<Rightarrow> 'k \<Rightarrow> 'v \<Rightarrow> ('k, 'v, 'm) BOCCTable \<Rightarrow> ('k, 'v, 'm) BOCCTable" where
  "bo_write M k v t = t\<lparr>boTbl := cuckoo_insert M (boTbl t) k v\<rparr>"

definition bo_endWrite :: "nat \<Rightarrow> ('k, 'v, 'm) BOCCTable \<Rightarrow> ('k, 'v, 'm) BOCCTable res" where
  "bo_endWrite endTS t =
     (case committedWSs t of
        [] \<Rightarrow> Inl EmptyAccess
      | ws # wss \<Rightarrow> Inr (t\<lparr>committedWSs := ws\<lparr>wsEnd := endTS\<rparr> # wss, boWriteSet := aw_clean (boWriteSet t)\<rparr>))"

definition bo_oldest :: "nat \<Rightarrow> nat \<Rightarrow> ('k, 'v, 'm) BOCCTable \<Rightarrow> nat res" where
  "bo_oldest txnID oldestActive t =
     (if oldestActive = txnID
      then (case committedWSs t of [] \<Rightarrow> Inl EmptyAccess | ws # _ \<Rightarrow> Inr (wsVal ws))
      else Inr oldestActive)"

fun cleanup_loop :: "nat \<Rightarrow> 'k CommittedWS list \<Rightarrow> 'k CommittedWS list" where
  "cleanup_loop oldestTx [] = []"
| "cleanup_loop oldestTx (ws # wss) = (if wsEnd ws \<le> oldestTx then [] else ws # cleanup_loop oldestTx wss)"

definition bo_cleanup :: "nat \<Rightarrow> ('k, 'v, 'm) BOCCTable \<Rightarrow> ('k, 'v, 'm) BOCCTable" where
  "bo_cleanup oldestTx t = t\<lparr>committedWSs := cleanup_loop oldestTx (committedWSs t)\<rparr>"

text \<open>\<open>transactionCommit\<close> as the writer runs it when nothing interleaves.\<close>

definition bo_transactionCommit ::
  "('m, 'k, 'v) cuckoohash_map \<Rightarrow> nat \<Rightarrow> nat \<Rightarrow> nat \<Rightarrow> ('k, 'v, 'm) BOCCTable \<Rightarrow> ('k, 'v, 'm) BOCCTable res" where
  "bo_transactionCommit M txnID endTS oldestActive t =
     bind_res (bo_endWrite endTS (fold (\<lambda>(k, v). bo_write M k v) (awSet (boWriteSet t)) t)) (\<lambda>t1.
     bind_res (bo_oldest txnID oldestActive t1) (\<lambda>oldestTx. Inr (bo_cleanup oldestTx t1)))"

text \<open>
  The commit protocol over the two tables of a group: the second table that is ready announces
  both write sets and commits both. \<open>vts\<close> and \<open>ets\<close> are the timestamps the context hands out to
  the two tables, \<open>oldests\<close> the oldest active transaction each commit finds; the result says
  whether the transaction has ended.
\<close>

definition bo_transactionPreCommit ::
  "('m, 'k, 'v) cuckoohash_map \<Rightarrow> nat \<Rightarrow> nat \<times> nat \<Rightarrow> nat \<times> nat \<Rightarrow> nat \<times> nat \<Rightarrow> bool \<Rightarrow>
   ('k, 'v, 'm) BOCCTable \<times> ('k, 'v, 'm) BOCCTable \<Rightarrow> (('k, 'v, 'm) BOCCTable \<times> ('k, 'v, 'm) BOCCTable \<times> bool) res" where
  "bo_transactionPreCommit M txnID vts ets oldests otherCommit ts =
     (let (this, oth) = ts
      in if otherCommit
         then bind_res (bo_transactionCommit M txnID (fst ets) (fst oldests) (saveWriteSet (fst vts) this)) (\<lambda>this'.
              bind_res (bo_transactionCommit M txnID (snd ets) (snd oldests) (saveWriteSet (snd vts) oth)) (\<lambda>oth'.
              Inr (this', oth', True)))
         else Inr (this, oth, False))"

text \<open>
  The operations without transaction support: they act on the table directly, or not at all.
  \<open>truncate\<close> also forgets the announced write sets.
\<close>

definition bo_updateOrDeleteByKey :: "'k \<Rightarrow> ('k, 'v, 'm) BOCCTable \<Rightarrow> ('k, 'v, 'm) BOCCTable \<times> nat" where
  "bo_updateOrDeleteByKey key t = (t, 0)"

definition bo_updateByKey ::
  "('m, 'k, 'v) cuckoohash_map \<Rightarrow> 'k \<Rightarrow> ('v \<Rightarrow> 'v) \<Rightarrow> ('k, 'v, 'm) BOCCTable \<Rightarrow> ('k, 'v, 'm) BOCCTable \<times> nat" where
  "bo_updateByKey M key ufunc t = (let (tbl, n) = cuckoo_updateByKey M (boTbl t) key ufunc in (t\<lparr>boTbl := tbl\<rparr>, n))"

definition bo_truncate :: "('m, 'k, 'v) cuckoohash_map \<Rightarrow> ('k, 'v, 'm) BOCCTable \<Rightarrow> ('k, 'v, 'm) BOCCTable" where
  "bo_truncate M t = t\<lparr>committedWSs := [], boTbl := cuckoo_truncate M (boTbl t)\<rparr>"

text \<open>Reading: the own write set first, then the table.\<close>

definition bo_getByKey :: "('m, 'k, 'v) cuckoohash_map \<Rightarrow> nat \<Rightarrow> 'k \<Rightarrow> ('k, 'v, 'm) BOCCTable \<Rightarrow> 'v option" where
  "bo_getByKey M txnID key t =
     (case (if awTxnID (boWriteSet t) = txnID then map_of (awSet (boWriteSet t)) key else None) of
        Some r \<Rightarrow> Some r
      | None \<Rightarrow> cuckoo_getByKey_out M (boTbl t) key)"

text \<open>Backward validation; True stands for \<open>Errc::SUCCESS\<close>.\<close>

fun validate_loop :: "nat \<Rightarrow> nat \<Rightarrow> 'k list \<Rightarrow> 'k CommittedWS list \<Rightarrow> bool" where
  "validate_loop txnID valTS keys [] = True"
| "validate_loop txnID valTS keys (ws # wss) =
     (if txnID < wsEnd ws \<and> valTS > wsVal ws \<and> (\<exists>k \<in> set keys. k \<in> wsKeys ws) then False
      else validate_loop txnID valTS keys wss)"

definition bo_readCommit :: "nat \<Rightarrow> nat \<Rightarrow> 'k list \<Rightarrow> ('k, 'v, 'm) BOCCTable \<Rightarrow> bool" where
  "bo_readCommit txnID valTS keys t = validate_loop txnID valTS keys (committedWSs t)"

lemmas bocc_ops [tbl_defs] =
  bo_transactionBegin_def bo_insert_def bo_transactionAbort_def saveWriteSet_def bo_write_def bo_endWrite_def
  bo_oldest_def bo_cleanup_def bo_readCommit_def aw_insert_def aw_clean_def

subsection \<open>The lock of the list of write sets\<close>

record RWLock =
  rw_active_readers :: int
  rw_active_writer :: bool

text \<open>Each operation as the test it waits for and the change it makes; None: it waits.\<close>

definition rw_lockShared :: "RWLock \<Rightarrow> RWLock option" where
  "rw_lockShared l = (if rw_active_writer l then None else Some (l\<lparr>rw_active_readers := rw_active_readers l + 1\<rparr>))"

definition rw_lockExclusive :: "RWLock \<Rightarrow> RWLock option" where
  "rw_lockExclusive l = (if rw_active_readers l \<noteq> 0 then None else Some (l\<lparr>rw_active_writer := True\<rparr>))"

definition rw_unlockShared :: "RWLock \<Rightarrow> RWLock" where
  "rw_unlockShared l = l\<lparr>rw_active_readers := rw_active_readers l - 1\<rparr>"

definition rw_unlockExclusive :: "RWLock \<Rightarrow> RWLock" where
  "rw_unlockExclusive l = l\<lparr>rw_active_writer := False\<rparr>"

text \<open>
  The holders of the lock: a set of readers and the number of writers inside. With a single
  writer thread readers and writer exclude each other; a second writer is let in, because
  \<open>lockExclusive\<close> waits for readers only.
\<close>

inductive rw_step :: "RWLock \<times> nat set \<times> nat \<Rightarrow> RWLock \<times> nat set \<times> nat \<Rightarrow> bool" where
  "r \<notin> R \<Longrightarrow> rw_lockShared l = Some l' \<Longrightarrow> rw_step (l, R, w) (l', insert r R, w)"
| "r \<in> R \<Longrightarrow> rw_step (l, R, w) (rw_unlockShared l, R - {r}, w)"
| "rw_lockExclusive l = Some l' \<Longrightarrow> rw_step (l, R, 0) (l', R, 1)"
| "rw_step (l, R, 1) (rw_unlockExclusive l, R, 0)"

definition rw_inv :: "RWLock \<times> nat set \<times> nat \<Rightarrow> bool" where
  "rw_inv s = (case s of (l, R, w) \<Rightarrow> finite R \<and> rw_active_readers l = int (card R) \<and> rw_active_writer l = (w = 1) \<and> (w = 0 \<or> R = {}) \<and> w \<le> 1)"

lemma rw_step_inv: "rw_step s s' \<Longrightarrow> rw_inv s \<Longrightarrow> rw_inv s'"
proof (induction rule: rw_step.induct)
  case (2 r R l w)
  then have "finite R" by (simp add: rw_inv_def)
  from card.remove [OF this 2(1)] show ?case using 2 by (auto simp: rw_inv_def rw_unlockShared_def)
qed (auto simp: rw_inv_def rw_lockShared_def rw_lockExclusive_def rw_unlockExclusive_def split: if_splits)

lemma rw_exclusion:
  assumes "rw_step\<^sup>*\<^sup>* (\<lparr>rw_active_readers = 0, rw_active_writer = False\<rparr>, {}, 0) (l, R, w)"
  shows "w = 0 \<or> R = {}"
proof -
  have "rw_inv (l, R, w)"
    using assms by (induction rule: rtranclp_induct) (auto simp: rw_inv_def [of "(\<lparr>rw_active_readers = 0, rw_active_writer = False\<rparr>, {}, 0)"] intro: rw_step_inv)
  then show ?thesis by (simp add: rw_inv_def)
qed

lemma rw_second_writer: "rw_lockExclusive l = Some l' \<Longrightarrow> rw_lockExclusive l' \<noteq> None"
  by (auto simp: rw_lockExclusive_def split: if_splits)

section \<open>Interleavings of a writer and readers\<close>

datatype ('k, 'v) wphase =
    WIdle
  | WTaken nat
  | WActive nat
  | WSaving nat nat
  | WSaved nat "('k \<times> 'v) list"
  | WEnding nat nat
  | WEnd nat
  | WErase nat nat
  | WRemove nat

text \<open>
  \<open>bCommitted\<close> is the content of the table at the end of the writing of the last committed
  transaction; no operation reads it. A validating reader records in its last component what
  was committed at the moment it took its validation timestamp.
\<close>

datatype ('k, 'v) rphase =
    RNone
  | RTaken nat
  | RReading nat "('k \<times> 'v option) list"
  | RValidating nat "('k \<times> 'v option) list" nat "'k \<Rightarrow> 'v option"
  | RDone bool "('k \<times> 'v option) list" "'k \<Rightarrow> 'v option"

record ('k, 'v, 'm) BOCCSys =
  bClock :: nat
  bActive :: "nat set"
  bTable :: "('k, 'v, 'm) BOCCTable"
  bWriter :: "('k, 'v) wphase"
  bReader :: "nat \<Rightarrow> ('k, 'v) rphase"
  bCommitted :: "'k \<Rightarrow> 'v option"

definition oldest_active :: "nat set \<Rightarrow> nat" where
  "oldest_active A = (if A = {} then TS_INF else Min A)"

inductive bocc_step :: "('m, 'k, 'v) cuckoohash_map \<Rightarrow> ('k, 'v, 'm) BOCCSys \<Rightarrow> ('k, 'v, 'm) BOCCSys \<Rightarrow> bool" for M where
  tick: "bClock s < TS_INF \<Longrightarrow> bocc_step M s (s\<lparr>bClock := bClock s + 1\<rparr>)"
| w_take: "bWriter s = WIdle \<Longrightarrow> bClock s < TS_INF \<Longrightarrow>
    bocc_step M s (s\<lparr>bWriter := WTaken (bClock s), bClock := bClock s + 1\<rparr>)"
| w_begin: "bWriter s = WTaken x \<Longrightarrow>
    bocc_step M s (s\<lparr>bWriter := WActive x, bActive := insert x (bActive s), bTable := bo_transactionBegin x (bTable s)\<rparr>)"
| w_insert: "bWriter s = WActive x \<Longrightarrow> bocc_step M s (s\<lparr>bTable := bo_insert k v (bTable s)\<rparr>)"
| w_abort: "bWriter s = WActive x \<Longrightarrow> bocc_step M s (s\<lparr>bWriter := WIdle, bTable := bo_transactionAbort (bTable s)\<rparr>)"
| w_val: "bWriter s = WActive x \<Longrightarrow> bClock s < TS_INF \<Longrightarrow>
    bocc_step M s (s\<lparr>bWriter := WSaving x (bClock s), bClock := bClock s + 1\<rparr>)"
| w_save: "bWriter s = WSaving x v \<Longrightarrow>
    bocc_step M s (s\<lparr>bWriter := WSaved x (awSet (boWriteSet (bTable s))), bTable := saveWriteSet v (bTable s)\<rparr>)"
| w_write: "bWriter s = WSaved x ((k, v) # todo) \<Longrightarrow>
    bocc_step M s (s\<lparr>bWriter := WSaved x todo, bTable := bo_write M k v (bTable s)\<rparr>)"
| w_written: "bWriter s = WSaved x [] \<Longrightarrow> bClock s < TS_INF \<Longrightarrow>
    bocc_step M s (s\<lparr>bWriter := WEnding x (bClock s), bClock := bClock s + 1,
                     bCommitted := cuckoo_getByKey_out M (boTbl (bTable s))\<rparr>)"
| w_end: "bWriter s = WEnding x e \<Longrightarrow> bo_endWrite e (bTable s) = Inr t \<Longrightarrow>
    bocc_step M s (s\<lparr>bWriter := WEnd x, bTable := t\<rparr>)"
| w_oldest: "bWriter s = WEnd x \<Longrightarrow> bo_oldest x (oldest_active (bActive s)) (bTable s) = Inr old \<Longrightarrow>
    bocc_step M s (s\<lparr>bWriter := WErase x old\<rparr>)"
| w_erase: "bWriter s = WErase x old \<Longrightarrow> bocc_step M s (s\<lparr>bWriter := WRemove x, bTable := bo_cleanup old (bTable s)\<rparr>)"
| w_remove: "bWriter s = WRemove x \<Longrightarrow> bocc_step M s (s\<lparr>bWriter := WIdle, bActive := bActive s - {x}\<rparr>)"
| r_take: "bReader s r = RNone \<Longrightarrow> bClock s < TS_INF \<Longrightarrow>
    bocc_step M s (s\<lparr>bReader := (bReader s)(r := RTaken (bClock s)), bClock := bClock s + 1\<rparr>)"
| r_begin: "bReader s r = RTaken x \<Longrightarrow>
    bocc_step M s (s\<lparr>bReader := (bReader s)(r := RReading x []), bActive := insert x (bActive s)\<rparr>)"
| r_read: "bReader s r = RReading x rs \<Longrightarrow>
    bocc_step M s (s\<lparr>bReader := (bReader s)(r := RReading x (rs @ [(k, bo_getByKey M x k (bTable s))]))\<rparr>)"
| r_restart: "bReader s r = RReading x rs \<Longrightarrow> bocc_step M s (s\<lparr>bReader := (bReader s)(r := RReading x [])\<rparr>)"
| r_validate: "bReader s r = RReading x rs \<Longrightarrow> bClock s + 1 < TS_INF \<Longrightarrow>
    bocc_step M s (s\<lparr>bReader := (bReader s)(r := RValidating x rs (bClock s + 1) (bCommitted s)),
                     bClock := bClock s + 2\<rparr>)"
| r_done: "bReader s r = RValidating x rs v snap \<Longrightarrow>
    bocc_step M s (s\<lparr>bReader := (bReader s)(r := RDone (bo_readCommit x v (map fst rs) (bTable s)) rs snap),
                     bActive := bActive s - {x}\<rparr>)"
| r_again: "bReader s r = RDone False rs snap \<Longrightarrow> bocc_step M s (s\<lparr>bReader := (bReader s)(r := RNone)\<rparr>)"

inductive_cases bocc_stepE: "bocc_step M s s'"

definition bocc_init :: "('m, 'k, 'v) cuckoohash_map \<Rightarrow> ('m, 'v) CuckooTable \<Rightarrow> ('k, 'v, 'm) BOCCSys" where
  "bocc_init M tbl =
     \<lparr>bClock = 1, bActive = {},
      bTable = \<lparr>boWriteSet = \<lparr>awTxnID = 0, awSet = []\<rparr>, committedWSs = [], boTbl = tbl\<rparr>,
      bWriter = WIdle, bReader = (\<lambda>_. RNone), bCommitted = cuckoo_getByKey_out M tbl\<rparr>"

section \<open>Invariants\<close>

text \<open>
  The announced write sets: newest first, with disjoint periods of activity in the past; only
  the front one can be open, while the writer writes. All but the front one ended before the
  current write transaction began.
\<close>

definition ws_order :: "'k CommittedWS list \<Rightarrow> bool" where
  "ws_order ds \<longleftrightarrow> sorted_wrt (\<lambda>a b. wsEnd b < wsVal a) ds \<and> (\<forall>ws\<in>set ds. wsVal ws < wsEnd ws)"

fun writer_ok :: "nat \<Rightarrow> 'k CommittedWS list \<Rightarrow> ('k, 'v) wphase \<Rightarrow> bool" where
  "writer_ok c ds (WTaken x) = (x < c \<and> (\<forall>ws\<in>set ds. wsEnd ws < x))"
| "writer_ok c ds (WActive x) = (x < c \<and> (\<forall>ws\<in>set ds. wsEnd ws < x))"
| "writer_ok c ds (WSaving x v) = (x < v \<and> v < c \<and> (\<forall>ws\<in>set ds. wsEnd ws < x))"
| "writer_ok c ds (WSaved x todo) = (x < c \<and> (case ds of [] \<Rightarrow> False | f # rest \<Rightarrow>
     wsEnd f = TS_INF \<and> wsVal f < c \<and> x < wsVal f \<and> fst ` set todo \<subseteq> wsKeys f \<and> (\<forall>ws\<in>set rest. wsEnd ws < x)))"
| "writer_ok c ds (WEnding x e) = (x < c \<and> e < c \<and> (case ds of [] \<Rightarrow> False | f # rest \<Rightarrow>
     wsEnd f = TS_INF \<and> wsVal f < e \<and> x < wsVal f \<and> (\<forall>ws\<in>set rest. wsEnd ws < x)))"
| "writer_ok c ds (WEnd x) = (x < c \<and> (case ds of [] \<Rightarrow> False | f # rest \<Rightarrow> wsEnd f < c \<and> x < wsVal f \<and> (\<forall>ws\<in>set rest. wsEnd ws < x)))"
| "writer_ok c ds _ = (\<forall>ws\<in>set ds. wsEnd ws < c)"

definition bocc_winv :: "('k, 'v, 'm) BOCCSys \<Rightarrow> bool" where
  "bocc_winv s \<longleftrightarrow> 0 < bClock s \<and> bClock s \<le> TS_INF \<and> finite (bActive s) \<and>
     ws_order (committedWSs (bTable s)) \<and> writer_ok (bClock s) (committedWSs (bTable s)) (bWriter s)"

lemma ws_order_Cons: "ws_order (f # ds) \<longleftrightarrow> (\<forall>ws\<in>set ds. wsEnd ws < wsVal f) \<and> wsVal f < wsEnd f \<and> ws_order ds"
  by (auto simp: ws_order_def)

lemma cleanup_sublist: "set (cleanup_loop old ds) \<subseteq> set ds"
  by (induction ds) auto

lemma cleanup_order: "ws_order ds \<Longrightarrow> ws_order (cleanup_loop old ds)"
  using cleanup_sublist by (induction ds) (fastforce simp: ws_order_Cons ws_order_def)+

text \<open>The clean-up keeps every write set that ended after its limit.\<close>

lemma cleanup_keeps: "ws_order ds \<Longrightarrow> ws \<in> set ds \<Longrightarrow> old < wsEnd ws \<Longrightarrow> ws \<in> set (cleanup_loop old ds)"
proof (induction ds)
  case (Cons f ds)
  show ?case
  proof (cases "ws = f")
    case True
    then show ?thesis using Cons.prems(3) by simp
  next
    case False
    then have "wsEnd ws < wsVal f" and "wsVal f < wsEnd f" using Cons.prems(1,2) by (auto simp: ws_order_Cons)
    then show ?thesis using Cons False by (auto simp: ws_order_Cons)
  qed
qed simp

lemma writer_ok_clock: "writer_ok c ds w \<Longrightarrow> c \<le> c' \<Longrightarrow> writer_ok c' ds w"
  by (cases w) (auto split: list.splits)

lemma writer_ok_saved:
  assumes "writer_ok c ds w" "w = WSaved x todo"
  obtains f rest where "ds = f # rest" "wsEnd f = TS_INF" "wsVal f < c" "x < wsVal f" "fst ` set todo \<subseteq> wsKeys f"
    "\<forall>ws\<in>set rest. wsEnd ws < x" "x < c"
  using assms by (auto split: list.splits)

lemma bocc_step_winv: "bocc_step M s s' \<Longrightarrow> bocc_winv s \<Longrightarrow> bocc_winv s'"
proof (induction rule: bocc_step.induct)
  case (w_save s x v)
  then show ?case by (fastforce simp: bocc_winv_def saveWriteSet_def ws_order_Cons)
next
  case (w_write s x k v todo)
  then show ?case by (auto simp: bocc_winv_def bo_write_def split: list.splits)
next
  case (w_end s x e t)
  then show ?case by (fastforce simp: bocc_winv_def bo_endWrite_def ws_order_Cons split: list.splits)
next
  case (w_erase s x old)
  then show ?case using cleanup_sublist [of old "committedWSs (bTable s)"]
    by (auto simp: bocc_winv_def bo_cleanup_def cleanup_order)
qed (fastforce simp: bocc_winv_def tbl_defs intro: writer_ok_clock split: list.splits)+

text \<open>Transaction ids: readers never have the id of the pending write set.\<close>

fun reader_id :: "('k, 'v) rphase \<Rightarrow> nat option" where
  "reader_id (RTaken x) = Some x"
| "reader_id (RReading x rs) = Some x"
| "reader_id (RValidating x rs v snap) = Some x"
| "reader_id _ = None"

fun writer_id :: "('k, 'v) wphase \<Rightarrow> nat option" where
  "writer_id WIdle = None"
| "writer_id (WTaken x) = Some x"
| "writer_id (WActive x) = Some x"
| "writer_id (WSaving x v) = Some x"
| "writer_id (WSaved x todo) = Some x"
| "writer_id (WEnding x e) = Some x"
| "writer_id (WEnd x) = Some x"
| "writer_id (WErase x old) = Some x"
| "writer_id (WRemove x) = Some x"

definition id_ok :: "('k, 'v, 'm) BOCCSys \<Rightarrow> nat \<Rightarrow> bool" where
  "id_ok s x \<longleftrightarrow> x \<noteq> 0 \<and> x < bClock s \<and> x \<noteq> awTxnID (boWriteSet (bTable s)) \<and> writer_id (bWriter s) \<noteq> Some x"

definition writer_ids :: "('k, 'v, 'm) BOCCSys \<Rightarrow> bool" where
  "writer_ids s \<longleftrightarrow> 0 < bClock s \<and> awTxnID (boWriteSet (bTable s)) < bClock s \<and> (\<forall>x. writer_id (bWriter s) = Some x \<longrightarrow> x < bClock s)"

definition bocc_ids :: "('k, 'v, 'm) BOCCSys \<Rightarrow> bool" where
  "bocc_ids s \<longleftrightarrow> writer_ids s \<and> (\<forall>r x. reader_id (bReader s r) = Some x \<longrightarrow>
     id_ok s x \<and> (\<forall>q. reader_id (bReader s q) = Some x \<longrightarrow> q = r))"

lemma bocc_idsD: "bocc_ids s \<Longrightarrow> reader_id (bReader s r) = Some x \<Longrightarrow> id_ok s x"
  by (auto simp: bocc_ids_def)

lemma bocc_ids_inj: "bocc_ids s \<Longrightarrow> reader_id (bReader s r) = Some x \<Longrightarrow> reader_id (bReader s q) = Some x \<Longrightarrow> q = r"
  unfolding bocc_ids_def by blast

lemma bocc_ids_writer_ids: "bocc_ids s \<Longrightarrow> writer_ids s"
  by (simp add: bocc_ids_def)

text \<open>A step of the writer keeps the readers; a step of a reader moves only that one.\<close>

lemma bocc_ids_writer:
  assumes "bocc_ids s" and "bReader s' = bReader s" and "writer_ids s'" and "\<And>x. id_ok s x \<Longrightarrow> id_ok s' x"
  shows "bocc_ids s'"
  using assms unfolding bocc_ids_def by simp

lemma bocc_ids_reader:
  assumes "bocc_ids s" and "\<And>q. q \<noteq> r \<Longrightarrow> bReader s' q = bReader s q" and "bTable s' = bTable s" and "bWriter s' = bWriter s"
    and "bClock s \<le> bClock s'" and "reader_id (bReader s' r) = None \<or> reader_id (bReader s' r) = reader_id (bReader s r)"
  shows "bocc_ids s'"
proof -
  have "\<And>x. id_ok s x \<Longrightarrow> id_ok s' x" using assms by (auto simp: id_ok_def)
  moreover have "writer_ids s'" using assms by (force simp: bocc_ids_def writer_ids_def)
  moreover have "reader_id (bReader s q) = Some x" if "reader_id (bReader s' q) = Some x" for q x
    using assms(2) [of q] assms(6) that by (cases "q = r") auto
  ultimately show ?thesis using bocc_idsD [OF assms(1)] bocc_ids_inj [OF assms(1)] unfolding bocc_ids_def by blast
qed

lemma bocc_step_ids:
  assumes "bocc_step M s s'" and "bocc_ids s"
  shows "bocc_ids s'"
  using assms
proof (induction rule: bocc_step.induct)
  case (r_take s r)
  let ?s = "s\<lparr>bReader := (bReader s)(r := RTaken (bClock s)), bClock := bClock s + 1\<rparr>"
  have w: "writer_ids s" using r_take(3) by (rule bocc_ids_writer_ids)
  have "id_ok ?s (bClock s)" using w by (auto simp: id_ok_def writer_ids_def)
  moreover have "writer_ids ?s" using w by (auto simp: writer_ids_def)
  moreover have "id_ok ?s x" and "x \<noteq> bClock s" if "reader_id (bReader s q) = Some x" for q x
    using bocc_idsD [OF r_take(3) that] by (auto simp: id_ok_def)
  ultimately show ?case using bocc_ids_inj [OF r_take(3)] by (auto simp: bocc_ids_def)
next
  case (r_begin s r x)
  show ?case by (rule bocc_ids_reader [of s r]) (use r_begin in auto)
next
  case (r_read s r x rs k)
  show ?case by (rule bocc_ids_reader [of s r]) (use r_read in auto)
next
  case (r_restart s r x rs)
  show ?case by (rule bocc_ids_reader [of s r]) (use r_restart in auto)
next
  case (r_validate s r x rs)
  show ?case by (rule bocc_ids_reader [of s r]) (use r_validate in auto)
next
  case (r_done s r x rs v snap)
  show ?case by (rule bocc_ids_reader [of s r]) (use r_done in auto)
next
  case (r_again s r rs snap)
  show ?case by (rule bocc_ids_reader [of s r]) (use r_again in auto)
qed (rule bocc_ids_writer, assumption, (auto dest!: bocc_ids_writer_ids simp: writer_ids_def id_ok_def tbl_defs split: list.splits)[3])+

text \<open>
  A write set that makes the validation of a reader with start \<open>x\<close> fail on key \<open>k\<close>, and that
  the clean-up in progress, if any, does not remove.
\<close>

definition conflict :: "('k, 'v, 'm) BOCCSys \<Rightarrow> nat \<Rightarrow> nat option \<Rightarrow> 'k \<Rightarrow> bool" where
  "conflict s x val k \<longleftrightarrow> (\<exists>ws\<in>set (committedWSs (bTable s)). k \<in> wsKeys ws \<and> x < wsEnd ws \<and>
     (\<forall>v. val = Some v \<longrightarrow> wsVal ws < v) \<and> (\<forall>y old. bWriter s = WErase y old \<longrightarrow> old < wsEnd ws) \<and>
     (\<forall>y e. bWriter s = WEnding y e \<longrightarrow> wsEnd ws = TS_INF \<longrightarrow> x < e))"

fun reader_ok :: "('m, 'k, 'v) cuckoohash_map \<Rightarrow> ('k, 'v, 'm) BOCCSys \<Rightarrow> ('k, 'v) rphase \<Rightarrow> bool" where
  "reader_ok M s (RReading x rs) = (x \<in> bActive s \<and>
     (\<forall>(k, v)\<in>set rs. cuckoo_lookup M (boTbl (bTable s)) k = v \<or> conflict s x None k))"
| "reader_ok M s (RValidating x rs t snap) = (x \<in> bActive s \<and> t < bClock s \<and>
     (\<forall>(k, v)\<in>set rs. snap k = v \<or> conflict s x (Some t) k))"
| "reader_ok M s (RDone ok rs snap) = (ok \<longrightarrow> (\<forall>(k, v)\<in>set rs. snap k = v))"
| "reader_ok M s _ = True"

definition bocc_rinv :: "('m, 'k, 'v) cuckoohash_map \<Rightarrow> ('k, 'v, 'm) BOCCSys \<Rightarrow> bool" where
  "bocc_rinv M s \<longleftrightarrow> (\<forall>r. reader_ok M s (bReader s r))"

text \<open>The effect of a step on a reader that does not move.\<close>

lemma reader_ok_mono:
  assumes "reader_ok M s p"
    and act: "\<And>x. reader_id p = Some x \<Longrightarrow> x \<in> bActive s \<Longrightarrow> x \<in> bActive s'" and clk: "bClock s \<le> bClock s'"
    and val: "\<And>k. cuckoo_lookup M (boTbl (bTable s')) k \<noteq> cuckoo_lookup M (boTbl (bTable s)) k \<Longrightarrow>
       (\<And>x. reader_id p = Some x \<Longrightarrow> conflict s' x None k)"
    and con: "\<And>x t k. reader_id p = Some x \<Longrightarrow> x \<in> bActive s \<Longrightarrow> conflict s x t k \<Longrightarrow> conflict s' x t k"
  shows "reader_ok M s' p"
proof (cases p)
  case (RReading x rs)
  have "cuckoo_lookup M (boTbl (bTable s')) k = v \<or> conflict s' x None k" if "(k, v) \<in> set rs" for k v
  proof -
    have old: "cuckoo_lookup M (boTbl (bTable s)) k = v \<or> conflict s x None k" using assms(1) RReading that by auto
    show ?thesis using old val [of k] con [of x None k] assms(1) RReading by (metis reader_id.simps(2) reader_ok.simps(1))
  qed
  then show ?thesis using RReading assms(1) act by auto
next
  case (RValidating x rs t snap)
  have "snap k = v \<or> conflict s' x (Some t) k" if "(k, v) \<in> set rs" for k v
    using assms(1) RValidating that con [of x "Some t" k] by auto
  then show ?thesis using RValidating assms(1) act clk by auto
qed (use assms(1) in simp_all)

lemma conflictI:
  "ws \<in> set (committedWSs (bTable s)) \<Longrightarrow> k \<in> wsKeys ws \<Longrightarrow> x < wsEnd ws \<Longrightarrow> (\<And>v. val = Some v \<Longrightarrow> wsVal ws < v) \<Longrightarrow>
   (\<And>y old. bWriter s = WErase y old \<Longrightarrow> old < wsEnd ws) \<Longrightarrow>
   (\<And>y e. bWriter s = WEnding y e \<Longrightarrow> wsEnd ws = TS_INF \<Longrightarrow> x < e) \<Longrightarrow> conflict s x val k"
  unfolding conflict_def by blast

lemma conflictE:
  assumes "conflict s x val k"
  obtains ws where "ws \<in> set (committedWSs (bTable s))" "k \<in> wsKeys ws" "x < wsEnd ws" "\<And>v. val = Some v \<Longrightarrow> wsVal ws < v"
    "\<And>y old. bWriter s = WErase y old \<Longrightarrow> old < wsEnd ws" "\<And>y e. bWriter s = WEnding y e \<Longrightarrow> wsEnd ws = TS_INF \<Longrightarrow> x < e"
  using assms unfolding conflict_def by blast

lemma conflict_same:
  assumes "conflict s x t k" and eq: "committedWSs (bTable s') = committedWSs (bTable s)"
    and "\<And>y old. bWriter s' = WErase y old \<Longrightarrow> bWriter s = WErase y old"
    and "\<And>y e. bWriter s' = WEnding y e \<Longrightarrow> bWriter s = WEnding y e"
  shows "conflict s' x t k"
  using assms(1)
proof (rule conflictE)
  fix ws assume ws: "ws \<in> set (committedWSs (bTable s))" "k \<in> wsKeys ws" "x < wsEnd ws" "\<And>v. t = Some v \<Longrightarrow> wsVal ws < v"
    "\<And>y old. bWriter s = WErase y old \<Longrightarrow> old < wsEnd ws" "\<And>y e. bWriter s = WEnding y e \<Longrightarrow> wsEnd ws = TS_INF \<Longrightarrow> x < e"
  show ?thesis using ws eq assms(3,4) by (intro conflictI [of ws]) auto
qed

lemma conflict_reader [simp]: "conflict (s\<lparr>bReader := f, bClock := c\<rparr>) x t k = conflict s x t k"
  by (simp add: conflict_def)

lemma reader_ok_keep:
  assumes "reader_ok M s p" and "bTable s' = bTable s" and "bWriter s' = bWriter s" and "bClock s \<le> bClock s'"
    and "\<And>x. reader_id p = Some x \<Longrightarrow> x \<in> bActive s \<Longrightarrow> x \<in> bActive s'"
  shows "reader_ok M s' p"
  using assms by (intro reader_ok_mono [OF assms(1)]) (auto intro: conflict_same)

lemma oldest_active_le: "finite A \<Longrightarrow> x \<in> A \<Longrightarrow> oldest_active A \<le> x"
  by (auto simp: oldest_active_def)

lemma wsVal_clock: "bocc_winv s \<Longrightarrow> ws \<in> set (committedWSs (bTable s)) \<Longrightarrow> wsVal ws < bClock s"
  by (cases "bWriter s") (fastforce simp: bocc_winv_def ws_order_def split: list.splits)+

lemma validate_no_conflict: "bo_readCommit x v ks (bTable s) \<Longrightarrow> k \<in> set ks \<Longrightarrow> \<not> conflict s x (Some v) k"
proof -
  have "validate_loop x v ks ds \<Longrightarrow> ws \<in> set ds \<Longrightarrow> k \<in> set ks \<Longrightarrow> \<not> (k \<in> wsKeys ws \<and> x < wsEnd ws \<and> wsVal ws < v)" for ds ws
    by (induction ds) (auto split: if_splits)
  then show "bo_readCommit x v ks (bTable s) \<Longrightarrow> k \<in> set ks \<Longrightarrow> \<not> conflict s x (Some v) k"
    by (auto simp: bo_readCommit_def elim!: conflictE)
qed

text \<open>The clean-up limit lies below the end of every write set that an active reader may conflict with.\<close>

lemma oldest_below_conflict:
  assumes "bocc_winv s" "bWriter s = WEnd y" "bo_oldest y (oldest_active (bActive s)) (bTable s) = Inr old"
    and "x \<in> bActive s" "ws \<in> set (committedWSs (bTable s))" "x < wsEnd ws"
  shows "old < wsEnd ws"
proof -
  have le: "oldest_active (bActive s) \<le> x" using assms(1,4) by (simp add: bocc_winv_def oldest_active_le)
  obtain f rest where ds: "committedWSs (bTable s) = f # rest" "\<forall>ws\<in>set rest. wsEnd ws < y" "wsVal f < wsEnd f"
    using assms(1,2) by (auto simp: bocc_winv_def ws_order_def split: list.splits)
  show ?thesis
  proof (cases "oldest_active (bActive s) = y")
    case True
    then have "old = wsVal f" using assms(3) ds by (simp add: bo_oldest_def)
    moreover have "ws = f" using True le ds assms(5,6) by fastforce
    ultimately show ?thesis using ds by simp
  next
    case False
    then show ?thesis using assms(3,6) le by (simp add: bo_oldest_def)
  qed
qed

text \<open>Conflicts survive the steps of the writer.\<close>

lemma conflict_written:
  assumes "conflict s x t k" "x < c" and eq: "committedWSs (bTable s') = committedWSs (bTable s)" "bWriter s' = WEnding y c"
  shows "conflict s' x t k"
  using assms(1) by (rule conflictE) (use assms in \<open>auto intro!: conflictI\<close>)

lemma conflict_save:
  assumes "conflict s x t k" and "bTable s' = saveWriteSet v (bTable s)" "bWriter s' = WSaved y todo"
  shows "conflict s' x t k"
  using assms(1) by (rule conflictE) (use assms(2,3) in \<open>auto intro!: conflictI simp: saveWriteSet_def\<close>)

lemma conflict_end:
  assumes "conflict s x t k" and "bWriter s = WEnding y e" and "bo_endWrite e (bTable s) = Inr u" "bWriter s' = WEnd y"
    and "bocc_winv s" and "bTable s' = u"
  shows "conflict s' x t k"
proof -
  obtain f rest where ds: "committedWSs (bTable s) = f # rest" and f: "wsEnd f = TS_INF" "\<forall>ws\<in>set rest. wsEnd ws < y"
    using assms(2,5) by (auto simp: bocc_winv_def split: list.splits)
  have ds': "committedWSs (bTable s') = f\<lparr>wsEnd := e\<rparr> # rest"
    using assms(3) ds unfolding assms(6) by (auto simp: bo_endWrite_def)
  obtain ws where ws: "ws \<in> set (f # rest)" "k \<in> wsKeys ws" "x < wsEnd ws" "\<And>v. t = Some v \<Longrightarrow> wsVal ws < v"
    and e: "wsEnd ws = TS_INF \<Longrightarrow> x < e" using assms(1,2) ds by (auto elim: conflictE)
  have "conflict s' x t k" if "ws = f" by (rule conflictI [of "f\<lparr>wsEnd := e\<rparr>"]) (use that ws e f ds' assms(4) in auto)
  moreover have "conflict s' x t k" if "ws \<noteq> f" by (rule conflictI [of ws]) (use that ws ds' assms(4) in auto)
  ultimately show ?thesis by blast
qed

lemma conflict_oldest:
  assumes "conflict s x t k" and "bocc_winv s" "bWriter s = WEnd y" "bo_oldest y (oldest_active (bActive s)) (bTable s) = Inr old"
    and "x \<in> bActive s" and "bTable s' = bTable s" "bWriter s' = WErase y old"
  shows "conflict s' x t k"
  using assms(1)
  by (rule conflictE) (use assms oldest_below_conflict [OF assms(2-5)] in \<open>auto intro!: conflictI\<close>)

lemma conflict_erase:
  assumes "conflict s x t k" and "bocc_winv s" "bWriter s = WErase y old" "bTable s' = bo_cleanup old (bTable s)" "bWriter s' = WRemove y"
  shows "conflict s' x t k"
  using assms(1)
  by (rule conflictE) (use assms in \<open>auto intro!: conflictI cleanup_keeps simp: bo_cleanup_def bocc_winv_def\<close>)

text \<open>While the writer writes, the table differs from the committed content only in announced keys.\<close>

definition bocc_cinv :: "('m, 'k, 'v) cuckoohash_map \<Rightarrow> ('k, 'v, 'm) BOCCSys \<Rightarrow> bool" where
  "bocc_cinv M s \<longleftrightarrow> (\<forall>k. cuckoo_lookup M (boTbl (bTable s)) k = bCommitted s k \<or>
     (case (bWriter s, committedWSs (bTable s)) of (WSaved x todo, f # rest) \<Rightarrow> k \<in> wsKeys f | _ \<Rightarrow> False))"

lemma bocc_step_cinv:
  assumes "bocc_step M s s'" and "cuckoo_laws M" "bocc_winv s" "bocc_cinv M s"
  shows "bocc_cinv M s'"
  using assms
proof (induction rule: bocc_step.induct)
  case (w_write s x k v todo)
  then show ?case
    by (auto simp: bocc_cinv_def bocc_winv_def bo_write_def cuckoo_insert_lookup split: list.splits)
qed (auto simp: bocc_cinv_def tbl_defs cuckoo_getByKey_out_def split: list.splits wphase.splits)

lemma uncommitted_conflict:
  assumes "bocc_winv s" "bocc_cinv M s" "id_ok s x" "cuckoo_lookup M (boTbl (bTable s)) k \<noteq> bCommitted s k"
  shows "conflict s x None k"
proof -
  have "case (bWriter s, committedWSs (bTable s)) of (WSaved x todo, f # rest) \<Rightarrow> k \<in> wsKeys f | _ \<Rightarrow> False"
    using assms(2,4) unfolding bocc_cinv_def by blast
  then obtain y todo f rest where w: "bWriter s = WSaved y todo" "committedWSs (bTable s) = f # rest" "k \<in> wsKeys f"
    by (auto split: wphase.splits list.splits)
  then show ?thesis using assms(1,3) by (intro conflictI [of f]) (auto simp: bocc_winv_def id_ok_def)
qed

lemma conflict_validate: "bocc_winv s \<Longrightarrow> conflict s x None k \<Longrightarrow> conflict s x (Some (Suc (bClock s))) k"
  by (erule conflictE) (auto intro!: conflictI simp: less_SucI wsVal_clock)

text \<open>The readers' invariant is kept by every step.\<close>

lemma bocc_rinvD: "bocc_rinv M s \<Longrightarrow> reader_ok M s (bReader s r)"
  by (simp add: bocc_rinv_def)

lemma bocc_rinv_writer:
  assumes "bocc_rinv M s" "bocc_ids s" "bReader s' = bReader s" "bClock s \<le> bClock s'"
    and act: "\<And>x. id_ok s x \<Longrightarrow> x \<in> bActive s \<Longrightarrow> x \<in> bActive s'"
    and val: "\<And>x k. id_ok s x \<Longrightarrow> cuckoo_lookup M (boTbl (bTable s')) k \<noteq> cuckoo_lookup M (boTbl (bTable s)) k \<Longrightarrow> conflict s' x None k"
    and con: "\<And>x t k. id_ok s x \<Longrightarrow> x \<in> bActive s \<Longrightarrow> conflict s x t k \<Longrightarrow> conflict s' x t k"
  shows "bocc_rinv M s'"
  unfolding bocc_rinv_def
proof (intro allI)
  fix r
  note id = bocc_idsD [OF assms(2), of r]
  show "reader_ok M s' (bReader s' r)" unfolding assms(3)
    by (rule reader_ok_mono [OF bocc_rinvD [OF assms(1)]]) (use assms(4) act val con id in blast)+
qed

lemma bocc_rinv_reader:
  assumes "bocc_rinv M s" "bocc_ids s" "\<And>q. q \<noteq> r \<Longrightarrow> bReader s' q = bReader s q" "bTable s' = bTable s" "bWriter s' = bWriter s"
    and "bClock s \<le> bClock s'" and act: "\<And>x. x \<in> bActive s \<Longrightarrow> reader_id (bReader s r) \<noteq> Some x \<Longrightarrow> x \<in> bActive s'"
    and moved: "reader_ok M s' (bReader s' r)"
  shows "bocc_rinv M s'"
  unfolding bocc_rinv_def
proof (intro allI)
  fix q
  show "reader_ok M s' (bReader s' q)"
  proof (cases "q = r")
    case False
    then show ?thesis unfolding assms(3) [OF False]
      by (intro reader_ok_keep [OF bocc_rinvD [OF assms(1)] assms(4-6)]) (use act bocc_ids_inj [OF assms(2)] in blast)
  qed (simp add: moved)
qed

lemma bo_write_conflict:
  assumes "cuckoo_laws M" "bocc_winv s" "bWriter s = WSaved y ((k, v) # todo)" "id_ok s x"
    and s': "bTable s' = bo_write M k v (bTable s)" "bWriter s' = WSaved y todo"
    and "cuckoo_lookup M (boTbl (bTable s')) j \<noteq> cuckoo_lookup M (boTbl (bTable s)) j"
  shows "conflict s' x None j"
proof -
  have "j = k" using assms(1,5,7) by (auto simp: bo_write_def cuckoo_insert_lookup split: if_splits)
  moreover obtain f rest where "committedWSs (bTable s) = f # rest" "wsEnd f = TS_INF" "k \<in> wsKeys f"
    using assms(2,3) by (auto simp: bocc_winv_def split: list.splits)
  moreover have "x < TS_INF" using assms(2,4) by (simp add: bocc_winv_def id_ok_def)
  ultimately show ?thesis using s' by (intro conflictI [of f]) (auto simp: bo_write_def)
qed

lemma bocc_step_rinv:
  assumes "bocc_step M s s'" and "cuckoo_laws M" "bocc_winv s" "bocc_ids s" "bocc_rinv M s" "bocc_cinv M s"
  shows "bocc_rinv M s'"
  using assms
proof (induction rule: bocc_step.induct)
  case (w_write s x k v todo)
  show ?case
    by (rule bocc_rinv_writer [OF w_write(5,4)])
      (use w_write bo_write_conflict [OF w_write(2,3,1)] in \<open>auto intro: conflict_same simp: bo_write_def\<close>)
next
  case (w_val s x)
  show ?case by (rule bocc_rinv_writer [OF w_val(6,5)]) (auto intro: conflict_same)
next
  case (w_save s x v)
  show ?case by (rule bocc_rinv_writer [OF w_save(5,4)]) (auto intro: conflict_save simp: saveWriteSet_def)
next
  case (w_written s x)
  show ?case by (rule bocc_rinv_writer [OF w_written(6,5)]) (auto intro: conflict_written simp: id_ok_def)
next
  case (w_end s x e t)
  show ?case
    by (rule bocc_rinv_writer [OF w_end(6,5)])
      (use w_end conflict_end [OF _ w_end(1,2)] in \<open>auto simp: bo_endWrite_def split: list.splits\<close>)
next
  case (w_oldest s x old)
  show ?case by (rule bocc_rinv_writer [OF w_oldest(6,5)]) (use conflict_oldest [OF _ w_oldest(4,1,2)] in auto)
next
  case (w_erase s x old)
  show ?case
    by (rule bocc_rinv_writer [OF w_erase(5,4)]) (use conflict_erase [OF _ w_erase(3,1)] in \<open>auto simp: bo_cleanup_def\<close>)
next
  case (w_remove s x)
  show ?case
    by (rule bocc_rinv_writer [OF w_remove(5,4)]) (use w_remove in \<open>auto intro: conflict_same simp: id_ok_def\<close>)
next
  case (r_read s r x rs k)
  have "awTxnID (boWriteSet (bTable s)) \<noteq> x" using bocc_idsD [OF r_read(4), of r x] r_read(1) by (auto simp: id_ok_def)
  then have get: "bo_getByKey M x k (bTable s) = cuckoo_lookup M (boTbl (bTable s)) k"
    by (simp add: bo_getByKey_def cuckoo_getByKey_out_def)
  show ?case
    by (rule bocc_rinv_reader [OF r_read(5,4), of r])
      (use bocc_rinvD [OF r_read(5), of r] r_read(1) get in \<open>auto intro: conflict_same\<close>)
next
  case (r_validate s r x rs)
  have "id_ok s x" using bocc_idsD [OF r_validate(5), of r] r_validate(1) by simp
  then have com: "bCommitted s k = cuckoo_lookup M (boTbl (bTable s)) k \<or> conflict s x None k" for k
    using uncommitted_conflict [OF r_validate(4,7)] by metis
  have "bCommitted s k = v \<or> conflict s x (Some (Suc (bClock s))) k" if "(k, v) \<in> set rs" for k v
    using bocc_rinvD [OF r_validate(6), of r] r_validate(1) that com [of k] conflict_validate [OF r_validate(4), of x k] by auto
  then show ?case
    using bocc_rinvD [OF r_validate(6), of r] r_validate(1)
    by (intro bocc_rinv_reader [OF r_validate(6,5), of r]) auto
next
  case (r_done s r x rs v snap)
  have "snap k = w" if "bo_readCommit x v (map fst rs) (bTable s)" "(k, w) \<in> set rs" for k w
    using bocc_rinvD [OF r_done(5), of r] r_done(1) validate_no_conflict [OF that(1), of k] that(2) by force
  then show ?case using r_done(1) by (intro bocc_rinv_reader [OF r_done(5,4), of r]) auto
next
  case (r_take s r)
  show ?case by (rule bocc_rinv_reader [OF r_take(6,5), of r]) auto
next
  case (r_begin s r x)
  show ?case by (rule bocc_rinv_reader [OF r_begin(5,4), of r]) auto
next
  case (r_restart s r x rs)
  show ?case
    by (rule bocc_rinv_reader [OF r_restart(5,4), of r]) (use bocc_rinvD [OF r_restart(5), of r] r_restart(1) in auto)
next
  case (r_again s r rs snap)
  show ?case by (rule bocc_rinv_reader [OF r_again(5,4), of r]) auto
qed (rule bocc_rinv_writer, assumption, assumption, (auto intro: conflict_same simp: tbl_defs)[5])+

definition bocc_inv :: "('m, 'k, 'v) cuckoohash_map \<Rightarrow> ('k, 'v, 'm) BOCCSys \<Rightarrow> bool" where
  "bocc_inv M s \<longleftrightarrow> bocc_winv s \<and> bocc_ids s \<and> bocc_rinv M s \<and> bocc_cinv M s"

lemma bocc_reachable_inv:
  assumes "(bocc_step M)\<^sup>*\<^sup>* (bocc_init M tbl) s" and "cuckoo_laws M"
  shows "bocc_inv M s"
  using assms(1)
proof (induction rule: rtranclp_induct)
  case base
  show ?case
    by (simp add: bocc_inv_def bocc_init_def bocc_winv_def bocc_ids_def writer_ids_def bocc_rinv_def bocc_cinv_def
        ws_order_def TS_INF_def cuckoo_getByKey_out_def)
next
  case (step s s')
  then show ?case
    unfolding bocc_inv_def
    using bocc_step_winv bocc_step_ids bocc_step_rinv [OF step(2) assms(2)] bocc_step_cinv [OF step(2) assms(2)] by blast
qed

section \<open>Properties\<close>

text \<open>
  (C5) Validated reads are serializable: whatever the interleaving of the writer's commits and
  clean-ups with the readers, a reader whose validation succeeds has read, for every key, the
  value that was committed when it took its validation timestamp; it has seen neither a
  partly written transaction nor values of different committed states.
\<close>

theorem bocc_validated_reads_serializable:
  assumes "cuckoo_laws M" and "(bocc_step M)\<^sup>*\<^sup>* (bocc_init M tbl) s" and "bReader s r = RDone True rs snap"
  shows "\<forall>(k, v)\<in>set rs. v = snap k"
  using bocc_reachable_inv [OF assms(2,1)] bocc_rinvD [of M s r] assms(3) by (auto simp: bocc_inv_def)

theorem bocc_validated_reads_serializable_witness:
  "\<exists>s. (bocc_step fun_map)\<^sup>*\<^sup>* (bocc_init fun_map \<lparr>cDataTable = [1 \<mapsto> 7], cImmediateObservers = 0, cNotified = []\<rparr>) s \<and>
     bReader s 0 = RDone True [(1::nat, Some (7::nat))] [1 \<mapsto> 7] \<and> (\<forall>(k, v)\<in>set [(1::nat, Some (7::nat))]. v = [1 \<mapsto> 7] k)"
proof -
  let ?s0 = "bocc_init fun_map \<lparr>cDataTable = [1::nat \<mapsto> 7::nat], cImmediateObservers = 0, cNotified = []\<rparr>"
  let ?s1 = "?s0\<lparr>bReader := (bReader ?s0)(0 := RTaken 1), bClock := Suc (Suc 0)\<rparr>"
  let ?s2 = "?s1\<lparr>bReader := (bReader ?s1)(0 := RReading 1 []), bActive := {1}\<rparr>"
  let ?s3 = "?s2\<lparr>bReader := (bReader ?s2)(0 := RReading 1 [(1, Some 7)])\<rparr>"
  let ?s4 = "?s3\<lparr>bReader := (bReader ?s3)(0 := RValidating 1 [(1, Some 7)] (Suc (Suc (Suc 0))) [1 \<mapsto> 7]), bClock := Suc (Suc (Suc (Suc 0)))\<rparr>"
  let ?s5 = "?s4\<lparr>bReader := (bReader ?s4)(0 := RDone True [(1, Some 7)] [1 \<mapsto> 7]), bActive := {}\<rparr>"
  have get: "cuckoo_getByKey_out fun_map t = cDataTable t" for t :: "(nat \<rightharpoonup> nat, nat) CuckooTable"
    by (simp add: cuckoo_getByKey_out_def fun_map_def fun_eq_iff)
  have "bocc_step fun_map ?s0 ?s1" using bocc_step.r_take [of ?s0 0 fun_map] by (simp add: bocc_init_def TS_INF_def)
  moreover have "bocc_step fun_map ?s1 ?s2" using bocc_step.r_begin [of ?s1 0 1 fun_map] by (simp add: bocc_init_def)
  moreover have "bocc_step fun_map ?s2 ?s3" using bocc_step.r_read [of ?s2 0 1 "[]" fun_map 1]
    by (simp add: bocc_init_def bo_getByKey_def get)
  moreover have "bocc_step fun_map ?s3 ?s4" using bocc_step.r_validate [of ?s3 0 1 "[(1, Some 7)]" fun_map]
    by (simp add: bocc_init_def TS_INF_def get)
  moreover have "bocc_step fun_map ?s4 ?s5" using bocc_step.r_done [of ?s4 0 1 "[(1, Some 7)]" "Suc (Suc (Suc 0))" "[1 \<mapsto> 7]" fun_map]
    by (simp add: bocc_init_def bo_readCommit_def)
  ultimately have run: "(bocc_step fun_map)\<^sup>*\<^sup>* ?s0 ?s5" by (meson rtranclp.rtrancl_refl rtranclp.rtrancl_into_rtrancl)
  have fin: "bReader ?s5 0 = RDone True [(1, Some 7)] [1 \<mapsto> 7]" by simp
  show ?thesis using run fin bocc_validated_reads_serializable [OF fun_map_laws run fin] by blast
qed

text \<open>
  Without interference a commit writes the whole write set, the first write of a key that is
  not in the table yet winning, and forgets it; the two tables of a group commit together.
\<close>

lemma bo_write_fold:
  assumes "cuckoo_laws M"
  shows "cuckoo_lookup M (boTbl (fold (\<lambda>(k, v). bo_write M k v) ws t)) = map_of ws ++ cuckoo_lookup M (boTbl t)"
    and "committedWSs (fold (\<lambda>(k, v). bo_write M k v) ws t) = committedWSs t"
proof (induction ws arbitrary: t)
  case (Cons w ws)
  obtain k v where w: "w = (k, v)" by force
  { case 1 show ?case unfolding w fold_simps comp_apply Cons.IH(1)
      by (simp add: assms bo_write_def cuckoo_insert_lookup map_add_def fun_eq_iff split: option.splits) }
  { case 2 show ?case unfolding w fold_simps comp_apply Cons.IH(2) by (simp add: bo_write_def) }
qed simp_all

lemma bo_commit_content:
  assumes "cuckoo_laws M"
  obtains t' where "bo_transactionCommit M x e old (saveWriteSet v t) = Inr t'"
    and "cuckoo_lookup M (boTbl t') = map_of (awSet (boWriteSet t)) ++ cuckoo_lookup M (boTbl t)" and "awSet (boWriteSet t') = []"
proof -
  let ?t = "fold (\<lambda>(k, v). bo_write M k v) (awSet (boWriteSet t)) (saveWriteSet v t)"
  obtain ws where "committedWSs ?t = ws # committedWSs t" unfolding bo_write_fold(2) [OF assms] by (simp add: saveWriteSet_def)
  moreover have "cuckoo_lookup M (boTbl ?t) = map_of (awSet (boWriteSet t)) ++ cuckoo_lookup M (boTbl t)"
    unfolding bo_write_fold(1) [OF assms] by (simp add: saveWriteSet_def)
  moreover have "awSet (boWriteSet (saveWriteSet v t)) = awSet (boWriteSet t)" by (simp add: saveWriteSet_def)
  ultimately show ?thesis
    by (cases "old = x") (auto intro!: that simp: bo_transactionCommit_def bo_endWrite_def bo_oldest_def bo_cleanup_def aw_clean_def)
qed

lemma bo_preCommit_both:
  assumes "cuckoo_laws M"
  shows "bo_transactionPreCommit M x vts ets old False (t, u) = Inr (t, u, False)"
    and "\<exists>t' u'. bo_transactionPreCommit M x vts ets old True (t, u) = Inr (t', u', True) \<and>
      cuckoo_lookup M (boTbl t') = map_of (awSet (boWriteSet t)) ++ cuckoo_lookup M (boTbl t) \<and>
      cuckoo_lookup M (boTbl u') = map_of (awSet (boWriteSet u)) ++ cuckoo_lookup M (boTbl u)"
proof -
  show "bo_transactionPreCommit M x vts ets old False (t, u) = Inr (t, u, False)" by (simp add: bo_transactionPreCommit_def)
  obtain t' where t: "bo_transactionCommit M x (fst ets) (fst old) (saveWriteSet (fst vts) t) = Inr t'"
    "cuckoo_lookup M (boTbl t') = map_of (awSet (boWriteSet t)) ++ cuckoo_lookup M (boTbl t)" by (rule bo_commit_content [OF assms])
  obtain u' where u: "bo_transactionCommit M x (snd ets) (snd old) (saveWriteSet (snd vts) u) = Inr u'"
    "cuckoo_lookup M (boTbl u') = map_of (awSet (boWriteSet u)) ++ cuckoo_lookup M (boTbl u)" by (rule bo_commit_content [OF assms])
  show "\<exists>t' u'. bo_transactionPreCommit M x vts ets old True (t, u) = Inr (t', u', True) \<and>
      cuckoo_lookup M (boTbl t') = map_of (awSet (boWriteSet t)) ++ cuckoo_lookup M (boTbl t) \<and>
      cuckoo_lookup M (boTbl u') = map_of (awSet (boWriteSet u)) ++ cuckoo_lookup M (boTbl u)"
    using t u by (simp add: bo_transactionPreCommit_def)
qed

text \<open>Validation rejects exactly the readers that overlap a write set with one of their keys.\<close>

lemma bo_readCommit_iff:
  "bo_readCommit x v ks t \<longleftrightarrow>
     \<not> (\<exists>ws\<in>set (committedWSs t). x < wsEnd ws \<and> wsVal ws < v \<and> set ks \<inter> wsKeys ws \<noteq> {})"
proof -
  have "validate_loop x v ks ds \<longleftrightarrow> \<not> (\<exists>ws\<in>set ds. x < wsEnd ws \<and> wsVal ws < v \<and> set ks \<inter> wsKeys ws \<noteq> {})" for ds
    by (induction ds) auto
  then show ?thesis by (simp add: bo_readCommit_def)
qed

end
