(* ===== verification/Aggr_Median.thy ===== *)
theory Aggr_Median
  imports Aggr_Funcs
begin

text \<open>
  The incremental median of \<open>qop/aggr_functions/AggrMedian.hpp\<close>: an ordered map of value
  counters, an iterator to the (lower) median and the number of occurrences of that value
  before the median position. An iterator is the key it points to, or \<open>None\<close> for \<open>end()\<close>;
  it stays with its element when other elements are inserted or erased. Moving an iterator
  out of the map or reading at \<open>end()\<close> is out of bounds.
\<close>

section \<open>Model\<close>

record 'a AggrMedian =
  total :: int
  mapElement :: "'a ValueCounters"
  mapIt :: "'a option"
  elemBefore :: int

definition AggrMedian_init :: "'a AggrMedian" where
  "AggrMedian_init = \<lparr>total = 0, mapElement = [], mapIt = None, elemBefore = 0\<rparr>"

definition it_succ :: "'a ValueCounters \<Rightarrow> 'a option \<Rightarrow> 'a option res" where
  "it_succ m it =
     (case it of None \<Rightarrow> Inl OutOfBounds
      | Some k \<Rightarrow> Inr (case dropWhile (\<lambda>e. fst e \<noteq> k) m of _ # (k', _) # _ \<Rightarrow> Some k' | _ \<Rightarrow> None))"

definition it_pred :: "'a ValueCounters \<Rightarrow> 'a option \<Rightarrow> 'a option res" where
  "it_pred m it =
     (case (case it of None \<Rightarrow> m | Some k \<Rightarrow> takeWhile (\<lambda>e. fst e \<noteq> k) m) of
        [] \<Rightarrow> Inl OutOfBounds
      | es \<Rightarrow> Inr (Some (fst (last es))))"

definition it_first :: "'a option \<Rightarrow> 'a res" where
  "it_first it = (case it of None \<Rightarrow> Inl OutOfBounds | Some k \<Rightarrow> Inr k)"

definition it_second :: "'a ValueCounters \<Rightarrow> 'a option \<Rightarrow> uint res" where
  "it_second m it =
     (case it of None \<Rightarrow> Inl OutOfBounds
      | Some k \<Rightarrow> (case map_of m k of None \<Rightarrow> Inl UseAfterErase | Some c \<Rightarrow> Inr c))"

definition decrementMap :: "'a AggrMedian \<Rightarrow> 'a AggrMedian res" where
  "decrementMap s =
     bind_res (it_pred (mapElement s) (mapIt s))
       (\<lambda>it. if elemBefore s \<le> 0
             then bind_res (it_second (mapElement s) it) (\<lambda>c. Inr (s\<lparr>mapIt := it, elemBefore := uint (c - 1)\<rparr>))
             else Inr (s\<lparr>mapIt := it\<rparr>))"

definition incrementMap :: "'a AggrMedian \<Rightarrow> 'a AggrMedian res" where
  "incrementMap s =
     bind_res (it_second (mapElement s) (mapIt s))
       (\<lambda>c. bind_res (it_succ (mapElement s) (mapIt s))
          (\<lambda>it. Inr (if elemBefore s + 1 \<ge> uint c then s\<lparr>mapIt := it, elemBefore := 0\<rparr> else s\<lparr>mapIt := it\<rparr>)))"

text \<open>The outdated branch: move the iterator, then remove one occurrence.\<close>

definition median_move_old :: "('a \<Rightarrow> 'a \<Rightarrow> bool) \<Rightarrow> 'a AggrMedian \<Rightarrow> 'a \<Rightarrow> 'a AggrMedian res" where
  "median_move_old cmp s data =
     (if mapIt s = Some data
      then (if total s mod 2 \<noteq> 0 then decrementMap s
            else bind_res (it_second (mapElement s) (mapIt s))
                   (\<lambda>c. if elemBefore s + 1 \<ge> uint c then incrementMap s else Inr s))
      else bind_res (it_first (mapIt s))
             (\<lambda>cur. if total s mod 2 \<noteq> 0 \<and> \<not> cmp data cur then decrementMap s
                    else if total s mod 2 = 0 \<and> cmp data cur then incrementMap s
                    else Inr s))"

definition median_remove :: "'a AggrMedian \<Rightarrow> 'a \<Rightarrow> uint \<Rightarrow> 'a AggrMedian" where
  "median_remove s data c =
     (if c = 1
      then (let s1 = s\<lparr>mapElement := filter (\<lambda>e. fst e \<noteq> data) (mapElement s), total := total s - 1\<rparr>
            in if total s1 = 0 then s1\<lparr>mapIt := None, elemBefore := 0\<rparr> else s1)
      else s\<lparr>mapElement := map (\<lambda>e. if fst e = data then (data, c - 1) else e) (mapElement s), total := total s - 1\<rparr>)"

text \<open>The move of the iterator after an insertion.\<close>

definition median_move_new :: "('a \<Rightarrow> 'a \<Rightarrow> bool) \<Rightarrow> 'a AggrMedian \<Rightarrow> 'a \<Rightarrow> 'a AggrMedian res" where
  "median_move_new cmp s data =
     bind_res (it_first (mapIt s))
       (\<lambda>cur. if total s mod 2 = 0 \<and> cmp data cur then decrementMap s
              else if total s mod 2 \<noteq> 0 \<and> \<not> cmp data cur then incrementMap s
              else Inr s)"

definition AggrMedian_iterate :: "('a \<Rightarrow> 'a \<Rightarrow> bool) \<Rightarrow> 'a AggrMedian \<Rightarrow> 'a \<Rightarrow> bool \<Rightarrow> 'a AggrMedian res" where
  "AggrMedian_iterate cmp s data outdated =
     (if outdated
      then (case map_of (mapElement s) data of
              None \<Rightarrow> Inr s
            | Some c \<Rightarrow> bind_res (median_move_old cmp s data) (\<lambda>s1. Inr (median_remove s1 data c)))
      else (case map_of (mapElement s) data of
              Some c \<Rightarrow>
                median_move_new cmp
                  (s\<lparr>mapElement := map (\<lambda>e. if fst e = data then (data, c + 1) else e) (mapElement s),
                     total := total s + 1\<rparr>) data
            | None \<Rightarrow>
                (let s1 = s\<lparr>mapElement := omap_insert cmp data 1 (mapElement s), total := total s + 1\<rparr>
                 in if total s1 = 1 then Inr (s1\<lparr>mapIt := map_option fst (List.find (\<lambda>_. True) (mapElement s1)), elemBefore := 0\<rparr>)
                    else median_move_new cmp s1 data)))"

definition AggrMedian_value :: "'a::linordered_field AggrMedian \<Rightarrow> 'a res" where
  "AggrMedian_value s =
     (if total s = 0 then Inr 0
      else bind_res (it_first (mapIt s))
        (\<lambda>cur. if total s mod 2 = 0
               then bind_res (it_second (mapElement s) (mapIt s))
                 (\<lambda>c. if elemBefore s + 1 \<ge> uint c
                      then bind_res (it_succ (mapElement s) (mapIt s))
                             (\<lambda>it. bind_res (it_first it) (\<lambda>nxt. Inr ((cur + nxt) / 2)))
                      else Inr cur)
               else Inr (cur / 1)))"

fun median_inserts :: "'a::linordered_field list \<Rightarrow> 'a AggrMedian \<Rightarrow> 'a AggrMedian res" where
  "median_inserts [] s = Inr s"
| "median_inserts (x # xs) s = bind_res (AggrMedian_iterate (<) s x False) (median_inserts xs)"

text \<open>The median of a sorted list.\<close>

definition median_of :: "'a::linordered_field list \<Rightarrow> 'a" where
  "median_of ys = (let n = length ys in
     if odd n then ys ! (n div 2) else (ys ! (n div 2 - 1) + ys ! (n div 2)) / 2)"

section \<open>Lemmas\<close>

abbreviation ones :: "'a list \<Rightarrow> 'a ValueCounters" where
  "ones ys \<equiv> map (\<lambda>y. (y, 1)) ys"

lemma takeWhile_distinct: "distinct ys \<Longrightarrow> i < length ys \<Longrightarrow> takeWhile (\<lambda>e. fst e \<noteq> ys ! i) (ones ys) = ones (take i ys)"
  by (induction ys arbitrary: i) (auto simp: nth_Cons take_Cons split: nat.splits)

lemma dropWhile_distinct: "distinct ys \<Longrightarrow> i < length ys \<Longrightarrow> dropWhile (\<lambda>e. fst e \<noteq> ys ! i) (ones ys) = ones (drop i ys)"
  by (induction ys arbitrary: i) (auto simp: nth_Cons drop_Cons split: nat.splits)

lemma it_pred_ones: "distinct ys \<Longrightarrow> 0 < i \<Longrightarrow> i < length ys \<Longrightarrow> it_pred (ones ys) (Some (ys ! i)) = Inr (Some (ys ! (i - 1)))"
proof -
  assume d: "distinct ys" "0 < i" "i < length ys"
  then have ne: "take i ys \<noteq> []" by auto
  then have "last (take i ys) = ys ! (i - 1)" using d by (simp add: last_conv_nth min_def)
  moreover obtain e es where eq: "ones (take i ys) = e # es" using ne by (cases "ones (take i ys)") auto
  moreover have "fst (last (ones (take i ys))) = last (take i ys)" using ne by (simp add: last_map)
  ultimately have l: "fst (last (e # es)) = ys ! (i - 1)" by simp
  have "it_pred (ones ys) (Some (ys ! i)) = (case e # es of [] \<Rightarrow> Inl OutOfBounds | es \<Rightarrow> Inr (Some (fst (last es))))"
    unfolding it_pred_def using takeWhile_distinct [OF d(1,3)] eq by simp
  then show ?thesis using l by simp
qed

lemma it_succ_ones: "distinct ys \<Longrightarrow> Suc i < length ys \<Longrightarrow> it_succ (ones ys) (Some (ys ! i)) = Inr (Some (ys ! Suc i))"
proof -
  assume d: "distinct ys" "Suc i < length ys"
  then have "drop i ys = ys ! i # ys ! Suc i # drop (Suc (Suc i)) ys" by (simp add: Cons_nth_drop_Suc)
  then show ?thesis using dropWhile_distinct [of ys i] d by (simp add: it_succ_def)
qed

lemma map_of_ones: "map_of (ones ys) y = (if y \<in> set ys then Some 1 else None)"
  by (induction ys) auto

lemma it_second_ones: "y \<in> set ys \<Longrightarrow> it_second (ones ys) (Some y) = Inr 1"
  by (simp add: it_second_def map_of_ones)

lemma omap_insert_ones: "x \<notin> set ys \<Longrightarrow> omap_insert (<) x 1 (ones ys) = ones (insort x ys)" for x :: "'a::linorder"
  by (induction ys) auto

lemma insort_nth_less: "sorted ys \<Longrightarrow> i < length ys \<Longrightarrow> x < ys ! i \<Longrightarrow> insort x ys ! Suc i = ys ! i"
proof (induction ys arbitrary: i)
  case (Cons y ys)
  then show ?case by (cases i) (auto simp: nth_Cons split: nat.splits dest: nth_mem)
qed simp

lemma insort_nth_greater: "sorted ys \<Longrightarrow> i < length ys \<Longrightarrow> ys ! i < x \<Longrightarrow> insort x ys ! i = ys ! i"
proof (induction ys arbitrary: i)
  case (Cons y ys)
  show ?case
  proof (cases i)
    case 0
    then show ?thesis using Cons.prems(3) by auto
  next
    case (Suc j)
    then have "y \<le> ys ! j" using Cons.prems(1,2) nth_mem [of j ys] by simp
    then have "\<not> x \<le> y" using Cons.prems(3) Suc by auto
    then show ?thesis using Cons Suc by simp
  qed
qed simp

text \<open>The state after inserting the distinct values of \<open>ys\<close>: the iterator is at the lower median.\<close>

definition med_rel :: "'a::linordered_field AggrMedian \<Rightarrow> 'a list \<Rightarrow> bool" where
  "med_rel s ys \<longleftrightarrow> sorted ys \<and> distinct ys \<and> mapElement s = ones ys \<and> total s = int (length ys) \<and> elemBefore s = 0 \<and>
     mapIt s = (if ys = [] then None else Some (ys ! ((length ys - 1) div 2)))"

lemma med_insert:
  assumes "med_rel s ys" and "x \<notin> set ys"
  shows "\<exists>s'. AggrMedian_iterate (<) s x False = Inr s' \<and> med_rel s' (insort x ys)"
proof (cases "ys = []")
  case True
  then show ?thesis using assms(1) by (simp add: med_rel_def AggrMedian_iterate_def)
next
  case False
  define zs where "zs = insort x ys"
  define i where "i = (length ys - 1) div 2"
  define s1 where "s1 = s\<lparr>mapElement := ones zs, total := int (length zs)\<rparr>"
  have "i \<le> length ys - 1" by (simp add: i_def)
  then have ys: "sorted ys" "distinct ys" "i < length ys"
    using assms(1) False by (auto simp: med_rel_def simp flip: length_greater_0_conv)
  have zs: "sorted zs" "distinct zs" "length zs = Suc (length ys)" "set zs = insert x (set ys)"
    using ys assms(2) by (simp_all add: zs_def sorted_insort distinct_insort set_insort_key)
  have s1: "mapIt s1 = Some (ys ! i)" "elemBefore s1 = 0" "mapElement s1 = ones zs" "total s1 = int (length zs)"
    using assms(1) False by (auto simp: med_rel_def s1_def i_def)
  have it: "AggrMedian_iterate (<) s x False = median_move_new (<) s1 x"
    using assms False zs(3) by (simp add: AggrMedian_iterate_def med_rel_def map_of_ones omap_insert_ones s1_def zs_def add.commute)
  have goal: "\<exists>s'. AggrMedian_iterate (<) s x False = Inr s' \<and> med_rel s' zs"
    if "median_move_new (<) s1 x = Inr (s1\<lparr>mapIt := Some (zs ! ((length zs - 1) div 2)), elemBefore := 0\<rparr>)"
    using that it zs s1 by (auto simp: med_rel_def)
  have mem: "ys ! i \<in> set zs" using ys(3) zs(4) by simp
  have par: "(if even (length zs) then (length zs - 1) div 2 = i else (length zs - 1) div 2 = Suc i)"
    using zs(3) False unfolding i_def by (cases "length ys") (auto elim!: oddE evenE)
  have self: "s1\<lparr>mapIt := Some (ys ! i), elemBefore := 0\<rparr> = s1" by (rule AggrMedian.equality) (simp_all add: s1)
  have ev: "int (length zs) mod 2 = 0 \<longleftrightarrow> even (length zs)" by presburger
  have "x \<noteq> ys ! i" using assms(2) ys(3) by auto
  then consider "x < ys ! i" | "ys ! i < x" by fastforce
  then have "median_move_new (<) s1 x = Inr (s1\<lparr>mapIt := Some (zs ! ((length zs - 1) div 2)), elemBefore := 0\<rparr>)"
  proof cases
    case 1
    have n: "zs ! Suc i = ys ! i" using insort_nth_less [OF ys(1,3) 1] by (simp add: zs_def)
    have "it_pred (ones zs) (Some (ys ! i)) = Inr (Some (zs ! i))"
      using it_pred_ones [OF zs(2), of "Suc i"] n ys(3) zs(3) by simp
    moreover have "zs ! i \<in> set zs" using ys(3) zs(3) by simp
    ultimately show ?thesis using 1 s1 par n self ev
      by (cases "even (length zs)") (simp_all add: median_move_new_def it_first_def decrementMap_def it_second_ones)
  next
    case 2
    have n: "zs ! i = ys ! i" using insort_nth_greater [OF ys(1,3) 2] by (simp add: zs_def)
    have "it_succ (ones zs) (Some (ys ! i)) = Inr (Some (zs ! Suc i))"
      using it_succ_ones [OF zs(2), of i] n ys(3) zs(3) by simp
    then show ?thesis using 2 s1 par n mem self ev
      by (cases "even (length zs)") (simp_all add: median_move_new_def it_first_def incrementMap_def it_second_ones)
  qed
  then show ?thesis using goal unfolding zs_def by blast
qed

lemma med_inserts: "med_rel s ys \<Longrightarrow> distinct (ys @ xs) \<Longrightarrow>
    \<exists>s'. median_inserts xs s = Inr s' \<and> med_rel s' (sort (ys @ xs))"
proof (induction xs arbitrary: s ys)
  case Nil
  then show ?case by (auto simp: med_rel_def sorted_sort_id)
next
  case (Cons x xs)
  obtain s1 where s1: "AggrMedian_iterate (<) s x False = Inr s1" "med_rel s1 (insort x ys)"
    using med_insert [OF Cons.prems(1), of x] Cons.prems(2) by auto
  have "distinct (insort x ys @ xs)" using Cons.prems(2) by (simp add: distinct_insort set_insort_key)
  then obtain s' where "median_inserts xs s1 = Inr s'" "med_rel s' (sort (insort x ys @ xs))"
    using Cons.IH [OF s1(2)] by blast
  moreover have "sort (insort x ys @ xs) = sort (ys @ x # xs)" by (rule properties_for_sort) simp_all
  ultimately show ?case using s1(1) by simp
qed

lemma med_value:
  assumes "med_rel s ys" and "ys \<noteq> []"
  shows "AggrMedian_value s = Inr (median_of ys)"
proof -
  let ?i = "(length ys - 1) div 2"
  have s: "distinct ys" "mapElement s = ones ys" "total s = int (length ys)" "elemBefore s = 0" "mapIt s = Some (ys ! ?i)"
    using assms by (auto simp: med_rel_def)
  show ?thesis
  proof (cases "even (length ys)")
    case False
    then obtain k where k: "length ys = 2 * k + 1" by (elim oddE)
    then have i: "?i = k" "length ys div 2 = k" "odd (length ys)" by simp_all
    have t: "total s \<noteq> 0" "total s mod 2 \<noteq> 0" using s(3) k by simp_all
    show ?thesis unfolding AggrMedian_value_def median_of_def Let_def i(2) using i t s(5) by (simp add: it_first_def)
  next
    case True
    then obtain m where m: "length ys = 2 * m" by (elim evenE)
    then obtain k where "m = Suc k" using assms(2) by (cases m) auto
    with m have k: "length ys = 2 * Suc k" by simp
    then have i: "?i = k" "length ys div 2 = Suc k" "Suc k < length ys" by simp_all
    have "it_succ (ones ys) (Some (ys ! k)) = Inr (Some (ys ! Suc k))" using it_succ_ones [OF s(1)] i(3) by blast
    moreover have "it_second (ones ys) (Some (ys ! k)) = Inr 1" using i(3) by (intro it_second_ones) simp
    ultimately show ?thesis
      using s k by (simp add: AggrMedian_value_def it_first_def median_of_def Let_def i)
  qed
qed

section \<open>Properties\<close>

text \<open>
  The incremental median is right for distinct values: after inserting any non-empty
  sequence of distinct values, in any order, no iterator has left the map and \<open>value()\<close> is
  the median of the values (the middle one, or the mean of the two middle ones).
\<close>

theorem median_of_distinct_values:
  assumes "distinct xs" and "xs \<noteq> []"
  shows "\<exists>s. median_inserts xs AggrMedian_init = Inr s \<and> AggrMedian_value s = Inr (median_of (sort xs))"
proof -
  have "med_rel AggrMedian_init []" by (simp add: med_rel_def AggrMedian_init_def)
  from med_inserts [OF this, of xs] assms obtain s where "median_inserts xs AggrMedian_init = Inr s" "med_rel s (sort xs)" by auto
  moreover have "sort xs \<noteq> []" using assms(2) by (metis length_0_conv length_sort)
  ultimately show ?thesis using med_value by blast
qed

theorem median_of_distinct_values_witness:
  "\<exists>s. median_inserts [5, 1, 9, 3 :: real] AggrMedian_init = Inr s \<and> AggrMedian_value s = Inr 4"
  using median_of_distinct_values [of "[5, 1, 9, 3 :: real]"] by (simp add: median_of_def)

text \<open>
  The incremental median fails on repeated values and on retractions: three insertions of
  the same value move the iterator past the last element, so that reading the median is out
  of bounds, and retracting the only value moves the iterator before the first element.
\<close>

theorem median_fails_on_duplicates_and_retraction:
  "(\<exists>s. median_inserts [x, x, x] AggrMedian_init = Inr s \<and> AggrMedian_value s = Inl OutOfBounds) \<and>
   (\<exists>s. median_inserts [x] AggrMedian_init = Inr s \<and> AggrMedian_iterate (<) s x True = Inl OutOfBounds)"
  by (simp add: AggrMedian_init_def AggrMedian_iterate_def AggrMedian_value_def median_move_new_def median_move_old_def
      it_first_def it_second_def it_succ_def it_pred_def incrementMap_def decrementMap_def)

end
