(* ===== verification/Joins.thy ===== *)
theory Joins
  imports Tuples "HOL-Library.Signed_Division"
begin

text \<open>
  The stream joins: the symmetric hash join \<open>qop/SHJoin.hpp\<close> and the disjoint-parallel
  \<open>qop/ScaleJoin.hpp\<close>. Elements from the left input channel arrive as \<open>Inl\<close>, from the right
  one as \<open>Inr\<close>. A multimap is an association list; the order inside an equal range is
  unspecified, so the results below are about multisets of publications.
\<close>

section \<open>Symmetric hash join\<close>

record 'k SHJoin =
  mLTable :: "('k \<times> Tuple) list"
  mRTable :: "('k \<times> Tuple) list"
  mJoinPredicate :: "Tuple \<Rightarrow> Tuple \<Rightarrow> bool"
  mLKeyExtractor :: "Tuple \<Rightarrow> 'k"
  mRKeyExtractor :: "Tuple \<Rightarrow> 'k"

definition SHJoin_new :: "(Tuple \<Rightarrow> 'k) \<Rightarrow> (Tuple \<Rightarrow> 'k) \<Rightarrow> (Tuple \<Rightarrow> Tuple \<Rightarrow> bool) \<Rightarrow> 'k SHJoin" where
  "SHJoin_new lKeyFunc rKeyFunc joinPred =
     \<lparr>mLTable = [], mRTable = [], mJoinPredicate = joinPred, mLKeyExtractor = lKeyFunc, mRKeyExtractor = rKeyFunc\<rparr>"

text \<open>The loop over the equal range: every equal element is erased.\<close>

fun erase_equal :: "'k \<Rightarrow> Tuple \<Rightarrow> ('k \<times> Tuple) list \<Rightarrow> ('k \<times> Tuple) list" where
  "erase_equal key e [] = []"
| "erase_equal key e ((k, x) # tbl) =
     (if k = key \<and> elementsEqual e x then erase_equal key e tbl else (k, x) # erase_equal key e tbl)"

definition updateHashTable :: "('k \<times> Tuple) list \<Rightarrow> 'k \<Rightarrow> Tuple \<Rightarrow> bool \<Rightarrow> ('k \<times> Tuple) list" where
  "updateHashTable tbl key e outdated = (if \<not> outdated then tbl @ [(key, e)] else erase_equal key e tbl)"

definition joinTuples :: "(Tuple \<Rightarrow> Tuple \<Rightarrow> bool) \<Rightarrow> Tuple \<Rightarrow> Tuple \<Rightarrow> bool \<Rightarrow> Tuple event list res" where
  "joinTuples joinPred l r outdated =
     (if joinPred l r then bind_res (joinElements l r) (\<lambda>t. Inr [Data t outdated]) else Inr [])"

fun equal_range :: "'k \<Rightarrow> ('k \<times> Tuple) list \<Rightarrow> Tuple list" where
  "equal_range key [] = []"
| "equal_range key ((k, x) # tbl) = (if k = key then x # equal_range key tbl else equal_range key tbl)"

fun join_all :: "(Tuple \<Rightarrow> Tuple event list res) \<Rightarrow> Tuple list \<Rightarrow> Tuple event list res" where
  "join_all f [] = Inr []"
| "join_all f (x # xs) = bind_res (f x) (\<lambda>o1. bind_res (join_all f xs) (\<lambda>o2. Inr (o1 @ o2)))"

definition processLeftDataElement :: "'k SHJoin \<Rightarrow> Tuple \<Rightarrow> bool \<Rightarrow> ('k SHJoin \<times> Tuple event list) res" where
  "processLeftDataElement sh left outdated =
     (let keyval = mLKeyExtractor sh left;
          sh1 = sh\<lparr>mLTable := updateHashTable (mLTable sh) keyval left outdated\<rparr>
      in bind_res (join_all (\<lambda>right. joinTuples (mJoinPredicate sh1) left right outdated) (equal_range keyval (mRTable sh1)))
           (\<lambda>os. Inr (sh1, os)))"

definition processRightDataElement :: "'k SHJoin \<Rightarrow> Tuple \<Rightarrow> bool \<Rightarrow> ('k SHJoin \<times> Tuple event list) res" where
  "processRightDataElement sh right outdated =
     (let keyval = mRKeyExtractor sh right;
          sh1 = sh\<lparr>mRTable := updateHashTable (mRTable sh) keyval right outdated\<rparr>
      in bind_res (join_all (\<lambda>left. joinTuples (mJoinPredicate sh1) left right outdated) (equal_range keyval (mLTable sh1)))
           (\<lambda>os. Inr (sh1, os)))"

fun sh_step :: "('k SHJoin, Tuple + Tuple, Tuple) opstep" where
  "sh_step sh (Data (Inl left) outdated) = processLeftDataElement sh left outdated"
| "sh_step sh (Data (Inr right) outdated) = processRightDataElement sh right outdated"
| "sh_step sh (Punct p) = Inr (sh, [Punct p])"

section \<open>ScaleJoin\<close>

text \<open>The counters are of type \<open>short\<close>.\<close>

definition as_short :: "int \<Rightarrow> int" where
  "as_short i = sint (of_int i :: 16 word)"

definition next_counter :: "int \<Rightarrow> int \<Rightarrow> int res" where
  "next_counter threadnum c =
     (if threadnum = 0 then Inl DivByZero else Inr (as_short (as_short (c + 1) smod threadnum)))"

text \<open>
  \<open>updateHashTable\<close> takes its key as \<open>key_t\<close>, a 32-bit signed integer of the C library; the
  stored key is the conversion back to the key type (\<open>unsigned long\<close>).
\<close>

type_synonym key_type = "64 word"

definition through_key_t :: "key_type \<Rightarrow> key_type" where
  "through_key_t k = scast (ucast k :: 32 word)"

record ScaleJoin = "key_type SHJoin" +
  mID :: int
  mThreadnum :: int
  mLCntr :: int
  mRCntr :: int
  mLOCntr :: int
  mROCntr :: int

definition ScaleJoin_new ::
  "(Tuple \<Rightarrow> key_type) \<Rightarrow> (Tuple \<Rightarrow> key_type) \<Rightarrow> (Tuple \<Rightarrow> Tuple \<Rightarrow> bool) \<Rightarrow> int \<Rightarrow> int \<Rightarrow> ScaleJoin" where
  "ScaleJoin_new lKeyFunc rKeyFunc joinPred jid numThreads =
     \<lparr>mLTable = [], mRTable = [], mJoinPredicate = joinPred, mLKeyExtractor = lKeyFunc, mRKeyExtractor = rKeyFunc,
      mID = jid, mThreadnum = numThreads, mLCntr = 0, mRCntr = 0, mLOCntr = 0, mROCntr = 0\<rparr>"

definition sc_updateHashTable :: "(key_type \<times> Tuple) list \<Rightarrow> key_type \<Rightarrow> Tuple \<Rightarrow> bool \<Rightarrow> (key_type \<times> Tuple) list" where
  "sc_updateHashTable tbl key e outdated = updateHashTable tbl (through_key_t key) e outdated"

definition sc_storeLeft :: "ScaleJoin \<Rightarrow> Tuple \<Rightarrow> bool \<Rightarrow> ScaleJoin res" where
  "sc_storeLeft sc left outdated =
     (let tbl = sc_updateHashTable (mLTable sc) (mLKeyExtractor sc left) left outdated
      in if outdated
         then bind_res (next_counter (mThreadnum sc) (mLOCntr sc)) (\<lambda>c.
                Inr ((if mLOCntr sc = mID sc then sc\<lparr>mLTable := tbl\<rparr> else sc)\<lparr>mLOCntr := c\<rparr>))
         else bind_res (next_counter (mThreadnum sc) (mLCntr sc)) (\<lambda>c.
                Inr ((if mLCntr sc = mID sc then sc\<lparr>mLTable := tbl\<rparr> else sc)\<lparr>mLCntr := c\<rparr>)))"

definition sc_storeRight :: "ScaleJoin \<Rightarrow> Tuple \<Rightarrow> bool \<Rightarrow> ScaleJoin res" where
  "sc_storeRight sc right outdated =
     (let tbl = sc_updateHashTable (mRTable sc) (mRKeyExtractor sc right) right outdated
      in if outdated
         then bind_res (next_counter (mThreadnum sc) (mROCntr sc)) (\<lambda>c.
                Inr ((if mROCntr sc = mID sc then sc\<lparr>mRTable := tbl\<rparr> else sc)\<lparr>mROCntr := c\<rparr>))
         else bind_res (next_counter (mThreadnum sc) (mRCntr sc)) (\<lambda>c.
                Inr ((if mRCntr sc = mID sc then sc\<lparr>mRTable := tbl\<rparr> else sc)\<lparr>mRCntr := c\<rparr>)))"

definition sc_processLeftDataElement :: "ScaleJoin \<Rightarrow> Tuple \<Rightarrow> bool \<Rightarrow> (ScaleJoin \<times> Tuple event list) res" where
  "sc_processLeftDataElement sc left outdated =
     bind_res (sc_storeLeft sc left outdated) (\<lambda>sc1.
     bind_res (join_all (\<lambda>right. joinTuples (mJoinPredicate sc1) left right outdated)
                (equal_range (mLKeyExtractor sc1 left) (mRTable sc1)))
       (\<lambda>os. Inr (sc1, os)))"

definition sc_processRightDataElement :: "ScaleJoin \<Rightarrow> Tuple \<Rightarrow> bool \<Rightarrow> (ScaleJoin \<times> Tuple event list) res" where
  "sc_processRightDataElement sc right outdated =
     bind_res (sc_storeRight sc right outdated) (\<lambda>sc1.
     bind_res (join_all (\<lambda>left. joinTuples (mJoinPredicate sc1) left right outdated)
                (equal_range (mRKeyExtractor sc1 right) (mLTable sc1)))
       (\<lambda>os. Inr (sc1, os)))"

fun sc_step :: "(ScaleJoin, Tuple + Tuple, Tuple) opstep" where
  "sc_step sc (Data (Inl left) outdated) = sc_processLeftDataElement sc left outdated"
| "sc_step sc (Data (Inr right) outdated) = sc_processRightDataElement sc right outdated"
| "sc_step sc (Punct p) = Inr (sc, [Punct p])"

lemmas join_handlers [op_defs] =
  processLeftDataElement_def processRightDataElement_def sc_processLeftDataElement_def sc_processRightDataElement_def

section \<open>Streams that evict in arrival order\<close>

text \<open>
  The streams that a window produces: a new tuple is well formed and differs from the present
  ones of its side, an outdated one is the oldest present tuple of its side. \<open>L\<close> and \<open>R\<close> are
  the present tuples in arrival order.
\<close>

definition wf_tuple :: "nat \<Rightarrow> Tuple \<Rightarrow> bool" where
  "wf_tuple n t \<longleftrightarrow> length (attrs t) = n \<and> length (mNulls t) = n"

fun fifo :: "nat \<Rightarrow> nat \<Rightarrow> Tuple list \<Rightarrow> Tuple list \<Rightarrow> (Tuple + Tuple) event list \<Rightarrow> bool" where
  "fifo nl nr L R [] = True"
| "fifo nl nr L R (Data (Inl t) outdated # es) =
     (if outdated then (case L of [] \<Rightarrow> False | x # L' \<Rightarrow> t = x \<and> fifo nl nr L' R es)
      else wf_tuple nl t \<and> attrs t \<notin> attrs ` set L \<and> fifo nl nr (L @ [t]) R es)"
| "fifo nl nr L R (Data (Inr t) outdated # es) =
     (if outdated then (case R of [] \<Rightarrow> False | x # R' \<Rightarrow> t = x \<and> fifo nl nr L R' es)
      else wf_tuple nr t \<and> attrs t \<notin> attrs ` set R \<and> fifo nl nr L (R @ [t]) es)"
| "fifo nl nr L R (Punct p # es) = fifo nl nr L R es"

text \<open>The tuples present after such a stream.\<close>

fun fifo_present :: "Tuple list \<Rightarrow> Tuple list \<Rightarrow> (Tuple + Tuple) event list \<Rightarrow> Tuple list \<times> Tuple list" where
  "fifo_present L R [] = (L, R)"
| "fifo_present L R (Data (Inl t) outdated # es) = fifo_present (if outdated then tl L else L @ [t]) R es"
| "fifo_present L R (Data (Inr t) outdated # es) = fifo_present L (if outdated then tl R else R @ [t]) es"
| "fifo_present L R (Punct p # es) = fifo_present L R es"

text \<open>The concatenation of two tuples, and the relational join of two lists of tuples.\<close>

definition concat_tuples :: "Tuple \<Rightarrow> Tuple \<Rightarrow> Tuple" where
  "concat_tuples l r = \<lparr>attrs = attrs l @ attrs r, mNulls = mNulls l @ mNulls r\<rparr>"

definition relational_join ::
  "(Tuple \<Rightarrow> 'k) \<Rightarrow> (Tuple \<Rightarrow> 'k) \<Rightarrow> (Tuple \<Rightarrow> Tuple \<Rightarrow> bool) \<Rightarrow> Tuple list \<Rightarrow> Tuple list \<Rightarrow> Tuple list" where
  "relational_join lk rk p L R = concat (map (\<lambda>l. map (concat_tuples l) (filter (\<lambda>r. lk l = rk r \<and> p l r) R)) L)"

section \<open>Shares of the instances\<close>

text \<open>
  The tuples of a queue that instance \<open>i\<close> of \<open>n\<close> stores, when the first one has the arrival
  number \<open>off\<close>; one instance of one stores all.
\<close>

fun share :: "nat \<Rightarrow> nat \<Rightarrow> nat \<Rightarrow> 'a list \<Rightarrow> 'a list" where
  "share n i off [] = []"
| "share n i off (x # xs) = (if off mod n = i then x # share n i (Suc off) xs else share n i (Suc off) xs)"

lemma share_one: "share (Suc 0) 0 off xs = xs"
  by (induction xs arbitrary: off) auto

lemma share_snoc: "share n i off (xs @ [x]) = share n i off xs @ (if (off + length xs) mod n = i then [x] else [])"
  by (induction xs arbitrary: off) auto

lemma share_subset: "set (share n i off xs) \<subseteq> set xs"
  by (induction xs arbitrary: off) auto

lemma share_partition: "0 < n \<Longrightarrow> (\<Sum>i<n. image_mset f (filter_mset P (mset (share n i off xs)))) = image_mset f (filter_mset P (mset xs))"
proof (induction xs arbitrary: off)
  case (Cons x xs)
  have "(\<Sum>i<n. image_mset f (filter_mset P (mset (share n i off (x # xs))))) =
      (\<Sum>i<n. (if i = off mod n then image_mset f (filter_mset P {#x#}) else {#}) + image_mset f (filter_mset P (mset (share n i (Suc off) xs))))"
    by (rule sum.cong) auto
  also have "\<dots> = image_mset f (filter_mset P {#x#}) + image_mset f (filter_mset P (mset xs))"
    using Cons by (simp add: sum.distrib)
  finally show ?case by simp
qed simp

section \<open>What the joins store and publish\<close>

definition keyed :: "(Tuple \<Rightarrow> 'k) \<Rightarrow> Tuple list \<Rightarrow> ('k \<times> Tuple) list" where
  "keyed f xs = map (\<lambda>t. (f t, t)) xs"

lemma keyed_simps [simp]: "keyed f [] = []" "keyed f (x # xs) = (f x, x) # keyed f xs" "keyed f (xs @ ys) = keyed f xs @ keyed f ys"
  by (simp_all add: keyed_def)

lemma equal_range_keyed: "equal_range k (keyed f xs) = filter (\<lambda>t. f t = k) xs"
  by (induction xs) auto

lemma erase_absent_keyed:
  "\<forall>y\<in>set xs. length (attrs y) = length (attrs x) \<and> attrs y \<noteq> attrs x \<Longrightarrow> erase_equal k x (keyed f xs) = keyed f xs"
  by (induction xs) (auto simp: elementsEqual_iff)

lemma join_all_left:
  "wf_tuple nl l \<Longrightarrow> \<forall>r\<in>set rs. wf_tuple nr r \<Longrightarrow>
   join_all (\<lambda>r. joinTuples p l r od) rs = Inr (map (\<lambda>r. Data (concat_tuples l r) od) (filter (p l) rs))"
  by (induction rs) (simp_all add: joinTuples_def joinElements_eq wf_tuple_def concat_tuples_def)

lemma join_all_right:
  "wf_tuple nr r \<Longrightarrow> \<forall>l\<in>set ls. wf_tuple nl l \<Longrightarrow>
   join_all (\<lambda>l. joinTuples p l r od) ls = Inr (map (\<lambda>l. Data (concat_tuples l r) od) (filter (\<lambda>l. p l r) ls))"
  by (induction ls) (simp_all add: joinTuples_def joinElements_eq wf_tuple_def concat_tuples_def)

definition left_out where
  "left_out lk rk p l rs od = map (\<lambda>r. Data (concat_tuples l r) od) (filter (\<lambda>r. rk r = lk l \<and> p l r) rs)"

definition right_out where
  "right_out lk rk p r ls od = map (\<lambda>l. Data (concat_tuples l r) od) (filter (\<lambda>l. lk l = rk r \<and> p l r) ls)"

lemma left_join: "wf_tuple nl l \<Longrightarrow> \<forall>r\<in>set rs. wf_tuple nr r \<Longrightarrow>
   join_all (\<lambda>r. joinTuples p l r od) (equal_range (lk l) (keyed rk rs)) = Inr (left_out lk rk p l rs od)"
  using join_all_left [of nl l "filter (\<lambda>r. rk r = lk l) rs" nr p od]
  by (simp add: equal_range_keyed left_out_def conj_commute)

lemma right_join: "wf_tuple nr r \<Longrightarrow> \<forall>l\<in>set ls. wf_tuple nl l \<Longrightarrow>
   join_all (\<lambda>l. joinTuples p l r od) (equal_range (rk r) (keyed lk ls)) = Inr (right_out lk rk p r ls od)"
  using join_all_right [of nr r "filter (\<lambda>l. lk l = rk r) ls" nl p od]
  by (simp add: equal_range_keyed right_out_def conj_commute)

text \<open>
  The publications of instance \<open>i\<close> of \<open>n\<close> for a stream that evicts in arrival order; the
  state is given by the present tuples and the numbers of evicted ones.
\<close>

fun join_out where
  "join_out n i lk rk p L R lo ro [] = []"
| "join_out n i lk rk p L R lo ro (Data (Inl t) od # es) =
     left_out lk rk p t (share n i ro R) od @
     (if od then join_out n i lk rk p (tl L) R (Suc lo) ro es else join_out n i lk rk p (L @ [t]) R lo ro es)"
| "join_out n i lk rk p L R lo ro (Data (Inr t) od # es) =
     right_out lk rk p t (share n i lo L) od @
     (if od then join_out n i lk rk p L (tl R) lo (Suc ro) es else join_out n i lk rk p L (R @ [t]) lo ro es)"
| "join_out n i lk rk p L R lo ro (Punct q # es) = Punct q # join_out n i lk rk p L R lo ro es"

definition side_ok :: "nat \<Rightarrow> Tuple list \<Rightarrow> bool" where
  "side_ok n xs \<longleftrightarrow> list_all (wf_tuple n) xs \<and> distinct (map attrs xs)"

lemma side_ok_snoc: "side_ok n xs \<Longrightarrow> wf_tuple n t \<Longrightarrow> attrs t \<notin> attrs ` set xs \<Longrightarrow> side_ok n (xs @ [t])"
  by (auto simp: side_ok_def)

lemma side_ok_tl: "side_ok n (x # xs) \<Longrightarrow> side_ok n xs \<and> wf_tuple n x"
  by (auto simp: side_ok_def)

lemma side_ok_wf: "side_ok n xs \<Longrightarrow> \<forall>x\<in>set (share m i off xs). wf_tuple n x"
  using share_subset [of m i off xs] by (auto simp: side_ok_def list_all_iff)

lemma erase_share:
  assumes "side_ok n (x # xs)"
  shows "erase_equal (f x) x ((f x, x) # keyed f (share m i off xs)) = keyed f (share m i off xs)"
    "erase_equal (f x) x (keyed f (share m i off xs)) = keyed f (share m i off xs)"
proof -
  have "length (attrs y) = length (attrs x) \<and> attrs y \<noteq> attrs x" if "y \<in> set (share m i off xs)" for y
  proof -
    have y: "y \<in> set xs" using that share_subset [of m i off xs] by blast
    then have "attrs y \<in> attrs ` set xs" by (rule imageI)
    then have "attrs y \<noteq> attrs x" using assms by (auto simp: side_ok_def)
    then show ?thesis using assms y by (simp add: side_ok_def wf_tuple_def list_all_iff)
  qed
  then show "erase_equal (f x) x (keyed f (share m i off xs)) = keyed f (share m i off xs)"
    by (intro erase_absent_keyed) blast
  then show "erase_equal (f x) x ((f x, x) # keyed f (share m i off xs)) = keyed f (share m i off xs)"
    by (simp add: elementsEqual_iff)
qed

definition sh_state where
  "sh_state lk rk p L R =
     \<lparr>mLTable = keyed lk L, mRTable = keyed rk R, mJoinPredicate = p, mLKeyExtractor = lk, mRKeyExtractor = rk\<rparr>"

definition sc_state :: "nat \<Rightarrow> nat \<Rightarrow> (Tuple \<Rightarrow> key_type) \<Rightarrow> (Tuple \<Rightarrow> key_type) \<Rightarrow> (Tuple \<Rightarrow> Tuple \<Rightarrow> bool) \<Rightarrow>
    Tuple list \<Rightarrow> Tuple list \<Rightarrow> nat \<Rightarrow> nat \<Rightarrow> ScaleJoin" where
  "sc_state n i lk rk p L R lo ro =
     \<lparr>mLTable = keyed lk (share n i lo L), mRTable = keyed rk (share n i ro R), mJoinPredicate = p,
      mLKeyExtractor = lk, mRKeyExtractor = rk, mID = int i, mThreadnum = int n,
      mLCntr = int ((lo + length L) mod n), mRCntr = int ((ro + length R) mod n),
      mLOCntr = int (lo mod n), mROCntr = int (ro mod n)\<rparr>"

lemma sh_step_state:
  assumes L: "side_ok nl L" and R: "side_ok nr R"
  shows "wf_tuple nl t \<Longrightarrow> sh_step (sh_state lk rk p L R) (Data (Inl t) False) = Inr (sh_state lk rk p (L @ [t]) R, left_out lk rk p t R False)"
    "wf_tuple nr t \<Longrightarrow> sh_step (sh_state lk rk p L R) (Data (Inr t) False) = Inr (sh_state lk rk p L (R @ [t]), right_out lk rk p t L False)"
    "L = t # L' \<Longrightarrow> sh_step (sh_state lk rk p L R) (Data (Inl t) True) = Inr (sh_state lk rk p L' R, left_out lk rk p t R True)"
    "R = t # R' \<Longrightarrow> sh_step (sh_state lk rk p L R) (Data (Inr t) True) = Inr (sh_state lk rk p L R', right_out lk rk p t L True)"
proof -
  have wL: "\<forall>x\<in>set L. wf_tuple nl x" and wR: "\<forall>x\<in>set R. wf_tuple nr x" using L R by (auto simp: side_ok_def list_all_iff)
  note defs = op_defs sh_state_def updateHashTable_def Let_def
  show "wf_tuple nl t \<Longrightarrow> sh_step (sh_state lk rk p L R) (Data (Inl t) False) = Inr (sh_state lk rk p (L @ [t]) R, left_out lk rk p t R False)"
    using left_join [OF _ wR] by (simp add: defs)
  show "wf_tuple nr t \<Longrightarrow> sh_step (sh_state lk rk p L R) (Data (Inr t) False) = Inr (sh_state lk rk p L (R @ [t]), right_out lk rk p t L False)"
    using right_join [OF _ wL] by (simp add: defs)
  show "L = t # L' \<Longrightarrow> sh_step (sh_state lk rk p L R) (Data (Inl t) True) = Inr (sh_state lk rk p L' R, left_out lk rk p t R True)"
    using left_join [OF _ wR, of nl t] L erase_share(1) [of nl t L' lk "Suc 0" 0 0] side_ok_tl [of nl t L']
    by (simp add: defs share_one)
  show "R = t # R' \<Longrightarrow> sh_step (sh_state lk rk p L R) (Data (Inr t) True) = Inr (sh_state lk rk p L R', right_out lk rk p t L True)"
    using right_join [OF _ wL, of nr t] R erase_share(1) [of nr t R' rk "Suc 0" 0 0] side_ok_tl [of nr t R']
    by (simp add: defs share_one)
qed

lemma sh_run_out:
  "fifo nl nr L R es \<Longrightarrow> side_ok nl L \<Longrightarrow> side_ok nr R \<Longrightarrow> fifo_present L R es = (L', R') \<Longrightarrow>
   run sh_step (sh_state lk rk p L R) es = Inr (sh_state lk rk p L' R', join_out (Suc 0) 0 lk rk p L R lo ro es)"
proof (induction nl nr L R es arbitrary: lo ro rule: fifo.induct)
  case (2 nl nr L R t od es)
  show ?case
  proof (cases od)
    case True
    then obtain L1 where L: "L = t # L1" "fifo nl nr L1 R es" using 2(3) by (auto split: list.splits)
    then show ?thesis using 2(1) [OF True, of t L1 "Suc lo" ro] 2(4-6) True side_ok_tl [of nl t L1] sh_step_state(3) [OF 2(4,5) L(1), where lk = lk and rk = rk and p = p]
      by (simp add: share_one del: sh_step.simps)
  next
    case False
    then have t: "wf_tuple nl t" "attrs t \<notin> attrs ` set L" "fifo nl nr (L @ [t]) R es" using 2(3) by auto
    then show ?thesis using 2(2) [OF False, of lo ro] 2(4-6) False side_ok_snoc [OF 2(4) t(1,2)] sh_step_state(1) [OF 2(4,5) t(1), where lk = lk and rk = rk and p = p]
      by (simp add: share_one del: sh_step.simps)
  qed
next
  case (3 nl nr L R t od es)
  show ?case
  proof (cases od)
    case True
    then obtain R1 where R: "R = t # R1" "fifo nl nr L R1 es" using 3(3) by (auto split: list.splits)
    then show ?thesis using 3(1) [OF True, of t R1 lo "Suc ro"] 3(4-6) True side_ok_tl [of nr t R1] sh_step_state(4) [OF 3(4,5) R(1), where lk = lk and rk = rk and p = p]
      by (simp add: share_one del: sh_step.simps)
  next
    case False
    then have t: "wf_tuple nr t" "attrs t \<notin> attrs ` set R" "fifo nl nr L (R @ [t]) es" using 3(3) by auto
    then show ?thesis using 3(2) [OF False, of lo ro] 3(4-6) False side_ok_snoc [OF 3(5) t(1,2)] sh_step_state(2) [OF 3(4,5) t(1), where lk = lk and rk = rk and p = p]
      by (simp add: share_one del: sh_step.simps)
  qed
next
  case (4 nl nr L R q es)
  show ?case using 4(1) [of lo ro] 4(2-5) by simp
qed simp

lemma as_short_small: "0 \<le> i \<Longrightarrow> i < 2 ^ 15 \<Longrightarrow> as_short i = i"
  unfolding as_short_def by (simp add: signed_of_int signed_take_bit_int_eq_self)

lemma next_counter_mod:
  assumes "0 < n" and "n < 2 ^ 15"
  shows "next_counter (int n) (int (k mod n)) = Inr (int (Suc k mod n))"
proof -
  have b: "k mod n < n" using assms(1) by simp
  have s: "as_short (int (k mod n) + 1) = int (Suc (k mod n))" using b assms(2) by (simp add: as_short_small)
  have m: "int (Suc (k mod n)) smod int n = int (Suc k mod n)"
    by (simp add: signed_modulo_int_def signed_divide_int_def sgn_if zmod_int [symmetric] minus_div_mult_eq_mod mod_Suc_eq del: of_nat_Suc)
  have "Suc k mod n < 2 ^ 15" using assms mod_less_divisor [OF assms(1), of "Suc k"] by linarith
  then have "as_short (int (Suc k mod n)) = int (Suc k mod n)" by (intro as_short_small) simp_all
  then show ?thesis using assms(1) s m by (simp add: next_counter_def)
qed

lemma sc_step_state:
  fixes p :: "Tuple \<Rightarrow> Tuple \<Rightarrow> bool" and lk rk :: "Tuple \<Rightarrow> key_type"
  assumes n: "0 < n" "n < 2 ^ 15" and L: "side_ok nl L" and R: "side_ok nr R"
  shows "wf_tuple nl t \<Longrightarrow> through_key_t (lk t) = lk t \<Longrightarrow> sc_step (sc_state n i lk rk p L R lo ro) (Data (Inl t) False) =
      Inr (sc_state n i lk rk p (L @ [t]) R lo ro, left_out lk rk p t (share n i ro R) False)"
    "wf_tuple nr t \<Longrightarrow> through_key_t (rk t) = rk t \<Longrightarrow> sc_step (sc_state n i lk rk p L R lo ro) (Data (Inr t) False) =
      Inr (sc_state n i lk rk p L (R @ [t]) lo ro, right_out lk rk p t (share n i lo L) False)"
    "L = t # L' \<Longrightarrow> through_key_t (lk t) = lk t \<Longrightarrow> sc_step (sc_state n i lk rk p L R lo ro) (Data (Inl t) True) =
      Inr (sc_state n i lk rk p L' R (Suc lo) ro, left_out lk rk p t (share n i ro R) True)"
    "R = t # R' \<Longrightarrow> through_key_t (rk t) = rk t \<Longrightarrow> sc_step (sc_state n i lk rk p L R lo ro) (Data (Inr t) True) =
      Inr (sc_state n i lk rk p L R' lo (Suc ro), right_out lk rk p t (share n i lo L) True)"
proof -
  note defs = op_defs sc_storeLeft_def sc_storeRight_def sc_state_def updateHashTable_def sc_updateHashTable_def Let_def
    next_counter_mod [OF n] share_snoc
  note wL = side_ok_wf [OF L, of n i lo] and wR = side_ok_wf [OF R, of n i ro]
  show "wf_tuple nl t \<Longrightarrow> through_key_t (lk t) = lk t \<Longrightarrow> sc_step (sc_state n i lk rk p L R lo ro) (Data (Inl t) False) =
      Inr (sc_state n i lk rk p (L @ [t]) R lo ro, left_out lk rk p t (share n i ro R) False)"
    using left_join [OF _ wR, of nl t p False lk rk] by (simp add: defs)
  show "wf_tuple nr t \<Longrightarrow> through_key_t (rk t) = rk t \<Longrightarrow> sc_step (sc_state n i lk rk p L R lo ro) (Data (Inr t) False) =
      Inr (sc_state n i lk rk p L (R @ [t]) lo ro, right_out lk rk p t (share n i lo L) False)"
    using right_join [OF _ wL, of nr t p False rk lk] by (simp add: defs)
  show "L = t # L' \<Longrightarrow> through_key_t (lk t) = lk t \<Longrightarrow> sc_step (sc_state n i lk rk p L R lo ro) (Data (Inl t) True) =
      Inr (sc_state n i lk rk p L' R (Suc lo) ro, left_out lk rk p t (share n i ro R) True)"
    using left_join [OF _ wR, of nl t p True lk rk] L erase_share [of nl t L' lk n i "Suc lo"] side_ok_tl [of nl t L']
    by (simp add: defs)
  show "R = t # R' \<Longrightarrow> through_key_t (rk t) = rk t \<Longrightarrow> sc_step (sc_state n i lk rk p L R lo ro) (Data (Inr t) True) =
      Inr (sc_state n i lk rk p L R' lo (Suc ro), right_out lk rk p t (share n i lo L) True)"
    using right_join [OF _ wL, of nr t p True rk lk] R erase_share [of nr t R' rk n i "Suc ro"] side_ok_tl [of nr t R']
    by (simp add: defs)
qed

definition keys_fit :: "(Tuple \<Rightarrow> key_type) \<Rightarrow> (Tuple \<Rightarrow> key_type) \<Rightarrow> (Tuple + Tuple) event list \<Rightarrow> bool" where
  "keys_fit lk rk es = list_all (\<lambda>e. case e of
       Data (Inl t) _ \<Rightarrow> through_key_t (lk t) = lk t
     | Data (Inr t) _ \<Rightarrow> through_key_t (rk t) = rk t
     | Punct _ \<Rightarrow> True) es"

text \<open>The numbers of evicted tuples of both sides.\<close>

fun evicted_left :: "(Tuple + Tuple) event list \<Rightarrow> nat" where
  "evicted_left [] = 0"
| "evicted_left (Data (Inl t) od # es) = (if od then Suc (evicted_left es) else evicted_left es)"
| "evicted_left (e # es) = evicted_left es"

fun evicted_right :: "(Tuple + Tuple) event list \<Rightarrow> nat" where
  "evicted_right [] = 0"
| "evicted_right (Data (Inr t) od # es) = (if od then Suc (evicted_right es) else evicted_right es)"
| "evicted_right (e # es) = evicted_right es"

lemma sc_run_out:
  assumes n: "0 < n" "n < 2 ^ 15"
  shows "fifo nl nr L R es \<Longrightarrow> side_ok nl L \<Longrightarrow> side_ok nr R \<Longrightarrow> fifo_present L R es = (L', R') \<Longrightarrow> keys_fit lk rk es \<Longrightarrow>
   run sc_step (sc_state n i lk rk p L R lo ro) es =
     Inr (sc_state n i lk rk p L' R' (lo + evicted_left es) (ro + evicted_right es), join_out n i lk rk p L R lo ro es)"
proof (induction nl nr L R es arbitrary: lo ro rule: fifo.induct)
  case (2 nl nr L R t od es)
  have k: "through_key_t (lk t) = lk t" "keys_fit lk rk es" using 2(7) by (auto simp: keys_fit_def)
  show ?case
  proof (cases od)
    case True
    then obtain L1 where L: "L = t # L1" "fifo nl nr L1 R es" using 2(3) by (auto split: list.splits)
    then show ?thesis using 2(1) [OF True, of t L1 "Suc lo" ro] 2(4-6) k True side_ok_tl [of nl t L1]
        sc_step_state(3) [OF n 2(4,5) L(1), where i = i and lk = lk and rk = rk and p = p and lo = lo and ro = ro]
      by (simp del: sc_step.simps)
  next
    case False
    then have t: "wf_tuple nl t" "attrs t \<notin> attrs ` set L" "fifo nl nr (L @ [t]) R es" using 2(3) by auto
    then show ?thesis using 2(2) [OF False, of lo ro] 2(4-6) k False side_ok_snoc [OF 2(4) t(1,2)]
        sc_step_state(1) [OF n 2(4,5) t(1), where i = i and lk = lk and rk = rk and p = p and lo = lo and ro = ro]
      by (simp del: sc_step.simps)
  qed
next
  case (3 nl nr L R t od es)
  have k: "through_key_t (rk t) = rk t" "keys_fit lk rk es" using 3(7) by (auto simp: keys_fit_def)
  show ?case
  proof (cases od)
    case True
    then obtain R1 where R: "R = t # R1" "fifo nl nr L R1 es" using 3(3) by (auto split: list.splits)
    then show ?thesis using 3(1) [OF True, of t R1 lo "Suc ro"] 3(4-6) k True side_ok_tl [of nr t R1]
        sc_step_state(4) [OF n 3(4,5) R(1), where i = i and lk = lk and rk = rk and p = p and lo = lo and ro = ro]
      by (simp del: sc_step.simps)
  next
    case False
    then have t: "wf_tuple nr t" "attrs t \<notin> attrs ` set R" "fifo nl nr L (R @ [t]) es" using 3(3) by auto
    then show ?thesis using 3(2) [OF False, of lo ro] 3(4-6) k False side_ok_snoc [OF 3(5) t(1,2)]
        sc_step_state(2) [OF n 3(4,5) t(1), where i = i and lk = lk and rk = rk and p = p and lo = lo and ro = ro]
      by (simp del: sc_step.simps)
  qed
next
  case (4 nl nr L R q es)
  show ?case using 4(1) [of lo ro] 4(2-6) by (simp add: keys_fit_def)
qed simp

lemma left_out_msets:
  "mset (news (left_out lk rk p t rs od)) = (if od then {#} else image_mset (concat_tuples t) {#r \<in># mset rs. rk r = lk t \<and> p t r#})"
  "mset (olds (left_out lk rk p t rs od)) = (if od then image_mset (concat_tuples t) {#r \<in># mset rs. rk r = lk t \<and> p t r#} else {#})"
  by (induction rs) (auto simp: left_out_def)

lemma right_out_msets:
  "mset (news (right_out lk rk p t ls od)) = (if od then {#} else image_mset (\<lambda>l. concat_tuples l t) {#l \<in># mset ls. lk l = rk t \<and> p l t#})"
  "mset (olds (right_out lk rk p t ls od)) = (if od then image_mset (\<lambda>l. concat_tuples l t) {#l \<in># mset ls. lk l = rk t \<and> p l t#} else {#})"
  by (induction ls) (auto simp: right_out_def)

text \<open>The publications of the instances together are those of the single join.\<close>

lemma join_out_sum:
  assumes "0 < n"
  shows "(\<Sum>i<n. mset (news (join_out n i lk rk p L R lo ro es))) = mset (news (join_out (Suc 0) 0 lk rk p L R lo ro es))"
    "(\<Sum>i<n. mset (olds (join_out n i lk rk p L R lo ro es))) = mset (olds (join_out (Suc 0) 0 lk rk p L R lo ro es))"
proof (induction es arbitrary: L R lo ro)
  case (Cons e es)
  note parts = left_out_msets right_out_msets sum.distrib share_partition [OF assms] share_one Cons.IH
  {
    case 1
    show ?case by (cases e; cases "case e of Data x _ \<Rightarrow> x"; cases "case e of Data _ od \<Rightarrow> od") (auto simp: parts split: event.splits)
  next
    case 2
    show ?case by (cases e; cases "case e of Data x _ \<Rightarrow> x"; cases "case e of Data _ od \<Rightarrow> od") (auto simp: parts split: event.splits)
  }
qed simp_all

text \<open>How the relational join grows and shrinks with its arguments.\<close>

lemma relational_join_left:
  "mset (relational_join lk rk p (l # L) R) = image_mset (concat_tuples l) {#r \<in># mset R. rk r = lk l \<and> p l r#} + mset (relational_join lk rk p L R)"
  by (simp add: relational_join_def eq_commute [of "rk _"])

lemma relational_join_left_snoc:
  "mset (relational_join lk rk p (L @ [l]) R) = mset (relational_join lk rk p L R) + image_mset (concat_tuples l) {#r \<in># mset R. rk r = lk l \<and> p l r#}"
  by (simp add: relational_join_def eq_commute [of "rk _"])

lemma relational_join_right:
  "mset (relational_join lk rk p L (r # R)) = image_mset (\<lambda>l. concat_tuples l r) {#l \<in># mset L. lk l = rk r \<and> p l r#} + mset (relational_join lk rk p L R)"
  by (induction L) (auto simp: relational_join_def)

lemma relational_join_right_snoc:
  "mset (relational_join lk rk p L (R @ [r])) = mset (relational_join lk rk p L R) + image_mset (\<lambda>l. concat_tuples l r) {#l \<in># mset L. lk l = rk r \<and> p l r#}"
  by (induction L) (auto simp: relational_join_def)

lemma join_out_incremental:
  "fifo nl nr L R es \<Longrightarrow> fifo_present L R es = (L', R') \<Longrightarrow>
   mset (relational_join lk rk p L R) + mset (news (join_out (Suc 0) 0 lk rk p L R lo ro es)) =
   mset (relational_join lk rk p L' R') + mset (olds (join_out (Suc 0) 0 lk rk p L R lo ro es))"
proof (induction nl nr L R es arbitrary: lo ro rule: fifo.induct)
  case (2 nl nr L R t od es)
  show ?case
  proof (cases od)
    case True
    then obtain L1 where "L = t # L1" "fifo nl nr L1 R es" using 2(3) by (auto split: list.splits)
    then show ?thesis using 2(1) [OF True, of t L1 "Suc lo" ro] 2(4) True
      by (simp add: left_out_msets share_one relational_join_left ac_simps)
  next
    case False
    then show ?thesis using 2(2) [OF False, of lo ro] 2(3,4)
      by (simp add: left_out_msets share_one relational_join_left_snoc ac_simps)
  qed
next
  case (3 nl nr L R t od es)
  show ?case
  proof (cases od)
    case True
    then obtain R1 where "R = t # R1" "fifo nl nr L R1 es" using 3(3) by (auto split: list.splits)
    then show ?thesis using 3(1) [OF True, of t R1 lo "Suc ro"] 3(4) True
      by (simp add: right_out_msets share_one relational_join_right ac_simps)
  next
    case False
    then show ?thesis using 3(2) [OF False, of lo ro] 3(3,4)
      by (simp add: right_out_msets share_one relational_join_right_snoc ac_simps)
  qed
next
  case (4 nl nr L R q es)
  then show ?case using 4(1) [of lo ro] by simp
qed simp

lemma SHJoin_new_state: "SHJoin_new lk rk p = sh_state lk rk p [] []"
  by (simp add: SHJoin_new_def sh_state_def)

lemma ScaleJoin_new_state: "ScaleJoin_new lk rk p (int i) (int n) = sc_state n i lk rk p [] [] 0 0"
  by (simp add: ScaleJoin_new_def sc_state_def)

lemmas init_states = SHJoin_new_state ScaleJoin_new_state

lemma side_ok_Nil: "side_ok n []"
  by (simp add: side_ok_def)

section \<open>Properties\<close>

text \<open>
  (C10) On distinct tuples that leave in arrival order the symmetric hash join maintains the relational join incrementally: for every
  interleaving of two such streams, no tuple arriving while an equal one is present, the results
  published as new, minus those published as outdated, are exactly the join of the tuples
  that are present on both sides (equal keys, predicate satisfied, attributes and null bits
  concatenated), and the hash tables hold exactly the present tuples.
\<close>

theorem shjoin_incremental:
  assumes "fifo nl nr [] [] es" and "fifo_present [] [] es = (L, R)"
  shows "\<exists>sh os. run sh_step (SHJoin_new lk rk p) es = Inr (sh, os) \<and>
    mset (news os) = mset (relational_join lk rk p L R) + mset (olds os) \<and>
    mLTable sh = map (\<lambda>t. (lk t, t)) L \<and> mRTable sh = map (\<lambda>t. (rk t, t)) R"
proof -
  have "run sh_step (SHJoin_new lk rk p) es = Inr (sh_state lk rk p L R, join_out (Suc 0) 0 lk rk p [] [] 0 0 es)"
    unfolding init_states by (rule sh_run_out [OF assms(1) side_ok_Nil side_ok_Nil assms(2)])
  moreover have "mset (relational_join lk rk p [] []) = {#}" by (simp add: relational_join_def)
  ultimately show ?thesis using join_out_incremental [OF assms, of lk rk p 0 0] by (simp add: sh_state_def keyed_def)
qed

text \<open>Two tuples with an integer attribute, for the examples.\<close>

abbreviation ex_tuple :: "byte \<Rightarrow> Tuple" where
  "ex_tuple b \<equiv> \<lparr>attrs = [SScalar [b]], mNulls = [False]\<rparr>"

theorem shjoin_incremental_witness:
  "\<exists>sh os. run sh_step (SHJoin_new (\<lambda>_. 0 :: int) (\<lambda>_. 0) (\<lambda>_ _. True))
       [Data (Inl (ex_tuple 1)) False, Data (Inr (ex_tuple 2)) False, Data (Inl (ex_tuple 3)) False, Data (Inl (ex_tuple 1)) True] = Inr (sh, os) \<and>
     mset (news os) = {#concat_tuples (ex_tuple 3) (ex_tuple 2)#} + mset (olds os)"
proof -
  let ?es = "[Data (Inl (ex_tuple 1)) False, Data (Inr (ex_tuple 2)) False, Data (Inl (ex_tuple 3)) False, Data (Inl (ex_tuple 1)) True]"
  have "fifo 1 1 [] [] ?es" and "fifo_present [] [] ?es = ([ex_tuple 3], [ex_tuple 2])" by (simp_all add: wf_tuple_def)
  from shjoin_incremental [OF this, of "\<lambda>_. 0 :: int" "\<lambda>_. 0" "\<lambda>_ _. True"] show ?thesis
    by (auto simp: relational_join_def)
qed

text \<open>
  (C15) ScaleJoin is disjoint-parallel: on streams of distinct tuples that leave in arrival order, with keys that survive the conversion
  to \<open>key_t\<close> (keys of \<open>2 ^ 31\<close> and more do not), \<open>n\<close> instances that all see both streams publish together exactly the results
  of one symmetric hash join, new and outdated, and each present tuple is stored by exactly
  one instance.
\<close>

theorem scalejoin_equals_shjoin:
  assumes "0 < n" and "n < 2 ^ 15" and "fifo nl nr [] [] es" and "keys_fit lk rk es"
  shows "\<exists>sh os. run sh_step (SHJoin_new lk rk p) es = Inr (sh, os) \<and>
    (\<exists>sc out. (\<forall>i<n. run sc_step (ScaleJoin_new lk rk p (int i) (int n)) es = Inr (sc i, out i)) \<and>
       (\<Sum>i<n. mset (news (out i))) = mset (news os) \<and> (\<Sum>i<n. mset (olds (out i))) = mset (olds os) \<and>
       (\<Sum>i<n. mset (mLTable (sc i))) = mset (mLTable sh) \<and> (\<Sum>i<n. mset (mRTable (sc i))) = mset (mRTable sh))"
proof -
  obtain L R where LR: "fifo_present [] [] es = (L, R)" by (cases "fifo_present [] [] es")
  have sh: "run sh_step (SHJoin_new lk rk p) es = Inr (sh_state lk rk p L R, join_out (Suc 0) 0 lk rk p [] [] 0 0 es)"
    unfolding init_states by (rule sh_run_out [OF assms(3) side_ok_Nil side_ok_Nil LR])
  let ?sc = "\<lambda>i. sc_state n i lk rk p L R (evicted_left es) (evicted_right es)"
  have sc: "run sc_step (ScaleJoin_new lk rk p (int i) (int n)) es = Inr (?sc i, join_out n i lk rk p [] [] 0 0 es)" for i
    unfolding init_states using sc_run_out [OF assms(1,2,3) side_ok_Nil side_ok_Nil LR assms(4), of i p 0 0] by simp
  have "(\<Sum>i<n. mset (mLTable (?sc i))) = mset (mLTable (sh_state lk rk p L R))"
    and "(\<Sum>i<n. mset (mRTable (?sc i))) = mset (mRTable (sh_state lk rk p L R))"
    using share_partition [OF assms(1), of "\<lambda>t. (lk t, t)" "\<lambda>_. True"] share_partition [OF assms(1), of "\<lambda>t. (rk t, t)" "\<lambda>_. True"]
    by (simp_all add: sc_state_def sh_state_def keyed_def)
  then show ?thesis using sh sc join_out_sum [OF assms(1), of lk rk p "[]" "[]" 0 0 es]
    by (intro exI conjI) auto
qed

theorem scalejoin_equals_shjoin_witness:
  "\<exists>sc out. (\<forall>i<2. run sc_step (ScaleJoin_new (\<lambda>_. 5) (\<lambda>_. 5) (\<lambda>_ _. True) (int i) (int 2))
       [Data (Inl (ex_tuple 1)) False, Data (Inr (ex_tuple 2)) False, Data (Inr (ex_tuple 3)) False] = Inr (sc i, out i)) \<and>
     (\<Sum>i<2. mset (news (out i))) = {#concat_tuples (ex_tuple 1) (ex_tuple 2), concat_tuples (ex_tuple 1) (ex_tuple 3)#}"
proof -
  let ?es = "[Data (Inl (ex_tuple 1)) False, Data (Inr (ex_tuple 2)) False, Data (Inr (ex_tuple 3)) False]"
  have k: "through_key_t 5 = 5" unfolding through_key_t_def by code_simp
  have f: "fifo 1 1 [] [] ?es" "keys_fit (\<lambda>_. 5) (\<lambda>_. 5) ?es" by (simp_all add: wf_tuple_def keys_fit_def k)
  have "(0 :: nat) < 2" "(2 :: nat) < 2 ^ 15" by simp_all
  from scalejoin_equals_shjoin [OF this f, of "\<lambda>_ _. True"]
  obtain sh os sc out where sh: "run sh_step (SHJoin_new (\<lambda>_. 5 :: key_type) (\<lambda>_. 5) (\<lambda>_ _. True)) ?es = Inr (sh, os)"
    and sc: "\<forall>i<2. run sc_step (ScaleJoin_new (\<lambda>_. 5) (\<lambda>_. 5) (\<lambda>_ _. True) (int i) (int 2)) ?es = Inr (sc i, out i)"
    and eq: "(\<Sum>i<2. mset (news (out i))) = mset (news os)" by blast
  have "news os = [concat_tuples (ex_tuple 1) (ex_tuple 2), concat_tuples (ex_tuple 1) (ex_tuple 3)]"
    using sh by (auto simp: op_defs SHJoin_new_def updateHashTable_def joinTuples_def joinElements_eq concat_tuples_def Let_def)
  then show ?thesis using sc eq by (intro exI conjI) auto
qed

text \<open>
  With equal tuples the symmetric hash join loses track: one outdated tuple erases all its
  duplicates from the hash table but publishes one outdated result per partner only.
\<close>

lemma shjoin_erases_duplicates:
  "\<exists>sh os. run sh_step (SHJoin_new (\<lambda>_. 0 :: int) (\<lambda>_. 0) (\<lambda>_ _. True))
      [Data (Inr (ex_tuple 2)) False, Data (Inl (ex_tuple 1)) False, Data (Inl (ex_tuple 1)) False, Data (Inl (ex_tuple 1)) True] = Inr (sh, os) \<and>
    mLTable sh = [] \<and> length (news os) = 2 \<and> length (olds os) = 1"
  by (simp add: op_defs SHJoin_new_def updateHashTable_def joinTuples_def joinElements_eq elementsEqual_iff Let_def)

text \<open>
  A key of \<open>2 ^ 31\<close> is stored under another key and never found again by ScaleJoin.
\<close>

lemma scalejoin_loses_large_keys: "through_key_t (2 ^ 31) \<noteq> 2 ^ 31"
  unfolding through_key_t_def by code_simp

end
