(* ===== verification/Stream_Ops.thy ===== *)
theory Stream_Ops
  imports Pf_Prelude
begin

text \<open>
  The element-wise operators (\<open>qop/Where.hpp\<close>, \<open>qop/Map.hpp\<close>, \<open>qop/StatefulMap.hpp\<close>,
  \<open>qop/Notify.hpp\<close>, \<open>qop/Merge.hpp\<close>, \<open>qop/Barrier.hpp\<close>), the batching operators of
  \<open>qop/Batcher.hpp\<close>, and the operators that cross threads: \<open>qop/Queue.hpp\<close> with its concurrent
  queue and \<open>qop/PartitionBy.hpp\<close>, as interleavings of producer and consumer steps.
\<close>

section \<open>Element-wise operators\<close>

fun where_step :: "('a \<Rightarrow> bool \<Rightarrow> bool) \<Rightarrow> (unit, 'a, 'a) opstep" where
  "where_step mFunc u (Data x outdated) = Inr (u, if mFunc x outdated then [Data x outdated] else [])"
| "where_step mFunc u (Punct p) = Inr (u, [Punct p])"

fun map_step :: "('a \<Rightarrow> bool \<Rightarrow> 'b) \<Rightarrow> (unit, 'a, 'b) opstep" where
  "map_step mFunc u (Data x outdated) = Inr (u, [Data (mFunc x outdated) outdated])"
| "map_step mFunc u (Punct p) = Inr (u, [Punct p])"

text \<open>
  The function of a stateful map may change the state object and publish punctuations
  through \<open>publishPunctuation\<close> before it returns.
\<close>

fun statefulMap_step :: "('a \<Rightarrow> bool \<Rightarrow> 's \<Rightarrow> 'b \<times> 's \<times> Punctuation list) \<Rightarrow> ('s, 'a, 'b) opstep" where
  "statefulMap_step mFunc mState (Data x outdated) =
     (case mFunc x outdated mState of (res, s1, ps) \<Rightarrow> Inr (s1, map Punct ps @ [Data res outdated]))"
| "statefulMap_step mFunc mState (Punct p) = Inr (mState, [Punct p])"

text \<open>The callbacks of \<open>Notify\<close> act on the state of the application.\<close>

fun notify_step :: "('a \<Rightarrow> bool \<Rightarrow> 's \<Rightarrow> 's) \<Rightarrow> (Punctuation \<Rightarrow> 's \<Rightarrow> 's) option \<Rightarrow> ('s, 'a, 'a) opstep" where
  "notify_step mFunc mPunctFunc s (Data x outdated) = Inr (mFunc x outdated s, [Data x outdated])"
| "notify_step mFunc mPunctFunc s (Punct p) =
     Inr (case mPunctFunc of None \<Rightarrow> s | Some pf \<Rightarrow> pf p s, [Punct p])"

fun merge_step :: "(unit, 'a, 'a) opstep" where
  "merge_step u (Data x outdated) = Inr (u, [Data x outdated])"
| "merge_step u (Punct p) = Inr (u, [Punct p])"

text \<open>
  The barrier evaluates its predicate at entry and after every wake-up; the list gives the
  values it sees. None: the thread still waits.
\<close>

fun barrier_process :: "bool list \<Rightarrow> 'a \<Rightarrow> bool \<Rightarrow> 'a event list option" where
  "barrier_process [] x outdated = None"
| "barrier_process (b # bs) x outdated = (if b then Some [Data x outdated] else barrier_process bs x outdated)"

lemma barrier_process_iff: "barrier_process bs x od = Some [Data x od] \<longleftrightarrow> True \<in> set bs"
  by (induction bs) auto

section \<open>Batches\<close>

definition SIZE_MAX :: "64 word" where
  "SIZE_MAX = - 1"

text \<open>
  \<open>bDflt\<close> is the default-constructed element that \<open>resize\<close> fills in; \<open>std::vector::resize\<close>
  throws \<open>length_error\<close> beyond \<open>max_size\<close>, which is \<open>PTRDIFF_MAX\<close> divided by the size of an
  element (16 bytes for a pointer and a flag).
\<close>

record 'a Batcher =
  mBatchSize :: "64 word"
  mPos :: "64 word"
  mBuf :: "('a \<times> bool) list"
  bDflt :: "'a \<times> bool"

definition vec_max_size :: nat where
  "vec_max_size = (2 ^ 63 - 1) div 16"

definition vec_resize :: "'b \<Rightarrow> nat \<Rightarrow> 'b list \<Rightarrow> 'b list res" where
  "vec_resize d n xs =
     (if n > vec_max_size then Inl LengthError else Inr (take n xs @ replicate (n - length xs) d))"

definition Batcher_new :: "'a \<times> bool \<Rightarrow> 64 word \<Rightarrow> 'a Batcher res" where
  "Batcher_new d batchSize =
     bind_res (vec_resize d (if batchSize \<noteq> SIZE_MAX then unat batchSize else 0) []) (\<lambda>buf.
       Inr \<lparr>mBatchSize = batchSize, mPos = 0, mBuf = buf, bDflt = d\<rparr>)"

definition publishBatch :: "'a Batcher \<Rightarrow> ('a Batcher \<times> ('a \<times> bool) list event list) res" where
  "publishBatch b =
     bind_res (vec_resize (bDflt b) (unat (mBatchSize b)) []) (\<lambda>buf.
       Inr (b\<lparr>mPos := 0, mBuf := buf\<rparr>, [Data (mBuf b) False]))"

definition batcher_processDataElement :: "'a Batcher \<Rightarrow> 'a \<Rightarrow> bool \<Rightarrow> ('a Batcher \<times> ('a \<times> bool) list event list) res" where
  "batcher_processDataElement b x outdated =
     bind_res (if mBatchSize b = SIZE_MAX
               then bind_res (vec_resize (bDflt b) (unat (mPos b + 1)) (mBuf b)) (\<lambda>buf. Inr (b\<lparr>mBuf := buf\<rparr>))
               else Inr b) (\<lambda>b1.
       if unat (mPos b1) \<ge> length (mBuf b1) then Inl OutOfBounds
       else let b2 = b1\<lparr>mBuf := (mBuf b1)[unat (mPos b1) := (x, outdated)], mPos := mPos b1 + 1\<rparr>
            in if mPos b2 = mBatchSize b2 then publishBatch b2 else Inr (b2, []))"

definition batcher_processPunctuation :: "'a Batcher \<Rightarrow> Punctuation \<Rightarrow> ('a Batcher \<times> ('a \<times> bool) list event list) res" where
  "batcher_processPunctuation b p =
     bind_res (if mBatchSize b = SIZE_MAX then publishBatch b else Inr (b, [])) (\<lambda>(b1, os).
       Inr (b1, os @ [Punct p]))"

fun batcher_step :: "('a Batcher, 'a, ('a \<times> bool) list) opstep" where
  "batcher_step b (Data x outdated) = batcher_processDataElement b x outdated"
| "batcher_step b (Punct p) = batcher_processPunctuation b p"

fun unbatcher_step :: "(unit, ('a \<times> bool) list, 'a) opstep" where
  "unbatcher_step u (Data vec outdated) = Inr (u, map (\<lambda>(x, od). Data x od) vec)"
| "unbatcher_step u (Punct p) = Inr (u, [Punct p])"

lemmas batcher_handlers [op_defs] =
  publishBatch_def batcher_processDataElement_def batcher_processPunctuation_def vec_resize_def

text \<open>The state of a batcher of size \<open>n\<close> that has seen \<open>us\<close>.\<close>

lemma batcher_step_room:
  assumes "mBatchSize b = of_nat n" and "0 < n" and "n \<le> vec_max_size" and "mPos b = of_nat k" and "k < n" and "length (mBuf b) = n"
  shows "batcher_step b (Data x od) =
    (if Suc k = n then Inr (b\<lparr>mPos := 0, mBuf := replicate n (bDflt b)\<rparr>, [Data ((mBuf b)[k := (x, od)]) False])
     else Inr (b\<lparr>mPos := of_nat (Suc k), mBuf := (mBuf b)[k := (x, od)]\<rparr>, []))"
proof -
  have n: "unat (of_nat n :: 64 word) = n" "unat (of_nat k :: 64 word) = k" "unat (of_nat (Suc k) :: 64 word) = Suc k"
    using assms(3,5) unfolding vec_max_size_def unat_of_nat by simp_all
  have "(of_nat n :: 64 word) \<noteq> SIZE_MAX"
  proof
    assume "(of_nat n :: 64 word) = SIZE_MAX"
    then have "n = unat (SIZE_MAX :: 64 word)" using n(1) by simp
    then show False using assms(3) by (simp add: SIZE_MAX_def vec_max_size_def unsigned_minus_1_eq_mask mask_eq_exp_minus_1)
  qed
  moreover have "(of_nat k + 1 :: 64 word) = of_nat n \<longleftrightarrow> Suc k = n"
    using n by (metis add.commute of_nat_Suc word_unat_eq_iff)
  ultimately show ?thesis using assms n by (simp add: op_defs Let_def add.commute)
qed

abbreviation data_events :: "('a \<times> bool) list \<Rightarrow> 'a event list" where
  "data_events us \<equiv> map (\<lambda>(x, od). Data x od) us"

definition batcher_state :: "nat \<Rightarrow> 'a \<times> bool \<Rightarrow> ('a \<times> bool) list \<Rightarrow> 'a Batcher" where
  "batcher_state n d us =
     \<lparr>mBatchSize = of_nat n, mPos = of_nat (length us mod n),
      mBuf = drop (length us div n * n) us @ replicate (n - length us mod n) d, bDflt = d\<rparr>"

definition batches :: "nat \<Rightarrow> 'b list \<Rightarrow> 'b list list" where
  "batches n us = map (\<lambda>k. take n (drop (k * n) us)) [0..<length us div n]"

lemma div_mult_le: "k < l div n \<Longrightarrow> k * n + n \<le> (l :: nat)"
proof -
  assume "k < l div n"
  then have "Suc k * n \<le> l div n * n" by (intro mult_le_mono1) simp
  also have "\<dots> \<le> l" by simp
  finally show ?thesis by simp
qed

lemma batches_snoc:
  assumes "0 < n"
  shows "batches n (us @ [u]) = batches n us @
    (if Suc (length us) mod n = 0 then [drop (length us div n * n) us @ [u]] else [])"
proof -
  have same: "map (\<lambda>k. take n (drop (k * n) (us @ [u]))) [0..<length us div n] = batches n us"
    unfolding batches_def
  proof (rule map_cong [OF refl])
    fix k assume "k \<in> set [0..<length us div n]"
    then have "k * n + n \<le> length us" using div_mult_le [of k "length us" n] by simp
    then show "take n (drop (k * n) (us @ [u])) = take n (drop (k * n) us)" by simp
  qed
  have le: "length us div n * n \<le> length us" by simp
  show ?thesis
  proof (cases "Suc (length us) mod n = 0")
    case True
    then have d: "Suc (length us) div n = Suc (length us div n)" by (simp add: div_Suc)
    have "Suc (length us) = Suc (length us div n) * n" using True d by (metis add.right_neutral div_mult_mod_eq)
    then have "Suc (length us - length us div n * n) = n" using le by (metis Suc_diff_le diff_add_inverse2 mult_Suc)
    then have "length (drop (length us div n * n) us @ [u]) = n" by simp
    then show ?thesis using same d True le unfolding batches_def [of n "us @ [u]"] by simp
  next
    case False
    then have "Suc (length us) div n = length us div n" by (simp add: div_Suc)
    then show ?thesis using same False unfolding batches_def [of n "us @ [u]"] by simp
  qed
qed

lemma batches_concat: "0 < n \<Longrightarrow> concat (batches n us) = take (length us div n * n) us"
proof (induction us rule: rev_induct)
  case (snoc u us)
  have le: "length us div n * n \<le> length us" by simp
  show ?case
  proof (cases "Suc (length us) mod n = 0")
    case True
    then have d: "Suc (length us) div n = Suc (length us div n)" by (simp add: div_Suc)
    have "Suc (length us) = Suc (length us div n) * n" using True d by (metis add.right_neutral div_mult_mod_eq)
    then show ?thesis using snoc True d by (simp add: batches_snoc)
  next
    case False
    then have "Suc (length us) div n = length us div n" by (simp add: div_Suc)
    then show ?thesis using snoc False le by (simp add: batches_snoc)
  qed
qed (simp add: batches_def)

lemma batcher_run:
  assumes n: "0 < n" "n \<le> vec_max_size"
  shows "run batcher_step (batcher_state n d []) (data_events us) =
    Inr (batcher_state n d us, map (\<lambda>b. Data b False) (batches n us))"
proof (induction us rule: rev_induct)
  case Nil
  then show ?case by (simp add: batches_def)
next
  case (snoc u us)
  obtain x od where u: "u = (x, od)" by (cases u)
  let ?b = "batcher_state n d us" and ?k = "length us mod n" and ?q = "length us div n * n"
  have len: "length (drop ?q us) = ?k" by (simp add: minus_div_mult_eq_mod)
  then have buf: "(mBuf ?b)[?k := u] = drop ?q us @ u # replicate (n - Suc ?k) d"
  proof -
    have "n - ?k = Suc (n - Suc ?k)" using n(1) by (simp add: Suc_diff_Suc)
    then show ?thesis using len by (simp add: batcher_state_def list_update_append)
  qed
  have step: "batcher_step ?b (Data x od) =
    (if Suc ?k = n then Inr (?b\<lparr>mPos := 0, mBuf := replicate n d\<rparr>, [Data ((mBuf ?b)[?k := u]) False])
     else Inr (?b\<lparr>mPos := of_nat (Suc ?k), mBuf := (mBuf ?b)[?k := u]\<rparr>, []))"
    using batcher_step_room [of ?b n ?k x od] n len unfolding u by (simp add: batcher_state_def)
  show ?case
  proof (cases "Suc ?k = n")
    case True
    then have m: "Suc (length us) mod n = 0" by (simp add: mod_Suc)
    then have d: "Suc (length us) div n * n = Suc (length us)" by (metis add.right_neutral div_mult_mod_eq)
    show ?thesis using snoc step True m d buf n(1)
      by (simp add: u run_append batches_snoc) (simp add: batcher_state_def)
  next
    case False
    then have m: "Suc (length us) mod n = Suc ?k" by (simp add: mod_Suc)
    then have d: "Suc (length us) div n = length us div n" by (simp add: div_Suc)
    show ?thesis using snoc step False m d buf n(1)
      by (simp add: u run_append batches_snoc) (simp add: batcher_state_def)
  qed
qed

lemma unbatcher_run: "run unbatcher_step () (map (\<lambda>b. Data b False) bs) = Inr ((), data_events (concat bs))"
  by (induction bs) simp_all

section \<open>Queues between threads\<close>

text \<open>
  An item is the tuple the operator pushes: the type of a punctuation (or \<open>PNone\<close>), the
  element (None for \<open>nullptr\<close>) and the outdated flag.
\<close>

type_synonym 'a qitem = "PType \<times> 'a option \<times> bool"

record 'a ConcurrentQueue =
  qItems :: "'a qitem list"
  qStopped :: bool

definition ConcurrentQueue_new :: "'a ConcurrentQueue" where
  "ConcurrentQueue_new = \<lparr>qItems = [], qStopped = False\<rparr>"

definition cq_push :: "'a qitem \<Rightarrow> 'a ConcurrentQueue \<Rightarrow> 'a ConcurrentQueue" where
  "cq_push item q = q\<lparr>qItems := qItems q @ [item]\<rparr>"

text \<open>\<open>T pop()\<close> and \<open>bool pop(T&)\<close>; the outer option is None while the caller waits.\<close>

definition cq_pop_wait :: "'a ConcurrentQueue \<Rightarrow> ('a qitem \<times> 'a ConcurrentQueue) option" where
  "cq_pop_wait q = (case qItems q of [] \<Rightarrow> None | item # items \<Rightarrow> Some (item, q\<lparr>qItems := items\<rparr>))"

definition cq_pop :: "'a ConcurrentQueue \<Rightarrow> ('a qitem option \<times> 'a ConcurrentQueue) option" where
  "cq_pop q =
     (if qStopped q then Some (None, q)
      else case qItems q of [] \<Rightarrow> None | item # items \<Rightarrow> Some (Some item, q\<lparr>qItems := items\<rparr>))"

definition cq_stop :: "'a ConcurrentQueue \<Rightarrow> 'a ConcurrentQueue" where
  "cq_stop q = q\<lparr>qStopped := True\<rparr>"

text \<open>The handlers of the operator on the producer side, and the one of the dequeuing thread.\<close>

fun queue_process :: "'a ConcurrentQueue \<Rightarrow> 'a event \<Rightarrow> 'a ConcurrentQueue" where
  "queue_process q (Data x outdated) = cq_push (PNone, Some x, outdated) q"
| "queue_process q (Punct p) = cq_push (mPtype p, None, False) q"

fun item_event :: "'a qitem \<Rightarrow> 'a option event" where
  "item_event (pt, x, outdated) = (if pt = PNone then Data x outdated else Punct (mkPunctuation pt))"

definition dequeueTuple :: "'a ConcurrentQueue \<Rightarrow> ('a ConcurrentQueue \<times> 'a option event list) option" where
  "dequeueTuple q =
     (case cq_pop q of
        None \<Rightarrow> None
      | Some (None, q1) \<Rightarrow> Some (q1, [])
      | Some (Some item, q1) \<Rightarrow> Some (q1, [item_event item]))"

text \<open>
  Interleavings: the publishing thread pushes an event, the thread of the notifier dequeues
  one, the destructor stops the queue. \<open>qIn\<close> and \<open>qOut\<close> record what has arrived and what
  has been published.
\<close>

record 'a QueueSys =
  qState :: "'a ConcurrentQueue"
  qIn :: "'a event list"
  qOut :: "'a option event list"

inductive queue_step :: "'a QueueSys \<Rightarrow> 'a QueueSys \<Rightarrow> bool" where
  receive: "queue_step s (s\<lparr>qState := queue_process (qState s) e, qIn := qIn s @ [e]\<rparr>)"
| dequeue: "dequeueTuple (qState s) = Some (q, os) \<Longrightarrow> queue_step s (s\<lparr>qState := q, qOut := qOut s @ os\<rparr>)"
| stop: "queue_step s (s\<lparr>qState := cq_stop (qState s)\<rparr>)"

definition queue_init :: "'a QueueSys" where
  "queue_init = \<lparr>qState = ConcurrentQueue_new, qIn = [], qOut = []\<rparr>"

text \<open>What an event becomes behind a queue.\<close>

fun behind_queue :: "'a event \<Rightarrow> 'a option event" where
  "behind_queue (Data x outdated) = Data (Some x) outdated"
| "behind_queue (Punct p) = (if mPtype p = PNone then Data None False else Punct (mkPunctuation (mPtype p)))"

lemma item_event_process: "map item_event (qItems (queue_process q e)) = map item_event (qItems q) @ [behind_queue e]"
  by (cases e) (simp_all add: cq_push_def)

lemma stopped_process [simp]: "qStopped (queue_process q e) = qStopped q"
  by (cases e) (simp_all add: cq_push_def)

lemma dequeueTuple_items:
  "dequeueTuple q = Some (q1, os) \<Longrightarrow> os @ map item_event (qItems q1) = map item_event (qItems q)"
  by (auto simp: dequeueTuple_def cq_pop_def split: if_splits list.splits option.splits)

definition queue_inv :: "'a QueueSys \<Rightarrow> bool" where
  "queue_inv s \<longleftrightarrow> qOut s @ map item_event (qItems (qState s)) = map behind_queue (qIn s)"

lemma queue_step_inv: "queue_step s s' \<Longrightarrow> queue_inv s \<Longrightarrow> queue_inv s'"
proof (induction rule: queue_step.induct)
  case (receive s e)
  then show ?case by (simp add: queue_inv_def item_event_process append_assoc [symmetric] del: append_assoc)
next
  case (dequeue s q os)
  then show ?case using dequeueTuple_items [OF dequeue(1)] by (simp add: queue_inv_def)
next
  case (stop s)
  then show ?case by (simp add: queue_inv_def cq_stop_def)
qed

lemma queue_reach_inv: "queue_step\<^sup>*\<^sup>* queue_init s \<Longrightarrow> queue_inv s"
  by (induction rule: rtranclp_induct)
    (auto simp: queue_inv_def queue_init_def ConcurrentQueue_new_def intro: queue_step_inv [unfolded queue_inv_def])

section \<open>Partitioning\<close>

record 'a PartitionBy =
  mPartitions :: "nat \<rightharpoonup> 'a ConcurrentQueue"
  mFunc :: "'a \<Rightarrow> nat"
  mNumPartitions :: nat

definition PartitionBy_new :: "('a \<Rightarrow> nat) \<Rightarrow> nat \<Rightarrow> 'a PartitionBy" where
  "PartitionBy_new pFun numPartitions = \<lparr>mPartitions = (\<lambda>_. None), mFunc = pFun, mNumPartitions = numPartitions\<rparr>"

text \<open>\<open>insert\<close> keeps an existing queue of the same partition.\<close>

definition connectChannelsForPartition :: "nat \<Rightarrow> 'a PartitionBy \<Rightarrow> 'a PartitionBy res" where
  "connectChannelsForPartition i pb =
     (if i < mNumPartitions pb
      then Inr (case mPartitions pb i of
                  Some _ \<Rightarrow> pb
                | None \<Rightarrow> pb\<lparr>mPartitions := (mPartitions pb)(i \<mapsto> ConcurrentQueue_new)\<rparr>)
      else Inl AssertFailed)"

fun partition_process :: "'a PartitionBy \<Rightarrow> 'a event \<Rightarrow> 'a PartitionBy" where
  "partition_process pb (Data x outdated) =
     (case mPartitions pb (mFunc pb x) of
        Some q \<Rightarrow> pb\<lparr>mPartitions := (mPartitions pb)(mFunc pb x \<mapsto> queue_process q (Data x outdated))\<rparr>
      | None \<Rightarrow> pb)"
| "partition_process pb (Punct p) =
     pb\<lparr>mPartitions := (\<lambda>i. map_option (\<lambda>q. queue_process q (Punct p)) (mPartitions pb i))\<rparr>"

text \<open>
  A partitioned part of a topology whose branches are merged again: one thread feeds the
  partitioning operator, and for each partition one thread dequeues and publishes to the
  merge operator.
\<close>

record 'a PartSys =
  pbOp :: "'a PartitionBy"
  pbIn :: "'a event list"
  pbOut :: "'a option event list"

inductive part_step :: "'a PartSys \<Rightarrow> 'a PartSys \<Rightarrow> bool" where
  receive: "part_step s (s\<lparr>pbOp := partition_process (pbOp s) e, pbIn := pbIn s @ [e]\<rparr>)"
| dequeue: "mPartitions (pbOp s) i = Some q \<Longrightarrow> dequeueTuple q = Some (q1, os) \<Longrightarrow> run merge_step () os = Inr ((), ms) \<Longrightarrow>
     part_step s (s\<lparr>pbOp := (pbOp s)\<lparr>mPartitions := (mPartitions (pbOp s))(i \<mapsto> q1)\<rparr>, pbOut := pbOut s @ ms\<rparr>)"

definition part_init :: "('a \<Rightarrow> nat) \<Rightarrow> nat \<Rightarrow> 'a PartSys" where
  "part_init f n = \<lparr>pbOp = (PartitionBy_new f n)\<lparr>mPartitions := (\<lambda>i. if i < n then Some ConcurrentQueue_new else None)\<rparr>,
                    pbIn = [], pbOut = []\<rparr>"

lemma part_init_connects:
  "fold (\<lambda>i r. bind_res r (connectChannelsForPartition i)) [0..<n] (Inr (PartitionBy_new f n)) = Inr (pbOp (part_init f n))"
proof -
  have "fold (\<lambda>i r. bind_res r (connectChannelsForPartition i)) [0..<k] (Inr (PartitionBy_new f n))
      = Inr ((PartitionBy_new f n)\<lparr>mPartitions := (\<lambda>i. if i < k then Some ConcurrentQueue_new else None)\<rparr>)" if "k \<le> n" for k
    using that by (induction k) (auto simp: PartitionBy_new_def connectChannelsForPartition_def less_Suc_eq fun_eq_iff)
  then show ?thesis by (simp add: part_init_def)
qed

text \<open>The tuples of partition \<open>i\<close> among the received and among the published events.\<close>

fun in_data :: "('a \<Rightarrow> nat) \<Rightarrow> nat \<Rightarrow> 'a event list \<Rightarrow> ('a \<times> bool) list" where
  "in_data f i [] = []"
| "in_data f i (Data x od # es) = (if f x = i then (x, od) # in_data f i es else in_data f i es)"
| "in_data f i (Punct p # es) = in_data f i es"

fun out_data :: "('a \<Rightarrow> nat) \<Rightarrow> nat \<Rightarrow> 'a option event list \<Rightarrow> ('a \<times> bool) list" where
  "out_data f i [] = []"
| "out_data f i (Data (Some x) od # es) = (if f x = i then (x, od) # out_data f i es else out_data f i es)"
| "out_data f i (e # es) = out_data f i es"

lemma in_data_append [simp]: "in_data f i (es @ fs) = in_data f i es @ in_data f i fs"
  by (induction f i es rule: in_data.induct) auto

lemma out_data_append [simp]: "out_data f i (es @ fs) = out_data f i es @ out_data f i fs"
  by (induction f i es rule: out_data.induct) auto

lemma merge_run: "run merge_step () es = Inr ((), es)"
proof (induction es)
  case (Cons e es)
  then show ?case by (cases e) simp_all
qed simp

text \<open>Every tuple in the queue of a partition belongs to it.\<close>

definition items_of :: "('a \<Rightarrow> nat) \<Rightarrow> nat \<Rightarrow> 'a qitem list \<Rightarrow> bool" where
  "items_of f i its \<longleftrightarrow> (\<forall>x. (\<exists>pt od. (pt, Some x, od) \<in> set its) \<longrightarrow> f x = i)"

lemma out_data_items: "items_of f i its \<Longrightarrow> i \<noteq> j \<Longrightarrow> out_data f j (map item_event its) = []"
proof (induction its)
  case (Cons it its)
  obtain pt d od where it: "it = (pt, d, od)" by (cases it)
  have "items_of f i its" using Cons.prems(1) unfolding items_of_def by auto
  moreover have "f x = i" if "d = Some x" for x using Cons.prems(1) that it unfolding items_of_def by auto
  ultimately show ?case using Cons.IH Cons.prems(2) it by (cases d) auto
qed simp

definition part_inv :: "('a \<Rightarrow> nat) \<Rightarrow> nat \<Rightarrow> 'a PartSys \<Rightarrow> bool" where
  "part_inv f n s \<longleftrightarrow> mFunc (pbOp s) = f \<and>
     (\<forall>i. if i < n
          then \<exists>q. mPartitions (pbOp s) i = Some q \<and> items_of f i (qItems q) \<and>
                 out_data f i (pbOut s) @ out_data f i (map item_event (qItems q)) = in_data f i (pbIn s)
          else mPartitions (pbOp s) i = None)"

lemma items_of_process: "items_of f i (qItems (queue_process q e)) \<longleftrightarrow> items_of f i (qItems q) \<and> (\<forall>x od. e = Data x od \<longrightarrow> f x = i)"
  by (cases e) (auto simp: items_of_def cq_push_def)

lemma out_data_process:
  "out_data f i (map item_event (qItems (queue_process q e))) = out_data f i (map item_event (qItems q)) @ in_data f i [e]"
  by (cases e) (auto simp: cq_push_def)

lemma part_receive_inv:
  assumes inv: "part_inv f n s"
  shows "part_inv f n (s\<lparr>pbOp := partition_process (pbOp s) e, pbIn := pbIn s @ [e]\<rparr>)"
proof -
  let ?s = "s\<lparr>pbOp := partition_process (pbOp s) e, pbIn := pbIn s @ [e]\<rparr>"
  have f: "mFunc (pbOp s) = f" using inv by (simp add: part_inv_def)
  have part: "mPartitions (partition_process (pbOp s) e) i =
      map_option (\<lambda>q. if \<forall>x od. e = Data x od \<longrightarrow> f x = i then queue_process q e else q) (mPartitions (pbOp s) i)" for i
    by (cases e; cases "mPartitions (pbOp s) i") (auto simp: f split: option.splits)
  have "mFunc (pbOp ?s) = f" using f by (cases e) (auto split: option.splits)
  moreover have "if i < n
      then \<exists>q. mPartitions (pbOp ?s) i = Some q \<and> items_of f i (qItems q) \<and>
             out_data f i (pbOut ?s) @ out_data f i (map item_event (qItems q)) = in_data f i (pbIn ?s)
      else mPartitions (pbOp ?s) i = None" for i
  proof (cases "i < n")
    case True
    then obtain q where q: "mPartitions (pbOp s) i = Some q" "items_of f i (qItems q)"
      "out_data f i (pbOut s) @ out_data f i (map item_event (qItems q)) = in_data f i (pbIn s)"
      using inv unfolding part_inv_def by meson
    show ?thesis
    proof (cases "\<forall>x od. e = Data x od \<longrightarrow> f x = i")
      case e: True
      then show ?thesis using True q part [of i] by (simp add: items_of_process out_data_process flip: append_assoc)
    next
      case e: False
      then have "in_data f i [e] = []" by (cases e) auto
      moreover have "mPartitions (partition_process (pbOp s) e) i = Some q" using part [of i, unfolded if_not_P [OF e]] q(1) by simp
      ultimately show ?thesis using True q by simp
    qed
  next
    case False
    then have "mPartitions (pbOp s) i = None" using inv unfolding part_inv_def by meson
    then show ?thesis using False part [of i] by simp
  qed
  ultimately show ?thesis unfolding part_inv_def by blast
qed

lemma dequeue_subset: "dequeueTuple q = Some (q1, os) \<Longrightarrow> items_of f i (qItems q) \<Longrightarrow> items_of f i (qItems q1)"
  by (auto simp: dequeueTuple_def cq_pop_def split: if_splits list.splits option.splits)
    (unfold items_of_def, auto)

lemma dequeue_out_data:
  "dequeueTuple q = Some (q1, os) \<Longrightarrow> out_data f j os @ out_data f j (map item_event (qItems q1)) = out_data f j (map item_event (qItems q))"
  using dequeueTuple_items [of q q1 os] by (metis out_data_append)

lemma part_dequeue_inv:
  assumes inv: "part_inv f n s" and q: "mPartitions (pbOp s) i = Some q" and d: "dequeueTuple q = Some (q1, os)"
  shows "part_inv f n (s\<lparr>pbOp := (pbOp s)\<lparr>mPartitions := (mPartitions (pbOp s))(i \<mapsto> q1)\<rparr>, pbOut := pbOut s @ os\<rparr>)"
proof -
  have i: "i < n" using inv q unfolding part_inv_def by (metis option.distinct(1))
  have own: "items_of f i (qItems q)" "out_data f i (pbOut s) @ out_data f i (map item_event (qItems q)) = in_data f i (pbIn s)"
    using inv i q unfolding part_inv_def by (metis option.inject)+
  have other: "out_data f j os = []" if "j \<noteq> i" for j
    using dequeue_out_data [OF d, of f j] out_data_items [OF own(1), of j] that by simp
  let ?s = "s\<lparr>pbOp := (pbOp s)\<lparr>mPartitions := (mPartitions (pbOp s))(i \<mapsto> q1)\<rparr>, pbOut := pbOut s @ os\<rparr>"
  have "if j < n
      then \<exists>q'. mPartitions (pbOp ?s) j = Some q' \<and> items_of f j (qItems q') \<and>
             out_data f j (pbOut ?s) @ out_data f j (map item_event (qItems q')) = in_data f j (pbIn ?s)
      else mPartitions (pbOp ?s) j = None" for j
  proof (cases "j = i")
    case True
    then show ?thesis using i own dequeue_subset [OF d own(1)] dequeue_out_data [OF d, of f i] by simp
  next
    case False
    then show ?thesis using inv other [OF False] unfolding part_inv_def by simp
  qed
  moreover have "mFunc (pbOp ?s) = f" using inv by (simp add: part_inv_def)
  ultimately show ?thesis unfolding part_inv_def by blast
qed

lemma part_step_inv: "part_step s s' \<Longrightarrow> part_inv f n s \<Longrightarrow> part_inv f n s'"
proof (induction rule: part_step.induct)
  case (dequeue s i q q1 os ms)
  then show ?case using part_dequeue_inv [OF dequeue(4,1,2)] by (simp add: merge_run)
qed (rule part_receive_inv)

lemma part_init_inv: "part_inv f n (part_init f n)"
  by (simp add: part_inv_def part_init_def PartitionBy_new_def ConcurrentQueue_new_def items_of_def)

lemma part_reach_inv: "part_step\<^sup>*\<^sup>* (part_init f n) s \<Longrightarrow> part_inv f n s"
  by (induction rule: rtranclp_induct) (auto intro: part_init_inv part_step_inv)

section \<open>Properties\<close>

text \<open>
  Batching: a batcher of size \<open>n > 0\<close> followed by an unbatcher hands on the elements
  with their outdated flags unchanged and in order, in groups of \<open>n\<close>; the at most \<open>n - 1\<close>
  youngest elements are still in its buffer.
\<close>

theorem batch_roundtrip:
  assumes "0 < n" and "n \<le> vec_max_size"
  shows "\<exists>b b'. Batcher_new d (of_nat n) = Inr b \<and>
    run (compose_step batcher_step unbatcher_step) (b, ()) (map (\<lambda>(x, od). Data x od) us) =
      Inr ((b', ()), map (\<lambda>(x, od). Data x od) (take (length us div n * n) us)) \<and>
    take (unat (mPos b')) (mBuf b') = drop (length us div n * n) us \<and> unat (mPos b') < n"
proof -
  have n: "unat (of_nat n :: 64 word) = n" "unat (of_nat (length us mod n) :: 64 word) = length us mod n"
    using assms(2) mod_less_divisor [OF assms(1), of "length us"] unfolding vec_max_size_def unat_of_nat by simp_all
  have "(of_nat n :: 64 word) \<noteq> SIZE_MAX"
  proof
    assume "(of_nat n :: 64 word) = SIZE_MAX"
    then have "n = unat (SIZE_MAX :: 64 word)" using n(1) by simp
    then show False using assms(2) by (simp add: SIZE_MAX_def vec_max_size_def unsigned_minus_1_eq_mask mask_eq_exp_minus_1)
  qed
  then have new: "Batcher_new d (of_nat n) = Inr (batcher_state n d [])"
    using n(1) assms(2) by (simp add: Batcher_new_def vec_resize_def batcher_state_def)
  have r: "run (compose_step batcher_step unbatcher_step) (batcher_state n d [], ()) (data_events us) =
      Inr ((batcher_state n d us, ()), data_events (take (length us div n * n) us))"
    using run_compose [OF batcher_run [OF assms, of d us] unbatcher_run] batches_concat [OF assms(1), of us] by simp
  have "take (length us mod n) (mBuf (batcher_state n d us)) = drop (length us div n * n) us"
    by (simp add: batcher_state_def minus_div_mult_eq_mod)
  then show ?thesis using new r n(2) assms(1)
    by (intro exI [of _ "batcher_state n d []"] exI [of _ "batcher_state n d us"]) (simp add: batcher_state_def)
qed

theorem batch_roundtrip_witness:
  "\<exists>b b'. Batcher_new (0 :: int, False) 2 = Inr b \<and>
    run (compose_step batcher_step unbatcher_step) (b, ()) [Data 1 False, Data 2 True, Data 3 False] =
      Inr ((b', ()), [Data 1 False, Data 2 True]) \<and> take (unat (mPos b')) (mBuf b') = [(3, False)]"
proof -
  have "(0 :: nat) < 2" "2 \<le> vec_max_size" by (simp_all add: vec_max_size_def)
  from batch_roundtrip [OF this, of "(0 :: int, False)" "[(1, False), (2, True), (3, False)]"] show ?thesis by fastforce
qed

text \<open>
  The boundary sizes fail: size 0 writes out of bounds at the first tuple, and with the
  default size the first punctuation makes \<open>resize\<close> throw (after the batch is published).
\<close>

lemma batcher_boundary_sizes:
  "\<exists>b. Batcher_new d 0 = Inr b \<and> batcher_step b (Data x od) = Inl OutOfBounds"
  "\<exists>b. Batcher_new d SIZE_MAX = Inr b \<and> batcher_step b (Punct p) = Inl LengthError"
proof -
  show "\<exists>b. Batcher_new d 0 = Inr b \<and> batcher_step b (Data x od) = Inl OutOfBounds"
    by (simp add: Batcher_new_def op_defs SIZE_MAX_def)
  have "vec_max_size < unat SIZE_MAX"
    by (simp add: SIZE_MAX_def vec_max_size_def unsigned_minus_1_eq_mask mask_eq_exp_minus_1)
  then show "\<exists>b. Batcher_new d SIZE_MAX = Inr b \<and> batcher_step b (Punct p) = Inl LengthError"
    by (simp add: Batcher_new_def op_defs)
qed

text \<open>
  (C36) The queue between two threads is first in first out and loses and duplicates nothing:
  under every interleaving of the publishing and the dequeuing thread, what has been published
  followed by what is in the queue is the received sequence, data and punctuations in their
  order; while events wait and the queue is not stopped, the dequeuing thread can publish the
  next one. Punctuations arrive with their type only: their user data is dropped.
\<close>

theorem queue_fifo:
  assumes "queue_step\<^sup>*\<^sup>* queue_init s"
  shows "qOut s @ map item_event (qItems (qState s)) = map behind_queue (qIn s) \<and>
    (\<forall>it its. qItems (qState s) = it # its \<longrightarrow> \<not> qStopped (qState s) \<longrightarrow>
       (\<exists>s'. queue_step s s' \<and> qOut s' = qOut s @ [item_event it] \<and> qItems (qState s') = its))"
proof (intro conjI allI impI)
  show "qOut s @ map item_event (qItems (qState s)) = map behind_queue (qIn s)"
    using queue_reach_inv [OF assms] by (simp add: queue_inv_def)
  fix it its assume q: "qItems (qState s) = it # its" "\<not> qStopped (qState s)"
  then have "dequeueTuple (qState s) = Some ((qState s)\<lparr>qItems := its\<rparr>, [item_event it])"
    by (simp add: dequeueTuple_def cq_pop_def)
  then show "\<exists>s'. queue_step s s' \<and> qOut s' = qOut s @ [item_event it] \<and> qItems (qState s') = its"
    using queue_step.dequeue by fastforce
qed

theorem queue_fifo_witness:
  "\<exists>s. queue_step\<^sup>*\<^sup>* queue_init s \<and> qOut s @ map item_event (qItems (qState s)) = [Data (Some (7 :: int)) False, Punct (mkPunctuation TxCommit)]"
proof -
  let ?p = "mkPunctuationVal TxCommit 3"
  let ?s1 = "queue_init\<lparr>qState := queue_process (qState queue_init) (Data 7 False), qIn := qIn queue_init @ [Data 7 False]\<rparr>"
  let ?s2 = "?s1\<lparr>qState := queue_process (qState ?s1) (Punct ?p), qIn := qIn ?s1 @ [Punct ?p]\<rparr>"
  have r: "queue_step\<^sup>*\<^sup>* queue_init ?s2"
    by (rule rtranclp.rtrancl_into_rtrancl [OF r_into_rtranclp [of queue_step]]) (rule queue_step.receive)+
  from queue_fifo [OF this] have "qOut ?s2 @ map item_event (qItems (qState ?s2)) = map behind_queue (qIn ?s2)" by blast
  then show ?thesis using r by (intro exI [of _ ?s2]) (simp add: queue_init_def mkPunctuationVal_def)
qed

text \<open>
  (C24) Partitioned execution: under every interleaving of the partitioning thread and the
  threads of the \<open>n\<close> partitions, the merged output restricted to the tuples of one partition
  is a prefix of the input restricted to it, and the missing rest is in the queue of that
  partition: no tuple is lost, duplicated or reordered within its partition.
\<close>

theorem partition_merge_order:
  assumes "part_step\<^sup>*\<^sup>* (part_init f n) s" and "i < n"
  shows "\<exists>q. mPartitions (pbOp s) i = Some q \<and>
    in_data f i (pbIn s) = out_data f i (pbOut s) @ out_data f i (map item_event (qItems q))"
  using part_reach_inv [OF assms(1)] assms(2) unfolding part_inv_def by metis

theorem partition_merge_order_witness:
  "\<exists>s q. part_step\<^sup>*\<^sup>* (part_init (\<lambda>x :: nat. x mod 2) 2) s \<and> mPartitions (pbOp s) 1 = Some q \<and>
     out_data (\<lambda>x. x mod 2) 1 (pbOut s) @ out_data (\<lambda>x. x mod 2) 1 (map item_event (qItems q)) = [(5, False)]"
proof -
  let ?i = "part_init (\<lambda>x :: nat. x mod 2) 2"
  let ?s1 = "?i\<lparr>pbOp := partition_process (pbOp ?i) (Data 5 False), pbIn := pbIn ?i @ [Data 5 False]\<rparr>"
  let ?s2 = "?s1\<lparr>pbOp := partition_process (pbOp ?s1) (Data 4 False), pbIn := pbIn ?s1 @ [Data 4 False]\<rparr>"
  have r: "part_step\<^sup>*\<^sup>* ?i ?s2"
    by (rule rtranclp.rtrancl_into_rtrancl [OF r_into_rtranclp [of part_step]]) (rule part_step.receive)+
  obtain q where q: "mPartitions (pbOp ?s2) 1 = Some q"
    "in_data (\<lambda>x. x mod 2) 1 (pbIn ?s2) = out_data (\<lambda>x. x mod 2) 1 (pbOut ?s2) @ out_data (\<lambda>x. x mod 2) 1 (map item_event (qItems q))"
    using partition_merge_order [OF r, of 1] by auto
  have "in_data (\<lambda>x. x mod 2) 1 (pbIn ?s2) = [(5, False)]" by (simp add: part_init_def)
  then show ?thesis using r q by metis
qed

end
