(* ===== verification/Cep.thy ===== *)
theory Cep
  imports Pf_Prelude
begin

text \<open>
  Complex event processing (\<open>cep/\<close>): the automaton and its construction, partial matches
  (\<open>NFAStructure\<close>), the evaluation of an event against a partial match, the two engines and the
  matcher operator, and the translation of a sequence pattern into an automaton. States and
  edges are numbered by their ids, which index the lists that own them; pointers are ids. The
  values that predicates depend on (\<open>relatedValues\<close>) are a value of their own per partial match
  that the update function changes; NULL is None. The events of a stream are abstract.
\<close>

section \<open>The automaton\<close>

datatype StateType = Start | Kleene | Final | Normal | Negation

datatype KleeneSpecification = Star | Plus | Question | Restricted

datatype EdgeType = Loop | Forward

record ('e, 'd) NFAEdge =
  edgeType :: EdgeType
  predicate :: "'e \<Rightarrow> 'd option \<Rightarrow> bool"
  destState :: "nat option"
  numOfLoop :: int

record NFAState =
  stateType :: StateType
  stateName :: string
  forwardEdges :: "nat list"
  loopEdge :: "nat option"
  spec :: KleeneSpecification

record ('e, 'd) NFAController =
  nfaStates :: "NFAState list"
  transitions :: "('e, 'd) NFAEdge list"
  startState :: "nat option"
  dep_init :: 'd
  dep_update :: "'d \<Rightarrow> nat \<Rightarrow> 'e \<Rightarrow> 'd"

definition NFAController_new :: "'d \<Rightarrow> ('d \<Rightarrow> nat \<Rightarrow> 'e \<Rightarrow> 'd) \<Rightarrow> ('e, 'd) NFAController" where
  "NFAController_new init update =
     \<lparr>nfaStates = [], transitions = [], startState = None, dep_init = init, dep_update = update\<rparr>"

definition addState :: "StateType \<Rightarrow> string \<Rightarrow> KleeneSpecification \<Rightarrow> ('e, 'd) NFAController \<Rightarrow> ('e, 'd) NFAController \<times> nat" where
  "addState ty name sp nfa =
     (nfa\<lparr>nfaStates := nfaStates nfa @ [\<lparr>stateType = ty, stateName = name, forwardEdges = [], loopEdge = None, spec = sp\<rparr>]\<rparr>,
      length (nfaStates nfa))"

definition createStartState :: "string \<Rightarrow> ('e, 'd) NFAController \<Rightarrow> ('e, 'd) NFAController \<times> nat" where
  "createStartState name nfa = (let (n, i) = addState Start name Star nfa in (n\<lparr>startState := Some i\<rparr>, i))"

definition createNormalState :: "string \<Rightarrow> ('e, 'd) NFAController \<Rightarrow> ('e, 'd) NFAController \<times> nat" where
  "createNormalState name nfa = addState Normal name Star nfa"

definition createKleeneState :: "string \<Rightarrow> KleeneSpecification \<Rightarrow> ('e, 'd) NFAController \<Rightarrow> ('e, 'd) NFAController \<times> nat" where
  "createKleeneState name sp nfa = addState Kleene name sp nfa"

definition createFinalState :: "string \<Rightarrow> ('e, 'd) NFAController \<Rightarrow> ('e, 'd) NFAController \<times> nat" where
  "createFinalState name nfa = addState Final name Star nfa"

definition createNegationState :: "string \<Rightarrow> ('e, 'd) NFAController \<Rightarrow> ('e, 'd) NFAController \<times> nat" where
  "createNegationState name nfa = addState Negation name Star nfa"

definition createForwardEdge :: "('e \<Rightarrow> 'd option \<Rightarrow> bool) \<Rightarrow> ('e, 'd) NFAController \<Rightarrow> ('e, 'd) NFAController \<times> nat" where
  "createForwardEdge p nfa =
     (nfa\<lparr>transitions := transitions nfa @ [\<lparr>edgeType = Forward, predicate = p, destState = None, numOfLoop = 0\<rparr>]\<rparr>,
      length (transitions nfa))"

definition createLoopEdge :: "('e \<Rightarrow> 'd option \<Rightarrow> bool) \<Rightarrow> ('e, 'd) NFAController \<Rightarrow> ('e, 'd) NFAController \<times> nat" where
  "createLoopEdge p nfa =
     (nfa\<lparr>transitions := transitions nfa @ [\<lparr>edgeType = Loop, predicate = p, destState = None, numOfLoop = 2 ^ 15 - 1\<rparr>]\<rparr>,
      length (transitions nfa))"

text \<open>A final state has no edges: the cast of the source to \<open>NormalState\<close> is undefined for it.\<close>

definition createForwardTransition :: "nat \<Rightarrow> nat \<Rightarrow> nat \<Rightarrow> ('e, 'd) NFAController \<Rightarrow> ('e, 'd) NFAController res" where
  "createForwardTransition src edge dest nfa =
     (if \<not> (src < length (nfaStates nfa) \<and> edge < length (transitions nfa)) then Inl NullPointer
      else if edgeType (transitions nfa ! edge) \<noteq> Forward then Inl AssertFailed
      else if stateType (nfaStates nfa ! src) = Final then Inl OutOfBounds
      else Inr (nfa\<lparr>transitions := (transitions nfa)[edge := (transitions nfa ! edge)\<lparr>destState := Some dest\<rparr>],
                    nfaStates := (nfaStates nfa)[src := (nfaStates nfa ! src)
                       \<lparr>forwardEdges := forwardEdges (nfaStates nfa ! src) @ [edge]\<rparr>]\<rparr>))"

definition setLoopEdge :: "nat \<Rightarrow> nat \<Rightarrow> ('e, 'd) NFAController \<Rightarrow> ('e, 'd) NFAController" where
  "setLoopEdge st edge nfa = nfa\<lparr>nfaStates := (nfaStates nfa)[st := (nfaStates nfa ! st)\<lparr>loopEdge := Some edge\<rparr>]\<rparr>"

definition evaluate :: "('e, 'd) NFAController \<Rightarrow> nat \<Rightarrow> 'e \<Rightarrow> 'd option \<Rightarrow> bool" where
  "evaluate nfa edge event rel = predicate (transitions nfa ! edge) event rel"

section \<open>Partial matches\<close>

record 'e Instance =
  originalEvent :: 'e
  inst_state :: string
  sequenceInComplex :: nat

record ('e, 'd) NFAStructure =
  events :: "'e Instance list"
  currentState :: nat
  complete :: bool
  relatedValues :: 'd
  equality :: nat
  kleeneState :: "nat \<Rightarrow> 16 word"

definition NFAStructure_new :: "('e, 'd) NFAController \<Rightarrow> nat \<Rightarrow> nat \<Rightarrow> ('e, 'd) NFAStructure" where
  "NFAStructure_new nfa start par =
     \<lparr>events = [], currentState = start, complete = False, relatedValues = dep_init nfa, equality = par,
      kleeneState = (\<lambda>_. 0)\<rparr>"

definition addEvent :: "('e, 'd) NFAController \<Rightarrow> 'e \<Rightarrow> nat \<Rightarrow> ('e, 'd) NFAStructure \<Rightarrow> ('e, 'd) NFAStructure res" where
  "addEvent nfa event edge str =
     (let cur = currentState str; ed = transitions nfa ! edge;
          inst = \<lparr>originalEvent = event, inst_state = stateName (nfaStates nfa ! cur), sequenceInComplex = length (events str) + 1\<rparr>;
          str1 = str\<lparr>events := events str @ [inst], relatedValues := dep_update nfa (relatedValues str) edge event\<rparr>
      in bind_res (case edgeType ed of
              Forward \<Rightarrow> (case destState ed of None \<Rightarrow> Inl NullPointer | Some d \<Rightarrow> Inr (str1\<lparr>currentState := d\<rparr>))
            | Loop \<Rightarrow> Inr (str1\<lparr>kleeneState := (kleeneState str)(cur := kleeneState str cur + 1)\<rparr>))
           (\<lambda>str2. Inr (if stateType (nfaStates nfa ! currentState str2) = Final then str2\<lparr>complete := True\<rparr> else str2)))"

section \<open>Evaluating an event\<close>

text \<open>The index of the first forward edge whose predicate holds.\<close>

fun first_edge :: "('e, 'd) NFAController \<Rightarrow> nat list \<Rightarrow> 'e \<Rightarrow> 'd option \<Rightarrow> nat option" where
  "first_edge nfa [] event rel = None"
| "first_edge nfa (e # es) event rel =
     (if evaluate nfa e event rel then Some 0 else map_option Suc (first_edge nfa es event rel))"

text \<open>
  The loop over consecutive negation states: \<open>Inl None\<close> if one of their edges matches (the partial
  match is over), \<open>Inl (Some e)\<close> for a failure, \<open>Inr\<close> the state behind them. It does not end on a
  cycle of negation states, hence the fuel.
\<close>

fun negation_walk :: "nat \<Rightarrow> ('e, 'd) NFAController \<Rightarrow> nat \<Rightarrow> 'e \<Rightarrow> 'd option \<Rightarrow> (op_error option + nat) option" where
  "negation_walk 0 nfa cur event rel = None"
| "negation_walk (Suc fuel) nfa cur event rel =
     (let es = forwardEdges (nfaStates nfa ! cur)
      in if first_edge nfa es event rel \<noteq> None then Some (Inl None)
         else (case es of
                 [] \<Rightarrow> Some (Inl (Some AssertFailed))
               | e # _ \<Rightarrow>
                   (case destState (transitions nfa ! e) of
                      None \<Rightarrow> Some (Inl (Some NullPointer))
                    | Some d \<Rightarrow> (if stateType (nfaStates nfa ! d) = Negation then negation_walk fuel nfa d event rel
                                else Some (Inr d)))))"

definition kleene_forward_ok :: "('e, 'd) NFAController \<Rightarrow> NFAState \<Rightarrow> 16 word \<Rightarrow> bool" where
  "kleene_forward_ok nfa st n =
     (case spec st of
        Star \<Rightarrow> True | Question \<Rightarrow> True
      | Plus \<Rightarrow> sint n = 1
      | Restricted \<Rightarrow> (case loopEdge st of None \<Rightarrow> False | Some l \<Rightarrow> sint n \<ge> numOfLoop (transitions nfa ! l)))"

definition kleene_loop_ok :: "('e, 'd) NFAController \<Rightarrow> NFAState \<Rightarrow> 16 word \<Rightarrow> bool" where
  "kleene_loop_ok nfa st n =
     (case spec st of
        Star \<Rightarrow> True | Question \<Rightarrow> True
      | Plus \<Rightarrow> sint n = 0
      | Restricted \<Rightarrow> (case loopEdge st of None \<Rightarrow> False | Some l \<Rightarrow> sint n < numOfLoop (transitions nfa ! l)))"

text \<open>
  \<open>checkPredicate\<close>: the index of the edge to follow (-1: None), whether the event hit a negated
  state, and the partial match (a loop edge adds the event to it). The fuel is for the walk
  over negation states.
\<close>

definition checkPredicate ::
  "nat \<Rightarrow> ('e, 'd) NFAController \<Rightarrow> 'e \<Rightarrow> ('e, 'd) NFAStructure \<Rightarrow> (nat option \<times> bool \<times> ('e, 'd) NFAStructure) res option" where
  "checkPredicate fuel nfa event str =
     (let cur = currentState str; st = nfaStates nfa ! cur; rel = Some (relatedValues str)
      in case stateType st of
           Normal \<Rightarrow> Some (Inr (first_edge nfa (forwardEdges st) event rel, False, str))
         | Kleene \<Rightarrow>
             (case (if kleene_forward_ok nfa st (kleeneState str cur) then first_edge nfa (forwardEdges st) event rel else None) of
                Some i \<Rightarrow> Some (Inr (Some i, False, str))
              | None \<Rightarrow>
                  (case loopEdge st of
                     None \<Rightarrow> Some (Inl NullPointer)
                   | Some l \<Rightarrow>
                       (if evaluate nfa l event rel \<and> kleene_loop_ok nfa st (kleeneState str cur)
                        then Some (bind_res (addEvent nfa event l str) (\<lambda>str1. Inr (None, False, str1)))
                        else Some (Inr (None, False, str)))))
         | Negation \<Rightarrow>
             (case negation_walk fuel nfa cur event rel of
                None \<Rightarrow> None
              | Some (Inl (Some e)) \<Rightarrow> Some (Inl e)
              | Some (Inl None) \<Rightarrow> Some (Inr (None, True, str))
              | Some (Inr d) \<Rightarrow>
                  (if stateType (nfaStates nfa ! d) = Final then Some (Inr (Some 0, False, str))
                   else (case first_edge nfa (forwardEdges (nfaStates nfa ! d)) event rel of
                           Some i \<Rightarrow> Some (Inr (Some i, False, str\<lparr>currentState := d\<rparr>))
                         | None \<Rightarrow> Some (Inr (None, False, str)))))
         | _ \<Rightarrow> Some (Inr (None, False, str)))"

section \<open>Engines\<close>

datatype WindowConstant = FirstLastEvents | FromLastEvents | FromToEvents | NoConstraint

record WindowStruct =
  ws_window :: WindowConstant
  eventFrom :: int
  eventTo :: int
  ws_period :: int

definition setWindowConstraint :: "int \<Rightarrow> int \<Rightarrow> int \<Rightarrow> WindowStruct" where
  "setWindowConstraint per fromEvent toEvent =
     \<lparr>ws_window = (if toEvent = - 1 \<and> fromEvent = - 1 then FirstLastEvents
                  else if toEvent = - 1 then FromLastEvents else FromToEvents),
      eventFrom = fromEvent, eventTo = toEvent, ws_period = per\<rparr>"

definition hasWindow :: "WindowStruct \<Rightarrow> bool" where
  "hasWindow w \<longleftrightarrow> ws_window w \<noteq> NoConstraint"

text \<open>The comparison with the period is commented out in the code: the check accepts every event.\<close>

definition checkWindowTime :: "WindowStruct \<Rightarrow> 'e \<Rightarrow> ('e, 'd) NFAStructure \<Rightarrow> bool" where
  "checkWindowTime w event str = True"

record ('e, 'd) CEPEngine =
  pool :: "('e, 'd) NFAStructure list"
  counter :: nat
  deletedStructures :: "nat list"
  sequence :: nat
  windowConst :: WindowStruct

definition CEPEngine_new :: "('e, 'd) CEPEngine" where
  "CEPEngine_new = \<lparr>pool = [], counter = 0, deletedStructures = [], sequence = 0,
     windowConst = \<lparr>ws_window = NoConstraint, eventFrom = 0, eventTo = 0, ws_period = 0\<rparr>\<rparr>"

text \<open>What an event does to one partial match, common to both engines.\<close>

datatype ('e, 'd) verdict =
  Kept "('e, 'd) NFAStructure" | Matched "('e, 'd) NFAStructure" | Dropped "('e, 'd) NFAStructure"

definition engineProcess ::
  "nat \<Rightarrow> ('e, 'd) NFAController \<Rightarrow> WindowStruct \<Rightarrow> 'e \<Rightarrow> ('e, 'd) NFAStructure \<Rightarrow> ('e, 'd) verdict res option" where
  "engineProcess fuel nfa win event str =
     (case checkPredicate fuel nfa event str of
        None \<Rightarrow> None
      | Some (Inl e) \<Rightarrow> Some (Inl e)
      | Some (Inr (None, neg, str1)) \<Rightarrow> Some (Inr (if neg then Dropped str1 else Kept str1))
      | Some (Inr (Some i, _, str1)) \<Rightarrow>
          (if hasWindow win \<and> \<not> checkWindowTime win event str1 then Some (Inr (Dropped str1))
           else if \<not> i < length (forwardEdges (nfaStates nfa ! currentState str1)) then Some (Inl AssertFailed)
           else Some (bind_res (addEvent nfa event (forwardEdges (nfaStates nfa ! currentState str1) ! i) str1)
                  (\<lambda>str2. Inr (if complete str2 then Matched str2 else Kept str2)))))"

definition createStartStructure :: "('e, 'd) NFAController \<Rightarrow> 'e \<Rightarrow> ('e, 'd) CEPEngine \<Rightarrow> ('e, 'd) CEPEngine res" where
  "createStartStructure nfa event E =
     (case startState nfa of
        None \<Rightarrow> Inl NullPointer
      | Some start \<Rightarrow>
          (case first_edge nfa (forwardEdges (nfaStates nfa ! start)) event None of
             None \<Rightarrow> Inr E
           | Some i \<Rightarrow>
               bind_res (addEvent nfa event (forwardEdges (nfaStates nfa ! start) ! i) (NFAStructure_new nfa start (sequence E)))
                 (\<lambda>str. Inr (E\<lparr>pool := pool E @ [str], sequence := sequence E + 1\<rparr>))))"

text \<open>The matcher publishes the events of a match one by one; with \<open>Combined\<close> it publishes nothing.\<close>

datatype OutputStrategy = OneByOne | Combined

definition publishResultMatches :: "OutputStrategy \<Rightarrow> ('e, 'd) NFAStructure \<Rightarrow> 'e event list" where
  "publishResultMatches out str =
     (case out of Combined \<Rightarrow> [] | OneByOne \<Rightarrow> map (\<lambda>i. Data (originalEvent i) False) (events str))"

definition first_runEngine ::
  "nat \<Rightarrow> ('e, 'd) NFAController \<Rightarrow> OutputStrategy \<Rightarrow> ('e, 'd) CEPEngine \<Rightarrow> 'e \<Rightarrow> (('e, 'd) CEPEngine \<times> 'e event list) res option" where
  "first_runEngine fuel nfa out E event =
     (case pool E of
        [] \<Rightarrow> Some (bind_res (createStartStructure nfa event E) (\<lambda>E1. Inr (E1, [])))
      | str # strs \<Rightarrow>
          (case engineProcess fuel nfa (windowConst E) event str of
             None \<Rightarrow> None
           | Some (Inl e) \<Rightarrow> Some (Inl e)
           | Some (Inr (Kept str1)) \<Rightarrow> Some (Inr (E\<lparr>pool := str1 # strs\<rparr>, []))
           | Some (Inr (Matched str1)) \<Rightarrow>
               Some (Inr (E\<lparr>pool := [], counter := counter E + 1\<rparr>, publishResultMatches out str1))
           | Some (Inr (Dropped str1)) \<Rightarrow> Some (Inr (E\<lparr>pool := []\<rparr>, []))))"

text \<open>
  The loop over all partial matches: the updated matches, what is published, the number of
  matches, and the partial matches to delete.
\<close>

fun process_all ::
  "nat \<Rightarrow> ('e, 'd) NFAController \<Rightarrow> OutputStrategy \<Rightarrow> WindowStruct \<Rightarrow> 'e \<Rightarrow> ('e, 'd) NFAStructure list \<Rightarrow>
   (('e, 'd) NFAStructure list \<times> 'e event list \<times> nat \<times> nat list) res option" where
  "process_all fuel nfa out win event [] = Some (Inr ([], [], 0, []))"
| "process_all fuel nfa out win event (str # strs) =
     (case engineProcess fuel nfa win event str of
        None \<Rightarrow> None
      | Some (Inl e) \<Rightarrow> Some (Inl e)
      | Some (Inr v) \<Rightarrow>
          map_option (map_sum id (\<lambda>(strs', os, n, del).
             (case v of
                Kept s \<Rightarrow> (s # strs', os, n, del)
              | Matched s \<Rightarrow> (s # strs', publishResultMatches out s @ os, n + 1, equality s # del)
              | Dropped s \<Rightarrow> (s # strs', os, n, equality s # del))))
            (process_all fuel nfa out win event strs))"

text \<open>
  \<open>runGCstructures\<close>: the loop compares its index with the size of the list it shortens, so it
  stops half way.
\<close>

fun gc_loop :: "nat \<Rightarrow> nat list \<Rightarrow> ('e, 'd) NFAStructure list \<Rightarrow> nat list \<times> ('e, 'd) NFAStructure list" where
  "gc_loop i [] strs = ([], strs)"
| "gc_loop i (d # ds) strs =
     (if i < Suc (length ds) then gc_loop (Suc i) ds (filter (\<lambda>s. equality s \<noteq> d) strs) else (d # ds, strs))"

definition runGCstructures :: "('e, 'd) CEPEngine \<Rightarrow> ('e, 'd) CEPEngine" where
  "runGCstructures E = (let (ds, strs) = gc_loop 0 (deletedStructures E) (pool E) in E\<lparr>deletedStructures := ds, pool := strs\<rparr>)"

definition next_runEngine ::
  "nat \<Rightarrow> ('e, 'd) NFAController \<Rightarrow> OutputStrategy \<Rightarrow> ('e, 'd) CEPEngine \<Rightarrow> 'e \<Rightarrow> (('e, 'd) CEPEngine \<times> 'e event list) res option" where
  "next_runEngine fuel nfa out E event =
     map_option (\<lambda>r. bind_res r (\<lambda>(strs, os, n, del).
        bind_res (createStartStructure nfa event (E\<lparr>pool := strs, counter := counter E + n, deletedStructures := deletedStructures E @ del\<rparr>))
          (\<lambda>E1. Inr (if deletedStructures E1 \<noteq> [] then runGCstructures E1 else E1, os))))
       (process_all fuel nfa out (windowConst E) event (pool E))"

section \<open>The matcher operator\<close>

datatype SelectionStrategy = FirstMatch | NextMatches

record ('e, 'd) Matcher =
  engine :: "('e, 'd) CEPEngine"
  nfaController :: "('e, 'd) NFAController"
  strategy :: SelectionStrategy
  outStrategy :: OutputStrategy

definition runEngine :: "nat \<Rightarrow> ('e, 'd) Matcher \<Rightarrow> 'e \<Rightarrow> (('e, 'd) CEPEngine \<times> 'e event list) res option" where
  "runEngine fuel m event =
     (case strategy m of
        FirstMatch \<Rightarrow> first_runEngine fuel (nfaController m) (outStrategy m) (engine m) event
      | NextMatches \<Rightarrow> next_runEngine fuel (nfaController m) (outStrategy m) (engine m) event)"

text \<open>
  The handlers; outdated tuples are treated like new ones. Without a cycle of negation states
  the fuel \<open>length (nfaStates nfa)\<close> is enough and \<open>None\<close> does not occur.
\<close>

fun matcher_step :: "('e, 'd) Matcher \<Rightarrow> 'e event \<Rightarrow> (('e, 'd) Matcher \<times> 'e event list) res option" where
  "matcher_step m (Punct p) = Some (Inr (m, [Punct p]))"
| "matcher_step m (Data x outdated) =
     map_option (map_sum id (\<lambda>(E, os). (m\<lparr>engine := E\<rparr>, os))) (runEngine (length (nfaStates (nfaController m))) m x)"

fun matcher_run :: "('e, 'd) Matcher \<Rightarrow> 'e event list \<Rightarrow> (('e, 'd) Matcher \<times> 'e event list) res option" where
  "matcher_run m [] = Some (Inr (m, []))"
| "matcher_run m (e # es) =
     (case matcher_step m e of
        None \<Rightarrow> None
      | Some (Inl err) \<Rightarrow> Some (Inl err)
      | Some (Inr (m1, o1)) \<Rightarrow> map_option (map_sum id (\<lambda>(m2, o2). (m2, o1 @ o2))) (matcher_run m1 es))"

section \<open>Patterns\<close>

text \<open>
  The pattern language of \<open>cep/dsl/CEPState.hpp\<close>: a state has an id (0 for the start, 1000 for the
  end, otherwise the next number of a global counter), a predicate and the list of expressions
  built so far. A pointer to a state is its id with its predicate.
\<close>

datatype cep_op = SEQ | OR | NOT | START | END

type_synonym ('e, 'd) state_ref = "nat \<times> ('e \<Rightarrow> 'd option \<Rightarrow> bool) option"

record ('e, 'd) Expr =
  ex_op :: cep_op
  fromState :: "('e, 'd) state_ref"
  toState :: "('e, 'd) state_ref option"

record ('e, 'd) CEPState =
  cep_ref :: "('e, 'd) state_ref"
  exprs :: "('e, 'd) Expr list"

definition CEPState_start :: "('e, 'd) CEPState" where
  "CEPState_start = \<lparr>cep_ref = (0, None), exprs = [\<lparr>ex_op = START, fromState = (0, None), toState = None\<rparr>]\<rparr>"

definition CEPState_new :: "('e \<Rightarrow> 'd option \<Rightarrow> bool) \<Rightarrow> nat \<Rightarrow> ('e, 'd) CEPState \<times> nat" where
  "CEPState_new p globalId = (\<lparr>cep_ref = (globalId + 1, Some p), exprs = []\<rparr>, globalId + 1)"

definition CEPState_stop :: "('e \<Rightarrow> 'd option \<Rightarrow> bool) \<Rightarrow> ('e, 'd) CEPState" where
  "CEPState_stop p = \<lparr>cep_ref = (1000, Some p), exprs = [\<lparr>ex_op = END, fromState = (1000, Some p), toState = None\<rparr>]\<rparr>"

definition cep_seq :: "('e, 'd) CEPState \<Rightarrow> ('e, 'd) CEPState \<Rightarrow> ('e, 'd) CEPState" where
  "cep_seq s other =
     other\<lparr>exprs := exprs other @ exprs s @ [\<lparr>ex_op = SEQ, fromState = cep_ref s, toState = Some (cep_ref other)\<rparr>]\<rparr>"

definition cep_or :: "('e, 'd) CEPState \<Rightarrow> ('e, 'd) CEPState \<Rightarrow> ('e, 'd) CEPState" where
  "cep_or s other = s\<lparr>exprs := exprs s @ exprs other @ [\<lparr>ex_op = OR, fromState = cep_ref s, toState = Some (cep_ref other)\<rparr>]\<rparr>"

definition cep_not :: "('e, 'd) CEPState \<Rightarrow> ('e, 'd) CEPState" where
  "cep_not s = s\<lparr>exprs := exprs s @ [\<lparr>ex_op = NOT, fromState = cep_ref s, toState = None\<rparr>]\<rparr>"

text \<open>\<open>constructNFA\<close>: the states of the pattern in the order of their ids, then the transitions.\<close>

definition pattern_refs :: "('e, 'd) Expr list \<Rightarrow> ('e, 'd) state_ref list" where
  "pattern_refs exs = concat (map (\<lambda>ex. fromState ex # (case toState ex of None \<Rightarrow> [] | Some r \<Rightarrow> [r])) exs)"

definition pattern_states :: "('e, 'd) Expr list \<Rightarrow> ('e, 'd) state_ref list" where
  "pattern_states exs =
     map (\<lambda>i. (i, the (map_of (rev (pattern_refs exs)) i))) (sort (remdups (map fst (pattern_refs exs))))"

type_synonym ('e, 'd) construction = "('e, 'd) NFAController \<times> (nat \<rightharpoonup> nat) \<times> (nat \<rightharpoonup> nat)"

definition construct_state :: "('e, 'd) state_ref \<Rightarrow> ('e, 'd) construction \<Rightarrow> ('e, 'd) construction res" where
  "construct_state r c =
     (case (r, c) of ((i, pr), (nfa, nptr, eptr)) \<Rightarrow>
        (if i = 0
         then (let (n1, k) = createStartState (to_string i) nfa in Inr (n1, nptr(i \<mapsto> k), eptr))
         else (let (n1, k) = (if i = 1000 then createFinalState (to_string i) nfa else createNormalState (to_string i) nfa)
               in case pr of
                    None \<Rightarrow> Inl AssertFailed
                  | Some p \<Rightarrow> (let (n2, e) = createForwardEdge p n1 in Inr (n2, nptr(i \<mapsto> k), eptr(i \<mapsto> e))))))"

fun construct_states :: "('e, 'd) state_ref list \<Rightarrow> ('e, 'd) construction \<Rightarrow> ('e, 'd) construction res" where
  "construct_states [] c = Inr c"
| "construct_states (r # rs) c = bind_res (construct_state r c) (construct_states rs)"

fun construct_transitions :: "('e, 'd) Expr list \<Rightarrow> ('e, 'd) construction \<Rightarrow> ('e, 'd) NFAController res" where
  "construct_transitions [] (nfa, nptr, eptr) = Inr nfa"
| "construct_transitions (ex # exs) (nfa, nptr, eptr) =
     (case (ex_op ex, toState ex) of
        (SEQ, Some to) \<Rightarrow>
          (case (nptr (fst (fromState ex)), eptr (fst to), nptr (fst to)) of
             (Some src, Some e, Some dst) \<Rightarrow>
               bind_res (createForwardTransition src e dst nfa) (\<lambda>n1. construct_transitions exs (n1, nptr, eptr))
           | _ \<Rightarrow> Inl NullPointer)
      | (SEQ, None) \<Rightarrow> Inl NullPointer
      | _ \<Rightarrow> construct_transitions exs (nfa, nptr, eptr))"

definition constructNFA :: "('e, 'd) CEPState \<Rightarrow> ('e, 'd) NFAController \<Rightarrow> ('e, 'd) NFAController res" where
  "constructNFA ex nfa =
     bind_res (construct_states (pattern_states (exprs ex)) (nfa, Map.empty, Map.empty)) (construct_transitions (exprs ex))"

text \<open>
  The pattern \<open>start >> s1 >> ... >> stop\<close> for a list of predicates, the last one for the end, when it is the first one of the
  program: the static counter of the states starts at 0 and runs on over all patterns.
\<close>

fun seq_pattern_from :: "('e, 'd) CEPState \<Rightarrow> nat \<Rightarrow> ('e \<Rightarrow> 'd option \<Rightarrow> bool) list \<Rightarrow> ('e, 'd) CEPState" where
  "seq_pattern_from s globalId [] = s"
| "seq_pattern_from s globalId [p] = cep_seq s (CEPState_stop p)"
| "seq_pattern_from s globalId (p # q # ps) =
     (let (s1, g1) = CEPState_new p globalId in seq_pattern_from (cep_seq s s1) g1 (q # ps))"

definition seq_pattern :: "('e \<Rightarrow> 'd option \<Rightarrow> bool) list \<Rightarrow> ('e, 'd) CEPState" where
  "seq_pattern ps = seq_pattern_from CEPState_start 0 ps"

section \<open>Reference semantics of a sequence pattern\<close>

text \<open>
  \<open>seq_scan ps i d es\<close>: the earliest occurrence of the predicates as a subsequence of the events,
  each event being the first one after its predecessor that satisfies its predicate, with the
  rest of the events. \<open>i\<close> is the edge of the next predicate, \<open>d\<close> the related values so far.
\<close>

fun seq_scan :: "('d \<Rightarrow> nat \<Rightarrow> 'e \<Rightarrow> 'd) \<Rightarrow> ('e \<Rightarrow> 'd option \<Rightarrow> bool) list \<Rightarrow> nat \<Rightarrow> 'd \<Rightarrow> 'e list \<Rightarrow> ('e list \<times> 'e list) option" where
  "seq_scan upd [] i d es = Some ([], es)"
| "seq_scan upd (p # ps) i d [] = None"
| "seq_scan upd (p # ps) i d (e # es) =
     (if p e (Some d) then map_option (\<lambda>(m, rest). (e # m, rest)) (seq_scan upd ps (Suc i) (upd d i e) es)
      else seq_scan upd (p # ps) i d es)"

lemma seq_scan_rest: "seq_scan upd ps i d es = Some (m, rest) \<Longrightarrow> length rest \<le> length es"
  by (induction upd ps i d es arbitrary: m rule: seq_scan.induct) (fastforce split: if_splits)+

text \<open>
  First match: the matches follow one another without overlap. Next match: every event that
  can start the pattern starts a match of its own.
\<close>

function first_matches :: "('d \<Rightarrow> nat \<Rightarrow> 'e \<Rightarrow> 'd) \<Rightarrow> 'd \<Rightarrow> ('e \<Rightarrow> 'd option \<Rightarrow> bool) \<Rightarrow> ('e \<Rightarrow> 'd option \<Rightarrow> bool) list \<Rightarrow> 'e list \<Rightarrow> 'e list list" where
  "first_matches upd d0 p ps [] = []"
| "first_matches upd d0 p ps (e # es) =
     (if p e None
      then (case seq_scan upd ps 1 (upd d0 0 e) es of None \<Rightarrow> [] | Some (m, rest) \<Rightarrow> (e # m) # first_matches upd d0 p ps rest)
      else first_matches upd d0 p ps es)"
  by pat_completeness auto

termination
  by (relation "measure (\<lambda>(upd, d0, p, ps, es). length es)") (auto dest: seq_scan_rest)

fun next_matches :: "('d \<Rightarrow> nat \<Rightarrow> 'e \<Rightarrow> 'd) \<Rightarrow> 'd \<Rightarrow> ('e \<Rightarrow> 'd option \<Rightarrow> bool) \<Rightarrow> ('e \<Rightarrow> 'd option \<Rightarrow> bool) list \<Rightarrow> 'e list \<Rightarrow> 'e list list" where
  "next_matches upd d0 p ps [] = []"
| "next_matches upd d0 p ps (e # es) =
     (if p e None then (case seq_scan upd ps 1 (upd d0 0 e) es of None \<Rightarrow> [] | Some (m, rest) \<Rightarrow> [e # m]) else [])
       @ next_matches upd d0 p ps es"

section \<open>Linear automata\<close>

definition linear_nfa :: "('e, 'd) NFAController \<Rightarrow> ('e \<Rightarrow> 'd option \<Rightarrow> bool) list \<Rightarrow> bool" where
  "linear_nfa nfa ps \<longleftrightarrow>
     ps \<noteq> [] \<and> startState nfa = Some 0 \<and> length (nfaStates nfa) = Suc (length ps) \<and> length (transitions nfa) = length ps \<and>
     stateType (nfaStates nfa ! length ps) = Final \<and>
     (\<forall>i<length ps. stateType (nfaStates nfa ! i) = (if i = 0 then Start else Normal) \<and> forwardEdges (nfaStates nfa ! i) = [i] \<and>
        edgeType (transitions nfa ! i) = Forward \<and> predicate (transitions nfa ! i) = ps ! i \<and>
        destState (transitions nfa ! i) = Some (Suc i))"

text \<open>A partial match of a linear automaton that has accepted the events \<open>es\<close>.\<close>

definition at_state :: "('e \<Rightarrow> 'd option \<Rightarrow> bool) list \<Rightarrow> ('e, 'd) NFAStructure \<Rightarrow> bool" where
  "at_state ps str \<longleftrightarrow> 0 < currentState str \<and> currentState str \<le> length ps \<and> (complete str \<longleftrightarrow> currentState str = length ps)"

abbreviation matched_events :: "('e, 'd) NFAStructure \<Rightarrow> 'e list" where
  "matched_events str \<equiv> map originalEvent (events str)"

lemma addEvent_linear:
  assumes "linear_nfa nfa ps" "i < length ps" "currentState str = i" "\<not> complete str"
  obtains str' where "addEvent nfa e i str = Inr str'" and "matched_events str' = matched_events str @ [e]"
    and "currentState str' = Suc i" and "complete str' \<longleftrightarrow> Suc i = length ps"
    and "relatedValues str' = dep_update nfa (relatedValues str) i e" and "equality str' = equality str"
proof -
  have i: "edgeType (transitions nfa ! i) = Forward" "destState (transitions nfa ! i) = Some (Suc i)"
    using assms(1,2) unfolding linear_nfa_def by auto
  have f: "stateType (nfaStates nfa ! Suc i) = Final \<longleftrightarrow> Suc i = length ps"
  proof (cases "Suc i = length ps")
    case True
    then show ?thesis using assms(1) by (metis linear_nfa_def)
  next
    case False
    then have "Suc i < length ps" using assms(2) by simp
    then show ?thesis using assms(1) False unfolding linear_nfa_def by simp
  qed
  show ?thesis
  proof (rule that)
    show "addEvent nfa e i str = Inr (str\<lparr>events := events str @ [\<lparr>originalEvent = e, inst_state = stateName (nfaStates nfa ! i),
        sequenceInComplex = length (events str) + 1\<rparr>], relatedValues := dep_update nfa (relatedValues str) i e,
        currentState := Suc i, complete := (Suc i = length ps)\<rparr>)"
      using i f assms(3,4) by (simp add: addEvent_def Let_def)
  qed (use f in simp_all)
qed

lemma process_linear_advance:
  assumes "linear_nfa nfa ps" "at_state ps str" "\<not> complete str" "(ps ! currentState str) e (Some (relatedValues str))"
  obtains str' where "engineProcess fuel nfa win e str = Some (Inr (if complete str' then Matched str' else Kept str'))"
    and "at_state ps str'" "matched_events str' = matched_events str @ [e]" "currentState str' = Suc (currentState str)"
    and "relatedValues str' = dep_update nfa (relatedValues str) (currentState str) e" "equality str' = equality str"
proof -
  let ?i = "currentState str"
  have i: "0 < ?i" "?i < length ps" using assms(2,3) by (auto simp: at_state_def)
  have st: "stateType (nfaStates nfa ! ?i) = Normal" "forwardEdges (nfaStates nfa ! ?i) = [?i]" "predicate (transitions nfa ! ?i) = ps ! ?i"
    using assms(1) i unfolding linear_nfa_def by auto
  obtain str' where s: "addEvent nfa e ?i str = Inr str'" "matched_events str' = matched_events str @ [e]"
    "currentState str' = Suc ?i" "complete str' \<longleftrightarrow> Suc ?i = length ps"
    "relatedValues str' = dep_update nfa (relatedValues str) ?i e" "equality str' = equality str"
    using addEvent_linear [OF assms(1) i(2) refl assms(3)] .
  have "engineProcess fuel nfa win e str = Some (Inr (if complete str' then Matched str' else Kept str'))"
    using st assms(4) s(1) by (simp add: engineProcess_def checkPredicate_def evaluate_def checkWindowTime_def Let_def)
  moreover have "at_state ps str'" using s(3,4) i by (simp add: at_state_def)
  ultimately show ?thesis using s that by blast
qed

lemma process_linear_stay:
  assumes "linear_nfa nfa ps" "at_state ps str"
    and "complete str \<or> \<not> (ps ! currentState str) e (Some (relatedValues str))"
  shows "engineProcess fuel nfa win e str = Some (Inr (Kept str))"
proof (cases "complete str")
  case True
  then have "stateType (nfaStates nfa ! currentState str) = Final" using assms(1,2) by (auto simp: at_state_def linear_nfa_def)
  then show ?thesis by (simp add: engineProcess_def checkPredicate_def Let_def)
next
  case False
  then have i: "0 < currentState str" "currentState str < length ps" using assms(2) by (auto simp: at_state_def)
  have "stateType (nfaStates nfa ! currentState str) = Normal" "forwardEdges (nfaStates nfa ! currentState str) = [currentState str]"
    "predicate (transitions nfa ! currentState str) = ps ! currentState str"
    using assms(1) i unfolding linear_nfa_def by auto
  then show ?thesis using assms(3) False by (simp add: engineProcess_def checkPredicate_def evaluate_def Let_def)
qed

lemma start_linear:
  assumes "linear_nfa nfa ps" "2 \<le> length ps"
  shows "\<not> (ps ! 0) e None \<Longrightarrow> createStartStructure nfa e E = Inr E"
    and "(ps ! 0) e None \<Longrightarrow> \<exists>str. createStartStructure nfa e E = Inr (E\<lparr>pool := pool E @ [str], sequence := sequence E + 1\<rparr>) \<and>
      at_state ps str \<and> matched_events str = [e] \<and> currentState str = 1 \<and> \<not> complete str \<and>
      relatedValues str = dep_update nfa (dep_init nfa) 0 e \<and> equality str = sequence E"
proof -
  have st: "startState nfa = Some 0" "forwardEdges (nfaStates nfa ! 0) = [0]" "predicate (transitions nfa ! 0) = ps ! 0" "0 < length ps"
    using assms unfolding linear_nfa_def by auto
  show "\<not> (ps ! 0) e None \<Longrightarrow> createStartStructure nfa e E = Inr E"
    using st by (simp add: createStartStructure_def evaluate_def)
  assume p: "(ps ! 0) e None"
  have "currentState (NFAStructure_new nfa 0 (sequence E)) = 0" "\<not> complete (NFAStructure_new nfa 0 (sequence E))"
    by (simp_all add: NFAStructure_new_def)
  from addEvent_linear [OF assms(1) st(4) this, of e] obtain str where
    s: "addEvent nfa e 0 (NFAStructure_new nfa 0 (sequence E)) = Inr str" "matched_events str = [e]" "currentState str = Suc 0"
      "complete str \<longleftrightarrow> Suc 0 = length ps" "relatedValues str = dep_update nfa (dep_init nfa) 0 e" "equality str = sequence E"
    by (auto simp: NFAStructure_new_def)
  then show "\<exists>str. createStartStructure nfa e E = Inr (E\<lparr>pool := pool E @ [str], sequence := sequence E + 1\<rparr>) \<and>
      at_state ps str \<and> matched_events str = [e] \<and> currentState str = 1 \<and> \<not> complete str \<and>
      relatedValues str = dep_update nfa (dep_init nfa) 0 e \<and> equality str = sequence E"
    using st p assms(2) by (auto simp: createStartStructure_def evaluate_def at_state_def)
qed

section \<open>The first match engine on linear automata\<close>

abbreviation fm :: "('e, 'd) NFAController \<Rightarrow> ('e \<Rightarrow> 'd option \<Rightarrow> bool) list \<Rightarrow> 'e list \<Rightarrow> 'e list list" where
  "fm nfa ps es \<equiv> first_matches (dep_update nfa) (dep_init nfa) (hd ps) (tl ps) es"

text \<open>What a partial match contributes when the events \<open>es\<close> follow.\<close>

definition continue_match :: "('e, 'd) NFAController \<Rightarrow> ('e \<Rightarrow> 'd option \<Rightarrow> bool) list \<Rightarrow> ('e, 'd) NFAStructure \<Rightarrow> 'e list \<Rightarrow> ('e list \<times> 'e list) option" where
  "continue_match nfa ps str es =
     map_option (\<lambda>(m, rest). (matched_events str @ m, rest))
       (seq_scan (dep_update nfa) (drop (currentState str) ps) (currentState str) (relatedValues str) es)"

lemma continue_match_stay:
  assumes "at_state ps str" "\<not> complete str" "\<not> (ps ! currentState str) e (Some (relatedValues str))"
  shows "continue_match nfa ps str (e # es) = continue_match nfa ps str es"
proof -
  have "currentState str < length ps" using assms(1,2) by (auto simp: at_state_def)
  then show ?thesis using assms(3) by (simp add: continue_match_def Cons_nth_drop_Suc [symmetric])
qed

lemma continue_match_advance:
  assumes "at_state ps str" "\<not> complete str" "(ps ! currentState str) e (Some (relatedValues str))"
    and "matched_events str' = matched_events str @ [e]" "currentState str' = Suc (currentState str)"
    and "relatedValues str' = dep_update nfa (relatedValues str) (currentState str) e"
  shows "continue_match nfa ps str (e # es) = continue_match nfa ps str' es"
proof -
  have "currentState str < length ps" using assms(1,2) by (auto simp: at_state_def)
  then show ?thesis using assms(3-6)
    by (simp add: continue_match_def Cons_nth_drop_Suc [symmetric] option.map_comp comp_def case_prod_unfold)
qed

lemma continue_match_end:
  "at_state ps str \<Longrightarrow> \<not> complete str \<Longrightarrow> continue_match nfa ps str [] = None"
  by (cases "drop (currentState str) ps") (auto simp: at_state_def continue_match_def)

lemma continue_match_complete:
  "at_state ps str \<Longrightarrow> complete str \<Longrightarrow> continue_match nfa ps str es = Some (matched_events str, es)"
  by (simp add: at_state_def continue_match_def)

lemma publish_match: "publishResultMatches OneByOne str = new_tuples (matched_events str)"
  by (simp add: publishResultMatches_def comp_def)

definition first_matcher :: "('e, 'd) NFAController \<Rightarrow> ('e, 'd) Matcher \<Rightarrow> bool" where
  "first_matcher nfa m \<longleftrightarrow> strategy m = FirstMatch \<and> outStrategy m = OneByOne \<and> nfaController m = nfa"

abbreviation runs_to :: "('e, 'd) Matcher \<Rightarrow> 'e list \<Rightarrow> 'e list list \<Rightarrow> bool" where
  "runs_to m es ms \<equiv> \<exists>m'. matcher_run m (new_tuples es) = Some (Inr (m', concat (map new_tuples ms))) \<and>
     counter (engine m') = counter (engine m) + length ms"

lemma runs_to_step:
  assumes "matcher_step m (Data e False) = Some (Inr (m1, concat (map new_tuples ms1)))"
    and "counter (engine m1) = counter (engine m) + length ms1" and "runs_to m1 es ms2"
  shows "runs_to m (e # es) (ms1 @ ms2)"
  using assms by auto

definition first_rest :: "('e, 'd) NFAController \<Rightarrow> ('e \<Rightarrow> 'd option \<Rightarrow> bool) list \<Rightarrow> ('e, 'd) NFAStructure \<Rightarrow> 'e list \<Rightarrow> 'e list list" where
  "first_rest nfa ps str es = (case continue_match nfa ps str es of None \<Rightarrow> [] | Some (mt, rest) \<Rightarrow> mt # fm nfa ps rest)"

text \<open>One event on an engine without a partial match, and on an engine with one.\<close>

lemma first_match_idle:
  assumes lin: "linear_nfa nfa ps" and len: "2 \<le> length ps" and fm: "first_matcher nfa m" and po: "pool (engine m) = []"
    and idle: "runs_to m es (fm nfa ps es)"
    and partial: "\<And>m' str. first_matcher nfa m' \<Longrightarrow> pool (engine m') = [str] \<Longrightarrow> at_state ps str \<Longrightarrow> \<not> complete str \<Longrightarrow> runs_to m' es (first_rest nfa ps str es)"
  shows "runs_to m (e # es) (fm nfa ps (e # es))"
proof -
  have ps: "ps ! 0 = hd ps" "drop 1 ps = tl ps" using len by (cases ps; simp)+
  have m: "strategy m = FirstMatch" "outStrategy m = OneByOne" "nfaController m = nfa" using fm by (simp_all add: first_matcher_def)
  show ?thesis
  proof (cases "hd ps e None")
    case False
    then have "matcher_step m (Data e False) = Some (Inr (m, concat (map new_tuples [])))"
      using po m start_linear(1) [OF lin len, of e "engine m"] ps by (simp add: runEngine_def first_runEngine_def)
    from runs_to_step [OF this _ idle] show ?thesis using False by simp
  next
    case True
    obtain str where s: "createStartStructure nfa e (engine m) = Inr ((engine m)\<lparr>pool := [str], sequence := sequence (engine m) + 1\<rparr>)"
      "at_state ps str" "matched_events str = [e]" "currentState str = 1" "\<not> complete str" "relatedValues str = dep_update nfa (dep_init nfa) 0 e"
      using start_linear(2) [OF lin len, of e "engine m"] True ps po by auto
    let ?m = "m\<lparr>engine := (engine m)\<lparr>pool := [str], sequence := sequence (engine m) + 1\<rparr>\<rparr>"
    have "matcher_step m (Data e False) = Some (Inr (?m, concat (map new_tuples [])))"
      using po m s(1) by (simp add: runEngine_def first_runEngine_def)
    moreover have "runs_to ?m es (first_rest nfa ps str es)" using partial [of ?m str] m s(2,5) by (simp add: first_matcher_def)
    moreover have "first_rest nfa ps str es = fm nfa ps (e # es)"
      using True s(3,4,6) ps by (simp add: first_rest_def continue_match_def split: option.splits)
    ultimately show ?thesis using runs_to_step [of m e ?m "[]" es "fm nfa ps (e # es)"] by simp
  qed
qed

lemma first_match_partial:
  assumes lin: "linear_nfa nfa ps" and fm: "first_matcher nfa m" and po: "pool (engine m) = [str]" and at: "at_state ps str" "\<not> complete str"
    and idle: "\<And>m'. first_matcher nfa m' \<Longrightarrow> pool (engine m') = [] \<Longrightarrow> runs_to m' es (fm nfa ps es)"
    and partial: "\<And>m' str. first_matcher nfa m' \<Longrightarrow> pool (engine m') = [str] \<Longrightarrow> at_state ps str \<Longrightarrow> \<not> complete str \<Longrightarrow> runs_to m' es (first_rest nfa ps str es)"
  shows "runs_to m (e # es) (first_rest nfa ps str (e # es))"
proof (cases "(ps ! currentState str) e (Some (relatedValues str))")
  case False
  then have "matcher_step m (Data e False) = Some (Inr (m\<lparr>engine := (engine m)\<lparr>pool := [str]\<rparr>\<rparr>, concat (map new_tuples [])))"
    using po fm process_linear_stay [OF lin at(1)] by (simp add: first_matcher_def runEngine_def first_runEngine_def)
  moreover have "(m\<lparr>engine := (engine m)\<lparr>pool := [str]\<rparr>\<rparr>) = m" using po by simp
  moreover have "first_rest nfa ps str (e # es) = first_rest nfa ps str es"
    using continue_match_stay [OF at False, of nfa es] by (simp add: first_rest_def)
  ultimately show ?thesis using runs_to_step [of m e m "[]" es] partial [OF fm po at] by simp
next
  case True
  obtain str' where s: "engineProcess (length (nfaStates nfa)) nfa (windowConst (engine m)) e str = Some (Inr (if complete str' then Matched str' else Kept str'))"
    "at_state ps str'" "matched_events str' = matched_events str @ [e]" "currentState str' = Suc (currentState str)"
    "relatedValues str' = dep_update nfa (relatedValues str) (currentState str) e"
    using process_linear_advance [OF lin at True] by blast
  have c: "first_rest nfa ps str (e # es) = first_rest nfa ps str' es"
    using continue_match_advance [OF at True s(3-5), of es] by (simp add: first_rest_def)
  show ?thesis
  proof (cases "complete str'")
    case False
    let ?m = "m\<lparr>engine := (engine m)\<lparr>pool := [str']\<rparr>\<rparr>"
    have "matcher_step m (Data e False) = Some (Inr (?m, concat (map new_tuples [])))"
      using po fm s(1) False by (simp add: first_matcher_def runEngine_def first_runEngine_def)
    then show ?thesis using runs_to_step [of m e ?m "[]" es] partial [of ?m str'] fm s(2) False c by (simp add: first_matcher_def)
  next
    case fin: True
    let ?m = "m\<lparr>engine := (engine m)\<lparr>pool := [], counter := counter (engine m) + 1\<rparr>\<rparr>"
    have "matcher_step m (Data e False) = Some (Inr (?m, concat (map new_tuples [matched_events str'])))"
      using po fm s(1) fin by (simp add: first_matcher_def runEngine_def first_runEngine_def publish_match)
    moreover have "runs_to ?m es (fm nfa ps es)" using idle [of ?m] fm by (simp add: first_matcher_def)
    ultimately have "runs_to m (e # es) ([matched_events str'] @ fm nfa ps es)" by (intro runs_to_step) auto
    then show ?thesis using c continue_match_complete [OF s(2) fin, of nfa es] by (simp add: first_rest_def)
  qed
qed

lemma first_match_run:
  assumes lin: "linear_nfa nfa ps" and len: "2 \<le> length ps"
  shows "\<And>m. first_matcher nfa m \<Longrightarrow> pool (engine m) = [] \<Longrightarrow> runs_to m es (fm nfa ps es)"
    and "\<And>m str. first_matcher nfa m \<Longrightarrow> pool (engine m) = [str] \<Longrightarrow> at_state ps str \<Longrightarrow> \<not> complete str \<Longrightarrow>
      runs_to m es (first_rest nfa ps str es)"
proof (induction es)
  case Nil
  { case 1 show ?case by simp }
  { case 2 then show ?case by (simp add: first_rest_def continue_match_end) }
next
  case (Cons e es)
  { case 1 show ?case by (rule first_match_idle [OF lin len 1 Cons(1) [OF 1] Cons(2)]) }
  { case 2 show ?case by (rule first_match_partial [OF lin 2 Cons]) }
qed

section \<open>The next match engine on linear automata\<close>

abbreviation nm :: "('e, 'd) NFAController \<Rightarrow> ('e \<Rightarrow> 'd option \<Rightarrow> bool) list \<Rightarrow> 'e list \<Rightarrow> 'e list list" where
  "nm nfa ps es \<equiv> next_matches (dep_update nfa) (dep_init nfa) (hd ps) (tl ps) es"

text \<open>The matches that come from the partial matches of the pool when \<open>es\<close> follow.\<close>

definition contribution :: "('e, 'd) NFAController \<Rightarrow> ('e \<Rightarrow> 'd option \<Rightarrow> bool) list \<Rightarrow> 'e list \<Rightarrow> ('e, 'd) NFAStructure \<Rightarrow> 'e list list" where
  "contribution nfa ps es str =
     (if complete str then [] else (case continue_match nfa ps str es of None \<Rightarrow> [] | Some (m, rest) \<Rightarrow> [m]))"

definition pool_matches :: "('e, 'd) NFAController \<Rightarrow> ('e \<Rightarrow> 'd option \<Rightarrow> bool) list \<Rightarrow> 'e list \<Rightarrow> ('e, 'd) NFAStructure list \<Rightarrow> 'e list multiset" where
  "pool_matches nfa ps es strs = mset (concat (map (contribution nfa ps es) strs))"

definition pool_ok :: "('e \<Rightarrow> 'd option \<Rightarrow> bool) list \<Rightarrow> ('e, 'd) NFAStructure list \<Rightarrow> bool" where
  "pool_ok ps strs \<longleftrightarrow> (\<forall>s\<in>set strs. at_state ps s) \<and> distinct (map equality strs)"

lemma pool_matches_Nil: "\<forall>s\<in>set strs. at_state ps s \<Longrightarrow> pool_matches nfa ps [] strs = {#}"
  by (auto simp: pool_matches_def contribution_def continue_match_end)

lemma pool_matches_filter:
  "\<forall>s\<in>set strs. \<not> P s \<longrightarrow> complete s \<Longrightarrow> pool_matches nfa ps es (filter P strs) = pool_matches nfa ps es strs"
  by (induction strs) (auto simp: pool_matches_def contribution_def)

text \<open>One event and one partial match.\<close>

lemma process_linear_cases:
  assumes "linear_nfa nfa ps" "at_state ps str"
  obtains (kept) str' where "engineProcess fuel nfa win e str = Some (Inr (Kept str'))" "at_state ps str'" "equality str' = equality str"
      "complete str \<Longrightarrow> str' = str" "\<And>es. contribution nfa ps (e # es) str = contribution nfa ps es str'"
    | (matched) str' where "engineProcess fuel nfa win e str = Some (Inr (Matched str'))" "at_state ps str'" "equality str' = equality str"
      "complete str'" "\<not> complete str" "\<And>es. contribution nfa ps (e # es) str = matched_events str' # contribution nfa ps es str'"
proof (cases "complete str \<or> \<not> (ps ! currentState str) e (Some (relatedValues str))")
  case True
  have "contribution nfa ps (e # es) str = contribution nfa ps es str" for es
    using True continue_match_stay [OF assms(2)] by (auto simp: contribution_def)
  then show ?thesis using kept [of str] process_linear_stay [OF assms True] assms(2) by blast
next
  case False
  then have c: "\<not> complete str" and p: "(ps ! currentState str) e (Some (relatedValues str))" by simp_all
  obtain str' where s: "engineProcess fuel nfa win e str = Some (Inr (if complete str' then Matched str' else Kept str'))"
    "at_state ps str'" "matched_events str' = matched_events str @ [e]" "currentState str' = Suc (currentState str)"
    "relatedValues str' = dep_update nfa (relatedValues str) (currentState str) e" "equality str' = equality str"
    using process_linear_advance [OF assms c p] .
  note a = continue_match_advance [OF assms(2) c p s(3-5)]
  show ?thesis
  proof (cases "complete str'")
    case True
    then have "contribution nfa ps (e # es) str = matched_events str' # contribution nfa ps es str'" for es
      using c a [of es] continue_match_complete [OF s(2) True] by (simp add: contribution_def)
    then show ?thesis using matched [of str'] s True c by simp
  next
    case f: False
    then have "contribution nfa ps (e # es) str = contribution nfa ps es str'" for es
      using c a [of es] by (simp add: contribution_def)
    then show ?thesis using kept [of str'] s f c by simp
  qed
qed

lemma process_all_linear:
  assumes "linear_nfa nfa ps" "\<forall>s\<in>set strs. at_state ps s"
  shows "\<exists>strs' ms del. process_all fuel nfa OneByOne win e strs = Some (Inr (strs', concat (map new_tuples ms), length ms, del)) \<and>
    (\<forall>s\<in>set strs'. at_state ps s) \<and> map equality strs' = map equality strs \<and>
    (\<forall>s\<in>set strs. complete s \<longrightarrow> s \<in> set strs') \<and> (\<forall>d\<in>set del. \<exists>s\<in>set strs'. equality s = d \<and> complete s) \<and>
    (\<forall>es. pool_matches nfa ps (e # es) strs = mset ms + pool_matches nfa ps es strs')"
  using assms(2)
proof (induction strs)
  case Nil
  show ?case by (intro exI [of _ "[]"]) (simp add: pool_matches_def)
next
  case (Cons str strs)
  obtain strs' ms del where ih: "process_all fuel nfa OneByOne win e strs = Some (Inr (strs', concat (map new_tuples ms), length ms, del))"
    "\<forall>s\<in>set strs'. at_state ps s" "map equality strs' = map equality strs" "\<forall>s\<in>set strs. complete s \<longrightarrow> s \<in> set strs'"
    "\<forall>d\<in>set del. \<exists>s\<in>set strs'. equality s = d \<and> complete s"
    "\<forall>es. pool_matches nfa ps (e # es) strs = mset ms + pool_matches nfa ps es strs'"
    using Cons by auto
  have "at_state ps str" using Cons.prems by simp
  with assms(1) show ?case
  proof (cases rule: process_linear_cases [where fuel = fuel and win = win and e = e])
    case (kept str')
    then show ?thesis using ih
      by (intro exI [of _ "str' # strs'"] exI [of _ ms] exI [of _ del]) (auto simp: pool_matches_def)
  next
    case (matched str')
    then show ?thesis using ih
      by (intro exI [of _ "str' # strs'"] exI [of _ "matched_events str' # ms"] exI [of _ "equality str # del"])
        (auto simp: pool_matches_def publish_match)
  qed
qed

lemma gc_loop_removes:
  "\<exists>R\<subseteq>set ds. snd (gc_loop i ds strs) = filter (\<lambda>s. equality s \<notin> R) strs \<and> set (fst (gc_loop i ds strs)) \<subseteq> set ds"
proof (induction i ds strs rule: gc_loop.induct)
  case (2 i d ds strs)
  show ?case
  proof (cases "i < Suc (length ds)")
    case True
    then obtain R where "R \<subseteq> set ds" "snd (gc_loop (Suc i) ds (filter (\<lambda>s. equality s \<noteq> d) strs)) = filter (\<lambda>s. equality s \<notin> R) (filter (\<lambda>s. equality s \<noteq> d) strs)"
      "set (fst (gc_loop (Suc i) ds (filter (\<lambda>s. equality s \<noteq> d) strs))) \<subseteq> set ds" using 2 by blast
    then show ?thesis using True by (intro exI [of _ "insert d R"]) (auto intro!: filter_cong)
  qed (simp add: exI [of _ "{}"])
qed simp

text \<open>
  The invariant of the engine: partial matches are numbered uniquely, and only complete ones
  are marked for deletion.
\<close>

definition next_inv :: "('e \<Rightarrow> 'd option \<Rightarrow> bool) list \<Rightarrow> ('e, 'd) CEPEngine \<Rightarrow> bool" where
  "next_inv ps E \<longleftrightarrow> pool_ok ps (pool E) \<and> (\<forall>s\<in>set (pool E). equality s < sequence E) \<and>
     (\<forall>d\<in>set (deletedStructures E). d < sequence E) \<and>
     (\<forall>s\<in>set (pool E). equality s \<in> set (deletedStructures E) \<longrightarrow> complete s)"

lemma pool_ok_unique: "pool_ok ps strs \<Longrightarrow> s \<in> set strs \<Longrightarrow> u \<in> set strs \<Longrightarrow> equality s = equality u \<Longrightarrow> s = u"
  unfolding pool_ok_def by (metis distinct_map inj_onD)

lemma next_inv_processed:
  assumes inv: "next_inv ps E" and at: "\<forall>s\<in>set strs. at_state ps s" and eq: "map equality strs = map equality (pool E)"
    and old: "\<forall>s\<in>set (pool E). complete s \<longrightarrow> s \<in> set strs" and del: "\<forall>d\<in>set del. \<exists>s\<in>set strs. equality s = d \<and> complete s"
  shows "next_inv ps (E\<lparr>pool := strs, counter := n, deletedStructures := deletedStructures E @ del\<rparr>)"
proof -
  have ok: "pool_ok ps strs" using inv at eq by (simp add: next_inv_def pool_ok_def)
  have ids: "equality ` set strs = equality ` set (pool E)" using arg_cong [OF eq, of set] by simp
  have src: "\<exists>u\<in>set (pool E). equality u = equality s" if "s \<in> set strs" for s
  proof -
    have "equality s \<in> equality ` set (pool E)" unfolding ids [symmetric] using that by simp
    then show ?thesis by (auto simp: image_iff)
  qed
  have lt: "equality s < sequence E" if s: "s \<in> set strs" for s
  proof -
    obtain u where "u \<in> set (pool E)" "equality u = equality s" using src [OF s] by blast
    then show ?thesis using inv by (auto simp: next_inv_def)
  qed
  have "complete s" if s: "s \<in> set strs" "equality s \<in> set (deletedStructures E)" for s
  proof -
    obtain u where u: "u \<in> set (pool E)" "equality u = equality s" using src [OF s(1)] by blast
    then have "complete u" using inv s(2) by (auto simp: next_inv_def)
    then show ?thesis using old u pool_ok_unique [OF ok s(1), of u] by auto
  qed
  moreover have "complete s" if "s \<in> set strs" "equality s \<in> set del" for s
    using del that pool_ok_unique [OF ok that(1)] by metis
  ultimately show ?thesis using inv ok lt del by (fastforce simp: next_inv_def)
qed

lemma next_inv_started:
  assumes "next_inv ps E" "at_state ps str" "equality str = sequence E"
  shows "next_inv ps (E\<lparr>pool := pool E @ [str], sequence := sequence E + 1\<rparr>)"
  using assms by (fastforce simp: next_inv_def pool_ok_def less_Suc_eq)

lemma next_gc:
  assumes "next_inv ps E"
  shows "next_inv ps (runGCstructures E)" and "pool_matches nfa ps es (pool (runGCstructures E)) = pool_matches nfa ps es (pool E)"
    and "counter (runGCstructures E) = counter E"
proof -
  obtain R where R: "R \<subseteq> set (deletedStructures E)" "snd (gc_loop 0 (deletedStructures E) (pool E)) = filter (\<lambda>s. equality s \<notin> R) (pool E)"
    "set (fst (gc_loop 0 (deletedStructures E) (pool E))) \<subseteq> set (deletedStructures E)"
    using gc_loop_removes [of "deletedStructures E" 0 "pool E"] by (elim exE conjE)
  then show "next_inv ps (runGCstructures E)" using assms
    by (auto simp: runGCstructures_def case_prod_unfold Let_def next_inv_def pool_ok_def distinct_map inj_on_def)
  have "\<forall>s\<in>set (pool E). \<not> equality s \<notin> R \<longrightarrow> complete s" using R(1) assms by (auto simp: next_inv_def)
  from pool_matches_filter [OF this] show "pool_matches nfa ps es (pool (runGCstructures E)) = pool_matches nfa ps es (pool E)"
    using R(2) by (simp add: runGCstructures_def case_prod_unfold Let_def)
  show "counter (runGCstructures E) = counter E" by (simp add: runGCstructures_def case_prod_unfold Let_def)
qed

lemma start_next:
  assumes "linear_nfa nfa ps" "2 \<le> length ps" "next_inv ps E"
  obtains E1 where "createStartStructure nfa e E = Inr E1" "next_inv ps E1" "counter E1 = counter E"
    and "\<forall>es. pool_matches nfa ps es (pool E1) + mset (nm nfa ps es) = pool_matches nfa ps es (pool E) + mset (nm nfa ps (e # es))"
proof -
  have ps: "ps ! 0 = hd ps" "drop 1 ps = tl ps" using assms(2) by (cases ps; simp)+
  show ?thesis
  proof (cases "hd ps e None")
    case False
    then show ?thesis using that [of E] start_linear(1) [OF assms(1,2), of e E] ps assms(3) by simp
  next
    case True
    then obtain str where s: "createStartStructure nfa e E = Inr (E\<lparr>pool := pool E @ [str], sequence := sequence E + 1\<rparr>)"
      "at_state ps str" "matched_events str = [e]" "currentState str = 1" "\<not> complete str"
      "relatedValues str = dep_update nfa (dep_init nfa) 0 e" "equality str = sequence E"
      using start_linear(2) [OF assms(1,2), of e E] ps by auto
    have c: "nm nfa ps (e # es) = contribution nfa ps es str @ nm nfa ps es" for es
      using True s(3-6) ps by (simp add: contribution_def continue_match_def split: option.splits)
    have "pool_matches nfa ps es (pool E @ [str]) + mset (nm nfa ps es) = pool_matches nfa ps es (pool E) + mset (nm nfa ps (e # es))" for es
      unfolding c by (simp add: pool_matches_def)
    then show ?thesis using that [OF s(1) next_inv_started [OF assms(3) s(2,7)]] by simp
  qed
qed

lemma next_engine_step:
  assumes "linear_nfa nfa ps" "2 \<le> length ps" "next_inv ps E"
  obtains E' ms where "next_runEngine fuel nfa OneByOne E e = Some (Inr (E', concat (map new_tuples ms)))" "next_inv ps E'"
    "counter E' = counter E + length ms"
    and "\<forall>es. pool_matches nfa ps (e # es) (pool E) + mset (nm nfa ps (e # es)) = mset ms + (pool_matches nfa ps es (pool E') + mset (nm nfa ps es))"
proof -
  have "\<forall>s\<in>set (pool E). at_state ps s" using assms(3) by (simp add: next_inv_def pool_ok_def)
  from process_all_linear [OF assms(1) this, of fuel "windowConst E" e] obtain strs ms del where
    p: "process_all fuel nfa OneByOne (windowConst E) e (pool E) = Some (Inr (strs, concat (map new_tuples ms), length ms, del))"
    and at: "\<forall>s\<in>set strs. at_state ps s" "map equality strs = map equality (pool E)" "\<forall>s\<in>set (pool E). complete s \<longrightarrow> s \<in> set strs"
      "\<forall>d\<in>set del. \<exists>s\<in>set strs. equality s = d \<and> complete s"
    and m: "\<forall>es. pool_matches nfa ps (e # es) (pool E) = mset ms + pool_matches nfa ps es strs" by blast
  let ?E = "E\<lparr>pool := strs, counter := counter E + length ms, deletedStructures := deletedStructures E @ del\<rparr>"
  obtain E1 where E1: "createStartStructure nfa e ?E = Inr E1" "next_inv ps E1" "counter E1 = counter ?E"
    "\<forall>es. pool_matches nfa ps es (pool E1) + mset (nm nfa ps es) = pool_matches nfa ps es (pool ?E) + mset (nm nfa ps (e # es))"
    by (rule start_next [OF assms(1,2) next_inv_processed [OF assms(3) at, of "counter E + length ms"], of e])
  let ?E' = "if deletedStructures E1 \<noteq> [] then runGCstructures E1 else E1"
  have g: "next_inv ps ?E'" "counter ?E' = counter E1" "\<forall>es. pool_matches nfa ps es (pool ?E') = pool_matches nfa ps es (pool E1)"
    using next_gc [OF E1(2)] E1(2) by simp_all
  show ?thesis
  proof (rule that)
    show "next_runEngine fuel nfa OneByOne E e = Some (Inr (?E', concat (map new_tuples ms)))"
      using p E1(1) by (simp add: next_runEngine_def)
    show "next_inv ps ?E'" by (rule g(1))
    show "counter ?E' = counter E + length ms" using g(2) E1(3) by simp
    show "\<forall>es. pool_matches nfa ps (e # es) (pool E) + mset (nm nfa ps (e # es)) = mset ms + (pool_matches nfa ps es (pool ?E') + mset (nm nfa ps es))"
      using g(3) E1(4) m by (simp add: ac_simps del: next_matches.simps)
  qed
qed

lemma next_match_run:
  assumes "linear_nfa nfa ps" "2 \<le> length ps" "next_inv ps (engine m)"
    and "strategy m = NextMatches" "outStrategy m = OneByOne" "nfaController m = nfa"
  shows "\<exists>ms. runs_to m es ms \<and> mset ms = pool_matches nfa ps es (pool (engine m)) + mset (nm nfa ps es)"
  using assms(3-6)
proof (induction es arbitrary: m)
  case Nil
  then have "pool_matches nfa ps [] (pool (engine m)) = {#}" by (intro pool_matches_Nil) (simp add: next_inv_def pool_ok_def)
  then show ?case by (intro exI [of _ "[]"]) simp
next
  case (Cons e es)
  obtain E' ms1 where s: "next_runEngine (length (nfaStates nfa)) nfa OneByOne (engine m) e = Some (Inr (E', concat (map new_tuples ms1)))"
    "next_inv ps E'" "counter E' = counter (engine m) + length ms1"
    and q: "\<forall>es. pool_matches nfa ps (e # es) (pool (engine m)) + mset (nm nfa ps (e # es)) = mset ms1 + (pool_matches nfa ps es (pool E') + mset (nm nfa ps es))"
    by (rule next_engine_step [OF assms(1,2) Cons.prems(1), of "length (nfaStates nfa)" e])
  have st: "matcher_step m (Data e False) = Some (Inr (m\<lparr>engine := E'\<rparr>, concat (map new_tuples ms1)))"
    using s(1) Cons.prems by (simp add: runEngine_def)
  obtain ms2 where r: "runs_to (m\<lparr>engine := E'\<rparr>) es ms2" "mset ms2 = pool_matches nfa ps es (pool E') + mset (nm nfa ps es)"
    using Cons.IH [of "m\<lparr>engine := E'\<rparr>"] s(2) Cons.prems by auto
  have "runs_to m (e # es) (ms1 @ ms2)" by (rule runs_to_step [OF st]) (use s(3) r(1) in auto)
  then show ?case using q r(2) by (intro exI [of _ "ms1 @ ms2"]) simp
qed

section \<open>Sequence patterns become linear automata\<close>

text \<open>The transitions of a sequence pattern behind the state \<open>r\<close> when \<open>g\<close> states have been numbered.\<close>

fun seq_chain :: "('e, 'd) state_ref \<Rightarrow> nat \<Rightarrow> ('e \<Rightarrow> 'd option \<Rightarrow> bool) list \<Rightarrow> ('e, 'd) Expr list" where
  "seq_chain r g [] = []"
| "seq_chain r g [p] = [\<lparr>ex_op = SEQ, fromState = r, toState = Some (1000, Some p)\<rparr>]"
| "seq_chain r g (p # q # ps) =
     \<lparr>ex_op = SEQ, fromState = r, toState = Some (g + 1, Some p)\<rparr> # seq_chain (g + 1, Some p) (g + 1) (q # ps)"

lemma seq_pattern_exprs:
  "ps \<noteq> [] \<Longrightarrow> exprs (seq_pattern_from s g ps) =
     \<lparr>ex_op = END, fromState = (1000, Some (last ps)), toState = None\<rparr> # exprs s @ seq_chain (cep_ref s) g ps"
  by (induction s g ps rule: seq_pattern_from.induct)
    (auto simp: cep_seq_def CEPState_stop_def CEPState_new_def)

definition state_pred :: "('e \<Rightarrow> 'd option \<Rightarrow> bool) list \<Rightarrow> nat \<Rightarrow> ('e \<Rightarrow> 'd option \<Rightarrow> bool) option" where
  "state_pred ps i = (if i = 0 then None else if i = 1000 then Some (last ps) else Some (ps ! (i - 1)))"

lemma seq_chain_refs:
  assumes "k < length ps" "length ps \<le> 1000"
  shows "set (pattern_refs (seq_chain (k, state_pred ps k) k (drop k ps))) = (\<lambda>i. (i, state_pred ps i)) ` ({k..<length ps} \<union> {1000})"
  using assms
proof (induction "length ps - k" arbitrary: k)
  case (Suc n)
  show ?case
  proof (cases "Suc k = length ps")
    case True
    then have "drop k ps = [last ps]"
      by (metis Cons_nth_drop_Suc Suc.prems(1) drop_all last_conv_nth le_refl length_0_conv lessE diff_Suc_1 list.size(3) not_less_zero)
    moreover have "{k..<length ps} = {k}" using True by auto
    ultimately show ?thesis by (auto simp: pattern_refs_def state_pred_def)
  next
    case False
    then have k: "Suc k < length ps" using Suc.prems(1) by simp
    then have d: "drop k ps = ps ! k # ps ! Suc k # drop (Suc (Suc k)) ps" by (simp add: Cons_nth_drop_Suc)
    have "state_pred ps (Suc k) = Some (ps ! k)" using k Suc.prems(2) by (simp add: state_pred_def)
    moreover have "set (pattern_refs (seq_chain (Suc k, state_pred ps (Suc k)) (Suc k) (drop (Suc k) ps))) =
        (\<lambda>i. (i, state_pred ps i)) ` ({Suc k..<length ps} \<union> {1000})"
      using Suc.hyps(1) [of "Suc k"] Suc.hyps(2) Suc.prems(2) k by simp
    moreover have "{k..<length ps} = insert k {Suc k..<length ps}" using Suc.prems(1) by auto
    moreover have "drop (Suc k) ps = ps ! Suc k # drop (Suc (Suc k)) ps" using k by (simp add: Cons_nth_drop_Suc)
    ultimately show ?thesis using d k by (auto simp: pattern_refs_def)
  qed
qed simp

lemma pattern_states_seq:
  assumes "ps \<noteq> []" "length ps \<le> 1000"
  shows "pattern_states (exprs (seq_pattern ps)) = map (\<lambda>i. (i, state_pred ps i)) ([0..<length ps] @ [1000])"
proof -
  let ?refs = "pattern_refs (exprs (seq_pattern ps))"
  have "?refs = (1000, Some (last ps)) # (0, None) # pattern_refs (seq_chain (0, state_pred ps 0) 0 (drop 0 ps))"
    using assms(1) by (simp add: seq_pattern_def seq_pattern_exprs CEPState_start_def pattern_refs_def state_pred_def)
  then have r: "set ?refs = (\<lambda>i. (i, state_pred ps i)) ` ({0..<length ps} \<union> {1000})"
    using seq_chain_refs [of 0 ps] assms by (auto simp: state_pred_def)
  have ids: "sort (remdups (map fst ?refs)) = [0..<length ps] @ [1000]"
  proof (rule sorted_distinct_set_unique)
    show "sorted ([0..<length ps] @ [1000])" "distinct ([0..<length ps] @ [1000])" using assms(2) by (auto simp: sorted_append)
    have "set (map fst ?refs) = {0..<length ps} \<union> {1000}" using r by (simp add: image_image)
    then show "set (sort (remdups (map fst ?refs))) = set ([0..<length ps] @ [1000])" by auto
  qed simp_all
  have "map_of (rev ?refs) i = Some (state_pred ps i)" if "i \<in> set ([0..<length ps] @ [1000])" for i
  proof -
    have "(i, state_pred ps i) \<in> set (rev ?refs)" using r that by auto
    then obtain v where v: "map_of (rev ?refs) i = Some v" by (metis map_of_eq_None_iff image_eqI fst_conv option.exhaust)
    then have "(i, v) \<in> set ?refs" using map_of_SomeD by fastforce
    then show ?thesis using v r by auto
  qed
  then show ?thesis unfolding pattern_states_def ids by (intro map_cong) auto
qed

text \<open>
  The automaton after the first \<open>k\<close> transitions: states 0 to \<open>length ps\<close>, edge \<open>i\<close> with the
  predicate of state \<open>i + 1\<close>.
\<close>

definition seq_state :: "nat \<Rightarrow> nat \<Rightarrow> nat \<Rightarrow> NFAState" where
  "seq_state n k i = \<lparr>stateType = (if i = 0 then Start else if i = n then Final else Normal),
     stateName = to_string (if i = n then 1000 else i), forwardEdges = (if i < k then [i] else []), loopEdge = None, spec = Star\<rparr>"

definition seq_edge :: "('e \<Rightarrow> 'd option \<Rightarrow> bool) list \<Rightarrow> nat \<Rightarrow> nat \<Rightarrow> ('e, 'd) NFAEdge" where
  "seq_edge ps k i = \<lparr>edgeType = Forward, predicate = ps ! i, destState = (if i < k then Some (Suc i) else None), numOfLoop = 0\<rparr>"

definition seq_nfa :: "'d \<Rightarrow> ('d \<Rightarrow> nat \<Rightarrow> 'e \<Rightarrow> 'd) \<Rightarrow> ('e \<Rightarrow> 'd option \<Rightarrow> bool) list \<Rightarrow> nat \<Rightarrow> ('e, 'd) NFAController" where
  "seq_nfa d0 upd ps k =
     \<lparr>nfaStates = map (seq_state (length ps) k) [0..<Suc (length ps)], transitions = map (seq_edge ps k) [0..<length ps],
      startState = Some 0, dep_init = d0, dep_update = upd\<rparr>"

lemma construct_states_append:
  "construct_states (rs @ us) c = bind_res (construct_states rs c) (construct_states us)"
proof (induction rs arbitrary: c)
  case (Cons r rs)
  then show ?case by (cases "construct_state r c") auto
qed simp

lemma construct_state_inner:
  "i \<noteq> 0 \<Longrightarrow> construct_state (i, Some p) (nfa, nptr, eptr) =
     Inr (nfa\<lparr>nfaStates := nfaStates nfa @ [\<lparr>stateType = (if i = 1000 then Final else Normal), stateName = to_string i,
                forwardEdges = [], loopEdge = None, spec = Star\<rparr>],
              transitions := transitions nfa @ [\<lparr>edgeType = Forward, predicate = p, destState = None, numOfLoop = 0\<rparr>]\<rparr>,
          nptr(i \<mapsto> length (nfaStates nfa)), eptr(i \<mapsto> length (transitions nfa)))"
  by (simp add: construct_state_def createFinalState_def createNormalState_def createForwardEdge_def addState_def)

lemma construct_states_prefix:
  assumes "j < length ps" "length ps \<le> 1000"
  shows "construct_states (map (\<lambda>i. (i, state_pred ps i)) [0..<Suc j]) (NFAController_new d0 upd, Map.empty, Map.empty) =
    Inr (\<lparr>nfaStates = map (seq_state (length ps) 0) [0..<Suc j], transitions = map (seq_edge ps 0) [0..<j],
          startState = Some 0, dep_init = d0, dep_update = upd\<rparr>,
         (\<lambda>i. if i \<le> j then Some i else None), (\<lambda>i. if 0 < i \<and> i \<le> j then Some (i - 1) else None))"
  using assms(1)
proof (induction j)
  case 0
  then show ?case using assms(2)
    by (auto simp: construct_state_def createStartState_def addState_def NFAController_new_def seq_state_def fun_eq_iff)
next
  case (Suc j)
  have u: "[0..<Suc (Suc j)] = [0..<Suc j] @ [Suc j]" by simp
  have pr: "state_pred ps (Suc j) = Some (ps ! j)" and ne: "Suc j \<noteq> 1000" "Suc j \<noteq> length ps"
    using Suc.prems assms(2) by (simp_all add: state_pred_def)
  have e: "map (seq_edge ps 0) [0..<Suc j] = map (seq_edge ps 0) [0..<j] @ [\<lparr>edgeType = Forward, predicate = ps ! j, destState = None, numOfLoop = 0\<rparr>]"
    by (simp add: seq_edge_def [of ps 0 j])
  have s: "seq_state (length ps) 0 (Suc j) = \<lparr>stateType = Normal, stateName = to_string (Suc j), forwardEdges = [], loopEdge = None, spec = Star\<rparr>"
    using ne(2) by (simp add: seq_state_def)
  show ?case using Suc ne(1) unfolding e u map_append construct_states_append
    by (simp add: pr s construct_state_inner fun_eq_iff del: upt_Suc)
qed

lemma construct_states_seq:
  assumes "ps \<noteq> []" "length ps \<le> 1000"
  shows "construct_states (map (\<lambda>i. (i, state_pred ps i)) ([0..<length ps] @ [1000])) (NFAController_new d0 upd, Map.empty, Map.empty) =
    Inr (seq_nfa d0 upd ps 0, (\<lambda>i. if i < length ps then Some i else if i = 1000 then Some (length ps) else None),
         (\<lambda>i. if 0 < i \<and> i < length ps then Some (i - 1) else if i = 1000 then Some (length ps - 1) else None))"
proof -
  obtain j where j: "length ps = Suc j" using assms(1) by (cases "length ps") auto
  have "state_pred ps 1000 = Some (ps ! j)" using j assms(1) by (simp add: state_pred_def last_conv_nth)
  then have pr: "construct_state (1000, state_pred ps 1000) (nfa, nptr, eptr) = construct_state (1000, Some (ps ! j)) (nfa, nptr, eptr)" for nfa nptr eptr
    by simp
  have e: "map (seq_edge ps 0) [0..<length ps] = map (seq_edge ps 0) [0..<j] @ [\<lparr>edgeType = Forward, predicate = ps ! j, destState = None, numOfLoop = 0\<rparr>]"
    unfolding j by (simp add: seq_edge_def [of ps 0 j])
  have s: "map (seq_state (length ps) 0) [0..<Suc (length ps)] = map (seq_state (length ps) 0) [0..<Suc j] @
      [\<lparr>stateType = Final, stateName = to_string 1000, forwardEdges = [], loopEdge = None, spec = Star\<rparr>]"
    using j by (simp add: seq_state_def [of _ _ "Suc j"])
  have "j < length ps" using j by simp
  from construct_states_prefix [OF this assms(2), of d0 upd] show ?thesis
    unfolding seq_nfa_def e s map_append construct_states_append
    using assms(2) j by (auto simp: pr construct_state_inner fun_eq_iff less_Suc_eq_le simp del: upt_Suc)
qed

lemma seq_transition:
  assumes "k < length ps"
  shows "createForwardTransition k k (Suc k) (seq_nfa d0 upd ps k) = Inr (seq_nfa d0 upd ps (Suc k))"
proof -
  have s: "map (seq_state (length ps) (Suc k)) [0..<Suc (length ps)] =
      (map (seq_state (length ps) k) [0..<Suc (length ps)])[k := (seq_state (length ps) k k)\<lparr>forwardEdges := [k]\<rparr>]"
    using assms by (intro nth_equalityI) (auto simp: nth_list_update seq_state_def simp del: upt_Suc)
  have e: "map (seq_edge ps (Suc k)) [0..<length ps] = (map (seq_edge ps k) [0..<length ps])[k := (seq_edge ps k k)\<lparr>destState := Some (Suc k)\<rparr>]"
    using assms by (intro nth_equalityI) (auto simp: nth_list_update seq_edge_def)
  show ?thesis using assms unfolding createForwardTransition_def seq_nfa_def s e
    by (auto simp: seq_state_def seq_edge_def simp del: upt_Suc)
qed

lemma construct_chain:
  assumes "k < length ps" "length ps \<le> 1000"
    and nptr: "\<And>i. i < length ps \<Longrightarrow> nptr i = Some i" "nptr 1000 = Some (length ps)"
    and eptr: "\<And>i. 0 < i \<Longrightarrow> i < length ps \<Longrightarrow> eptr i = Some (i - 1)" "eptr 1000 = Some (length ps - 1)"
  shows "construct_transitions (seq_chain (k, pr) k (drop k ps)) (seq_nfa d0 upd ps k, nptr, eptr) = Inr (seq_nfa d0 upd ps (length ps))"
  using assms(1)
proof (induction "length ps - k" arbitrary: k pr)
  case (Suc n)
  show ?case
  proof (cases "Suc k = length ps")
    case True
    then have d: "drop k ps = [ps ! k]" using Cons_nth_drop_Suc [OF Suc.prems] by simp
    have "nptr k = Some k" "eptr 1000 = Some k" "nptr 1000 = Some (Suc k)" using nptr(1) [OF Suc.prems] nptr(2) eptr(2) True [symmetric] by simp_all
    then show ?thesis using d seq_transition [OF Suc.prems, of d0 upd] True by simp
  next
    case False
    then have k: "Suc k < length ps" using Suc.prems by simp
    then have d: "drop k ps = ps ! k # ps ! Suc k # drop (Suc (Suc k)) ps" "drop (Suc k) ps = ps ! Suc k # drop (Suc (Suc k)) ps"
      by (simp_all add: Cons_nth_drop_Suc)
    have "construct_transitions (seq_chain (Suc k, Some (ps ! k)) (Suc k) (drop (Suc k) ps)) (seq_nfa d0 upd ps (Suc k), nptr, eptr) =
        Inr (seq_nfa d0 upd ps (length ps))"
      using Suc.hyps(1) [of "Suc k" "Some (ps ! k)"] Suc.hyps(2) k by simp
    then show ?thesis using d k nptr(1) [of k] nptr(1) [of "Suc k"] eptr(1) [of "Suc k"] seq_transition [OF Suc.prems, of d0 upd] by simp
  qed
qed simp

lemma constructNFA_seq:
  assumes "ps \<noteq> []" "length ps \<le> 1000"
  shows "constructNFA (seq_pattern ps) (NFAController_new d0 upd) = Inr (seq_nfa d0 upd ps (length ps))"
proof -
  have ex: "exprs (seq_pattern ps) = \<lparr>ex_op = END, fromState = (1000, Some (last ps)), toState = None\<rparr> #
      \<lparr>ex_op = START, fromState = (0, None), toState = None\<rparr> # seq_chain (0, None) 0 (drop 0 ps)"
    using assms(1) by (simp add: seq_pattern_def seq_pattern_exprs CEPState_start_def)
  have "construct_transitions (exprs (seq_pattern ps))
      (seq_nfa d0 upd ps 0, (\<lambda>i. if i < length ps then Some i else if i = 1000 then Some (length ps) else None),
         (\<lambda>i. if 0 < i \<and> i < length ps then Some (i - 1) else if i = 1000 then Some (length ps - 1) else None)) =
      Inr (seq_nfa d0 upd ps (length ps))"
    unfolding ex using assms by (simp add: construct_chain [where k = 0, simplified])
  then show ?thesis unfolding constructNFA_def pattern_states_seq [OF assms] construct_states_seq [OF assms] by simp
qed

lemma seq_nfa_linear: "ps \<noteq> [] \<Longrightarrow> linear_nfa (seq_nfa d0 upd ps (length ps)) ps"
  by (auto simp: linear_nfa_def seq_nfa_def seq_state_def seq_edge_def simp del: upt_Suc)

section \<open>Properties\<close>

abbreviation seq_matcher :: "('e, 'd) NFAController \<Rightarrow> SelectionStrategy \<Rightarrow> WindowStruct \<Rightarrow> ('e, 'd) Matcher" where
  "seq_matcher nfa st w \<equiv>
     \<lparr>engine = CEPEngine_new\<lparr>windowConst := w\<rparr>, nfaController = nfa, strategy = st, outStrategy = OneByOne\<rparr>"

text \<open>
  (C11) First match: a sequence pattern of two to 1000 predicates is translated into an automaton
  with which the matcher publishes, for every stream, exactly the consecutive earliest
  occurrences of the pattern, tuple by tuple, and counts them. The window constraint has no
  effect.
\<close>

theorem first_match_detects_sequences:
  fixes ps :: "('e \<Rightarrow> 'd option \<Rightarrow> bool) list"
  assumes "2 \<le> length ps" "length ps \<le> 1000"
  shows "\<exists>nfa m'. constructNFA (seq_pattern ps) (NFAController_new d0 upd) = Inr nfa \<and>
    matcher_run (seq_matcher nfa FirstMatch w) (new_tuples es) =
      Some (Inr (m', concat (map new_tuples (first_matches upd d0 (hd ps) (tl ps) es)))) \<and>
    counter (engine m') = length (first_matches upd d0 (hd ps) (tl ps) es)"
proof -
  have ne: "ps \<noteq> []" using assms(1) by auto
  let ?nfa = "seq_nfa d0 upd ps (length ps)"
  have "runs_to (seq_matcher ?nfa FirstMatch w) es (fm ?nfa ps es)"
    by (rule first_match_run(1) [OF seq_nfa_linear [OF ne] assms(1)]) (simp_all add: first_matcher_def CEPEngine_new_def)
  then show ?thesis using constructNFA_seq [OF ne assms(2), of d0 upd] by (auto simp: seq_nfa_def CEPEngine_new_def)
qed

theorem first_match_detects_sequences_witness:
  "\<exists>nfa m'. constructNFA (seq_pattern [\<lambda>x _. x = 1, \<lambda>x _. x = 2]) (NFAController_new () (\<lambda>d _ _. d)) = Inr nfa \<and>
    matcher_run (seq_matcher nfa FirstMatch (setWindowConstraint 5 (- 1) (- 1))) (new_tuples [1, 3, 2, 2, 1, 1, 2 :: nat]) =
      Some (Inr (m', new_tuples [1, 2, 1, 2])) \<and> counter (engine m') = 2"
proof -
  let ?ps = "[\<lambda>x _. x = 1, \<lambda>x _. x = 2] :: (nat \<Rightarrow> unit option \<Rightarrow> bool) list" and ?es = "[1, 3, 2, 2, 1, 1, 2 :: nat]"
  have l: "2 \<le> length ?ps" "length ?ps \<le> 1000" and f: "first_matches (\<lambda>d _ _. d) () (hd ?ps) (tl ?ps) ?es = [[1, 2], [1, 2]]"
    by simp_all
  have out: "concat (map new_tuples [[1, 2], [1, 2]]) = new_tuples [1, 2, 1, 2 :: nat]" "length [[1, 2], [1, 2 :: nat]] = 2" by simp_all
  show ?thesis
    using first_match_detects_sequences [OF l, of "()" "\<lambda>d _ _. d" "setWindowConstraint 5 (- 1) (- 1)" ?es] unfolding f out by blast
qed

text \<open>
  (C12) Next match: with the same automaton every tuple that satisfies the first predicate starts
  a match of its own; the matcher publishes exactly the matches of all these starts (as a
  multiset, the order within one tuple being that of the pool), whatever the garbage
  collection of finished matches does.
\<close>

theorem next_match_detects_sequences:
  fixes ps :: "('e \<Rightarrow> 'd option \<Rightarrow> bool) list"
  assumes "2 \<le> length ps" "length ps \<le> 1000"
  shows "\<exists>nfa m' ms. constructNFA (seq_pattern ps) (NFAController_new d0 upd) = Inr nfa \<and>
    matcher_run (seq_matcher nfa NextMatches w) (new_tuples es) = Some (Inr (m', concat (map new_tuples ms))) \<and>
    mset ms = mset (next_matches upd d0 (hd ps) (tl ps) es) \<and> counter (engine m') = length ms"
proof -
  have ne: "ps \<noteq> []" using assms(1) by auto
  let ?nfa = "seq_nfa d0 upd ps (length ps)"
  have "\<exists>ms. runs_to (seq_matcher ?nfa NextMatches w) es ms \<and>
      mset ms = pool_matches ?nfa ps es (pool (engine (seq_matcher ?nfa NextMatches w))) + mset (nm ?nfa ps es)"
    by (rule next_match_run [OF seq_nfa_linear [OF ne] assms(1)]) (simp_all add: next_inv_def pool_ok_def CEPEngine_new_def)
  then show ?thesis using constructNFA_seq [OF ne assms(2), of d0 upd] by (auto simp: seq_nfa_def CEPEngine_new_def pool_matches_def)
qed

theorem next_match_detects_sequences_witness:
  "\<exists>nfa m' ms. constructNFA (seq_pattern [\<lambda>x _. x = 1, \<lambda>x _. x = 2]) (NFAController_new () (\<lambda>d _ _. d)) = Inr nfa \<and>
    matcher_run (seq_matcher nfa NextMatches (setWindowConstraint 5 0 1)) (new_tuples [1, 1, 2 :: nat]) =
      Some (Inr (m', concat (map new_tuples ms))) \<and> mset ms = {#[1, 2], [1, 2]#} \<and> counter (engine m') = length ms"
proof -
  let ?ps = "[\<lambda>x _. x = 1, \<lambda>x _. x = 2] :: (nat \<Rightarrow> unit option \<Rightarrow> bool) list"
  have l: "2 \<le> length ?ps" "length ?ps \<le> 1000" and f: "mset (next_matches (\<lambda>d _ _. d) () (hd ?ps) (tl ?ps) [1, 1, 2]) = {#[1, 2], [1, 2]#}"
    by simp_all
  show ?thesis
    using next_match_detects_sequences [OF l, of "()" "\<lambda>d _ _. d" "setWindowConstraint 5 0 1" "[1, 1, 2]"] unfolding f by blast
qed

text \<open>The garbage collection leaves half of the structures that are marked for deletion.\<close>

lemma gc_loop_leaves_half: "length (fst (gc_loop i ds strs)) = min (length ds) ((length ds + i) div 2)"
  by (induction i ds strs rule: gc_loop.induct) auto

text \<open>
  A pattern of a single event is never reported: the match is complete when its first
  event is stored, but only later events are checked for completeness. With the first match
  engine the complete match then stays in the pool, so that no further match can start.
\<close>

theorem single_event_pattern_never_matches:
  fixes p :: "'e \<Rightarrow> 'd option \<Rightarrow> bool"
  shows "\<exists>nfa m'. constructNFA (seq_pattern [p]) (NFAController_new d0 upd) = Inr nfa \<and>
    matcher_run (seq_matcher nfa FirstMatch w) (new_tuples es) = Some (Inr (m', [])) \<and> counter (engine m') = 0"
proof -
  let ?nfa = "seq_nfa d0 upd [p] (length [p])"
  have lin: "linear_nfa ?nfa [p]" by (rule seq_nfa_linear) simp
  have stuck: "runs_to m es []"
    if "first_matcher ?nfa m" "pool (engine m) = [] \<or> (\<exists>str. pool (engine m) = [str] \<and> at_state [p] str \<and> complete str)" for m
    using that
  proof (induction es arbitrary: m)
    case (Cons e es)
    then have m: "strategy m = FirstMatch" "nfaController m = ?nfa" by (simp_all add: first_matcher_def)
    have "\<exists>E. runEngine (length (nfaStates ?nfa)) m e = Some (Inr (E, [])) \<and> counter E = counter (engine m) \<and>
        (pool E = [] \<or> (\<exists>str. pool E = [str] \<and> at_state [p] str \<and> complete str))"
    proof (cases "pool (engine m)")
      case Nil
      have st: "startState ?nfa = Some 0" "forwardEdges (nfaStates ?nfa ! 0) = [0]" using lin by (auto simp: linear_nfa_def)
      obtain str where "addEvent ?nfa e 0 (NFAStructure_new ?nfa 0 (sequence (engine m))) = Inr str" "currentState str = Suc 0" "complete str"
        by (rule addEvent_linear [OF lin, of 0 "NFAStructure_new ?nfa 0 (sequence (engine m))" e]) (auto simp: NFAStructure_new_def)
      then show ?thesis using m Nil st
        by (cases "evaluate ?nfa 0 e None") (auto simp: runEngine_def first_runEngine_def createStartStructure_def at_state_def)
    next
      case (Cons str strs)
      then show ?thesis using m Cons.prems process_linear_stay [OF lin, of str e]
        by (auto simp: runEngine_def first_runEngine_def)
    qed
    then obtain E where E: "matcher_step m (Data e False) = Some (Inr (m\<lparr>engine := E\<rparr>, concat (map new_tuples [])))"
      "counter E = counter (engine m)" "pool E = [] \<or> (\<exists>str. pool E = [str] \<and> at_state [p] str \<and> complete str)" using m by auto
    have "runs_to (m\<lparr>engine := E\<rparr>) es []"
      by (rule Cons.IH) (use Cons.prems(1) E(3) in \<open>simp_all add: first_matcher_def\<close>)
    then show ?case using runs_to_step [OF E(1), of es "[]"] E(2) by simp
  qed simp
  have "runs_to (seq_matcher ?nfa FirstMatch w) es []" by (rule stuck) (simp_all add: first_matcher_def CEPEngine_new_def)
  then show ?thesis using constructNFA_seq [of "[p]" d0 upd] by (auto simp: CEPEngine_new_def)
qed

end
