(* ===== verification/Cep_Patterns.thy ===== *)
theory Cep_Patterns
  imports Cep
begin

text \<open>
  Patterns with Kleene closure and with negation (\<open>cep/state/KleeneState.hpp\<close>,
  \<open>cep/edge/LoopEdge.hpp\<close>, \<open>CEPEngine::checkPredicate\<close>): automata built with the calls of
  \<open>NFAController\<close>, run by the first match engine. The locale \<open>match_automaton\<close> states what an
  automaton has to show for its partial matches; the stream a matcher then publishes is
  proved once inside it.
\<close>

section \<open>What an automaton promises to the first match engine\<close>

text \<open>An abstract partial match \<open>'x\<close> goes on, is complete with the given events, or is given up.\<close>

datatype ('x, 'e) outcome = Go 'x | Match "'e list" | GiveUp

fun run_matches :: "('e \<Rightarrow> 'x option) \<Rightarrow> ('x \<Rightarrow> 'e \<Rightarrow> ('x, 'e) outcome) \<Rightarrow> 'x option \<Rightarrow> 'e list \<Rightarrow> 'e list list" where
  "run_matches starts adv c [] = []"
| "run_matches starts adv None (e # es) = run_matches starts adv (starts e) es"
| "run_matches starts adv (Some x) (e # es) =
     (case adv x e of
        Go x' \<Rightarrow> run_matches starts adv (Some x') es
      | Match ms \<Rightarrow> ms # run_matches starts adv None es
      | GiveUp \<Rightarrow> run_matches starts adv None es)"

locale match_automaton =
  fixes nfa :: "('e, 'd) NFAController"
    and starts :: "'e \<Rightarrow> 'x option"
    and adv :: "'x \<Rightarrow> 'e \<Rightarrow> ('x, 'e) outcome"
    and rel :: "'x \<Rightarrow> ('e, 'd) NFAStructure \<Rightarrow> bool"
  assumes start_none: "starts e = None \<Longrightarrow> createStartStructure nfa e E = Inr E"
    and start_some: "starts e = Some x \<Longrightarrow>
      \<exists>str. createStartStructure nfa e E = Inr (E\<lparr>pool := pool E @ [str], sequence := sequence E + 1\<rparr>) \<and> rel x str"
    and adv_go: "rel x str \<Longrightarrow> adv x e = Go x' \<Longrightarrow>
      \<exists>str'. engineProcess (length (nfaStates nfa)) nfa w e str = Some (Inr (Kept str')) \<and> rel x' str'"
    and adv_match: "rel x str \<Longrightarrow> adv x e = Match ms \<Longrightarrow>
      \<exists>str'. engineProcess (length (nfaStates nfa)) nfa w e str = Some (Inr (Matched str')) \<and> matched_events str' = ms"
    and adv_giveup: "rel x str \<Longrightarrow> adv x e = GiveUp \<Longrightarrow>
      \<exists>str'. engineProcess (length (nfaStates nfa)) nfa w e str = Some (Inr (Dropped str'))"
begin

definition holds :: "'x option \<Rightarrow> ('e, 'd) Matcher \<Rightarrow> bool" where
  "holds c m \<longleftrightarrow> first_matcher nfa m \<and>
     (case c of None \<Rightarrow> pool (engine m) = [] | Some x \<Rightarrow> \<exists>str. pool (engine m) = [str] \<and> rel x str)"

lemma step_idle:
  assumes "holds None m"
  shows "\<exists>m1. matcher_step m (Data e False) = Some (Inr (m1, concat (map new_tuples []))) \<and>
    counter (engine m1) = counter (engine m) \<and> holds (starts e) m1"
proof (cases "starts e")
  case None
  then show ?thesis
    using assms start_none [OF None, of "engine m"]
    by (auto simp: holds_def first_matcher_def runEngine_def first_runEngine_def)
next
  case (Some x)
  then obtain str where "createStartStructure nfa e (engine m) =
      Inr ((engine m)\<lparr>pool := pool (engine m) @ [str], sequence := sequence (engine m) + 1\<rparr>)" "rel x str"
    using start_some by blast
  then show ?thesis
    using assms Some by (auto simp: holds_def first_matcher_def runEngine_def first_runEngine_def)
qed

lemma step_partial:
  assumes "holds (Some x) m"
  shows "\<exists>m1 ms c. matcher_step m (Data e False) = Some (Inr (m1, concat (map new_tuples ms))) \<and>
    counter (engine m1) = counter (engine m) + length ms \<and> holds c m1 \<and>
    (\<forall>es. run_matches starts adv (Some x) (e # es) = ms @ run_matches starts adv c es)"
proof -
  obtain str where str: "pool (engine m) = [str]" "rel x str" and fm: "first_matcher nfa m"
    using assms by (auto simp: holds_def)
  note defs = holds_def first_matcher_def runEngine_def first_runEngine_def
  show ?thesis
  proof (cases "adv x e")
    case (Go x')
    obtain str' where s: "engineProcess (length (nfaStates nfa)) nfa (windowConst (engine m)) e str = Some (Inr (Kept str'))" "rel x' str'"
      using adv_go [OF str(2) Go] by blast
    have "matcher_step m (Data e False) = Some (Inr (m\<lparr>engine := (engine m)\<lparr>pool := [str']\<rparr>\<rparr>, concat (map new_tuples [])))"
      and "holds (Some x') (m\<lparr>engine := (engine m)\<lparr>pool := [str']\<rparr>\<rparr>)"
      using fm s str by (auto simp: defs)
    then show ?thesis using Go by fastforce
  next
    case (Match ms)
    obtain str' where s: "engineProcess (length (nfaStates nfa)) nfa (windowConst (engine m)) e str = Some (Inr (Matched str'))"
      "matched_events str' = ms" using adv_match [OF str(2) Match] by blast
    let ?m = "m\<lparr>engine := (engine m)\<lparr>pool := [], counter := counter (engine m) + 1\<rparr>\<rparr>"
    have "matcher_step m (Data e False) = Some (Inr (?m, concat (map new_tuples [ms])))"
      using fm s str publish_match [of str'] by (simp add: defs)
    moreover have "holds None ?m" "counter (engine ?m) = counter (engine m) + length [ms]" using fm by (simp_all add: defs)
    ultimately show ?thesis using Match by fastforce
  next
    case GiveUp
    obtain str' where s: "engineProcess (length (nfaStates nfa)) nfa (windowConst (engine m)) e str = Some (Inr (Dropped str'))"
      using adv_giveup [OF str(2) GiveUp] by blast
    have "matcher_step m (Data e False) = Some (Inr (m\<lparr>engine := (engine m)\<lparr>pool := []\<rparr>\<rparr>, concat (map new_tuples [])))"
      and "holds None (m\<lparr>engine := (engine m)\<lparr>pool := []\<rparr>\<rparr>)"
      using fm s str by (auto simp: defs)
    then show ?thesis using GiveUp by fastforce
  qed
qed

lemma matcher_runs: "holds c m \<Longrightarrow> runs_to m es (run_matches starts adv c es)"
proof (induction es arbitrary: c m)
  case (Cons e es)
  show ?case
  proof (cases c)
    case None
    obtain m1 where m1: "matcher_step m (Data e False) = Some (Inr (m1, concat (map new_tuples [])))"
      "counter (engine m1) = counter (engine m)" "holds (starts e) m1" using step_idle [of m e] Cons.prems None by blast
    show ?thesis using runs_to_step [OF m1(1), of es "run_matches starts adv (starts e) es"] m1(2) Cons.IH [OF m1(3)] None by simp
  next
    case (Some x)
    obtain m1 ms c1 where m1: "matcher_step m (Data e False) = Some (Inr (m1, concat (map new_tuples ms)))"
      "counter (engine m1) = counter (engine m) + length ms" "holds c1 m1"
      "\<forall>es. run_matches starts adv (Some x) (e # es) = ms @ run_matches starts adv c1 es"
      using step_partial [of x m e] Cons.prems Some by blast
    show ?thesis using runs_to_step [OF m1(1,2), of es] Cons.IH [OF m1(3)] m1(4) Some by simp
  qed
qed simp

lemma matcher_publishes:
  "\<exists>m'. matcher_run (seq_matcher nfa FirstMatch w) (new_tuples es) =
     Some (Inr (m', concat (map new_tuples (run_matches starts adv None es)))) \<and>
   counter (engine m') = length (run_matches starts adv None es)"
  using matcher_runs [of None "seq_matcher nfa FirstMatch w" es]
  by (simp add: holds_def first_matcher_def CEPEngine_new_def)

end

section \<open>Kleene closure\<close>

text \<open>\<open>setNumOfLoop\<close> stores its argument in a \<open>short\<close>.\<close>

definition setNumOfLoop :: "nat \<Rightarrow> int \<Rightarrow> ('e, 'd) NFAController \<Rightarrow> ('e, 'd) NFAController res" where
  "setNumOfLoop edge numLoop nfa =
     (if numLoop \<ge> 0
      then Inr (nfa\<lparr>transitions := (transitions nfa)[edge := (transitions nfa ! edge)\<lparr>numOfLoop := sint (of_int numLoop :: 16 word)\<rparr>]\<rparr>)
      else Inl AssertFailed)"

text \<open>
  The automaton of a pattern \<open>p q* r\<close>, as a client builds it: a start state, a Kleene state
  with its loop edge, and a final state.
\<close>

definition build_kleene ::
  "KleeneSpecification \<Rightarrow> int \<Rightarrow> ('e \<Rightarrow> 'd option \<Rightarrow> bool) \<Rightarrow> ('e \<Rightarrow> 'd option \<Rightarrow> bool) \<Rightarrow> ('e \<Rightarrow> 'd option \<Rightarrow> bool) \<Rightarrow>
   ('e, 'd) NFAController \<Rightarrow> ('e, 'd) NFAController res" where
  "build_kleene sp n p q r nfa0 =
     (let (nfa1, s0) = createStartState ''0'' nfa0;
          (nfa2, s1) = createKleeneState ''1'' sp nfa1;
          (nfa3, s2) = createFinalState ''2'' nfa2;
          (nfa4, e0) = createForwardEdge p nfa3;
          (nfa5, e1) = createLoopEdge q nfa4;
          (nfa6, e2) = createForwardEdge r nfa5
      in bind_res (createForwardTransition s0 e0 s1 nfa6) (\<lambda>nfa7.
         bind_res (createForwardTransition s1 e2 s2 (setLoopEdge s1 e1 nfa7)) (\<lambda>nfa8.
           setNumOfLoop e1 n nfa8)))"

definition kleene_nfa ::
  "KleeneSpecification \<Rightarrow> int \<Rightarrow> 'd \<Rightarrow> ('d \<Rightarrow> nat \<Rightarrow> 'e \<Rightarrow> 'd) \<Rightarrow> ('e \<Rightarrow> 'd option \<Rightarrow> bool) \<Rightarrow> ('e \<Rightarrow> 'd option \<Rightarrow> bool) \<Rightarrow>
   ('e \<Rightarrow> 'd option \<Rightarrow> bool) \<Rightarrow> ('e, 'd) NFAController" where
  "kleene_nfa sp n d0 upd p q r =
     \<lparr>nfaStates =
        [\<lparr>stateType = Start, stateName = ''0'', forwardEdges = [0], loopEdge = None, spec = Star\<rparr>,
         \<lparr>stateType = Kleene, stateName = ''1'', forwardEdges = [2], loopEdge = Some 1, spec = sp\<rparr>,
         \<lparr>stateType = Final, stateName = ''2'', forwardEdges = [], loopEdge = None, spec = Star\<rparr>],
      transitions =
        [\<lparr>edgeType = Forward, predicate = p, destState = Some 1, numOfLoop = 0\<rparr>,
         \<lparr>edgeType = Loop, predicate = q, destState = None, numOfLoop = sint (of_int n :: 16 word)\<rparr>,
         \<lparr>edgeType = Forward, predicate = r, destState = Some 2, numOfLoop = 0\<rparr>],
      startState = Some 0, dep_init = d0, dep_update = upd\<rparr>"

lemma build_kleene_eq: "0 \<le> n \<Longrightarrow> build_kleene sp n p q r (NFAController_new d0 upd) = Inr (kleene_nfa sp n d0 upd p q r)"
  by (simp add: build_kleene_def kleene_nfa_def createStartState_def createKleeneState_def createFinalState_def addState_def
      createForwardEdge_def createLoopEdge_def createForwardTransition_def setLoopEdge_def setNumOfLoop_def NFAController_new_def)

text \<open>
  The partial match of this automaton: the events so far, how often the loop was taken (a
  \<open>short\<close>) and the related values.
\<close>

abbreviation fwd_ok :: "KleeneSpecification \<Rightarrow> int \<Rightarrow> 16 word \<Rightarrow> bool" where
  "fwd_ok sp n k \<equiv> (case sp of Star \<Rightarrow> True | Question \<Rightarrow> True | Plus \<Rightarrow> sint k = 1 | Restricted \<Rightarrow> sint (of_int n :: 16 word) \<le> sint k)"

abbreviation loop_ok :: "KleeneSpecification \<Rightarrow> int \<Rightarrow> 16 word \<Rightarrow> bool" where
  "loop_ok sp n k \<equiv> (case sp of Star \<Rightarrow> True | Question \<Rightarrow> True | Plus \<Rightarrow> sint k = 0 | Restricted \<Rightarrow> sint k < sint (of_int n :: 16 word))"

type_synonym ('e, 'd) kmatch = "'e list \<times> 16 word \<times> 'd"

definition kleene_starts :: "'d \<Rightarrow> ('d \<Rightarrow> nat \<Rightarrow> 'e \<Rightarrow> 'd) \<Rightarrow> ('e \<Rightarrow> 'd option \<Rightarrow> bool) \<Rightarrow> 'e \<Rightarrow> ('e, 'd) kmatch option" where
  "kleene_starts d0 upd p e = (if p e None then Some ([e], 0, upd d0 0 e) else None)"

fun kleene_adv ::
  "KleeneSpecification \<Rightarrow> int \<Rightarrow> ('d \<Rightarrow> nat \<Rightarrow> 'e \<Rightarrow> 'd) \<Rightarrow> ('e \<Rightarrow> 'd option \<Rightarrow> bool) \<Rightarrow> ('e \<Rightarrow> 'd option \<Rightarrow> bool) \<Rightarrow>
   ('e, 'd) kmatch \<Rightarrow> 'e \<Rightarrow> (('e, 'd) kmatch, 'e) outcome" where
  "kleene_adv sp n upd q r (ms, k, d) e =
     (if fwd_ok sp n k \<and> r e (Some d) then Match (ms @ [e])
      else if q e (Some d) \<and> loop_ok sp n k then Go (ms @ [e], k + 1, upd d 1 e)
      else Go (ms, k, d))"

definition kleene_rel :: "('e, 'd) kmatch \<Rightarrow> ('e, 'd) NFAStructure \<Rightarrow> bool" where
  "kleene_rel x str \<longleftrightarrow> currentState str = 1 \<and> \<not> complete str \<and> matched_events str = fst x \<and>
     kleeneState str 1 = fst (snd x) \<and> relatedValues str = snd (snd x)"

lemmas nfa_run_defs = createStartStructure_def NFAStructure_new_def addEvent_def evaluate_def engineProcess_def checkPredicate_def

lemma kleene_process:
  assumes "kleene_rel (ms, k, d) str"
  shows "\<exists>str'. engineProcess fuel (kleene_nfa sp n d0 upd p q r) w e str =
      Some (Inr (case kleene_adv sp n upd q r (ms, k, d) e of Match _ \<Rightarrow> Matched str' | _ \<Rightarrow> Kept str')) \<and>
    (case kleene_adv sp n upd q r (ms, k, d) e of
       Match ms' \<Rightarrow> matched_events str' = ms' | Go x' \<Rightarrow> kleene_rel x' str' | GiveUp \<Rightarrow> False)"
proof -
  let ?nfa = "kleene_nfa sp n d0 upd p q r"
  have st: "stateType (nfaStates ?nfa ! 1) = Kleene" "forwardEdges (nfaStates ?nfa ! 1) = [2]" "loopEdge (nfaStates ?nfa ! 1) = Some 1"
    "predicate (transitions ?nfa ! 2) = r" "predicate (transitions ?nfa ! 1) = q" "edgeType (transitions ?nfa ! 2) = Forward"
    "edgeType (transitions ?nfa ! 1) = Loop" "destState (transitions ?nfa ! 2) = Some 2" "stateType (nfaStates ?nfa ! 2) = Final"
    "dep_update ?nfa = upd" by (simp_all add: kleene_nfa_def)
  have k: "kleene_forward_ok ?nfa (nfaStates ?nfa ! 1) k = fwd_ok sp n k" "kleene_loop_ok ?nfa (nfaStates ?nfa ! 1) k = loop_ok sp n k"
    by (cases sp; simp add: kleene_forward_ok_def kleene_loop_ok_def kleene_nfa_def)+
  have str: "currentState str = 1" "\<not> complete str" "matched_events str = ms" "kleeneState str 1 = k" "relatedValues str = d"
    using assms by (auto simp: kleene_rel_def)
  show ?thesis
    using str st k unfolding nfa_run_defs
    by (cases "fwd_ok sp n k \<and> r e (Some d)"; cases "q e (Some d) \<and> loop_ok sp n k")
      (auto simp: kleene_rel_def evaluate_def hasWindow_def checkWindowTime_def Let_def)
qed

interpretation kleene: match_automaton "kleene_nfa sp n d0 upd p q r" "kleene_starts d0 upd p" "kleene_adv sp n upd q r" kleene_rel
proof
  let ?nfa = "kleene_nfa sp n d0 upd p q r"
  fix e E and x :: "('b, 'a) kmatch"
  show "kleene_starts d0 upd p e = None \<Longrightarrow> createStartStructure ?nfa e E = Inr E"
    by (simp add: kleene_starts_def nfa_run_defs kleene_nfa_def split: if_splits)
  show "kleene_starts d0 upd p e = Some x \<Longrightarrow>
      \<exists>str. createStartStructure ?nfa e E = Inr (E\<lparr>pool := pool E @ [str], sequence := sequence E + 1\<rparr>) \<and> kleene_rel x str"
    by (auto simp: kleene_starts_def nfa_run_defs kleene_nfa_def kleene_rel_def split: if_splits)
next
  let ?nfa = "kleene_nfa sp n d0 upd p q r"
  fix x :: "('b, 'a) kmatch" and str e x' w ms
  obtain ms0 k d where x: "x = (ms0, k, d)" by (cases x)
  note proc = kleene_process [of ms0 k d str "length (nfaStates ?nfa)" sp n d0 upd p q r w e, folded x]
  show "kleene_rel x str \<Longrightarrow> kleene_adv sp n upd q r x e = Go x' \<Longrightarrow>
      \<exists>str'. engineProcess (length (nfaStates ?nfa)) ?nfa w e str = Some (Inr (Kept str')) \<and> kleene_rel x' str'"
    using proc by auto
  show "kleene_rel x str \<Longrightarrow> kleene_adv sp n upd q r x e = Match ms \<Longrightarrow>
      \<exists>str'. engineProcess (length (nfaStates ?nfa)) ?nfa w e str = Some (Inr (Matched str')) \<and> matched_events str' = ms"
    using proc by auto
  show "kleene_rel x str \<Longrightarrow> kleene_adv sp n upd q r x e = GiveUp \<Longrightarrow>
      \<exists>str'. engineProcess (length (nfaStates ?nfa)) ?nfa w e str = Some (Inr (Dropped str'))"
    by (simp add: x split: if_splits)
qed

section \<open>Negation\<close>

text \<open>The automaton of a pattern \<open>p (not q) r\<close>: the edge of the negation state carries the forbidden predicate.\<close>

definition build_negation ::
  "('e \<Rightarrow> 'd option \<Rightarrow> bool) \<Rightarrow> ('e \<Rightarrow> 'd option \<Rightarrow> bool) \<Rightarrow> ('e \<Rightarrow> 'd option \<Rightarrow> bool) \<Rightarrow>
   ('e, 'd) NFAController \<Rightarrow> ('e, 'd) NFAController res" where
  "build_negation p q r nfa0 =
     (let (nfa1, s0) = createStartState ''0'' nfa0;
          (nfa2, s1) = createNegationState ''1'' nfa1;
          (nfa3, s2) = createNormalState ''2'' nfa2;
          (nfa4, s3) = createFinalState ''3'' nfa3;
          (nfa5, e0) = createForwardEdge p nfa4;
          (nfa6, e1) = createForwardEdge q nfa5;
          (nfa7, e2) = createForwardEdge r nfa6
      in bind_res (createForwardTransition s0 e0 s1 nfa7) (\<lambda>nfa8.
         bind_res (createForwardTransition s1 e1 s2 nfa8) (\<lambda>nfa9.
           createForwardTransition s2 e2 s3 nfa9)))"

definition negation_nfa ::
  "'d \<Rightarrow> ('d \<Rightarrow> nat \<Rightarrow> 'e \<Rightarrow> 'd) \<Rightarrow> ('e \<Rightarrow> 'd option \<Rightarrow> bool) \<Rightarrow> ('e \<Rightarrow> 'd option \<Rightarrow> bool) \<Rightarrow>
   ('e \<Rightarrow> 'd option \<Rightarrow> bool) \<Rightarrow> ('e, 'd) NFAController" where
  "negation_nfa d0 upd p q r =
     \<lparr>nfaStates =
        [\<lparr>stateType = Start, stateName = ''0'', forwardEdges = [0], loopEdge = None, spec = Star\<rparr>,
         \<lparr>stateType = Negation, stateName = ''1'', forwardEdges = [1], loopEdge = None, spec = Star\<rparr>,
         \<lparr>stateType = Normal, stateName = ''2'', forwardEdges = [2], loopEdge = None, spec = Star\<rparr>,
         \<lparr>stateType = Final, stateName = ''3'', forwardEdges = [], loopEdge = None, spec = Star\<rparr>],
      transitions =
        [\<lparr>edgeType = Forward, predicate = p, destState = Some 1, numOfLoop = 0\<rparr>,
         \<lparr>edgeType = Forward, predicate = q, destState = Some 2, numOfLoop = 0\<rparr>,
         \<lparr>edgeType = Forward, predicate = r, destState = Some 3, numOfLoop = 0\<rparr>],
      startState = Some 0, dep_init = d0, dep_update = upd\<rparr>"

lemma build_negation_eq: "build_negation p q r (NFAController_new d0 upd) = Inr (negation_nfa d0 upd p q r)"
  by (simp add: build_negation_def negation_nfa_def createStartState_def createNegationState_def createNormalState_def
      createFinalState_def addState_def createForwardEdge_def createForwardTransition_def NFAController_new_def)

definition negation_starts :: "'d \<Rightarrow> ('d \<Rightarrow> nat \<Rightarrow> 'e \<Rightarrow> 'd) \<Rightarrow> ('e \<Rightarrow> 'd option \<Rightarrow> bool) \<Rightarrow> 'e \<Rightarrow> ('e \<times> 'd) option" where
  "negation_starts d0 upd p e = (if p e None then Some (e, upd d0 0 e) else None)"

fun negation_adv ::
  "('e \<Rightarrow> 'd option \<Rightarrow> bool) \<Rightarrow> ('e \<Rightarrow> 'd option \<Rightarrow> bool) \<Rightarrow> 'e \<times> 'd \<Rightarrow> 'e \<Rightarrow> ('e \<times> 'd, 'e) outcome" where
  "negation_adv q r (e0, d) e =
     (if q e (Some d) then GiveUp else if r e (Some d) then Match [e0, e] else Go (e0, d))"

definition negation_rel :: "'e \<times> 'd \<Rightarrow> ('e, 'd) NFAStructure \<Rightarrow> bool" where
  "negation_rel x str \<longleftrightarrow> currentState str = 1 \<and> \<not> complete str \<and> matched_events str = [fst x] \<and> relatedValues str = snd x"

lemma negation_process:
  assumes "negation_rel (e0, d) str"
  shows "\<exists>str'. engineProcess (Suc fuel) (negation_nfa d0 upd p q r) w e str =
      Some (Inr (case negation_adv q r (e0, d) e of Match _ \<Rightarrow> Matched str' | Go _ \<Rightarrow> Kept str' | GiveUp \<Rightarrow> Dropped str')) \<and>
    (case negation_adv q r (e0, d) e of Match ms \<Rightarrow> matched_events str' = ms | Go x \<Rightarrow> negation_rel x str' | GiveUp \<Rightarrow> True)"
proof -
  let ?nfa = "negation_nfa d0 upd p q r"
  have str: "currentState str = 1" "\<not> complete str" "matched_events str = [e0]" "relatedValues str = d"
    using assms by (auto simp: negation_rel_def)
  have walk: "negation_walk (Suc fuel) ?nfa 1 e (Some d) = (if q e (Some d) then Some (Inl None) else Some (Inr 2))"
    by (simp add: negation_nfa_def evaluate_def)
  have st: "stateType (nfaStates ?nfa ! 1) = Negation" "stateType (nfaStates ?nfa ! 2) = Normal" "forwardEdges (nfaStates ?nfa ! 2) = [2]"
    "predicate (transitions ?nfa ! 2) = r" "edgeType (transitions ?nfa ! 2) = Forward" "destState (transitions ?nfa ! 2) = Some 3"
    "stateType (nfaStates ?nfa ! 3) = Final" by (simp_all add: negation_nfa_def)
  show ?thesis
    using str st walk unfolding nfa_run_defs
    by (cases "q e (Some d)"; cases "r e (Some d)")
      (auto simp: negation_rel_def evaluate_def hasWindow_def checkWindowTime_def Let_def simp del: negation_walk.simps)
qed

interpretation negation: match_automaton "negation_nfa d0 upd p q r" "negation_starts d0 upd p" "negation_adv q r" negation_rel
proof
  let ?nfa = "negation_nfa d0 upd p q r"
  fix e E x
  show "negation_starts d0 upd p e = None \<Longrightarrow> createStartStructure ?nfa e E = Inr E"
    by (simp add: negation_starts_def nfa_run_defs negation_nfa_def split: if_splits)
  show "negation_starts d0 upd p e = Some x \<Longrightarrow>
      \<exists>str. createStartStructure ?nfa e E = Inr (E\<lparr>pool := pool E @ [str], sequence := sequence E + 1\<rparr>) \<and> negation_rel x str"
    by (auto simp: negation_starts_def nfa_run_defs negation_nfa_def negation_rel_def split: if_splits)
next
  let ?nfa = "negation_nfa d0 upd p q r"
  fix x :: "'b \<times> 'a" and str e x' w ms
  obtain e0 d where x: "x = (e0, d)" by (cases x)
  have len: "length (nfaStates ?nfa) = Suc 3" by (simp add: negation_nfa_def)
  note proc = negation_process [of e0 d str 3 d0 upd p q r w e, folded x len]
  show "negation_rel x str \<Longrightarrow> negation_adv q r x e = Go x' \<Longrightarrow>
      \<exists>str'. engineProcess (length (nfaStates ?nfa)) ?nfa w e str = Some (Inr (Kept str')) \<and> negation_rel x' str'"
    using proc by auto
  show "negation_rel x str \<Longrightarrow> negation_adv q r x e = Match ms \<Longrightarrow>
      \<exists>str'. engineProcess (length (nfaStates ?nfa)) ?nfa w e str = Some (Inr (Matched str')) \<and> matched_events str' = ms"
    using proc by auto
  show "negation_rel x str \<Longrightarrow> negation_adv q r x e = GiveUp \<Longrightarrow>
      \<exists>str'. engineProcess (length (nfaStates ?nfa)) ?nfa w e str = Some (Inr (Dropped str'))"
    using proc by auto
qed

section \<open>Reference semantics\<close>

text \<open>
  What follows a start event: \<open>None\<close> if the stream ends first, otherwise the events of the
  match (or none if the match is given up) and the rest of the stream.
\<close>

definition star_scan :: "('e \<Rightarrow> bool) \<Rightarrow> ('e \<Rightarrow> bool) \<Rightarrow> 'e list \<Rightarrow> ('e list option \<times> 'e list) option" where
  "star_scan Q R es =
     (case dropWhile (\<lambda>e. \<not> R e) es of
        [] \<Rightarrow> None
      | x # rest \<Rightarrow> Some (Some (filter Q (takeWhile (\<lambda>e. \<not> R e) es) @ [x]), rest))"

fun subseq_scan :: "('e \<Rightarrow> bool) list \<Rightarrow> 'e list \<Rightarrow> ('e list option \<times> 'e list) option" where
  "subseq_scan [] es = Some (Some [], es)"
| "subseq_scan (P # Ps) [] = None"
| "subseq_scan (P # Ps) (e # es) =
     (if P e then map_option (map_prod (map_option ((#) e)) id) (subseq_scan Ps es) else subseq_scan (P # Ps) es)"

definition not_scan :: "('e \<Rightarrow> bool) \<Rightarrow> ('e \<Rightarrow> bool) \<Rightarrow> 'e list \<Rightarrow> ('e list option \<times> 'e list) option" where
  "not_scan Q R es =
     (case dropWhile (\<lambda>e. \<not> Q e \<and> \<not> R e) es of [] \<Rightarrow> None | x # rest \<Rightarrow> Some (if Q x then None else Some [x], rest))"

text \<open>The matches of a pattern that starts with \<open>P\<close>, one after the other.\<close>

function pattern_matches :: "('e \<Rightarrow> bool) \<Rightarrow> ('e list \<Rightarrow> ('e list option \<times> 'e list) option) \<Rightarrow> 'e list \<Rightarrow> 'e list list" where
  "pattern_matches P scan [] = []"
| "pattern_matches P scan (e # es) =
     (if P e
      then (case scan es of
              None \<Rightarrow> []
            | Some (m, rest) \<Rightarrow>
                (if length rest \<le> length es
                 then (case m of None \<Rightarrow> [] | Some ms \<Rightarrow> [e # ms]) @ pattern_matches P scan rest
                 else []))
      else pattern_matches P scan es)"
  by pat_completeness auto

termination
  by (relation "measure (\<lambda>(P, scan, es). length es)") auto

text \<open>An automaton whose partial matches follow \<open>scan\<close> publishes the matches of the pattern.\<close>

lemma run_matches_pattern:
  assumes starts: "\<And>e. starts e = (if P e then Some (init e) else None)"
    and follow: "\<And>e es. run_matches starts adv (Some (init e)) es =
      (case scan es of None \<Rightarrow> []
       | Some (m, rest) \<Rightarrow> (case m of None \<Rightarrow> [] | Some ms \<Rightarrow> [e # ms]) @ run_matches starts adv None rest)"
    and shorter: "\<And>es m rest. scan es = Some (m, rest) \<Longrightarrow> length rest \<le> length es"
  shows "run_matches starts adv None es = pattern_matches P scan es"
proof (induction es rule: length_induct)
  case (1 es)
  show ?case
  proof (cases es)
    case (Cons e es')
    then have IH: "length rest \<le> length es' \<Longrightarrow> run_matches starts adv None rest = pattern_matches P scan rest" for rest
      using 1 by simp
    show ?thesis
      using Cons IH [of es'] IH shorter starts [of e] follow [of e es'] by (auto split: option.splits)
  qed simp
qed

lemma star_scan_Cons:
  "star_scan Q R (e # es) =
     (if R e then Some (Some [e], es)
      else map_option (map_prod (map_option (\<lambda>ms. if Q e then e # ms else ms)) id) (star_scan Q R es))"
  by (cases "dropWhile (\<lambda>e. \<not> R e) es") (simp_all add: star_scan_def del: dropWhile_eq_Nil_conv)

lemma star_scan_shorter: "star_scan Q R es = Some (m, rest) \<Longrightarrow> length rest \<le> length es"
  using length_dropWhile_le [of "\<lambda>e. \<not> R e" es] by (auto simp: star_scan_def split: list.splits)

lemma subseq_scan_shorter: "subseq_scan Ps es = Some (m, rest) \<Longrightarrow> length rest \<le> length es"
  by (induction Ps es arbitrary: m rule: subseq_scan.induct) (fastforce split: if_splits)+

lemma not_scan_shorter: "not_scan Q R es = Some (m, rest) \<Longrightarrow> length rest \<le> length es"
  using length_dropWhile_le [of "\<lambda>e. \<not> Q e \<and> \<not> R e" es] by (auto simp: not_scan_def split: list.splits)

lemma sint_small: "int j < 2 ^ 15 \<Longrightarrow> sint (of_nat j :: 16 word) = int j"
  by (simp add: signed_of_nat signed_take_bit_int_eq_self)

text \<open>The predicates of the closed forms depend on the event only.\<close>

abbreviation on_event :: "('e \<Rightarrow> bool) \<Rightarrow> 'e \<Rightarrow> 'd option \<Rightarrow> bool" where
  "on_event P \<equiv> (\<lambda>e _. P e)"

abbreviation after :: "'e list \<Rightarrow> ('e list option \<times> 'e list) option \<Rightarrow> ('e list \<Rightarrow> 'e list list) \<Rightarrow> 'e list list" where
  "after ms r continue \<equiv>
     (case r of None \<Rightarrow> []
      | Some (m, rest) \<Rightarrow> (case m of None \<Rightarrow> [] | Some ms' \<Rightarrow> [ms @ ms']) @ continue rest)"

lemma star_follow:
  assumes "sp \<in> {Star, Question}"
  shows "run_matches starts (kleene_adv sp n upd (on_event Q) (on_event R)) (Some (ms, k, d)) es =
    after ms (star_scan Q R es) (run_matches starts (kleene_adv sp n upd (on_event Q) (on_event R)) None)"
proof (induction es arbitrary: ms k d)
  case Nil
  then show ?case by (simp add: star_scan_def)
next
  case (Cons e es)
  have ok: "fwd_ok sp n k" "loop_ok sp n k" using assms by auto
  show ?case
    using ok Cons.IH by (auto simp: star_scan_Cons split: option.splits)
qed

text \<open>A state that takes its loop exactly \<open>N\<close> times before it can be left.\<close>

lemma counted_follow:
  assumes fwd: "\<And>j. j \<le> N \<Longrightarrow> fwd_ok sp n (of_nat j) \<longleftrightarrow> j = N" and loop: "\<And>j. j \<le> N \<Longrightarrow> loop_ok sp n (of_nat j) \<longleftrightarrow> j < N"
    and "j \<le> N"
  shows "run_matches starts (kleene_adv sp n upd (on_event Q) (on_event R)) (Some (ms, of_nat j, d)) es =
    after ms (subseq_scan (replicate (N - j) Q @ [R]) es) (run_matches starts (kleene_adv sp n upd (on_event Q) (on_event R)) None)"
  using assms(3)
proof (induction es arbitrary: ms j d)
  case Nil
  then show ?case by (cases "N - j") simp_all
next
  case (Cons e es)
  note ok = fwd [OF Cons.prems] loop [OF Cons.prems]
  show ?case
  proof (cases "j = N")
    case True
    then show ?thesis using ok Cons.IH [OF Cons.prems] by (auto split: option.splits)
  next
    case False
    then have j: "j < N" "Suc j \<le> N" and rep: "replicate (N - j) Q @ [R] = Q # replicate (N - Suc j) Q @ [R]"
      using Cons.prems by (simp_all add: Suc_diff_Suc flip: replicate_Suc)
    have k: "of_nat j + 1 = (of_nat (Suc j) :: 16 word)" by simp
    show ?thesis
      using ok j Cons.IH [OF Cons.prems] Cons.IH [OF j(2)] unfolding rep
      by (cases "Q e") (auto simp: k simp del: of_nat_Suc split: option.splits)
  qed
qed

lemma negation_follow:
  "run_matches starts (negation_adv (on_event Q) (on_event R)) (Some (e0, d)) es =
    after [e0] (not_scan Q R es) (run_matches starts (negation_adv (on_event Q) (on_event R)) None)"
proof (induction es)
  case (Cons e es)
  then show ?case by (auto simp: not_scan_def split: list.splits)
qed (simp add: not_scan_def)

section \<open>Properties\<close>

text \<open>What the specifications of a Kleene state mean in this implementation.\<close>

definition kleene_meaning :: "KleeneSpecification \<Rightarrow> nat \<Rightarrow> ('e \<Rightarrow> bool) \<Rightarrow> ('e \<Rightarrow> bool) \<Rightarrow> 'e list \<Rightarrow> ('e list option \<times> 'e list) option" where
  "kleene_meaning sp N Q R =
     (case sp of
        Star \<Rightarrow> star_scan Q R
      | Question \<Rightarrow> star_scan Q R
      | Plus \<Rightarrow> subseq_scan [Q, R]
      | Restricted \<Rightarrow> subseq_scan (replicate N Q @ [R]))"

lemma kleene_meaning_shorter: "kleene_meaning sp N Q R es = Some (m, rest) \<Longrightarrow> length rest \<le> length es"
  by (cases sp) (auto simp: kleene_meaning_def dest: star_scan_shorter subseq_scan_shorter simp del: subseq_scan.simps)

lemma kleene_follow:
  assumes "int N < 2 ^ 15"
  shows "run_matches starts (kleene_adv sp (int N) upd (on_event Q) (on_event R)) (Some (ms, 0, d)) es =
    after ms (kleene_meaning sp N Q R es) (run_matches starts (kleene_adv sp (int N) upd (on_event Q) (on_event R)) None)"
proof (cases sp)
  case Plus
  have "sint (of_nat j :: 16 word) = int j" if "j \<le> 1" for j using that by (intro sint_small) simp
  moreover have "replicate 1 Q @ [R] = [Q, R]" by simp
  ultimately show ?thesis
    using counted_follow [where N = 1 and sp = sp and n = "int N" and j = 0 and starts = starts and upd = upd and Q = Q and R = R and ms = ms and d = d and es = es] Plus
    by (simp add: kleene_meaning_def del: subseq_scan.simps One_nat_def)
next
  case Restricted
  have "sint (of_nat j :: 16 word) = int j" if "j \<le> N" for j using that assms by (intro sint_small) simp
  then show ?thesis
    using counted_follow [where N = N and sp = sp and n = "int N" and j = 0 and starts = starts and upd = upd and Q = Q and R = R and ms = ms and d = d and es = es] Restricted
    by (auto simp: kleene_meaning_def)
qed (unfold kleene_meaning_def, simp_all only: KleeneSpecification.case, (rule star_follow, simp)+)

text \<open>
  The stream that a matcher publishes for a Kleene state of each specification. For \<open>Star\<close> and \<open>Restricted\<close> it is what
  \<open>KleeneState.hpp\<close> documents. The comment there says at most one for \<open>Question\<close> and one or more for \<open>Plus\<close>, which the code
  does not do: the lemmas behind this one state what it does.
\<close>

lemma kleene_matches:
  fixes P Q R :: "'e \<Rightarrow> bool" and d0 :: 'd
  assumes "int N < 2 ^ 15"
  shows "\<exists>nfa m'. build_kleene sp (int N) (on_event P) (on_event Q) (on_event R) (NFAController_new d0 upd) = Inr nfa \<and>
    matcher_run (seq_matcher nfa FirstMatch w) (new_tuples es) =
      Some (Inr (m', concat (map new_tuples (pattern_matches P (kleene_meaning sp N Q R) es)))) \<and>
    counter (engine m') = length (pattern_matches P (kleene_meaning sp N Q R) es)"
proof -
  let ?starts = "kleene_starts d0 upd (on_event P)" and ?adv = "kleene_adv sp (int N) upd (on_event Q) (on_event R)"
  have "run_matches ?starts ?adv None es = pattern_matches P (kleene_meaning sp N Q R) es"
    by (rule run_matches_pattern [where init = "\<lambda>e. ([e], 0, upd d0 0 e)"])
      (simp_all add: kleene_starts_def kleene_follow [OF assms] kleene_meaning_shorter split: option.split del: kleene_adv.simps)
  then show ?thesis
    using kleene.matcher_publishes [where w = w and es = es and sp = sp and n = "int N" and upd = upd and p = "on_event P" and q = "on_event Q" and r = "on_event R", of d0]
      build_kleene_eq [of "int N" sp "on_event P" "on_event Q" "on_event R" d0 upd] by auto
qed

text \<open>
  With \<open>Question\<close> a match can hold two events of the Kleene state, although at most one is
  documented; with \<open>Plus\<close> it never holds more than one, although one or more are documented.
\<close>

lemma question_collects_more:
  "\<exists>nfa m'. build_kleene Question (int 0) (on_event (\<lambda>x. x = 1)) (on_event (\<lambda>x. x = 2)) (on_event (\<lambda>x. x = 3)) (NFAController_new () (\<lambda>d _ _. d)) = Inr nfa \<and>
     matcher_run (seq_matcher nfa FirstMatch w) (new_tuples [1, 2, 2, 3 :: nat]) = Some (Inr (m', new_tuples [1, 2, 2, 3]))"
proof -
  have n: "int 0 < 2 ^ 15" and f: "pattern_matches (\<lambda>x. x = 1) (kleene_meaning Question 0 (\<lambda>x. x = 2) (\<lambda>x. x = 3)) [1, 2, 2, 3 :: nat] = [[1, 2, 2, 3]]"
    by (simp_all add: kleene_meaning_def star_scan_def)
  have out: "concat (map new_tuples [[1, 2, 2, 3 :: nat]]) = new_tuples [1, 2, 2, 3]" by simp
  show ?thesis
    using kleene_matches [OF n, of Question "\<lambda>x. x = 1" "\<lambda>x. x = 2" "\<lambda>x. x = 3" "()" "\<lambda>d _ _. d" w "[1, 2, 2, 3 :: nat]"] unfolding f out by blast
qed

lemma plus_collects_one:
  "\<exists>nfa m'. build_kleene Plus (int 0) (on_event (\<lambda>x. x = 1)) (on_event (\<lambda>x. x = 2)) (on_event (\<lambda>x. x = 3)) (NFAController_new () (\<lambda>d _ _. d)) = Inr nfa \<and>
     matcher_run (seq_matcher nfa FirstMatch w) (new_tuples [1, 2, 2, 3 :: nat]) = Some (Inr (m', new_tuples [1, 2, 3]))"
proof -
  have n: "int 0 < 2 ^ 15" and f: "pattern_matches (\<lambda>x. x = 1) (kleene_meaning Plus 0 (\<lambda>x. x = 2) (\<lambda>x. x = 3)) [1, 2, 2, 3 :: nat] = [[1, 2, 3]]"
    by (simp_all add: kleene_meaning_def)
  have out: "concat (map new_tuples [[1, 2, 3 :: nat]]) = new_tuples [1, 2, 3]" by simp
  show ?thesis
    using kleene_matches [OF n, of Plus "\<lambda>x. x = 1" "\<lambda>x. x = 2" "\<lambda>x. x = 3" "()" "\<lambda>d _ _. d" w "[1, 2, 2, 3 :: nat]"] unfolding f out by blast
qed

text \<open>
  (C13) Kleene closure with \<open>Star\<close> and \<open>Restricted\<close>. With the automaton of a pattern \<open>p q* r\<close> the first match engine publishes,
  for every stream, exactly the consecutive matches of the pattern, event by event, and
  counts them. With \<open>Star\<close> a match holds all events that satisfy \<open>q\<close> before the first one that
  satisfies \<open>r\<close>; with \<open>Restricted\<close> it holds exactly the given number of such events and then the next that satisfies \<open>r\<close>.
  The specifications \<open>Plus\<close> and \<open>Question\<close> are no part of the property, since the code does not do what their comment says.
\<close>

theorem kleene_patterns_detected:
  fixes P Q R :: "'e \<Rightarrow> bool" and d0 :: 'd
  assumes "int N < 2 ^ 15" and "sp = Star \<or> sp = Restricted"
  shows "\<exists>nfa m'. build_kleene sp (int N) (on_event P) (on_event Q) (on_event R) (NFAController_new d0 upd) = Inr nfa \<and>
    matcher_run (seq_matcher nfa FirstMatch w) (new_tuples es) =
      Some (Inr (m', concat (map new_tuples (pattern_matches P (if sp = Star then star_scan Q R else subseq_scan (replicate N Q @ [R])) es)))) \<and>
    counter (engine m') = length (pattern_matches P (if sp = Star then star_scan Q R else subseq_scan (replicate N Q @ [R])) es)"
proof -
  have "kleene_meaning sp N Q R = (if sp = Star then star_scan Q R else subseq_scan (replicate N Q @ [R]))"
    using assms(2) by (auto simp: kleene_meaning_def)
  then show ?thesis using kleene_matches [OF assms(1), of sp P Q R d0 upd w es] by simp
qed

theorem kleene_patterns_detected_witness:
  "\<exists>nfa m'. build_kleene Star (int 0) (on_event (\<lambda>x. x = 1)) (on_event (\<lambda>x. x = 2)) (on_event (\<lambda>x. x = 3)) (NFAController_new () (\<lambda>d _ _. d)) = Inr nfa \<and>
    matcher_run (seq_matcher nfa FirstMatch (setWindowConstraint 5 (- 1) (- 1))) (new_tuples [1, 2, 5, 2, 3, 2, 1, 3 :: nat]) =
      Some (Inr (m', new_tuples [1, 2, 2, 3, 1, 3])) \<and> counter (engine m') = 2"
proof -
  let ?es = "[1, 2, 5, 2, 3, 2, 1, 3 :: nat]"
  have n: "int 0 < 2 ^ 15"
    and st: "Star = Star \<or> Star = Restricted"
    and f: "pattern_matches (\<lambda>x. x = 1) (if Star = Star then star_scan (\<lambda>x. x = 2) (\<lambda>x. x = 3) else subseq_scan (replicate 0 (\<lambda>x. x = 2) @ [\<lambda>x. x = 3])) ?es = [[1, 2, 2, 3], [1, 3]]"
    by (simp_all add: star_scan_def)
  have out: "concat (map new_tuples [[1, 2, 2, 3], [1, 3]]) = new_tuples [1, 2, 2, 3, 1, 3 :: nat]" "length [[1, 2, 2, 3], [1, 3 :: nat]] = 2"
    by simp_all
  show ?thesis
    using kleene_patterns_detected [OF n st, of "\<lambda>x. x = 1" "\<lambda>x. x = 2" "\<lambda>x. x = 3" "()" "\<lambda>d _ _. d" "setWindowConstraint 5 (- 1) (- 1)" ?es]
    unfolding f out by blast
qed

text \<open>
  (C14) Negation. With the automaton of a pattern \<open>p (not q) r\<close> the first match engine publishes
  exactly the pairs of an event that satisfies \<open>p\<close> and the next event that satisfies \<open>r\<close>,
  unless an event that satisfies \<open>q\<close> comes first or is the same event: then the match is given
  up and the search for \<open>p\<close> starts again behind it.
\<close>

theorem negation_patterns_detected:
  fixes P Q R :: "'e \<Rightarrow> bool" and d0 :: 'd
  shows "\<exists>nfa m'. build_negation (on_event P) (on_event Q) (on_event R) (NFAController_new d0 upd) = Inr nfa \<and>
    matcher_run (seq_matcher nfa FirstMatch w) (new_tuples es) =
      Some (Inr (m', concat (map new_tuples (pattern_matches P (not_scan Q R) es)))) \<and>
    counter (engine m') = length (pattern_matches P (not_scan Q R) es)"
proof -
  let ?starts = "negation_starts d0 upd (on_event P)" and ?adv = "negation_adv (on_event Q) (on_event R)"
  have "run_matches ?starts ?adv None es = pattern_matches P (not_scan Q R) es"
    by (rule run_matches_pattern [where init = "\<lambda>e. (e, upd d0 0 e)"])
      (simp_all add: negation_starts_def negation_follow not_scan_shorter split: option.split del: negation_adv.simps)
  then show ?thesis
    using negation.matcher_publishes [where w = w and es = es and upd = upd and p = "on_event P" and q = "on_event Q" and r = "on_event R", of d0]
      build_negation_eq [of "on_event P" "on_event Q" "on_event R" d0 upd] by auto
qed

end
