(* ===== verification/Spec2Isabelle.thy ===== *)
theory Spec2Isabelle
  imports Freq_Patterns Query_Compiler Zmq_Transport Rdb_Table Pbptree_Table Text_IO Tuplify Matrices Topology_Run Channels Pipe_Builder Table_Ops Bocc_Table Aggr_Median Aggr_Ops Joins Stream_Ops Cep_Patterns
begin

text \<open>
  \<^bold>\<open>PipeFabric: a verification library.\<close>

  \<^bold>\<open>The program.\<close> PipeFabric is a C++ framework for data stream processing. A query is a graph
  of operators (\<open>src/src/qop\<close>); each has a data channel, over which tuples travel with a flag
  that says whether the tuple is outdated (a retraction), and a punctuation channel for
  markers (end of stream, slide expired, begin, commit and abort of a transaction). Windows
  turn a stream into insertions and retractions, aggregates and joins keep their state in
  step with both, and table operators move streams into tables (\<open>src/src/table\<close>) and back. The
  tables come as a plain hash table, a concurrent cuckoo table, a transactional table with a
  redo log, and three tables with concurrency control (multi-version, two-phase locking and
  optimistic), which share one transaction context. A matcher (\<open>src/src/cep\<close>) finds event
  patterns with a nondeterministic automaton. Tuples (\<open>src/src/core\<close>) have a binary wire format.

  \<^bold>\<open>Conventions.\<close> A channel pair is one sequence of \<open>event\<close>s, \<open>Data x outdated\<close> or \<open>Punct p\<close>;
  a handler is a step function (type \<open>opstep\<close>) that returns the new state and what the
  operator publishes, and \<open>run\<close> runs it over a sequence. Exceptions, failed assertions and
  undefined accesses of the code are values of the type \<open>op_error\<close>. Concurrency is a sequence of atomic steps: every theorem about several threads or
  transactions quantifies over all sequences of the steps its theory declares.

  \<^bold>\<open>Theories, sources and results.\<close>

  \<^item> \<open>Pf_Prelude\<close> (\<open>core/Punctuation.hpp\<close>): events, punctuations, errors, the run of an operator,
    the interfaces. \<open>total_operator\<close>: an operator that keeps an invariant does not fail;
    \<open>conserving_operator\<close>: moreover what it holds and what it retracted is what it received.
  \<^item> \<open>Windows\<close> (\<open>qop/Window.hpp\<close>, \<open>qop/Window.cpp\<close>, \<open>qop/SlidingWindow.hpp\<close>,
    \<open>qop/TumblingWindow.hpp\<close>): all window types with incremental and periodic eviction. The
    buffer of a sliding window is the suffix of its input that the window size allows, and
    each tuple is retracted once, in order; a tumbling window empties itself in full batches;
    range windows in seconds are exact only while the conversion to microseconds fits.
  \<^item> \<open>Hash_Table\<close> (\<open>table/HashMapTable.hpp\<close>, \<open>table/BaseTable.hpp\<close>): insert, update, delete,
    scans, and observer notification, immediate or deferred. Refines a finite map (locale
    \<open>kv_store\<close>) up to the copies that the copy constructor of the records makes; a scan visits each matching record once.
  \<^item> \<open>Cuckoo_Table\<close> (\<open>table/CuckooTable.hpp\<close>): the same operations over the vendored
    \<open>cuckoohash_map\<close>, which is a parameter: a record of its operations with the documented laws
    \<open>cuckoo_laws\<close> as hypothesis, and an association list as witness that they can hold.
  \<^item> \<open>Tx_Table\<close> (\<open>table/TxTable.hpp\<close>, \<open>table/LogBuffer.hpp\<close>): redo log, begin, commit, abort. Every
    interleaving of transactions equals the serial execution of the committed ones in the
    order of their commits.
  \<^item> \<open>Slot_Mask\<close> and \<open>State_Context\<close> (\<open>table/StateContext.cpp\<close>, \<open>table/StateContext.hpp\<close>): the 64-bit mask
    with its compare-and-swap loops and the de-Bruijn search (exact for all masks), slots are
    never handed out twice; active transactions, states, groups and the oldest visible version,
    which never exceeds the snapshot of a registered reader.
  \<^item> \<open>Mvcc_Object\<close> and \<open>Mvcc_Table\<close> (\<open>table/MVCCTable.hpp\<close>): versions with creation and deletion
    time, garbage collection, the write set, commit, two-phase commit over the tables of a
    group. Snapshots survive writes and clean-ups once the horizon is set, reads of existing keys are repeatable, a commit becomes
    visible as a whole, a commit ends as soon as its readers are gone, the last table of a
    group commits for all.
  \<^item> \<open>S2pl_Table\<close> (\<open>table/S2PLTable.hpp\<close>): row locks with the announced writer, growing and
    releasing phases, with one writer. What a reader holds is current, finished and cannot be written, and committed unless an
    aborted transaction wrote the key (an abort does not undo); a writer that waits
    for a row proceeds when the readers have left it.
  \<^item> \<open>Bocc_Table\<close> (\<open>table/BOCCTable.hpp\<close>): read sets, the list of committed write sets, backward
    validation and the reader-writer lock. What a validated transaction has read is the
    committed state of one point in time.
  \<^item> \<open>Table_Ops\<close> (\<open>qop/ToTable.hpp\<close>, \<open>qop/ToTxTable.hpp\<close>, \<open>qop/ToMVCCTable.hpp\<close>, \<open>qop/FromTable.hpp\<close>,
    \<open>qop/SelectFromTable.hpp\<close>, \<open>qop/SelectFromTxTable.hpp\<close>, \<open>qop/SelectFromMVCCTable.hpp\<close>,
    \<open>qop/FromTxTables.hpp\<close>): composition of windows and tables (a table behind a sliding window
    holds the window if its keys are distinct), of transactional streams and tables, change streams, and read
    transactions over groups of locking tables.
  \<^item> \<open>Rdb_Table\<close> (\<open>table/RDBTable.hpp\<close>): the table over RocksDB, a parameter with the laws \<open>rocksdb_laws\<close>, composed
    with the serialization of tuples. Every sequence of operations survives closing and opening the table;
    the record counter is an upper bound, with the cases where it is not exact; iterators share positions.
  \<^item> \<open>Pbptree_Table\<close> (\<open>table/PBPTreeTable.hpp\<close>): the table over a persistent B+-tree, a parameter with the laws
    \<open>pbptree_laws\<close>; it is a \<open>kv_store\<close> of attribute lists, and what \<open>drop\<close> and a missing key do.
  \<^item> \<open>Aggr_Funcs\<close> and \<open>Aggr_Median\<close> (\<open>qop/aggr_functions\<close>): the incremental aggregates against
    their definition on a multiset (locale \<open>aggregate_func\<close>); for the median both the case it
    handles and the ones it does not.
  \<^item> \<open>Aggr_Ops\<close> (\<open>qop/AggregateStateBase.hpp\<close>, \<open>qop/Aggregation.hpp\<close>, \<open>qop/GroupedAggregation.hpp\<close>,
    \<open>qop/TriggerNotifier.cpp\<close>): aggregation operators with all triggers. Behind a window every
    published value is the aggregate of the window; grouped aggregation publishes the
    aggregate of each group, for average and extrema as long as no retraction empties a group.
  \<^item> \<open>Serializer\<close> and \<open>Tuples\<close> (\<open>core/serialize.hpp\<close>, \<open>core/Tuple.hpp\<close>, \<open>core/StreamElementTraits.hpp\<close>,
    \<open>qop/TupleDeserializer.hpp\<close>, \<open>qop/EagerElementJoin.hpp\<close>): sizes, writing and reading of
    numbers, strings, vectors and tuples with the checks on a short buffer; the round trip
    through the wire, and null attributes.
  \<^item> \<open>Joins\<close> (\<open>qop/SHJoin.hpp\<close>, \<open>qop/ScaleJoin.hpp\<close>): for distinct tuples the symmetric hash join publishes at every
    step the change of the join of what both sides hold, and the parallel join publishes
    the same pairs.
  \<^item> \<open>Stream_Ops\<close> (\<open>qop/Where.hpp\<close>, \<open>qop/Map.hpp\<close>, \<open>qop/StatefulMap.hpp\<close>, \<open>qop/Notify.hpp\<close>,
    \<open>qop/Merge.hpp\<close>, \<open>qop/Barrier.hpp\<close>, \<open>qop/Batcher.hpp\<close>, \<open>qop/Queue.hpp\<close>, \<open>qop/PartitionBy.hpp\<close>):
    batching and its inverse, the queue between two threads in every interleaving, and the
    order of tuples across partitioning and merging.
  \<^item> \<open>Cep\<close> (\<open>cep/Matcher.hpp\<close>, \<open>cep/NFAController.hpp\<close>, \<open>cep/CEPEngine.hpp\<close>, \<open>cep/engine\<close>,
    \<open>cep/dsl/CEPState.hpp\<close>): the automaton built from a sequence pattern makes the matcher
    publish the occurrences of the pattern, for both engines.
  \<^item> \<open>Cep_Patterns\<close> (\<open>cep/edge/LoopEdge.hpp\<close>, \<open>cep/state/KleeneState.hpp\<close>): automata with Kleene closure and with negation.
    The locale \<open>match_automaton\<close> says what an automaton promises to the first match engine, and is interpreted for both;
    the published matches are those of closed reference definitions. \<open>Question\<close> and \<open>Plus\<close> do not mean what their comment says.
  \<^item> \<open>Channels\<close> (\<open>pubsub/signals\<close>, \<open>pubsub/channels\<close>): signals, slots, subscriptions and channels over a
    store of objects. A publication calls exactly the slots of the open subscriptions, in the
    order of their connection; slot numbers wrap.
  \<^item> \<open>Pipe_Builder\<close> (\<open>dsl/Pipe.hpp\<close>, \<open>dsl/Dataflow.cpp\<close>, \<open>dsl/Topology.hpp\<close>): the methods that allocate and
    connect operators, with partitions. A chain of calls builds the specified graph, its
    connections are well typed, and a pipe that is used twice inside a partitioning is not.
  \<^item> \<open>Topology_Run\<close> (\<open>dsl/Topology.cpp\<close>, \<open>dsl/PFabricContext.hpp\<close>, \<open>table/TableInfo.cpp\<close>): start functions,
    futures, timers as a step relation in which every call of a start function begins and ends on its own, the registry of tables and streams, schemas.
    If the start functions return, \<open>wait\<close> returns after all sources of asynchronous starts have ended; it waits for no timer.
  \<^item> \<open>Text_IO\<close> (\<open>qop/TextFileSource.cpp\<close>, \<open>qop/TupleExtractor.hpp\<close>, \<open>core/parser\<close>, \<open>core/TuplePrinter.hpp\<close>,
    \<open>qop/ConsoleWriter.hpp\<close>, \<open>qop/MemorySource.hpp\<close>, \<open>qop/StreamGenerator.hpp\<close>): readers of files over the reused line
    buffer, extraction of fields, printing. The readers agree, written tuples whose texts convert back are read back, and a
    short line takes over a field of the line before it. The number parsers are a parameter with the law
    \<open>reads_decimals\<close>; \<open>c_conversions\<close> shows that it can hold.
  \<^item> \<open>Tuplify\<close> (\<open>qop/Tuplifier.hpp\<close>): triples to tuples in all four modes; grouped and unordered streams
    give one row per subject, no handler fails, and what completed and window mode do with repeated
    predicates and timestamps.
  \<^item> \<open>Matrices\<close> (\<open>matrix/DenseMatrix.hpp\<close>, \<open>matrix/SparseMatrix.hpp\<close>, \<open>qop/MatrixSlice.hpp\<close>, \<open>qop/MatrixMerge.hpp\<close>,
    \<open>qop/ToMatrix.hpp\<close>, \<open>qop/FromMatrix.hpp\<close>): the containers of Eigen are parameters with the laws \<open>dense_laws\<close> and
    \<open>sparse_laws\<close> and instances that satisfy them. Dense matrices that are sliced and merged in any interleaving come
    back; the parts of sparse ones lose their identifier.
  \<^item> \<open>Zmq_Transport\<close> (\<open>qop/ZMQSink.hpp\<close>, \<open>qop/ZMQSource.cpp\<close>, \<open>net/ZMQSocket.cpp\<close>): streams over 0MQ, composed with the
    serialization of tuples; messages and results of receive calls are explicit sequences. Tuples arrive in order and as new
    ones, punctuations arrive as tuples; the control of the reader thread and the handshake of two sockets are step relations
    with their invariants.
  \<^item> \<open>Query_Compiler\<close> (\<open>qcomp\<close>): from a parsed query to a plan, its check against the schemas of the context, the C++ text that is
    generated and the cache. The text of a condition means the condition, a query compiles exactly if its table and
    columns exist, and a query string is compiled once; the parser and the loading of libraries are parameters.
  \<^item> \<open>Freq_Patterns\<close> (\<open>usecases/FreqTrajectories\<close>): mining of frequent trajectories over views of shared vectors. What is published
    is frequent, distinct and maximal, and complete if no track comes back to a landmark; the order of hash maps is a parameter.

  \<^bold>\<open>Bounds and fuel.\<close> Counters, masks, timestamps and transaction ids are 64-bit words where
  the code computes with them; the optimistic table uses natural numbers for its timestamps,
  which stand for the words of the code up to \<open>2 ^ 64 - 1\<close>. Loops that wait for other
  threads take fuel or are a blocked step: \<open>mvcc_update\<close> and the commits above it return \<open>None\<close>
  while they wait, and a theorem shows that enough fuel gives a result; \<open>it_collect\<close>, \<open>rit_collect\<close> and \<open>pit_collect\<close> need one
  round more than the table has records, which their theorems state; the read loop
  \<open>ftx_start\<close> needs one round per attempt; the negation walk of the matcher takes the number of
  states as fuel, which is enough unless negation states form a cycle, where the code loops too.
  The depth of the mining of trajectories is bounded by the longest track, and \<open>mine_ok\<close> shows that this is enough.
  All other loops are structural recursions.

  \<^bold>\<open>Not modelled.\<close> The Kafka, MQTT, RabbitMQ and REST sources (input and output only); JSON, parsed by a vendored library;
  \<open>table/BDCCPTable.hpp\<close>, a wrapper of a table of another project whose behaviour is not documented; the
  grammar of the query compiler, whose meaning is that of Boost.Spirit, its settings and the C++ compiler it calls; the Python bindings; the
  template metaprogramming of channels and of \<open>libcpp\<close>, which has no state at run time;
  the insertion and removal of rows and columns of matrices; the demonstration programs. Within modelled components: memory order below
  the atomic operations, the actual scheduling, reference counts, floating-point rounding,
  and time sources.
\<close>

end
